(* ===== verification/GL_Prelude.thy ===== *)
theory GL_Prelude
  imports Main "HOL-Library.Char_ord" "HOL-Library.List_Lexorder" "HOL-Library.Sublist"
    "HOL-Library.Word"
begin

text \<open>
  Shared material of the development: the C++ machine sizes and the outcomes of a C++ call,
  the \<^verbatim>\<open>std::string\<close> searches and \<^verbatim>\<open>std::map\<close> operations that the
  GreenLib sources use, with the lemmas that the component theories rest on.
\<close>

section \<open>Collections of facts\<close>

named_theorems str_simps \<open>characterisations of the std::string searches\<close>
named_theorems map_simps \<open>lookup after an operation on an ordered map\<close>
named_theorems res_simps \<open>sequencing of C++ outcomes\<close>

section \<open>Outcomes of a C++ call\<close>

text \<open>
  A call returns normally, throws a SystemC report (\<^verbatim>\<open>SC_REPORT_ERROR\<close> and
  \<^verbatim>\<open>SC_REPORT_FATAL\<close> with the default actions), throws a standard exception, fails an
  \<^verbatim>\<open>assert\<close>, leaves the program by \<^verbatim>\<open>exit\<close>, or has undefined behaviour. \<open>OutOfFuel\<close> marks a loop that was cut off
  by the bound given to the model.
\<close>

datatype cpp_error =
    ScError string
  | ScFatal string
  | AssertFail string
  | OutOfRange
  | Undefined string
  | Exit nat
  | StdException string
  | OutOfFuel

type_synonym 'a res = "cpp_error + 'a"

definition bindr :: "'a res \<Rightarrow> ('a \<Rightarrow> 'b res) \<Rightarrow> 'b res" where
  "bindr m f = (case m of Inl e \<Rightarrow> Inl e | Inr x \<Rightarrow> f x)"

lemma bindr_Inr [simp, res_simps]: "bindr (Inr x) f = f x"
  by (simp add: bindr_def)

lemma bindr_Inl [simp, res_simps]: "bindr (Inl e) f = Inl e"
  by (simp add: bindr_def)

lemma bindr_eq_Inr [res_simps]: "bindr m f = Inr y \<longleftrightarrow> (\<exists>x. m = Inr x \<and> f x = Inr y)"
  by (cases m) auto

lemma bindr_eq_Inl: "bindr m f = Inl e \<longleftrightarrow> m = Inl e \<or> (\<exists>x. m = Inr x \<and> f x = Inl e)"
  by (cases m) auto

lemma not_isl_Inr: "\<not> isl m \<Longrightarrow> \<exists>x. m = Inr x"
  by (cases m) auto

section \<open>Machine sizes\<close>

text \<open>\<^verbatim>\<open>size_t\<close> is 64 bits wide; positions are natural numbers with the
  wrap-around of a subtraction written out.\<close>

type_synonym u32 = "32 word"
type_synonym u64 = "64 word"

definition npos :: nat where
  "npos = 2 ^ 64 - 1"

definition size_sub :: "nat \<Rightarrow> nat \<Rightarrow> nat" where
  "size_sub a b = (a + 2 ^ 64 - b) mod 2 ^ 64"

lemma size_sub_le: "b \<le> a \<Longrightarrow> a < 2 ^ 64 \<Longrightarrow> size_sub a b = a - b"
  by (simp add: size_sub_def mod_if)

lemma size_sub_npos: "a < npos \<Longrightarrow> size_sub a npos = Suc a"
  by (simp add: size_sub_def npos_def)

section \<open>Searching strings\<close>

text \<open>\<open>find_opt p s\<close> and \<open>rfind_opt p s\<close> are the first and the last position where \<open>p\<close>
  occurs in \<open>s\<close>.\<close>

fun find_opt :: "string \<Rightarrow> string \<Rightarrow> nat option" where
  "find_opt p [] = (if p = [] then Some 0 else None)"
| "find_opt p (c # s) = (if prefix p (c # s) then Some 0 else map_option Suc (find_opt p s))"

fun rfind_opt :: "string \<Rightarrow> string \<Rightarrow> nat option" where
  "rfind_opt p [] = (if p = [] then Some 0 else None)"
| "rfind_opt p (c # s) =
     (case rfind_opt p s of
        Some i \<Rightarrow> Some (Suc i)
      | None \<Rightarrow> if prefix p (c # s) then Some 0 else None)"

definition pos_of :: "nat option \<Rightarrow> nat" where
  "pos_of r = (case r of None \<Rightarrow> npos | Some i \<Rightarrow> i)"

definition str_find :: "string \<Rightarrow> string \<Rightarrow> nat" where
  "str_find p s = pos_of (find_opt p s)"

definition str_find_from :: "string \<Rightarrow> string \<Rightarrow> nat \<Rightarrow> nat option" where
  "str_find_from p s i = (if i \<le> length s then map_option ((+) i) (find_opt p (drop i s)) else None)"

definition str_rfind :: "string \<Rightarrow> string \<Rightarrow> nat" where
  "str_rfind p s = pos_of (rfind_opt p s)"

definition find_last_of :: "char \<Rightarrow> string \<Rightarrow> nat" where
  "find_last_of c s = str_rfind [c] s"

definition substr :: "string \<Rightarrow> nat \<Rightarrow> nat \<Rightarrow> string res" where
  "substr s i n = (if i \<le> length s then Inr (take n (drop i s)) else Inl OutOfRange)"

lemma find_opt_0 [str_simps]: "find_opt p s = Some 0 \<longleftrightarrow> prefix p s"
  by (cases s) auto

lemma find_opt_SomeD: "find_opt p s = Some i \<Longrightarrow> i \<le> length s \<and> prefix p (drop i s)"
  by (induction s arbitrary: i) (auto split: if_splits)

lemma find_opt_least: "find_opt p s = Some i \<Longrightarrow> j < i \<Longrightarrow> \<not> prefix p (drop j s)"
proof (induction s arbitrary: i j)
  case (Cons c s)
  then show ?case by (cases j) (auto split: if_splits)
qed (auto split: if_splits)

lemma find_opt_None: "find_opt p s = None \<longleftrightarrow> \<not> sublist p s"
  by (induction s) (auto simp: sublist_Cons_right)

lemma str_find_0 [str_simps]: "str_find p s = 0 \<longleftrightarrow> prefix p s"
  by (auto simp: str_find_def pos_of_def find_opt_0 [symmetric] npos_def split: option.splits)

lemma str_find_npos [str_simps]: "length s < npos \<Longrightarrow> str_find p s = npos \<longleftrightarrow> \<not> sublist p s"
  by (auto simp: str_find_def pos_of_def find_opt_None [symmetric] dest: find_opt_SomeD
      split: option.splits)

lemma rfind_opt_SomeD: "rfind_opt p s = Some i \<Longrightarrow> i \<le> length s \<and> prefix p (drop i s)"
  by (induction s arbitrary: i) (auto split: if_splits option.splits)

lemma rfind_opt_greatest:
  "rfind_opt p s = Some i \<Longrightarrow> i < j \<Longrightarrow> j \<le> length s \<Longrightarrow> \<not> prefix p (drop j s)"
proof (induction s arbitrary: i j)
  case (Cons c s)
  show ?case
  proof (cases "rfind_opt p s")
    case None
    then have "\<not> sublist p s"
      by (induction s) (auto simp: sublist_Cons_right split: if_splits option.splits)
    moreover obtain k where "j = Suc k" using Cons.prems(2) by (cases j) auto
    ultimately show ?thesis
      using prefix_imp_sublist sublist_drop sublist_order.order_trans by (metis drop_Suc_Cons)
  next
    case (Some k)
    with Cons.prems obtain l where "j = Suc l" "k < l" "i = Suc k" by (cases j) auto
    then show ?thesis using Cons.IH [OF Some, of l] Cons.prems by simp
  qed
qed (auto split: if_splits)

lemma rfind_opt_None: "rfind_opt p s = None \<longleftrightarrow> \<not> sublist p s"
  by (induction s) (auto simp: sublist_Cons_right split: option.splits)

text \<open>The suffix test written as \<^verbatim>\<open>s.length() - s.rfind(p) == p.length()\<close> holds for every
  suffix, and also when \<open>p\<close> does not occur and is one longer than \<open>s\<close>.\<close>

lemma rfind_suffix:
  assumes "suffix p s"
  shows "rfind_opt p s = Some (length s - length p)"
proof -
  from assms obtain q where s: "s = q @ p" by (auto simp: suffix_def)
  then have "sublist p s" by auto
  then obtain i where i: "rfind_opt p s = Some i"
    using rfind_opt_None by (metis not_None_eq)
  have "\<not> i < length q"
    using rfind_opt_greatest [OF i, of "length q"] s by auto
  moreover have "i + length p \<le> length s"
    using rfind_opt_SomeD [OF i] prefix_length_le by fastforce
  ultimately have "i = length q" using s by simp
  with i s show ?thesis by simp
qed

lemma rfind_len_suffix:
  assumes "rfind_opt p s = Some i" and "length s - i = length p"
  shows "suffix p s"
proof -
  from assms(1) have "i \<le> length s" "prefix p (drop i s)" using rfind_opt_SomeD by auto
  with assms(2) have "p = drop i s"
    by (metis length_drop not_equal_is_parallel parallelD1)
  then show ?thesis by (simp add: suffix_drop)
qed

lemma substr_Inr [simp]: "substr s i n = Inr t \<longleftrightarrow> i \<le> length s \<and> t = take n (drop i s)"
  by (auto simp: substr_def)

section \<open>Ordered maps\<close>

text \<open>
  \<^verbatim>\<open>std::map\<close> as the list of its entries in iteration order, that is sorted by key with
  every key once. \<open>map_insert\<close> is \<^verbatim>\<open>insert\<close> (an existing entry stays), \<open>map_put\<close> is
  assignment through \<^verbatim>\<open>operator[]\<close>, \<open>map_adjust\<close> changes the mapped value of an
  existing entry through an iterator.
\<close>

type_synonym ('k, 'v) omap = "('k \<times> 'v) list"

abbreviation map_find :: "('k, 'v) omap \<Rightarrow> 'k \<Rightarrow> 'v option" where
  "map_find \<equiv> map_of"

fun map_put :: "'k::linorder \<Rightarrow> 'v \<Rightarrow> ('k, 'v) omap \<Rightarrow> ('k, 'v) omap" where
  "map_put k v [] = [(k, v)]"
| "map_put k v ((a, b) # m) =
     (if k < a then (k, v) # (a, b) # m
      else if k = a then (k, v) # m
      else (a, b) # map_put k v m)"

definition map_insert :: "'k::linorder \<Rightarrow> 'v \<Rightarrow> ('k, 'v) omap \<Rightarrow> ('k, 'v) omap \<times> bool" where
  "map_insert k v m = (case map_find m k of None \<Rightarrow> (map_put k v m, True) | Some _ \<Rightarrow> (m, False))"

fun map_adjust :: "'k \<Rightarrow> ('v \<Rightarrow> 'v) \<Rightarrow> ('k, 'v) omap \<Rightarrow> ('k, 'v) omap" where
  "map_adjust k f [] = []"
| "map_adjust k f ((a, b) # m) = (if a = k then (a, f b) # m else (a, b) # map_adjust k f m)"

fun map_erase :: "'k \<Rightarrow> ('k, 'v) omap \<Rightarrow> ('k, 'v) omap" where
  "map_erase k [] = []"
| "map_erase k ((a, b) # m) = (if a = k then m else (a, b) # map_erase k m)"

definition omap_ok :: "('k::linorder, 'v) omap \<Rightarrow> bool" where
  "omap_ok m \<longleftrightarrow> sorted_wrt (<) (map fst m)"

lemma omap_ok_Nil [simp]: "omap_ok []"
  by (simp add: omap_ok_def)

lemma omap_ok_Cons: "omap_ok ((k, v) # m) \<longleftrightarrow> (\<forall>k' \<in> fst ` set m. k < k') \<and> omap_ok m"
  by (auto simp: omap_ok_def)

lemma omap_ok_distinct: "omap_ok m \<Longrightarrow> distinct (map fst m)"
  by (simp add: omap_ok_def strict_sorted_iff)

lemma omap_ok_sorted: "omap_ok m \<Longrightarrow> sorted (map fst m)"
  by (simp add: omap_ok_def strict_sorted_iff)

lemma map_find_put [map_simps]: "map_find (map_put k v m) k' = (if k' = k then Some v else map_find m k')"
  by (induction m) auto

lemma keys_put: "fst ` set (map_put k v m) = insert k (fst ` set m)"
  by (induction m rule: map_put.induct) (simp_all add: insert_commute)

lemma omap_ok_put [intro]: "omap_ok m \<Longrightarrow> omap_ok (map_put k v m)"
  by (induction m rule: map_put.induct) (auto simp: omap_ok_Cons keys_put not_less_iff_gr_or_eq)

lemma map_find_adjust [map_simps]:
  "map_find (map_adjust k f m) k' = (if k' = k then map_option f (map_find m k) else map_find m k')"
  by (induction m) auto

lemma keys_adjust [simp]: "map fst (map_adjust k f m) = map fst m"
  by (induction m) auto

lemma map_adjust_twice: "map_adjust k g (map_adjust k f m) = map_adjust k (\<lambda>v. g (f v)) m"
  by (induction m) auto

lemma omap_ok_adjust [simp]: "omap_ok (map_adjust k f m) = omap_ok m"
  by (simp add: omap_ok_def)

lemma keys_erase_sub: "fst ` set (map_erase k m) \<subseteq> fst ` set m"
  by (induction m rule: map_erase.induct) (simp_all add: subset_insertI subset_insertI2 insert_mono)

lemma omap_ok_erase [intro]: "omap_ok m \<Longrightarrow> omap_ok (map_erase k m)"
proof (induction m)
  case (Cons e m)
  obtain a b where e: "e = (a, b)" by (cases e)
  with Cons.prems have m: "\<forall>x \<in> fst ` set m. a < x" "omap_ok m"
    by (simp_all add: omap_ok_Cons)
  then have "\<forall>x \<in> fst ` set (map_erase k m). a < x"
    using keys_erase_sub [of k m] by (meson subsetD)
  with m Cons.IH e show ?case by (simp add: omap_ok_Cons)
qed simp

lemma map_find_erase [map_simps]:
  "omap_ok m \<Longrightarrow> map_find (map_erase k m) k' = (if k' = k then None else map_find m k')"
proof (induction m)
  case (Cons e m)
  obtain a b where e: "e = (a, b)" by (cases e)
  with Cons.prems have "a \<notin> fst ` set m" and "omap_ok m"
    by (auto simp: omap_ok_Cons)
  then have "map_find m a = None" by (simp add: map_of_eq_None_iff)
  then show ?case using Cons.IH [OF \<open>omap_ok m\<close>] e by auto
qed simp

lemma map_insert_fst_find [map_simps]:
  "map_find (fst (map_insert k v m)) k' =
     (if k' = k then Some (case map_find m k of None \<Rightarrow> v | Some w \<Rightarrow> w) else map_find m k')"
  by (auto simp: map_insert_def map_simps split: option.splits)

lemma omap_ok_insert [intro]: "omap_ok m \<Longrightarrow> omap_ok (fst (map_insert k v m))"
  by (auto simp: map_insert_def split: option.splits)

text \<open>
  \<^verbatim>\<open>std::multimap\<close>: entries sorted by key, equal keys in insertion order;
  \<open>mm_equal_range\<close> is \<^verbatim>\<open>equal_range\<close> as the list of mapped values.
\<close>

fun mm_insert :: "'k::linorder \<Rightarrow> 'v \<Rightarrow> ('k \<times> 'v) list \<Rightarrow> ('k \<times> 'v) list" where
  "mm_insert k v [] = [(k, v)]"
| "mm_insert k v ((a, b) # m) = (if k < a then (k, v) # (a, b) # m else (a, b) # mm_insert k v m)"

definition mm_equal_range :: "'k::linorder \<Rightarrow> ('k \<times> 'v) list \<Rightarrow> 'v list" where
  "mm_equal_range k m = map snd (takeWhile (\<lambda>e. fst e = k) (dropWhile (\<lambda>e. fst e < k) m))"

definition mm_ok :: "('k::linorder \<times> 'v) list \<Rightarrow> bool" where
  "mm_ok m \<longleftrightarrow> sorted (map fst m)"

lemma set_mm_insert: "set (mm_insert k v m) = insert (k, v) (set m)"
  by (induction m rule: mm_insert.induct) (simp_all add: insert_commute)

lemma mm_ok_insert: "mm_ok m \<Longrightarrow> mm_ok (mm_insert k v m)"
proof (induction m rule: mm_insert.induct)
  case (2 k v a b m)
  have "\<forall>x \<in> fst ` set (mm_insert k v m). a \<le> x" if "\<not> k < a"
    using 2(2) that by (auto simp: mm_ok_def set_mm_insert)
  then show ?case using 2 by (auto simp: mm_ok_def)
qed (simp add: mm_ok_def)

lemma filter_mm_insert:
  "mm_ok m \<Longrightarrow> filter (\<lambda>e. fst e = k') (mm_insert k v m)
     = filter (\<lambda>e. fst e = k') m @ (if k' = k then [(k, v)] else [])"
proof (induction m rule: mm_insert.induct)
  case (2 k v a b m)
  show ?case
  proof (cases "k < a")
    case True
    then have "filter (\<lambda>e. fst e = k) ((a, b) # m) = []"
      using 2(2) by (auto simp: mm_ok_def filter_empty_conv)
    then show ?thesis using True by auto
  next
    case False
    then show ?thesis using 2 by (auto simp: mm_ok_def)
  qed
qed simp

lemma mm_equal_range_filter:
  "mm_ok m \<Longrightarrow> mm_equal_range k m = map snd (filter (\<lambda>e. fst e = k) m)"
proof (induction m)
  case (Cons e m)
  obtain a b where e: "e = (a, b)" by (cases e)
  have sorted: "mm_ok m" "\<forall>x \<in> set m. a \<le> fst x" using Cons.prems e by (auto simp: mm_ok_def)
  consider "a < k" | "a = k" | "k < a" by fastforce
  then show ?case
  proof cases
    case 1
    then show ?thesis using Cons.IH [OF sorted(1)] e by (simp add: mm_equal_range_def)
  next
    case 2
    then have "dropWhile (\<lambda>e. fst e < k) m = m"
      using sorted(2) by (cases m) auto
    then show ?thesis using Cons.IH [OF sorted(1)] e 2 by (simp add: mm_equal_range_def)
  next
    case 3
    then have "filter (\<lambda>e. fst e = k) m = []"
      using sorted(2) by (auto simp: filter_empty_conv)
    then show ?thesis using e 3 by (auto simp: mm_equal_range_def)
  qed
qed (simp add: mm_equal_range_def)

lemma mm_ok_filter: "mm_ok m \<Longrightarrow> mm_ok (filter P m)"
  by (simp add: mm_ok_def sorted_filter)

lemma mm_range_insert:
  "mm_ok m \<Longrightarrow> mm_equal_range k' (mm_insert k v m)
     = mm_equal_range k' m @ (if k' = k then [v] else [])"
  by (simp add: mm_equal_range_filter mm_ok_insert filter_mm_insert)

lemma mm_range_erase:
  "mm_ok m \<Longrightarrow> mm_equal_range k' (filter (\<lambda>e. e \<noteq> (k, v)) m)
     = (if k' = k then filter (\<lambda>w. w \<noteq> v) (mm_equal_range k' m) else mm_equal_range k' m)"
proof -
  assume ok: "mm_ok m"
  have "filter (\<lambda>e. fst e = k') (filter (\<lambda>e. e \<noteq> (k, v)) m)
      = filter (\<lambda>e. k' \<noteq> k \<or> snd e \<noteq> v) (filter (\<lambda>e. fst e = k') m)"
    by (induction m) auto
  then show ?thesis using ok
    by (auto simp: mm_equal_range_filter mm_ok_filter filter_map o_def)
qed

text \<open>Two maps with the same lookups iterate in the same order over the same entries.\<close>

lemma omap_keys_unique:
  assumes "omap_ok m" and "omap_ok m'" and "fst ` set m = fst ` set m'"
  shows "map fst m = map fst m'"
  using assms by (intro strict_sorted_equal) (auto simp: omap_ok_def)

text \<open>The interface the databases rely on.\<close>

locale ordered_map =
  fixes find :: "'m \<Rightarrow> 'k::linorder \<Rightarrow> 'v option"
    and put :: "'k \<Rightarrow> 'v \<Rightarrow> 'm \<Rightarrow> 'm"
    and erase :: "'k \<Rightarrow> 'm \<Rightarrow> 'm"
    and keys :: "'m \<Rightarrow> 'k list"
    and ok :: "'m \<Rightarrow> bool"
  assumes find_put: "ok m \<Longrightarrow> find (put k v m) k' = (if k' = k then Some v else find m k')"
    and find_erase: "ok m \<Longrightarrow> find (erase k m) k' = (if k' = k then None else find m k')"
    and ok_put: "ok m \<Longrightarrow> ok (put k v m)"
    and ok_erase: "ok m \<Longrightarrow> ok (erase k m)"
    and keys_find: "ok m \<Longrightarrow> k \<in> set (keys m) \<longleftrightarrow> find m k \<noteq> None"
    and keys_sorted: "ok m \<Longrightarrow> sorted (keys m) \<and> distinct (keys m)"
begin

lemma put_put: "ok m \<Longrightarrow> find (put k v (put k w m)) = find (put k v m)"
  by (simp add: fun_eq_iff find_put ok_put)

lemma erase_put: "ok m \<Longrightarrow> find (erase k (put k v m)) = find (erase k m)"
  by (simp add: fun_eq_iff find_put find_erase ok_put)

lemma keys_put_set: "ok m \<Longrightarrow> set (keys (put k v m)) = insert k (set (keys m))"
  by (auto simp: keys_find ok_put find_put split: if_splits)

lemma keys_unique:
  "ok m \<Longrightarrow> ok m' \<Longrightarrow> (\<And>k. find m k = None \<longleftrightarrow> find m' k = None) \<Longrightarrow> keys m = keys m'"
  using keys_sorted keys_find by (metis sorted_distinct_set_unique subset_antisym subsetI)

end

interpretation om: ordered_map map_find map_put map_erase "map fst" omap_ok
proof unfold_locales
  fix m :: "('a::linorder \<times> 'b) list" and k
  show "k \<in> set (map fst m) \<longleftrightarrow> map_find m k \<noteq> None"
    by (auto simp: map_of_eq_None_iff)
qed (auto simp: map_simps dest: omap_ok_sorted omap_ok_distinct)

section \<open>Vectors\<close>

definition erase_at :: "nat \<Rightarrow> 'a list \<Rightarrow> 'a list" where
  "erase_at i xs = take i xs @ drop (Suc i) xs"

lemma erase_at_split:
  assumes "i < length xs"
  obtains ys zs where "xs = ys @ xs ! i # zs" and "erase_at i xs = ys @ zs" and "length ys = i"
  using id_take_nth_drop [OF assms] assms by (intro that [of "take i xs" "drop (Suc i) xs"]) (simp_all add: erase_at_def)

end
