(* ===== verification/Gs_Utils.thy ===== *)
theory Gs_Utils
  imports GL_Prelude
begin

text \<open>
  String helpers of GreenConfig: the functions on hierarchical parameter names
  (\<^verbatim>\<open>gcnf/plugin/utils.h\<close>) and the substitution of environment variables in parameter
  values (\<^verbatim>\<open>gcnf/apis/utils/envvar_subst.h\<close>). The process environment (\<^verbatim>\<open>getenv\<close>) is
  an argument. The specification \<open>subst_spec\<close> reads the value once from left to right.
\<close>

section \<open>Hierarchical names\<close>

abbreviation SC_NAME_DELIMITER :: char where "SC_NAME_DELIMITER \<equiv> CHR ''.''"

definition isHierarchicalParameterName :: "string \<Rightarrow> bool" where
  "isHierarchicalParameterName nam = (str_find [SC_NAME_DELIMITER] nam \<noteq> npos)"

definition is_child_of :: "string \<Rightarrow> string \<Rightarrow> bool" where
  "is_child_of child_name_to_check parent_name = (str_find parent_name child_name_to_check = 0)"

definition get_local_param_name :: "string \<Rightarrow> string res" where
  "get_local_param_name hier_name =
     (let p = find_last_of SC_NAME_DELIMITER hier_name
      in substr hier_name ((p + 1) mod 2 ^ 64) ((size_sub (length hier_name) p + 1) mod 2 ^ 64))"

definition get_hierarchy_param_name :: "string \<Rightarrow> string res" where
  "get_hierarchy_param_name hier_name = substr hier_name 0 (find_last_of SC_NAME_DELIMITER hier_name)"

section \<open>Substitution of environment variables\<close>

definition str_replace :: "string \<Rightarrow> nat \<Rightarrow> nat \<Rightarrow> string \<Rightarrow> string" where
  "str_replace s i n t = take i s @ t @ drop (i + n) s"

text \<open>Reading one past the last character gives the terminating NUL.\<close>

definition char_at :: "string \<Rightarrow> nat \<Rightarrow> char" where
  "char_at s i = (if i < length s then s ! i else CHR 0x00)"

definition isalnum :: "char \<Rightarrow> bool" where
  "isalnum c \<longleftrightarrow> CHR ''0'' \<le> c \<and> c \<le> CHR ''9'' \<or> CHR ''A'' \<le> c \<and> c \<le> CHR ''Z''
     \<or> CHR ''a'' \<le> c \<and> c \<le> CHR ''z''"

definition valid_varname :: "string \<Rightarrow> bool" where
  "valid_varname n = (\<forall>c \<in> set n. isalnum c \<or> c = CHR ''_'')"

definition env_value :: "(string \<Rightarrow> string option) \<Rightarrow> string \<Rightarrow> string" where
  "env_value getenv n = (case getenv n of None \<Rightarrow> [] | Some v \<Rightarrow> v)"

lemma str_find_from_SomeD:
  assumes "str_find_from p s i = Some j"
  shows "i \<le> j \<and> j \<le> length s \<and> prefix p (drop j s)"
  using assms by (auto simp: str_find_from_def add.commute split: if_splits dest!: find_opt_SomeD)

text \<open>
  The loop, with \<^verbatim>\<open>end_idx\<close> as its second state component. For an unterminated reference the
  code sets \<^verbatim>\<open>end_idx\<close> to \<^verbatim>\<open>npos\<close>, from where the next search finds nothing.
\<close>

function envvar_loop :: "(string \<Rightarrow> string option) \<Rightarrow> string \<Rightarrow> nat \<Rightarrow> string" where
  "envvar_loop getenv val end_idx =
     (case str_find_from ''$'' val end_idx of
        None \<Rightarrow> val
      | Some start_idx \<Rightarrow>
          if char_at val (start_idx + 1) = CHR ''$''
          then envvar_loop getenv (str_replace val start_idx 2 ''$'') (start_idx + 1)
          else if char_at val (start_idx + 1) \<noteq> CHR ''(''
          then envvar_loop getenv val (start_idx + 2)
          else (case str_find_from '')'' val start_idx of
                  Some e \<Rightarrow>
                    let varname = take (e - (start_idx + 2)) (drop (start_idx + 2) val) in
                    if \<not> valid_varname varname then envvar_loop getenv val e
                    else envvar_loop getenv
                           (str_replace val start_idx (e + 1 - start_idx) (env_value getenv varname))
                           (start_idx + length (env_value getenv varname))
                | None \<Rightarrow> val))"
  by pat_completeness auto

lemma find_dollar_bound:
  assumes "str_find_from [c] s i = Some j"
  shows "i \<le> j \<and> j < length s \<and> s ! j = c"
proof -
  have "i \<le> j" "j \<le> length s" "prefix [c] (drop j s)" using str_find_from_SomeD [OF assms] by auto
  moreover from this obtain r where "drop j s = c # r" by (auto simp: prefix_def)
  moreover from this have "j < length s" by (metis drop_all leI list.distinct(1))
  ultimately show ?thesis using nth_via_drop by metis
qed

termination envvar_loop
proof (relation "measure (\<lambda>(_, val, end_idx). length val - end_idx)", goal_cases)
  case (2 getenv val end_idx start_idx)
  have "start_idx + 1 < length val"
    using 2 by (auto simp: char_at_def split: if_splits)
  with find_dollar_bound [OF 2(1)] show ?case by (auto simp: str_replace_def)
next
  case (4 getenv val end_idx start_idx e varname)
  have "val ! start_idx \<noteq> val ! e"
    using find_dollar_bound [OF 4(1)] find_dollar_bound [OF 4(4)] by auto
  then show ?case
    using find_dollar_bound [OF 4(1)] find_dollar_bound [OF 4(4)] by (cases "e = start_idx") auto
next
  case (5 getenv val end_idx start_idx e varname)
  then show ?case
    using find_dollar_bound [OF 5(1)] find_dollar_bound [OF 5(4)] by (auto simp: str_replace_def)
qed (auto dest!: find_dollar_bound)

declare envvar_loop.simps [simp del]

definition envvar_subst :: "(string \<Rightarrow> string option) \<Rightarrow> string \<Rightarrow> string" where
  "envvar_subst getenv str = envvar_loop getenv str 0"

text \<open>
  The specification: \<^verbatim>\<open>$$\<close> stands for one dollar sign, \<^verbatim>\<open>$(VAR)\<close> for the value of the
  variable (empty if it is not set), an invalid or unterminated reference stands for itself, and
  text that was put in is not read again.
\<close>

fun subst_spec :: "(string \<Rightarrow> string option) \<Rightarrow> string \<Rightarrow> string" where
  "subst_spec getenv [] = []"
| "subst_spec getenv [c] = [c]"
| "subst_spec getenv (c # d # r) =
     (if c \<noteq> CHR ''$'' then c # subst_spec getenv (d # r)
      else if d = CHR ''$'' then CHR ''$'' # subst_spec getenv r
      else if d \<noteq> CHR ''('' then c # d # subst_spec getenv r
      else if CHR '')'' \<notin> set r then c # d # r
      else (let n = takeWhile (\<lambda>x. x \<noteq> CHR '')'') r;
                rest = drop (Suc (length n)) r
            in if valid_varname n then env_value getenv n @ subst_spec getenv rest
               else c # d # n @ CHR '')'' # subst_spec getenv rest))"


section \<open>The loop meets the specification\<close>

lemma find_opt_char:
  "find_opt [c] s = (if c \<in> set s then Some (length (takeWhile (\<lambda>x. x \<noteq> c) s)) else None)"
  by (induction s) auto

lemma find_char_from:
  "str_find_from [c] (pre @ s) (length pre)
    = (if c \<in> set s then Some (length pre + length (takeWhile (\<lambda>x. x \<noteq> c) s)) else None)"
  by (simp add: str_find_from_def find_opt_char)

lemma find_char_from_skip:
  "x \<noteq> c \<Longrightarrow> str_find_from [c] (pre @ x # s) (length pre) = str_find_from [c] (pre @ x # s) (Suc (length pre))"
  using find_char_from [of c pre "x # s"] find_char_from [of c "pre @ [x]" s] by simp

lemma loop_skip:
  assumes "x \<noteq> CHR ''$''"
  shows "envvar_loop getenv (pre @ x # s) (length pre) = envvar_loop getenv (pre @ x # s) (Suc (length pre))"
  by (subst (1 2) envvar_loop.simps) (simp only: find_char_from_skip [OF assms])

lemma spec_skip: "c \<noteq> CHR ''$'' \<Longrightarrow> subst_spec getenv (c # t) = c # subst_spec getenv t"
  by (cases t) auto

lemma split_at_char:
  assumes "c \<in> set r"
  shows "r = takeWhile (\<lambda>x. x \<noteq> c) r @ c # drop (Suc (length (takeWhile (\<lambda>x. x \<noteq> c) r))) r"
proof -
  have ne: "dropWhile (\<lambda>x. x \<noteq> c) r \<noteq> []" using assms by (simp add: dropWhile_eq_Nil_conv)
  then obtain u where u: "dropWhile (\<lambda>x. x \<noteq> c) r = c # u"
    using hd_dropWhile [OF ne] by (metis list.exhaust_sel)
  have r: "r = takeWhile (\<lambda>x. x \<noteq> c) r @ c # u" using u takeWhile_dropWhile_id by metis
  have "drop (Suc (length (takeWhile (\<lambda>x. x \<noteq> c) r))) (takeWhile (\<lambda>x. x \<noteq> c) r @ c # u) = u" by simp
  with r show ?thesis by metis
qed

text \<open>One round of the loop that stands at a dollar sign.\<close>

lemma loop_at_dollar:
  assumes "t = d # r"
  shows "envvar_loop getenv (pre @ CHR ''$'' # t) (length pre) =
    (if d = CHR ''$'' then envvar_loop getenv ((pre @ ''$'') @ r) (length (pre @ ''$''))
     else if d \<noteq> CHR ''('' then envvar_loop getenv ((pre @ [CHR ''$'', d]) @ r) (length (pre @ [CHR ''$'', d]))
     else if CHR '')'' \<notin> set r then pre @ CHR ''$'' # t
     else (let n = takeWhile (\<lambda>x. x \<noteq> CHR '')'') r; rest = drop (Suc (length n)) r
           in if valid_varname n
              then envvar_loop getenv ((pre @ env_value getenv n) @ rest) (length (pre @ env_value getenv n))
              else envvar_loop getenv ((pre @ CHR ''$'' # d # n) @ CHR '')'' # rest)
                     (length (pre @ CHR ''$'' # d # n))))"
proof -
  let ?val = "pre @ CHR ''$'' # t"
  let ?n = "takeWhile (\<lambda>x. x \<noteq> CHR '')'') r"
  let ?rest = "drop (Suc (length ?n)) r"
  have d: "char_at ?val (length pre + 1) = d"
    using assms by (simp add: char_at_def nth_append)
  have start: "str_find_from ''$'' ?val (length pre) = Some (length pre)"
    by (simp add: find_char_from)
  show ?thesis
  proof (cases "d = CHR ''('' \<and> CHR '')'' \<in> set r")
    case False
    then show ?thesis
      using assms d start by (subst envvar_loop.simps) (auto simp: find_char_from str_replace_def)
  next
    case True
    then have close: "str_find_from '')'' ?val (length pre) = Some (length pre + 2 + length ?n)"
      using assms by (simp add: find_char_from)
    have r: "r = ?n @ CHR '')'' # ?rest" using split_at_char [of "CHR '')''" r] True by simp
    have name: "take (length pre + 2 + length ?n - (length pre + 2)) (drop (length pre + 2) ?val) = ?n"
      using assms r by (metis (no_types, lifting) add_diff_cancel_left' append_eq_conv_conj drop_append
          add_2_eq_Suc' append_Nil diff_add_inverse drop_Suc_Cons drop_all drop0 le_add1)
    have repl: "str_replace ?val (length pre) (length pre + 2 + length ?n + 1 - length pre) v = (pre @ v) @ ?rest" for v
      using assms by (simp add: str_replace_def numeral_3_eq_3)
    have val: "?val = (pre @ CHR ''$'' # d # ?n) @ CHR '')'' # ?rest" using assms r by simp
    have len: "length pre + 2 + length ?n = length (pre @ CHR ''$'' # d # ?n)" by simp
    have ne: "(CHR ''('' = CHR ''$'') = False" by simp
    have open_paren: "char_at ?val (length pre + 1) = CHR ''(''" using d True by simp
    have "envvar_loop getenv ?val (length pre) = (if \<not> valid_varname ?n
        then envvar_loop getenv ?val (length pre + 2 + length ?n)
        else envvar_loop getenv ((pre @ env_value getenv ?n) @ ?rest) (length pre + length (env_value getenv ?n)))"
      by (subst envvar_loop.simps)
        (simp only: start close option.case name repl Let_def open_paren ne if_False simp_thms)
    moreover have "envvar_loop getenv ?val (length pre + 2 + length ?n)
        = envvar_loop getenv ((pre @ CHR ''$'' # d # ?n) @ CHR '')'' # ?rest) (length (pre @ CHR ''$'' # d # ?n))"
      by (simp only: len val)
    ultimately show ?thesis using True ne
      by (cases "valid_varname ?n")
        (simp_all only: Let_def simp_thms if_True if_False length_append not_True_eq_False not_False_eq_True)
  qed
qed

lemma loop_spec: "envvar_loop getenv (pre @ s) (length pre) = pre @ subst_spec getenv s"
proof (induction "length s" arbitrary: s pre rule: less_induct)
  case less
  show ?case
  proof (cases s)
    case Nil
    then show ?thesis by (subst envvar_loop.simps) (simp add: str_find_from_def)
  next
    case (Cons c t)
    show ?thesis
    proof (cases "c = CHR ''$''")
      case False
      have "envvar_loop getenv (pre @ s) (length pre) = envvar_loop getenv ((pre @ [c]) @ t) (length (pre @ [c]))"
        using loop_skip [OF False, of getenv pre t] Cons by simp
      also have "\<dots> = pre @ c # subst_spec getenv t" using less [of t "pre @ [c]"] Cons by simp
      also have "c # subst_spec getenv t = subst_spec getenv s" using False Cons by (cases t) auto
      finally show ?thesis .
    next
      case True
      show ?thesis
      proof (cases t)
        case Nil
        then show ?thesis using Cons True
          by (subst envvar_loop.simps, subst envvar_loop.simps)
            (simp add: find_char_from char_at_def str_find_from_def)
      next
        case (Cons d r)
        then have s: "s = CHR ''$'' # d # r" using \<open>s = c # t\<close> True by simp
        let ?n = "takeWhile (\<lambda>x. x \<noteq> CHR '')'') r"
        have len: "length (drop (Suc (length ?n)) r) < length s"
          "length (CHR '')'' # drop (Suc (length ?n)) r) < length s" "length r < length s"
          using s by auto
        note IH = less(1) [OF len(1)] less(1) [OF len(2)] less(1) [OF len(3)]
        show ?thesis
          unfolding s
          by (subst loop_at_dollar [OF refl]) (simp only: Let_def IH, simp add: spec_skip Let_def)
      qed
    qed
  qed
qed


section \<open>Properties\<close>


lemma subst_plain: "CHR ''$'' \<notin> set str \<Longrightarrow> envvar_subst getenv str = str"
proof -
  have "CHR ''$'' \<notin> set str \<Longrightarrow> subst_spec getenv str = str"
    by (induction str) (auto simp: spec_skip [OF not_sym])
  then show "CHR ''$'' \<notin> set str \<Longrightarrow> envvar_subst getenv str = str" using loop_spec [of getenv "[]" str]
    by (simp add: envvar_subst_def)
qed

lemma find_last_of_append:
  assumes "c \<notin> set loc"
  shows "rfind_opt [c] (h @ c # loc) = Some (length h)"
proof -
  have none: "rfind_opt [c] loc = None" using assms by (induction loc) auto
  show ?thesis by (induction h) (simp_all add: none)
qed

text \<open>Splitting a hierarchical name at its last delimiter gives back the two parts it was made
  of; a name without delimiter is its own local name.\<close>

theorem split_parameter_name:
  assumes "SC_NAME_DELIMITER \<notin> set loc" and "length hier + length loc < 2 ^ 64 - 2"
  shows "get_local_param_name (hier @ SC_NAME_DELIMITER # loc) = Inr loc
    \<and> get_hierarchy_param_name (hier @ SC_NAME_DELIMITER # loc) = Inr hier
    \<and> get_local_param_name loc = Inr loc \<and> get_hierarchy_param_name loc = Inr loc"
proof -
  have last: "find_last_of SC_NAME_DELIMITER (hier @ SC_NAME_DELIMITER # loc) = length hier"
    using find_last_of_append [OF assms(1)] by (simp add: find_last_of_def str_rfind_def pos_of_def)
  have none: "rfind_opt [SC_NAME_DELIMITER] loc = None"
    using assms(1) by (induction loc) auto
  have "find_last_of SC_NAME_DELIMITER loc = npos"
    by (simp add: find_last_of_def str_rfind_def pos_of_def none)
  moreover have "size_sub (length loc) npos = Suc (length loc)"
    using assms(2) by (intro size_sub_npos) (simp add: npos_def)
  moreover have "(npos + 1) mod 2 ^ 64 = 0" "length loc \<le> npos" using assms(2) by (simp_all add: npos_def)
  moreover have "size_sub (length hier + Suc (length loc)) (length hier) = Suc (length loc)"
    using assms(2) by (subst size_sub_le) auto
  ultimately show ?thesis using last assms(2)
    by (simp add: get_local_param_name_def get_hierarchy_param_name_def Let_def)
qed

lemma split_parameter_name_witness:
  "get_local_param_name ''top.mod.par'' = Inr ''par''
    \<and> get_hierarchy_param_name ''top.mod.par'' = Inr ''top.mod''"
  using split_parameter_name [of "''par''" "''top.mod''"] by simp

end
