(* ===== verification/Gs_Param.thy ===== *)
theory Gs_Param
  imports Gs_Utils
begin

text \<open>
  Configuration parameters (\<^verbatim>\<open>gcnf/apis/gs_param\<close>): the enumerations of
  \<^verbatim>\<open>gcnf_datatypes.h\<close>, the state of a parameter object with its callback lists and lock, and
  the operations of \<^verbatim>\<open>gs_param_base\<close> and \<^verbatim>\<open>gs_param_t\<close>. The user's callback functions,
  the conversion functions of a parameter type and the process environment are the fields of
  \<open>penv\<close>.
\<close>

section \<open>Enumerations\<close>

datatype Param_type =
    PARTYPE_NOT_AVAILABLE
  | PARTYPE_INT | PARTYPE_UINT | PARTYPE_BOOL | PARTYPE_DOUBLE | PARTYPE_FLOAT | PARTYPE_STRING
  | PARTYPE_ULONGLONG | PARTYPE_LONGLONG | PARTYPE_UCHAR | PARTYPE_USHORT | PARTYPE_SHORT
  | PARTYPE_CHAR | PARTYPE_SIGNED_CHAR
  | PARTYPE_SC_BIT | PARTYPE_SC_INT_BASE | PARTYPE_SC_INT | PARTYPE_SC_UINT_BASE | PARTYPE_SC_UINT
  | PARTYPE_SC_SIGNED | PARTYPE_SC_BIGINT | PARTYPE_SC_UNSIGNED | PARTYPE_SC_BIGUINT
  | PARTYPE_SC_LOGIC | PARTYPE_SC_TIME | PARTYPE_SC_ATTRIBUTE | PARTYPE_SC_EVENT
  | PARTYPE_SMPL_ARRAY | PARTYPE_EXT_ARRAY
  | LAST_PARTYPE

datatype callback_type =
    pre_read | post_read | reject_write | pre_write | post_write | create_param | destroy_param
  | post_write_and_destroy | no_callback

datatype callback_return_type =
    return_nothing | return_value_change_rejected | return_other_error

text \<open>The numbers of the enumeration give the precedence among combined callback returns.\<close>

fun return_rank :: "callback_return_type \<Rightarrow> nat" where
  "return_rank return_nothing = 0"
| "return_rank return_value_change_rejected = 1"
| "return_rank return_other_error = 2"

lemma return_rank_inj: "return_rank a = return_rank b \<Longrightarrow> a = b"
  by (cases a; cases b) auto

instantiation callback_return_type :: linorder
begin

definition less_eq_callback_return_type :: "callback_return_type \<Rightarrow> callback_return_type \<Rightarrow> bool" where
  "a \<le> b \<longleftrightarrow> return_rank a \<le> return_rank b"

definition less_callback_return_type :: "callback_return_type \<Rightarrow> callback_return_type \<Rightarrow> bool" where
  "a < b \<longleftrightarrow> return_rank a < return_rank b"

instance
  by standard
    (auto simp: less_eq_callback_return_type_def less_callback_return_type_def
      intro: return_rank_inj)

end

lemmas return_order = less_eq_callback_return_type_def less_callback_return_type_def

fun callback_type_to_string :: "callback_type \<Rightarrow> string" where
  "callback_type_to_string pre_read = ''pre_read''"
| "callback_type_to_string post_read = ''post_read''"
| "callback_type_to_string reject_write = ''reject_write''"
| "callback_type_to_string pre_write = ''pre_write''"
| "callback_type_to_string post_write = ''post_write''"
| "callback_type_to_string create_param = ''create_param''"
| "callback_type_to_string destroy_param = ''destroy_param''"
| "callback_type_to_string post_write_and_destroy = ''post_write_and_destroy''"
| "callback_type_to_string no_callback = ''_unknown_''"

section \<open>State of a parameter\<close>

text \<open>
  An adapter is identified by its address and holds the address of its observer. Its
  \<^verbatim>\<open>caller_param\<close> points to the parameter that owns the lists; the field \<open>m_callers\<close> of the
  parameter lists the adapters whose \<^verbatim>\<open>caller_param\<close> is not NULL, because one adapter object may
  stand in several lists. Pointers are numbers, NULL is 0.
\<close>

record adapter =
  a_id :: nat
  a_observer :: nat

type_synonym cb_entry = "bool \<times> adapter"

record 'v gs_param =
  m_par_name :: string
  p_type :: Param_type
  p_type_string :: string
  my_value :: 'v
  my_default_value :: 'v
  m_default_value_was_set :: bool
  m_register_at_db :: bool
  m_locked :: bool
  m_lock_pwd :: nat
  m_making :: bool
  m_delete_enqueued :: u32
  m_lists :: "callback_type \<Rightarrow> cb_entry list"
  m_callers :: "nat \<Rightarrow> bool"
  m_destruction_flag :: bool
  m_is_initial_value :: bool
  m_setting_initial_value_now :: bool
  m_attributes :: "nat set"

text \<open>
  What the parameter relies on and the repository does not define: the function an adapter
  calls (it may change the calling parameter in any way), the conversion of the parameter's type
  (target value and string to the new target and the success flag), \<^verbatim>\<open>getenv\<close>, and the
  bound for the callback loop, which a callback that registers callbacks can prolong.
\<close>

record 'v penv =
  call_fn :: "nat \<Rightarrow> callback_type \<Rightarrow> 'v gs_param \<Rightarrow> callback_return_type \<times> 'v gs_param"
  static_deserialize :: "Param_type \<Rightarrow> string \<Rightarrow> 'v \<Rightarrow> 'v \<times> bool"
  static_serialize :: "Param_type \<Rightarrow> 'v \<Rightarrow> string"
  getenv :: "string \<Rightarrow> string option"
  cb_fuel :: nat

definition subst_env :: "'v penv \<Rightarrow> string \<Rightarrow> string \<Rightarrow> string" where
  "subst_env E str parname = envvar_subst (getenv E) str"

lemma subst_env_plain [simp]: "CHR ''$'' \<notin> set str \<Longrightarrow> subst_env E str n = str"
  by (simp add: subst_env_def subst_plain)

text \<open>The iteration order of \<^verbatim>\<open>m_callback_lists\<close>, a map keyed by the enumeration.\<close>

definition list_types :: "callback_type list" where
  "list_types = [pre_read, post_read, reject_write, pre_write, post_write, destroy_param]"

definition set_list :: "callback_type \<Rightarrow> cb_entry list \<Rightarrow> 'v gs_param \<Rightarrow> 'v gs_param" where
  "set_list r es p = p\<lparr>m_lists := (m_lists p)(r := es)\<rparr>"

lemma set_list_simps [simp]:
  "m_lists (set_list r es p) = (m_lists p)(r := es)"
  "m_making (set_list r es p) = m_making p"
  "m_delete_enqueued (set_list r es p) = m_delete_enqueued p"
  "my_value (set_list r es p) = my_value p"
  "m_locked (set_list r es p) = m_locked p"
  "m_callers (set_list r es p) = m_callers p"
  by (simp_all add: set_list_def)

section \<open>Registering and removing callbacks\<close>

definition push_entry :: "callback_type \<Rightarrow> adapter \<Rightarrow> 'v gs_param \<Rightarrow> 'v gs_param" where
  "push_entry r a p = set_list r (m_lists p r @ [(True, a)]) p"

definition registerParamCallback :: "adapter \<Rightarrow> callback_type \<Rightarrow> 'v gs_param \<Rightarrow> 'v gs_param" where
  "registerParamCallback a t p =
     (if t \<in> set list_types then push_entry t a p
      else if t = post_write_and_destroy then push_entry post_write a (push_entry destroy_param a p)
      else p)"

fun first_idx :: "('a \<Rightarrow> bool) \<Rightarrow> 'a list \<Rightarrow> nat option" where
  "first_idx P [] = None"
| "first_idx P (x # xs) = (if P x then Some 0 else map_option Suc (first_idx P xs))"

definition conditional_callback_remove :: "callback_type \<Rightarrow> nat \<Rightarrow> 'v gs_param \<Rightarrow> 'v gs_param" where
  "conditional_callback_remove r i p =
     (let es = m_lists p r in
      if \<not> m_making p
      then (set_list r (erase_at i es) p)\<lparr>m_callers := (m_callers p)(a_id (snd (es ! i)) := False)\<rparr>
      else (set_list r (es[i := (False, snd (es ! i))]) p)
             \<lparr>m_delete_enqueued := m_delete_enqueued p + 1\<rparr>)"

text \<open>One pass over all lists: the first entry of each that satisfies the test is removed.\<close>

fun remove_pass :: "(cb_entry \<Rightarrow> bool) \<Rightarrow> callback_type list \<Rightarrow> 'v gs_param \<Rightarrow> bool \<times> 'v gs_param" where
  "remove_pass P [] p = (False, p)"
| "remove_pass P (r # rs) p =
     (case first_idx P (m_lists p r) of
        None \<Rightarrow> remove_pass P rs p
      | Some i \<Rightarrow> (True, snd (remove_pass P rs (conditional_callback_remove r i p))))"

definition unregisterParamCallback :: "nat \<Rightarrow> 'v gs_param \<Rightarrow> bool \<times> 'v gs_param" where
  "unregisterParamCallback callb p = remove_pass (\<lambda>e. a_id (snd e) = callb) list_types p"

text \<open>The \<^verbatim>\<open>do ... while (found)\<close> loop, with the passes it may make bounded by \<open>n\<close>.\<close>

fun unregister_loop :: "nat \<Rightarrow> nat \<Rightarrow> bool \<Rightarrow> 'v gs_param \<Rightarrow> (bool \<times> 'v gs_param) res" where
  "unregister_loop 0 obs success p = Inl OutOfFuel"
| "unregister_loop (Suc n) obs success p =
     (case remove_pass (\<lambda>e. a_observer (snd e) = obs) list_types p of
        (found, p') \<Rightarrow>
          if found then unregister_loop n obs True p' else Inr (success, p'))"

definition unregisterParamCallbacks :: "nat \<Rightarrow> nat \<Rightarrow> 'v gs_param \<Rightarrow> (bool \<times> 'v gs_param) res" where
  "unregisterParamCallbacks n obs p = unregister_loop n obs False p"

section \<open>Making callbacks\<close>

text \<open>
  \<open>cleanup_rev es j n\<close> is the reverse-iterator loop at element \<open>j - 1\<close>. The iterator's
  \<^verbatim>\<open>base()\<close> is the element after the one it denotes, and that one is erased; erasing
  \<^verbatim>\<open>end()\<close> is undefined. (Erasing also invalidates the iterator; the model keeps its position,
  as an iterator that is a pointer does.)
\<close>

fun cleanup_rev :: "cb_entry list \<Rightarrow> nat \<Rightarrow> u32 \<Rightarrow> (cb_entry list \<times> u32) res" where
  "cleanup_rev es 0 n = Inr (es, n)"
| "cleanup_rev es (Suc j) n =
     (if \<not> fst (es ! j)
      then (if Suc j < length es
            then (let n' = n - 1; es' = erase_at (Suc j) es
                  in if n' = 0 then Inr (es', n') else cleanup_rev es' j n')
            else Inl (Undefined ''erase(end())''))
      else if n = 0 then Inr (es, n)
      else cleanup_rev es j n)"

fun cleanup_lists :: "callback_type list \<Rightarrow> 'v gs_param \<Rightarrow> 'v gs_param res" where
  "cleanup_lists [] p = Inr p"
| "cleanup_lists (r # rs) p =
     bindr (cleanup_rev (m_lists p r) (length (m_lists p r)) (m_delete_enqueued p))
       (\<lambda>(es, n). cleanup_lists rs ((set_list r es p)\<lparr>m_delete_enqueued := n\<rparr>))"

definition cleanup_callback_list :: "'v gs_param \<Rightarrow> 'v gs_param res" where
  "cleanup_callback_list p =
     (if m_making p then Inl (AssertFail ''Must not be called while making callbacks'')
      else if m_delete_enqueued p > 0
      then bindr (cleanup_lists list_types p)
             (\<lambda>p'. if m_delete_enqueued p' = 0 then Inr p'
                   else Inl (AssertFail ''m_callback_list_delete_enqueued == 0''))
      else Inr p)"

text \<open>The loop over one list reads its size in every round, so a callback may prolong it.\<close>

fun run_callbacks ::
  "'v penv \<Rightarrow> callback_type \<Rightarrow> nat \<Rightarrow> nat \<Rightarrow> callback_return_type \<Rightarrow> 'v gs_param
     \<Rightarrow> (callback_return_type \<times> 'v gs_param) res" where
  "run_callbacks E r 0 i acc p =
     (if i < length (m_lists p r) then Inl OutOfFuel else Inr (acc, p))"
| "run_callbacks E r (Suc n) i acc p =
     (if i < length (m_lists p r)
      then (let e = m_lists p r ! i in
            if fst e
            then (let (ret, p') = call_fn E (a_id (snd e)) r p
                  in run_callbacks E r n (Suc i) (if acc < ret then ret else acc) p')
            else run_callbacks E r n (Suc i) acc p)
      else Inr (acc, p))"

definition make_enabled_callbacks_helper ::
  "'v penv \<Rightarrow> callback_type \<Rightarrow> 'v gs_param \<Rightarrow> (callback_return_type \<times> 'v gs_param) res" where
  "make_enabled_callbacks_helper E r p =
     (if m_lists p r \<noteq> []
      then bindr (run_callbacks E r (cb_fuel E) 0 return_nothing (p\<lparr>m_making := True\<rparr>))
             (\<lambda>(ret, p1). bindr (cleanup_callback_list (p1\<lparr>m_making := False\<rparr>))
                (\<lambda>p2. Inr (ret, p2)))
      else Inr (return_nothing, p))"

definition make_pre_read_callbacks where
  "make_pre_read_callbacks E p = make_enabled_callbacks_helper E pre_read p"

definition make_post_read_callbacks where
  "make_post_read_callbacks E p = make_enabled_callbacks_helper E post_read p"

definition make_reject_write_callbacks where
  "make_reject_write_callbacks E p = make_enabled_callbacks_helper E reject_write p"

definition make_pre_write_callbacks where
  "make_pre_write_callbacks E p =
     bindr (make_enabled_callbacks_helper E pre_write p)
       (\<lambda>(ret, p'). if ret = return_value_change_rejected
                    then Inl (AssertFail ''pre_write callback must not reject value'')
                    else Inr (ret, p'))"

definition make_post_write_callbacks where
  "make_post_write_callbacks E p = make_enabled_callbacks_helper E post_write p"

definition make_destroy_param_callbacks where
  "make_destroy_param_callbacks E p =
     bindr (make_enabled_callbacks_helper E destroy_param p) (\<lambda>(ret, p'). Inr p')"

section \<open>The lock\<close>

definition lock_param :: "nat \<Rightarrow> 'v gs_param \<Rightarrow> bool \<times> 'v gs_param" where
  "lock_param pwd p =
     (if m_locked p \<and> pwd \<noteq> m_lock_pwd p \<and> m_lock_pwd p \<noteq> 0 then (False, p)
      else (True, p\<lparr>m_lock_pwd := pwd, m_locked := True\<rparr>))"

definition unlock_param :: "nat \<Rightarrow> 'v gs_param \<Rightarrow> bool \<times> 'v gs_param" where
  "unlock_param pwd p =
     (let p' = (if pwd = m_lock_pwd p then p\<lparr>m_locked := False\<rparr> else p) in (\<not> m_locked p', p'))"

definition check_pwd :: "nat \<Rightarrow> 'v gs_param \<Rightarrow> bool" where
  "check_pwd pwd p = (pwd = m_lock_pwd p)"

section \<open>Reading and writing the value\<close>

definition deserialize :: "'v penv \<Rightarrow> string \<Rightarrow> 'v gs_param \<Rightarrow> bool \<times> 'v gs_param" where
  "deserialize E str p =
     (if m_locked p then (False, p)
      else (case static_deserialize E (p_type p) str (my_value p) of
              (v, ok) \<Rightarrow> (ok, p\<lparr>my_value := v\<rparr>)))"

definition setString :: "'v penv \<Rightarrow> string \<Rightarrow> 'v gs_param \<Rightarrow> (bool \<times> 'v gs_param) res" where
  "setString E str p =
     bindr (make_reject_write_callbacks E p) (\<lambda>(ret, p1).
       if ret = return_value_change_rejected then Inr (False, p1)
       else bindr (make_pre_write_callbacks E p1) (\<lambda>(_, p2).
         if m_locked p2 then Inr (False, p2)
         else (case deserialize E (subst_env E str (m_par_name p2)) p2 of
                 (ok, p3) \<Rightarrow>
                   if ok then bindr (make_post_write_callbacks E p3) (\<lambda>(_, p4). Inr (True, p4))
                   else Inr (False, p3))))"

definition setValue :: "'v penv \<Rightarrow> 'v \<Rightarrow> 'v gs_param \<Rightarrow> (bool \<times> 'v gs_param) res" where
  "setValue E val p =
     bindr (make_reject_write_callbacks E p) (\<lambda>(ret, p1).
       if ret = return_value_change_rejected then Inr (False, p1)
       else bindr (make_pre_write_callbacks E p1) (\<lambda>(_, p2).
         if m_locked p2 then Inr (False, p2)
         else bindr (make_post_write_callbacks E (p2\<lparr>my_value := val\<rparr>)) (\<lambda>(_, p3). Inr (True, p3))))"

definition setValue_pwd :: "'v penv \<Rightarrow> 'v \<Rightarrow> nat \<Rightarrow> 'v gs_param \<Rightarrow> (bool \<times> 'v gs_param) res" where
  "setValue_pwd E val lock_pwd p =
     (if m_locked p \<and> m_lock_pwd p \<noteq> lock_pwd then Inr (False, p)
      else bindr (make_reject_write_callbacks E p) (\<lambda>(ret, p1).
        if ret = return_value_change_rejected then Inr (False, p1)
        else bindr (make_pre_write_callbacks E p1) (\<lambda>(_, p2).
          bindr (make_post_write_callbacks E (p2\<lparr>my_value := val\<rparr>)) (\<lambda>(_, p3). Inr (True, p3)))))"

definition getValue :: "'v penv \<Rightarrow> 'v gs_param \<Rightarrow> ('v \<times> 'v gs_param) res" where
  "getValue E p =
     bindr (make_pre_read_callbacks E p) (\<lambda>(_, p1).
     bindr (make_post_read_callbacks E p1) (\<lambda>(_, p2). Inr (my_value p2, p2)))"

definition getString :: "'v penv \<Rightarrow> 'v gs_param \<Rightarrow> (string \<times> 'v gs_param) res" where
  "getString E p =
     bindr (make_pre_read_callbacks E p) (\<lambda>(_, p1).
       let s = static_serialize E (p_type p1) (my_value p1) in
       bindr (make_post_read_callbacks E p1) (\<lambda>(_, p2). Inr (s, p2)))"

section \<open>Attributes\<close>

definition add_param_attribute :: "nat \<Rightarrow> 'v gs_param \<Rightarrow> bool \<times> 'v gs_param" where
  "add_param_attribute attr p =
     (attr \<notin> m_attributes p, p\<lparr>m_attributes := insert attr (m_attributes p)\<rparr>)"

definition has_param_attribute :: "nat \<Rightarrow> 'v gs_param \<Rightarrow> bool" where
  "has_param_attribute attr p = (attr \<in> m_attributes p)"

definition remove_param_attribute :: "nat \<Rightarrow> 'v gs_param \<Rightarrow> bool \<times> 'v gs_param" where
  "remove_param_attribute attr p =
     (attr \<in> m_attributes p, p\<lparr>m_attributes := m_attributes p - {attr}\<rparr>)"

definition remove_all_param_attributes :: "'v gs_param \<Rightarrow> 'v gs_param" where
  "remove_all_param_attributes p = p\<lparr>m_attributes := {}\<rparr>"


section \<open>Facts about the lists\<close>

lemma first_idx_Some:
  "first_idx P xs = Some i \<Longrightarrow> i < length xs \<and> P (xs ! i) \<and> (\<forall>j < i. \<not> P (xs ! j))"
proof (induction xs arbitrary: i)
  case (Cons x xs)
  show ?case
  proof (cases "P x")
    case False
    with Cons.prems obtain k where "first_idx P xs = Some k" "i = Suc k" by auto
    then show ?thesis using Cons.IH [of k] False by (auto simp: less_Suc_eq_0_disj)
  qed (use Cons.prems in auto)
qed simp

lemma first_idx_None: "first_idx P xs = None \<longleftrightarrow> (\<forall>x \<in> set xs. \<not> P x)"
  by (induction xs) auto

lemma filter_erase_at:
  assumes "i < length xs" and "P (xs ! i)"
  shows "filter (\<lambda>x. \<not> P x) (erase_at i xs) = filter (\<lambda>x. \<not> P x) xs"
proof -
  have "xs = take i xs @ xs ! i # drop (Suc i) xs" using assms(1) by (rule id_take_nth_drop)
  then have "filter (\<lambda>x. \<not> P x) xs
      = filter (\<lambda>x. \<not> P x) (take i xs) @ filter (\<lambda>x. \<not> P x) (drop (Suc i) xs)"
    using assms(2) by (metis filter.simps(2) filter_append)
  then show ?thesis by (simp add: erase_at_def)
qed

lemma length_erase_at [simp]: "i < length xs \<Longrightarrow> length (erase_at i xs) = length xs - 1"
  by (simp add: erase_at_def)

lemma set_erase_at: "set (erase_at i xs) \<subseteq> set xs"
  by (auto simp: erase_at_def dest: in_set_takeD in_set_dropD)

definition remove_first :: "('a \<Rightarrow> bool) \<Rightarrow> 'a list \<Rightarrow> 'a list" where
  "remove_first P xs = (case first_idx P xs of None \<Rightarrow> xs | Some i \<Rightarrow> erase_at i xs)"

lemma filter_remove_first: "filter (\<lambda>x. \<not> P x) (remove_first P xs) = filter (\<lambda>x. \<not> P x) xs"
  by (auto simp: remove_first_def first_idx_Some filter_erase_at split: option.splits)

lemma remove_first_none: "\<forall>x \<in> set xs. \<not> P x \<Longrightarrow> remove_first P xs = xs"
  using first_idx_None [of P xs] by (simp add: remove_first_def)

lemma length_remove_first:
  "length (remove_first P xs) = (if \<exists>x \<in> set xs. P x then length xs - 1 else length xs)"
  using first_idx_None [of P xs]
  by (auto simp: remove_first_def first_idx_Some split: option.splits)

lemma list_types_distinct [simp]: "distinct list_types"
  by (simp add: list_types_def)

lemma conditional_remove_simps [simp]:
  "m_making (conditional_callback_remove r i p) = m_making p"
  "my_value (conditional_callback_remove r i p) = my_value p"
  "m_locked (conditional_callback_remove r i p) = m_locked p"
  by (simp_all add: conditional_callback_remove_def Let_def set_list_def)

lemma conditional_remove_direct:
  "\<not> m_making p \<Longrightarrow> m_lists (conditional_callback_remove r i p)
     = (m_lists p)(r := erase_at i (m_lists p r))"
  by (simp add: conditional_callback_remove_def Let_def)

lemma conditional_remove_deferred:
  "m_making p \<Longrightarrow> m_lists (conditional_callback_remove r i p)
     = (m_lists p)(r := (m_lists p r)[i := (False, snd (m_lists p r ! i))])"
  by (simp add: conditional_callback_remove_def Let_def)

section \<open>Removal outside of callbacks\<close>

lemma remove_pass_found:
  assumes "distinct rs"
  shows "fst (remove_pass P rs p) \<longleftrightarrow> (\<exists>r \<in> set rs. \<exists>e \<in> set (m_lists p r). P e)"
  using assms
proof (induction rs arbitrary: p)
  case (Cons r rs)
  show ?case
  proof (cases "first_idx P (m_lists p r)")
    case None
    then show ?thesis using Cons first_idx_None [of P "m_lists p r"] by auto
  next
    case (Some i)
    then have "\<exists>e \<in> set (m_lists p r). P e" using first_idx_Some nth_mem by metis
    with Some show ?thesis by auto
  qed
qed simp

lemma remove_pass_making [simp]: "m_making (snd (remove_pass P rs p)) = m_making p"
  by (induction P rs p rule: remove_pass.induct) (auto split: option.splits)

lemma remove_pass_value [simp]: "my_value (snd (remove_pass P rs p)) = my_value p"
  by (induction P rs p rule: remove_pass.induct) (auto split: option.splits)

lemma remove_pass_lists:
  assumes "\<not> m_making p" and "distinct rs"
  shows "m_lists (snd (remove_pass P rs p)) r
     = (if r \<in> set rs then remove_first P (m_lists p r) else m_lists p r)"
  using assms
proof (induction rs arbitrary: p)
  case (Cons t rs)
  show ?case
  proof (cases "first_idx P (m_lists p t)")
    case None
    then have "remove_first P (m_lists p t) = m_lists p t" by (simp add: remove_first_def)
    with None Cons show ?thesis by auto
  next
    case (Some i)
    let ?q = "conditional_callback_remove t i p"
    have q: "m_lists ?q = (m_lists p)(t := erase_at i (m_lists p t))"
      using Cons.prems by (simp add: conditional_remove_direct)
    have "m_lists (snd (remove_pass P rs ?q)) r
        = (if r \<in> set rs then remove_first P (m_lists ?q r) else m_lists ?q r)"
      using Cons.IH [of ?q] Cons.prems by simp
    then show ?thesis using Some q Cons.prems(2) by (auto simp: remove_first_def)
  qed
qed simp

definition n_entries :: "'v gs_param \<Rightarrow> nat" where
  "n_entries p = (\<Sum>r \<leftarrow> list_types. length (m_lists p r))"

lemma remove_pass_shrinks:
  assumes "\<not> m_making p" and "fst (remove_pass P list_types p)"
  shows "n_entries (snd (remove_pass P list_types p)) < n_entries p"
proof -
  let ?q = "snd (remove_pass P list_types p)"
  have len: "length (m_lists ?q r)
      = (if \<exists>x \<in> set (m_lists p r). P x then length (m_lists p r) - 1 else length (m_lists p r))"
    if "r \<in> set list_types" for r
    using remove_pass_lists [OF assms(1) list_types_distinct] that
    by (simp add: length_remove_first)
  obtain r e where r: "r \<in> set list_types" and e: "e \<in> set (m_lists p r)" "P e"
    using assms(2) by (auto simp: remove_pass_found)
  have "(\<Sum>r \<in> set list_types. length (m_lists ?q r)) < (\<Sum>r \<in> set list_types. length (m_lists p r))"
  proof (rule sum_strict_mono_ex1)
    show "\<forall>x \<in> set list_types. length (m_lists ?q x) \<le> length (m_lists p x)"
      by (simp add: len)
    have "0 < length (m_lists p r)" using e by (cases "m_lists p r") auto
    then show "\<exists>a \<in> set list_types. length (m_lists ?q a) < length (m_lists p a)"
      using r e by (intro bexI [OF _ r]) (auto simp: len)
  qed simp
  then show ?thesis by (simp add: n_entries_def sum_list_distinct_conv_sum_set)
qed

text \<open>
  Outside of callbacks \<^verbatim>\<open>unregisterParamCallbacks\<close> ends (as many passes as there are
  entries, and one, suffice), removes exactly the entries of the observer from every list and
  keeps the order of the others, and reports whether there were any.
\<close>

theorem unregisterParamCallbacks_removes_observer:
  assumes "\<not> m_making p" and "n_entries p < n"
  shows "\<exists>p'. unregisterParamCallbacks n obs p
            = Inr (\<exists>r \<in> set list_types. \<exists>e \<in> set (m_lists p r). a_observer (snd e) = obs, p')
          \<and> (\<forall>r \<in> set list_types. m_lists p' r
                = filter (\<lambda>e. a_observer (snd e) \<noteq> obs) (m_lists p r))"
proof -
  let ?P = "\<lambda>e::cb_entry. a_observer (snd e) = obs"
  have "\<exists>p'. unregister_loop n obs b p
            = Inr (b \<or> (\<exists>r \<in> set list_types. \<exists>e \<in> set (m_lists p r). ?P e), p')
          \<and> (\<forall>r \<in> set list_types. m_lists p' r = filter (\<lambda>e. \<not> ?P e) (m_lists p r))" for b
    using assms
  proof (induction n arbitrary: p b)
    case (Suc n)
    let ?q = "snd (remove_pass ?P list_types p)"
    have lists: "m_lists ?q r = remove_first ?P (m_lists p r)" if "r \<in> set list_types" for r
      using remove_pass_lists [OF Suc.prems(1) list_types_distinct] that by simp
    show ?case
    proof (cases "fst (remove_pass ?P list_types p)")
      case True
      then have "n_entries ?q < n" using remove_pass_shrinks [OF Suc.prems(1)] Suc.prems(2) by fastforce
      with Suc.IH [of ?q True] Suc.prems(1) obtain p' where
        p': "unregister_loop n obs True ?q = Inr (True, p')"
          "\<forall>r \<in> set list_types. m_lists p' r = filter (\<lambda>e. \<not> ?P e) (m_lists ?q r)" by auto
      moreover have "\<exists>r \<in> set list_types. \<exists>e \<in> set (m_lists p r). ?P e"
        using True by (simp add: remove_pass_found)
      ultimately show ?thesis using True lists
        by (auto simp: case_prod_unfold filter_remove_first)
    next
      case False
      then have "\<forall>r \<in> set list_types. \<forall>e \<in> set (m_lists p r). \<not> ?P e"
        by (simp add: remove_pass_found)
      then show ?thesis using False lists
        by (auto simp: case_prod_unfold remove_first_none)
    qed
  qed simp
  from this [of False] show ?thesis by (simp add: unregisterParamCallbacks_def)
qed


text \<open>A parameter with two callbacks, for the concrete instances below.\<close>

definition sample_param :: "nat gs_param" where
  "sample_param = \<lparr>m_par_name = ''m.p'', p_type = PARTYPE_UINT, p_type_string = ''unsigned int'',
     my_value = 5, my_default_value = 0, m_default_value_was_set = True, m_register_at_db = True,
     m_locked = False, m_lock_pwd = 0, m_making = False, m_delete_enqueued = 0,
     m_lists = (\<lambda>r. if r = post_write
                   then [(True, \<lparr>a_id = 1, a_observer = 10\<rparr>), (True, \<lparr>a_id = 2, a_observer = 20\<rparr>)]
                   else []),
     m_callers = (\<lambda>a. a \<in> {1, 2}), m_destruction_flag = False, m_is_initial_value = False,
     m_setting_initial_value_now = False, m_attributes = {}\<rparr>"

theorem unregisterParamCallbacks_removes_observer_witness:
  "\<exists>p'. unregisterParamCallbacks 5 10 sample_param = Inr (True, p')
     \<and> m_lists p' post_write = [(True, \<lparr>a_id = 2, a_observer = 20\<rparr>)]"
proof -
  have "\<not> m_making sample_param" "n_entries sample_param < 5"
    by (simp_all add: sample_param_def n_entries_def list_types_def)
  from unregisterParamCallbacks_removes_observer [OF this, of 10]
  obtain p' where "unregisterParamCallbacks 5 10 sample_param
      = Inr (\<exists>r \<in> set list_types. \<exists>e \<in> set (m_lists sample_param r). a_observer (snd e) = 10, p')"
    and "\<forall>r \<in> set list_types. m_lists p' r
      = filter (\<lambda>e. a_observer (snd e) \<noteq> 10) (m_lists sample_param r)" by blast
  moreover have "\<exists>r \<in> set list_types. \<exists>e \<in> set (m_lists sample_param r). a_observer (snd e) = 10"
    by (rule bexI [of _ post_write], rule bexI [of _ "(True, \<lparr>a_id = 1, a_observer = 10\<rparr>)"])
      (simp_all add: sample_param_def list_types_def)
  ultimately show ?thesis by (auto simp: sample_param_def list_types_def)
qed

section \<open>Removal during callbacks\<close>

lemma remove_pass_deferred_keeps:
  assumes "m_making p" and "\<And>b a. P (b, a) = P (True, a)"
  shows "(\<exists>e \<in> set (m_lists (snd (remove_pass P rs p)) r). P e)
     \<longleftrightarrow> (\<exists>e \<in> set (m_lists p r). P e)"
  using assms
proof (induction P rs p rule: remove_pass.induct)
  case (2 P t rs p)
  show ?case
  proof (cases "first_idx P (m_lists p t)")
    case (Some i)
    let ?es = "m_lists p t"
    let ?q = "conditional_callback_remove t i p"
    have i: "i < length ?es" "P (?es ! i)" using first_idx_Some [OF Some] by auto
    then have pi: "P (False, snd (?es ! i))" using 2(4) by (metis prod.collapse)
    have "(False, snd (?es ! i)) \<in> set (?es[i := (False, snd (?es ! i))])"
      using i by (metis length_list_update nth_list_update_eq nth_mem)
    then have a: "\<exists>e \<in> set (?es[i := (False, snd (?es ! i))]). P e" using pi by blast
    have b: "\<exists>e \<in> set ?es. P e" using i nth_mem by blast
    have "(\<exists>e \<in> set (m_lists (snd (remove_pass P rs ?q)) r). P e)
        \<longleftrightarrow> (\<exists>e \<in> set (m_lists ?q r). P e)"
      using 2 Some by simp
    then show ?thesis
      using Some a b 2(3) by (simp add: conditional_remove_deferred)
  qed (use 2 in auto)
qed simp

text \<open>
  Called from within a callback, \<^verbatim>\<open>unregisterParamCallbacks\<close> never returns when some list
  holds an entry of the observer: the entry is only disabled, the next pass finds it again, so
  whatever the bound on the passes, it is exhausted.
\<close>

theorem unregisterParamCallbacks_diverges_in_callback:
  assumes "m_making p" and "r \<in> set list_types"
    and "(b, a) \<in> set (m_lists p r)"
  shows "unregisterParamCallbacks n (a_observer a) p = Inl OutOfFuel"
proof -
  let ?P = "\<lambda>e::cb_entry. a_observer (snd e) = a_observer a"
  have "\<exists>r \<in> set list_types. \<exists>e \<in> set (m_lists p r). ?P e"
    using assms(2,3) by force
  then have "unregister_loop n (a_observer a) s p = Inl OutOfFuel" for s
    using assms(1)
  proof (induction n arbitrary: p s)
    case (Suc n)
    let ?q = "snd (remove_pass ?P list_types p)"
    have "fst (remove_pass ?P list_types p)" using Suc.prems(1) by (simp add: remove_pass_found)
    moreover have "\<exists>r \<in> set list_types. \<exists>e \<in> set (m_lists ?q r). ?P e"
      using Suc.prems remove_pass_deferred_keeps [OF Suc.prems(2), of ?P] by simp
    then have "unregister_loop n (a_observer a) True ?q = Inl OutOfFuel"
      using Suc.IH Suc.prems(2) by simp
    ultimately show ?case by (simp add: case_prod_unfold)
  qed simp
  then show ?thesis by (simp add: unregisterParamCallbacks_def)
qed

theorem unregisterParamCallbacks_diverges_in_callback_witness:
  "unregisterParamCallbacks 1000 10 (sample_param\<lparr>m_making := True\<rparr>) = Inl OutOfFuel"
  using unregisterParamCallbacks_diverges_in_callback
    [of "sample_param\<lparr>m_making := True\<rparr>" post_write True "\<lparr>a_id = 1, a_observer = 10\<rparr>" 1000]
  by (simp add: sample_param_def list_types_def)

section \<open>Cleaning up after callbacks\<close>

lemma cleanup_rev_none: "\<forall>e \<in> set es. fst e \<Longrightarrow> j \<le> length es \<Longrightarrow> cleanup_rev es j n = Inr (es, n)"
proof (induction j)
  case (Suc j)
  then have "fst (es ! j)" by (meson Suc_le_eq nth_mem)
  with Suc show ?case by simp
qed simp

lemma cleanup_rev_skip:
  assumes "\<forall>e \<in> set ys. fst e" and "n \<noteq> 0"
  shows "k \<le> length ys \<Longrightarrow> cleanup_rev (xs @ ys) (length xs + k) n = cleanup_rev (xs @ ys) (length xs) n"
proof (induction k)
  case (Suc k)
  then have "fst (ys ! k)" using assms(1) by simp
  with Suc assms(2) show ?case by (simp add: nth_append)
qed simp

lemma cleanup_rev_wrong:
  assumes "\<forall>e \<in> set ys. fst e"
  shows "cleanup_rev (xs @ (False, a) # (True, b) # ys) (length (xs @ (False, a) # (True, b) # ys)) 1
     = Inr (xs @ (False, a) # ys, 0)"
proof -
  let ?l = "xs @ (False, a) # (True, b) # ys"
  have "cleanup_rev ((xs @ [(False, a)]) @ (True, b) # ys) (length (xs @ [(False, a)]) + Suc (length ys)) 1
      = cleanup_rev ((xs @ [(False, a)]) @ (True, b) # ys) (length (xs @ [(False, a)])) 1"
    using assms by (intro cleanup_rev_skip) auto
  then have "cleanup_rev ?l (length ?l) 1 = cleanup_rev ?l (Suc (length xs)) 1" by simp
  also have "\<dots> = Inr (xs @ (False, a) # ys, 0)"
    by (simp add: nth_append erase_at_def Let_def)
  finally show ?thesis .
qed

lemma cleanup_rev_end:
  "cleanup_rev (xs @ [(False, a)]) (length (xs @ [(False, a)])) n = Inl (Undefined ''erase(end())'')"
  by (simp add: nth_append)

text \<open>
  Cleaning up after one deferred removal drops the wrong callback: when the disabled entry is
  followed by an enabled one (and every other entry is enabled), the enabled one is erased and the
  disabled one stays; when the disabled entry is the last of the list, the behaviour is undefined.
\<close>

theorem cleanup_erases_successor:
  assumes "\<not> m_making p" and "m_delete_enqueued p = 1"
    and "m_lists p post_write = xs @ (False, a) # ys"
    and "\<forall>e \<in> set xs \<union> set ys. fst e"
    and "\<forall>r \<in> set list_types - {post_write}. \<forall>e \<in> set (m_lists p r). fst e"
  shows "case ys of
      [] \<Rightarrow> cleanup_callback_list p = Inl (Undefined ''erase(end())'')
    | b # ys' \<Rightarrow> \<exists>p'. cleanup_callback_list p = Inr p'
          \<and> m_lists p' = (m_lists p)(post_write := xs @ (False, a) # ys')"
proof -
  have en: "\<forall>e \<in> set (m_lists p r). fst e"
    if "r \<in> {pre_read, post_read, reject_write, pre_write, destroy_param}" for r
    using assms(5) that by (auto simp: list_types_def)
  have others: "cleanup_rev (m_lists p r) (length (m_lists p r)) n = Inr (m_lists p r, n)"
    if "r \<in> {pre_read, post_read, reject_write, pre_write, destroy_param}" for r n
    using cleanup_rev_none [OF en [OF that] order_refl] .
  show ?thesis
  proof (cases ys)
    case Nil
    then show ?thesis using assms(1-3) cleanup_rev_end [of xs a "1"]
      by (simp add: cleanup_callback_list_def list_types_def others)
  next
    case (Cons e ys')
    then obtain b where e: "e = (True, b)" using assms(4) by (cases e) auto
    have "cleanup_rev (m_lists p post_write) (length (m_lists p post_write)) 1
        = Inr (xs @ (False, a) # ys', 0)"
      using cleanup_rev_wrong [of ys' xs a b] assms(3,4) Cons e by simp
    then show ?thesis using Cons assms(1,2)
      by (simp add: cleanup_callback_list_def list_types_def others fun_eq_iff)
  qed
qed

theorem cleanup_erases_successor_witness:
  "\<exists>p'. cleanup_callback_list (sample_param\<lparr>m_delete_enqueued := 1,
            m_lists := (m_lists sample_param)(post_write :=
              [(False, \<lparr>a_id = 1, a_observer = 10\<rparr>), (True, \<lparr>a_id = 2, a_observer = 20\<rparr>)])\<rparr>) = Inr p'
     \<and> m_lists p' post_write = [(False, \<lparr>a_id = 1, a_observer = 10\<rparr>)]"
  using cleanup_erases_successor [of "sample_param\<lparr>m_delete_enqueued := 1,
            m_lists := (m_lists sample_param)(post_write :=
              [(False, \<lparr>a_id = 1, a_observer = 10\<rparr>), (True, \<lparr>a_id = 2, a_observer = 20\<rparr>)])\<rparr>"
        "[]" "\<lparr>a_id = 1, a_observer = 10\<rparr>" "[(True, \<lparr>a_id = 2, a_observer = 20\<rparr>)]"]
  by (auto simp: sample_param_def list_types_def)


section \<open>Callbacks that only observe\<close>

text \<open>
  A callback that leaves the parameter as it is only contributes its return value; the returns of
  one list are combined to the one of highest precedence.
\<close>

definition observing :: "'v penv \<Rightarrow> bool" where
  "observing E \<longleftrightarrow> (\<forall>a r p. snd (call_fn E a r p) = p)"

definition combined :: "'v penv \<Rightarrow> callback_type \<Rightarrow> 'v gs_param \<Rightarrow> cb_entry list \<Rightarrow> callback_return_type" where
  "combined E r p es =
     Max (insert return_nothing ((\<lambda>e. fst (call_fn E (a_id (snd e)) r p)) ` {e \<in> set es. fst e}))"

lemma return_nothing_least [simp]: "return_nothing \<le> x"
  by (simp add: return_order)

lemma combined_Cons:
  "combined E r p (e # es)
     = (if fst e then max (fst (call_fn E (a_id (snd e)) r p)) (combined E r p es)
        else combined E r p es)"
proof (cases "fst e")
  case True
  let ?g = "\<lambda>e. fst (call_fn E (a_id (snd e)) r p)"
  have "insert return_nothing (?g ` {x \<in> set (e # es). fst x})
      = insert (?g e) (insert return_nothing (?g ` {x \<in> set es. fst x}))"
    using True by auto
  then show ?thesis using True by (simp add: combined_def)
next
  case False
  then have "{x \<in> set (e # es). fst x} = {x \<in> set es. fst x}" by auto
  then show ?thesis using False by (simp add: combined_def)
qed

lemma run_callbacks_observing:
  assumes "observing E" and "length (m_lists p r) \<le> i + n"
  shows "run_callbacks E r n i acc p = Inr (max acc (combined E r p (drop i (m_lists p r))), p)"
  using assms(2)
proof (induction n arbitrary: i acc)
  case 0
  then show ?case by (simp add: combined_def)
next
  case (Suc n)
  let ?es = "m_lists p r"
  show ?case
  proof (cases "i < length ?es")
    case True
    let ?e = "?es ! i"
    obtain ret where c: "call_fn E (a_id (snd ?e)) r p = (ret, p)"
      using assms(1) by (metis observing_def prod.collapse)
    have d: "drop i ?es = ?e # drop (Suc i) ?es" using True by (simp add: Cons_nth_drop_Suc)
    have IH: "run_callbacks E r n (Suc i) a p = Inr (max a (combined E r p (drop (Suc i) ?es)), p)" for a
      using Suc by simp
    have "max (if acc < ret then ret else acc) = max (max acc ret)"
      by (auto simp: fun_eq_iff max_def)
    then show ?thesis using True c IH by (simp add: d combined_Cons max.assoc)
  next
    case False
    then show ?thesis by (simp add: combined_def)
  qed
qed

lemma gs_param_making_id: "\<not> m_making p \<Longrightarrow> p\<lparr>m_making := False\<rparr> = p"
  by (cases p) simp

lemma helper_observing:
  assumes "observing E" and "length (m_lists p r) \<le> cb_fuel E" and "\<not> m_making p"
    and "m_delete_enqueued p = 0"
  shows "make_enabled_callbacks_helper E r p
     = Inr (combined E r (p\<lparr>m_making := True\<rparr>) (m_lists p r), p)"
proof (cases "m_lists p r = []")
  case True
  then show ?thesis by (simp add: make_enabled_callbacks_helper_def combined_def)
next
  case False
  let ?p = "p\<lparr>m_making := True\<rparr>"
  have "run_callbacks E r (cb_fuel E) 0 return_nothing ?p
      = Inr (combined E r ?p (m_lists p r), ?p)"
    using run_callbacks_observing [OF assms(1), of ?p r 0 "cb_fuel E"] assms(2)
    by (simp add: max_def)
  moreover have "?p\<lparr>m_making := False\<rparr> = p" using gs_param_making_id [OF assms(3)] by simp
  ultimately show ?thesis using False assms(4)
    by (simp add: make_enabled_callbacks_helper_def cleanup_callback_list_def assms(3))
qed

lemma combined_at_least:
  assumes "e \<in> set es" and "fst e"
  shows "fst (call_fn E (a_id (snd e)) r p) \<le> combined E r p es"
  unfolding combined_def by (rule Max_ge) (use assms in auto)

definition settled :: "'v penv \<Rightarrow> 'v gs_param \<Rightarrow> bool" where
  "settled E p \<longleftrightarrow> \<not> m_making p \<and> m_delete_enqueued p = 0
     \<and> (\<forall>r. length (m_lists p r) \<le> cb_fuel E)"

lemma helper_settled:
  assumes "observing E" and "settled E p"
  shows "make_enabled_callbacks_helper E r p
     = Inr (combined E r (p\<lparr>m_making := True\<rparr>) (m_lists p r), p)"
  using assms by (intro helper_observing) (auto simp: settled_def)

lemma settled_value [simp]: "settled E (p\<lparr>my_value := v\<rparr>) = settled E p"
  by (simp add: settled_def)

lemmas make_callbacks_defs =
  make_reject_write_callbacks_def make_pre_write_callbacks_def make_post_write_callbacks_def
  make_pre_read_callbacks_def make_post_read_callbacks_def

text \<open>
  With observing callbacks \<^verbatim>\<open>setString\<close> decides in this order: a combined rejection stops the
  write; a rejection from a \<^verbatim>\<open>pre_write\<close> callback fails the assertion; a locked parameter stays
  as it is; otherwise the value is what the type's conversion makes of the environment-substituted
  string, and the conversion's success flag is returned. Nothing but the value changes.
\<close>

theorem setString_observing:
  assumes "observing E" and "settled E p"
  shows "setString E str p =
     (if combined E reject_write (p\<lparr>m_making := True\<rparr>) (m_lists p reject_write)
           = return_value_change_rejected then Inr (False, p)
      else if combined E pre_write (p\<lparr>m_making := True\<rparr>) (m_lists p pre_write)
           = return_value_change_rejected
        then Inl (AssertFail ''pre_write callback must not reject value'')
      else if m_locked p then Inr (False, p)
      else (case static_deserialize E (p_type p) (subst_env E str (m_par_name p)) (my_value p) of
              (v, ok) \<Rightarrow> Inr (ok, p\<lparr>my_value := v\<rparr>)))"
  using helper_settled [OF assms]
    helper_settled [OF assms(1), of "p\<lparr>my_value := v\<rparr>" for v] assms(2)
  by (simp add: setString_def make_callbacks_defs deserialize_def split: prod.splits)

definition sample_env :: "nat penv" where
  "sample_env = \<lparr>call_fn = (\<lambda>a r p. (if a = 1 then return_value_change_rejected
                                  else if a = 2 then return_other_error else return_nothing, p)),
     static_deserialize = (\<lambda>t s v. (length s, True)), static_serialize = (\<lambda>t v. replicate v CHR ''x''),
     getenv = (\<lambda>_. None), cb_fuel = 8\<rparr>"

lemma sample_observing: "observing sample_env"
  by (simp add: observing_def sample_env_def)

lemma sample_settled: "settled sample_env sample_param"
  by (simp add: settled_def sample_env_def sample_param_def)

theorem setString_observing_witness:
  "setString sample_env ''abc'' sample_param = Inr (True, sample_param\<lparr>my_value := 3\<rparr>)"
  using setString_observing [OF sample_observing sample_settled, of "''abc''"]
  by (simp add: sample_env_def sample_param_def combined_def)

text \<open>
  A rejection does not survive another callback's error: when one enabled
  \<^verbatim>\<open>reject_write\<close> callback rejects the change and another one returns
  \<^verbatim>\<open>return_other_error\<close> (documented not to prevent the action), an unlocked parameter takes
  the new value.
\<close>

theorem rejection_overridden_by_other_error:
  assumes "observing E" and "settled E p" and "\<not> m_locked p"
    and "m_lists p pre_write = []"
    and "(True, a) \<in> set (m_lists p reject_write)"
    and "fst (call_fn E (a_id a) reject_write (p\<lparr>m_making := True\<rparr>)) = return_value_change_rejected"
    and "(True, b) \<in> set (m_lists p reject_write)"
    and "fst (call_fn E (a_id b) reject_write (p\<lparr>m_making := True\<rparr>)) = return_other_error"
    and "static_deserialize E (p_type p) (subst_env E str (m_par_name p)) (my_value p) = (v, True)"
  shows "setString E str p = Inr (True, p\<lparr>my_value := v\<rparr>)"
proof -
  have "return_other_error \<le> combined E reject_write (p\<lparr>m_making := True\<rparr>) (m_lists p reject_write)"
    using combined_at_least [OF assms(7), of E reject_write "p\<lparr>m_making := True\<rparr>"] assms(8) by simp
  then have "combined E reject_write (p\<lparr>m_making := True\<rparr>) (m_lists p reject_write)
      \<noteq> return_value_change_rejected" by (auto simp: return_order)
  then show ?thesis using setString_observing [OF assms(1,2)] assms(3,4,9)
    by (simp add: combined_def)
qed

theorem rejection_overridden_by_other_error_witness:
  "setString sample_env ''abc''
     (registerParamCallback \<lparr>a_id = 2, a_observer = 20\<rparr> reject_write
       (registerParamCallback \<lparr>a_id = 1, a_observer = 10\<rparr> reject_write sample_param))
   = Inr (True, (registerParamCallback \<lparr>a_id = 2, a_observer = 20\<rparr> reject_write
       (registerParamCallback \<lparr>a_id = 1, a_observer = 10\<rparr> reject_write sample_param))\<lparr>my_value := 3\<rparr>)"
  by (rule rejection_overridden_by_other_error
        [OF sample_observing, of _ "\<lparr>a_id = 1, a_observer = 10\<rparr>" "\<lparr>a_id = 2, a_observer = 20\<rparr>"])
    (simp_all add: settled_def sample_env_def sample_param_def registerParamCallback_def
      push_entry_def list_types_def set_list_def)

section \<open>Locking\<close>

datatype lock_op = Lock nat | Unlock nat

fun lock_step :: "lock_op \<Rightarrow> 'v gs_param \<Rightarrow> 'v gs_param" where
  "lock_step (Lock w) p = snd (lock_param w p)"
| "lock_step (Unlock w) p = snd (unlock_param w p)"

fun op_pwd :: "lock_op \<Rightarrow> nat" where
  "op_pwd (Lock w) = w"
| "op_pwd (Unlock w) = w"

text \<open>
  A lock taken with a password survives every sequence of lock and unlock calls that do not
  present it, and the unlock that presents it releases the parameter.
\<close>

theorem lock_needs_password:
  assumes "m_locked p" and "m_lock_pwd p \<noteq> 0" and "\<forall>op \<in> set ops. op_pwd op \<noteq> m_lock_pwd p"
  shows "m_locked (fold lock_step ops p) \<and> m_lock_pwd (fold lock_step ops p) = m_lock_pwd p
    \<and> fst (unlock_param (m_lock_pwd p) (fold lock_step ops p))"
  using assms
proof (induction ops arbitrary: p)
  case Nil
  then show ?case by (simp add: unlock_param_def)
next
  case (Cons op ops)
  then have "lock_step op p = p"
    by (cases op) (auto simp: lock_param_def unlock_param_def Let_def)
  then show ?case using Cons by simp
qed

theorem lock_needs_password_witness:
  "m_locked (fold lock_step [Lock 3, Unlock 0, Unlock 4, Lock 0] (snd (lock_param 7 sample_param)))"
  using lock_needs_password [of "snd (lock_param 7 sample_param)" "[Lock 3, Unlock 0, Unlock 4, Lock 0]"]
  by (simp add: lock_param_def sample_param_def)

end
