(* ===== verification/Config_Database.thy ===== *)
theory Config_Database
  imports Gs_Param
begin

text \<open>
  The parameter database of the configuration service
  (\<^verbatim>\<open>gcnf/plugin/configdatabase.h\<close>, interface \<^verbatim>\<open>param_db_if.h\<close>): an ordered map from
  hierarchical parameter names to entries. An entry is explicit when it points to a parameter
  object and implicit when it holds only an initial value.
\<close>

section \<open>State\<close>

record db_entry =
  init_value :: string
  init_value_locked :: bool
  had_initial_value :: bool
  is_used :: bool
  param :: "nat option"

text \<open>The two constructors of \<^verbatim>\<open>ConfigDatabase_T::parameter\<close>.\<close>

definition new_explicit :: "nat \<Rightarrow> db_entry" where
  "new_explicit par = \<lparr>init_value = [], init_value_locked = False, had_initial_value = False,
     is_used = True, param = Some par\<rparr>"

definition new_implicit :: "string \<Rightarrow> db_entry" where
  "new_implicit ivalue = \<lparr>init_value = ivalue, init_value_locked = False, had_initial_value = True,
     is_used = False, param = None\<rparr>"

text \<open>The parameter objects, by address, and the map.\<close>

record 'v cnf_state =
  heap :: "nat \<Rightarrow> 'v gs_param option"
  m_parameter_database :: "(string, db_entry) omap"

definition deref :: "nat \<Rightarrow> 'v cnf_state \<Rightarrow> 'v gs_param res" where
  "deref a s = (case heap s a of None \<Rightarrow> Inl (Undefined ''dangling parameter pointer'') | Some p \<Rightarrow> Inr p)"

definition write_param :: "nat \<Rightarrow> 'v gs_param \<Rightarrow> 'v cnf_state \<Rightarrow> 'v cnf_state" where
  "write_param a p s = s\<lparr>heap := (heap s)(a \<mapsto> p)\<rparr>"

definition update_entry :: "string \<Rightarrow> (db_entry \<Rightarrow> db_entry) \<Rightarrow> 'v cnf_state \<Rightarrow> 'v cnf_state" where
  "update_entry n f s = s\<lparr>m_parameter_database := map_adjust n f (m_parameter_database s)\<rparr>"

abbreviation db_find :: "'v cnf_state \<Rightarrow> string \<Rightarrow> db_entry option" where
  "db_find s n \<equiv> map_find (m_parameter_database s) n"

section \<open>Operations\<close>

text \<open>Writing the remembered initial value to a parameter object that is being added.\<close>

definition set_initial :: "'v penv \<Rightarrow> nat \<Rightarrow> string \<Rightarrow> 'v cnf_state \<Rightarrow> 'v cnf_state res" where
  "set_initial E par v s =
     bindr (deref par s) (\<lambda>p.
     bindr (setString E v (p\<lparr>m_setting_initial_value_now := True\<rparr>)) (\<lambda>(_, p').
       Inr (write_param par (p'\<lparr>m_is_initial_value := True\<rparr>) s)))"

definition addParam :: "'v penv \<Rightarrow> nat \<Rightarrow> 'v cnf_state \<Rightarrow> (bool \<times> 'v cnf_state) res" where
  "addParam E par s =
     bindr (deref par s) (\<lambda>p.
       let n = m_par_name p in
       case db_find s n of
         Some e \<Rightarrow>
           (case param e of
              Some q \<Rightarrow>
                bindr (deref q s) (\<lambda>old.
                  if p_type old \<noteq> p_type p \<or> p_type_string old \<noteq> p_type_string p
                  then Inl (ScError ''addParam: Existing explicit Parameter is of different type!'')
                  else bindr (if had_initial_value e then set_initial E par (init_value e) s else Inr s)
                         (\<lambda>s'. Inr (False, update_entry n (\<lambda>e. e\<lparr>is_used := True\<rparr>) s')))
            | None \<Rightarrow>
                (let s1 = update_entry n (\<lambda>e. e\<lparr>param := Some par\<rparr>) s in
                 bindr (if had_initial_value e then set_initial E par (init_value e) s1 else Inr s1)
                   (\<lambda>s2. Inr (True, update_entry n (\<lambda>e. e\<lparr>is_used := True\<rparr>) s2))))
       | None \<Rightarrow>
           Inr (True, s\<lparr>m_parameter_database :=
              fst (map_insert n (new_explicit par) (m_parameter_database s))\<rparr>))"

definition removeParam :: "nat \<Rightarrow> 'v cnf_state \<Rightarrow> (bool \<times> 'v cnf_state) res" where
  "removeParam par s =
     bindr (deref par s) (\<lambda>p.
       case db_find s (m_par_name p) of
         Some _ \<Rightarrow> Inr (True, update_entry (m_par_name p) (\<lambda>e. e\<lparr>param := None\<rparr>) s)
       | None \<Rightarrow> Inr (False, s))"

definition is_explicit :: "string \<Rightarrow> 'v cnf_state \<Rightarrow> bool res" where
  "is_explicit n s =
     (case db_find s n of
        None \<Rightarrow> Inl (ScError ''is_explicit: Tried to check a not existing parameter.'')
      | Some e \<Rightarrow> Inr (param e \<noteq> None))"

definition setInitValue :: "'v penv \<Rightarrow> string \<Rightarrow> string \<Rightarrow> 'v cnf_state \<Rightarrow> (bool \<times> 'v cnf_state) res" where
  "setInitValue E n ivalue s =
     (case db_find s n of
        None \<Rightarrow>
          Inr (True, s\<lparr>m_parameter_database :=
             fst (map_insert n (new_implicit ivalue) (m_parameter_database s))\<rparr>)
      | Some e \<Rightarrow>
          (case param e of
             None \<Rightarrow>
               if init_value_locked e then Inr (False, s)
               else Inr (False, update_entry n (\<lambda>e. e\<lparr>init_value := ivalue, had_initial_value := True\<rparr>) s)
           | Some q \<Rightarrow>
               bindr (deref q s) (\<lambda>p.
               bindr (setString E ivalue p) (\<lambda>(_, p'). Inr (False, write_param q p' s)))))"

definition lockInitValue :: "string \<Rightarrow> 'v cnf_state \<Rightarrow> bool \<times> 'v cnf_state" where
  "lockInitValue n s =
     (case db_find s n of
        None \<Rightarrow> (False, s)
      | Some e \<Rightarrow>
          if param e \<noteq> None then (False, s)
          else if init_value_locked e then (False, s)
          else (True, update_entry n (\<lambda>e. e\<lparr>init_value_locked := True\<rparr>) s))"

definition initValueLocked :: "string \<Rightarrow> 'v cnf_state \<Rightarrow> bool" where
  "initValueLocked n s = (case db_find s n of None \<Rightarrow> False | Some e \<Rightarrow> init_value_locked e)"

definition getParam :: "string \<Rightarrow> 'v cnf_state \<Rightarrow> nat option" where
  "getParam n s = (case db_find s n of None \<Rightarrow> None | Some e \<Rightarrow> param e)"

definition db_getValue :: "'v penv \<Rightarrow> string \<Rightarrow> bool \<Rightarrow> 'v cnf_state \<Rightarrow> (string \<times> 'v cnf_state) res" where
  "db_getValue E n not_impact_is_used s =
     (case getParam n s of
        Some q \<Rightarrow>
          bindr (deref q s) (\<lambda>p. bindr (getString E p) (\<lambda>(v, p'). Inr (v, write_param q p' s)))
      | None \<Rightarrow>
          (case db_find s n of
             Some e \<Rightarrow>
               Inr (init_value e,
                    if not_impact_is_used then s
                    else update_entry n (\<lambda>e. e\<lparr>is_used := True\<rparr>) s)
           | None \<Rightarrow> Inr ([], s)))"

definition existsParam :: "string \<Rightarrow> 'v cnf_state \<Rightarrow> bool" where
  "existsParam n s = (db_find s n \<noteq> None)"

definition db_is_used :: "string \<Rightarrow> 'v cnf_state \<Rightarrow> bool" where
  "db_is_used n s = (case db_find s n of None \<Rightarrow> False | Some e \<Rightarrow> is_used e)"

definition getParametersVector :: "'v cnf_state \<Rightarrow> string list" where
  "getParametersVector s = map fst (m_parameter_database s)"

fun comma_join :: "string list \<Rightarrow> string" where
  "comma_join [] = []"
| "comma_join [x] = x"
| "comma_join (x # y # xs) = x @ '','' @ comma_join (y # xs)"

definition getParameters :: "'v cnf_state \<Rightarrow> string" where
  "getParameters s = comma_join (getParametersVector s)"

section \<open>Sequences of database calls\<close>

datatype db_op =
    AddParam nat
  | RemoveParam nat
  | SetInit string string
  | LockInit string
  | GetVal string bool

fun db_step :: "'v penv \<Rightarrow> db_op \<Rightarrow> 'v cnf_state \<Rightarrow> 'v cnf_state res" where
  "db_step E (AddParam a) s = bindr (addParam E a s) (\<lambda>(_, s'). Inr s')"
| "db_step E (RemoveParam a) s = bindr (removeParam a s) (\<lambda>(_, s'). Inr s')"
| "db_step E (SetInit n v) s = bindr (setInitValue E n v s) (\<lambda>(_, s'). Inr s')"
| "db_step E (LockInit n) s = Inr (snd (lockInitValue n s))"
| "db_step E (GetVal n b) s = bindr (db_getValue E n b s) (\<lambda>(_, s'). Inr s')"

fun db_run :: "'v penv \<Rightarrow> db_op list \<Rightarrow> 'v cnf_state \<Rightarrow> 'v cnf_state res" where
  "db_run E [] s = Inr s"
| "db_run E (c # cs) s = bindr (db_step E c s) (db_run E cs)"


section \<open>What parameter operations keep\<close>

definition name_keeping :: "'v penv \<Rightarrow> bool" where
  "name_keeping E \<longleftrightarrow> (\<forall>a r p. m_par_name (snd (call_fn E a r p)) = m_par_name p)"

lemma observing_name_keeping: "observing E \<Longrightarrow> name_keeping E"
  by (simp add: observing_def name_keeping_def)

lemma run_callbacks_name:
  assumes "name_keeping E"
  shows "run_callbacks E r n i acc p = Inr (ret, p') \<Longrightarrow> m_par_name p' = m_par_name p"
proof (induction n arbitrary: i acc p)
  case (Suc n)
  show ?case
  proof (cases "i < length (m_lists p r)")
    case True
    let ?c = "call_fn E (a_id (snd (m_lists p r ! i))) r p"
    have "m_par_name (snd ?c) = m_par_name p" using assms by (simp add: name_keeping_def)
    with Suc.prems True show ?thesis
      by (auto simp: Let_def case_prod_unfold split: if_splits dest!: Suc.IH)
  qed (use Suc.prems in auto)
qed (auto split: if_splits)

lemma cleanup_lists_name: "cleanup_lists rs p = Inr p' \<Longrightarrow> m_par_name p' = m_par_name p"
  by (induction rs arbitrary: p) (fastforce simp: bindr_eq_Inr set_list_def)+

lemma helper_name:
  assumes "name_keeping E" and "make_enabled_callbacks_helper E r p = Inr (ret, p')"
  shows "m_par_name p' = m_par_name p"
  using assms(2) run_callbacks_name [OF assms(1)]
  by (fastforce simp: make_enabled_callbacks_helper_def cleanup_callback_list_def bindr_eq_Inr
      split: if_splits dest!: cleanup_lists_name)

lemma setString_name:
  assumes "name_keeping E" and "setString E str p = Inr (b, p')"
  shows "m_par_name p' = m_par_name p"
  using assms(2)
  by (fastforce simp: setString_def make_callbacks_defs deserialize_def bindr_eq_Inr
      split: if_splits prod.splits dest!: helper_name [OF assms(1)])

lemma getString_name:
  assumes "name_keeping E" and "getString E p = Inr (v, p')"
  shows "m_par_name p' = m_par_name p"
  using assms(2)
  by (fastforce simp: getString_def make_callbacks_defs bindr_eq_Inr Let_def
      dest!: helper_name [OF assms(1)])

section \<open>The database invariant\<close>

text \<open>
  Names are in strict order; an explicit entry points to a live parameter object of that name and
  counts as used; an entry without a remembered initial value has the empty string.
\<close>

definition entry_ok :: "'v cnf_state \<Rightarrow> string \<Rightarrow> db_entry \<Rightarrow> bool" where
  "entry_ok s n e \<longleftrightarrow>
     (\<forall>q. param e = Some q \<longrightarrow> (\<exists>p. heap s q = Some p \<and> m_par_name p = n) \<and> is_used e)
     \<and> (had_initial_value e \<or> init_value e = [])
     \<and> (had_initial_value e \<or> is_used e)"

definition db_ok :: "'v cnf_state \<Rightarrow> bool" where
  "db_ok s \<longleftrightarrow> omap_ok (m_parameter_database s) \<and> (\<forall>n e. db_find s n = Some e \<longrightarrow> entry_ok s n e)"

lemma update_entry_simps [simp]:
  "heap (update_entry n f s) = heap s"
  "db_find (update_entry n f s) m = (if m = n then map_option f (db_find s n) else db_find s m)"
  "omap_ok (m_parameter_database (update_entry n f s)) = omap_ok (m_parameter_database s)"
  by (simp_all add: update_entry_def map_simps)

lemma write_param_simps [simp]:
  "heap (write_param a p s) = (heap s)(a \<mapsto> p)"
  "m_parameter_database (write_param a p s) = m_parameter_database s"
  by (simp_all add: write_param_def)

lemma update_entry_twice: "update_entry n g (update_entry n f s) = update_entry n (\<lambda>e. g (f e)) s"
  by (simp add: update_entry_def map_adjust_twice)

lemma update_entry_write: "update_entry n f (write_param a p s) = write_param a p (update_entry n f s)"
  by (simp add: update_entry_def write_param_def)

lemma deref_Inr [simp]: "deref a s = Inr p \<longleftrightarrow> heap s a = Some p"
  by (simp add: deref_def split: option.splits)

lemma db_ok_write:
  assumes "db_ok s" and "heap s a = Some p" and "m_par_name p' = m_par_name p"
  shows "db_ok (write_param a p' s)"
  using assms by (fastforce simp: db_ok_def entry_ok_def)

lemma db_okD: "db_ok s \<Longrightarrow> db_find s n = Some e \<Longrightarrow> entry_ok s n e"
  by (simp add: db_ok_def)

lemma db_ok_update:
  assumes "db_ok s" and "\<And>e. db_find s n = Some e \<Longrightarrow> entry_ok s n (f e)"
  shows "db_ok (update_entry n f s)"
  using assms by (auto simp: db_ok_def entry_ok_def)

lemma db_ok_insert:
  assumes "db_ok s" and "entry_ok s n e"
  shows "db_ok (s\<lparr>m_parameter_database := fst (map_insert n e (m_parameter_database s))\<rparr>)"
  using assms by (auto simp: db_ok_def entry_ok_def map_simps omap_ok_insert split: option.splits if_splits)

lemma set_initial_keeps:
  assumes "name_keeping E" and "set_initial E par v s = Inr s'"
  shows "\<exists>p p'. heap s par = Some p \<and> m_par_name p' = m_par_name p \<and> s' = write_param par p' s"
proof -
  from assms(2) obtain p b p' where p: "heap s par = Some p"
    and set: "setString E v (p\<lparr>m_setting_initial_value_now := True\<rparr>) = Inr (b, p')"
    and s': "s' = write_param par (p'\<lparr>m_is_initial_value := True\<rparr>) s"
    by (auto simp: set_initial_def bindr_eq_Inr)
  have "m_par_name (p'\<lparr>m_is_initial_value := True\<rparr>) = m_par_name p"
    using setString_name [OF assms(1) set] by simp
  with p s' show ?thesis by blast
qed

text \<open>Entries never disappear; a locked initial value and the flags set stay as they are.\<close>

definition entry_le :: "db_entry \<Rightarrow> db_entry \<Rightarrow> bool" where
  "entry_le e e' \<longleftrightarrow>
     (init_value_locked e \<longrightarrow> init_value_locked e' \<and> init_value e' = init_value e)
     \<and> (is_used e \<longrightarrow> is_used e') \<and> (had_initial_value e \<longrightarrow> had_initial_value e')"

definition db_le :: "'v cnf_state \<Rightarrow> 'v cnf_state \<Rightarrow> bool" where
  "db_le s s' \<longleftrightarrow> (\<forall>n e. db_find s n = Some e \<longrightarrow> (\<exists>e'. db_find s' n = Some e' \<and> entry_le e e'))"

lemma entry_le_refl [simp]: "entry_le e e"
  by (simp add: entry_le_def)

lemma db_le_refl [simp]: "db_le s s"
  by (simp add: db_le_def)

lemma db_le_trans: "db_le s t \<Longrightarrow> db_le t u \<Longrightarrow> db_le s u"
  unfolding db_le_def entry_le_def by (metis (no_types, lifting))

lemma db_le_write [simp]: "db_le s (write_param a p s)"
  by (simp add: db_le_def)

lemma db_le_update: "(\<And>e. db_find s n = Some e \<Longrightarrow> entry_le e (f e)) \<Longrightarrow> db_le s (update_entry n f s)"
  by (auto simp: db_le_def)

lemma db_le_insert: "db_le s (s\<lparr>m_parameter_database := fst (map_insert n e (m_parameter_database s))\<rparr>)"
  by (auto simp: db_le_def map_simps)

lemma set_initial_step:
  assumes "name_keeping E" and "db_ok s" and "set_initial E par v s = Inr s'"
  shows "db_ok s' \<and> db_le s s' \<and> m_parameter_database s' = m_parameter_database s
    \<and> (\<forall>n. (\<exists>p. heap s par = Some p \<and> m_par_name p = n) \<longrightarrow> (\<exists>p. heap s' par = Some p \<and> m_par_name p = n))"
  using set_initial_keeps [OF assms(1,3)] db_ok_write [OF assms(2)] by fastforce

lemma addParam_step:
  assumes E: "name_keeping E" and ok: "db_ok s" and r: "addParam E par s = Inr (b, s')"
  shows "db_ok s' \<and> db_le s s'"
proof -
  from r obtain p where p: "heap s par = Some p" by (auto simp: addParam_def bindr_eq_Inr)
  let ?n = "m_par_name p"
  let ?use = "update_entry ?n (\<lambda>e. e\<lparr>is_used := True\<rparr>)"
  have use: "db_ok (?use t) \<and> db_le t (?use t)" if "db_ok t" for t :: "'a cnf_state"
    using db_okD [OF that, of ?n] that
    by (auto intro!: db_ok_update db_le_update simp: entry_ok_def entry_le_def)
  show ?thesis
  proof (cases "db_find s ?n")
    case None
    have "entry_ok s ?n (new_explicit par)"
      using p by (simp add: entry_ok_def new_explicit_def)
    then show ?thesis using r p None db_ok_insert [OF ok] db_le_insert
      by (auto simp: addParam_def bindr_eq_Inr Let_def)
  next
    case (Some e)
    note ok_e = ok [unfolded db_ok_def, THEN conjunct2, rule_format, OF Some]
    have step: "db_ok (?use t') \<and> db_le t (?use t')"
      if "db_ok t" "bindr (if c then set_initial E par (init_value e) t else Inr t)
            (\<lambda>s'. Inr (d, ?use s')) = Inr (d', u)" "u = ?use t'" "(if c then set_initial E par (init_value e) t else Inr t) = Inr t'"
      for c d d' t t' u
      using that use set_initial_step [OF E that(1)] db_le_trans
      by (metis Inr_inject)
    show ?thesis
    proof (cases "param e")
      case None
      let ?s1 = "update_entry ?n (\<lambda>e. e\<lparr>param := Some par\<rparr>) s"
      let ?s1' = "update_entry ?n (\<lambda>e. e\<lparr>param := Some par, is_used := True\<rparr>) s"
      have ok1: "db_ok ?s1'" "db_le s ?s1'"
        using ok ok_e p Some by (auto intro!: db_ok_update db_le_update simp: entry_ok_def entry_le_def)
      obtain s2 where s2: "(if had_initial_value e then set_initial E par (init_value e) ?s1 else Inr ?s1) = Inr s2"
        and s': "s' = ?use s2"
        using r p Some None by (auto simp: addParam_def bindr_eq_Inr Let_def split: if_splits)
      have "s' = ?s1' \<or> (\<exists>p'. m_par_name p' = ?n \<and> s' = write_param par p' ?s1')"
      proof (cases "had_initial_value e")
        case True
        then obtain p' where p': "m_par_name p' = ?n" "s2 = write_param par p' ?s1"
          using s2 set_initial_keeps [OF E] p by fastforce
        have "?use s2 = write_param par p' ?s1'"
          unfolding p'(2) by (simp add: update_entry_twice update_entry_write)
        then show ?thesis using p'(1) s' by auto
      next
        case False
        have "?use ?s1 = ?s1'"
          by (simp add: update_entry_twice)
        then show ?thesis using False s2 s' by simp
      qed
      then show ?thesis using ok1 p db_ok_write [OF ok1(1), of par p] db_le_trans [OF ok1(2) db_le_write]
        by auto
    next
      case (Some q)
      then obtain t where t: "(if had_initial_value e then set_initial E par (init_value e) s else Inr s) = Inr t"
        and s': "s' = ?use t"
        using r p \<open>db_find s ?n = Some e\<close>
        by (auto simp: addParam_def bindr_eq_Inr Let_def split: if_splits)
      have "db_ok t \<and> db_le s t" using t ok set_initial_step [OF E ok] by (auto split: if_splits)
      then show ?thesis using use [of t] s' db_le_trans by blast
    qed
  qed
qed

lemma removeParam_step:
  assumes ok: "db_ok s" and r: "removeParam par s = Inr (b, s')"
  shows "db_ok s' \<and> db_le s s'"
  using r ok db_okD [OF ok]
  by (fastforce simp: removeParam_def bindr_eq_Inr entry_ok_def entry_le_def
      intro!: db_ok_update db_le_update split: option.splits)

lemma setInitValue_step:
  assumes E: "name_keeping E" and ok: "db_ok s" and r: "setInitValue E n v s = Inr (b, s')"
  shows "db_ok s' \<and> db_le s s'"
proof (cases "db_find s n")
  case None
  have "entry_ok s n (new_implicit v)" by (simp add: entry_ok_def new_implicit_def)
  then show ?thesis using r None db_ok_insert [OF ok] db_le_insert
    by (auto simp: setInitValue_def)
next
  case (Some e)
  note ok_e = ok [unfolded db_ok_def, THEN conjunct2, rule_format, OF Some]
  show ?thesis
  proof (cases "param e")
    case None
    then show ?thesis using r Some ok ok_e
      by (auto simp: setInitValue_def entry_ok_def entry_le_def intro!: db_ok_update db_le_update
          split: if_splits)
  next
    case (Some q)
    then show ?thesis using r \<open>db_find s n = Some e\<close> db_ok_write [OF ok]
      by (auto simp: setInitValue_def bindr_eq_Inr dest!: setString_name [OF E])
  qed
qed

lemma lockInitValue_step:
  assumes ok: "db_ok s"
  shows "db_ok (snd (lockInitValue n s)) \<and> db_le s (snd (lockInitValue n s))"
  using ok db_okD [OF ok]
  by (fastforce simp: lockInitValue_def entry_ok_def entry_le_def
      intro!: db_ok_update db_le_update split: option.splits)

lemma db_getValue_step:
  assumes E: "name_keeping E" and ok: "db_ok s" and r: "db_getValue E n f s = Inr (v, s')"
  shows "db_ok s' \<and> db_le s s'"
proof (cases "getParam n s")
  case (Some q)
  then show ?thesis using r db_ok_write [OF ok]
    by (auto simp: db_getValue_def bindr_eq_Inr dest!: getString_name [OF E])
next
  case None
  then show ?thesis using r ok db_okD [OF ok]
    by (fastforce simp: db_getValue_def entry_ok_def entry_le_def
        intro!: db_ok_update db_le_update split: option.splits if_splits)
qed


lemma db_step_keeps:
  assumes "name_keeping E" and "db_ok s" and "db_step E c s = Inr s'"
  shows "db_ok s' \<and> db_le s s'"
  using assms(3) addParam_step [OF assms(1,2)] removeParam_step [OF assms(2)]
    setInitValue_step [OF assms(1,2)] lockInitValue_step [OF assms(2)] db_getValue_step [OF assms(1,2)]
  by (cases c) (fastforce simp: bindr_eq_Inr)+

lemma db_run_keeps:
  assumes "name_keeping E" and "db_ok s" and "db_run E cs s = Inr s'"
  shows "db_ok s' \<and> db_le s s'"
  using assms(2,3)
proof (induction cs arbitrary: s)
  case (Cons c cs)
  from Cons.prems(2) obtain t where t: "db_step E c s = Inr t" "db_run E cs t = Inr s'"
    by (auto simp: bindr_eq_Inr)
  with db_step_keeps [OF assms(1) Cons.prems(1)] have "db_ok t" "db_le s t" by auto
  with Cons.IH [OF \<open>db_ok t\<close> t(2)] show ?case using db_le_trans by blast
qed simp

text \<open>
  C6. Every sequence of database calls keeps the invariant of the database, and its progress order:
  no entry disappears, what has been used stays used, and a locked initial value keeps its value
  and its lock (user callbacks may do anything to the parameter but rename it).
\<close>

theorem db_run_invariant:
  assumes "name_keeping E" and "db_ok s" and "db_run E cs s = Inr s'"
  shows "db_ok s' \<and> db_le s s'"
  using assms by (rule db_run_keeps)

definition sample_cnf :: "nat cnf_state" where
  "sample_cnf = \<lparr>heap = [1 \<mapsto> sample_param, 2 \<mapsto> sample_param], m_parameter_database = []\<rparr>"

theorem db_run_invariant_witness:
  "\<exists>s'. db_run sample_env [SetInit ''m.p'' ''abc'', LockInit ''m.p'', SetInit ''m.p'' ''z'', AddParam 1,
       RemoveParam 1] sample_cnf = Inr s' \<and> db_ok s' \<and> db_le sample_cnf s'"
proof -
  have ok: "db_ok sample_cnf" by (simp add: db_ok_def sample_cnf_def)
  have "\<not> isl (db_run sample_env [SetInit ''m.p'' ''abc'', LockInit ''m.p'', SetInit ''m.p'' ''z'', AddParam 1,
       RemoveParam 1] sample_cnf)" by code_simp
  then obtain s' where "db_run sample_env [SetInit ''m.p'' ''abc'', LockInit ''m.p'', SetInit ''m.p'' ''z'',
       AddParam 1, RemoveParam 1] sample_cnf = Inr s'" using not_isl_Inr by blast
  then show ?thesis
    using db_run_invariant [OF observing_name_keeping [OF sample_observing] ok] by blast
qed


section \<open>Functional behaviour\<close>

lemma setString_free:
  assumes "observing E" and "settled E p" and "\<not> m_locked p"
    and "m_lists p reject_write = []" and "m_lists p pre_write = []"
    and "static_deserialize E (p_type p) (subst_env E str (m_par_name p)) (my_value p) = (v, ok)"
  shows "setString E str p = Inr (ok, p\<lparr>my_value := v\<rparr>)"
  using assms setString_observing [OF assms(1,2), of str] by (simp add: combined_def)

lemma settled_setting [simp]: "settled E (p\<lparr>m_setting_initial_value_now := b\<rparr>) = settled E p"
  by (simp add: settled_def)

text \<open>
  The initial value set while a parameter is still implicit has priority over the default of
  the parameter object that is added later: adding the object makes the entry explicit and used,
  keeps the remembered value, and the object holds the conversion of that value, marked as
  initial.
\<close>

theorem addParam_takes_init_value:
  assumes "observing E" and "settled E p" and "\<not> m_locked p"
    and "m_lists p reject_write = []" and "m_lists p pre_write = []"
    and "heap s a = Some p"
    and "db_find s (m_par_name p) = Some e" and "param e = None" and "had_initial_value e"
    and "static_deserialize E (p_type p) (subst_env E (init_value e) (m_par_name p)) (my_value p)
           = (v, ok)"
  shows "\<exists>s'. addParam E a s = Inr (True, s')
    \<and> heap s' a = Some (p\<lparr>m_setting_initial_value_now := True, my_value := v, m_is_initial_value := True\<rparr>)
    \<and> db_find s' (m_par_name p) = Some (e\<lparr>param := Some a, is_used := True\<rparr>)"
proof -
  have "setString E (init_value e) (p\<lparr>m_setting_initial_value_now := True\<rparr>)
      = Inr (ok, p\<lparr>m_setting_initial_value_now := True, my_value := v\<rparr>)"
    using setString_free [of E "p\<lparr>m_setting_initial_value_now := True\<rparr>" "init_value e" v ok] assms
    by simp
  then show ?thesis using assms(6-9)
    by (simp add: addParam_def set_initial_def deref_def Let_def)
qed

theorem addParam_takes_init_value_witness:
  "\<exists>s'. addParam sample_env 1 (snd (the (case setInitValue sample_env ''m.p'' ''abc'' sample_cnf of
            Inl _ \<Rightarrow> None | Inr r \<Rightarrow> Some r))) = Inr (True, s')
     \<and> map_option my_value (heap s' 1) = Some 3"
proof -
  let ?s = "snd (the (case setInitValue sample_env ''m.p'' ''abc'' sample_cnf of
            Inl _ \<Rightarrow> None | Inr r \<Rightarrow> Some r))"
  have h: "heap ?s 1 = Some sample_param" "m_par_name sample_param = ''m.p''"
    "db_find ?s (m_par_name sample_param) = Some (new_implicit ''abc'')"
    by (simp_all add: sample_cnf_def setInitValue_def map_insert_def sample_param_def)
  from addParam_takes_init_value [OF sample_observing sample_settled _ _ _ h(1,3), of 3 True]
  show ?thesis
    by (auto simp: sample_param_def new_implicit_def sample_env_def)
qed

text \<open>
  A second object of a name that is already explicit is refused, but deleting that second
  object removes the first one from the database: \<^verbatim>\<open>removeParam\<close> looks the entry up by name and
  does not compare the pointers, so afterwards the name counts as implicit although the first
  object lives on.
\<close>

theorem duplicate_removal_detaches_original:
  assumes "heap s a = Some p" and "heap s b = Some q" and "a \<noteq> b"
    and "m_par_name q = m_par_name p" and "p_type q = p_type p" and "p_type_string q = p_type_string p"
    and "db_find s (m_par_name p) = Some e" and "param e = Some a" and "\<not> had_initial_value e"
  shows "\<exists>s1 s2. addParam E b s = Inr (False, s1) \<and> removeParam b s1 = Inr (True, s2)
    \<and> getParam (m_par_name p) s2 = None \<and> is_explicit (m_par_name p) s2 = Inr False
    \<and> heap s2 a = Some p"
  using assms
  by (simp add: addParam_def removeParam_def deref_def getParam_def is_explicit_def Let_def)

theorem duplicate_removal_detaches_original_witness:
  "\<exists>s0 s1 s2. addParam sample_env 1 sample_cnf = Inr (True, s0) \<and> addParam sample_env 2 s0 = Inr (False, s1)
     \<and> removeParam 2 s1 = Inr (True, s2) \<and> getParam ''m.p'' s2 = None"
proof -
  let ?s = "sample_cnf\<lparr>m_parameter_database := [(''m.p'', new_explicit 1)]\<rparr>"
  have a: "addParam sample_env 1 sample_cnf = Inr (True, ?s)"
    by (simp add: addParam_def deref_def sample_cnf_def sample_param_def map_insert_def Let_def)
  have "\<exists>s1 s2. addParam sample_env 2 ?s = Inr (False, s1) \<and> removeParam 2 s1 = Inr (True, s2)
      \<and> getParam (m_par_name sample_param) s2 = None \<and> is_explicit (m_par_name sample_param) s2 = Inr False
      \<and> heap s2 1 = Some sample_param"
    by (rule duplicate_removal_detaches_original [where q = sample_param and e = "new_explicit 1"])
      (simp_all add: sample_cnf_def sample_param_def new_explicit_def)
  then show ?thesis using a by (auto simp: sample_param_def)
qed

text \<open>
  The parameter list is the sorted list, without repetition, of the names that exist.
\<close>

theorem getParametersVector_sorted:
  assumes "db_ok s"
  shows "getParametersVector s = sorted_list_of_set {n. existsParam n s}"
proof -
  have ok: "omap_ok (m_parameter_database s)" using assms by (simp add: db_ok_def)
  have "set (getParametersVector s) = {n. existsParam n s}"
    unfolding getParametersVector_def existsParam_def using om.keys_find [OF ok] by auto
  then show ?thesis
    using om.keys_sorted [OF ok] sorted_list_of_set.idem_if_sorted_distinct
    unfolding getParametersVector_def by metis
qed

theorem getParametersVector_sorted_witness:
  "getParametersVector (sample_cnf\<lparr>m_parameter_database := [(''a'', new_implicit []), (''m.p'', new_explicit 1)]\<rparr>)
     = [''a'', ''m.p'']
   \<and> sorted_list_of_set {n. existsParam n
        (sample_cnf\<lparr>m_parameter_database := [(''a'', new_implicit []), (''m.p'', new_explicit 1)]\<rparr>)}
     = [''a'', ''m.p'']"
proof -
  let ?s = "sample_cnf\<lparr>m_parameter_database := [(''a'', new_implicit []), (''m.p'', new_explicit 1)]\<rparr>"
  have "db_ok ?s"
    by (auto simp: db_ok_def entry_ok_def omap_ok_def new_implicit_def new_explicit_def sample_cnf_def
        sample_param_def less_char_def split: if_splits)
  from getParametersVector_sorted [OF this] show ?thesis by (simp add: getParametersVector_def)
qed

section \<open>The interface to the plugin\<close>

text \<open>
  What the plugin relies on for initial values (\<^verbatim>\<open>param_db_if\<close>): a locked initial value cannot
  be set again and the lock cannot be taken twice.
\<close>

locale param_db =
  fixes exists :: "'s \<Rightarrow> string \<Rightarrow> bool"
    and explicit :: "'s \<Rightarrow> string \<Rightarrow> bool"
    and locked :: "'s \<Rightarrow> string \<Rightarrow> bool"
    and init :: "'s \<Rightarrow> string \<Rightarrow> string"
    and set_init :: "string \<Rightarrow> string \<Rightarrow> 's \<Rightarrow> 's"
    and lock :: "string \<Rightarrow> 's \<Rightarrow> bool \<times> 's"
  assumes set_exists: "exists (set_init n v s) m \<longleftrightarrow> m = n \<or> exists s m"
    and set_explicit: "explicit (set_init n v s) m = explicit s m"
    and set_locked: "locked (set_init n v s) m = locked s m"
    and set_init_value: "init (set_init n v s) m =
          (if m = n \<and> \<not> explicit s n \<and> \<not> locked s n then v else init s m)"
    and lock_result: "fst (lock n s) \<longleftrightarrow> exists s n \<and> \<not> explicit s n \<and> \<not> locked s n"
    and lock_locked: "locked (snd (lock n s)) m \<longleftrightarrow> locked s m \<or> (m = n \<and> fst (lock n s))"
    and lock_init: "init (snd (lock n s)) m = init s m"
    and lock_explicit: "explicit (snd (lock n s)) m = explicit s m"
begin

definition set_all :: "(string \<times> string) list \<Rightarrow> 's \<Rightarrow> 's" where
  "set_all = fold (\<lambda>(n, v). set_init n v)"

lemma set_all_Nil [simp]: "set_all [] s = s"
  by (simp add: set_all_def)

lemma set_all_Cons [simp]: "set_all ((n, v) # ws) s = set_all ws (set_init n v s)"
  by (simp add: set_all_def)

lemma set_all_locked: "locked (set_all ws s) m = locked s m"
proof (induction ws arbitrary: s)
  case (Cons w ws)
  obtain n v where "w = (n, v)" by (cases w)
  then show ?case using Cons.IH [of "set_init n v s"] by (simp add: set_locked)
qed simp

lemma set_all_explicit: "explicit (set_all ws s) m = explicit s m"
proof (induction ws arbitrary: s)
  case (Cons w ws)
  obtain n v where "w = (n, v)" by (cases w)
  then show ?case using Cons.IH [of "set_init n v s"] by (simp add: set_explicit)
qed simp

lemma locked_value_stays: "locked s n \<Longrightarrow> init (set_all ws s) n = init s n"
proof (induction ws arbitrary: s)
  case (Cons w ws)
  obtain m v where w: "w = (m, v)" by (cases w)
  have "init (set_init m v s) n = init s n" using Cons.prems by (auto simp: set_init_value)
  then show ?case using Cons.IH [of "set_init m v s"] Cons.prems w by (simp add: set_locked)
qed simp

lemma lock_keeps_value:
  "fst (lock n s) \<Longrightarrow> init (set_all ws (snd (lock n s))) n = init s n
     \<and> \<not> fst (lock n (set_all ws (snd (lock n s))))"
  using locked_value_stays [of "snd (lock n s)" n ws] by (simp add: lock_locked lock_init lock_result set_all_locked)

lemma last_set_wins:
  "\<not> explicit s n \<Longrightarrow> \<not> locked s n \<Longrightarrow> init (set_init n v (set_all ws s)) n = v"
  by (simp add: set_init_value set_all_locked set_all_explicit)

end

definition explicit_param :: "'v cnf_state \<Rightarrow> string \<Rightarrow> bool" where
  "explicit_param s n = (getParam n s \<noteq> None)"

definition init_value_of :: "'v cnf_state \<Rightarrow> string \<Rightarrow> string" where
  "init_value_of s n = (case db_find s n of None \<Rightarrow> [] | Some e \<Rightarrow> init_value e)"

text \<open>The state after \<^verbatim>\<open>setInitValue\<close>; a call that fails leaves the state it was called in.\<close>

definition after_setInit :: "'v penv \<Rightarrow> string \<Rightarrow> string \<Rightarrow> 'v cnf_state \<Rightarrow> 'v cnf_state" where
  "after_setInit E n v s = (case setInitValue E n v s of Inl _ \<Rightarrow> s | Inr (_, s') \<Rightarrow> s')"

lemmas db_view_defs = existsParam_def explicit_param_def getParam_def initValueLocked_def init_value_of_def

lemma after_setInit_explicit:
  "db_find s n = Some e \<Longrightarrow> param e \<noteq> None \<Longrightarrow>
     m_parameter_database (after_setInit E n v s) = m_parameter_database s"
  by (auto simp: after_setInit_def setInitValue_def bindr_def split: option.splits sum.splits)

interpretation cdb: param_db "\<lambda>s n. existsParam n s" explicit_param "\<lambda>s n. initValueLocked n s"
    init_value_of "after_setInit E" lockInitValue for E :: "'v penv"
proof unfold_locales
  fix n v m and s :: "'v cnf_state"
  have db: "db_find (after_setInit E n v s) m =
      (if m = n then (case db_find s n of
           None \<Rightarrow> Some (new_implicit v)
         | Some e \<Rightarrow> if param e = None \<and> \<not> init_value_locked e
                     then Some (e\<lparr>init_value := v, had_initial_value := True\<rparr>) else Some e)
       else db_find s m)"
  proof (cases "db_find s n")
    case None
    then show ?thesis by (simp add: after_setInit_def setInitValue_def map_simps)
  next
    case (Some e)
    then show ?thesis using after_setInit_explicit [OF Some, of E v]
      by (cases "param e") (auto simp: after_setInit_def setInitValue_def)
  qed
  show "existsParam m (after_setInit E n v s) \<longleftrightarrow> m = n \<or> existsParam m s"
    by (simp add: existsParam_def db split: option.splits)
  show "explicit_param (after_setInit E n v s) m = explicit_param s m"
    by (simp add: explicit_param_def getParam_def db new_implicit_def split: option.splits)
  show "initValueLocked m (after_setInit E n v s) = initValueLocked m s"
    by (simp add: initValueLocked_def db new_implicit_def split: option.splits)
  show "init_value_of (after_setInit E n v s) m =
      (if m = n \<and> \<not> explicit_param s n \<and> \<not> initValueLocked n s then v else init_value_of s m)"
    by (simp add: db_view_defs db new_implicit_def split: option.splits)
  show "fst (lockInitValue n s) \<longleftrightarrow> existsParam n s \<and> \<not> explicit_param s n \<and> \<not> initValueLocked n s"
    by (simp add: lockInitValue_def db_view_defs split: option.splits)
  show "initValueLocked m (snd (lockInitValue n s)) \<longleftrightarrow>
      initValueLocked m s \<or> (m = n \<and> fst (lockInitValue n s))"
    by (simp add: lockInitValue_def db_view_defs split: option.splits)
  show "init_value_of (snd (lockInitValue n s)) m = init_value_of s m"
    by (simp add: lockInitValue_def db_view_defs split: option.splits)
  show "explicit_param (snd (lockInitValue n s)) m = explicit_param s m"
    by (simp add: lockInitValue_def db_view_defs split: option.splits)
qed

text \<open>
  Precedence by locking: once \<^verbatim>\<open>lockInitValue\<close> has succeeded for a name, no sequence of
  \<^verbatim>\<open>setInitValue\<close> calls (on whatever names) changes that initial value, and the lock cannot be
  taken a second time.
\<close>

theorem locked_init_value_wins:
  assumes "fst (lockInitValue n s)"
  shows "init_value_of (fold (\<lambda>(m, v). after_setInit E m v) ws (snd (lockInitValue n s))) n = init_value_of s n
    \<and> \<not> fst (lockInitValue n (fold (\<lambda>(m, v). after_setInit E m v) ws (snd (lockInitValue n s))))"
  using cdb.lock_keeps_value [OF assms, of E ws] by (simp add: cdb.set_all_def)

theorem locked_init_value_wins_witness:
  "init_value_of (fold (\<lambda>(m, v). after_setInit sample_env m v) [(''m.p'', ''z''), (''q'', ''y'')]
      (snd (lockInitValue ''m.p'' (after_setInit sample_env ''m.p'' ''abc'' sample_cnf)))) ''m.p'' = ''abc''"
proof -
  have "fst (lockInitValue ''m.p'' (after_setInit sample_env ''m.p'' ''abc'' sample_cnf))"
    "init_value_of (after_setInit sample_env ''m.p'' ''abc'' sample_cnf) ''m.p'' = ''abc''"
    by code_simp+
  then show ?thesis using locked_init_value_wins by metis
qed

end
