(* ===== verification/Control_Core.thy ===== *)
theory Control_Core
  imports GL_Prelude
begin

text \<open>
  The routing core of GreenControl (\<^verbatim>\<open>greencontrol/core\<close>): the service identifiers of
  \<^verbatim>\<open>gc_service.h\<close>, the fields of a transaction (\<^verbatim>\<open>gc_transaction.h\<close>), the ports
  (\<^verbatim>\<open>gc_port.h\<close>), the address maps (\<^verbatim>\<open>controladdressmap.h\<close>), the core that binds
  ports and routes transactions (\<^verbatim>\<open>gc_core.h\<close>) and the dispatcher of the simulation-kernel
  callbacks (\<^verbatim>\<open>callbackdispatcher.h\<close>). Pointers are numbers with NULL = 0. What an API or
  plugin does with a delivered transaction is the field \<open>deliver\<close> of the environment.
  Reports of severity info and warning only print and have no counterpart here; a report of
  severity error throws and is the result \<open>ScError\<close>.
\<close>

section \<open>Service identifiers\<close>

type_synonym ControlService = u32

abbreviation NO_SERVICE :: ControlService where "NO_SERVICE \<equiv> 0"
abbreviation CONFIG_SERVICE :: ControlService where "CONFIG_SERVICE \<equiv> 1"
abbreviation AV_SERVICE :: ControlService where "AV_SERVICE \<equiv> 2"
abbreviation LOG_SERVICE :: ControlService where "LOG_SERVICE \<equiv> 3"
abbreviation EXTENDED_SERVICE :: ControlService where "EXTENDED_SERVICE \<equiv> 4"

text \<open>The static state: the next free identifier and the strings of the extended services.\<close>

record service_ids =
  max_num :: u32
  ext_strings :: "(u32, string) omap"

definition initial_service_ids :: service_ids where
  "initial_service_ids = \<lparr>max_num = EXTENDED_SERVICE + 1, ext_strings = []\<rparr>"

definition getExtendedControlServiceString ::
  "ControlService \<Rightarrow> string option \<Rightarrow> service_ids \<Rightarrow> (string \<times> service_ids) res" where
  "getExtendedControlServiceString cs id_string g =
     bindr (case id_string of
              None \<Rightarrow> Inr g
            | Some v \<Rightarrow>
                (case map_find (ext_strings g) cs of
                   Some w \<Rightarrow>
                     if w = v then Inr g
                     else Inl (AssertFail ''A same Service Extension must not add different ID strings!'')
                 | None \<Rightarrow> Inr (g\<lparr>ext_strings := fst (map_insert cs v (ext_strings g))\<rparr>)))
       (\<lambda>g'. case map_find (ext_strings g') cs of
               Some w \<Rightarrow> Inr (w, g')
             | None \<Rightarrow> Inl (AssertFail ''ID string not available.''))"

definition getControlServiceString :: "ControlService \<Rightarrow> service_ids \<Rightarrow> string res" where
  "getControlServiceString cs g =
     (if cs = NO_SERVICE then Inr ''NO_SERVICE''
      else if cs = CONFIG_SERVICE then Inr ''CONFIG_SERVICE''
      else if cs = AV_SERVICE then Inr ''AV_SERVICE''
      else if cs = LOG_SERVICE then Inr ''LOG_SERVICE''
      else if cs = EXTENDED_SERVICE
      then Inr ''EXTENDED_SERVICE (this is an error, this must not be used for any service!)''
      else bindr (getExtendedControlServiceString cs None g) (\<lambda>(w, _). Inr w))"

text \<open>\<open>register_extension\<close> runs once per extension class, the constructor once per object.\<close>

definition register_extension :: "service_ids \<Rightarrow> u32 \<times> service_ids" where
  "register_extension g = (let n = max_num g + 1 in (n - 1, g\<lparr>max_num := n\<rparr>))"

definition gc_service_ID_extension :: "u32 \<Rightarrow> string \<Rightarrow> service_ids \<Rightarrow> service_ids res" where
  "gc_service_ID_extension ID v g =
     bindr (getExtendedControlServiceString ID (Some v) g) (\<lambda>(_, g'). Inr g')"

section \<open>Transactions\<close>

text \<open>
  The pointer field \<^verbatim>\<open>mLogPointer\<close> carries a parameter or a vector of names; the vector is
  owned by the transaction's receiver and is modelled by its contents. The extensions are a
  vector of pointers, indexed by the number of the extension's class.
\<close>

datatype log_pointer = NoLog | LogParam nat | LogNames "string list"

record transaction =
  mService :: ControlService
  mTarget :: nat
  mCmd :: u32
  mAnyPointer :: nat
  mAnyPointer2 :: nat
  mAnyUint :: u32
  mSpecifier :: string
  mValue :: string
  mID :: nat
  mError :: u32
  mMetaData :: string
  mLogPointer :: log_pointer
  mCmdIf :: nat
  m_extensions :: "nat list"

text \<open>\<^verbatim>\<open>ControlTransaction::reset\<close> and the access to an extension by its number.\<close>

definition tr_reset :: "transaction \<Rightarrow> transaction" where
  "tr_reset t = t\<lparr>mService := NO_SERVICE, mAnyPointer := 0, mError := 0, mMetaData := [],
     mLogPointer := NoLog, m_extensions := map (\<lambda>_. 0) (m_extensions t)\<rparr>"

definition set_extension :: "nat \<Rightarrow> nat \<Rightarrow> transaction \<Rightarrow> (nat \<times> transaction) res" where
  "set_extension idx ext t =
     (if idx < length (m_extensions t)
      then Inr (m_extensions t ! idx, t\<lparr>m_extensions := (m_extensions t)[idx := ext]\<rparr>)
      else Inl (Undefined ''extension index''))"

definition get_extension :: "nat \<Rightarrow> transaction \<Rightarrow> nat res" where
  "get_extension idx t =
     (if idx < length (m_extensions t) then Inr (m_extensions t ! idx)
      else Inl (Undefined ''extension index''))"

definition clear_extension :: "nat \<Rightarrow> transaction \<Rightarrow> transaction res" where
  "clear_extension idx t =
     (if idx < length (m_extensions t)
      then Inr (t\<lparr>m_extensions := (m_extensions t)[idx := 0]\<rparr>)
      else Inl (Undefined ''extension index''))"

text \<open>The transaction's constructor, for a given number of extension classes.\<close>

definition new_transaction :: "nat \<Rightarrow> u32 \<Rightarrow> transaction" where
  "new_transaction n_ext garbage =
     \<lparr>mService = NO_SERVICE, mTarget = 0, mCmd = 0, mAnyPointer = 0, mAnyPointer2 = 0,
      mAnyUint = garbage, mSpecifier = [], mValue = [], mID = 0, mError = 0, mMetaData = [],
      mLogPointer = NoLog, mCmdIf = 0, m_extensions = replicate n_ext 0\<rparr>"

section \<open>Ports and address maps\<close>

record gc_port =
  getParent :: nat
  getSupportedControlService :: ControlService
  getParentName :: string
  isPlugin :: bool

record address_map =
  m_address_service_map :: "(nat, ControlService) omap"
  m_service_address_map :: "(ControlService \<times> nat) list"
  m_address_name_map :: "(nat, string) omap"

definition empty_address_map :: address_map where
  "empty_address_map = \<lparr>m_address_service_map = [], m_service_address_map = [], m_address_name_map = []\<rparr>"

definition is_in_maps :: "nat \<Rightarrow> address_map \<Rightarrow> bool" where
  "is_in_maps a m = (map_find (m_address_service_map m) a \<noteq> None)"

definition am_insert :: "ControlService \<Rightarrow> nat \<Rightarrow> string \<Rightarrow> bool \<Rightarrow> address_map \<Rightarrow> address_map res" where
  "am_insert service a target_name is_plugin m =
     (if map_find (m_address_service_map m) a \<noteq> None
      then Inl (ScError ''insert: Address already exists.'')
      else Inr (m\<lparr>m_address_service_map := fst (map_insert a service (m_address_service_map m)),
                  m_address_name_map := fst (map_insert a target_name (m_address_name_map m)),
                  m_service_address_map :=
                    (if is_plugin then mm_insert service a (m_service_address_map m)
                     else m_service_address_map m)\<rparr>))"

definition addPort :: "gc_port option \<Rightarrow> address_map \<Rightarrow> address_map res" where
  "addPort pPort m =
     (case pPort of
        None \<Rightarrow> Inr m
      | Some p \<Rightarrow>
          if is_in_maps (getParent p) m then Inr m
          else am_insert (getSupportedControlService p) (getParent p) (getParentName p) (isPlugin p) m)"

text \<open>The loop over the entries of one service, from the first to \<^verbatim>\<open>upper_bound\<close>.\<close>

definition removePort :: "gc_port option \<Rightarrow> address_map \<Rightarrow> address_map" where
  "removePort pPort m =
     (case pPort of
        None \<Rightarrow> m
      | Some p \<Rightarrow>
          let a = getParent p;
              m1 = m\<lparr>m_address_service_map := map_erase a (m_address_service_map m),
                     m_address_name_map := map_erase a (m_address_name_map m)\<rparr>
          in if isPlugin p
             then m1\<lparr>m_service_address_map :=
                       filter (\<lambda>e. e \<noteq> (getSupportedControlService p, a)) (m_service_address_map m1)\<rparr>
             else m1)"

definition am_isEmpty :: "address_map \<Rightarrow> bool" where
  "am_isEmpty m = (m_address_service_map m = [])"

text \<open>
  \<^verbatim>\<open>getAddrFromService\<close> builds a warning text when the service has no plugin; for an extended
  service without a registered string this runs into an assertion.
\<close>

definition getAddrFromService :: "service_ids \<Rightarrow> ControlService \<Rightarrow> address_map \<Rightarrow> nat list res" where
  "getAddrFromService g service m =
     bindr (if mm_equal_range service (m_service_address_map m) = []
            then getControlServiceString service g else Inr [])
       (\<lambda>_. Inr (mm_equal_range service (m_service_address_map m)))"

definition decode :: "service_ids \<Rightarrow> ControlService \<Rightarrow> address_map \<Rightarrow> nat list res" where
  "decode g service m = getAddrFromService g service m"

definition getService :: "nat \<Rightarrow> address_map \<Rightarrow> ControlService" where
  "getService a m = (case map_find (m_address_service_map m) a of None \<Rightarrow> NO_SERVICE | Some s \<Rightarrow> s)"

definition getName_addr :: "nat \<Rightarrow> address_map \<Rightarrow> string list" where
  "getName_addr a m = (case map_find (m_address_name_map m) a of None \<Rightarrow> [] | Some n \<Rightarrow> [n])"

text \<open>An address of the service map without a name makes the code read through \<^verbatim>\<open>end()\<close>.\<close>

fun lookup_names :: "address_map \<Rightarrow> nat list \<Rightarrow> string list res" where
  "lookup_names m [] = Inr []"
| "lookup_names m (a # as) =
     (case map_find (m_address_name_map m) a of
        None \<Rightarrow> Inl (Undefined ''dereferencing end()'')
      | Some n \<Rightarrow> bindr (lookup_names m as) (\<lambda>ns. Inr (n # ns)))"

definition getName_service :: "service_ids \<Rightarrow> ControlService \<Rightarrow> address_map \<Rightarrow> string list res" where
  "getName_service g service m = bindr (getAddrFromService g service m) (lookup_names m)"

definition getName_both :: "service_ids \<Rightarrow> nat \<Rightarrow> ControlService \<Rightarrow> address_map \<Rightarrow> string list res" where
  "getName_both g a service m =
     (if a = 0 then getName_service g service m else Inr (getName_addr a m))"


section \<open>The core\<close>

record 'w core =
  m_AddressMap :: address_map
  m_pLogger :: nat
  initVec :: "nat list"
  services :: service_ids
  world :: 'w

datatype init_callback =
    start_initialize_mode | gc_start_of_simulation | end_initialize_mode
  | gc_end_of_elaboration | gc_before_end_of_elaboration | gc_end_of_simulation

text \<open>
  The code behind the core's ports: which parents implement \<^verbatim>\<open>initialize_if\<close> and
  \<^verbatim>\<open>GC_Logger_if\<close> (the dynamic casts), what \<^verbatim>\<open>transport\<close> does at a target, what the logger
  does, what the kernel callbacks of an API do, and the bound for the callback loops, which an
  API that registers at the dispatcher can prolong.
\<close>

record 'w gc_env =
  is_initialize_if :: "nat \<Rightarrow> bool"
  is_logger_if :: "nat \<Rightarrow> bool"
  deliver :: "nat \<Rightarrow> transaction \<times> 'w core \<Rightarrow> (transaction \<times> 'w core) res"
  log_call :: "nat \<Rightarrow> transaction \<times> 'w core \<Rightarrow> (transaction \<times> 'w core) res"
  log_return :: "nat \<Rightarrow> transaction \<times> 'w core \<Rightarrow> (transaction \<times> 'w core) res"
  init_call :: "init_callback \<Rightarrow> nat \<Rightarrow> 'w core \<Rightarrow> 'w core res"
  init_fuel :: nat

definition new_core :: "service_ids \<Rightarrow> 'w \<Rightarrow> 'w core" where
  "new_core g w = \<lparr>m_AddressMap = empty_address_map, m_pLogger = 0, initVec = [], services = g, world = w\<rparr>"

definition disp_add :: "nat \<Rightarrow> 'w core \<Rightarrow> 'w core" where
  "disp_add a c = c\<lparr>initVec := initVec c @ [a]\<rparr>"

definition disp_remove :: "nat \<Rightarrow> 'w core \<Rightarrow> 'w core" where
  "disp_remove a c = c\<lparr>initVec := filter (\<lambda>x. x \<noteq> a) (initVec c)\<rparr>"

text \<open>The constructor and destructor of the base class \<^verbatim>\<open>initialize_if\<close> use the dispatcher too.\<close>

definition initialize_if_ctor :: "nat \<Rightarrow> 'w core \<Rightarrow> 'w core" where
  "initialize_if_ctor a c = disp_add a c"

definition initialize_if_dtor :: "nat \<Rightarrow> 'w core \<Rightarrow> 'w core" where
  "initialize_if_dtor a c = disp_remove a c"

definition core_bind :: "'w gc_env \<Rightarrow> gc_port option \<Rightarrow> 'w core \<Rightarrow> 'w core res" where
  "core_bind E pPort c =
     (case pPort of
        None \<Rightarrow> Inl (AssertFail ''gc_port must not be NULL!'')
      | Some p \<Rightarrow>
          if getSupportedControlService p = EXTENDED_SERVICE
          then Inl (AssertFail ''Use other constructor and provide the extended service ID!'')
          else if getSupportedControlService p = NO_SERVICE
          then Inl (AssertFail ''Provide a valid service ID!'')
          else bindr (addPort pPort (m_AddressMap c)) (\<lambda>m.
            let c1 = c\<lparr>m_AddressMap := m\<rparr> in
            Inr (if \<not> isPlugin p
                 then (if is_initialize_if E (getParent p) then disp_add (getParent p) c1 else c1)
                 else if getSupportedControlService p = LOG_SERVICE
                 then c1\<lparr>m_pLogger := (if is_logger_if E (getParent p) then getParent p else 0)\<rparr>
                 else c1)))"

definition core_unbind :: "'w gc_env \<Rightarrow> gc_port option \<Rightarrow> 'w core \<Rightarrow> 'w core res" where
  "core_unbind E pPort c =
     (case pPort of
        None \<Rightarrow> Inl (Undefined ''NULL port'')
      | Some p \<Rightarrow>
          let c1 = c\<lparr>m_AddressMap := removePort pPort (m_AddressMap c)\<rparr> in
          Inr (if \<not> isPlugin p
               then (if is_initialize_if E (getParent p) then disp_remove (getParent p) c1 else c1)
               else if getSupportedControlService p = LOG_SERVICE then c1\<lparr>m_pLogger := 0\<rparr>
               else c1))"

fun deliver_all :: "'w gc_env \<Rightarrow> nat list \<Rightarrow> transaction \<times> 'w core \<Rightarrow> (transaction \<times> 'w core) res" where
  "deliver_all E [] s = Inr s"
| "deliver_all E (a # as) s = bindr (deliver E a s) (deliver_all E as)"

definition route :: "'w gc_env \<Rightarrow> transaction \<times> 'w core \<Rightarrow> (transaction \<times> 'w core) res" where
  "route E s =
     (case s of (tr, c) \<Rightarrow>
        if mTarget tr \<noteq> 0
        then (if is_in_maps (mTarget tr) (m_AddressMap c) then deliver E (mTarget tr) (tr, c)
              else Inr (tr\<lparr>mError := 666\<rparr>, c))
        else bindr (decode (services c) (mService tr) (m_AddressMap c)) (\<lambda>addrVec.
               deliver_all E addrVec
                 (if addrVec = [] then tr\<lparr>mError := 666\<rparr> else tr, c)))"

definition transport :: "'w gc_env \<Rightarrow> transaction \<Rightarrow> 'w core \<Rightarrow> (transaction \<times> 'w core) res" where
  "transport E tr c =
     bindr (if m_pLogger c \<noteq> 0 then log_call E (m_pLogger c) (tr, c) else Inr (tr, c)) (\<lambda>s1.
     bindr (route E s1) (\<lambda>(tr2, c2).
       if m_pLogger c2 \<noteq> 0 then log_return E (m_pLogger c2) (tr2, c2) else Inr (tr2, c2)))"

text \<open>The dispatcher's loops read the size of the vector in every round.\<close>

fun call_each :: "'w gc_env \<Rightarrow> init_callback list \<Rightarrow> nat \<Rightarrow> 'w core \<Rightarrow> 'w core res" where
  "call_each E [] a c = Inr c"
| "call_each E (k # ks) a c = bindr (init_call E k a c) (call_each E ks a)"

fun init_loop :: "'w gc_env \<Rightarrow> init_callback list \<Rightarrow> nat \<Rightarrow> nat \<Rightarrow> 'w core \<Rightarrow> 'w core res" where
  "init_loop E ks 0 i c = (if i < length (initVec c) then Inl OutOfFuel else Inr c)"
| "init_loop E ks (Suc n) i c =
     (if i < length (initVec c)
      then bindr (call_each E ks (initVec c ! i) c) (init_loop E ks n (Suc i))
      else Inr c)"

definition start_of_simulation :: "'w gc_env \<Rightarrow> 'w core \<Rightarrow> 'w core res" where
  "start_of_simulation E c =
     bindr (init_loop E [start_initialize_mode, gc_start_of_simulation] (init_fuel E) 0 c)
       (init_loop E [end_initialize_mode] (init_fuel E) 0)"

definition end_of_elaboration where
  "end_of_elaboration E c = init_loop E [gc_end_of_elaboration] (init_fuel E) 0 c"

definition before_end_of_elaboration where
  "before_end_of_elaboration E c = init_loop E [gc_before_end_of_elaboration] (init_fuel E) 0 c"

definition end_of_simulation where
  "end_of_simulation E c = init_loop E [gc_end_of_simulation] (init_fuel E) 0 c"

section \<open>Histories of bindings and their specification\<close>

datatype port_op = Bind gc_port | Unbind gc_port

fun port_step :: "'w gc_env \<Rightarrow> port_op \<Rightarrow> 'w core \<Rightarrow> 'w core res" where
  "port_step E (Bind p) c = core_bind E (Some p) c"
| "port_step E (Unbind p) c = core_unbind E (Some p) c"

fun port_run :: "'w gc_env \<Rightarrow> port_op list \<Rightarrow> 'w core \<Rightarrow> 'w core res" where
  "port_run E [] c = Inr c"
| "port_run E (x # xs) c = bindr (port_step E x c) (port_run E xs)"

text \<open>The specification keeps the list of the ports that are bound, in the order of binding.\<close>

fun bound_step :: "port_op \<Rightarrow> gc_port list \<Rightarrow> gc_port list" where
  "bound_step (Bind p) ps = (if getParent p \<in> getParent ` set ps then ps else ps @ [p])"
| "bound_step (Unbind p) ps = filter (\<lambda>q. getParent q \<noteq> getParent p) ps"

definition bound :: "port_op list \<Rightarrow> gc_port list" where
  "bound xs = fold bound_step xs []"

fun port_of :: "port_op \<Rightarrow> gc_port" where
  "port_of (Bind p) = p"
| "port_of (Unbind p) = p"

definition providers :: "ControlService \<Rightarrow> gc_port list \<Rightarrow> nat list" where
  "providers s ps = map getParent (filter (\<lambda>p. isPlugin p \<and> getSupportedControlService p = s) ps)"

text \<open>One port per API or plugin, with an identifier that \<^verbatim>\<open>bind\<close> accepts.\<close>

definition disciplined :: "gc_port set \<Rightarrow> bool" where
  "disciplined P \<longleftrightarrow>
     (\<forall>p \<in> P. getSupportedControlService p \<noteq> NO_SERVICE \<and> getSupportedControlService p \<noteq> EXTENDED_SERVICE
        \<and> (\<forall>q \<in> P. getParent p = getParent q \<longrightarrow> p = q))"

definition am_abs :: "gc_port list \<Rightarrow> address_map \<Rightarrow> bool" where
  "am_abs ps m \<longleftrightarrow>
     omap_ok (m_address_service_map m) \<and> omap_ok (m_address_name_map m) \<and> mm_ok (m_service_address_map m)
     \<and> map_find (m_address_service_map m) = map_of (map (\<lambda>p. (getParent p, getSupportedControlService p)) ps)
     \<and> map_find (m_address_name_map m) = map_of (map (\<lambda>p. (getParent p, getParentName p)) ps)
     \<and> (\<forall>s. mm_equal_range s (m_service_address_map m) = providers s ps)
     \<and> distinct (map getParent ps)"

lemma am_abs_in_maps: "am_abs ps m \<Longrightarrow> is_in_maps a m \<longleftrightarrow> a \<in> getParent ` set ps"
  by (auto simp: am_abs_def is_in_maps_def map_of_eq_None_iff image_image)


lemma map_of_keyed_snoc:
  "f p \<notin> f ` set ps \<Longrightarrow> map_of (map (\<lambda>q. (f q, g q)) (ps @ [p])) = (map_of (map (\<lambda>q. (f q, g q)) ps))(f p \<mapsto> g p)"
  by (induction ps) (auto simp: fun_eq_iff)

lemma map_of_keyed_filter:
  "map_of (map (\<lambda>q. (f q, g q)) (filter (\<lambda>q. f q \<noteq> a) ps)) = (map_of (map (\<lambda>q. (f q, g q)) ps))(a := None)"
  by (induction ps) (auto simp: fun_eq_iff)

lemma fst_map_insert_new: "map_find m k = None \<Longrightarrow> map_find (fst (map_insert k v m)) = (map_find m)(k \<mapsto> v)"
  by (rule ext) (simp add: map_insert_fst_find)

lemma providers_snoc:
  "providers s (ps @ [p]) = providers s ps
     @ (if isPlugin p \<and> s = getSupportedControlService p then [getParent p] else [])"
  by (simp add: providers_def)

lemma providers_set: "a \<in> set (providers s ps) \<Longrightarrow> a \<in> getParent ` set ps"
  by (auto simp: providers_def)

lemma am_abs_addPort:
  assumes "am_abs ps m"
  shows "\<exists>m'. addPort (Some p) m = Inr m' \<and> am_abs (bound_step (Bind p) ps) m'"
proof (cases "getParent p \<in> getParent ` set ps")
  case True
  with assms show ?thesis by (simp add: addPort_def am_abs_in_maps)
next
  case False
  then have new: "map_find (m_address_service_map m) (getParent p) = None"
      "map_find (m_address_name_map m) (getParent p) = None"
    using assms by (auto simp: am_abs_def map_of_eq_None_iff image_image)
  define m' where "m' = m\<lparr>m_address_service_map :=
        fst (map_insert (getParent p) (getSupportedControlService p) (m_address_service_map m)),
      m_address_name_map := fst (map_insert (getParent p) (getParentName p) (m_address_name_map m)),
      m_service_address_map :=
        (if isPlugin p then mm_insert (getSupportedControlService p) (getParent p) (m_service_address_map m)
         else m_service_address_map m)\<rparr>"
  have "addPort (Some p) m = Inr m'"
    using new by (simp add: addPort_def is_in_maps_def am_insert_def m'_def)
  moreover have "distinct (map getParent (ps @ [p]))" using assms False by (auto simp: am_abs_def)
  with assms False have "am_abs (ps @ [p]) m'"
    by (auto simp: am_abs_def m'_def map_of_keyed_snoc fst_map_insert_new [OF new(1)]
        fst_map_insert_new [OF new(2)] providers_snoc mm_range_insert mm_ok_insert simp del: map_append)
  ultimately show ?thesis using False by auto
qed

lemma providers_drop:
  assumes "distinct (map getParent ps)" and "\<forall>q \<in> set ps. getParent q = getParent p \<longrightarrow> q = p"
  shows "providers s (filter (\<lambda>q. getParent q \<noteq> getParent p) ps)
    = (if isPlugin p \<and> s = getSupportedControlService p
       then filter (\<lambda>a. a \<noteq> getParent p) (providers s ps) else providers s ps)"
  using assms by (induction ps) (auto simp: providers_def)

lemma am_abs_removePort:
  assumes ok: "am_abs ps m" and uniq: "\<forall>q \<in> set ps. getParent q = getParent p \<longrightarrow> q = p"
  shows "am_abs (bound_step (Unbind p) ps) (removePort (Some p) m)"
proof -
  have dist: "distinct (map getParent ps)" using ok by (simp add: am_abs_def)
  have erase: "map_find (map_erase k l) = (map_find l)(k := None)" if "omap_ok l"
    for k and l :: "(nat \<times> 'x) list"
    using that by (auto simp: map_simps omap_ok_distinct fun_eq_iff)
  show ?thesis
    using ok
    by (auto simp: am_abs_def removePort_def Let_def erase map_of_keyed_filter mm_range_erase
        mm_ok_filter providers_drop [OF dist uniq] distinct_map_filter omap_ok_erase split: if_splits)
qed

lemma bound_step_sub: "set (bound_step x ps) \<subseteq> insert (port_of x) (set ps)"
  by (cases x) auto

lemma port_step_abs:
  assumes ok: "am_abs ps (m_AddressMap c)" and disc: "disciplined (insert (port_of x) (set ps))"
  shows "\<exists>c'. port_step E x c = Inr c' \<and> am_abs (bound_step x ps) (m_AddressMap c')
     \<and> services c' = services c \<and> world c' = world c"
proof (cases x)
  case (Bind p)
  have valid: "getSupportedControlService p \<noteq> NO_SERVICE" "getSupportedControlService p \<noteq> EXTENDED_SERVICE"
    using disc Bind by (auto simp: disciplined_def)
  obtain m' where "addPort (Some p) (m_AddressMap c) = Inr m'" "am_abs (bound_step (Bind p) ps) m'"
    using am_abs_addPort [OF ok] by blast
  then show ?thesis using Bind valid by (auto simp: core_bind_def Let_def disp_add_def)
next
  case (Unbind p)
  have "\<forall>q \<in> set ps. getParent q = getParent p \<longrightarrow> q = p"
    using disc Unbind unfolding disciplined_def by auto
  from am_abs_removePort [OF ok this] show ?thesis
    using Unbind by (simp add: core_unbind_def Let_def disp_remove_def)
qed

lemma disciplined_subset: "disciplined P \<Longrightarrow> Q \<subseteq> P \<Longrightarrow> disciplined Q"
  unfolding disciplined_def by blast

lemma port_run_abs:
  assumes "am_abs ps (m_AddressMap c)" and "disciplined (set ps \<union> port_of ` set xs)"
  shows "\<exists>c'. port_run E xs c = Inr c' \<and> am_abs (fold bound_step xs ps) (m_AddressMap c')
     \<and> services c' = services c \<and> world c' = world c"
  using assms
proof (induction xs arbitrary: ps c)
  case (Cons x xs)
  have "disciplined (insert (port_of x) (set ps))"
    using Cons.prems(2) by (rule disciplined_subset) auto
  from port_step_abs [OF Cons.prems(1) this] obtain c1 where c1: "port_step E x c = Inr c1"
      "am_abs (bound_step x ps) (m_AddressMap c1)" "services c1 = services c" "world c1 = world c"
    by blast
  have "disciplined (set (bound_step x ps) \<union> port_of ` set xs)"
    using Cons.prems(2) bound_step_sub [of x ps] by (auto elim!: disciplined_subset)
  from Cons.IH [OF c1(2) this] c1 show ?case by auto
qed simp

lemma am_abs_empty: "am_abs [] empty_address_map"
  by (auto simp: am_abs_def empty_address_map_def omap_ok_def mm_ok_def providers_def mm_equal_range_def
      fun_eq_iff)

lemma port_run_new_core:
  assumes "disciplined (port_of ` set xs)"
  shows "\<exists>c. port_run E xs (new_core g w) = Inr c \<and> am_abs (bound xs) (m_AddressMap c)
     \<and> services c = g \<and> world c = w"
  using port_run_abs [of "[]" "new_core g w" xs E] assms am_abs_empty
  by (simp add: new_core_def bound_def)

lemma decode_abs:
  assumes "am_abs ps m" and "providers s ps \<noteq> [] \<or> s \<in> {0, 1, 2, 3, 4}"
  shows "decode g s m = Inr (providers s ps)"
  using assms by (auto simp: decode_def getAddrFromService_def am_abs_def getControlServiceString_def)


section \<open>Kernel callbacks as a sequence of calls\<close>

fun call_seq :: "'w gc_env \<Rightarrow> (init_callback \<times> nat) list \<Rightarrow> 'w core \<Rightarrow> 'w core res" where
  "call_seq E [] c = Inr c"
| "call_seq E ((k, a) # ks) c = bindr (init_call E k a c) (call_seq E ks)"

lemma call_seq_append: "call_seq E (ks @ ls) c = bindr (call_seq E ks c) (call_seq E ls)"
proof (induction ks arbitrary: c)
  case (Cons ka ks)
  then show ?case by (cases ka; cases "init_call E (fst ka) (snd ka) c") auto
qed simp

definition keeps_initVec :: "'w gc_env \<Rightarrow> bool" where
  "keeps_initVec E \<longleftrightarrow> (\<forall>k a c c'. init_call E k a c = Inr c' \<longrightarrow> initVec c' = initVec c)"

lemma call_each_seq: "call_each E ks a c = call_seq E (map (\<lambda>k. (k, a)) ks) c"
proof (induction ks arbitrary: c)
  case (Cons k ks)
  then show ?case by (cases "init_call E k a c") auto
qed simp

lemma call_seq_initVec: "keeps_initVec E \<Longrightarrow> call_seq E ks c = Inr c' \<Longrightarrow> initVec c' = initVec c"
proof (induction ks arbitrary: c)
  case (Cons ka ks)
  then show ?case by (cases ka) (fastforce simp: bindr_eq_Inr keeps_initVec_def)
qed simp

lemma init_loop_seq:
  assumes "keeps_initVec E" and "length (initVec c) \<le> n + i"
  shows "init_loop E ks n i c
    = call_seq E (concat (map (\<lambda>a. map (\<lambda>k. (k, a)) ks) (drop i (initVec c)))) c"
  using assms(2)
proof (induction n arbitrary: i c)
  case (Suc n)
  show ?case
  proof (cases "i < length (initVec c)")
    case True
    let ?calls = "\<lambda>a. map (\<lambda>k. (k, a)) ks"
    have "init_loop E ks (Suc n) i c = bindr (call_seq E (?calls (initVec c ! i)) c) (init_loop E ks n (Suc i))"
      using True by (simp add: call_each_seq)
    also have "\<dots> = bindr (call_seq E (?calls (initVec c ! i)) c)
        (call_seq E (concat (map ?calls (drop (Suc i) (initVec c)))))"
    proof (cases "call_seq E (?calls (initVec c ! i)) c")
      case (Inr c')
      then have "initVec c' = initVec c" using call_seq_initVec [OF assms(1)] by blast
      then show ?thesis using Inr Suc.IH [of c' "Suc i"] Suc.prems by simp
    qed simp
    also have "\<dots> = call_seq E (concat (map ?calls (drop i (initVec c)))) c"
      using True by (simp add: Cons_nth_drop_Suc [symmetric] call_seq_append)
    finally show ?thesis .
  qed simp
qed simp

lemma standard_service:
  fixes s :: ControlService
  assumes "s \<le> EXTENDED_SERVICE"
  shows "s \<in> {0, 1, 2, 3, 4}"
proof -
  have "unat s \<le> 4" using assms by (simp add: word_le_nat_alt)
  then consider "unat s = 0" | "unat s = 1" | "unat s = 2" | "unat s = 3" | "unat s = 4" by linarith
  then show ?thesis by cases (simp_all add: word_unat_eq_iff)
qed

section \<open>Properties\<close>

text \<open>C9. The address maps implement the list of bound ports. After any history of bindings and
  unbindings with one port per parent, no operation has failed and the core routes a
  transaction by that list: with a target address to exactly this target if a port of it is
  still bound and otherwise to the error 666; without one to every plugin of the service, in
  the order of binding, and to the error 666 if there is none.\<close>

theorem routing_follows_bindings:
  assumes "disciplined (port_of ` set xs)"
    and "providers (mService tr) (bound xs) \<noteq> [] \<or> mService tr \<le> EXTENDED_SERVICE"
  shows "\<exists>c. port_run E xs (new_core g w) = Inr c
    \<and> route E (tr, c) =
        (if mTarget tr \<noteq> 0
         then (if mTarget tr \<in> getParent ` set (bound xs) then deliver E (mTarget tr) (tr, c)
               else Inr (tr\<lparr>mError := 666\<rparr>, c))
         else deliver_all E (providers (mService tr) (bound xs))
                (if providers (mService tr) (bound xs) = [] then tr\<lparr>mError := 666\<rparr> else tr, c))"
proof -
  from port_run_new_core [OF assms(1), of E g w] obtain c where c: "port_run E xs (new_core g w) = Inr c"
    "am_abs (bound xs) (m_AddressMap c)" by blast
  have "providers (mService tr) (bound xs) \<noteq> [] \<or> mService tr \<in> {0, 1, 2, 3, 4}"
    using assms(2) by (elim disjE) (rule disjI1, assumption, rule disjI2, rule standard_service)
  then have "decode (services c) (mService tr) (m_AddressMap c) = Inr (providers (mService tr) (bound xs))"
    by (rule decode_abs [OF c(2)])
  then have "route E (tr, c) =
        (if mTarget tr \<noteq> 0
         then (if mTarget tr \<in> getParent ` set (bound xs) then deliver E (mTarget tr) (tr, c)
               else Inr (tr\<lparr>mError := 666\<rparr>, c))
         else deliver_all E (providers (mService tr) (bound xs))
                (if providers (mService tr) (bound xs) = [] then tr\<lparr>mError := 666\<rparr> else tr, c))"
    by (simp only: route_def am_abs_in_maps [OF c(2)] prod.case bindr_Inr)
  with c(1) show ?thesis by blast
qed

definition plugin_port :: gc_port where
  "plugin_port = \<lparr>getParent = 7, getSupportedControlService = CONFIG_SERVICE,
     getParentName = ''ConfigPlugin'', isPlugin = True\<rparr>"

definition api_port :: gc_port where
  "api_port = \<lparr>getParent = 3, getSupportedControlService = CONFIG_SERVICE,
     getParentName = ''GCnf_Api'', isPlugin = False\<rparr>"

definition quiet_env :: "unit gc_env" where
  "quiet_env = \<lparr>is_initialize_if = (\<lambda>_. True), is_logger_if = (\<lambda>_. False),
     deliver = (\<lambda>a (t, c). Inr (t\<lparr>mAnyUint := mAnyUint t + of_nat a\<rparr>, c)),
     log_call = (\<lambda>_ s. Inr s), log_return = (\<lambda>_ s. Inr s),
     init_call = (\<lambda>_ _ c. Inr c), init_fuel = 5\<rparr>"

lemma sample_providers:
  "bound [Bind api_port, Bind plugin_port] = [api_port, plugin_port]"
  "providers CONFIG_SERVICE [api_port, plugin_port] = [7]"
  "disciplined {api_port, plugin_port}"
  by (auto simp: bound_def providers_def disciplined_def api_port_def plugin_port_def)

lemma routing_follows_bindings_witness:
  "\<exists>c. port_run quiet_env [Bind api_port, Bind plugin_port] (new_core initial_service_ids ()) = Inr c
    \<and> route quiet_env ((new_transaction 0 0)\<lparr>mService := CONFIG_SERVICE\<rparr>, c)
       = Inr ((new_transaction 0 7)\<lparr>mService := CONFIG_SERVICE\<rparr>, c)"
proof -
  have "\<exists>c. port_run quiet_env [Bind api_port, Bind plugin_port] (new_core initial_service_ids ()) = Inr c
    \<and> route quiet_env ((new_transaction 0 0)\<lparr>mService := CONFIG_SERVICE\<rparr>, c)
       = deliver_all quiet_env [7] ((new_transaction 0 0)\<lparr>mService := CONFIG_SERVICE\<rparr>, c)"
    using routing_follows_bindings [of "[Bind api_port, Bind plugin_port]"
        "(new_transaction 0 0)\<lparr>mService := CONFIG_SERVICE\<rparr>" quiet_env initial_service_ids "()"]
    by (simp add: sample_providers new_transaction_def del: port_run.simps)
  moreover have "deliver_all quiet_env [7] ((new_transaction 0 0)\<lparr>mService := CONFIG_SERVICE\<rparr>, c)
      = Inr ((new_transaction 0 7)\<lparr>mService := CONFIG_SERVICE\<rparr>, c)" for c
    by (simp add: quiet_env_def new_transaction_def)
  ultimately show ?thesis by (simp only:)
qed

text \<open>Two ports with the same parent share one entry of the address maps: when the second
  one is unbound, the first is unreachable by address although its service is still routed to
  it, and asking for the names of the service's plugins is undefined.\<close>

theorem shared_parent_unbind_drops_address:
  assumes "getParent q = getParent p" and "isPlugin p" and "\<not> isPlugin q"
    and "disciplined {p}" and "disciplined {q}"
  shows "\<exists>c. port_run E [Bind p, Bind q, Unbind q] (new_core g w) = Inr c
    \<and> decode g (getSupportedControlService p) (m_AddressMap c) = Inr [getParent p]
    \<and> \<not> is_in_maps (getParent p) (m_AddressMap c)
    \<and> getName_service g (getSupportedControlService p) (m_AddressMap c)
        = Inl (Undefined ''dereferencing end()'')"
  using assms
  by (auto simp: disciplined_def core_bind_def core_unbind_def Let_def new_core_def addPort_def
      removePort_def am_insert_def is_in_maps_def empty_address_map_def map_insert_def
      decode_def getAddrFromService_def getName_service_def mm_equal_range_def disp_add_def
      disp_remove_def)

lemma shared_parent_unbind_drops_address_witness:
  "\<exists>c. port_run quiet_env [Bind plugin_port, Bind (api_port\<lparr>getParent := 7\<rparr>),
         Unbind (api_port\<lparr>getParent := 7\<rparr>)] (new_core initial_service_ids ()) = Inr c
    \<and> decode initial_service_ids CONFIG_SERVICE (m_AddressMap c) = Inr [7]
    \<and> \<not> is_in_maps 7 (m_AddressMap c)"
  using shared_parent_unbind_drops_address [of "api_port\<lparr>getParent := 7\<rparr>" plugin_port quiet_env
      initial_service_ids "()"]
  by (auto simp: disciplined_def plugin_port_def api_port_def)

text \<open>At the start of simulation every registered API is put into initialize mode and gets its
  callback, in the order of registration, before the first API leaves initialize mode; provided
  that no API registers or removes itself at the dispatcher meanwhile.\<close>

theorem initialize_phase_before_end:
  assumes "keeps_initVec E" and "length (initVec c) \<le> init_fuel E"
  shows "start_of_simulation E c = call_seq E
    (concat (map (\<lambda>a. [(start_initialize_mode, a), (gc_start_of_simulation, a)]) (initVec c))
      @ map (\<lambda>a. (end_initialize_mode, a)) (initVec c)) c"
proof -
  let ?first = "concat (map (\<lambda>a. [(start_initialize_mode, a), (gc_start_of_simulation, a)]) (initVec c))"
  have "init_loop E [start_initialize_mode, gc_start_of_simulation] (init_fuel E) 0 c = call_seq E ?first c"
    using init_loop_seq [OF assms(1), of c "init_fuel E" 0] assms(2) by simp
  moreover have "init_loop E [end_initialize_mode] (init_fuel E) 0 c'
      = call_seq E (map (\<lambda>a. (end_initialize_mode, a)) (initVec c)) c'"
    if "call_seq E ?first c = Inr c'" for c'
    using init_loop_seq [OF assms(1), of c' "init_fuel E" 0] assms(2)
      call_seq_initVec [OF assms(1) that] by (simp add: concat_map_singleton)
  ultimately show ?thesis
    by (cases "call_seq E ?first c") (simp_all add: start_of_simulation_def call_seq_append)
qed

lemma initialize_phase_before_end_witness:
  "start_of_simulation quiet_env ((new_core initial_service_ids ())\<lparr>initVec := [3, 4]\<rparr>)
    = Inr ((new_core initial_service_ids ())\<lparr>initVec := [3, 4]\<rparr>)"
  using initialize_phase_before_end [of quiet_env "(new_core initial_service_ids ())\<lparr>initVec := [3, 4]\<rparr>"]
  by (simp add: keeps_initVec_def quiet_env_def)


text \<open>An API that derives from \<^verbatim>\<open>initialize_if\<close> is registered twice at the dispatcher, by the
  constructor of that base class and by the binding of its port, so at the start of simulation
  every kernel callback is made twice on it.\<close>

theorem api_registered_twice:
  assumes "\<not> isPlugin p" and "is_initialize_if E (getParent p)" and "disciplined {p}"
    and "\<not> is_in_maps (getParent p) (m_AddressMap c)" and "keeps_initVec E"
    and "length (initVec c) + 2 \<le> init_fuel E"
  shows "\<exists>c'. core_bind E (Some p) (initialize_if_ctor (getParent p) c) = Inr c'
    \<and> initVec c' = initVec c @ [getParent p, getParent p]
    \<and> end_of_elaboration E c' = call_seq E (map (\<lambda>a. (gc_end_of_elaboration, a)) (initVec c)
        @ [(gc_end_of_elaboration, getParent p), (gc_end_of_elaboration, getParent p)]) c'"
proof -
  obtain c' where c': "core_bind E (Some p) (initialize_if_ctor (getParent p) c) = Inr c'"
    "initVec c' = initVec c @ [getParent p, getParent p]"
    using assms(1-4)
    by (auto simp: core_bind_def initialize_if_ctor_def disp_add_def disciplined_def addPort_def
        is_in_maps_def am_insert_def Let_def)
  then show ?thesis
    using init_loop_seq [OF assms(5), of c' "init_fuel E" 0 "[gc_end_of_elaboration]"] assms(6)
    by (simp add: end_of_elaboration_def concat_map_singleton)
qed

lemma api_registered_twice_witness:
  "\<exists>c'. core_bind quiet_env (Some api_port) (initialize_if_ctor 3 (new_core initial_service_ids ())) = Inr c'
    \<and> initVec c' = [3, 3]"
  using api_registered_twice [of api_port quiet_env "new_core initial_service_ids ()"]
  by (auto simp: api_port_def quiet_env_def disciplined_def new_core_def empty_address_map_def is_in_maps_def
      keeps_initVec_def)

end
