(* ===== verification/Config_Plugin.thy ===== *)
theory Config_Plugin
  imports Config_Database Control_Core
begin

text \<open>
  The configuration plugin (\<^verbatim>\<open>gcnf/plugin/configplugin_t.h\<close>) and its observer database
  (\<^verbatim>\<open>observerdatabase.h\<close>): the handler of every command of the configuration service, the
  filters of the parameter lists, and the notification of observers, which goes back through
  the core. The plugin's state is the world of the core.
\<close>

section \<open>Commands\<close>

abbreviation CMD_NONE :: u32 where "CMD_NONE \<equiv> 0"
abbreviation CMD_ADD_PARAM :: u32 where "CMD_ADD_PARAM \<equiv> 1"
abbreviation CMD_SET_INIT_VAL :: u32 where "CMD_SET_INIT_VAL \<equiv> 2"
abbreviation CMD_LOCK_INIT_VAL :: u32 where "CMD_LOCK_INIT_VAL \<equiv> 3"
abbreviation CMD_GET_VAL :: u32 where "CMD_GET_VAL \<equiv> 4"
abbreviation CMD_GET_PARAM :: u32 where "CMD_GET_PARAM \<equiv> 5"
abbreviation CMD_EXISTS_PARAM :: u32 where "CMD_EXISTS_PARAM \<equiv> 6"
abbreviation CMD_GET_PARAM_LIST :: u32 where "CMD_GET_PARAM_LIST \<equiv> 7"
abbreviation CMD_GET_PARAM_LIST_VEC :: u32 where "CMD_GET_PARAM_LIST_VEC \<equiv> 8"
abbreviation CMD_REGISTER_NEW_PARAM_OBSERVER :: u32 where "CMD_REGISTER_NEW_PARAM_OBSERVER \<equiv> 9"
abbreviation CMD_NOTIFY_NEW_PARAM_OBSERVER :: u32 where "CMD_NOTIFY_NEW_PARAM_OBSERVER \<equiv> 10"
abbreviation CMD_REMOVE_PARAM :: u32 where "CMD_REMOVE_PARAM \<equiv> 11"
abbreviation CMD_UNREGISTER_PARAM_CALLBACKS :: u32 where "CMD_UNREGISTER_PARAM_CALLBACKS \<equiv> 12"
abbreviation CMD_PARAM_HAS_BEEN_ACCESSED :: u32 where "CMD_PARAM_HAS_BEEN_ACCESSED \<equiv> 13"

definition getCmdName :: "u32 \<Rightarrow> string" where
  "getCmdName cmd =
     (if cmd = CMD_NONE then ''CMD_NONE''
      else if cmd = CMD_ADD_PARAM then ''CMD_ADD_PARAM''
      else if cmd = CMD_SET_INIT_VAL then ''CMD_SET_INIT_VAL''
      else if cmd = CMD_GET_VAL then ''CMD_GET_VAL''
      else if cmd = CMD_GET_PARAM then ''CMD_GET_PARAM''
      else if cmd = CMD_EXISTS_PARAM then ''CMD_EXISTS_PARAM''
      else if cmd = CMD_GET_PARAM_LIST
      then ''CMD_GET_PARAM_LIST, DEPRECATED, use CMD_GET_PARAM_LIST_VEC instead.''
      else if cmd = CMD_GET_PARAM_LIST_VEC then ''CMD_GET_PARAM_LIST_VEC''
      else if cmd = CMD_REGISTER_NEW_PARAM_OBSERVER then ''CMD_REGISTER_NEW_PARAM_OBSERVER''
      else if cmd = CMD_NOTIFY_NEW_PARAM_OBSERVER then ''CMD_NOTIFY_NEW_PARAM_OBSERVER''
      else if cmd = CMD_REMOVE_PARAM then ''CMD_REMOVE_PARAM''
      else if cmd = CMD_UNREGISTER_PARAM_CALLBACKS then ''CMD_UNREGISTER_PARAM_CALLBACKS''
      else ''unknown'')"

definition getCmdDesc :: "u32 \<Rightarrow> string" where
  "getCmdDesc cmd =
     (if cmd = CMD_NONE then ''No command.''
      else if cmd = CMD_ADD_PARAM
      then ''Add an explicit parameter. May only be used by parameter owning API (API -> plugin).''
      else if cmd = CMD_SET_INIT_VAL then ''Set the init value of a parameter (API -> plugin).''
      else if cmd = CMD_LOCK_INIT_VAL then ''Lock the init value of a parameter (API -> plugin).''
      else if cmd = CMD_GET_VAL then ''Get the value of a parameter (API -> plugin).''
      else if cmd = CMD_GET_PARAM then ''Get the pointer to a parameter (API -> plugin).''
      else if cmd = CMD_EXISTS_PARAM then ''Check if the parameter exists (API -> plugin).''
      else if cmd = CMD_PARAM_HAS_BEEN_ACCESSED
      then ''Check if the parameter has been accessed (API -> plugin).''
      else if cmd = CMD_GET_PARAM_LIST
      then ''DEPRECTATED: get a list of the parameters (API -> plugin), use CMD_GET_PARAM_LIST_VEC instead.''
      else if cmd = CMD_GET_PARAM_LIST_VEC then ''Get a vector of the existing parameters (API -> plugin).''
      else if cmd = CMD_REGISTER_NEW_PARAM_OBSERVER
      then ''Register observer for new added or new set parameters (API -> plugin).''
      else if cmd = CMD_NOTIFY_NEW_PARAM_OBSERVER
      then ''Notify an observer about new added (or without add first time set) parameters (Plugin -> API).''
      else if cmd = CMD_REMOVE_PARAM then ''Remove parameter from plugin (API -> plugin).''
      else if cmd = CMD_UNREGISTER_PARAM_CALLBACKS
      then ''Unregister all parameter callbacks for the specified observer module (API -> plugin).''
      else ''unknown'')"

section \<open>State\<close>

text \<open>The observer database maps a name to a set of addresses, kept in order.\<close>

record 'v gcnf =
  cnf :: "'v cnf_state"
  m_observer_db :: "(string, nat list) omap"

type_synonym 'v gcore = "'v gcnf core"

text \<open>
  The code around the plugin: the parameters' environment, the core's environment, in which
  \<open>deliver\<close> is what the notified observers do, the address where \<^verbatim>\<open>new\<close> puts a parameter,
  the values of type string, the name the base class chooses for an empty name, the recycled
  transaction the port's pool hands out, the address of the plugin, and the bound on the
  passes of \<^verbatim>\<open>unregisterParamCallbacks\<close>.
\<close>

record 'v plug_env =
  param_env :: "'v penv"
  core_env :: "'v gcnf gc_env"
  new_param_addr :: "'v cnf_state \<Rightarrow> nat"
  string_value :: "string \<Rightarrow> 'v"
  anon_name :: string
  pooled :: "'v gcore \<Rightarrow> transaction"
  plugin_addr :: nat
  pass_fuel :: nat

definition set_cnf :: "'v cnf_state \<Rightarrow> 'v gcore \<Rightarrow> 'v gcore" where
  "set_cnf s c = c\<lparr>world := (world c)\<lparr>cnf := s\<rparr>\<rparr>"

abbreviation cnf_of :: "'v gcore \<Rightarrow> 'v cnf_state" where
  "cnf_of c \<equiv> cnf (world c)"

section \<open>Observers\<close>

definition DUMMY_NAME :: string where
  "DUMMY_NAME = ''**NewParamObservers**''"

definition set_insert :: "nat \<Rightarrow> nat list \<Rightarrow> nat list \<times> bool" where
  "set_insert a as = (if a \<in> set as then (as, False) else (insort a as, True))"

definition dummy_entry :: "(string, nat list) omap \<Rightarrow> (string, nat list) omap" where
  "dummy_entry db = (if map_find db DUMMY_NAME = None then fst (map_insert DUMMY_NAME [] db) else db)"

definition registerNewParamObserver :: "nat \<Rightarrow> (string, nat list) omap \<Rightarrow> bool \<times> (string, nat list) omap" where
  "registerNewParamObserver obs db =
     (let db1 = dummy_entry db in
      case map_find db1 DUMMY_NAME of
        None \<Rightarrow> (False, db1)
      | Some as \<Rightarrow> (snd (set_insert obs as), map_adjust DUMMY_NAME (\<lambda>as. fst (set_insert obs as)) db1))"

definition getNewParamObservers :: "(string, nat list) omap \<Rightarrow> nat list \<times> (string, nat list) omap" where
  "getNewParamObservers db =
     (let db1 = dummy_entry db in
      (case map_find db1 DUMMY_NAME of None \<Rightarrow> [] | Some as \<Rightarrow> as, db1))"

section \<open>Notifying observers\<close>

definition createTransaction :: "'v plug_env \<Rightarrow> 'v gcore \<Rightarrow> transaction" where
  "createTransaction P c = (pooled P c)\<lparr>mID := plugin_addr P, mCmdIf := plugin_addr P\<rparr>"

definition notify_transaction ::
  "'v plug_env \<Rightarrow> log_pointer \<Rightarrow> string \<Rightarrow> string \<Rightarrow> nat \<Rightarrow> 'v gcore \<Rightarrow> transaction" where
  "notify_transaction P par par_name ivalue a c =
     (let th = (createTransaction P c)\<lparr>mService := CONFIG_SERVICE, mCmd := CMD_NOTIFY_NEW_PARAM_OBSERVER,
                  mTarget := a, mLogPointer := par\<rparr>
      in if par = NoLog then th\<lparr>mSpecifier := par_name, mValue := ivalue\<rparr> else th)"

fun notify_loop ::
  "'v plug_env \<Rightarrow> log_pointer \<Rightarrow> string \<Rightarrow> string \<Rightarrow> nat list \<Rightarrow> 'v gcore \<Rightarrow> 'v gcore res" where
  "notify_loop P par nm ivalue [] c = Inr c"
| "notify_loop P par nm ivalue (a # as) c =
     bindr (transport (core_env P) (notify_transaction P par nm ivalue a c) c)
       (\<lambda>(_, c'). notify_loop P par nm ivalue as c')"

definition sendNewParameterNotify ::
  "'v plug_env \<Rightarrow> log_pointer \<Rightarrow> string \<Rightarrow> string \<Rightarrow> 'v gcore \<Rightarrow> 'v gcore res" where
  "sendNewParameterNotify P par nm ivalue c =
     (case getNewParamObservers (m_observer_db (world c)) of
        (as, db) \<Rightarrow> notify_loop P par nm ivalue as (c\<lparr>world := (world c)\<lparr>m_observer_db := db\<rparr>\<rparr>))"


section \<open>The filters of the parameter lists\<close>

text \<open>
  The code declares \<^verbatim>\<open>size_t x = spec.find(".*") != npos\<close>, so \<^verbatim>\<open>x\<close> is 1 and the module
  name is what is left of the specifier without its last two characters.
\<close>

definition star_mod :: "string \<Rightarrow> string res" where
  "star_mod spec =
     (let x = (if str_find ''.*'' spec \<noteq> npos then 1 else 0)
      in substr spec 0 (size_sub (size_sub (length spec) x) 1))"

definition with_children :: "string \<Rightarrow> string list \<Rightarrow> string list" where
  "with_children md ns = filter (\<lambda>n. str_find md n = 0) ns"

definition named_everywhere :: "string \<Rightarrow> string list \<Rightarrow> string list" where
  "named_everywhere nm ns = filter (\<lambda>n. size_sub (length n) (str_rfind nm n) = length nm) ns"

definition without_children :: "string \<Rightarrow> string list \<Rightarrow> string list" where
  "without_children md ns =
     filter (\<lambda>n. str_find md n = 0 \<and> find_last_of SC_NAME_DELIMITER n \<le> length md) ns"

definition list_vec :: "string \<Rightarrow> 'v cnf_state \<Rightarrow> string list res" where
  "list_vec spec s =
     (if spec = [] then Inr (getParametersVector s)
      else if str_find ''.*'' spec \<noteq> npos
      then bindr (star_mod spec) (\<lambda>md. Inr (with_children md (getParametersVector s)))
      else if str_find ''*.'' spec = 0
      then bindr (substr spec 2 npos) (\<lambda>nm. Inr (named_everywhere nm (getParametersVector s)))
      else Inr (without_children spec (getParametersVector s)))"

definition list_string :: "string \<Rightarrow> 'v cnf_state \<Rightarrow> string res" where
  "list_string spec s =
     (if spec = [] then Inr (getParameters s)
      else if str_find ''.*'' spec \<noteq> npos
      then bindr (star_mod spec) (\<lambda>md. Inr (comma_join (with_children md (getParametersVector s))))
      else Inr (comma_join (without_children spec (getParametersVector s))))"

section \<open>The handler of transactions\<close>

text \<open>The static cast of \<^verbatim>\<open>mLogPointer\<close> to a parameter pointer.\<close>

definition as_param :: "log_pointer \<Rightarrow> nat option res" where
  "as_param p = (case p of NoLog \<Rightarrow> Inr None | LogParam a \<Rightarrow> Inr (Some a)
                 | LogNames _ \<Rightarrow> Inl (Undefined ''static_cast to gs_param_base''))"

text \<open>The object made by \<^verbatim>\<open>new gs_param<std::string>(name, value, NULL, true, false)\<close>.\<close>

definition new_string_param :: "'v plug_env \<Rightarrow> string \<Rightarrow> string \<Rightarrow> 'v gs_param" where
  "new_string_param P nm v =
     \<lparr>m_par_name = (if nm = [] then anon_name P else nm), p_type = PARTYPE_STRING,
      p_type_string = ''string'', my_value = string_value P v, my_default_value = string_value P v,
      m_default_value_was_set = True, m_register_at_db = False, m_locked = False, m_lock_pwd = 0,
      m_making = False, m_delete_enqueued = 0, m_lists = (\<lambda>_. []), m_callers = (\<lambda>_. False),
      m_destruction_flag = False, m_is_initial_value = False, m_setting_initial_value_now = False,
      m_attributes = {}\<rparr>"

type_synonym 'v response = "(transaction \<times> bool \<times> 'v gcore) res"

definition cmd_add_param :: "'v plug_env \<Rightarrow> transaction \<Rightarrow> 'v gcore \<Rightarrow> 'v response" where
  "cmd_add_param P tr c =
     bindr (as_param (mLogPointer tr)) (\<lambda>po.
       let (par, s) = (case po of
              Some a \<Rightarrow> (a, cnf_of c)
            | None \<Rightarrow> (new_param_addr P (cnf_of c),
                 write_param (new_param_addr P (cnf_of c))
                   (new_string_param P (mSpecifier tr) (mValue tr)) (cnf_of c)))
       in bindr (Config_Database.addParam (param_env P) par s) (\<lambda>(ok, s').
            Inr (if ok then (tr, True, set_cnf s' c) else (tr\<lparr>mError := 1\<rparr>, False, set_cnf s' c))))"

definition cmd_remove_param :: "'v plug_env \<Rightarrow> transaction \<Rightarrow> 'v gcore \<Rightarrow> 'v response" where
  "cmd_remove_param P tr c =
     bindr (as_param (mLogPointer tr)) (\<lambda>po.
       case po of
         Some a \<Rightarrow> bindr (removeParam a (cnf_of c)) (\<lambda>(ok, s').
           Inr (if ok then tr else tr\<lparr>mError := 1\<rparr>, False, set_cnf s' c))
       | None \<Rightarrow> Inr (tr, False, c))"

definition cmd_set_init_val :: "'v plug_env \<Rightarrow> transaction \<Rightarrow> 'v gcore \<Rightarrow> 'v response" where
  "cmd_set_init_val P tr c =
     (if initValueLocked (mSpecifier tr) (cnf_of c) then Inr (tr\<lparr>mError := 2\<rparr>, False, c)
      else bindr (setInitValue (param_env P) (mSpecifier tr) (mValue tr) (cnf_of c))
             (\<lambda>(newAdded, s'). Inr (tr, newAdded, set_cnf s' c)))"

definition cmd_lock_init_val :: "transaction \<Rightarrow> 'v gcore \<Rightarrow> transaction \<times> 'v gcore" where
  "cmd_lock_init_val tr c =
     (case lockInitValue (mSpecifier tr) (cnf_of c) of
        (ok, s') \<Rightarrow> (if ok then tr else tr\<lparr>mError := 1\<rparr>, set_cnf s' c))"

definition cmd_get_val :: "'v plug_env \<Rightarrow> transaction \<Rightarrow> 'v gcore \<Rightarrow> 'v response" where
  "cmd_get_val P tr c =
     (if existsParam (mSpecifier tr) (cnf_of c)
      then bindr (db_getValue (param_env P) (mSpecifier tr) (mAnyPointer tr \<noteq> 0) (cnf_of c))
             (\<lambda>(v, s'). Inr (tr\<lparr>mValue := v\<rparr>, False, set_cnf s' c))
      else Inr (tr\<lparr>mError := 1, mValue := []\<rparr>, False, c))"

definition cmd_get_param :: "transaction \<Rightarrow> 'v gcore \<Rightarrow> transaction" where
  "cmd_get_param tr c =
     (if existsParam (mSpecifier tr) (cnf_of c)
      then tr\<lparr>mLogPointer := (case getParam (mSpecifier tr) (cnf_of c) of None \<Rightarrow> NoLog | Some a \<Rightarrow> LogParam a)\<rparr>
      else tr\<lparr>mError := 1, mLogPointer := NoLog\<rparr>)"

fun unregister_everywhere :: "nat \<Rightarrow> nat \<Rightarrow> string list \<Rightarrow> 'v cnf_state \<Rightarrow> 'v cnf_state res" where
  "unregister_everywhere n obs [] s = Inr s"
| "unregister_everywhere n obs (nm # nms) s =
     bindr (is_explicit nm s) (\<lambda>ex.
       if ex
       then (case getParam nm s of
               None \<Rightarrow> Inl (Undefined ''NULL parameter'')
             | Some a \<Rightarrow> bindr (deref a s) (\<lambda>p. bindr (unregisterParamCallbacks n obs p) (\<lambda>(_, p').
                 unregister_everywhere n obs nms (write_param a p' s))))
       else unregister_everywhere n obs nms s)"

definition plugin_switch :: "'v plug_env \<Rightarrow> transaction \<Rightarrow> 'v gcore \<Rightarrow> 'v response" where
  "plugin_switch P tr c =
     (let cmd = mCmd tr in
      if cmd = CMD_ADD_PARAM then cmd_add_param P tr c
      else if cmd = CMD_REMOVE_PARAM then cmd_remove_param P tr c
      else if cmd = CMD_SET_INIT_VAL then cmd_set_init_val P tr c
      else if cmd = CMD_LOCK_INIT_VAL
      then (case cmd_lock_init_val tr c of (tr', c') \<Rightarrow> Inr (tr', False, c'))
      else if cmd = CMD_GET_VAL then cmd_get_val P tr c
      else if cmd = CMD_GET_PARAM then Inr (cmd_get_param tr c, False, c)
      else if cmd = CMD_EXISTS_PARAM
      then Inr (if existsParam (mSpecifier tr) (cnf_of c) then tr else tr\<lparr>mError := 1\<rparr>, False, c)
      else if cmd = CMD_PARAM_HAS_BEEN_ACCESSED
      then Inr (tr\<lparr>mError := (if db_is_used (mSpecifier tr) (cnf_of c) then 0 else 1)\<rparr>, False, c)
      else if cmd = CMD_GET_PARAM_LIST
      then bindr (list_string (mSpecifier tr) (cnf_of c)) (\<lambda>v. Inr (tr\<lparr>mValue := v\<rparr>, False, c))
      else if cmd = CMD_GET_PARAM_LIST_VEC
      then bindr (list_vec (mSpecifier tr) (cnf_of c)) (\<lambda>v. Inr (tr\<lparr>mLogPointer := LogNames v\<rparr>, False, c))
      else if cmd = CMD_REGISTER_NEW_PARAM_OBSERVER
      then (case registerNewParamObserver (mID tr) (m_observer_db (world c)) of
              (ok, db) \<Rightarrow> Inr (if ok then tr else tr\<lparr>mError := 1\<rparr>, False,
                               c\<lparr>world := (world c)\<lparr>m_observer_db := db\<rparr>\<rparr>))
      else if cmd = CMD_UNREGISTER_PARAM_CALLBACKS
      then bindr (unregister_everywhere (pass_fuel P) (mAnyPointer tr) (getParametersVector (cnf_of c)) (cnf_of c))
             (\<lambda>s'. Inr (tr, False, set_cnf s' c))
      else Inr (tr\<lparr>mError := 1\<rparr>, False, c))"

definition plugin_transport :: "'v plug_env \<Rightarrow> transaction \<times> 'v gcore \<Rightarrow> (transaction \<times> 'v gcore) res" where
  "plugin_transport P s =
     (case s of (tr, c) \<Rightarrow>
        bindr (plugin_switch P tr c) (\<lambda>(tr', notify_new_parameter, c').
          if notify_new_parameter
          then bindr (sendNewParameterNotify P (mLogPointer tr') (mSpecifier tr') (mValue tr') c')
                 (\<lambda>c''. Inr (tr', c''))
          else Inr (tr', c')))"


section \<open>The handler keeps the databases well-formed\<close>

definition plugin_ok :: "'v gcore \<Rightarrow> bool" where
  "plugin_ok c \<longleftrightarrow> db_ok (cnf_of c) \<and> omap_ok (m_observer_db (world c))
     \<and> (\<forall>n as. map_find (m_observer_db (world c)) n = Some as \<longrightarrow> sorted as \<and> distinct as)"

text \<open>Progress of the whole state: of the parameter database, and of the registered observers.\<close>

definition observers :: "'v gcore \<Rightarrow> nat set" where
  "observers c = (case map_find (m_observer_db (world c)) DUMMY_NAME of None \<Rightarrow> {} | Some as \<Rightarrow> set as)"

definition plugin_le :: "'v gcore \<Rightarrow> 'v gcore \<Rightarrow> bool" where
  "plugin_le c c' \<longleftrightarrow> db_le (cnf_of c) (cnf_of c') \<and> observers c \<subseteq> observers c'"

lemma plugin_le_refl [simp]: "plugin_le c c"
  by (simp add: plugin_le_def)

lemma plugin_le_trans: "plugin_le a b \<Longrightarrow> plugin_le b c \<Longrightarrow> plugin_le a c"
  using db_le_trans by (auto simp: plugin_le_def)

text \<open>What the notified APIs and the logger may do to the plugin's state: use it by its operations.\<close>

definition keeps_plugin :: "('v gcnf) gc_env \<Rightarrow> bool" where
  "keeps_plugin E \<longleftrightarrow> (\<forall>a t c t' c'. plugin_ok c
     \<and> (deliver E a (t, c) = Inr (t', c') \<or> log_call E a (t, c) = Inr (t', c')
        \<or> log_return E a (t, c) = Inr (t', c'))
     \<longrightarrow> plugin_ok c' \<and> plugin_le c c')"

lemma keeps_pluginD:
  assumes "keeps_plugin E" and "plugin_ok c"
  shows "deliver E a (t, c) = Inr (t', c') \<Longrightarrow> plugin_ok c' \<and> plugin_le c c'"
    and "log_call E a (t, c) = Inr (t', c') \<Longrightarrow> plugin_ok c' \<and> plugin_le c c'"
    and "log_return E a (t, c) = Inr (t', c') \<Longrightarrow> plugin_ok c' \<and> plugin_le c c'"
  using assms unfolding keeps_plugin_def by blast+

lemma deliver_all_keeps:
  assumes "keeps_plugin E"
  shows "plugin_ok c \<Longrightarrow> deliver_all E as (t, c) = Inr (t', c') \<Longrightarrow> plugin_ok c' \<and> plugin_le c c'"
proof (induction as arbitrary: t c)
  case (Cons a as)
  from Cons.prems(2) obtain t1 c1 where d: "deliver E a (t, c) = Inr (t1, c1)"
    "deliver_all E as (t1, c1) = Inr (t', c')" by (auto simp: bindr_eq_Inr)
  with keeps_pluginD(1) [OF assms Cons.prems(1)] have "plugin_ok c1" "plugin_le c c1" by auto
  with Cons.IH [OF this(1) d(2)] show ?case using plugin_le_trans by blast
qed simp

lemma route_keeps:
  assumes "keeps_plugin E" and "plugin_ok c" and "route E (t, c) = Inr (t', c')"
  shows "plugin_ok c' \<and> plugin_le c c'"
  using assms(2,3) keeps_pluginD(1) [OF assms(1,2)] deliver_all_keeps [OF assms(1,2)]
  by (auto simp: route_def bindr_eq_Inr split: if_splits)

lemma transport_keeps:
  assumes E: "keeps_plugin E" and ok: "plugin_ok c" and r: "transport E t c = Inr (t', c')"
  shows "plugin_ok c' \<and> plugin_le c c'"
proof -
  from r obtain t1 c1 t2 c2 where
    1: "(if m_pLogger c \<noteq> 0 then log_call E (m_pLogger c) (t, c) else Inr (t, c)) = Inr (t1, c1)"
    and 2: "route E (t1, c1) = Inr (t2, c2)"
    and 3: "(if m_pLogger c2 \<noteq> 0 then log_return E (m_pLogger c2) (t2, c2) else Inr (t2, c2)) = Inr (t', c')"
    by (auto simp: transport_def bindr_eq_Inr)
  have c1: "plugin_ok c1" "plugin_le c c1"
    using 1 ok keeps_pluginD(2) [OF E ok] by (auto split: if_splits)
  have c2: "plugin_ok c2" "plugin_le c1 c2" using route_keeps [OF E c1(1) 2] by auto
  have "plugin_ok c'" "plugin_le c2 c'"
    using 3 c2 keeps_pluginD(3) [OF E c2(1)] by (auto split: if_splits)
  with c1 c2 show ?thesis using plugin_le_trans by blast
qed

lemma notify_loop_keeps:
  assumes "keeps_plugin (core_env P)"
  shows "plugin_ok c \<Longrightarrow> notify_loop P par nm v as c = Inr c' \<Longrightarrow> plugin_ok c' \<and> plugin_le c c'"
proof (induction as arbitrary: c)
  case (Cons a as)
  from Cons.prems(2) obtain t1 c1 where d:
    "transport (core_env P) (notify_transaction P par nm v a c) c = Inr (t1, c1)"
    "notify_loop P par nm v as c1 = Inr c'" by (auto simp: bindr_eq_Inr)
  with transport_keeps [OF assms Cons.prems(1)] have "plugin_ok c1" "plugin_le c c1" by auto
  with Cons.IH [OF this(1) d(2)] show ?case using plugin_le_trans by blast
qed simp

lemma dummy_entry_find:
  "map_find (dummy_entry db) n
     = (if n = DUMMY_NAME \<and> map_find db DUMMY_NAME = None then Some [] else map_find db n)"
  by (simp add: dummy_entry_def map_simps)

lemma dummy_entry_ok: "omap_ok db \<Longrightarrow> omap_ok (dummy_entry db)"
  by (simp add: dummy_entry_def omap_ok_insert)

lemma getNewParamObservers_keeps:
  assumes "plugin_ok c" and "getNewParamObservers (m_observer_db (world c)) = (as, db)"
  shows "plugin_ok (c\<lparr>world := (world c)\<lparr>m_observer_db := db\<rparr>\<rparr>)
    \<and> plugin_le c (c\<lparr>world := (world c)\<lparr>m_observer_db := db\<rparr>\<rparr>) \<and> set as = observers c \<and> sorted as \<and> distinct as"
  using assms dummy_entry_find [of "m_observer_db (world c)"]
  by (auto simp: getNewParamObservers_def Let_def plugin_ok_def plugin_le_def observers_def dummy_entry_ok
      split: option.splits if_splits)

lemma sendNewParameterNotify_keeps:
  assumes "keeps_plugin (core_env P)" and "plugin_ok c" and "sendNewParameterNotify P par nm v c = Inr c'"
  shows "plugin_ok c' \<and> plugin_le c c'"
proof -
  obtain as db where g: "getNewParamObservers (m_observer_db (world c)) = (as, db)" by fastforce
  let ?c = "c\<lparr>world := (world c)\<lparr>m_observer_db := db\<rparr>\<rparr>"
  have c: "plugin_ok ?c" "plugin_le c ?c" using getNewParamObservers_keeps [OF assms(2) g] by auto
  have "notify_loop P par nm v as ?c = Inr c'" using assms(3) g by (simp add: sendNewParameterNotify_def)
  with notify_loop_keeps [OF assms(1) c(1)] c(2) show ?thesis using plugin_le_trans by blast
qed


lemma set_cnf_simps [simp]:
  "cnf_of (set_cnf s c) = s" "m_observer_db (world (set_cnf s c)) = m_observer_db (world c)"
  "observers (set_cnf s c) = observers c"
  by (simp_all add: set_cnf_def observers_def)

lemma set_cnf_keeps:
  "plugin_ok c \<Longrightarrow> db_ok s \<and> db_le (cnf_of c) s \<Longrightarrow> plugin_ok (set_cnf s c) \<and> plugin_le c (set_cnf s c)"
  by (simp add: plugin_ok_def plugin_le_def)

lemma db_ok_alloc: "db_ok s \<Longrightarrow> heap s a = None \<Longrightarrow> db_ok (write_param a p s)"
  by (fastforce simp: db_ok_def entry_ok_def)

lemma remove_pass_name [simp]: "m_par_name (snd (remove_pass Q rs p)) = m_par_name p"
  by (induction Q rs p rule: remove_pass.induct)
    (auto simp: conditional_callback_remove_def set_list_def Let_def split: option.splits)

lemma unregisterParamCallbacks_name: "unregisterParamCallbacks n obs p = Inr (b, p') \<Longrightarrow> m_par_name p' = m_par_name p"
proof -
  have "unregister_loop n obs d p = Inr (b, p') \<Longrightarrow> m_par_name p' = m_par_name p" for d
  proof (induction n arbitrary: d p)
    case (Suc n)
    let ?q = "snd (remove_pass (\<lambda>e. a_observer (snd e) = obs) list_types p)"
    have "unregister_loop n obs True ?q = Inr (b, p') \<or> p' = ?q"
      using Suc.prems by (auto simp: case_prod_unfold split: if_splits)
    then show ?case using Suc.IH [of True ?q] by auto
  qed simp
  then show "unregisterParamCallbacks n obs p = Inr (b, p') \<Longrightarrow> m_par_name p' = m_par_name p"
    by (simp add: unregisterParamCallbacks_def)
qed

lemma unregister_everywhere_keeps:
  "db_ok s \<Longrightarrow> unregister_everywhere n obs nms s = Inr s' \<Longrightarrow> db_ok s' \<and> db_le s s'"
proof (induction nms arbitrary: s)
  case (Cons nm nms)
  from Cons.prems(2) obtain ex where ex: "is_explicit nm s = Inr ex" by (auto simp: bindr_eq_Inr)
  show ?case
  proof (cases ex)
    case False
    then show ?thesis using Cons ex by simp
  next
    case True
    then obtain a p b p' where a: "heap s a = Some p" "unregisterParamCallbacks n obs p = Inr (b, p')"
      "unregister_everywhere n obs nms (write_param a p' s) = Inr s'"
      using Cons.prems(2) ex by (auto simp: bindr_eq_Inr split: option.splits)
    have "db_ok (write_param a p' s)"
      using db_ok_write [OF Cons.prems(1) a(1)] unregisterParamCallbacks_name [OF a(2)] by simp
    from Cons.IH [OF this a(3)] show ?thesis using db_le_trans db_le_write by blast
  qed
qed simp

lemma cmd_add_param_keeps:
  assumes "name_keeping (param_env P)" and "heap (cnf_of c) (new_param_addr P (cnf_of c)) = None"
    and "plugin_ok c" and "cmd_add_param P tr c = Inr (tr', b, c')"
  shows "plugin_ok c' \<and> plugin_le c c'"
proof -
  from assms(4) obtain a s ok s' where s: "db_ok s" "db_le (cnf_of c) s"
    and add: "Config_Database.addParam (param_env P) a s = Inr (ok, s')" and c': "c' = set_cnf s' c"
  proof -
    from assms(4) obtain po where po: "as_param (mLogPointer tr) = Inr po"
      by (auto simp: cmd_add_param_def bindr_eq_Inr)
    have ok: "db_ok (cnf_of c)" using assms(3) by (simp add: plugin_ok_def)
    show thesis
    proof (cases po)
      case None
      then show ?thesis
        using assms(4) po that [OF db_ok_alloc [OF ok assms(2)] db_le_write]
        by (auto simp: cmd_add_param_def bindr_eq_Inr split: if_splits)
    next
      case (Some a)
      then show ?thesis using assms(4) po that [OF ok db_le_refl]
        by (auto simp: cmd_add_param_def bindr_eq_Inr split: if_splits)
    qed
  qed
  have "db_ok s'" "db_le s s'" using addParam_step [OF assms(1) s(1) add] by auto
  then show ?thesis using set_cnf_keeps [OF assms(3)] s(2) db_le_trans c' by blast
qed

lemma registerNewParamObserver_keeps:
  assumes "plugin_ok c" and "registerNewParamObserver a (m_observer_db (world c)) = (b, db)"
  shows "plugin_ok (c\<lparr>world := (world c)\<lparr>m_observer_db := db\<rparr>\<rparr>)
    \<and> plugin_le c (c\<lparr>world := (world c)\<lparr>m_observer_db := db\<rparr>\<rparr>)
    \<and> observers (c\<lparr>world := (world c)\<lparr>m_observer_db := db\<rparr>\<rparr>) = insert a (observers c)
    \<and> b = (a \<notin> observers c)"
  using assms dummy_entry_find [of "m_observer_db (world c)"]
  by (auto simp: registerNewParamObserver_def Let_def plugin_ok_def plugin_le_def observers_def
      set_insert_def dummy_entry_ok map_simps set_insort_key sorted_insort distinct_insort
      intro!: omap_ok_adjust split: option.splits if_splits)

lemma plugin_switch_keeps:
  assumes E: "name_keeping (param_env P)" and fresh: "heap (cnf_of c) (new_param_addr P (cnf_of c)) = None"
    and ok: "plugin_ok c" and r: "plugin_switch P tr c = Inr (tr', b, c')"
  shows "plugin_ok c' \<and> plugin_le c c'"
proof -
  have db: "db_ok (cnf_of c)" using ok by (simp add: plugin_ok_def)
  have 1: "plugin_ok c' \<and> plugin_le c c'" if "cmd_add_param P tr c = Inr (tr', b, c')"
    using cmd_add_param_keeps [OF E fresh ok that] .
  have 2: "plugin_ok c' \<and> plugin_le c c'" if "cmd_remove_param P tr c = Inr (tr', b, c')"
    using that set_cnf_keeps [OF ok] removeParam_step [OF db] ok
    by (auto simp: cmd_remove_param_def bindr_eq_Inr split: option.splits)
  have 3: "plugin_ok c' \<and> plugin_le c c'" if "cmd_set_init_val P tr c = Inr (tr', b, c')"
    using that set_cnf_keeps [OF ok] setInitValue_step [OF E db] ok
    by (auto simp: cmd_set_init_val_def bindr_eq_Inr split: if_splits)
  have 4: "plugin_ok c' \<and> plugin_le c c'" if "cmd_lock_init_val tr c = (tr', c')"
    using that set_cnf_keeps [OF ok] lockInitValue_step [OF db, of "mSpecifier tr"]
    by (auto simp: cmd_lock_init_val_def case_prod_unfold)
  have 5: "plugin_ok c' \<and> plugin_le c c'" if "cmd_get_val P tr c = Inr (tr', b, c')"
    using that set_cnf_keeps [OF ok] db_getValue_step [OF E db] ok
    by (auto simp: cmd_get_val_def bindr_eq_Inr split: if_splits)
  have 6: "plugin_ok (set_cnf s' c) \<and> plugin_le c (set_cnf s' c)"
    if "unregister_everywhere n obs nms (cnf_of c) = Inr s'" for n obs nms s'
    using unregister_everywhere_keeps [OF db that] set_cnf_keeps [OF ok] by blast
  have 7: "plugin_ok (c\<lparr>world := (world c)\<lparr>m_observer_db := snd (registerNewParamObserver a (m_observer_db (world c)))\<rparr>\<rparr>)
      \<and> plugin_le c (c\<lparr>world := (world c)\<lparr>m_observer_db := snd (registerNewParamObserver a (m_observer_db (world c)))\<rparr>\<rparr>)" for a
    using registerNewParamObserver_keeps [OF ok, of a]
    by (cases "registerNewParamObserver a (m_observer_db (world c))") auto
  show ?thesis
    using r 1 2 3 4 5 6 7 ok
    by (auto simp: plugin_switch_def Let_def bindr_eq_Inr case_prod_unfold split: if_splits prod.splits)
qed


section \<open>The filters\<close>

lemma rfind_char_last: "rfind_opt [c] n = Some i \<longleftrightarrow> i < length n \<and> n ! i = c \<and> c \<notin> set (drop (Suc i) n)"
proof (induction n arbitrary: i)
  case (Cons x n)
  have none: "rfind_opt [c] n = None \<longleftrightarrow> c \<notin> set n"
    by (induction n) (auto split: option.splits)
  show ?case
  proof (cases i)
    case 0
    then show ?thesis using none by (auto split: option.splits)
  next
    case (Suc j)
    then show ?thesis using Cons.IH [of j] none by (auto split: option.splits)
  qed
qed simp

lemma last_delimiter_within:
  assumes "m < npos" and "length n < npos"
  shows "find_last_of c n \<le> m \<longleftrightarrow> c \<in> set n \<and> c \<notin> set (drop (Suc m) n)"
proof (cases "rfind_opt [c] n")
  case None
  then have "c \<notin> set n" by (induction n) (auto split: option.splits if_splits)
  then show ?thesis using assms None by (simp add: find_last_of_def str_rfind_def pos_of_def)
next
  case (Some i)
  then have i: "i < length n" "n ! i = c" "c \<notin> set (drop (Suc i) n)" by (simp_all add: rfind_char_last)
  then have "c \<in> set n" by auto
  moreover have "i \<le> m \<longleftrightarrow> c \<notin> set (drop (Suc m) n)"
  proof
    assume "i \<le> m"
    then have "drop (Suc m) n = drop (m - i) (drop (Suc i) n)" by simp
    then show "c \<notin> set (drop (Suc m) n)" using i(3) by (metis in_set_dropD)
  next
    assume m: "c \<notin> set (drop (Suc m) n)"
    show "i \<le> m"
    proof (rule ccontr)
      assume "\<not> i \<le> m"
      then have "drop (Suc m) n ! (i - Suc m) = c" "i - Suc m < length (drop (Suc m) n)" using i by auto
      then show False using m nth_mem by metis
    qed
  qed
  ultimately show ?thesis using Some by (simp add: find_last_of_def str_rfind_def pos_of_def)
qed

lemma ends_with_test:
  assumes "length n + 1 < npos" and "length nm < npos"
  shows "size_sub (length n) (str_rfind nm n) = length nm
    \<longleftrightarrow> suffix nm n \<or> (\<not> sublist nm n \<and> length nm = Suc (length n))"
proof (cases "rfind_opt nm n")
  case None
  then have no: "\<not> sublist nm n" by (simp add: rfind_opt_None)
  then have "\<not> suffix nm n" by (auto simp: suffix_def)
  then show ?thesis using assms None no
    by (auto simp: str_rfind_def pos_of_def size_sub_npos)
next
  case (Some i)
  then have sub: "sublist nm n" using rfind_opt_None [of nm n] by auto
  have "i \<le> length n" using rfind_opt_SomeD [OF Some] by simp
  then have sz: "size_sub (length n) (str_rfind nm n) = length n - i"
    using assms(1) Some by (simp add: str_rfind_def pos_of_def size_sub_le npos_def)
  have "length n - i = length nm \<longleftrightarrow> suffix nm n"
  proof
    assume "length n - i = length nm"
    then show "suffix nm n" by (rule rfind_len_suffix [OF Some])
  next
    assume suf: "suffix nm n"
    then have "i = length n - length nm" "length nm \<le> length n"
      using rfind_suffix [OF suf] Some by (auto dest: suffix_length_le)
    then show "length n - i = length nm" by simp
  qed
  with sz sub show ?thesis by simp
qed

definition short_names :: "'v cnf_state \<Rightarrow> bool" where
  "short_names s \<longleftrightarrow> (\<forall>n \<in> set (getParametersVector s). length n + 1 < npos)"

lemma star_mod_append:
  assumes "length md < 2 ^ 64 - 4"
  shows "str_find ''.*'' (md @ ''.*'') \<noteq> npos \<and> star_mod (md @ ''.*'') = Inr md"
proof -
  have "str_find ''.*'' (md @ ''.*'') \<noteq> npos"
    using assms by (subst str_find_npos) (simp_all add: npos_def)
  moreover from this have "star_mod (md @ ''.*'') = Inr (take (size_sub (size_sub (length md + 2) 1) 1) (md @ ''.*''))"
    by (simp add: star_mod_def Let_def substr_def)
  moreover have "size_sub (size_sub (length md + 2) 1) 1 = length md"
    using assms by (simp add: size_sub_le)
  ultimately show ?thesis by simp
qed

section \<open>Properties\<close>

text \<open>C22. Every transaction the plugin handles, whatever its command and contents, keeps the
  parameter and observer databases well-formed, loses no parameter, lock or observer, and unsets
  no flag; provided that the notified observers, the logger and the parameter callbacks do so.\<close>

theorem plugin_transport_invariant:
  assumes "name_keeping (param_env P)" and "heap (cnf_of c) (new_param_addr P (cnf_of c)) = None"
    and "keeps_plugin (core_env P)" and "plugin_ok c" and "plugin_transport P (tr, c) = Inr (tr', c')"
  shows "plugin_ok c' \<and> plugin_le c c'"
proof -
  from assms(5) obtain tr1 b c1 where s: "plugin_switch P tr c = Inr (tr1, b, c1)"
    and rest: "b \<Longrightarrow> sendNewParameterNotify P (mLogPointer tr1) (mSpecifier tr1) (mValue tr1) c1 = Inr c'"
      "\<not> b \<Longrightarrow> c' = c1"
    by (auto simp: plugin_transport_def bindr_eq_Inr split: if_splits)
  have c1: "plugin_ok c1" "plugin_le c c1" using plugin_switch_keeps [OF assms(1,2,4) s] by auto
  show ?thesis
  proof (cases b)
    case True
    then show ?thesis using sendNewParameterNotify_keeps [OF assms(3) c1(1) rest(1)] c1(2) plugin_le_trans
      by blast
  qed (use rest c1 in simp)
qed

definition quiet_core_env :: "(nat gcnf) gc_env" where
  "quiet_core_env = \<lparr>is_initialize_if = (\<lambda>_. False), is_logger_if = (\<lambda>_. False), deliver = (\<lambda>_ s. Inr s),
     log_call = (\<lambda>_ s. Inr s), log_return = (\<lambda>_ s. Inr s), init_call = (\<lambda>_ _ c. Inr c), init_fuel = 5\<rparr>"

definition sample_plug :: "nat plug_env" where
  "sample_plug = \<lparr>param_env = sample_env, core_env = quiet_core_env, new_param_addr = (\<lambda>_. 50),
     string_value = length, anon_name = ''no_name_0'', pooled = (\<lambda>_. new_transaction 0 0),
     plugin_addr = 7, pass_fuel = 10\<rparr>"

definition sample_core :: "nat gcore" where
  "sample_core = \<lparr>m_AddressMap = \<lparr>m_address_service_map = [(3, CONFIG_SERVICE), (7, CONFIG_SERVICE)],
       m_service_address_map = [(CONFIG_SERVICE, 7)],
       m_address_name_map = [(3, ''GCnf_Api''), (7, ''ConfigPlugin'')]\<rparr>,
     m_pLogger = 0, initVec = [], services = initial_service_ids,
     world = \<lparr>cnf = sample_cnf, m_observer_db = [(DUMMY_NAME, [3])]\<rparr>\<rparr>"

lemma sample_plugin_ok: "plugin_ok sample_core" "keeps_plugin (core_env sample_plug)"
    "name_keeping (param_env sample_plug)" "heap (cnf_of sample_core) (new_param_addr sample_plug (cnf_of sample_core)) = None"
  by (simp_all add: plugin_ok_def sample_core_def sample_cnf_def db_ok_def omap_ok_def keeps_plugin_def
      sample_plug_def quiet_core_env_def observing_name_keeping sample_observing)

lemma plugin_transport_invariant_witness:
  "\<exists>tr' c'. plugin_transport sample_plug
      ((new_transaction 0 0)\<lparr>mCmd := CMD_SET_INIT_VAL, mSpecifier := ''m.p'', mValue := ''abc''\<rparr>, sample_core)
      = Inr (tr', c') \<and> plugin_ok c' \<and> plugin_le sample_core c' \<and> existsParam ''m.p'' (cnf_of c')"
proof -
  let ?tr = "(new_transaction 0 0)\<lparr>mCmd := CMD_SET_INIT_VAL, mSpecifier := ''m.p'', mValue := ''abc''\<rparr>"
  have "case plugin_transport sample_plug (?tr, sample_core) of Inl _ \<Rightarrow> False
      | Inr (_, c') \<Rightarrow> existsParam ''m.p'' (cnf_of c')"
    by code_simp
  then obtain tr' c' where r: "plugin_transport sample_plug (?tr, sample_core) = Inr (tr', c')"
    "existsParam ''m.p'' (cnf_of c')"
    by (auto split: sum.splits)
  with plugin_transport_invariant [OF sample_plugin_ok(3,4,2,1) r(1)] show ?thesis by blast
qed

text \<open>Once the plugin has confirmed a lock of an initial value, and whatever database calls follow,
  a transaction that sets this initial value is answered with error 2 and changes nothing.\<close>

theorem plugin_refuses_locked:
  assumes "name_keeping (param_env P)" and "plugin_ok c"
    and "mCmd tr = CMD_LOCK_INIT_VAL" and "mError tr = 0"
    and "plugin_transport P (tr, c) = Inr (tr1, c1)" and "mError tr1 = 0"
    and "db_run (param_env P) cs (cnf_of c1) = Inr s2"
    and "mCmd tr2 = CMD_SET_INIT_VAL" and "mSpecifier tr2 = mSpecifier tr"
  shows "plugin_transport P (tr2, set_cnf s2 c1) = Inr (tr2\<lparr>mError := 2\<rparr>, set_cnf s2 c1)"
proof -
  let ?n = "mSpecifier tr"
  have "cmd_lock_init_val tr c = (tr1, c1)"
    using assms(3,5) by (auto simp: plugin_transport_def plugin_switch_def split: prod.splits)
  then have ok: "fst (lockInitValue ?n (cnf_of c))" and c1: "c1 = set_cnf (snd (lockInitValue ?n (cnf_of c))) c"
    using assms(4,6) by (auto simp: cmd_lock_init_val_def split: prod.splits if_splits)
  have "initValueLocked ?n (cnf_of c1)" using ok c1 cdb.lock_locked [where n = ?n and m = ?n and s = "cnf_of c"] by simp
  then obtain e where e: "db_find (cnf_of c1) ?n = Some e" "init_value_locked e"
    by (auto simp: initValueLocked_def split: option.splits)
  have "db_ok (cnf_of c)" using assms(2) by (simp add: plugin_ok_def)
  from lockInitValue_step [OF this, of ?n] have "db_ok (cnf_of c1)" using c1 by simp
  then have "db_le (cnf_of c1) s2" using db_run_keeps [OF assms(1)] assms(7) by blast
  then obtain e' where "db_find s2 ?n = Some e'" "init_value_locked e'"
    using e by (auto simp: db_le_def entry_le_def)
  then have "initValueLocked ?n s2" by (simp add: initValueLocked_def)
  then show ?thesis using assms(8,9)
    by (simp add: plugin_transport_def plugin_switch_def Let_def cmd_set_init_val_def)
qed

definition sample_set :: transaction where
  "sample_set = (new_transaction 0 0)\<lparr>mCmd := CMD_SET_INIT_VAL, mSpecifier := ''m.p'', mValue := ''abc''\<rparr>"

definition sample_lock :: transaction where
  "sample_lock = sample_set\<lparr>mCmd := CMD_LOCK_INIT_VAL\<rparr>"

definition locked_core :: "nat gcore" where
  "locked_core = set_cnf (sample_cnf\<lparr>m_parameter_database :=
     [(''m.p'', (new_implicit ''abc'')\<lparr>init_value_locked := True\<rparr>)]\<rparr>) sample_core"

lemma plugin_refuses_locked_witness:
  "plugin_transport sample_plug (sample_set\<lparr>mValue := ''new''\<rparr>, locked_core)
     = Inr (sample_set\<lparr>mValue := ''new'', mError := 2\<rparr>, locked_core)"
proof -
  let ?c = "set_cnf (sample_cnf\<lparr>m_parameter_database := [(''m.p'', new_implicit ''abc'')]\<rparr>) sample_core"
  have ok: "plugin_ok ?c"
    by (auto simp: plugin_ok_def sample_core_def set_cnf_def sample_cnf_def db_ok_def omap_ok_def
        entry_ok_def new_implicit_def split: if_splits)
  have lock: "plugin_transport sample_plug (sample_lock, ?c) = Inr (sample_lock, locked_core)"
    by (simp add: plugin_transport_def plugin_switch_def cmd_lock_init_val_def lockInitValue_def
        locked_core_def sample_lock_def sample_set_def new_implicit_def set_cnf_def update_entry_def
        new_transaction_def Let_def)
  have run: "db_run (param_env sample_plug) [] (cnf_of locked_core) = Inr (cnf_of locked_core)" by simp
  have same: "set_cnf (cnf_of locked_core) locked_core = locked_core" by (simp add: set_cnf_def)
  show ?thesis
    using plugin_refuses_locked [OF sample_plugin_ok(3) ok _ _ lock _ run, of "sample_set\<lparr>mValue := ''new''\<rparr>"] same
    by (simp add: sample_lock_def sample_set_def new_transaction_def)
qed

text \<open>The list command with a module name and ".*" returns, in order, all names with that
  prefix: those of the module and its children, and also those of modules whose name merely
  starts with it. With the module name alone it returns the names with that prefix whose last
  delimiter lies within the prefix or just after it: "a.bc" is listed for the module "a.b".\<close>

theorem parameter_list_of_module:
  assumes "length md < 2 ^ 64 - 4" and "short_names s"
    and "md \<noteq> []" and "\<not> sublist ''.*'' md" and "\<not> prefix ''*.'' md"
  shows "list_vec (md @ ''.*'') s = Inr (filter (prefix md) (getParametersVector s))
    \<and> list_vec md s = Inr (filter (\<lambda>n. prefix md n \<and> SC_NAME_DELIMITER \<in> set n
          \<and> SC_NAME_DELIMITER \<notin> set (drop (Suc (length md)) n)) (getParametersVector s))"
proof -
  have "find_last_of SC_NAME_DELIMITER n \<le> length md \<longleftrightarrow>
      SC_NAME_DELIMITER \<in> set n \<and> SC_NAME_DELIMITER \<notin> set (drop (Suc (length md)) n)"
    if "n \<in> set (getParametersVector s)" for n
    using that assms(1,2) by (intro last_delimiter_within) (auto simp: short_names_def npos_def)
  then have "without_children md (getParametersVector s) = filter (\<lambda>n. prefix md n \<and> SC_NAME_DELIMITER \<in> set n
      \<and> SC_NAME_DELIMITER \<notin> set (drop (Suc (length md)) n)) (getParametersVector s)"
    unfolding without_children_def by (intro filter_cong) (simp_all add: str_find_0)
  moreover have "str_find ''.*'' md = npos"
    using assms(1,4) by (subst str_find_npos) (simp_all add: npos_def)
  moreover have "str_find ''*.'' md \<noteq> 0" using assms(5) by (simp add: str_find_0)
  ultimately show ?thesis
    using star_mod_append [OF assms(1)] assms(3)
    by (simp add: list_vec_def with_children_def str_find_0)
qed

definition db_names :: "string list \<Rightarrow> nat cnf_state" where
  "db_names ns = sample_cnf\<lparr>m_parameter_database := map (\<lambda>n. (n, new_implicit [])) ns\<rparr>"

lemma db_names_list: "getParametersVector (db_names ns) = ns"
  by (simp add: getParametersVector_def db_names_def o_def)

lemma parameter_list_of_module_witness:
  "list_vec ''a.b'' (db_names [''a.b.c.p'', ''a.b.p'', ''a.bc'', ''a.bc.p'', ''a.d'']) = Inr [''a.b.p'', ''a.bc'']
   \<and> list_vec ''a.b.*'' (db_names [''a.b.c.p'', ''a.b.p'', ''a.bc'', ''a.bc.p'', ''a.d''])
       = Inr [''a.b.c.p'', ''a.b.p'', ''a.bc'', ''a.bc.p'']"
proof -
  have "short_names (db_names [''a.b.c.p'', ''a.b.p'', ''a.bc'', ''a.bc.p'', ''a.d''])"
    by (simp add: short_names_def db_names_list npos_def)
  from parameter_list_of_module [OF _ this, of "''a.b''"]
  show ?thesis by (simp add: db_names_list sublist_Cons_right)
qed

text \<open>The list command "*.name" returns every parameter whose name ends with "name", whether or
  not a delimiter precedes it, and besides every parameter that is one character shorter than
  "name" and does not contain it: for those the position of the failed search, subtracted from
  the length, wraps around to the length compared with.\<close>

theorem parameter_list_by_name:
  assumes "length nm < 2 ^ 64 - 4" and "short_names s" and "\<not> sublist ''.*'' (''*.'' @ nm)"
  shows "list_vec (''*.'' @ nm) s = Inr (filter (\<lambda>n. suffix nm n
      \<or> (\<not> sublist nm n \<and> length nm = Suc (length n))) (getParametersVector s))"
proof -
  have "size_sub (length n) (str_rfind nm n) = length nm
      \<longleftrightarrow> suffix nm n \<or> (\<not> sublist nm n \<and> length nm = Suc (length n))"
    if "n \<in> set (getParametersVector s)" for n
    using that assms(1,2) by (intro ends_with_test) (auto simp: short_names_def npos_def)
  then have "named_everywhere nm (getParametersVector s) = filter (\<lambda>n. suffix nm n
      \<or> (\<not> sublist nm n \<and> length nm = Suc (length n))) (getParametersVector s)"
    unfolding named_everywhere_def by (intro filter_cong) simp_all
  moreover have "str_find ''.*'' (''*.'' @ nm) = npos"
    using assms(1,3) by (subst str_find_npos) (simp_all add: npos_def)
  moreover have "str_find ''*.'' (''*.'' @ nm) = 0" by (simp add: str_find_0)
  ultimately show ?thesis using assms(1) by (simp add: list_vec_def substr_def npos_def)
qed

lemma parameter_list_by_name_witness:
  "list_vec ''*.par'' (db_names [''m.mypar'', ''m.par'', ''xy'', ''z'']) = Inr [''m.mypar'', ''m.par'', ''xy'']"
proof -
  have "short_names (db_names [''m.mypar'', ''m.par'', ''xy'', ''z''])"
    by (simp add: short_names_def db_names_list npos_def)
  from parameter_list_by_name [OF _ this, of "''par''"]
  show ?thesis by (simp add: db_names_list sublist_Cons_right suffix_def Cons_eq_append_conv)
qed

end
