(* ===== verification/Config_Api.thy ===== *)
theory Config_Api
  imports Config_Plugin
begin

text \<open>
  The configuration API (\<^verbatim>\<open>gcnf/apis/GCnf_Api/GCnf_Api_t.h\<close>): the choice of the API instance
  for a module, the methods that build a transaction, send it and read the answer, and the
  callbacks for new parameters. What \<^verbatim>\<open>m_gc_port->transport\<close> does is the field \<open>send\<close> of the
  environment, so the methods are stated for every configuration service; the last section
  connects them to the plugin through the core.
\<close>

section \<open>The instances\<close>

text \<open>
  The static state of \<^verbatim>\<open>handleApiInstances\<close>: the private APIs by the name of their owner, the
  default API, and the API of each module (a pointer). Addresses of APIs are numbers; the address
  that \<^verbatim>\<open>new\<close> returns is an argument.
\<close>

record api_instances =
  mPrivInstanceMap :: "(string, nat) omap"
  mDefApi :: "nat option"
  m_module_api_map :: "(nat, nat) omap"
  initialize_mode :: bool

text \<open>\<^verbatim>\<open>find_last_of(c, pos)\<close>: the last occurrence at or before a position.\<close>

definition find_last_of_upto :: "char \<Rightarrow> string \<Rightarrow> nat \<Rightarrow> nat" where
  "find_last_of_upto c s p = find_last_of c (take (p + 1) s)"

text \<open>
  The search for a private API: the hierarchical name is shortened at its last delimiter until a
  name in the map is met. Each round starts strictly before the previous one; the loop ends at
  length 0 or \<^verbatim>\<open>npos\<close>.
\<close>

function private_search :: "(string, nat) omap \<Rightarrow> string \<Rightarrow> nat \<Rightarrow> nat option" where
  "private_search m mod_name len =
     (if 0 < len \<and> len < npos
      then (case map_find m (take len mod_name) of
              Some a \<Rightarrow> Some a
            | None \<Rightarrow> private_search m mod_name (find_last_of_upto SC_NAME_DELIMITER mod_name (len - 1)))
      else None)"
  by pat_completeness auto

lemma find_last_of_upto_bound:
  "find_last_of_upto c s (len - 1) < len \<or> find_last_of_upto c s (len - 1) = npos" if "0 < len"
proof (cases "rfind_opt [c] (take len s)")
  case (Some i)
  then have "i < length (take len s)" by (simp only: rfind_char_last)
  then show ?thesis using that Some by (simp add: find_last_of_upto_def find_last_of_def str_rfind_def pos_of_def)
qed (use that in \<open>simp add: find_last_of_upto_def find_last_of_def str_rfind_def pos_of_def\<close>)

termination private_search
proof (relation "measure (\<lambda>(_, _, len). if len < npos then len else 0)", goal_cases)
  case (2 m mod_name len)
  then show ?case using find_last_of_upto_bound [of len SC_NAME_DELIMITER mod_name] by (auto simp del: One_nat_def)
qed simp

declare private_search.simps [simp del]

definition handleApiInstances ::
  "nat \<Rightarrow> nat \<Rightarrow> (nat \<times> string) option \<Rightarrow> (string \<times> nat) option \<Rightarrow> api_instances
     \<Rightarrow> (nat option \<times> api_instances) res" where
  "handleApiInstances def_api new_api mod_to_get privApi g =
     (if \<not> initialize_mode g \<and> mDefApi g = None
      then Inl (ScError ''The default GCnf_Api has not been created before end_of_elaboration!'')
      else
        let g1 = (if mDefApi g = None then g\<lparr>mDefApi := Some def_api\<rparr> else g) in
        case privApi of
          Some (owner, a) \<Rightarrow>
            (case map_insert owner a (mPrivInstanceMap g1) of (m, ok) \<Rightarrow>
               if ok then Inr (Some a, g1\<lparr>mPrivInstanceMap := m\<rparr>)
               else Inl (ScError ''There is already existing a private API for this owner!''))
        | None \<Rightarrow>
            (case mod_to_get of
               None \<Rightarrow> Inr (mDefApi g1, g1)
             | Some (md, name) \<Rightarrow>
                 (case private_search (mPrivInstanceMap g1) name (length name) of
                    Some a \<Rightarrow> Inr (Some a, g1)
                  | None \<Rightarrow>
                      (case map_find (m_module_api_map g1) md of
                         Some a \<Rightarrow> Inr (Some a, g1)
                       | None \<Rightarrow>
                           if initialize_mode g1
                           then Inr (Some new_api,
                                  g1\<lparr>m_module_api_map := fst (map_insert md new_api (m_module_api_map g1))\<rparr>)
                           else Inr (mDefApi g1, g1)))))"


text \<open>The names under which a private API is responsible for a module: its own and its parents'.\<close>

definition hier_parent :: "string \<Rightarrow> string \<Rightarrow> bool" where
  "hier_parent owner name \<longleftrightarrow>
     owner \<noteq> [] \<and> (owner = name \<or> (\<exists>r. name = owner @ SC_NAME_DELIMITER # r))"

definition cut_points :: "string \<Rightarrow> nat \<Rightarrow> nat set" where
  "cut_points s len = {l. 0 < l \<and> (l = len \<or> (l < len \<and> s ! l = SC_NAME_DELIMITER))}"

lemma upto_cases:
  assumes "0 < len" and "len \<le> length s" and "len < npos"
  shows "(find_last_of_upto c s (len - 1) = npos \<and> (\<forall>l < len. s ! l \<noteq> c))
    \<or> (find_last_of_upto c s (len - 1) < len \<and> s ! find_last_of_upto c s (len - 1) = c
        \<and> (\<forall>l < len. find_last_of_upto c s (len - 1) < l \<longrightarrow> s ! l \<noteq> c))"
proof (cases "rfind_opt [c] (take len s)")
  case None
  then have "\<not> sublist [c] (take len s)" by (simp add: rfind_opt_None)
  then have "c \<notin> set (take len s)"
    by (metis append_Cons append_Nil in_set_conv_decomp sublist_appendI)
  then have "\<forall>l < len. s ! l \<noteq> c" using assms(2) by (auto simp: in_set_conv_nth)
  then show ?thesis using assms None
    by (simp add: find_last_of_upto_def find_last_of_def str_rfind_def pos_of_def)
next
  case (Some i)
  then have i: "i < len" "s ! i = c" "c \<notin> set (drop (Suc i) (take len s))"
    using assms(2) by (auto simp only: rfind_char_last length_take nth_take min_less_iff_conj)
  have "s ! l \<noteq> c" if "i < l" "l < len" for l
  proof -
    have "s ! l = drop (Suc i) (take len s) ! (l - Suc i)" "l - Suc i < length (drop (Suc i) (take len s))"
      using that assms(2) by auto
    then show ?thesis using i(3) nth_mem by metis
  qed
  then show ?thesis using i(1,2) Some assms(1)
    by (simp add: find_last_of_upto_def find_last_of_def str_rfind_def pos_of_def)
qed

lemma private_search_cuts:
  assumes "len \<le> length s" and "len < npos"
  shows "case private_search m s len of
      Some a \<Rightarrow> \<exists>l \<in> cut_points s len. map_find m (take l s) = Some a
        \<and> (\<forall>k \<in> cut_points s len. l < k \<longrightarrow> map_find m (take k s) = None)
    | None \<Rightarrow> \<forall>l \<in> cut_points s len. map_find m (take l s) = None"
  using assms
proof (induction len rule: less_induct)
  case (less len)
  let ?next = "find_last_of_upto SC_NAME_DELIMITER s (len - 1)"
  show ?case
  proof (cases "len = 0")
    case True
    then show ?thesis by (subst private_search.simps) (simp add: cut_points_def)
  next
    case False
    then have len: "0 < len" by simp
    have unfold: "private_search m s len = (case map_find m (take len s) of Some a \<Rightarrow> Some a
        | None \<Rightarrow> private_search m s ?next)"
      using len less.prems by (subst private_search.simps) simp
    have top: "len \<in> cut_points s len" using len by (simp add: cut_points_def)
    have below: "k \<le> len" if "k \<in> cut_points s len" for k using that by (auto simp: cut_points_def)
    show ?thesis
    proof (cases "map_find m (take len s)")
      case (Some a)
      then show ?thesis using unfold top below by force
    next
      case None
      show ?thesis
      proof (cases "?next = npos")
        case True
        then have "\<forall>l < len. s ! l \<noteq> SC_NAME_DELIMITER"
          using upto_cases [OF len less.prems, of SC_NAME_DELIMITER] less.prems(2) by auto
        then have "cut_points s len = {len}" using len by (auto simp: cut_points_def)
        moreover have "private_search m s npos = None" by (subst private_search.simps) simp
        ultimately show ?thesis using unfold None True by simp
      next
        case False
        then have nx: "?next < len" "s ! ?next = SC_NAME_DELIMITER"
            "\<forall>l < len. ?next < l \<longrightarrow> s ! l \<noteq> SC_NAME_DELIMITER"
          using upto_cases [OF len less.prems, of SC_NAME_DELIMITER] by auto
        have cuts: "cut_points s len = insert len (cut_points s ?next)"
          using nx len by (auto simp: cut_points_def)
        have "case private_search m s ?next of
            Some a \<Rightarrow> \<exists>l \<in> cut_points s ?next. map_find m (take l s) = Some a
              \<and> (\<forall>k \<in> cut_points s ?next. l < k \<longrightarrow> map_find m (take k s) = None)
          | None \<Rightarrow> \<forall>l \<in> cut_points s ?next. map_find m (take l s) = None"
          using less.IH [OF nx(1)] less.prems nx(1) by auto
        then show ?thesis using unfold None cuts by (auto split: option.splits)
      qed
    qed
  qed
qed

lemma hier_parent_cut:
  "hier_parent owner s \<longleftrightarrow> length owner \<in> cut_points s (length s) \<and> owner = take (length owner) s"
proof
  assume "hier_parent owner s"
  then show "length owner \<in> cut_points s (length s) \<and> owner = take (length owner) s"
    by (auto simp: hier_parent_def cut_points_def nth_append)
next
  assume a: "length owner \<in> cut_points s (length s) \<and> owner = take (length owner) s"
  show "hier_parent owner s"
  proof (cases "length owner = length s")
    case True
    then show ?thesis using a by (auto simp: hier_parent_def cut_points_def)
  next
    case False
    then have "length owner < length s" "s ! length owner = SC_NAME_DELIMITER" "owner \<noteq> []"
      using a by (auto simp: cut_points_def)
    then have "s = take (length owner) s @ SC_NAME_DELIMITER # drop (Suc (length owner)) s"
      by (metis id_take_nth_drop)
    then show ?thesis using a \<open>owner \<noteq> []\<close> unfolding hier_parent_def by metis
  qed
qed

text \<open>The search for a private API picks the most specific owner: the result is the API
  registered for the module's own name or for the longest of its hierarchical parents that has
  one, and nothing if none has one. In particular a module whose name merely starts with the
  name of an owner is not taken over.\<close>

theorem private_api_longest_match:
  assumes "length name < npos"
  shows "case private_search m name (length name) of
      Some a \<Rightarrow> \<exists>owner. hier_parent owner name \<and> map_find m owner = Some a
        \<and> (\<forall>other. hier_parent other name \<and> length owner < length other \<longrightarrow> map_find m other = None)
    | None \<Rightarrow> \<forall>owner. hier_parent owner name \<longrightarrow> map_find m owner = None"
proof -
  have cut: "hier_parent (take l name) name \<and> length (take l name) = l" if "l \<in> cut_points name (length name)" for l
    using that by (auto simp: hier_parent_cut cut_points_def)
  from private_search_cuts [OF order_refl assms, of m] show ?thesis
  proof (cases "private_search m name (length name)")
    case None
    with private_search_cuts [OF order_refl assms, of m] show ?thesis
      by (simp add: hier_parent_cut) metis
  next
    case (Some a)
    with private_search_cuts [OF order_refl assms, of m] obtain l where
      l: "l \<in> cut_points name (length name)" "map_find m (take l name) = Some a"
        "\<forall>k \<in> cut_points name (length name). l < k \<longrightarrow> map_find m (take k name) = None" by auto
    have "map_find m other = None" if "hier_parent other name" "length (take l name) < length other" for other
      using that l(3) cut [OF l(1)] by (metis hier_parent_cut)
    with l(2) cut [OF l(1)] Some show ?thesis by auto
  qed
qed

lemma private_api_longest_match_witness:
  "private_search [(''top'', 1), (''top.a'', 2)] ''top.a.b'' 7 = Some 2
    \<and> (\<exists>owner. hier_parent owner ''top.a.b'' \<and> map_find [(''top'', 1), (''top.a'', 2)] owner = Some (2::nat)
        \<and> (\<forall>other. hier_parent other ''top.a.b'' \<and> length owner < length other
             \<longrightarrow> map_find [(''top'', 1), (''top.a'', 2::nat)] other = None))"
proof -
  have search: "private_search [(''top'', 1), (''top.a'', 2)] ''top.a.b'' 7 = Some (2::nat)"
  proof -
    have "find_last_of_upto SC_NAME_DELIMITER ''top.a.b'' 6 = 5"
      by (simp add: find_last_of_upto_def find_last_of_def str_rfind_def pos_of_def)
    then have "private_search [(''top'', 1), (''top.a'', 2)] ''top.a.b'' 7
        = private_search [(''top'', 1), (''top.a'', 2)] ''top.a.b'' 5"
      by (subst private_search.simps) (simp add: npos_def)
    also have "\<dots> = Some (2::nat)" by (subst private_search.simps) (simp add: npos_def)
    finally show ?thesis .
  qed
  have len: "length ''top.a.b'' = 7" "length ''top.a.b'' < npos" by (simp_all add: npos_def)
  show ?thesis
    using private_api_longest_match [OF len(2), of "[(''top'', 1), (''top.a'', 2)]"]
    unfolding len(1) search by (simp only: option.case simp_thms)
qed


section \<open>The methods of the API\<close>

record 's api_env =
  send :: "transaction \<Rightarrow> 's \<Rightarrow> (transaction \<times> 's) res"
  new_tr :: "'s \<Rightarrow> transaction"

text \<open>The common start of the methods: a transaction of the pool with service, command and meta data.\<close>

definition service_tr :: "'s api_env \<Rightarrow> u32 \<Rightarrow> string \<Rightarrow> 's \<Rightarrow> transaction" where
  "service_tr A cmd meta_data s =
     (let th = (new_tr A s)\<lparr>mService := CONFIG_SERVICE, mCmd := cmd\<rparr>
      in if meta_data \<noteq> [] then th\<lparr>mMetaData := meta_data\<rparr> else th)"

definition named_tr :: "'s api_env \<Rightarrow> u32 \<Rightarrow> string \<Rightarrow> string \<Rightarrow> 's \<Rightarrow> transaction" where
  "named_tr A cmd parname meta_data s = (service_tr A cmd meta_data s)\<lparr>mSpecifier := parname\<rparr>"

definition api_addParam :: "'s api_env \<Rightarrow> string \<Rightarrow> string \<Rightarrow> string \<Rightarrow> 's \<Rightarrow> (bool \<times> 's) res" where
  "api_addParam A parname default_val meta_data s =
     bindr (send A ((named_tr A CMD_ADD_PARAM parname meta_data s)\<lparr>mValue := default_val\<rparr>) s)
       (\<lambda>(th, s'). Inr (mError th = 0, s'))"

definition api_addPar :: "'s api_env \<Rightarrow> nat \<Rightarrow> string \<Rightarrow> 's \<Rightarrow> (bool \<times> 's) res" where
  "api_addPar A par meta_data s =
     (if par = 0 then Inr (False, s)
      else bindr (send A ((service_tr A CMD_ADD_PARAM meta_data s)\<lparr>mLogPointer := LogParam par\<rparr>) s)
             (\<lambda>(th, s'). Inr (mError th = 0, s')))"

definition api_removePar :: "'s api_env \<Rightarrow> nat \<Rightarrow> bool \<Rightarrow> string \<Rightarrow> 's \<Rightarrow> (bool \<times> 's) res" where
  "api_removePar A par is_destructing meta_data s =
     (if par = 0 then Inl (ScError ''removePar: Parameter is NULL!'')
      else if \<not> is_destructing
      then Inl (ScError ''removePar: This method may only be called by the parameter's destructor itself.'')
      else bindr (send A ((service_tr A CMD_REMOVE_PARAM meta_data s)\<lparr>mLogPointer := LogParam par\<rparr>) s)
             (\<lambda>(th, s'). if mError th = 0 then Inr (True, s') else Inl (ScError ''removeParam failed!'')))"

definition api_setInitValue :: "'s api_env \<Rightarrow> string \<Rightarrow> string \<Rightarrow> string \<Rightarrow> 's \<Rightarrow> (bool \<times> 's) res" where
  "api_setInitValue A parname val meta_data s =
     bindr (send A ((named_tr A CMD_SET_INIT_VAL parname meta_data s)\<lparr>mValue := val\<rparr>) s)
       (\<lambda>(th, s'). Inr (mError th = 0, s'))"

definition api_lockInitValue :: "'s api_env \<Rightarrow> string \<Rightarrow> string \<Rightarrow> 's \<Rightarrow> (bool \<times> 's) res" where
  "api_lockInitValue A parname meta_data s =
     bindr (send A (named_tr A CMD_LOCK_INIT_VAL parname meta_data s) s)
       (\<lambda>(th, s'). Inr (mError th = 0, s'))"

text \<open>The address of the flag stands in \<^verbatim>\<open>mAnyPointer\<close>; any address but NULL has its effect.\<close>

definition api_getValue :: "'s api_env \<Rightarrow> string \<Rightarrow> string \<Rightarrow> bool \<Rightarrow> 's \<Rightarrow> (string \<times> 's) res" where
  "api_getValue A parname meta_data not_impact_is_used_status s =
     (let th = named_tr A CMD_GET_VAL parname meta_data s in
      bindr (send A (if not_impact_is_used_status then th\<lparr>mAnyPointer := 1\<rparr> else th) s)
        (\<lambda>(th, s'). Inr (mValue th, s')))"

definition api_getPar :: "'s api_env \<Rightarrow> string \<Rightarrow> string \<Rightarrow> 's \<Rightarrow> (nat option \<times> 's) res" where
  "api_getPar A parname meta_data s =
     bindr (send A (named_tr A CMD_GET_PARAM parname meta_data s) s)
       (\<lambda>(th, s'). bindr (as_param (mLogPointer th)) (\<lambda>par. Inr (par, s')))"

definition api_existsParam :: "'s api_env \<Rightarrow> string \<Rightarrow> string \<Rightarrow> 's \<Rightarrow> (bool \<times> 's) res" where
  "api_existsParam A parname meta_data s =
     bindr (send A (named_tr A CMD_EXISTS_PARAM parname meta_data s) s)
       (\<lambda>(th, s'). Inr (mError th = 0, s'))"

definition api_is_used :: "'s api_env \<Rightarrow> string \<Rightarrow> string \<Rightarrow> 's \<Rightarrow> (bool \<times> 's) res" where
  "api_is_used A parname meta_data s =
     bindr (send A (named_tr A CMD_PARAM_HAS_BEEN_ACCESSED parname meta_data s) s)
       (\<lambda>(th, s'). Inr (mError th = 0, s'))"

definition api_getParamList :: "'s api_env \<Rightarrow> string \<Rightarrow> bool \<Rightarrow> string \<Rightarrow> 's \<Rightarrow> (string list \<times> 's) res" where
  "api_getParamList A module_name including_childs meta_data s =
     bindr (send A ((service_tr A CMD_GET_PARAM_LIST_VEC meta_data s)
                      \<lparr>mSpecifier := (if including_childs then module_name @ ''.*'' else module_name)\<rparr>) s)
       (\<lambda>(th, s'). case mLogPointer th of
            NoLog \<Rightarrow> Inr ([], s')
          | LogNames v \<Rightarrow> Inr (if mError th \<noteq> 0 then [] else v, s')
          | LogParam _ \<Rightarrow> Inl (Undefined ''static_cast to string_vector''))"

fun params_loop :: "'s api_env \<Rightarrow> string list \<Rightarrow> 's \<Rightarrow> (nat list \<times> 's) res" where
  "params_loop A [] s = Inr ([], s)"
| "params_loop A (n # ns) s =
     bindr (api_getPar A n [] s) (\<lambda>(p, s1).
     bindr (params_loop A ns s1) (\<lambda>(ps, s2).
       Inr (case p of None \<Rightarrow> ps | Some a \<Rightarrow> a # ps, s2)))"

definition api_getParams :: "'s api_env \<Rightarrow> string \<Rightarrow> 's \<Rightarrow> (nat list \<times> 's) res" where
  "api_getParams A module_name s =
     bindr (api_getParamList A module_name False [] s) (\<lambda>(ns, s1). params_loop A ns s1)"

definition api_unregisterAllCallbacks :: "'s api_env \<Rightarrow> nat \<Rightarrow> string \<Rightarrow> 's \<Rightarrow> 's res" where
  "api_unregisterAllCallbacks A obs meta_data s =
     (if obs = 0 then Inr s
      else bindr (send A ((service_tr A CMD_UNREGISTER_PARAM_CALLBACKS meta_data s)\<lparr>mAnyPointer := obs\<rparr>) s)
             (\<lambda>(_, s'). Inr s'))"

section \<open>Callbacks for new parameters\<close>

record api_state =
  m_observer_callback_map :: "(string \<times> nat) list"
  m_registered_as_new_param_observer :: bool
  m_new_param_event :: bool

definition register_as_new_param_observer ::
  "'s api_env \<Rightarrow> api_state \<Rightarrow> 's \<Rightarrow> (api_state \<times> 's) res" where
  "register_as_new_param_observer A ap s =
     (if m_registered_as_new_param_observer ap then Inr (ap, s)
      else bindr (send A ((service_tr A CMD_REGISTER_NEW_PARAM_OBSERVER [] s)\<lparr>mSpecifier := DUMMY_NAME\<rparr>) s)
             (\<lambda>(th, s'). if mError th = 0 then Inr (ap\<lparr>m_registered_as_new_param_observer := True\<rparr>, s')
                         else Inl (ScError ''RegisterObserverFailedException'')))"

definition registerNewParamCallback ::
  "'s api_env \<Rightarrow> nat \<Rightarrow> api_state \<Rightarrow> 's \<Rightarrow> (bool \<times> api_state \<times> 's) res" where
  "registerNewParamCallback A callb ap s =
     bindr (register_as_new_param_observer A ap s) (\<lambda>(ap', s').
       Inr (True, ap'\<lparr>m_observer_callback_map := mm_insert DUMMY_NAME callb (m_observer_callback_map ap')\<rparr>, s'))"

definition getNewParamEvent :: "'s api_env \<Rightarrow> api_state \<Rightarrow> 's \<Rightarrow> (api_state \<times> 's) res" where
  "getNewParamEvent A ap s =
     bindr (register_as_new_param_observer A ap s) (\<lambda>(ap', s').
       Inr (ap'\<lparr>m_new_param_event := True\<rparr>, s'))"

text \<open>
  The callbacks are the user's code; the model returns the calls to make, in order, as triples of
  callback, parameter name and value.
\<close>

definition makeCallbacks :: "string \<Rightarrow> string \<Rightarrow> string \<Rightarrow> api_state \<Rightarrow> (nat \<times> string \<times> string) list" where
  "makeCallbacks search par_name val ap =
     map (\<lambda>callb. (callb, par_name, val)) (mm_equal_range search (m_observer_callback_map ap))"

text \<open>
  The handler of a notification: answer, whether the event is notified, the calls, and the
  parameter database (reading a parameter's value makes its callbacks).
\<close>

definition api_transport ::
  "'v penv \<Rightarrow> api_state \<Rightarrow> transaction \<Rightarrow> 'v cnf_state
     \<Rightarrow> (transaction \<times> bool \<times> (nat \<times> string \<times> string) list \<times> 'v cnf_state) res" where
  "api_transport E ap tr s =
     (if mCmd tr = CMD_NOTIFY_NEW_PARAM_OBSERVER
      then (if \<not> m_registered_as_new_param_observer ap then Inr (tr\<lparr>mError := 1\<rparr>, False, [], s)
            else bindr (as_param (mLogPointer tr)) (\<lambda>po.
              case po of
                Some a \<Rightarrow> bindr (deref a s) (\<lambda>p. bindr (getString E p) (\<lambda>(v, p').
                  Inr (tr, m_new_param_event ap, makeCallbacks DUMMY_NAME (m_par_name p) v ap, write_param a p' s)))
              | None \<Rightarrow> Inr (tr, m_new_param_event ap,
                  makeCallbacks DUMMY_NAME (mSpecifier tr) (mValue tr) ap, s)))
      else Inr (tr, False, [], s))"

definition legacy_callback_adapter_method :: "'v gs_param \<Rightarrow> string \<Rightarrow> api_state \<Rightarrow> (nat \<times> string \<times> string) list" where
  "legacy_callback_adapter_method par val ap =
     (if m_destruction_flag par then [] else makeCallbacks (m_par_name par) (m_par_name par) val ap)"


section \<open>The interface to a configuration service\<close>

text \<open>
  What the API's methods rely on for initial values: how a service answers the requests for
  names that have no parameter object. \<open>ok\<close> is the invariant of the service.
\<close>

definition request :: "transaction \<Rightarrow> bool" where
  "request t \<longleftrightarrow> mService t = CONFIG_SERVICE \<and> mTarget t = 0 \<and> mError t = 0 \<and> mLogPointer t = NoLog"

definition set_answer :: "('s \<Rightarrow> string \<Rightarrow> bool) \<Rightarrow> ('s \<Rightarrow> string \<Rightarrow> string) \<Rightarrow> ('s \<Rightarrow> string \<Rightarrow> bool)
    \<Rightarrow> ('s \<Rightarrow> string \<Rightarrow> bool) \<Rightarrow> string \<Rightarrow> string \<Rightarrow> 's \<Rightarrow> 's \<Rightarrow> bool" where
  "set_answer known init locked explicit n v s s' \<longleftrightarrow>
     (\<forall>m. known s' m = (m = n \<or> known s m)) \<and> init s' = (init s)(n := v)
     \<and> locked s' = locked s \<and> explicit s' = explicit s"

locale config_service =
  fixes send :: "transaction \<Rightarrow> 's \<Rightarrow> (transaction \<times> 's) res"
    and new_tr :: "'s \<Rightarrow> transaction"
    and ok :: "'s \<Rightarrow> bool"
    and known :: "'s \<Rightarrow> string \<Rightarrow> bool"
    and explicit :: "'s \<Rightarrow> string \<Rightarrow> bool"
    and locked :: "'s \<Rightarrow> string \<Rightarrow> bool"
    and init :: "'s \<Rightarrow> string \<Rightarrow> string"
  assumes new_clean: "mTarget (new_tr s) = 0 \<and> mError (new_tr s) = 0 \<and> mLogPointer (new_tr s) = NoLog
        \<and> mAnyPointer (new_tr s) = 0"
    and set_refused: "ok s \<Longrightarrow> request t \<Longrightarrow> mCmd t = CMD_SET_INIT_VAL \<Longrightarrow> locked s (mSpecifier t) \<Longrightarrow>
        \<exists>t'. send t s = Inr (t', s) \<and> mError t' = 2"
    and set_done: "ok s \<Longrightarrow> request t \<Longrightarrow> mCmd t = CMD_SET_INIT_VAL \<Longrightarrow> \<not> locked s (mSpecifier t) \<Longrightarrow>
        \<not> explicit s (mSpecifier t) \<Longrightarrow>
        \<exists>t' s'. send t s = Inr (t', s') \<and> mError t' = 0 \<and> ok s'
          \<and> set_answer known init locked explicit (mSpecifier t) (mValue t) s s'"
    and lock_done: "ok s \<Longrightarrow> request t \<Longrightarrow> mCmd t = CMD_LOCK_INIT_VAL \<Longrightarrow>
        \<exists>t' s'. send t s = Inr (t', s') \<and> ok s' \<and> init s' = init s \<and> explicit s' = explicit s \<and> known s' = known s
          \<and> (mError t' = 0 \<longleftrightarrow> known s (mSpecifier t) \<and> \<not> explicit s (mSpecifier t) \<and> \<not> locked s (mSpecifier t))
          \<and> (\<forall>m. locked s' m = (locked s m \<or> (m = mSpecifier t \<and> mError t' = 0)))"
    and get_done: "ok s \<Longrightarrow> request t \<Longrightarrow> mCmd t = CMD_GET_VAL \<Longrightarrow> \<not> explicit s (mSpecifier t) \<Longrightarrow>
        \<exists>t' s'. send t s = Inr (t', s') \<and> ok s' \<and> init s' = init s \<and> explicit s' = explicit s
          \<and> known s' = known s \<and> locked s' = locked s
          \<and> mValue t' = (if known s (mSpecifier t) then init s (mSpecifier t) else [])"
    and exists_done: "ok s \<Longrightarrow> request t \<Longrightarrow> mCmd t = CMD_EXISTS_PARAM \<Longrightarrow>
        \<exists>t'. send t s = Inr (t', s) \<and> (mError t' = 0 \<longleftrightarrow> known s (mSpecifier t))"
begin

definition api :: "'s api_env" where
  "api = \<lparr>send = send, new_tr = new_tr\<rparr>"

lemma named_request:
  "request (named_tr api cmd n md s) \<and> mCmd (named_tr api cmd n md s) = cmd
    \<and> mSpecifier (named_tr api cmd n md s) = n"
  using new_clean by (simp add: named_tr_def service_tr_def request_def api_def Let_def)

lemma set_request:
  "request ((named_tr api cmd n md s)\<lparr>mValue := v\<rparr>) \<and> mCmd ((named_tr api cmd n md s)\<lparr>mValue := v\<rparr>) = cmd
    \<and> mSpecifier ((named_tr api cmd n md s)\<lparr>mValue := v\<rparr>) = n \<and> mValue ((named_tr api cmd n md s)\<lparr>mValue := v\<rparr>) = v"
  using new_clean by (simp add: named_tr_def service_tr_def request_def api_def Let_def)

lemma setInitValue_refused:
  assumes "ok s" and "locked s n"
  shows "api_setInitValue api n v md s = Inr (False, s)"
proof -
  obtain t' where "send ((named_tr api CMD_SET_INIT_VAL n md s)\<lparr>mValue := v\<rparr>) s = Inr (t', s)" "mError t' = 2"
    using set_refused [OF assms(1)] set_request assms(2) by metis
  then show ?thesis by (simp add: api_setInitValue_def api_def)
qed

lemma setInitValue_done:
  assumes "ok s" and "\<not> locked s n" and "\<not> explicit s n"
  shows "\<exists>s'. api_setInitValue api n v md s = Inr (True, s') \<and> ok s'
    \<and> set_answer known init locked explicit n v s s'"
proof -
  let ?t = "(named_tr api CMD_SET_INIT_VAL n md s)\<lparr>mValue := v\<rparr>"
  have t: "request ?t" "mCmd ?t = CMD_SET_INIT_VAL" "mSpecifier ?t = n" "mValue ?t = v" using set_request by auto
  from set_done [OF assms(1) t(1,2), unfolded t(3,4), OF assms(2,3)]
  obtain t' s' where "send ?t s = Inr (t', s')" "mError t' = 0" "ok s'"
    "set_answer known init locked explicit n v s s'" by blast
  then show ?thesis by (auto simp: api_setInitValue_def api_def)
qed

lemma lockInitValue_done:
  assumes "ok s"
  shows "\<exists>s'. api_lockInitValue api n md s
      = Inr (known s n \<and> \<not> explicit s n \<and> \<not> locked s n, s') \<and> ok s' \<and> init s' = init s
    \<and> explicit s' = explicit s \<and> known s' = known s
    \<and> (\<forall>m. locked s' m = (locked s m \<or> (m = n \<and> known s n \<and> \<not> explicit s n)))"
proof -
  let ?t = "named_tr api CMD_LOCK_INIT_VAL n md s"
  have t: "request ?t" "mCmd ?t = CMD_LOCK_INIT_VAL" "mSpecifier ?t = n" using named_request by auto
  from lock_done [OF assms t(1,2), unfolded t(3)]
  show ?thesis by (auto simp: api_lockInitValue_def api_def)
qed

lemma getValue_done:
  assumes "ok s" and "\<not> explicit s n"
  shows "\<exists>s'. api_getValue api n md q s = Inr (if known s n then init s n else [], s') \<and> ok s' \<and> init s' = init s
    \<and> explicit s' = explicit s \<and> known s' = known s \<and> locked s' = locked s"
proof -
  let ?t = "if q then (named_tr api CMD_GET_VAL n md s)\<lparr>mAnyPointer := 1\<rparr> else named_tr api CMD_GET_VAL n md s"
  have t: "request ?t" "mCmd ?t = CMD_GET_VAL" "mSpecifier ?t = n"
    using named_request [of CMD_GET_VAL n md s] by (auto simp: request_def)
  from get_done [OF assms(1) t(1,2), unfolded t(3), OF assms(2)]
  show ?thesis by (auto simp: api_getValue_def api_def Let_def)
qed

lemma existsParam_done: "ok s \<Longrightarrow> api_existsParam api n md s = Inr (known s n, s)"
  using exists_done [of s "named_tr api CMD_EXISTS_PARAM n md s"] named_request [of CMD_EXISTS_PARAM n md s]
  by (auto simp: api_existsParam_def api_def)

lemma set_then_get:
  assumes "ok s" and "\<not> locked s n" and "\<not> explicit s n"
  shows "\<exists>s1 s2. api_setInitValue api n v md s = Inr (True, s1) \<and> api_getValue api n md q s1 = Inr (v, s2)
    \<and> api_existsParam api n md s2 = Inr (True, s2) \<and> (\<forall>m. m \<noteq> n \<longrightarrow> init s2 m = init s m \<and> known s2 m = known s m)"
proof -
  obtain s1 where s1: "api_setInitValue api n v md s = Inr (True, s1)" "ok s1"
    "set_answer known init locked explicit n v s s1" using setInitValue_done [OF assms] by blast
  then have "\<not> explicit s1 n" "known s1 n" "init s1 n = v" using assms(3) by (auto simp: set_answer_def)
  with getValue_done [OF s1(2), of n md q] obtain s2 where
    s2: "api_getValue api n md q s1 = Inr (v, s2)" "ok s2" "init s2 = init s1" "known s2 = known s1" by auto
  have "api_existsParam api n md s2 = Inr (True, s2)"
    using existsParam_done [OF s2(2)] \<open>known s1 n\<close> s2(4) by simp
  moreover have "\<forall>m. m \<noteq> n \<longrightarrow> init s2 m = init s m \<and> known s2 m = known s m"
    using s1(3) s2(3,4) by (simp add: set_answer_def)
  ultimately show ?thesis using s1(1) s2(1) by blast
qed

lemma set_then_lock:
  assumes "ok s" and "\<not> locked s n" and "\<not> explicit s n"
  shows "\<exists>s1 s2. api_setInitValue api n v md s = Inr (True, s1) \<and> api_lockInitValue api n md s1 = Inr (True, s2)
    \<and> ok s2 \<and> locked s2 n \<and> init s2 n = v"
proof -
  obtain s1 where s1: "api_setInitValue api n v md s = Inr (True, s1)" "ok s1"
    "set_answer known init locked explicit n v s s1" using setInitValue_done [OF assms] by blast
  then have 1: "\<not> explicit s1 n" "known s1 n" "init s1 n = v" "\<not> locked s1 n"
    using assms by (auto simp: set_answer_def)
  with lockInitValue_done [OF s1(2), of n md] s1(1) show ?thesis by auto
qed

lemma locked_answers:
  assumes "ok s" and "locked s n" and "known s n"
  shows "api_setInitValue api n w md s = Inr (False, s)
    \<and> (\<exists>s'. api_lockInitValue api n md s = Inr (False, s'))
    \<and> (\<not> explicit s n \<longrightarrow> (\<exists>s'. api_getValue api n md q s = Inr (init s n, s')))"
  using setInitValue_refused [OF assms(1,2)] lockInitValue_done [OF assms(1), of n md] assms(2,3)
    getValue_done [OF assms(1), of n md q] by auto

end


section \<open>The service behind the core\<close>

text \<open>
  The chain of the program: the API's port hands the transaction to the core, the core delivers it
  to the plugin, the plugin works on the database and notifies observers through the core.
\<close>

definition config_env :: "'v plug_env \<Rightarrow> 'v gcnf gc_env" where
  "config_env P = (core_env P)\<lparr>deliver := (\<lambda>a s.
     if a = plugin_addr P then plugin_transport P s else deliver (core_env P) a s)\<rparr>"

definition config_send :: "'v plug_env \<Rightarrow> transaction \<Rightarrow> 'v gcore \<Rightarrow> (transaction \<times> 'v gcore) res" where
  "config_send P tr c = transport (config_env P) tr c"

text \<open>
  A transaction of the pool of an API's port: reset, with whatever the last use left in the other
  fields; the methods of the API never set \<^verbatim>\<open>mTarget\<close>, so it is still 0.
\<close>

definition recycled_tr :: "nat \<Rightarrow> (nat \<Rightarrow> transaction) \<Rightarrow> 'v gcore \<Rightarrow> transaction" where
  "recycled_tr a stale c = (tr_reset (stale (length (m_parameter_database (cnf_of c)))))
     \<lparr>mTarget := 0, mID := a, mCmdIf := a\<rparr>"

text \<open>Observers of new parameters that work on their own state and answer by \<open>f\<close>.\<close>

definition with_observers :: "'v plug_env \<Rightarrow> (nat \<Rightarrow> transaction \<Rightarrow> transaction) \<Rightarrow> 'v plug_env" where
  "with_observers P f = P\<lparr>core_env := (core_env P)\<lparr>deliver := (\<lambda>a (t, c). Inr (f a t, c))\<rparr>\<rparr>"

definition service_ok :: "'v plug_env \<Rightarrow> 'v gcore \<Rightarrow> bool" where
  "service_ok P c \<longleftrightarrow> plugin_ok c \<and> name_keeping (param_env P) \<and> m_pLogger c = 0
     \<and> decode (services c) CONFIG_SERVICE (m_AddressMap c) = Inr [plugin_addr P]"

definition known_param :: "'v gcore \<Rightarrow> string \<Rightarrow> bool" where
  "known_param c n = existsParam n (cnf_of c)"

definition has_object :: "'v gcore \<Rightarrow> string \<Rightarrow> bool" where
  "has_object c n = explicit_param (cnf_of c) n"

definition init_locked :: "'v gcore \<Rightarrow> string \<Rightarrow> bool" where
  "init_locked c n = initValueLocked n (cnf_of c)"

definition init_of :: "'v gcore \<Rightarrow> string \<Rightarrow> string" where
  "init_of c n = init_value_of (cnf_of c) n"

lemmas service_view_defs = known_param_def has_object_def init_locked_def init_of_def

lemma passive_simps [simp]:
  "param_env (with_observers P f) = param_env P" "plugin_addr (with_observers P f) = plugin_addr P"
  "service_ok (with_observers P f) = service_ok P"
  by (simp_all add: with_observers_def service_ok_def fun_eq_iff)

lemma passive_deliver_all:
  "\<exists>t'. deliver_all (core_env (with_observers P f)) as (t, c) = Inr (t', c)"
  by (induction as arbitrary: t) (simp_all add: with_observers_def)

lemma passive_transport:
  assumes "m_pLogger c = 0" and "mService t = CONFIG_SERVICE"
  shows "\<exists>t'. transport (core_env (with_observers P f)) t c = Inr (t', c)"
proof -
  have "decode (services c) CONFIG_SERVICE (m_AddressMap c)
      = Inr (mm_equal_range CONFIG_SERVICE (m_service_address_map (m_AddressMap c)))"
    by (simp add: decode_def getAddrFromService_def getControlServiceString_def)
  moreover have "deliver (core_env (with_observers P f)) a (t, c) = Inr (f a t, c)" for a by (simp add: with_observers_def)
  ultimately have "\<exists>t'. route (core_env (with_observers P f)) (t, c) = Inr (t', c)"
    using assms(2) passive_deliver_all [of P f "mm_equal_range CONFIG_SERVICE (m_service_address_map (m_AddressMap c))" t c]
    by (simp add: route_def)
  then show ?thesis using assms(1) by (auto simp: transport_def)
qed

lemma passive_notify:
  "m_pLogger c = 0 \<Longrightarrow> notify_loop (with_observers P f) par nm v as c = Inr c"
proof (induction as)
  case (Cons a as)
  have "mService (notify_transaction (with_observers P f) par nm v a c) = CONFIG_SERVICE"
    by (simp add: notify_transaction_def Let_def)
  from passive_transport [OF Cons.prems this, of P f]
  show ?case using Cons by auto
qed simp

lemma passive_send_notify:
  assumes "m_pLogger c = 0"
  shows "\<exists>db. sendNewParameterNotify (with_observers P f) par nm v c = Inr (c\<lparr>world := (world c)\<lparr>m_observer_db := db\<rparr>\<rparr>)
    \<and> db = snd (getNewParamObservers (m_observer_db (world c)))"
  using passive_notify [of "c\<lparr>world := (world c)\<lparr>m_observer_db := snd (getNewParamObservers (m_observer_db (world c)))\<rparr>\<rparr>"]
    assms
  by (simp add: sendNewParameterNotify_def case_prod_unfold)

lemma config_send_request:
  assumes "service_ok P c" and "request t" and "plugin_transport P (t, c) = Inr (t', c')" and "m_pLogger c' = 0"
  shows "config_send P t c = Inr (t', c')"
  using assms
  by (simp add: config_send_def transport_def route_def service_ok_def request_def config_env_def)

text \<open>The plugin's answers, with passive observers.\<close>

lemma set_cnf_misc [simp]:
  "m_pLogger (set_cnf s c) = m_pLogger c" "services (set_cnf s c) = services c"
  "m_AddressMap (set_cnf s c) = m_AddressMap c"
  by (simp_all add: set_cnf_def)

lemma service_ok_step:
  assumes "service_ok P c" and "plugin_ok c'" and "m_pLogger c' = m_pLogger c"
    and "services c' = services c" and "m_AddressMap c' = m_AddressMap c"
  shows "service_ok P c'"
  using assms by (simp add: service_ok_def)

lemma set_init_answer:
  assumes ok: "service_ok P c" and t: "request t" "mCmd t = CMD_SET_INIT_VAL"
    and free: "\<not> init_locked c (mSpecifier t)" "\<not> has_object c (mSpecifier t)"
  shows "\<exists>c'. config_send (with_observers P f) t c = Inr (t, c') \<and> service_ok P c'
    \<and> cnf_of c' = after_setInit (param_env P) (mSpecifier t) (mValue t) (cnf_of c)"
proof -
  let ?n = "mSpecifier t"
  have E: "name_keeping (param_env P)" and c: "plugin_ok c" "m_pLogger c = 0" and db: "db_ok (cnf_of c)"
    using ok by (simp_all add: service_ok_def plugin_ok_def)
  have "\<exists>b s'. setInitValue (param_env P) ?n (mValue t) (cnf_of c) = Inr (b, s')"
    using free(2) by (auto simp: setInitValue_def has_object_def explicit_param_def getParam_def split: option.splits)
  then obtain b s' where r: "setInitValue (param_env P) ?n (mValue t) (cnf_of c) = Inr (b, s')" by blast
  then have s': "s' = after_setInit (param_env P) ?n (mValue t) (cnf_of c)" by (simp add: after_setInit_def)
  have ok1: "plugin_ok (set_cnf s' c)" using setInitValue_step [OF E db r] set_cnf_keeps [OF c(1)] by blast
  have sw: "plugin_switch (with_observers P f) t c = Inr (t, b, set_cnf s' c)"
    using t(2) r free(1) by (simp add: plugin_switch_def cmd_set_init_val_def init_locked_def Let_def)
  show ?thesis
  proof (cases b)
    case False
    then have "plugin_transport (with_observers P f) (t, c) = Inr (t, set_cnf s' c)"
      by (simp add: plugin_transport_def sw)
    then have "config_send (with_observers P f) t c = Inr (t, set_cnf s' c)"
      using ok t(1) c(2) by (intro config_send_request) simp_all
    then show ?thesis using service_ok_step [OF ok ok1] s' by auto
  next
    case True
    obtain as odb where g: "getNewParamObservers (m_observer_db (world (set_cnf s' c))) = (as, odb)" by fastforce
    let ?c = "(set_cnf s' c)\<lparr>world := (world (set_cnf s' c))\<lparr>m_observer_db := odb\<rparr>\<rparr>"
    have "plugin_ok ?c" using getNewParamObservers_keeps [OF ok1 g] by blast
    moreover have "plugin_transport (with_observers P f) (t, c) = Inr (t, ?c)"
      using passive_send_notify [of "set_cnf s' c" P f "mLogPointer t" ?n "mValue t"] c(2) True g
      by (simp add: plugin_transport_def sw)
    then have "config_send (with_observers P f) t c = Inr (t, ?c)"
      using ok t(1) c(2) by (intro config_send_request) simp_all
    ultimately show ?thesis using service_ok_step [OF ok, of ?c] s' by auto
  qed
qed

lemma set_init_refused:
  assumes "service_ok P c" and "request t" and "mCmd t = CMD_SET_INIT_VAL" and "init_locked c (mSpecifier t)"
  shows "config_send (with_observers P f) t c = Inr (t\<lparr>mError := 2\<rparr>, c)"
  using assms
  by (intro config_send_request)
    (simp_all add: plugin_transport_def plugin_switch_def cmd_set_init_val_def init_locked_def service_ok_def Let_def)

lemma lock_answer:
  assumes ok: "service_ok P c" and t: "request t" "mCmd t = CMD_LOCK_INIT_VAL"
  shows "config_send (with_observers P f) t c = Inr (if fst (lockInitValue (mSpecifier t) (cnf_of c)) then t else t\<lparr>mError := 1\<rparr>,
      set_cnf (snd (lockInitValue (mSpecifier t) (cnf_of c))) c)
    \<and> service_ok P (set_cnf (snd (lockInitValue (mSpecifier t) (cnf_of c))) c)"
proof -
  have c: "plugin_ok c" "m_pLogger c = 0" and db: "db_ok (cnf_of c)" using ok by (simp_all add: service_ok_def plugin_ok_def)
  have ok1: "plugin_ok (set_cnf (snd (lockInitValue (mSpecifier t) (cnf_of c))) c)"
    using lockInitValue_step [OF db] set_cnf_keeps [OF c(1)] by blast
  have "config_send (with_observers P f) t c = Inr (if fst (lockInitValue (mSpecifier t) (cnf_of c)) then t else t\<lparr>mError := 1\<rparr>,
      set_cnf (snd (lockInitValue (mSpecifier t) (cnf_of c))) c)"
    using ok t c(2) by (intro config_send_request)
      (simp_all add: plugin_transport_def plugin_switch_def cmd_lock_init_val_def case_prod_unfold Let_def)
  then show ?thesis using service_ok_step [OF ok ok1] by simp
qed

lemma get_answer:
  assumes ok: "service_ok P c" and t: "request t" "mCmd t = CMD_GET_VAL" and imp: "\<not> has_object c (mSpecifier t)"
  shows "\<exists>t' c'. config_send (with_observers P f) t c = Inr (t', c') \<and> service_ok P c'
    \<and> (\<forall>m. known_param c' m = known_param c m \<and> init_of c' m = init_of c m
         \<and> init_locked c' m = init_locked c m \<and> has_object c' m = has_object c m)
    \<and> mValue t' = (if known_param c (mSpecifier t) then init_of c (mSpecifier t) else [])"
proof -
  let ?n = "mSpecifier t"
  have E: "name_keeping (param_env P)" and c: "plugin_ok c" "m_pLogger c = 0" and db: "db_ok (cnf_of c)"
    using ok by (simp_all add: service_ok_def plugin_ok_def)
  show ?thesis
  proof (cases "db_find (cnf_of c) ?n")
    case None
    then have "plugin_transport (with_observers P f) (t, c) = Inr (t\<lparr>mError := 1, mValue := []\<rparr>, c)"
      using t(2) by (simp add: plugin_transport_def plugin_switch_def cmd_get_val_def existsParam_def Let_def)
    then have "config_send (with_observers P f) t c = Inr (t\<lparr>mError := 1, mValue := []\<rparr>, c)"
      using ok t(1) c(2) by (intro config_send_request) simp_all
    then show ?thesis using ok None by (simp add: known_param_def existsParam_def)
  next
    case (Some e)
    then have par: "param e = None" using imp by (simp add: has_object_def explicit_param_def getParam_def)
    obtain s' where g: "db_getValue (param_env P) ?n (mAnyPointer t \<noteq> 0) (cnf_of c) = Inr (init_value e, s')"
      and views: "\<And>m. db_find s' m = db_find (cnf_of c) m \<or>
          (m = ?n \<and> db_find s' m = Some (e\<lparr>is_used := True\<rparr>))"
      using Some par by (auto simp: db_getValue_def getParam_def)
    have ok1: "plugin_ok (set_cnf s' c)" using db_getValue_step [OF E db g] set_cnf_keeps [OF c(1)] by blast
    have "plugin_transport (with_observers P f) (t, c) = Inr (t\<lparr>mValue := init_value e\<rparr>, set_cnf s' c)"
      using t(2) g Some
      by (simp add: plugin_transport_def plugin_switch_def cmd_get_val_def existsParam_def Let_def)
    then have "config_send (with_observers P f) t c = Inr (t\<lparr>mValue := init_value e\<rparr>, set_cnf s' c)"
      using ok t(1) c(2) by (intro config_send_request) simp_all
    moreover have "service_ok P (set_cnf s' c)" using service_ok_step [OF ok ok1] by simp
    moreover have "known_param (set_cnf s' c) m = known_param c m \<and> init_of (set_cnf s' c) m = init_of c m
         \<and> init_locked (set_cnf s' c) m = init_locked c m \<and> has_object (set_cnf s' c) m = has_object c m" for m
      using views [of m] Some unfolding service_view_defs db_view_defs
      by (elim disjE conjE) (simp_all split: option.splits)
    ultimately show ?thesis using Some by (auto simp: service_view_defs db_view_defs)
  qed
qed

interpretation cfg: config_service "config_send (with_observers P f)" "recycled_tr a stale" "service_ok P"
    known_param has_object init_locked init_of
  for P :: "'v plug_env" and f :: "nat \<Rightarrow> transaction \<Rightarrow> transaction" and a :: nat and stale :: "nat \<Rightarrow> transaction"
proof unfold_locales
  fix c :: "'v gcore" and t :: transaction
  show "mTarget (recycled_tr a stale c) = 0 \<and> mError (recycled_tr a stale c) = 0
      \<and> mLogPointer (recycled_tr a stale c) = NoLog \<and> mAnyPointer (recycled_tr a stale c) = 0"
    by (simp add: recycled_tr_def tr_reset_def)
  assume ok: "service_ok P c" and t: "request t"
  show "\<exists>t'. config_send (with_observers P f) t c = Inr (t', c) \<and> mError t' = 2"
    if "mCmd t = CMD_SET_INIT_VAL" "init_locked c (mSpecifier t)"
    using set_init_refused [OF ok t that] by simp
  show "\<exists>t' s'. config_send (with_observers P f) t c = Inr (t', s') \<and> mError t' = 0 \<and> service_ok P s'
      \<and> set_answer known_param init_of init_locked has_object (mSpecifier t) (mValue t) c s'"
    if cmd: "mCmd t = CMD_SET_INIT_VAL" and free: "\<not> init_locked c (mSpecifier t)" "\<not> has_object c (mSpecifier t)"
  proof -
    obtain c' where c': "config_send (with_observers P f) t c = Inr (t, c')" "service_ok P c'"
      "cnf_of c' = after_setInit (param_env P) (mSpecifier t) (mValue t) (cnf_of c)"
      using set_init_answer [OF ok t cmd free] by blast
    have "set_answer known_param init_of init_locked has_object (mSpecifier t) (mValue t) c c'"
      using free unfolding set_answer_def service_view_defs fun_eq_iff c'(3)
      by (simp add: cdb.set_exists cdb.set_init_value cdb.set_locked cdb.set_explicit)
    then show ?thesis using c'(1,2) t by (auto simp: request_def)
  qed
  show "\<exists>t' s'. config_send (with_observers P f) t c = Inr (t', s') \<and> service_ok P s' \<and> init_of s' = init_of c
      \<and> has_object s' = has_object c \<and> known_param s' = known_param c
      \<and> (mError t' = 0 \<longleftrightarrow> known_param c (mSpecifier t) \<and> \<not> has_object c (mSpecifier t) \<and> \<not> init_locked c (mSpecifier t))
      \<and> (\<forall>m. init_locked s' m = (init_locked c m \<or> (m = mSpecifier t \<and> mError t' = 0)))"
    if cmd: "mCmd t = CMD_LOCK_INIT_VAL"
  proof -
    let ?n = "mSpecifier t"
    let ?s = "snd (lockInitValue ?n (cnf_of c))"
    have "known_param (set_cnf ?s c) = known_param c"
      by (auto simp: fun_eq_iff known_param_def existsParam_def lockInitValue_def split: option.splits)
    moreover have "init_of (set_cnf ?s c) = init_of c" "has_object (set_cnf ?s c) = has_object c"
      by (simp_all add: fun_eq_iff service_view_defs cdb.lock_init cdb.lock_explicit)
    moreover have "init_locked (set_cnf ?s c) m = (init_locked c m \<or> (m = ?n \<and> fst (lockInitValue ?n (cnf_of c))))" for m
      by (simp add: init_locked_def cdb.lock_locked)
    moreover have "fst (lockInitValue ?n (cnf_of c)) \<longleftrightarrow> known_param c ?n \<and> \<not> has_object c ?n \<and> \<not> init_locked c ?n"
      by (simp add: service_view_defs cdb.lock_result)
    moreover have "mError t = 0" using t by (simp add: request_def)
    ultimately show ?thesis using lock_answer [OF ok t cmd, of f] by auto
  qed
  show "\<exists>t' s'. config_send (with_observers P f) t c = Inr (t', s') \<and> service_ok P s' \<and> init_of s' = init_of c
      \<and> has_object s' = has_object c \<and> known_param s' = known_param c \<and> init_locked s' = init_locked c
      \<and> mValue t' = (if known_param c (mSpecifier t) then init_of c (mSpecifier t) else [])"
    if get: "mCmd t = CMD_GET_VAL" "\<not> has_object c (mSpecifier t)"
  proof -
    obtain t' c' where "config_send (with_observers P f) t c = Inr (t', c')" "service_ok P c'"
      "\<forall>m. known_param c' m = known_param c m \<and> init_of c' m = init_of c m
         \<and> init_locked c' m = init_locked c m \<and> has_object c' m = has_object c m"
      "mValue t' = (if known_param c (mSpecifier t) then init_of c (mSpecifier t) else [])"
      using get_answer [OF ok t get, of f] by blast
    then show ?thesis by (intro exI [of _ t'] exI [of _ c']) (simp add: fun_eq_iff)
  qed
  show "\<exists>t'. config_send (with_observers P f) t c = Inr (t', c) \<and> (mError t' = 0 \<longleftrightarrow> known_param c (mSpecifier t))"
    if "mCmd t = CMD_EXISTS_PARAM"
  proof -
    have "plugin_transport (with_observers P f) (t, c) = Inr (if known_param c (mSpecifier t) then t else t\<lparr>mError := 1\<rparr>, c)"
      using that by (simp add: plugin_transport_def plugin_switch_def known_param_def Let_def)
    then have "config_send (with_observers P f) t c = Inr (if known_param c (mSpecifier t) then t else t\<lparr>mError := 1\<rparr>, c)"
      using ok t by (intro config_send_request) (simp_all add: service_ok_def)
    then show ?thesis using t by (simp add: request_def)
  qed
qed


definition config_api :: "'v plug_env \<Rightarrow> (nat \<Rightarrow> transaction \<Rightarrow> transaction) \<Rightarrow> nat \<Rightarrow> (nat \<Rightarrow> transaction)
    \<Rightarrow> 'v gcore api_env" where
  "config_api P f a stale = \<lparr>send = config_send (with_observers P f), new_tr = recycled_tr a stale\<rparr>"

lemma config_api_cfg: "config_api P f a stale = cfg.api P f a stale"
  by (simp add: config_api_def cfg.api_def)

section \<open>What happens to the service later\<close>

text \<open>
  Histories of the service: transactions of any command and contents that are addressed to it, for
  which \<^verbatim>\<open>new\<close> returns an unused address, and anything that the owners of parameter objects do
  to these without renaming them.
\<close>

inductive later :: "'v plug_env \<Rightarrow> 'v gcore \<Rightarrow> 'v gcore \<Rightarrow> bool" for P where
  now: "later P c c"
| served: "later P c c1 \<Longrightarrow> mService t = CONFIG_SERVICE \<Longrightarrow> mTarget t = 0 \<Longrightarrow>
    heap (cnf_of c1) (new_param_addr P (cnf_of c1)) = None \<Longrightarrow> config_send P t c1 = Inr (t', c2) \<Longrightarrow> later P c c2"
| owners: "later P c c1 \<Longrightarrow> db_ok ((cnf_of c1)\<lparr>heap := h\<rparr>) \<Longrightarrow> later P c (set_cnf ((cnf_of c1)\<lparr>heap := h\<rparr>) c1)"

definition same_core :: "'v gcore \<Rightarrow> 'v gcore \<Rightarrow> bool" where
  "same_core c c' \<longleftrightarrow> m_pLogger c' = m_pLogger c \<and> services c' = services c \<and> m_AddressMap c' = m_AddressMap c"

lemma same_core_simps [simp]:
  "same_core c c" "same_core c (set_cnf s c)" "same_core c (c\<lparr>world := w\<rparr>)"
  by (simp_all add: same_core_def)

lemma plugin_switch_core:
  assumes "plugin_switch P tr c = Inr (tr', b, c')"
  shows "same_core c c'"
proof -
  have 1: "same_core c c'" if "cmd_add_param P tr c = Inr (tr', b, c')"
    using that by (auto simp: cmd_add_param_def bindr_eq_Inr Let_def case_prod_unfold split: if_splits)
  have 2: "same_core c c'" if "cmd_remove_param P tr c = Inr (tr', b, c')"
    using that by (auto simp: cmd_remove_param_def bindr_eq_Inr split: option.splits)
  have 3: "same_core c c'" if "cmd_set_init_val P tr c = Inr (tr', b, c')"
    using that by (auto simp: cmd_set_init_val_def bindr_eq_Inr split: if_splits)
  have 4: "same_core c c'" if "cmd_lock_init_val tr c = (tr', c')"
    using that by (auto simp: cmd_lock_init_val_def split: prod.splits)
  have 5: "same_core c c'" if "cmd_get_val P tr c = Inr (tr', b, c')"
    using that by (auto simp: cmd_get_val_def bindr_eq_Inr split: if_splits)
  show ?thesis using assms 1 2 3 4 5
    by (auto simp: plugin_switch_def Let_def bindr_eq_Inr case_prod_unfold split: if_splits prod.splits)
qed

lemma served_keeps:
  assumes ok: "service_ok P c" and fresh: "heap (cnf_of c) (new_param_addr P (cnf_of c)) = None"
    and t: "mService t = CONFIG_SERVICE" "mTarget t = 0"
    and r: "config_send (with_observers P f) t c = Inr (t', c')"
  shows "service_ok P c' \<and> plugin_le c c'"
proof -
  let ?Q = "with_observers P f"
  have c: "plugin_ok c" "m_pLogger c = 0" "name_keeping (param_env ?Q)" and fr: "heap (cnf_of c) (new_param_addr ?Q (cnf_of c)) = None"
    using ok fresh by (simp_all add: service_ok_def) (simp add: with_observers_def)
  from r ok t c(2) have "\<exists>t1. plugin_transport ?Q (t, c) = Inr (t1, c') \<or>
      (\<exists>c1. plugin_transport ?Q (t, c) = Inr (t1, c1) \<and> m_pLogger c1 \<noteq> 0)"
    by (auto simp: config_send_def transport_def route_def service_ok_def config_env_def bindr_eq_Inr split: if_splits)
  then obtain t1 c1 where p: "plugin_transport ?Q (t, c) = Inr (t1, c1)" "c1 = c' \<or> m_pLogger c1 \<noteq> 0" by blast
  from p(1) obtain t2 b c2 where s: "plugin_switch ?Q t c = Inr (t2, b, c2)"
    and rest: "if b then sendNewParameterNotify ?Q (mLogPointer t2) (mSpecifier t2) (mValue t2) c2 = Inr c1 else c1 = c2"
    by (auto simp: plugin_transport_def bindr_eq_Inr split: if_splits)
  have c2: "plugin_ok c2" "plugin_le c c2" using plugin_switch_keeps [OF c(3) fr c(1) s] by blast+
  note core = plugin_switch_core [OF s, unfolded same_core_def]
  have "plugin_ok c1 \<and> plugin_le c c1 \<and> m_pLogger c1 = 0 \<and> services c1 = services c \<and> m_AddressMap c1 = m_AddressMap c"
  proof (cases b)
    case True
    obtain as odb where g: "getNewParamObservers (m_observer_db (world c2)) = (as, odb)" by fastforce
    have "c1 = c2\<lparr>world := (world c2)\<lparr>m_observer_db := odb\<rparr>\<rparr>"
      using passive_send_notify [of c2 P f "mLogPointer t2" "mSpecifier t2" "mValue t2"] core c(2) rest True g by simp
    then show ?thesis using getNewParamObservers_keeps [OF c2(1) g] c2(2) core c(2) plugin_le_trans by auto
  qed (use rest c2 core c(2) in simp)
  then show ?thesis using p(2) service_ok_step [OF ok, of c1] c(2) by auto
qed

lemma later_keeps:
  assumes "later (with_observers P f) c c'" and "service_ok P c"
  shows "service_ok P c' \<and> plugin_le c c'"
  using assms
proof (induction rule: later.induct)
  case (served c c1 t t' c2)
  have "heap (cnf_of c1) (new_param_addr P (cnf_of c1)) = None" using served.hyps(4) by (simp add: with_observers_def)
  then show ?case using served_keeps [of P c1 t f t' c2] served plugin_le_trans by blast
next
  case (owners c c1 h)
  let ?s = "(cnf_of c1)\<lparr>heap := h\<rparr>"
  have "db_le (cnf_of c1) ?s" by (simp add: db_le_def)
  then have "plugin_ok (set_cnf ?s c1) \<and> plugin_le c1 (set_cnf ?s c1)"
    using set_cnf_keeps [of c1 ?s] owners by (auto simp: service_ok_def)
  then show ?case using owners service_ok_step [of P c1 "set_cnf ?s c1"] plugin_le_trans by auto
qed simp

lemma plugin_le_locked:
  assumes "plugin_le c c'" and "init_locked c n"
  shows "init_locked c' n \<and> known_param c' n \<and> init_of c' n = init_of c n"
proof -
  obtain e where e: "db_find (cnf_of c) n = Some e" "init_value_locked e"
    using assms(2) by (auto simp: init_locked_def initValueLocked_def split: option.splits)
  then obtain e' where "db_find (cnf_of c') n = Some e'" "entry_le e e'"
    using assms(1) unfolding plugin_le_def db_le_def by blast
  then show ?thesis using e unfolding service_view_defs db_view_defs entry_le_def by simp
qed

section \<open>Registered callbacks\<close>

fun register_all :: "'s api_env \<Rightarrow> nat list \<Rightarrow> api_state \<Rightarrow> 's \<Rightarrow> (api_state \<times> 's) res" where
  "register_all A [] ap s = Inr (ap, s)"
| "register_all A (cb # cbs) ap s =
     bindr (registerNewParamCallback A cb ap s) (\<lambda>(_, ap', s'). register_all A cbs ap' s')"

lemma register_step:
  assumes "registerNewParamCallback A cb ap s = Inr (b, ap', s')" and "mm_ok (m_observer_callback_map ap)"
  shows "mm_ok (m_observer_callback_map ap') \<and> m_registered_as_new_param_observer ap'
    \<and> m_new_param_event ap' = m_new_param_event ap
    \<and> mm_equal_range DUMMY_NAME (m_observer_callback_map ap')
        = mm_equal_range DUMMY_NAME (m_observer_callback_map ap) @ [cb]"
  using assms
  by (auto simp: registerNewParamCallback_def register_as_new_param_observer_def bindr_eq_Inr mm_range_insert
      mm_ok_insert split: if_splits prod.splits)

lemma register_all_range:
  assumes "register_all A cbs ap s = Inr (ap', s')" and "mm_ok (m_observer_callback_map ap)"
  shows "(m_registered_as_new_param_observer ap \<or> cbs \<noteq> [] \<longrightarrow> m_registered_as_new_param_observer ap')
    \<and> m_new_param_event ap' = m_new_param_event ap
    \<and> mm_equal_range DUMMY_NAME (m_observer_callback_map ap')
        = mm_equal_range DUMMY_NAME (m_observer_callback_map ap) @ cbs"
  using assms
proof (induction cbs arbitrary: ap s)
  case (Cons cb cbs)
  from Cons.prems(1) obtain b ap1 s1 where r: "registerNewParamCallback A cb ap s = Inr (b, ap1, s1)"
    "register_all A cbs ap1 s1 = Inr (ap', s')" by (auto simp: bindr_eq_Inr)
  with register_step [OF r(1) Cons.prems(2)] Cons.IH [OF r(2)] show ?case by simp
qed simp

text \<open>When callbacks for new parameters have been registered at an API (in several calls, the
  first of which registers the API at the plugin), a notification about a new implicit parameter
  makes the calls that were registered before and then the new ones, once each, in the order of
  registration, with the parameter's name and initial value.\<close>

theorem new_param_callbacks_called:
  assumes "mm_ok (m_observer_callback_map ap)" and "cbs \<noteq> []"
    and "register_all A cbs ap s = Inr (ap', s')"
    and "mCmd tr = CMD_NOTIFY_NEW_PARAM_OBSERVER" and "mLogPointer tr = NoLog"
  shows "api_transport E ap' tr w = Inr (tr, m_new_param_event ap,
    map (\<lambda>cb. (cb, mSpecifier tr, mValue tr))
      (mm_equal_range DUMMY_NAME (m_observer_callback_map ap) @ cbs), w)"
  using register_all_range [OF assms(3,1)] assms(2,4,5)
  by (simp add: api_transport_def as_param_def makeCallbacks_def)

lemma new_param_callbacks_called_witness:
  "\<exists>ap'. register_all \<lparr>send = (\<lambda>t s. Inr (t, s)), new_tr = (\<lambda>_. new_transaction 0 0)\<rparr> [5, 4]
      \<lparr>m_observer_callback_map = [(''m.p'', 9)], m_registered_as_new_param_observer = False,
       m_new_param_event = False\<rparr> () = Inr (ap', ())
    \<and> api_transport sample_env ap' ((new_transaction 0 0)\<lparr>mCmd := CMD_NOTIFY_NEW_PARAM_OBSERVER,
         mSpecifier := ''x'', mValue := ''1''\<rparr>) sample_cnf
       = Inr ((new_transaction 0 0)\<lparr>mCmd := CMD_NOTIFY_NEW_PARAM_OBSERVER, mSpecifier := ''x'', mValue := ''1''\<rparr>,
              False, [(5, ''x'', ''1''), (4, ''x'', ''1'')], sample_cnf)"
proof -
  let ?A = "\<lparr>send = (\<lambda>t s. Inr (t, s)), new_tr = (\<lambda>_. new_transaction 0 0)\<rparr> :: unit api_env"
  let ?ap = "\<lparr>m_observer_callback_map = [(''m.p'', 9)], m_registered_as_new_param_observer = False,
       m_new_param_event = False\<rparr>"
  have "\<exists>ap'. register_all ?A [5, 4] ?ap () = Inr (ap', ())"
    by (simp add: registerNewParamCallback_def register_as_new_param_observer_def service_tr_def
        new_transaction_def Let_def)
  moreover have "mm_equal_range DUMMY_NAME (m_observer_callback_map ?ap) = []"
    by (simp add: mm_equal_range_def DUMMY_NAME_def less_char_def)
  ultimately show ?thesis
    using new_param_callbacks_called [of ?ap "[5, 4]" ?A "()" _ "()"
        "(new_transaction 0 0)\<lparr>mCmd := CMD_NOTIFY_NEW_PARAM_OBSERVER, mSpecifier := ''x'', mValue := ''1''\<rparr>"
        sample_env sample_cnf]
    by (auto simp: mm_ok_def new_transaction_def)
qed

end
