(* ===== verification/Number_Text.thy ===== *)
theory Number_Text
  imports GL_Prelude
begin

text \<open>
  Numbers as the C++ streams write and read them, shared by the components that keep numbers as
  strings: decimal output, and the input of an integer with \<^verbatim>\<open>operator>>\<close>, which skips white space, takes a sign and
  digits, leaves the rest, and fails when there is no digit or the number does not fit.
\<close>

definition isspace :: "char \<Rightarrow> bool" where
  "isspace c \<longleftrightarrow> c = CHR '' '' \<or> (of_char c \<ge> (9 :: nat) \<and> of_char c \<le> (13 :: nat))"

definition isdigit :: "char \<Rightarrow> bool" where
  "isdigit c \<longleftrightarrow> (48 :: nat) \<le> of_char c \<and> of_char c \<le> (57 :: nat)"

definition digit_value :: "char \<Rightarrow> nat" where
  "digit_value c = of_char c - 48"

definition digit_char :: "nat \<Rightarrow> char" where
  "digit_char d = char_of (48 + d)"

fun decimal :: "nat \<Rightarrow> string" where
  "decimal n = (if n < 10 then [digit_char n] else decimal (n div 10) @ [digit_char (n mod 10)])"

declare decimal.simps [simp del]

definition digits_value :: "string \<Rightarrow> nat" where
  "digits_value s = foldl (\<lambda>n c. 10 * n + digit_value c) 0 s"

definition int_text :: "int \<Rightarrow> string" where
  "int_text z = (if z < 0 then CHR ''-'' # decimal (nat (- z)) else decimal (nat z))"

text \<open>The sign and the digits that are taken, and what is left in the stream.\<close>

definition sign_of :: "string \<Rightarrow> bool \<times> string" where
  "sign_of s = (case s of c # r \<Rightarrow> if c = CHR ''-'' then (True, r) else if c = CHR ''+'' then (False, r) else (False, s)
                | [] \<Rightarrow> (False, []))"

definition scan_int :: "string \<Rightarrow> (int \<times> string) option" where
  "scan_int s =
     (let (neg, r) = sign_of (dropWhile isspace s); d = takeWhile isdigit r in
      if d = [] then None else Some (if neg then - int (digits_value d) else int (digits_value d), dropWhile isdigit r))"

definition read_int :: "int \<Rightarrow> int \<Rightarrow> string \<Rightarrow> (int \<times> string) option" where
  "read_int lo hi s = (case scan_int s of Some (z, r) \<Rightarrow> if lo \<le> z \<and> z \<le> hi then Some (z, r) else None | None \<Rightarrow> None)"

section \<open>What is written is read\<close>

lemma of_char_digit: "d < 10 \<Longrightarrow> of_char (digit_char d) = (48 + d :: nat)"
  by (simp add: digit_char_def)

lemma digit_char_simps [simp]:
  assumes "d < 10"
  shows "isdigit (digit_char d)" "digit_value (digit_char d) = d" "\<not> isspace (digit_char d)"
    "digit_char d \<noteq> CHR ''-''" "digit_char d \<noteq> CHR ''+''"
proof -
  note o = of_char_digit [OF assms]
  show "isdigit (digit_char d)" "digit_value (digit_char d) = d" using assms o by (simp_all add: isdigit_def digit_value_def)
  have "of_char (digit_char d) \<noteq> (of_char c :: nat)" if "of_char c < (48 :: nat)" for c using that o by simp
  then have n: "digit_char d \<noteq> c" if "of_char c < (48 :: nat)" for c using that by metis
  show "digit_char d \<noteq> CHR ''-''" "digit_char d \<noteq> CHR ''+''" by (rule n; simp)+
  have "digit_char d \<noteq> CHR '' ''" by (rule n) simp
  then show "\<not> isspace (digit_char d)" using o by (simp add: isspace_def)
qed

lemma decimal_digits: "c \<in> set (decimal n) \<Longrightarrow> \<exists>d < 10. c = digit_char d"
proof (induction n rule: decimal.induct)
  case (1 n)
  then show ?case by (cases "n < 10") (auto simp: decimal.simps [of n] intro: exI [of _ "n mod 10"])
qed

lemma decimal_nonempty [simp]: "decimal n \<noteq> []"
  by (subst decimal.simps) simp

lemma digits_value_snoc: "digits_value (s @ [c]) = 10 * digits_value s + digit_value c"
  by (simp add: digits_value_def)

lemma digits_value_decimal [simp]: "digits_value (decimal n) = n"
proof (induction n rule: decimal.induct)
  case (1 n)
  show ?case
  proof (cases "n < 10")
    case True
    then show ?thesis by (simp add: decimal.simps [of n] digits_value_def)
  next
    case False
    then have "digits_value (decimal n) = 10 * (n div 10) + n mod 10"
      using 1 by (simp add: decimal.simps [of n] digits_value_snoc)
    then show ?thesis by simp
  qed
qed

lemma decimal_inject [simp]: "decimal m = decimal n \<longleftrightarrow> m = n"
  using digits_value_decimal by metis

lemma scan_digits:
  assumes "r = [] \<or> \<not> isdigit (hd r)"
  shows "takeWhile isdigit (decimal n @ r) = decimal n" "dropWhile isdigit (decimal n @ r) = r"
proof -
  have "\<forall>c \<in> set (decimal n). isdigit c" using decimal_digits by fastforce
  then show "takeWhile isdigit (decimal n @ r) = decimal n" "dropWhile isdigit (decimal n @ r) = r"
    using assms by (cases r; simp add: takeWhile_append dropWhile_append)+
qed

text \<open>An integer followed by a character that is no digit is read as it was written.\<close>

lemma scan_int_text:
  assumes "r = [] \<or> \<not> isdigit (hd r)"
  shows "scan_int (int_text z @ r) = Some (z, r)"
proof -
  obtain d s where "d < 10" "decimal (nat z) = digit_char d # s" 
    using decimal_digits [of "hd (decimal (nat z))" "nat z"] decimal_nonempty [of "nat z"] by (metis list.exhaust_sel list.set_sel(1))
  then have "sign_of (dropWhile isspace (decimal (nat z) @ r)) = (False, decimal (nat z) @ r)"
    by (simp add: sign_of_def)
  moreover have "\<not> isspace CHR ''-''" by (simp add: isspace_def)
  ultimately show ?thesis
    using assms by (simp add: scan_int_def int_text_def scan_digits sign_of_def)
qed

lemma read_int_text: "lo \<le> z \<Longrightarrow> z \<le> hi \<Longrightarrow> r = [] \<or> \<not> isdigit (hd r) \<Longrightarrow> read_int lo hi (int_text z @ r) = Some (z, r)"
  by (simp add: read_int_def scan_int_text)

end
