(* ===== verification/Config_Lines.thy ===== *)
theory Config_Lines
  imports Number_Text
begin

text \<open>
  Configuration files: the set of configuration data
  (\<^verbatim>\<open>gcnf/plugin/configset.h\<close>), the parser of a line
  (\<^verbatim>\<open>apis/configFileApi/gc_config_parser.h\<close>) and the tool that reads a file
  (\<^verbatim>\<open>apis/configFileApi/configfile_tool.h\<close>). Boost's \<^verbatim>\<open>trim_left\<close> and
  \<^verbatim>\<open>trim\<close> are parameters.
\<close>

section \<open>The set of configuration data\<close>

type_synonym config_set = "(string, string) omap"

definition set_add :: "string \<Rightarrow> string \<Rightarrow> config_set \<Rightarrow> config_set \<times> bool" where
  "set_add k v m =
     (case map_insert k v m of
        (m1, isnew) \<Rightarrow> if \<not> isnew then (fst (map_insert k v (map_erase k m1)), isnew) else (m1, isnew))"

definition set_get :: "string \<Rightarrow> config_set \<Rightarrow> string" where
  "set_get k m = (case map_find m k of Some v \<Rightarrow> v | None \<Rightarrow> [])"

definition set_has :: "string \<Rightarrow> config_set \<Rightarrow> bool" where
  "set_has k m = (case map_find m k of Some v \<Rightarrow> True | None \<Rightarrow> False)"


section \<open>Searches for characters\<close>

fun first_of :: "(char \<Rightarrow> bool) \<Rightarrow> string \<Rightarrow> nat option" where
  "first_of P [] = None"
| "first_of P (c # s) = (if P c then Some 0 else map_option Suc (first_of P s))"

definition last_of :: "(char \<Rightarrow> bool) \<Rightarrow> string \<Rightarrow> nat option" where
  "last_of P s = map_option (\<lambda>i. length s - 1 - i) (first_of P (rev s))"

abbreviation blank :: "char \<Rightarrow> bool" where
  "blank c \<equiv> c = CHR '' '' \<or> c = CHR 0x09"

definition c_str :: "string \<Rightarrow> string" where
  "c_str s = takeWhile (\<lambda>c. c \<noteq> CHR 0x00) s"

lemma first_of_Some: "first_of P s = Some i \<Longrightarrow> i < length s \<and> P (s ! i) \<and> (\<forall>c \<in> set (take i s). \<not> P c)"
  by (induction s arbitrary: i) (auto split: if_splits)

lemma first_of_None: "first_of P s = None \<longleftrightarrow> (\<forall>c \<in> set s. \<not> P c)"
  by (induction s) auto

lemma first_of_append: "\<forall>c \<in> set s. \<not> P c \<Longrightarrow> first_of P (s @ c # t) = (if P c then Some (length s) else map_option ((+) (Suc (length s))) (first_of P t))"
proof (induction s)
  case (Cons a s)
  then show ?case by (cases "first_of P t") auto
qed (cases "first_of P t", simp_all)


section \<open>The parser of a line\<close>

datatype parse_result = Parse_Ignore | Parse_Param

text \<open>The words of a line, between spaces and tabs.\<close>

function token_loop :: "string \<Rightarrow> string list" where
  "token_loop token =
     (case first_of blank token of
        Some idx \<Rightarrow> (if idx > 0 then [take idx token] else []) @ token_loop (drop (idx + 1) token)
      | None \<Rightarrow> if length token > 0 then [token] else [])"
  by pat_completeness simp_all
termination by (relation "measure length") (simp_all, drule first_of_Some, linarith)

declare token_loop.simps [simp del]

definition cut_comment :: "string \<Rightarrow> string" where
  "cut_comment s = (case find_opt ''#'' s of Some idx \<Rightarrow> take idx s | None \<Rightarrow> s)"

definition parse :: "string \<Rightarrow> string list \<times> parse_result" where
  "parse token =
     (if token = [] then ([], Parse_Ignore)
      else let tokenlist = token_loop (cut_comment token) in
           if tokenlist = [] then (tokenlist, Parse_Ignore)
           else if length tokenlist = 1 then (tokenlist, Parse_Ignore)
           else (tokenlist, Parse_Param))"

text \<open>The value between the first and the last quote, if there are two.\<close>

definition cut_quotes :: "string \<Rightarrow> string" where
  "cut_quotes v =
     (case (first_of (\<lambda>c. c = CHR 0x22) v, last_of (\<lambda>c. c = CHR 0x22) v) of
        (Some i, Some j) \<Rightarrow> if i \<noteq> j then take (j - i - 1) (drop (i + 1) v) else v
      | _ \<Rightarrow> v)"

lemma quote_at: "str_find_from [CHR 0x5C, CHR 0x22] v loc = Some l \<Longrightarrow> loc \<le> l \<and> l + 2 \<le> length v"
proof -
  assume "str_find_from [CHR 0x5C, CHR 0x22] v loc = Some l"
  then obtain i where i: "loc \<le> length v" "find_opt [CHR 0x5C, CHR 0x22] (drop loc v) = Some i" "l = loc + i"
    by (auto simp: str_find_from_def split: if_splits)
  have "prefix [CHR 0x5C, CHR 0x22] (drop i (drop loc v))" using find_opt_SomeD [OF i(2)] by simp
  then have "2 \<le> length (drop i (drop loc v))" by (auto dest: prefix_length_le)
  then show ?thesis using i by simp
qed

text \<open>The loop that replaces a backslash and a quote by the quote, and searches on from there.\<close>

function quote_loop :: "nat \<Rightarrow> string \<Rightarrow> string" where
  "quote_loop loc v =
     (case str_find_from [CHR 0x5C, CHR 0x22] v loc of
        None \<Rightarrow> v
      | Some l \<Rightarrow> quote_loop l (take l v @ CHR 0x22 # drop (l + 2) v))"
  by pat_completeness simp_all
termination by (relation "measure (\<lambda>(_, v). length v)") (simp_all, drule quote_at, linarith)

declare quote_loop.simps [simp del]

definition interpret_config_line :: "(string \<Rightarrow> string) \<Rightarrow> (string \<Rightarrow> string) \<Rightarrow> string \<Rightarrow> (string \<times> string) res" where
  "interpret_config_line trim_left trim raw =
     (let lstr = trim_left (cut_comment (c_str raw)) in
      if lstr \<noteq> [] then
        (case parse lstr of
           (toks, Parse_Param) \<Rightarrow>
             (case find_opt (hd toks) lstr of
                None \<Rightarrow> Inl OutOfRange
              | Some pos \<Rightarrow>
                  (let val = drop pos lstr;
                       val = (case first_of blank val of Some i \<Rightarrow> drop (i + 1) val | None \<Rightarrow> val);
                       val = cut_quotes (trim val)
                   in Inr (hd toks, quote_loop 0 val)))
         | (_, Parse_Ignore) \<Rightarrow> Inr ([], ''parsing failed''))
      else Inr ([], []))"


section \<open>The replacement of quotes, and its inverse\<close>

fun unescape :: "string \<Rightarrow> string" where
  "unescape (c # d # r) = (if c = CHR 0x5C \<and> d = CHR 0x22 then CHR 0x22 # unescape r else c # unescape (d # r))"
| "unescape s = s"

definition escape :: "string \<Rightarrow> string" where
  "escape s = concat (map (\<lambda>c. if c = CHR 0x22 then [CHR 0x5C, CHR 0x22] else [c]) s)"

lemma escape_simps [simp]: "escape [] = []" "escape (c # s) = (if c = CHR 0x22 then CHR 0x5C # CHR 0x22 # escape s else c # escape s)"
  by (simp_all add: escape_def)

lemma unescape_quote: "unescape (CHR 0x22 # s) = CHR 0x22 # unescape s"
  by (cases s) simp_all

lemma unescape_escape: "unescape (escape s) = s"
proof (induction s)
  case (Cons c s)
  show ?case
  proof (cases "c = CHR 0x22")
    case False
    have "unescape (c # escape s) = c # unescape (escape s)"
      by (cases s) simp_all
    then show ?thesis using Cons False by simp
  qed (use Cons in simp)
qed simp

lemma unescape_find:
  "unescape s = (case find_opt [CHR 0x5C, CHR 0x22] s of None \<Rightarrow> s | Some i \<Rightarrow> take i s @ CHR 0x22 # unescape (drop (i + 2) s))"
  by (induction s rule: unescape.induct) (auto split: option.splits)

lemma quote_loop_unescape: "loc \<le> length v \<Longrightarrow> quote_loop loc v = take loc v @ unescape (drop loc v)"
proof (induction loc v rule: quote_loop.induct)
  case (1 loc v)
  show ?case
  proof (cases "str_find_from [CHR 0x5C, CHR 0x22] v loc")
    case None
    then have "find_opt [CHR 0x5C, CHR 0x22] (drop loc v) = None" using 1(2) by (simp add: str_find_from_def)
    then have "unescape (drop loc v) = drop loc v" using unescape_find [of "drop loc v"] by simp
    then show ?thesis using None by (simp add: quote_loop.simps)
  next
    case (Some l)
    note l = quote_at [OF Some]
    obtain i where i: "find_opt [CHR 0x5C, CHR 0x22] (drop loc v) = Some i" "l = loc + i"
      using Some by (auto simp: str_find_from_def split: if_splits)
    have "quote_loop loc v = quote_loop l (take l v @ CHR 0x22 # drop (l + 2) v)" using Some by (simp add: quote_loop.simps)
    also have "\<dots> = take l v @ CHR 0x22 # unescape (drop (l + 2) v)"
    proof -
      have "l \<le> length (take l v @ CHR 0x22 # drop (l + 2) v)" using l by (simp, linarith)
      from 1(1) [OF Some this] show ?thesis using l by (simp add: unescape_quote)
    qed
    also have "take l v = take loc v @ take i (drop loc v)" using i(2) by (simp add: take_add)
    also have "drop (l + 2) v = drop (i + 2) (drop loc v)" using i(2) by (simp add: add.assoc add.commute)
    finally show ?thesis using unescape_find [of "drop loc v"] i(1) by simp
  qed
qed

text \<open>The loop that restarts its search at every replacement is one pass over the value.\<close>

lemma quote_loop_is_unescape: "quote_loop 0 v = unescape v"
  using quote_loop_unescape [of 0 v] by simp


section \<open>Reading a file\<close>

text \<open>
  The stream: what is left of the file, the end-of-file and the failure flag. A line of \<^verbatim>\<open>n\<close> or
  more characters does not fit into the buffer: \<^verbatim>\<open>getline\<close> stores \<^verbatim>\<open>n - 1\<close> of them and fails.
\<close>

record ifstream =
  is_rest :: string
  is_eof :: bool
  is_fail :: bool

definition getline :: "nat \<Rightarrow> ifstream \<Rightarrow> string \<times> ifstream" where
  "getline n st =
     (if is_eof st \<or> is_fail st then ([], st\<lparr>is_fail := True\<rparr>)
      else let l = takeWhile (\<lambda>c. c \<noteq> CHR 0x0A) (is_rest st);
               r = dropWhile (\<lambda>c. c \<noteq> CHR 0x0A) (is_rest st) in
           if length l < n
           then (if r = [] then (l, st\<lparr>is_rest := [], is_eof := True, is_fail := l = []\<rparr>) else (l, st\<lparr>is_rest := tl r\<rparr>))
           else (take (n - 1) l, st\<lparr>is_rest := drop (n - 1) (is_rest st), is_fail := True\<rparr>))"

definition BUFSIZE :: nat where
  "BUFSIZE = 1024"

definition upper_or_underscore :: "char \<Rightarrow> bool" where
  "upper_or_underscore c \<longleftrightarrow> c = CHR ''_'' \<or> (65 \<le> (of_char c :: nat) \<and> (of_char c :: nat) \<le> 90)"

text \<open>What a line does to the macros and to the configuration set.\<close>

definition line_step ::
  "(string \<Rightarrow> string) \<Rightarrow> (string \<Rightarrow> string) \<Rightarrow> string \<Rightarrow> config_set \<times> config_set \<Rightarrow> (config_set \<times> config_set) res" where
  "line_step trim_left trim line s =
     (case s of (macro_set, config_set) \<Rightarrow>
        bindr (interpret_config_line trim_left trim line) (\<lambda>(name, val). Inr
          (if length name > 0 then
             if take 1 val = ''='' then
               if first_of (\<lambda>c. \<not> upper_or_underscore c) name = None
               then (fst (set_add name (trim (drop 1 val)) macro_set), config_set)
               else (macro_set, config_set)
             else if \<not> set_has val macro_set then (macro_set, fst (set_add name val config_set))
             else (macro_set, fst (set_add name (set_get val macro_set) config_set))
           else (macro_set, config_set))))"

function read_loop ::
  "(string \<Rightarrow> string) \<Rightarrow> (string \<Rightarrow> string) \<Rightarrow> ifstream \<Rightarrow> config_set \<times> config_set \<Rightarrow> config_set res" where
  "read_loop trim_left trim st s =
     (if is_fail st then Inr (snd s)
      else case getline BUFSIZE st of
             (line, st') \<Rightarrow> bindr (line_step trim_left trim line s) (read_loop trim_left trim st'))"
  by pat_completeness simp_all
termination
proof (relation "measure (\<lambda>(_, _, st, _). length (is_rest st) + (if is_eof st then 0 else 1) + (if is_fail st then 0 else 1))")
  fix st :: ifstream and line and st' :: ifstream
  assume a: "\<not> is_fail st" "(line, st') = getline BUFSIZE st"
  have "length (dropWhile (\<lambda>c. c \<noteq> CHR 0x0A) (is_rest st)) \<le> length (is_rest st)" by (rule length_dropWhile_le)
  moreover have "length (tl x) < length y" if "length x \<le> length y" "x \<noteq> []" for x y :: string using that by (cases x) auto
  ultimately show "((tf, tr, st', s'), (tf, tr, st, s)) \<in> measure (\<lambda>(_, _, st, _).
      length (is_rest st) + (if is_eof st then 0 else 1) + (if is_fail st then 0 else 1))" for tf tr s' s
    using a by (auto simp: getline_def Let_def BUFSIZE_def length_dropWhile_le split: if_splits)
qed simp

declare read_loop.simps [simp del]

definition create_config_set_from_file ::
  "(string \<Rightarrow> string) \<Rightarrow> (string \<Rightarrow> string) \<Rightarrow> string option \<Rightarrow> config_set res" where
  "create_config_set_from_file trim_left trim file =
     (case file of
        None \<Rightarrow> Inr []
      | Some text \<Rightarrow> read_loop trim_left trim \<lparr>is_rest = text, is_eof = False, is_fail = False\<rparr> ([], []))"


section \<open>What Boost documents of its trimming\<close>

definition boost_trims :: "(string \<Rightarrow> string) \<Rightarrow> (string \<Rightarrow> string) \<Rightarrow> bool" where
  "boost_trims trim_left trim \<longleftrightarrow>
     (\<forall>s. trim_left s = dropWhile isspace s) \<and> (\<forall>s. trim s = rev (dropWhile isspace (rev (dropWhile isspace s))))"

section \<open>Lines that are written and read\<close>

definition config_line_text :: "string \<Rightarrow> string \<Rightarrow> string" where
  "config_line_text name val = name @ CHR '' '' # CHR 0x22 # escape val @ [CHR 0x22]"

definition name_char :: "char \<Rightarrow> bool" where
  "name_char c \<longleftrightarrow> \<not> isspace c \<and> c \<noteq> CHR ''#'' \<and> c \<noteq> CHR 0x00"

definition value_char :: "char \<Rightarrow> bool" where
  "value_char c \<longleftrightarrow> c \<noteq> CHR ''#'' \<and> c \<noteq> CHR 0x00 \<and> c \<noteq> CHR 0x0A"

definition plain_entry :: "string \<Rightarrow> string \<Rightarrow> bool" where
  "plain_entry name val \<longleftrightarrow> name \<noteq> [] \<and> list_all name_char name \<and> list_all value_char val"

lemma set_escape: "set (escape v) \<subseteq> insert (CHR 0x5C) (set v)"
  by (induction v) auto

lemma token_loop_nonempty: "c \<in> set t \<Longrightarrow> \<not> blank c \<Longrightarrow> token_loop t \<noteq> []"
proof (induction t rule: token_loop.induct)
  case (1 t)
  show ?case
  proof (cases "first_of blank t")
    case None
    then show ?thesis using 1(2) by (subst token_loop.simps) auto
  next
    case (Some i)
    show ?thesis
    proof (cases "i > 0")
      case False
      obtain d r where t: "t = d # r" using 1(2) by (cases t) auto
      then have "blank d" using first_of_Some [OF Some] False by simp
      then have "c \<in> set (drop (i + 1) t)" using t 1(2,3) False by auto
      then have "token_loop (drop (i + 1) t) \<noteq> []" using 1(1) [OF Some] 1(3) by blast
      then show ?thesis using Some by (subst token_loop.simps) simp
    qed (use Some in \<open>subst token_loop.simps, simp\<close>)
  qed
qed

lemma isspace_quote [simp]: "isspace (CHR 0x22) = False" "isspace (CHR 0x09)" "isspace (CHR '' '')"
  by (simp_all add: isspace_def)

lemma cut_quotes_quoted: "cut_quotes (CHR 0x22 # s @ [CHR 0x22]) = s"
  by (simp add: cut_quotes_def last_of_def)

lemma name_not_blank: "list_all name_char name \<Longrightarrow> \<forall>c \<in> set name. \<not> blank c"
  unfolding list_all_iff name_char_def by (metis isspace_quote(2,3))

lemma interpret_written:
  assumes b: "boost_trims tf tr" and p: "plain_entry name val"
  shows "interpret_config_line tf tr (config_line_text name val) = Inr (name, val)"
proof -
  let ?rest = "CHR 0x22 # escape val @ [CHR 0x22]"
  let ?l = "name @ CHR '' '' # ?rest"
  obtain n ns where n: "name = n # ns" "name_char n" using p by (cases name) (auto simp: plain_entry_def)
  have name: "\<forall>c \<in> set name. \<not> blank c" by (rule name_not_blank) (use p in \<open>simp add: plain_entry_def\<close>)
  have chars: "\<forall>c \<in> set ?l. c \<noteq> CHR 0x00 \<and> c \<noteq> CHR ''#''"
  proof -
    have n: "\<forall>c \<in> set name. c \<noteq> CHR 0x00 \<and> c \<noteq> CHR ''#''"
      using p unfolding plain_entry_def list_all_iff name_char_def by blast
    have "\<forall>c \<in> insert (CHR 0x5C) (set val). c \<noteq> CHR 0x00 \<and> c \<noteq> CHR ''#''"
      using p unfolding plain_entry_def list_all_iff value_char_def by simp
    then have e: "\<forall>c \<in> set (escape val). c \<noteq> CHR 0x00 \<and> c \<noteq> CHR ''#''" using set_escape [of val] by blast
    have "set ?l = set name \<union> set (escape val) \<union> {CHR '' '', CHR 0x22}" by auto
    with n e show ?thesis by (simp add: ball_Un)
  qed
  then have c: "c_str ?l = ?l" unfolding c_str_def by (intro takeWhile_eq_all_conv [THEN iffD2]) blast
  have h: "find_opt ''#'' s = None" if "CHR ''#'' \<notin> set s" for s using that by (induction s) auto
  have "CHR ''#'' \<notin> set ?l" using chars by blast
  then have cut: "cut_comment ?l = ?l" using h by (simp add: cut_comment_def del: set_append)
  have left: "tf ?l = ?l" using b n by (simp add: boost_trims_def name_char_def)
  have f: "first_of blank ?l = Some (length name)" using first_of_append [OF name, of "CHR '' ''" ?rest] by simp
  have r: "token_loop ?rest \<noteq> []" by (rule token_loop_nonempty [of "CHR 0x22"]) simp_all
  have t: "token_loop ?l = name # token_loop ?rest" using f n by (subst token_loop.simps) simp
  have parse: "parse ?l = (name # token_loop ?rest, Parse_Param)" using r cut t by (simp add: parse_def)
  have find: "find_opt name ?l = Some 0" by (simp add: find_opt_0)
  have trim: "tr ?rest = ?rest" using b by (simp add: boost_trims_def)
  have "interpret_config_line tf tr ?l = Inr (name, quote_loop 0 (escape val))"
    unfolding interpret_config_line_def Let_def c cut left parse
    by (simp add: find f trim cut_quotes_quoted)
  then show ?thesis by (simp add: config_line_text_def quote_loop_is_unescape unescape_escape)
qed


section \<open>Files that are written and read\<close>

definition config_text :: "config_set \<Rightarrow> string" where
  "config_text m = concat (map (\<lambda>(n, v). config_line_text n v @ [CHR 0x0A]) m)"

abbreviation stream :: "string \<Rightarrow> ifstream" where
  "stream t \<equiv> \<lparr>is_rest = t, is_eof = False, is_fail = False\<rparr>"

lemma read_line:
  assumes "CHR 0x0A \<notin> set l" and "length l < BUFSIZE"
  shows "read_loop tf tr (stream (l @ CHR 0x0A # t)) s = bindr (line_step tf tr l s) (read_loop tf tr (stream t))"
proof -
  have w: "\<forall>c \<in> set l. c \<noteq> CHR 0x0A" using assms(1) by blast
  then have "takeWhile (\<lambda>c. c \<noteq> CHR 0x0A) (l @ CHR 0x0A # t) = l" "dropWhile (\<lambda>c. c \<noteq> CHR 0x0A) (l @ CHR 0x0A # t) = CHR 0x0A # t"
    by (simp_all add: takeWhile_append2 dropWhile_append2)
  then have "getline BUFSIZE (stream (l @ CHR 0x0A # t)) = (l, stream t)" using assms(2) by (simp add: getline_def)
  then show ?thesis by (subst read_loop.simps) simp
qed

lemma line_step_empty: "boost_trims tf tr \<Longrightarrow> line_step tf tr [] s = Inr s"
  by (cases s) (simp add: line_step_def interpret_config_line_def c_str_def cut_comment_def boost_trims_def)

lemma read_nothing:
  assumes "boost_trims tf tr"
  shows "read_loop tf tr (stream []) s = Inr (snd s)" "read_loop tf tr \<lparr>is_rest = [], is_eof = True, is_fail = False\<rparr> s = Inr (snd s)"
proof -
  have f: "read_loop tf tr \<lparr>is_rest = [], is_eof = True, is_fail = True\<rparr> s = Inr (snd s)" by (subst read_loop.simps) simp
  have g: "getline BUFSIZE (stream []) = ([], \<lparr>is_rest = [], is_eof = True, is_fail = True\<rparr>)"
    "getline BUFSIZE \<lparr>is_rest = [], is_eof = True, is_fail = False\<rparr> = ([], \<lparr>is_rest = [], is_eof = True, is_fail = True\<rparr>)"
    by (simp_all add: getline_def BUFSIZE_def)
  show "read_loop tf tr (stream []) s = Inr (snd s)"
    by (subst read_loop.simps) (simp add: g(1) line_step_empty [OF assms] f)
  show "read_loop tf tr \<lparr>is_rest = [], is_eof = True, is_fail = False\<rparr> s = Inr (snd s)"
    by (subst read_loop.simps) (simp add: g(2) line_step_empty [OF assms] f)
qed

lemma put_last: "\<forall>x \<in> set m. fst x < k \<Longrightarrow> map_put k v m = m @ [(k, v)]"
  by (induction k v m rule: map_put.induct) auto

definition readable :: "string \<times> string \<Rightarrow> bool" where
  "readable = (\<lambda>(name, val). plain_entry name val \<and> take 1 val \<noteq> ''='' \<and> length (config_line_text name val) < BUFSIZE)"

lemma written_no_newline: "plain_entry name val \<Longrightarrow> CHR 0x0A \<notin> set (config_line_text name val)"
proof -
  assume p: "plain_entry name val"
  have "isspace (CHR 0x0A)" by (simp add: isspace_def)
  then have "CHR 0x0A \<notin> set name" using p unfolding plain_entry_def list_all_iff name_char_def by metis
  moreover have "CHR 0x0A \<notin> insert (CHR 0x5C) (set val)" using p unfolding plain_entry_def list_all_iff value_char_def by auto
  then have "CHR 0x0A \<notin> set (escape val)" using set_escape [of val] by blast
  ultimately show ?thesis by (simp add: config_line_text_def)
qed

lemma read_entries:
  assumes "boost_trims tf tr" and "omap_ok (cs @ m)" and "\<forall>e \<in> set m. readable e"
  shows "read_loop tf tr (stream (config_text m @ t)) ([], cs) = read_loop tf tr (stream t) ([], cs @ m)"
  using assms(2,3)
proof (induction m arbitrary: cs)
  case (Cons e m)
  obtain n v where e: "e = (n, v)" by (cases e)
  have p: "plain_entry n v" "take 1 v \<noteq> ''=''" "length (config_line_text n v) < BUFSIZE" using Cons.prems(2) e by (simp_all add: readable_def)
  have k: "\<forall>x \<in> set cs. fst x < n" using Cons.prems(1) e by (auto simp: omap_ok_def sorted_wrt_append)
  then have new: "map_find cs n = None" by (force simp: map_of_eq_None_iff)
  have step: "line_step tf tr (config_line_text n v) ([], cs) = Inr ([], cs @ [(n, v)])"
    using p new k by (simp add: line_step_def interpret_written [OF assms(1)] set_has_def set_add_def map_insert_def put_last plain_entry_def)
  have "config_text (e # m) @ t = config_line_text n v @ CHR 0x0A # (config_text m @ t)" by (simp add: config_text_def e)
  then have "read_loop tf tr (stream (config_text (e # m) @ t)) ([], cs) = read_loop tf tr (stream (config_text m @ t)) ([], cs @ [(n, v)])"
    by (simp only: read_line [OF written_no_newline [OF p(1)] p(3)] step bindr_Inr)
  also have "\<dots> = read_loop tf tr (stream t) ([], (cs @ [(n, v)]) @ m)"
    using Cons.prems e by (intro Cons.IH) simp_all
  finally show ?case using e by simp
qed (simp add: config_text_def)

text \<open>
  Round trip of configuration files: a set of configuration data written as a file, one line per entry
  with the name, a space and the value in quotes with its quotes escaped, is read back as it was; provided no
  line reaches the size of the buffer, names have no white space, no value begins with an equals sign, and neither has a hash sign.
\<close>

theorem config_file_roundtrip:
  assumes "boost_trims tf tr" and "omap_ok m" and "\<forall>e \<in> set m. readable e"
  shows "create_config_set_from_file tf tr (Some (config_text m)) = Inr m"
  using read_entries [of tf tr "[]" m "[]"] assms read_nothing(1) by (simp add: create_config_set_from_file_def)

definition boost_trim_left :: "string \<Rightarrow> string" where
  "boost_trim_left s = dropWhile isspace s"

definition boost_trim :: "string \<Rightarrow> string" where
  "boost_trim s = rev (dropWhile isspace (rev (dropWhile isspace s)))"

lemma boost_trims_sample: "boost_trims boost_trim_left boost_trim"
  by (simp add: boost_trims_def boost_trim_left_def boost_trim_def)

definition sample_config :: config_set where
  "sample_config = [(''IP1.size'', ''12''), (''IP2.msg'', ''say '' @ CHR 0x22 # ''hi'' @ [CHR 0x22, CHR 0x5C])]"

lemma sample_config_ok: "omap_ok sample_config" "list_all readable sample_config"
  by code_simp+

theorem config_file_roundtrip_witness:
  "create_config_set_from_file boost_trim_left boost_trim (Some (config_text sample_config)) = Inr sample_config"
  using sample_config_ok by (intro config_file_roundtrip boost_trims_sample) (simp_all add: list_all_iff)

text \<open>
  C30. A line that does not fit into the buffer of 1024 characters ends the reading of a configuration file without a
  word: it counts as its first 1023 characters, and whatever follows in it and after it has no influence on the configuration.
\<close>

theorem long_line_ends_file:
  assumes "boost_trims tf tr" and "CHR 0x0A \<notin> set l" and "BUFSIZE \<le> length l" and "omap_ok m" and "\<forall>e \<in> set m. readable e"
  shows "create_config_set_from_file tf tr (Some (config_text m @ l @ rest)) =
    create_config_set_from_file tf tr (Some (config_text m @ take (BUFSIZE - 1) l))"
proof -
  let ?s = "take (BUFSIZE - 1) l"
  have l: "\<forall>c \<in> set l. c \<noteq> CHR 0x0A" "l \<noteq> []" using assms(2,3) by (auto simp: BUFSIZE_def)
  then have s: "\<forall>c \<in> set ?s. c \<noteq> CHR 0x0A" by (meson in_set_takeD)
  have "l = takeWhile (\<lambda>c. c \<noteq> CHR 0x0A) (l @ rest) \<or> (\<exists>u. takeWhile (\<lambda>c. c \<noteq> CHR 0x0A) (l @ rest) = l @ u)"
    using l by (simp add: takeWhile_append2)
  then obtain u where u: "takeWhile (\<lambda>c. c \<noteq> CHR 0x0A) (l @ rest) = l @ u" by (metis append_Nil2)
  have g1: "getline BUFSIZE (stream (l @ rest)) = (?s, \<lparr>is_rest = drop (BUFSIZE - 1) (l @ rest), is_eof = False, is_fail = True\<rparr>)"
    using assms(3) u by (simp add: getline_def Let_def)
  have "takeWhile (\<lambda>c. c \<noteq> CHR 0x0A) ?s = ?s" "dropWhile (\<lambda>c. c \<noteq> CHR 0x0A) ?s = []" "length ?s < BUFSIZE" "?s \<noteq> []"
    using s assms(3) l(2) by (simp_all add: BUFSIZE_def)
  then have g2: "getline BUFSIZE (stream ?s) = (?s, \<lparr>is_rest = [], is_eof = True, is_fail = False\<rparr>)"
    by (simp only: getline_def Let_def ifstream.simps) simp
  have e: "read_loop tf tr \<lparr>is_rest = r, is_eof = False, is_fail = True\<rparr> = (\<lambda>x. Inr (snd x))" for r
    by (rule ext, subst read_loop.simps) simp
  have e2: "read_loop tf tr \<lparr>is_rest = [], is_eof = True, is_fail = False\<rparr> = (\<lambda>x. Inr (snd x))"
    by (rule ext) (rule read_nothing(2) [OF assms(1)])
  have "read_loop tf tr (stream (l @ rest)) x = bindr (line_step tf tr ?s x) (\<lambda>y. Inr (snd y))" for x
    by (subst read_loop.simps) (unfold g1, simp add: e)
  moreover have "read_loop tf tr (stream ?s) x = bindr (line_step tf tr ?s x) (\<lambda>y. Inr (snd y))" for x
    by (subst read_loop.simps) (unfold g2, simp add: e2)
  ultimately have "read_loop tf tr (stream (l @ rest)) x = read_loop tf tr (stream ?s) x" for x by simp
  then show ?thesis
    using read_entries [OF assms(1), of "[]" m] assms(4,5) by (simp add: create_config_set_from_file_def)
qed

theorem long_line_ends_file_witness:
  "create_config_set_from_file boost_trim_left boost_trim (Some (config_text sample_config @ replicate 2000 (CHR ''x'') @ ''IP1.size 7'')) =
   create_config_set_from_file boost_trim_left boost_trim (Some (config_text sample_config @ take 1023 (replicate 2000 (CHR ''x''))))"
  using long_line_ends_file [OF boost_trims_sample, of "replicate 2000 (CHR ''x'')" sample_config "''IP1.size 7''"] sample_config_ok
  by (simp add: BUFSIZE_def list_all_iff)

end
