(* ===== verification/Config_Files.thy ===== *)
theory Config_Files
  imports Config_Api Config_Lines
begin

text \<open>
  Configuration files and command line options on their way to the parameters: the file tool
  (\<^verbatim>\<open>apis/configFileApi/configfile_tool.h\<close>) and the command line parser
  (\<^verbatim>\<open>apis/commandLineConfigParserApi/commandLineConfigParser.h\<close>) over the API. What
  \<^verbatim>\<open>boost::program_options\<close> finds on the command line is a parameter: whether help was asked for, and the
  values of the option.
\<close>

section \<open>The tools\<close>

fun apply_entries :: "'s api_env \<Rightarrow> config_set \<Rightarrow> 's \<Rightarrow> 's res" where
  "apply_entries A [] s = Inr s"
| "apply_entries A ((n, v) # m) s = bindr (api_setInitValue A n v [] s) (\<lambda>(_, s'). apply_entries A m s')"

definition config_file ::
  "'s api_env \<Rightarrow> (string \<Rightarrow> string) \<Rightarrow> (string \<Rightarrow> string) \<Rightarrow> string option \<Rightarrow> 's \<Rightarrow> 's res" where
  "config_file A tf tr file s = bindr (create_config_set_from_file tf tr file) (\<lambda>m. apply_entries A m s)"

definition config_line ::
  "'s api_env \<Rightarrow> (string \<Rightarrow> string) \<Rightarrow> (string \<Rightarrow> string) \<Rightarrow> string \<Rightarrow> 's \<Rightarrow> (bool \<times> 's) res" where
  "config_line A tf tr line s =
     bindr (interpret_config_line tf tr line) (\<lambda>(name, val).
       if length name > 0 then bindr (api_setInitValue A name val [] s) (\<lambda>(_, s'). Inr (True, s'))
       else if length val > 0 then Inr (False, s)
       else Inr (True, s))"

fun config_files ::
  "'s api_env \<Rightarrow> (string \<Rightarrow> string) \<Rightarrow> (string \<Rightarrow> string) \<Rightarrow> (string \<Rightarrow> string option) \<Rightarrow> string list \<Rightarrow> 's \<Rightarrow> 's res" where
  "config_files A tf tr fs [] s = Inr s"
| "config_files A tf tr fs (f # vec) s = bindr (config_file A tf tr (fs f) s) (config_files A tf tr fs vec)"

definition parseCommandLineWithBoost ::
  "'s api_env \<Rightarrow> (string \<Rightarrow> string) \<Rightarrow> (string \<Rightarrow> string) \<Rightarrow> (string \<Rightarrow> string option) \<Rightarrow> bool \<Rightarrow> string list \<Rightarrow> 's \<Rightarrow> 's res" where
  "parseCommandLineWithBoost A tf tr fs help vec s = (if help then Inr s else config_files A tf tr fs vec s)"

definition no_equals :: cpp_error where
  "no_equals = StdException (''Option value in command line option has no '' @ [CHR 0x27, CHR ''='', CHR 0x27] @ ''. Type '' @
     CHR 0x27 # ''--help'' @ CHR 0x27 # '' for help.'')"

definition space_before_equals :: cpp_error where
  "space_before_equals = StdException (''Option value in command line option may not contain a space before '' @
     [CHR 0x27, CHR ''='', CHR 0x27, CHR ''.''])"

definition parseAndSetParam :: "'s api_env \<Rightarrow> string \<Rightarrow> 's \<Rightarrow> 's res" where
  "parseAndSetParam A argval s =
     (case first_of (\<lambda>c. c = CHR ''='') argval of
        None \<Rightarrow> Inl no_equals
      | Some e \<Rightarrow>
          if (case first_of (\<lambda>c. c = CHR '' '') argval of Some b \<Rightarrow> b < e | None \<Rightarrow> False)
          then Inl space_before_equals
          else bindr (api_setInitValue A (take e argval) (drop (e + 1) argval) [] s) (\<lambda>(_, s'). Inr s'))"

fun set_params :: "'s api_env \<Rightarrow> string list \<Rightarrow> 's \<Rightarrow> 's res" where
  "set_params A [] s = Inr s"
| "set_params A (a # vec) s = bindr (parseAndSetParam A a s) (set_params A vec)"

definition parse_gs_params :: "'s api_env \<Rightarrow> bool \<Rightarrow> string list \<Rightarrow> 's \<Rightarrow> 's res" where
  "parse_gs_params A help vec s = (if help then Inr s else set_params A vec s)"


section \<open>What the options and the files do\<close>

lemma first_of_char: "first_of (\<lambda>c. c = x) s = (if x \<in> set s then Some (length (takeWhile (\<lambda>c. c \<noteq> x) s)) else None)"
  by (induction s) auto

lemma option_no_equals:
  "CHR ''='' \<notin> set arg \<Longrightarrow>
   parseAndSetParam A arg s = Inl no_equals"
  by (simp add: parseAndSetParam_def first_of_char)

lemma before_equals: "CHR ''='' \<notin> set n \<Longrightarrow> first_of (\<lambda>c. c = CHR ''='') (n @ CHR ''='' # v) = Some (length n)"
proof -
  assume "CHR ''='' \<notin> set n"
  then have "\<forall>c \<in> set n. \<not> c = CHR ''=''" by metis
  from first_of_append [OF this, of "CHR ''=''" v] show ?thesis by simp
qed

lemma option_space:
  assumes "CHR ''='' \<notin> set n" and "CHR '' '' \<in> set n"
  shows "parseAndSetParam A (n @ CHR ''='' # v) s =
    Inl space_before_equals"
proof -
  obtain b where b: "first_of (\<lambda>c. c = CHR '' '') n = Some b" using assms(2) by (simp add: first_of_char)
  have "first_of P n = Some b \<Longrightarrow> first_of P (n @ w) = Some b" for P w
    by (induction n arbitrary: b) (auto split: if_splits)
  with b have "first_of (\<lambda>c. c = CHR '' '') (n @ CHR ''='' # v) = Some b" by blast
  moreover have "b < length n" using first_of_Some [OF b] by simp
  ultimately show ?thesis by (simp add: parseAndSetParam_def before_equals [OF assms(1)])
qed

lemma option_sets:
  assumes "CHR ''='' \<notin> set n" and "CHR '' '' \<notin> set n"
  shows "parseAndSetParam A (n @ CHR ''='' # v) s = bindr (api_setInitValue A n v [] s) (\<lambda>(_, s'). Inr s')"
proof -
  have "\<not> b < length n" if b: "first_of (\<lambda>c. c = CHR '' '') (n @ CHR ''='' # v) = Some b" for b
  proof
    assume "b < length n"
    then have "(n @ CHR ''='' # v) ! b \<in> set n" by (simp add: nth_append)
    then show False using first_of_Some [OF b] assms(2) by simp
  qed
  then show ?thesis by (auto simp: parseAndSetParam_def before_equals [OF assms(1)] split: option.split)
qed

definition option_text :: "string \<times> string \<Rightarrow> string" where
  "option_text = (\<lambda>(n, v). n @ CHR ''='' # v)"

definition option_name :: "string \<Rightarrow> bool" where
  "option_name n \<longleftrightarrow> CHR ''='' \<notin> set n \<and> CHR '' '' \<notin> set n"

lemma set_params_entries:
  "\<forall>e \<in> set es. option_name (fst e) \<Longrightarrow> set_params A (map option_text es) s = apply_entries A es s"
proof (induction es arbitrary: s)
  case (Cons e es)
  obtain n v where e: "e = (n, v)" by (cases e)
  have n: "CHR ''='' \<notin> set n" "CHR '' '' \<notin> set n" using Cons.prems e by (simp_all add: option_name_def)
  have "set_params A (map option_text es) = apply_entries A es" using Cons by (intro ext) simp
  then have "set_params A (map option_text (e # es)) s = bindr (bindr (api_setInitValue A n v [] s) (\<lambda>(_, s'). Inr s')) (apply_entries A es)"
    by (simp add: e option_text_def option_sets [OF n])
  also have "\<dots> = apply_entries A (e # es) s"
    by (cases "api_setInitValue A n v [] s") (auto simp: e)
  finally show ?case .
qed simp

context config_service
begin

lemma apply_entries_done:
  assumes "ok s" and "\<forall>e \<in> set es. \<not> explicit s (fst e)"
  shows "\<exists>s'. apply_entries api es s = Inr s' \<and> ok s' \<and> explicit s' = explicit s \<and> locked s' = locked s \<and>
    (\<forall>n. init s' n = (case map_of (rev es) n of Some v \<Rightarrow> if locked s n then init s n else v | None \<Rightarrow> init s n))"
  using assms
proof (induction es arbitrary: s)
  case (Cons e es)
  obtain n v where e: "e = (n, v)" by (cases e)
  obtain r s1 where s1: "api_setInitValue api n v [] s = Inr (r, s1)" "ok s1" "explicit s1 = explicit s" "locked s1 = locked s"
      "init s1 = (if locked s n then init s else (init s)(n := v))"
  proof (cases "locked s n")
    case True
    then show ?thesis using that [of False s] setInitValue_refused [OF Cons.prems(1) True] Cons.prems(1) by simp
  next
    case False
    have "\<not> explicit s n" using Cons.prems(2) e by simp
    from setInitValue_done [OF Cons.prems(1) False this, of v "[]"] obtain s' where
      "api_setInitValue api n v [] s = Inr (True, s')" "ok s'" "set_answer known init locked explicit n v s s'" by blast
    then show ?thesis using that [of True s'] False by (simp add: set_answer_def)
  qed
  have "\<forall>e \<in> set es. \<not> explicit s1 (fst e)" using Cons.prems(2) s1(3) by simp
  from Cons.IH [OF s1(2) this] obtain s2 where s2: "apply_entries api es s1 = Inr s2" "ok s2" "explicit s2 = explicit s1"
      "locked s2 = locked s1" "\<forall>k. init s2 k = (case map_of (rev es) k of Some w \<Rightarrow> if locked s1 k then init s1 k else w | None \<Rightarrow> init s1 k)"
    by blast
  have "init s2 k = (case map_of (rev (e # es)) k of Some w \<Rightarrow> if locked s k then init s k else w | None \<Rightarrow> init s k)" for k
    using s2(5) s1(4,5) e by (cases "map_of (rev es) k") (auto simp: map_add_def)
  then show ?case using s1 s2 e by simp
qed simp

end

text \<open>
  The options of a command line reach the parameters: applied from the first to the last through the API, the core and the
  plugin, the last option for a name decides its initial value, whatever it contains behind the first equals
  sign; a locked initial value stays, and no other name is touched.
\<close>

theorem command_line_configures:
  assumes "service_ok P c" and "\<forall>e \<in> set es. option_name (fst e) \<and> \<not> has_object c (fst e)"
  shows "\<exists>c'. parse_gs_params (config_api P f a stale) False (map option_text es) c = Inr c' \<and>
    (\<forall>n. init_of c' n = (case map_of (rev es) n of Some v \<Rightarrow> if init_locked c n then init_of c n else v | None \<Rightarrow> init_of c n))"
proof -
  have "\<forall>e \<in> set es. option_name (fst e)" "\<forall>e \<in> set es. \<not> has_object c (fst e)" using assms(2) by blast+
  then show ?thesis
    using cfg.apply_entries_done [OF assms(1), of es f a stale]
    by (auto simp: parse_gs_params_def set_params_entries config_api_cfg)
qed

text \<open>
  C3. A configuration file reaches the parameters. Take a configuration set, which has each name once and in order, of readable entries:
  names without blanks, values without line breaks that do not begin with an equals sign, both without the character that starts
  a comment and without null characters, and lines shorter than the buffer of 1024 characters (a longer one ends the reading of the file). Take the file that has each entry on a line of its own, and a
  service in which no parameter object stands under any name of the set yet (with one, setting its initial value would write the object).
  Then \<^verbatim>\<open>config\<close> gives every parameter of the set the initial value that was written, unless its initial value is
  locked, in which case it keeps that, and touches no other name.
\<close>

theorem config_file_configures:
  assumes "service_ok P c" and "boost_trims tf tr" and "omap_ok m" and "\<forall>e \<in> set m. readable e \<and> \<not> has_object c (fst e)"
  shows "\<exists>c'. config_file (config_api P f a stale) tf tr (Some (config_text m)) c = Inr c' \<and>
    (\<forall>n. init_of c' n = (case map_find m n of Some v \<Rightarrow> if init_locked c n then init_of c n else v | None \<Rightarrow> init_of c n))"
proof -
  have r: "\<forall>e \<in> set m. readable e" "\<forall>e \<in> set m. \<not> has_object c (fst e)" using assms(4) by blast+
  have read: "create_config_set_from_file tf tr (Some (config_text m)) = Inr m"
    using read_entries [OF assms(2), of "[]" m "[]"] assms(2,3) r read_nothing(1) by (simp add: create_config_set_from_file_def)
  have "map_of (rev m) = map_of m" using omap_ok_distinct [OF assms(3)] by (subst map_of_inject_set) (simp_all add: rev_map [symmetric])
  then show ?thesis using cfg.apply_entries_done [OF assms(1) r(2), of f a stale] by (simp add: config_file_def read config_api_cfg) blast
qed

lemma sample_core_service: "service_ok sample_plug sample_core" "\<not> has_object sample_core n" "\<not> init_locked sample_core n"
  using sample_plugin_ok(1,3)
  by (simp_all add: service_ok_def service_view_defs db_view_defs sample_core_def sample_cnf_def
      sample_plug_def decode_def getAddrFromService_def mm_equal_range_def)

theorem command_line_configures_witness:
  "\<exists>c'. parse_gs_params (config_api sample_plug (\<lambda>_ t. t) 3 (\<lambda>_. new_transaction 0 0)) False
      [''IP1.size=1'', ''IP2.eq=a=b'', ''IP1.size=2''] sample_core = Inr c' \<and> init_of c' ''IP1.size'' = ''2'' \<and> init_of c' ''IP2.eq'' = ''a=b''"
proof -
  let ?es = "[(''IP1.size'', ''1''), (''IP2.eq'', ''a=b''), (''IP1.size'', ''2'')]"
  have o: "\<forall>e \<in> set ?es. option_name (fst e) \<and> \<not> has_object sample_core (fst e)"
    by (simp add: option_name_def sample_core_service)
  have t: "map option_text ?es = [''IP1.size=1'', ''IP2.eq=a=b'', ''IP1.size=2'']" by (simp add: option_text_def)
  have m: "map_of (rev ?es) ''IP1.size'' = Some ''2''" "map_of (rev ?es) ''IP2.eq'' = Some ''a=b''" by simp_all
  obtain c' where c': "parse_gs_params (config_api sample_plug (\<lambda>_ t. t) 3 (\<lambda>_. new_transaction 0 0)) False (map option_text ?es) sample_core = Inr c'"
      "\<forall>n. init_of c' n = (case map_of (rev ?es) n of Some v \<Rightarrow> if init_locked sample_core n then init_of sample_core n else v | None \<Rightarrow> init_of sample_core n)"
    using command_line_configures [OF sample_core_service(1) o] by blast
  have "init_of c' ''IP1.size'' = ''2''" "init_of c' ''IP2.eq'' = ''a=b''"
    using c'(2) [rule_format, of "''IP1.size''"] c'(2) [rule_format, of "''IP2.eq''"] m sample_core_service(3) by simp_all
  then show ?thesis using c'(1) t by metis
qed

theorem config_file_configures_witness:
  "\<exists>c'. config_file (config_api sample_plug (\<lambda>_ t. t) 3 (\<lambda>_. new_transaction 0 0)) boost_trim_left boost_trim (Some (config_text sample_config)) sample_core
      = Inr c' \<and> init_of c' ''IP1.size'' = ''12''"
proof -
  have r: "\<forall>e \<in> set sample_config. readable e \<and> \<not> has_object sample_core (fst e)"
    using sample_config_ok(2) sample_core_service(2) by (simp add: list_all_iff)
  obtain c' where c': "config_file (config_api sample_plug (\<lambda>_ t. t) 3 (\<lambda>_. new_transaction 0 0)) boost_trim_left boost_trim (Some (config_text sample_config)) sample_core = Inr c'"
      "\<forall>n. init_of c' n = (case map_find sample_config n of Some v \<Rightarrow> if init_locked sample_core n then init_of sample_core n else v | None \<Rightarrow> init_of sample_core n)"
    using config_file_configures [OF sample_core_service(1) boost_trims_sample sample_config_ok(1) r] by blast
  have "map_find sample_config ''IP1.size'' = Some ''12''" by (simp add: sample_config_def)
  then show ?thesis using c' sample_core_service(3) by simp
qed

end
