(* ===== verification/Param_Text.thy ===== *)
theory Param_Text
  imports Number_Text
begin

text \<open>
  The texts of native parameters (\<^verbatim>\<open>gs_param/gs_param_native.hpp\<close>): for each type the
  \<^verbatim>\<open>static_serialize\<close> and \<^verbatim>\<open>static_deserialize\<close> of its
  \<^verbatim>\<open>gs_param\<close>. Values are integers in the range of their type; a deserialisation takes the text and the old
  value of the target, and returns whether it succeeded and the new value.
\<close>

section \<open>The input streams\<close>

definition isxdigit :: "char \<Rightarrow> bool" where
  "isxdigit c \<longleftrightarrow> isdigit c \<or> (65 \<le> (of_char c :: nat) \<and> (of_char c :: nat) \<le> 70) \<or> (97 \<le> (of_char c :: nat) \<and> (of_char c :: nat) \<le> 102)"

definition xdigit_value :: "char \<Rightarrow> nat" where
  "xdigit_value c =
     (if isdigit c then of_char c - 48 else if of_char c \<le> (70 :: nat) then of_char c - 55 else of_char c - 87)"

definition base_value :: "nat \<Rightarrow> string \<Rightarrow> nat" where
  "base_value b s = foldl (\<lambda>n c. b * n + xdigit_value c) 0 s"

text \<open>An integer as \<open>operator>>\<close> takes it from a stream, with \<open>std::hex\<close> or without, and what is left of the stream.\<close>

definition get_int :: "bool \<Rightarrow> string \<Rightarrow> int option \<times> string" where
  "get_int hex s =
     (let (neg, r) = sign_of (dropWhile isspace s);
          r = (if hex \<and> (take 2 r = ''0x'' \<or> take 2 r = ''0X'') then drop 2 r else r);
          P = (if hex then isxdigit else isdigit);
          d = takeWhile P r;
          n = int (base_value (if hex then 16 else 10) d)
      in (if d = [] then None else Some (if neg then - n else n), dropWhile P r))"

text \<open>
  The value, the failure flag and the rest, for a signed and an unsigned type of \<open>w\<close> bits: a number
  out of range sets the nearest value and fails, and a negative number for an unsigned type wraps. The end of the file has been seen when
  the rest is empty.
\<close>

type_synonym extraction = "int \<times> bool \<times> string"

definition get_signed :: "nat \<Rightarrow> bool \<Rightarrow> string \<Rightarrow> extraction" where
  "get_signed w hex s =
     (case get_int hex s of
        (None, r) \<Rightarrow> (0, True, r)
      | (Some z, r) \<Rightarrow>
          if z < - (2 ^ (w - 1)) then (- (2 ^ (w - 1)), True, r)
          else if z > 2 ^ (w - 1) - 1 then (2 ^ (w - 1) - 1, True, r)
          else (z, False, r))"

definition get_unsigned :: "nat \<Rightarrow> bool \<Rightarrow> string \<Rightarrow> extraction" where
  "get_unsigned w hex s =
     (case get_int hex s of
        (None, r) \<Rightarrow> (0, True, r)
      | (Some z, r) \<Rightarrow> if \<bar>z\<bar> > 2 ^ w - 1 then (2 ^ w - 1, True, r) else (z mod 2 ^ w, False, r))"


section \<open>The types\<close>

text \<open>The common body of the integer types: a decimal point ends the number; what does not read as a decimal is tried as a hexadecimal.\<close>

definition native_deserialize :: "(bool \<Rightarrow> string \<Rightarrow> extraction) \<Rightarrow> string \<Rightarrow> int \<Rightarrow> bool \<times> int" where
  "native_deserialize get str target =
     (if length str = 0 then (True, 0)
      else
        (case get False str of
           (tmp, fail, r) \<Rightarrow>
             if r \<noteq> [] \<and> \<not> fail \<and> hd r = CHR ''.'' then (True, tmp)
             else
               (case (if r \<noteq> [] \<or> fail then get True str else (tmp, fail, r)) of
                  (tmp, fail, r) \<Rightarrow> if r = [] \<and> \<not> fail then (True, tmp) else (False, target))))"

definition int_serialize :: "int \<Rightarrow> string" where "int_serialize val = int_text val"
definition int_deserialize :: "string \<Rightarrow> int \<Rightarrow> bool \<times> int" where
  "int_deserialize = native_deserialize (get_signed 32)"

definition uint_serialize :: "int \<Rightarrow> string" where "uint_serialize val = int_text val"
definition uint_deserialize :: "string \<Rightarrow> int \<Rightarrow> bool \<times> int" where
  "uint_deserialize = native_deserialize (get_unsigned 32)"

definition uint64_serialize :: "int \<Rightarrow> string" where "uint64_serialize val = int_text val"
definition uint64_deserialize :: "string \<Rightarrow> int \<Rightarrow> bool \<times> int" where
  "uint64_deserialize = native_deserialize (get_unsigned 64)"

definition ushort_serialize :: "int \<Rightarrow> string" where "ushort_serialize val = int_text val"
definition ushort_deserialize :: "string \<Rightarrow> int \<Rightarrow> bool \<times> int" where
  "ushort_deserialize = native_deserialize (get_unsigned 16)"

definition short_serialize :: "int \<Rightarrow> string" where "short_serialize val = int_text val"
definition short_deserialize :: "string \<Rightarrow> int \<Rightarrow> bool \<times> int" where
  "short_deserialize = native_deserialize (get_signed 16)"

text \<open>A \<^verbatim>\<open>long long\<close> is tried as an unsigned number in the end, on the stream that still has \<^verbatim>\<open>std::hex\<close> set.\<close>

definition longlong_serialize :: "int \<Rightarrow> string" where "longlong_serialize val = int_text val"

definition wrap64 :: "int \<Rightarrow> int" where
  "wrap64 z = (if z < 2 ^ 63 then z else z - 2 ^ 64)"

definition longlong_deserialize :: "string \<Rightarrow> int \<Rightarrow> bool \<times> int" where
  "longlong_deserialize str target =
     (if length str = 0 then (True, 0)
      else
        (case get_signed 64 False str of
           (tmp, fail, r) \<Rightarrow>
             if r \<noteq> [] \<and> \<not> fail \<and> hd r = CHR ''.'' then (True, tmp)
             else
               (case (if r \<noteq> [] \<or> fail then get_signed 64 True str else (tmp, fail, r)) of
                  (tmp, fail, r) \<Rightarrow>
                    (case (if r \<noteq> [] \<or> fail
                           then (case get_unsigned 64 True str of
                                   (ulltmp, fail, r) \<Rightarrow>
                                     (case (if r \<noteq> [] \<or> fail then get_unsigned 64 True str else (ulltmp, fail, r)) of
                                        (ulltmp, fail, r) \<Rightarrow>
                                          (if r = [] \<and> \<not> fail then wrap64 ulltmp else tmp, fail, r)))
                           else (tmp, fail, r)) of
                       (tmp, fail, r) \<Rightarrow> if r = [] \<and> \<not> fail then (True, tmp) else (False, target)))))"

definition bool_serialize :: "int \<Rightarrow> string" where "bool_serialize val = int_text val"

definition bool_deserialize :: "string \<Rightarrow> int \<Rightarrow> bool \<times> int" where
  "bool_deserialize str target =
     (if length str = 0 then (True, 0)
      else if takeWhile (\<lambda>c. c \<noteq> CHR 0x00) str = ''true'' then (True, 1)
      else if takeWhile (\<lambda>c. c \<noteq> CHR 0x00) str = ''false'' then (True, 0)
      else
        (case get_signed 64 False str of
           (tmp, fail, r) \<Rightarrow>
             if r = [] \<and> \<not> (fail \<or> (tmp \<noteq> 0 \<and> tmp \<noteq> 1)) then (True, tmp) else (False, target)))"

definition string_serialize :: "string \<Rightarrow> string" where "string_serialize val = val"
definition string_deserialize :: "string \<Rightarrow> string \<Rightarrow> bool \<times> string" where "string_deserialize str target = (True, str)"

text \<open>
  The character types read an \<open>int\<close> that starts as 0, and take it when it is in their range before they look at the
  stream; the other ways to write a character come after that.
\<close>

definition char_deserialize :: "int \<Rightarrow> int \<Rightarrow> (char \<Rightarrow> int) \<Rightarrow> string \<Rightarrow> int \<Rightarrow> bool \<times> int" where
  "char_deserialize lo hi of_c str target =
     (if length str = 0 then (True, 0)
      else
        (case get_signed 32 False str of
           (tmp, fail, r) \<Rightarrow>
             if lo \<le> tmp \<and> tmp \<le> hi then (True, tmp)
             else
               (case (if r \<noteq> [] \<or> fail then get_signed 32 True str else (tmp, fail, r)) of
                  (tmp, fail, r) \<Rightarrow>
                    if (r \<noteq> [] \<or> fail) \<and> length str = 3 \<and> str ! 0 = CHR 0x27 \<and> str ! 2 = CHR 0x27 then (True, of_c (str ! 1))
                    else if (r = [] \<and> \<not> fail) \<and> lo \<le> tmp \<and> tmp \<le> hi then (True, tmp)
                    else (False, target))))"

definition signed_char :: "char \<Rightarrow> int" where
  "signed_char c = (if of_char c < (128 :: int) then of_char c else of_char c - 256)"

definition uchar_serialize :: "int \<Rightarrow> string" where "uchar_serialize val = int_text val"
definition uchar_deserialize :: "string \<Rightarrow> int \<Rightarrow> bool \<times> int" where
  "uchar_deserialize = char_deserialize 0 255 of_char"

definition schar_serialize :: "int \<Rightarrow> string" where "schar_serialize val = int_text val"
definition schar_deserialize :: "string \<Rightarrow> int \<Rightarrow> bool \<times> int" where
  "schar_deserialize = char_deserialize (-128) 127 signed_char"

definition plain_char_serialize :: "int \<Rightarrow> string" where "plain_char_serialize val = int_text val"
definition plain_char_deserialize :: "string \<Rightarrow> int \<Rightarrow> bool \<times> int" where
  "plain_char_deserialize = char_deserialize (-128) 127 signed_char"


section \<open>What is written is read\<close>

lemma xdigit_value_digit: "isdigit c \<Longrightarrow> xdigit_value c = digit_value c"
  by (simp add: xdigit_value_def digit_value_def)

lemma base_value_10: "\<forall>c \<in> set s. isdigit c \<Longrightarrow> base_value 10 s = digits_value s"
proof (induction s rule: rev_induct)
  case (snoc c s)
  then show ?case by (simp add: base_value_def digits_value_def xdigit_value_digit)
qed (simp add: base_value_def digits_value_def)

lemma get_int_decimal: "get_int False s = (case scan_int s of Some (z, r) \<Rightarrow> (Some z, r)
    | None \<Rightarrow> (None, dropWhile isdigit (snd (sign_of (dropWhile isspace s)))))"
proof -
  have "base_value 10 (takeWhile isdigit r) = digits_value (takeWhile isdigit r)" for r
    by (intro base_value_10) (auto dest: set_takeWhileD)
  then show ?thesis by (cases "sign_of (dropWhile isspace s)") (simp add: get_int_def scan_int_def Let_def)
qed

lemma get_int_text [simp]: "get_int False (int_text z) = (Some z, [])"
  using scan_int_text [of "[]" z] by (simp add: get_int_decimal)

lemma int_text_nonempty [simp]: "int_text z \<noteq> []"
  by (simp add: int_text_def)

lemma signed_text: "- (2 ^ (w - 1)) \<le> z \<Longrightarrow> z < 2 ^ (w - 1) \<Longrightarrow> get_signed w False (int_text z) = (z, False, [])"
  by (simp add: get_signed_def)

lemma unsigned_text: "0 \<le> z \<Longrightarrow> z < 2 ^ w \<Longrightarrow> get_unsigned w False (int_text z) = (z, False, [])"
  by (simp add: get_unsigned_def)

lemma native_text: "get False (int_text z) = (z, False, []) \<Longrightarrow> native_deserialize get (int_text z) t = (True, z)"
  by (simp add: native_deserialize_def)

lemma char_text: "- (2 ^ 31) \<le> lo \<Longrightarrow> hi < 2 ^ 31 \<Longrightarrow> lo \<le> z \<Longrightarrow> z \<le> hi \<Longrightarrow> char_deserialize lo hi f (int_text z) t = (True, z)"
  using signed_text [of 32 z] by (simp add: char_deserialize_def)

text \<open>
  C19. Round trip of native parameters: for every integer type, the text that a value is written as is read back as the same value,
  whatever the target held.
\<close>

theorem native_values_roundtrip:
  "int_deserialize (int_serialize (sint (a :: 32 word))) t = (True, sint a) \<and>
   uint_deserialize (uint_serialize (uint a)) t = (True, uint a) \<and>
   short_deserialize (short_serialize (sint (b :: 16 word))) t = (True, sint b) \<and>
   ushort_deserialize (ushort_serialize (uint b)) t = (True, uint b) \<and>
   longlong_deserialize (longlong_serialize (sint (c :: 64 word))) t = (True, sint c) \<and>
   uint64_deserialize (uint64_serialize (uint c)) t = (True, uint c) \<and>
   schar_deserialize (schar_serialize (sint (d :: 8 word))) t = (True, sint d) \<and>
   uchar_deserialize (uchar_serialize (uint d)) t = (True, uint d) \<and>
   bool_deserialize (bool_serialize (uint (e :: 1 word))) t = (True, uint e)"
proof -
  have a: "- (2 ^ 31) \<le> sint a" "sint a < 2 ^ 31" "0 \<le> uint a" "uint a < 2 ^ 32"
    using sint_ge [of a] sint_lt [of a] uint_bounded [of a] by simp_all
  have b: "- (2 ^ 15) \<le> sint b" "sint b < 2 ^ 15" "0 \<le> uint b" "uint b < 2 ^ 16"
    using sint_ge [of b] sint_lt [of b] uint_bounded [of b] by simp_all
  have c: "- (2 ^ 63) \<le> sint c" "sint c < 2 ^ 63" "0 \<le> uint c" "uint c < 2 ^ 64"
    using sint_ge [of c] sint_lt [of c] uint_bounded [of c] by simp_all
  have d: "- (2 ^ 7) \<le> sint d" "sint d < 2 ^ 7" "0 \<le> uint d" "uint d < 2 ^ 8"
    using sint_ge [of d] sint_lt [of d] uint_bounded [of d] by simp_all
  have e: "0 \<le> uint e" "uint e < 2" using uint_bounded [of e] by simp_all
  have "int_deserialize (int_serialize (sint a)) t = (True, sint a)" "uint_deserialize (uint_serialize (uint a)) t = (True, uint a)"
    unfolding int_deserialize_def int_serialize_def uint_deserialize_def uint_serialize_def
    using a by (intro native_text signed_text unsigned_text; simp)+
  moreover have "short_deserialize (short_serialize (sint b)) t = (True, sint b)" "ushort_deserialize (ushort_serialize (uint b)) t = (True, uint b)"
    unfolding short_deserialize_def short_serialize_def ushort_deserialize_def ushort_serialize_def
    using b by (intro native_text signed_text unsigned_text; simp)+
  moreover have "uint64_deserialize (uint64_serialize (uint c)) t = (True, uint c)"
    unfolding uint64_deserialize_def uint64_serialize_def using c by (intro native_text unsigned_text) simp_all
  moreover have "longlong_deserialize (longlong_serialize (sint c)) t = (True, sint c)"
    using signed_text [of 64 "sint c"] c by (simp add: longlong_deserialize_def longlong_serialize_def)
  moreover have "schar_deserialize (schar_serialize (sint d)) t = (True, sint d)" "uchar_deserialize (uchar_serialize (uint d)) t = (True, uint d)"
    unfolding schar_deserialize_def schar_serialize_def uchar_deserialize_def uchar_serialize_def
    using d by (intro char_text; simp)+
  moreover have "bool_deserialize (bool_serialize (uint e)) t = (True, uint e)"
  proof -
    have "uint e = 0 \<or> uint e = 1" using e by linarith
    moreover have "bool_deserialize (bool_serialize 0) t = (True, 0)" "bool_deserialize (bool_serialize 1) t = (True, 1)"
      by code_simp+
    ultimately show ?thesis by metis
  qed
  ultimately show ?thesis by blast
qed


section \<open>Other texts\<close>

lemma base_value_snoc: "base_value b (s @ [c]) = b * base_value b s + xdigit_value c"
  by (simp add: base_value_def)

lemma base_value_more: "0 < b \<Longrightarrow> base_value b s \<le> base_value b (s @ e)"
proof (induction e rule: rev_induct)
  case (snoc c e)
  have "base_value b (s @ e) \<le> b * base_value b (s @ e)" using snoc.prems by simp
  also have "\<dots> \<le> base_value b (s @ e @ [c])" using base_value_snoc [of b "s @ e" c] by simp
  finally show ?case using snoc by simp
qed simp

lemma base_value_mono: "base_value 10 s \<le> base_value 16 s"
proof (induction s rule: rev_induct)
  case (snoc c s)
  then show ?case by (simp add: base_value_snoc)
qed (simp add: base_value_def)

text \<open>Read as a hexadecimal, a number has the same sign and is at least as far from 0.\<close>

lemma hex_farther:
  assumes "get_int False s = (Some z, r)" and "z \<noteq> 0"
  shows "\<exists>h r'. get_int True s = (Some h, r') \<and> (0 < z \<longrightarrow> z \<le> h) \<and> (z < 0 \<longrightarrow> h \<le> z)"
proof -
  obtain neg q where q: "sign_of (dropWhile isspace s) = (neg, q)" by (cases "sign_of (dropWhile isspace s)")
  let ?d = "takeWhile isdigit q"
  have z: "?d \<noteq> []" "z = (if neg then - int (base_value 10 ?d) else int (base_value 10 ?d))"
    using assms(1) q by (auto simp: get_int_def Let_def split: if_splits)
  have n: "\<not> (take 2 q = ''0x'' \<or> take 2 q = ''0X'')"
  proof
    assume "take 2 q = ''0x'' \<or> take 2 q = ''0X''"
    then obtain x t where "q = CHR ''0'' # x # t" "\<not> isdigit x"
      by (cases q, simp, cases "tl q") (auto simp: isdigit_def)
    then have d0: "?d = ''0''" by (simp add: isdigit_def)
    have b0: "base_value 10 ''0'' = 0" by code_simp
    have "z = 0" unfolding z(2) d0 b0 by simp
    then show False using assms(2) by simp
  qed
  obtain e where e: "takeWhile isxdigit q = ?d @ e"
  proof -
    have "takeWhile isxdigit q = ?d @ takeWhile isxdigit (dropWhile isdigit q)"
      by (induction q) (auto simp: isxdigit_def)
    then show ?thesis using that by blast
  qed
  then have h: "get_int True s = (Some (if neg then - int (base_value 16 (?d @ e)) else int (base_value 16 (?d @ e))), dropWhile isxdigit q)"
    using n z(1) q by (simp add: get_int_def Let_def)
  have "base_value 10 ?d \<le> base_value 16 (?d @ e)" using base_value_mono [of ?d] base_value_more [of 16 ?d e] by simp
  then show ?thesis using h z(2) by auto
qed

lemma char_leading:
  assumes r: "- (2 ^ 31) < lo" "lo \<le> 0" "0 \<le> hi" "hi < 2 ^ 31 - 1"
  shows "char_deserialize lo hi f str t =
    (let z = (case scan_int str of Some (z, _) \<Rightarrow> z | None \<Rightarrow> 0) in if lo \<le> z \<and> z \<le> hi then (True, z) else (False, t))"
proof (cases "scan_int str")
  case None
  then have "get_signed 32 False str = (0, True, dropWhile isdigit (snd (sign_of (dropWhile isspace str))))"
    by (simp add: get_signed_def get_int_decimal)
  then show ?thesis using None r by (simp add: char_deserialize_def)
next
  case (Some p)
  obtain z q where p: "p = (z, q)" by (cases p)
  have ne: "str \<noteq> []" using Some by (auto simp: scan_int_def sign_of_def)
  have g: "get_int False str = (Some z, q)" using Some p by (simp add: get_int_decimal)
  show ?thesis
  proof (cases "lo \<le> z \<and> z \<le> hi")
    case True
    then have "get_signed 32 False str = (z, False, q)" using g r by (simp add: get_signed_def)
    then show ?thesis using True Some p ne by (simp add: char_deserialize_def)
  next
    case False
    obtain h q' where h: "get_int True str = (Some h, q')" "0 < z \<longrightarrow> z \<le> h" "z < 0 \<longrightarrow> h \<le> z"
      using hex_farther [OF g] False r by fastforce
    have s: "str \<noteq> []" "\<not> (length str = 3 \<and> str ! 0 = CHR 0x27)"
    proof -
      show "str \<noteq> []" using g by (auto simp: get_int_def sign_of_def)
      show "\<not> (length str = 3 \<and> str ! 0 = CHR 0x27)"
      proof
        assume a: "length str = 3 \<and> str ! 0 = CHR 0x27"
        then obtain t where "str = CHR 0x27 # t" by (cases str) auto
        then show False using g by (simp add: get_int_def sign_of_def isspace_def isdigit_def)
      qed
    qed
    have out: "\<not> (lo \<le> fst (get_signed 32 False str) \<and> fst (get_signed 32 False str) \<le> hi)"
      "\<not> (lo \<le> fst (get_signed 32 True str) \<and> fst (get_signed 32 True str) \<le> hi) \<or> fst (snd (get_signed 32 True str))"
      using False r h g by (auto simp: get_signed_def)
    then show ?thesis using s False Some p
      by (cases "get_signed 32 False str", cases "get_signed 32 True str") (auto simp: char_deserialize_def)
  qed
qed

text \<open>
  The character types take any text that does not begin with a decimal number as 0: whatever it is, the deserialisation
  succeeds exactly when the number at its beginning, or 0 if there is none, is in range, and that is the value. A hexadecimal number and
  a character between quotes, which the code means to read, never count.
\<close>

theorem char_takes_leading_number:
  "let z = (case scan_int str of Some (z, _) \<Rightarrow> z | None \<Rightarrow> 0) in
     uchar_deserialize str t = (if 0 \<le> z \<and> z \<le> 255 then (True, z) else (False, t)) \<and>
     schar_deserialize str t = (if - 128 \<le> z \<and> z \<le> 127 then (True, z) else (False, t))"
  unfolding uchar_deserialize_def schar_deserialize_def Let_def
  by (intro conjI; subst char_leading) (simp_all add: Let_def)

lemma char_examples:
  "uchar_deserialize ''0x41'' t = (True, 0)" "uchar_deserialize [CHR 0x27, CHR ''A'', CHR 0x27] t = (True, 0)"
  "uchar_deserialize ''65'' t = (True, 65)" "schar_deserialize ''abc'' t = (True, 0)" "uchar_deserialize ''300'' t = (False, t)"
  by code_simp+

text \<open>A number in scientific notation is no error for an integer type, but a hexadecimal number.\<close>

lemma exponent_is_hexadecimal: "int_deserialize ''1e3'' t = (True, 483)" "int_deserialize ''1.5'' t = (True, 1)"
  "int_deserialize ''0x10'' t = (True, 16)" "int_deserialize ''12 '' t = (False, t)" "uint_deserialize ''-1'' t = (True, 4294967295)"
  by code_simp+

lemma decimal_isdigit: "\<forall>c \<in> set (decimal n). isdigit c"
  by (auto dest!: decimal_digits)

lemma hex_digits_step: "16 * base_value 16 (decimal (n div 10)) \<le> base_value 16 (decimal n)"
proof (cases "n < 10")
  case True
  have "base_value 16 (decimal 0) = 0" by code_simp
  then show ?thesis using True by simp
next
  case False
  then show ?thesis by (subst (2) decimal.simps) (simp add: base_value_snoc)
qed

lemma hex_digits_grow: "16 ^ k * base_value 16 (decimal (n div 10 ^ k)) \<le> base_value 16 (decimal n)"
proof (induction k)
  case (Suc k)
  have "16 * base_value 16 (decimal (n div 10 ^ k div 10)) \<le> base_value 16 (decimal (n div 10 ^ k))" by (rule hex_digits_step)
  then have "16 ^ k * (16 * base_value 16 (decimal (n div 10 ^ k div 10))) \<le> 16 ^ k * base_value 16 (decimal (n div 10 ^ k))"
    by (rule mult_le_mono2)
  moreover have "n div 10 ^ k div 10 = n div 10 ^ Suc k" by (metis div_mult2_eq power_Suc2)
  ultimately have "16 ^ Suc k * base_value 16 (decimal (n div 10 ^ Suc k)) \<le> 16 ^ k * base_value 16 (decimal (n div 10 ^ k))"
    by (simp only: power_Suc mult.assoc mult.left_commute)
  then show ?case using Suc.IH by (rule order_trans)
qed simp

lemma hex_of_decimal: "0 < n \<Longrightarrow> get_int True (decimal n) = (Some (int (base_value 16 (decimal n))), [])"
proof -
  assume "0 < n"
  let ?s = "decimal n"
  have dig: "\<forall>c \<in> set ?s. isdigit c" by (rule decimal_isdigit)
  obtain c r where cr: "?s = c # r" using decimal_nonempty [of n] by (cases ?s) auto
  then have c: "isdigit c" using dig by simp
  then have nc: "\<not> isspace c" "c \<noteq> CHR ''-''" "c \<noteq> CHR ''+''" by (auto simp: isdigit_def isspace_def)
  have x: "take 2 ?s \<noteq> ''0x'' \<and> take 2 ?s \<noteq> ''0X''"
  proof -
    have "\<not> isdigit (CHR ''x'')" "\<not> isdigit (CHR ''X'')" by (simp_all add: isdigit_def)
    then have "CHR ''x'' \<notin> set (take 2 ?s)" "CHR ''X'' \<notin> set (take 2 ?s)" using dig by (metis in_set_takeD)+
    then show ?thesis by auto
  qed
  have s: "sign_of (dropWhile isspace ?s) = (False, ?s)" using cr nc by (simp add: sign_of_def)
  have t: "takeWhile isxdigit ?s = ?s" "dropWhile isxdigit ?s = []" using dig by (auto simp: isxdigit_def takeWhile_eq_all_conv)
  show ?thesis using x by (simp add: get_int_def Let_def s t)
qed

text \<open>
  The last resort of a \<^verbatim>\<open>long long\<close>, to read the text as an unsigned number, never helps a decimal one: the
  stream still reads hexadecimals, so that every decimal number from $2^{63}$ to $2^{64} - 1$ is refused and the target keeps its value.
\<close>

theorem longlong_refuses_unsigned_decimals:
  assumes "2 ^ 63 \<le> n" and "n < 2 ^ 64"
  shows "longlong_deserialize (decimal n) t = (False, t)"
proof -
  have dec: "decimal n = int_text (int n)" by (simp add: int_text_def)
  have g: "get_int False (decimal n) = (Some (int n), [])" unfolding dec by simp
  then have d: "get_signed 64 False (decimal n) = (2 ^ 63 - 1, True, [])"
    using assms(1) by (simp add: get_signed_def nat_le_iff)
  have "9 \<le> n div 10 ^ 18" using assms(1) by (simp add: less_eq_div_iff_mult_less_eq)
  moreover have "n div 10 ^ 18 < 19" using assms(2) by (simp add: less_mult_imp_div_less)
  ultimately have "9 \<le> base_value 16 (decimal (n div 10 ^ 18))"
    using base_value_mono [of "decimal (n div 10 ^ 18)"] base_value_10 [OF decimal_isdigit [of "n div 10 ^ 18"]] by simp
  then have "16 ^ 18 * 9 \<le> 16 ^ 18 * base_value 16 (decimal (n div 10 ^ 18))" by (rule mult_le_mono2)
  then have big: "16 ^ 18 * 9 \<le> base_value 16 (decimal n)" using hex_digits_grow [of 18 n] by linarith
  have "\<bar>int (base_value 16 (decimal n))\<bar> \<ge> 2 ^ 64" using big by simp
  then obtain h q where h: "get_int True (decimal n) = (Some h, q)" "2 ^ 64 \<le> h" using hex_of_decimal [of n] assms(1) by auto
  have "get_signed 64 True (decimal n) = (2 ^ 63 - 1, True, q)" "get_unsigned 64 True (decimal n) = (2 ^ 64 - 1, True, q)"
    using h by (simp_all add: get_signed_def get_unsigned_def)
  then show ?thesis using d by (simp add: longlong_deserialize_def)
qed

theorem longlong_refuses_unsigned_decimals_witness:
  "longlong_deserialize (decimal 18446744073709551615) 7 = (False, 7)"
proof -
  have "(2 :: nat) ^ 63 \<le> 18446744073709551615" "(18446744073709551615 :: nat) < 2 ^ 64" by simp_all
  then show ?thesis by (rule longlong_refuses_unsigned_decimals)
qed

lemma longlong_takes_unsigned_hexadecimals: "longlong_deserialize ''0xFFFFFFFFFFFFFFFF'' t = (True, -1)"
proof -
  have "get_int False ''0xFFFFFFFFFFFFFFFF'' = (Some 0, ''xFFFFFFFFFFFFFFFF'')"
    "get_int True ''0xFFFFFFFFFFFFFFFF'' = (Some 18446744073709551615, [])"
    by (simp_all add: get_int_def sign_of_def isspace_def isxdigit_def isdigit_def xdigit_value_def base_value_def Let_def)
  then show ?thesis by (simp add: longlong_deserialize_def get_signed_def get_unsigned_def wrap64_def)
qed

end
