(* ===== verification/Object_Pool.thy ===== *)
theory Object_Pool
  imports Control_Core
begin

text \<open>
  The pool that recycles transactions (\<^verbatim>\<open>core/transport/gc_memoryutils.h\<close>). An entry of the
  pool's two linked lists is only a carrier of a pointer, so each list is the list of the pointers
  its entries hold; an entry on the \<^verbatim>\<open>used\<close> list may hold a stale pointer. The address that
  \<^verbatim>\<open>new\<close> returns is a function of the addresses the pool owns already.
\<close>

section \<open>The pool\<close>

record pool =
  unused :: "nat list"
  used :: "nat list"
  mine :: "nat list"

definition push_new :: "(nat list \<Rightarrow> nat) \<Rightarrow> pool \<Rightarrow> pool" where
  "push_new fresh p = (let a = fresh (mine p) in p\<lparr>unused := a # unused p, mine := mine p @ [a]\<rparr>)"

definition ObjectPool :: "(nat list \<Rightarrow> nat) \<Rightarrow> int \<Rightarrow> pool" where
  "ObjectPool fresh n =
     (push_new fresh ^^ nat (n - 1)) (push_new fresh \<lparr>unused = [], used = [], mine = []\<rparr>)"

definition is_from :: "nat \<Rightarrow> pool \<Rightarrow> bool" where
  "is_from cont p = (cont \<in> set (mine p))"

definition construct :: "(nat list \<Rightarrow> nat) \<Rightarrow> pool \<Rightarrow> nat \<times> pool" where
  "construct fresh p =
     (case unused p of
        [] \<Rightarrow> (let a = fresh (mine p) in (a, p\<lparr>mine := mine p @ [a], used := a # used p\<rparr>))
      | a # as \<Rightarrow> (a, p\<lparr>unused := as, used := a # used p\<rparr>))"

definition pool_free :: "nat \<Rightarrow> pool \<Rightarrow> pool res" where
  "pool_free cont p =
     (case used p of
        [] \<Rightarrow> Inl (AssertFail ''used'')
      | _ # es \<Rightarrow> Inr (p\<lparr>used := es, unused := cont # unused p\<rparr>))"

section \<open>The factory of transactions\<close>

text \<open>The objects, and the pointers whose handles are alive, are the environment of the factory.\<close>

record factory =
  m_pool :: pool
  living :: bool
  objects :: "nat \<Rightarrow> transaction"
  live :: "nat set"

definition create :: "(nat list \<Rightarrow> nat) \<Rightarrow> (nat \<Rightarrow> transaction) \<Rightarrow> factory \<Rightarrow> nat \<times> factory" where
  "create fresh newT f =
     (case construct fresh (m_pool f) of
        (a, p) \<Rightarrow>
          (a, f\<lparr>m_pool := p, live := insert a (live f),
                objects := (if unused (m_pool f) = [] then (objects f)(a := newT a) else objects f)\<rparr>))"

definition st_release :: "nat \<Rightarrow> factory \<Rightarrow> factory res" where
  "st_release a f =
     (if living f
      then bindr (pool_free a (m_pool f)) (\<lambda>p.
             Inr (f\<lparr>m_pool := p, objects := (objects f)(a := tr_reset (objects f a)), live := live f - {a}\<rparr>))
      else Inr (f\<lparr>live := live f - {a}\<rparr>))"

text \<open>A history: handles are created, their transactions written, and handles dropped.\<close>

datatype pool_op = Create | Write nat "transaction \<Rightarrow> transaction" | Drop nat

fun pool_step :: "(nat list \<Rightarrow> nat) \<Rightarrow> (nat \<Rightarrow> transaction) \<Rightarrow> pool_op \<Rightarrow> factory \<Rightarrow> factory res" where
  "pool_step fresh newT Create f = Inr (snd (create fresh newT f))"
| "pool_step fresh newT (Write a g) f =
     (if a \<in> live f then Inr (f\<lparr>objects := (objects f)(a := g (objects f a))\<rparr>)
      else Inl (Undefined ''dead handle''))"
| "pool_step fresh newT (Drop a) f =
     (if a \<in> live f then st_release a f else Inl (Undefined ''dead handle''))"

fun pool_run :: "(nat list \<Rightarrow> nat) \<Rightarrow> (nat \<Rightarrow> transaction) \<Rightarrow> pool_op list \<Rightarrow> factory \<Rightarrow> factory res" where
  "pool_run fresh newT [] f = Inr f"
| "pool_run fresh newT (x # xs) f = bindr (pool_step fresh newT x f) (pool_run fresh newT xs)"

definition new_factory :: "(nat list \<Rightarrow> nat) \<Rightarrow> (nat \<Rightarrow> transaction) \<Rightarrow> int \<Rightarrow> factory" where
  "new_factory fresh newT n =
     \<lparr>m_pool = ObjectPool fresh n, living = True, objects = newT, live = {}\<rparr>"

section \<open>Invariant\<close>

definition clean :: "transaction \<Rightarrow> bool" where
  "clean t \<longleftrightarrow> mService t = NO_SERVICE \<and> mAnyPointer t = 0 \<and> mError t = 0 \<and> mMetaData t = []
     \<and> mLogPointer t = NoLog \<and> (\<forall>e \<in> set (m_extensions t). e = 0)"

lemma clean_reset [simp]: "clean (tr_reset t)"
  by (auto simp: clean_def tr_reset_def)

lemma clean_new: "clean (new_transaction n g)"
  by (simp add: clean_def new_transaction_def)

definition pool_ok :: "factory \<Rightarrow> bool" where
  "pool_ok f \<longleftrightarrow> (let p = m_pool f in
     living f \<and> finite (live f) \<and> distinct (unused p) \<and> distinct (mine p)
     \<and> set (unused p) \<inter> live f = {} \<and> set (unused p) \<union> live f = set (mine p)
     \<and> length (used p) = card (live f) \<and> (\<forall>a \<in> set (unused p). clean (objects f a)))"

definition fresh_alloc :: "(nat list \<Rightarrow> nat) \<Rightarrow> bool" where
  "fresh_alloc fresh \<longleftrightarrow> (\<forall>as. fresh as \<notin> set as)"

lemma push_new_ok:
  assumes "fresh_alloc fresh" and "distinct (unused p)" and "distinct (mine p)" and "set (unused p) = set (mine p)"
    and "used p = []"
  shows "distinct (unused (push_new fresh p)) \<and> distinct (mine (push_new fresh p))
    \<and> set (unused (push_new fresh p)) = set (mine (push_new fresh p)) \<and> used (push_new fresh p) = []"
  using assms by (auto simp: push_new_def Let_def fresh_alloc_def)

lemma ObjectPool_ok:
  assumes "fresh_alloc fresh"
  shows "distinct (unused (ObjectPool fresh n)) \<and> distinct (mine (ObjectPool fresh n))
    \<and> set (unused (ObjectPool fresh n)) = set (mine (ObjectPool fresh n)) \<and> used (ObjectPool fresh n) = []"
proof -
  let ?ok = "\<lambda>p. distinct (unused p) \<and> distinct (mine p) \<and> set (unused p) = set (mine p) \<and> used p = []"
  have "?ok ((push_new fresh ^^ k) (push_new fresh \<lparr>unused = [], used = [], mine = []\<rparr>))" for k
  proof (induction k)
    case 0
    then show ?case using push_new_ok [OF assms, of "\<lparr>unused = [], used = [], mine = []\<rparr>"] by simp
  next
    case (Suc k)
    then show ?case using push_new_ok [OF assms] by simp
  qed
  then show ?thesis by (simp only: ObjectPool_def)
qed

lemma new_factory_ok:
  "fresh_alloc fresh \<Longrightarrow> (\<And>a. clean (newT a)) \<Longrightarrow> pool_ok (new_factory fresh newT n)"
  using ObjectPool_ok [of fresh n] by (simp add: pool_ok_def new_factory_def)

lemma create_ok:
  assumes "fresh_alloc fresh" and "\<And>a. clean (newT a)" and "pool_ok f"
    and "create fresh newT f = (a, f')"
  shows "a \<notin> live f \<and> clean (objects f' a) \<and> pool_ok f' \<and> live f' = insert a (live f)"
proof (cases "unused (m_pool f)")
  case Nil
  have "fresh (mine (m_pool f)) \<notin> set (mine (m_pool f))" using assms(1) by (simp add: fresh_alloc_def)
  then show ?thesis using assms(2-4) Nil
    by (auto simp: create_def construct_def pool_ok_def Let_def)
next
  case (Cons b bs)
  have "b \<notin> live f" using assms(3) Cons by (auto simp: pool_ok_def Let_def)
  then show ?thesis using assms(3,4) Cons
    by (auto simp: create_def construct_def pool_ok_def Let_def)
qed

lemma st_release_ok:
  assumes "pool_ok f" and "a \<in> live f"
  shows "\<exists>f'. st_release a f = Inr f' \<and> pool_ok f' \<and> live f' = live f - {a}"
proof -
  have "card (live f) \<noteq> 0" using assms by (auto simp: pool_ok_def Let_def)
  then obtain e es where used: "used (m_pool f) = e # es"
    using assms(1) by (cases "used (m_pool f)") (auto simp: pool_ok_def Let_def)
  then show ?thesis using assms
    by (auto simp: st_release_def pool_free_def pool_ok_def Let_def)
qed

lemma pool_step_ok:
  assumes "fresh_alloc fresh" and "\<And>a. clean (newT a)" and "pool_ok f" and "pool_step fresh newT x f = Inr f'"
  shows "pool_ok f'"
proof (cases x)
  case Create
  then show ?thesis using create_ok [OF assms(1-3)] assms(4) by (cases "create fresh newT f") auto
next
  case (Write a g)
  then show ?thesis using assms(3,4) by (auto simp: pool_ok_def Let_def split: if_splits)
next
  case (Drop a)
  then show ?thesis using assms(3,4) st_release_ok by (fastforce split: if_splits)
qed

lemma pool_run_ok:
  assumes "fresh_alloc fresh" and "\<And>a. clean (newT a)"
  shows "pool_ok f \<Longrightarrow> pool_run fresh newT xs f = Inr f' \<Longrightarrow> pool_ok f'"
  by (induction xs arbitrary: f) (auto simp: bindr_eq_Inr dest: pool_step_ok [OF assms])

section \<open>Properties\<close>

text \<open>C25. Recycling transactions is safe. Whatever sequence of creating handles, writing their
  transactions and dropping handles has happened, the next created handle refers to a
  transaction that no live handle refers to, with service, error, meta data, pointers and
  extensions reset; and dropping any live handle succeeds (the pool's assertion holds).\<close>

theorem pool_recycles_safely:
  assumes "fresh_alloc fresh" and "\<And>a. clean (newT a)"
    and "pool_run fresh newT xs (new_factory fresh newT n) = Inr f"
    and "create fresh newT f = (a, f')"
  shows "a \<notin> live f \<and> clean (objects f' a) \<and> live f' = insert a (live f)
    \<and> (\<forall>b \<in> live f'. \<exists>f''. pool_step fresh newT (Drop b) f' = Inr f'')"
proof -
  have "pool_ok f" using pool_run_ok [OF assms(1,2) new_factory_ok [OF assms(1,2)] assms(3)] .
  from create_ok [OF assms(1,2) this assms(4)] st_release_ok show ?thesis
    by (metis pool_step.simps(3))
qed

definition fresh_max :: "nat list \<Rightarrow> nat" where
  "fresh_max as = Suc (foldr max as 0)"

lemma fresh_max_alloc: "fresh_alloc fresh_max"
proof -
  have "x \<le> foldr max as 0" if "x \<in> set as" for x :: nat and as
    using that by (induction as) (auto simp: le_max_iff_disj)
  then show ?thesis by (fastforce simp: fresh_alloc_def fresh_max_def)
qed

lemma pool_recycles_safely_witness:
  "\<exists>f. pool_run fresh_max (\<lambda>_. new_transaction 1 0)
         [Create, Create, Write 2 (\<lambda>t. t\<lparr>mError := 666, mValue := ''old''\<rparr>), Drop 2]
         (new_factory fresh_max (\<lambda>_. new_transaction 1 0) 2) = Inr f
    \<and> fst (create fresh_max (\<lambda>_. new_transaction 1 0) f) \<notin> live f
    \<and> clean (objects (snd (create fresh_max (\<lambda>_. new_transaction 1 0) f))
               (fst (create fresh_max (\<lambda>_. new_transaction 1 0) f)))
    \<and> live f = {1}"
proof -
  let ?new = "\<lambda>_::nat. new_transaction 1 0"
  let ?ops = "[Create, Create, Write 2 (\<lambda>t. t\<lparr>mError := 666, mValue := ''old''\<rparr>), Drop 2]"
  have pool: "ObjectPool fresh_max 2 = \<lparr>unused = [2, 1], used = [], mine = [1, 2]\<rparr>"
    by (simp add: ObjectPool_def push_new_def fresh_max_def Let_def)
  have diff: "{Suc 0, 2} - {2} = {Suc 0}" by auto
  obtain f where run: "pool_run fresh_max ?new ?ops (new_factory fresh_max ?new 2) = Inr f"
    and live: "live f = {1}"
    by (simp add: new_factory_def pool create_def construct_def st_release_def pool_free_def diff)
  obtain a f' where "create fresh_max ?new f = (a, f')" by fastforce
  with pool_recycles_safely [OF fresh_max_alloc clean_new run this] run live show ?thesis by auto
qed

end
