(* ===== verification/Address_Map.thy ===== *)
theory Address_Map
  imports GL_Prelude
begin

text \<open>
  The address map of GreenRouter (\<^verbatim>\<open>greenrouter/simpleAddressMap.h\<close>): entries that map an address
  range to a target port, and the sorted list of them that decodes the address of a transaction.
  Addresses are 64 bits wide and wrap around; a transaction is represented by its address. What
  the sockets at the other side of the router's ports are is an argument of \<open>generateMap\<close>.
\<close>

section \<open>Entries\<close>

record Entry_t =
  lower_bound :: u64
  upper_bound :: u64
  port_id :: u32

definition new_Entry :: "u64 \<Rightarrow> u64 \<Rightarrow> u32 \<Rightarrow> Entry_t" where
  "new_Entry lower upper i = \<lparr>lower_bound = lower, upper_bound = upper, port_id = i\<rparr>"

definition entry_eq :: "Entry_t \<Rightarrow> Entry_t \<Rightarrow> bool" where
  "entry_eq e f = (if lower_bound e \<noteq> lower_bound f \<or> upper_bound e \<noteq> upper_bound f \<or> port_id e \<noteq> port_id f
                   then False else True)"

definition entry_less :: "Entry_t \<Rightarrow> Entry_t \<Rightarrow> bool" where
  "entry_less e f = (upper_bound e < lower_bound f)"

definition is_in :: "Entry_t \<Rightarrow> u64 \<Rightarrow> bool" where
  "is_in e a = (if a < lower_bound e \<or> a > upper_bound e then False else True)"

definition merge_with :: "u64 \<Rightarrow> u64 \<Rightarrow> Entry_t \<Rightarrow> bool \<times> Entry_t" where
  "merge_with s t e =
     (if t < lower_bound e \<or> s > upper_bound e then (False, e)
      else if s \<ge> lower_bound e \<and> t \<le> upper_bound e then (True, e)
      else (let e1 = (if s < lower_bound e then e\<lparr>lower_bound := s\<rparr> else e);
                e2 = (if t > upper_bound e1 then e1\<lparr>upper_bound := t\<rparr> else e1)
            in (True, e2)))"

definition remove_range :: "u64 \<Rightarrow> u64 \<Rightarrow> Entry_t \<Rightarrow> bool \<times> Entry_t" where
  "remove_range s t e =
     (if t < lower_bound e \<or> s > upper_bound e then (True, e)
      else if s \<ge> lower_bound e \<and> t \<le> upper_bound e then (False, e)
      else (let e1 = (if s \<le> lower_bound e \<and> t \<le> upper_bound e then e\<lparr>lower_bound := t + 1\<rparr> else e);
                e2 = (if s \<ge> lower_bound e1 \<and> t \<ge> upper_bound e1 then e1\<lparr>upper_bound := s - 1\<rparr> else e1);
                e3 = (if lower_bound e2 > upper_bound e2 then e2\<lparr>lower_bound := 0, upper_bound := 0\<rparr> else e2)
            in (True, e3)))"

section \<open>The map\<close>

text \<open>
  \<^verbatim>\<open>std::list::sort\<close> is stable: an element moves before the ones it is less than. Every insertion
  sorts, so at most the last element is out of place.
\<close>

fun entry_insort :: "Entry_t \<Rightarrow> Entry_t list \<Rightarrow> Entry_t list" where
  "entry_insort e [] = [e]"
| "entry_insort e (f # fs) = (if entry_less e f then e # f # fs else f # entry_insort e fs)"

definition sort_entries :: "Entry_t list \<Rightarrow> Entry_t list" where
  "sort_entries es = fold entry_insort es []"

definition am_decode :: "u32 \<Rightarrow> u64 \<Rightarrow> Entry_t list \<Rightarrow> bool \<times> u32" where
  "am_decode max_port a m =
     (case find (\<lambda>e. is_in e a) m of None \<Rightarrow> (False, max_port) | Some e \<Rightarrow> (True, port_id e))"

definition get_max :: "Entry_t list \<Rightarrow> u64 res" where
  "get_max m = (if m \<noteq> [] then Inr (upper_bound (last m)) else Inl (ScError ''get_max() called on empty map''))"

definition get_min :: "Entry_t list \<Rightarrow> u64 res" where
  "get_min m = (if m \<noteq> [] then Inr (lower_bound (hd m)) else Inl (ScError ''get_min() called on empty map''))"

definition map_range :: "u32 \<Rightarrow> u64 \<Rightarrow> u64 \<Rightarrow> u32 \<Rightarrow> bool \<Rightarrow> Entry_t list \<Rightarrow> Entry_t list res" where
  "map_range max_port low high i checkOverlap m =
     (if checkOverlap \<and> low > high
      then Inl (ScError ''address lower bound is greater than upper bound'')
      else if i \<ge> max_port then Inl (ScError ''target connection maximum exceeded'')
      else if checkOverlap \<and> (\<exists>e \<in> set m. is_in e low \<or> is_in e high)
      then Inl (ScError ''address range already mapped'')
      else Inr (sort_entries (m @ [new_Entry low high i])))"

text \<open>What stands at the other side of a port: a router, a socket with address ranges, or neither.\<close>

datatype other_side =
    Router "Entry_t list"
  | Ranges "(u64 \<times> u64) list"
  | Unknown

fun map_ranges :: "u32 \<Rightarrow> (u64 \<times> u64) list \<Rightarrow> u32 \<Rightarrow> bool \<Rightarrow> Entry_t list \<Rightarrow> Entry_t list res" where
  "map_ranges max_port [] i ck m = Inr m"
| "map_ranges max_port ((lo, hi) # rs) i ck m =
     bindr (if \<not> ck \<or> lo < hi then map_range max_port lo hi i ck m else Inr m)
       (map_ranges max_port rs i ck)"

fun map_port :: "u32 \<Rightarrow> other_side \<Rightarrow> u32 \<Rightarrow> bool \<Rightarrow> Entry_t list \<Rightarrow> Entry_t list res" where
  "map_port max_port (Router om) i ck m =
     bindr (get_min om) (\<lambda>lo. bindr (get_max om) (\<lambda>hi. map_range max_port lo hi i ck m))"
| "map_port max_port (Ranges rs) i ck m = map_ranges max_port rs i ck m"
| "map_port max_port Unknown i ck m = Inr m"

fun generateMap :: "u32 \<Rightarrow> other_side list \<Rightarrow> u32 \<Rightarrow> bool \<Rightarrow> Entry_t list \<Rightarrow> Entry_t list res" where
  "generateMap max_port [] i ck m = Inr m"
| "generateMap max_port (os # oss) i ck m =
     bindr (map_port max_port os i ck m) (generateMap max_port oss (i + 1) ck)"

section \<open>Invariant: sorted, disjoint ranges\<close>

definition range :: "Entry_t \<Rightarrow> u64 set" where
  "range e = {lower_bound e .. upper_bound e}"

definition map_ok :: "Entry_t list \<Rightarrow> bool" where
  "map_ok m \<longleftrightarrow> sorted_wrt entry_less m \<and> (\<forall>e \<in> set m. lower_bound e \<le> upper_bound e)"

lemma is_in_range: "is_in e a \<longleftrightarrow> a \<in> range e"
  by (auto simp: is_in_def range_def)

lemma less_disjoint: "entry_less e f \<Longrightarrow> range e \<inter> range f = {}"
  by (auto simp: entry_less_def range_def)

lemma map_ok_disjoint:
  "map_ok m \<Longrightarrow> i < j \<Longrightarrow> j < length m \<Longrightarrow> range (m ! i) \<inter> range (m ! j) = {}"
  using less_disjoint by (auto simp: map_ok_def sorted_wrt_iff_nth_less)

lemma entry_insort_set: "set (entry_insort e m) = insert e (set m)"
  by (induction m) auto

lemma not_less_other:
  assumes "\<not> entry_less e f" and "range e \<inter> range f = {}" and "lower_bound e \<le> upper_bound e"
    and "lower_bound f \<le> upper_bound f"
  shows "entry_less f e"
proof (rule ccontr)
  assume "\<not> entry_less f e"
  then have o: "lower_bound f \<le> upper_bound e" "lower_bound e \<le> upper_bound f"
    using assms(1) by (simp_all add: entry_less_def not_less)
  have "max (lower_bound e) (lower_bound f) \<in> range e \<inter> range f"
    using o assms(3,4) by (simp add: range_def max_def)
  with assms(2) show False by blast
qed

lemma entry_insort_ok:
  assumes "map_ok m" and "lower_bound e \<le> upper_bound e" and "\<forall>f \<in> set m. range e \<inter> range f = {}"
  shows "map_ok (entry_insort e m)"
  using assms
proof (induction m)
  case (Cons f fs)
  have ok: "map_ok fs" "\<forall>g \<in> set fs. entry_less f g" "lower_bound f \<le> upper_bound f"
    using Cons.prems(1) by (auto simp: map_ok_def)
  show ?case
  proof (cases "entry_less e f")
    case True
    have "entry_less e g" if "g \<in> set fs" for g
    proof -
      have "upper_bound f < lower_bound g" using ok(2) that by (simp add: entry_less_def)
      with True ok(3) show ?thesis by (simp add: entry_less_def)
    qed
    then show ?thesis using True Cons.prems(1,2) by (auto simp: map_ok_def)
  next
    case False
    then have "entry_less f e" using not_less_other Cons.prems ok(3) by auto
    then show ?thesis using False Cons ok by (auto simp: map_ok_def entry_insort_set)
  qed
qed (simp add: map_ok_def)

lemma fold_insort_sorted: "sorted_wrt entry_less (as @ m) \<Longrightarrow> \<forall>e \<in> set (as @ m). lower_bound e \<le> upper_bound e \<Longrightarrow>
    fold entry_insort m as = as @ m"
proof (induction m arbitrary: as)
  case (Cons e m)
  have "entry_insort e as = as @ [e]"
    using Cons.prems
  proof (induction as)
    case (Cons a as)
    have "entry_less a e" using Cons.prems(1) by simp
    then have "\<not> entry_less e a" using Cons.prems(2) by (auto simp: entry_less_def)
    then show ?case using Cons by auto
  qed simp
  then show ?case using Cons by simp
qed simp

lemma sort_entries_snoc: "map_ok m \<Longrightarrow> sort_entries (m @ [e]) = entry_insort e m"
  using fold_insort_sorted [of "[]" m] by (simp add: sort_entries_def map_ok_def)

lemma decode_found:
  assumes "map_ok m" and "e \<in> set m" and "is_in e a"
  shows "am_decode max_port a m = (True, port_id e)"
proof -
  have "find (\<lambda>f. is_in f a) m = Some e" using assms
  proof (induction m)
    case (Cons f fs)
    show ?case
    proof (cases "is_in f a")
      case True
      then have "e = f" using Cons.prems less_disjoint [of f e]
        by (auto simp: map_ok_def is_in_range)
      then show ?thesis using True by simp
    qed (use Cons in \<open>auto simp: map_ok_def\<close>)
  qed simp
  then show ?thesis by (simp add: am_decode_def)
qed

lemma decode_none: "\<forall>e \<in> set m. \<not> is_in e a \<Longrightarrow> am_decode max_port a m = (False, max_port)"
  using find_None_iff [of "\<lambda>e. is_in e a" m] by (simp add: am_decode_def)

lemma decode_cases:
  assumes "map_ok m"
  obtains e where "e \<in> set m" and "is_in e a" and "am_decode max_port a m = (True, port_id e)"
    | "\<forall>e \<in> set m. \<not> is_in e a" and "am_decode max_port a m = (False, max_port)"
  using decode_found [OF assms] decode_none by blast

lemma insert_decode:
  assumes "map_ok m" and "lower_bound e \<le> upper_bound e" and "\<forall>f \<in> set m. range e \<inter> range f = {}"
  shows "am_decode mp a (entry_insort e m) = (if is_in e a then (True, port_id e) else am_decode mp a m)"
proof (cases "is_in e a")
  case True
  then show ?thesis using decode_found [OF entry_insort_ok [OF assms], of e] by (simp add: entry_insort_set)
next
  case False
  show ?thesis
  proof (rule decode_cases [OF assms(1), of a mp])
    fix f assume f: "f \<in> set m" "is_in f a" "am_decode mp a m = (True, port_id f)"
    then have "am_decode mp a (entry_insort e m) = (True, port_id f)"
      by (intro decode_found [OF entry_insort_ok [OF assms]]) (simp_all add: entry_insort_set)
    with f False show ?thesis by simp
  next
    assume "\<forall>f \<in> set m. \<not> is_in f a" "am_decode mp a m = (False, mp)"
    then show ?thesis using False decode_none [of "entry_insort e m"] by (simp add: entry_insort_set)
  qed
qed

lemma new_Entry_sel [simp]:
  "lower_bound (new_Entry lo hi i) = lo" "upper_bound (new_Entry lo hi i) = hi"
  "port_id (new_Entry lo hi i) = i" "is_in (new_Entry lo hi i) a \<longleftrightarrow> lo \<le> a \<and> a \<le> hi"
  "range (new_Entry lo hi i) = {lo .. hi}"
  by (auto simp: new_Entry_def is_in_def range_def)

lemma map_range_disjoint:
  assumes "map_ok m" and "lo \<le> hi" and "i < mp" and "\<forall>f \<in> set m. {lo .. hi} \<inter> range f = {}"
  shows "map_range mp lo hi i ck m = Inr (entry_insort (new_Entry lo hi i) m)"
proof -
  have "\<not> is_in f lo" "\<not> is_in f hi" if "f \<in> set m" for f
    using assms(2) bspec [OF assms(4) that] by (force simp: is_in_range)+
  then show ?thesis using assms(1-3) by (auto simp: map_range_def sort_entries_snoc not_le not_less)
qed

section \<open>Properties of the map\<close>

text \<open>
  Mapping a range that meets no mapped range is accepted, keeps the map sorted and disjoint,
  and changes the decoding exactly on the new range: its addresses decode to the new port, every
  other address as before.
\<close>

theorem insert_maps_range:
  assumes "map_ok m" and "low \<le> high" and "i < max_port"
    and "\<forall>e \<in> set m. {low .. high} \<inter> range e = {}"
  shows "\<exists>m'. map_range max_port low high i ck m = Inr m' \<and> map_ok m' \<and>
    (\<forall>a. am_decode max_port a m' = (if low \<le> a \<and> a \<le> high then (True, i) else am_decode max_port a m))"
  using map_range_disjoint [OF assms] entry_insort_ok [OF assms(1), of "new_Entry low high i"]
    insert_decode [OF assms(1), of "new_Entry low high i"] assms(2,4) by simp

lemma map_ok_single: "lo \<le> hi \<Longrightarrow> map_ok [new_Entry lo hi i]"
  by (simp add: map_ok_def)

lemma insert_maps_range_witness:
  "\<exists>m'. map_range 255 0x0 0xFF 2 True [new_Entry 0x100 0x1FF 1] = Inr m' \<and> map_ok m' \<and>
    (\<forall>a. am_decode 255 a m' = (if 0x0 \<le> a \<and> a \<le> 0xFF then (True, 2)
                                else am_decode 255 a [new_Entry 0x100 0x1FF 1]))"
  by (rule insert_maps_range) (simp_all add: map_ok_single)

text \<open>
  The overlap check looks only at the two end points of the new range: a range that encloses a
  mapped one is accepted with the check on, and the map then holds two entries for every address
  of the enclosed range, of which only the older one is ever decoded.
\<close>

theorem insert_enclosing_accepted:
  assumes "low < lower_bound e" and "upper_bound e < high" and "lower_bound e \<le> upper_bound e" and "i < max_port"
  shows "map_range max_port low high i True [e] = Inr [e, new_Entry low high i] \<and>
    \<not> map_ok [e, new_Entry low high i] \<and>
    (\<forall>a. is_in e a \<longrightarrow> is_in (new_Entry low high i) a \<and>
         am_decode max_port a [e, new_Entry low high i] = (True, port_id e))"
proof -
  have lt: "low \<le> high" "\<not> upper_bound e < low" "\<not> high < lower_bound e"
    using assms by auto
  then show ?thesis using assms
    by (auto simp: map_range_def sort_entries_def entry_less_def map_ok_def is_in_def am_decode_def)
qed

lemma insert_enclosing_accepted_witness:
  "map_range 255 0 100 1 True [new_Entry 10 20 0] = Inr [new_Entry 10 20 0, new_Entry 0 100 1] \<and>
    \<not> map_ok [new_Entry 10 20 0, new_Entry 0 100 1] \<and> is_in (new_Entry 0 100 1) 15 \<and>
    am_decode 255 15 [new_Entry 10 20 0, new_Entry 0 100 1] = (True, 0)"
  using insert_enclosing_accepted [of 0 "new_Entry 10 20 0" 100 1 255] by simp

lemma last_is_top: "map_ok m \<Longrightarrow> e \<in> set m \<Longrightarrow> upper_bound e \<le> upper_bound (last m)"
proof (induction m)
  case (Cons f fs)
  show ?case
  proof (cases "fs = []")
    case False
    then have "upper_bound f < lower_bound (last fs)" "lower_bound (last fs) \<le> upper_bound (last fs)"
      using Cons.prems(1) by (auto simp: map_ok_def entry_less_def)
    then have "upper_bound f \<le> upper_bound (last fs)" by order
    then show ?thesis using Cons False by (auto simp: map_ok_def)
  qed (use Cons in simp)
qed simp

lemma hd_is_bottom: "map_ok m \<Longrightarrow> e \<in> set m \<Longrightarrow> lower_bound (hd m) \<le> lower_bound e"
  by (cases m) (auto simp: map_ok_def entry_less_def)

text \<open>
  On a sorted, disjoint map the bounds reported to an enclosing router are tight: every mapped
  address lies between \<open>get_min\<close> and \<open>get_max\<close>, and both bounds are mapped. On an empty map both report an
  error.
\<close>

theorem map_bounds_tight:
  assumes "map_ok m"
  shows "(case (get_min m, get_max m) of
      (Inr lo, Inr hi) \<Rightarrow> fst (am_decode mp lo m) \<and> fst (am_decode mp hi m) \<and>
        (\<forall>a. fst (am_decode mp a m) \<longrightarrow> lo \<le> a \<and> a \<le> hi)
    | (Inl _, Inl _) \<Rightarrow> m = [] | _ \<Rightarrow> False)"
proof (cases "m = []")
  case False
  then have ends: "hd m \<in> set m" "last m \<in> set m" by simp_all
  then have le: "lower_bound (hd m) \<le> upper_bound (hd m)" "lower_bound (last m) \<le> upper_bound (last m)"
    using assms by (auto simp: map_ok_def)
  have "lower_bound (hd m) \<le> a \<and> a \<le> upper_bound (last m)" if "fst (am_decode mp a m)" for a
  proof (rule decode_cases [OF assms, of a mp])
    fix e assume e: "e \<in> set m" "is_in e a"
    then show ?thesis using last_is_top [OF assms e(1)] hd_is_bottom [OF assms e(1)]
      by (auto simp: is_in_def split: if_splits)
  next
    assume "am_decode mp a m = (False, mp)"
    with that show ?thesis by simp
  qed
  then show ?thesis using False ends le decode_found [OF assms ends(1)] decode_found [OF assms ends(2)]
    by (simp add: get_min_def get_max_def is_in_def)
qed (simp add: get_min_def get_max_def)

lemma map_bounds_tight_witness:
  "(case (get_min [new_Entry 10 20 0], get_max [new_Entry 10 20 0]) of
      (Inr lo, Inr hi) \<Rightarrow> fst (am_decode 255 lo [new_Entry 10 20 0]) \<and> fst (am_decode 255 hi [new_Entry 10 20 0]) \<and>
        (\<forall>a. fst (am_decode 255 a [new_Entry 10 20 0]) \<longrightarrow> lo \<le> a \<and> a \<le> hi)
    | (Inl _, Inl _) \<Rightarrow> [new_Entry 10 20 0] = [] | _ \<Rightarrow> False)"
  by (rule map_bounds_tight) (simp add: map_ok_single)

lemma above_iff: "(t::u64) < u \<Longrightarrow> t + 1 \<le> x \<longleftrightarrow> t < x"
  by uint_arith

lemma below_iff: "(l::u64) < s \<Longrightarrow> x \<le> s - 1 \<longleftrightarrow> x < s"
  by uint_arith

lemma remove_range_low:
  assumes "s < lower_bound e" and "lower_bound e \<le> t" and "t < upper_bound e"
  shows "remove_range s t e = (True, e\<lparr>lower_bound := t + 1\<rparr>)"
proof -
  have "\<not> t + 1 \<le> s" "t + 1 \<le> upper_bound e"
    using assms by (auto simp: above_iff)
  then show ?thesis using assms by (auto simp: remove_range_def Let_def not_le not_less)
qed

lemma remove_range_high:
  assumes "lower_bound e < s" and "s \<le> upper_bound e" and "upper_bound e < t"
  shows "remove_range s t e = (True, e\<lparr>upper_bound := s - 1\<rparr>)"
proof -
  have "lower_bound e \<le> s - 1"
    using assms by (auto simp: below_iff)
  then show ?thesis using assms by (auto simp: remove_range_def Let_def not_le not_less)
qed

text \<open>
  Removing a range from an entry: a range inside the entry is refused and the entry kept; a
  range that overlaps one end is cut off; a range that covers the entry and shares a bound with it
  resets the entry to \<open>[0, 0]\<close>; but a range that exceeds the entry on both sides reports success and
  leaves the entry as it was.
\<close>

theorem remove_range_cases:
  assumes "s \<le> t" and "lower_bound e \<le> upper_bound e"
  shows "({s .. t} \<inter> range e = {} \<longrightarrow> remove_range s t e = (True, e)) \<and>
    ({s .. t} \<subseteq> range e \<longrightarrow> remove_range s t e = (False, e)) \<and>
    ({s .. t} \<inter> range e \<noteq> {} \<and> \<not> {s .. t} \<subseteq> range e \<and> \<not> range e \<subseteq> {s .. t} \<longrightarrow>
       fst (remove_range s t e) \<and> range (snd (remove_range s t e)) = range e - {s .. t}) \<and>
    (s < lower_bound e \<and> upper_bound e < t \<longrightarrow> remove_range s t e = (True, e))"
proof (intro conjI impI)
  have ov: "{s .. t} \<inter> range e = {} \<longleftrightarrow> t < lower_bound e \<or> upper_bound e < s"
  proof
    assume d: "{s .. t} \<inter> range e = {}"
    show "t < lower_bound e \<or> upper_bound e < s"
    proof (rule ccontr)
      assume "\<not> ?thesis"
      then have "max s (lower_bound e) \<in> {s .. t} \<inter> range e"
        using assms by (auto simp: range_def max_def not_less)
      with d show False by blast
    qed
  qed (auto simp: range_def)
  have sub: "{s .. t} \<subseteq> range e \<longleftrightarrow> lower_bound e \<le> s \<and> t \<le> upper_bound e"
    and sup: "range e \<subseteq> {s .. t} \<longleftrightarrow> s \<le> lower_bound e \<and> upper_bound e \<le> t"
    using assms by (simp_all add: range_def atLeastatMost_subset_iff not_le)
  show "{s .. t} \<inter> range e = {} \<Longrightarrow> remove_range s t e = (True, e)"
    unfolding ov by (auto simp: remove_range_def)
  show "{s .. t} \<subseteq> range e \<Longrightarrow> remove_range s t e = (False, e)"
    unfolding sub using assms by (auto simp: remove_range_def)
  show "s < lower_bound e \<and> upper_bound e < t \<Longrightarrow> remove_range s t e = (True, e)"
    using assms by (auto simp: remove_range_def Let_def)
  assume h: "{s .. t} \<inter> range e \<noteq> {} \<and> \<not> {s .. t} \<subseteq> range e \<and> \<not> range e \<subseteq> {s .. t}"
  then consider (low) "s < lower_bound e" "lower_bound e \<le> t" "t < upper_bound e"
    | (high) "lower_bound e < s" "s \<le> upper_bound e" "upper_bound e < t"
    unfolding ov sub sup by fastforce
  then have "fst (remove_range s t e) \<and> range (snd (remove_range s t e)) = range e - {s .. t}"
  proof cases
    case low
    then show ?thesis using remove_range_low [OF low]
      by (auto simp: range_def above_iff)
  next
    case high
    then show ?thesis using remove_range_high [OF high]
      by (auto simp: range_def below_iff)
  qed
  then show "fst (remove_range s t e)" "range (snd (remove_range s t e)) = range e - {s .. t}"
    by simp_all
qed

lemma remove_range_cases_witness:
  "fst (remove_range 5 15 (new_Entry 10 20 0)) \<and>
    range (snd (remove_range 5 15 (new_Entry 10 20 0))) = range (new_Entry 10 20 0) - {5 .. 15} \<and>
    remove_range 5 25 (new_Entry 10 20 0) = (True, new_Entry 10 20 0)"
  using remove_range_cases [of 5 15 "new_Entry 10 20 0"] remove_range_cases [of 5 25 "new_Entry 10 20 0"]
  by (simp add: atLeastatMost_subset_iff ex_in_conv [symmetric] exI [of _ "12 :: u64"])

section \<open>Generating the map from the bound sockets\<close>

text \<open>The ranges that sockets ask for, with the port each is bound to; \<open>ck\<close> drops the null sized ones.\<close>

fun requests :: "other_side list \<Rightarrow> u32 \<Rightarrow> (u64 \<times> u64 \<times> u32) list" where
  "requests [] i = []"
| "requests (Ranges rs # oss) i =
     map (\<lambda>(lo, hi). (lo, hi, i)) (filter (\<lambda>(lo, hi). lo < hi) rs) @ requests oss (i + 1)"
| "requests (Router om # oss) i = requests oss (i + 1)"
| "requests (Unknown # oss) i = requests oss (i + 1)"

definition requests_disjoint :: "(u64 \<times> u64 \<times> u32) list \<Rightarrow> bool" where
  "requests_disjoint qs \<longleftrightarrow>
     sorted_wrt (\<lambda>(lo, hi, _) (lo', hi', _). hi < lo' \<or> hi' < lo) qs"

text \<open>The map holds the requests: it is sound and decodes every requested address to its port.\<close>

definition holds :: "Entry_t list \<Rightarrow> (u64 \<times> u64 \<times> u32) list \<Rightarrow> bool" where
  "holds m qs \<longleftrightarrow> map_ok m \<and> set m = (\<lambda>(lo, hi, i). new_Entry lo hi i) ` set qs"

lemma holds_step:
  assumes "holds m qs" and "lo < hi" and "i < mp"
    and "\<forall>(lo', hi', j) \<in> set qs. hi' < lo \<or> hi < lo'"
  shows "\<exists>m'. map_range mp lo hi i True m = Inr m' \<and> holds m' (qs @ [(lo, hi, i)])"
proof -
  have d: "{lo .. hi} \<inter> range e = {}" if "e \<in> set m" for e
    using assms(1,4) that by (fastforce simp: holds_def)
  have ok: "map_ok m" and le: "lo \<le> hi" using assms by (simp_all add: holds_def)
  show ?thesis
    using map_range_disjoint [OF ok le assms(3), of True] entry_insort_ok [OF ok, of "new_Entry lo hi i"] d le assms(1)
    by (auto simp: holds_def entry_insort_set)
qed

lemma holds_ranges:
  assumes "holds m qs" and "i < mp"
    and "requests_disjoint (qs @ map (\<lambda>(lo, hi). (lo, hi, i)) (filter (\<lambda>(lo, hi). lo < hi) rs))"
  shows "\<exists>m'. map_ranges mp rs i True m = Inr m' \<and>
    holds m' (qs @ map (\<lambda>(lo, hi). (lo, hi, i)) (filter (\<lambda>(lo, hi). lo < hi) rs))"
  using assms
proof (induction rs arbitrary: m qs)
  case (Cons r rs)
  obtain lo hi where r: "r = (lo, hi)" by force
  show ?case
  proof (cases "lo < hi")
    case True
    have "\<forall>(lo', hi', j) \<in> set qs. hi' < lo \<or> hi < lo'"
      using Cons.prems(3) True by (auto simp: requests_disjoint_def sorted_wrt_append r)
    then obtain m1 where m1: "map_range mp lo hi i True m = Inr m1" "holds m1 (qs @ [(lo, hi, i)])"
      using holds_step [OF Cons.prems(1) True Cons.prems(2)] by blast
    show ?thesis using Cons.IH [OF m1(2) Cons.prems(2)] Cons.prems(3) m1(1) True by (simp add: r bindr_def)
  next
    case False
    then show ?thesis using Cons.IH [OF Cons.prems(1,2)] Cons.prems(3) by (simp add: r bindr_def)
  qed
qed simp

lemma unat_step: "(i::u32) < mp \<Longrightarrow> unat (i + 1) = unat i + 1"
  by unat_arith

lemma generate_holds:
  assumes "holds m qs" and "\<forall>os \<in> set oss. \<forall>om. os \<noteq> Router om"
    and "unat i + length oss \<le> unat mp" and "requests_disjoint (qs @ requests oss i)"
  shows "\<exists>m'. generateMap mp oss i True m = Inr m' \<and> holds m' (qs @ requests oss i)"
  using assms
proof (induction oss arbitrary: m qs i)
  case (Cons os oss)
  have i: "i < mp" using Cons.prems(3) by (simp add: word_less_nat_alt)
  then have ni: "unat (i + 1) = unat i + 1" by (rule unat_step)
  show ?case
  proof (cases os)
    case (Ranges rs)
    then have "requests_disjoint (qs @ map (\<lambda>(lo, hi). (lo, hi, i)) (filter (\<lambda>(lo, hi). lo < hi) rs))"
      using Cons.prems(4) by (simp add: requests_disjoint_def sorted_wrt_append)
    then obtain m1 where m1: "map_ranges mp rs i True m = Inr m1"
        "holds m1 (qs @ map (\<lambda>(lo, hi). (lo, hi, i)) (filter (\<lambda>(lo, hi). lo < hi) rs))"
      using holds_ranges [OF Cons.prems(1) i] by blast
    show ?thesis using Cons.IH [OF m1(2), of "i + 1"] Cons.prems(2-4) m1(1) Ranges ni by (simp add: bindr_def)
  next
    case Unknown
    then show ?thesis using Cons.IH [OF Cons.prems(1), of "i + 1"] Cons.prems(2-4) ni by (simp add: bindr_def)
  qed (use Cons.prems(2) in auto)
qed simp

lemma requests_member:
  "k < length oss \<Longrightarrow> oss ! k = Ranges rs \<Longrightarrow> (lo, hi) \<in> set rs \<Longrightarrow> lo < hi \<Longrightarrow>
    (lo, hi, i + of_nat k) \<in> set (requests oss i)"
proof (induction oss i arbitrary: k rule: requests.induct)
  case (2 rs oss i)
  then show ?case by (cases k) (auto simp: add.assoc)
qed (auto simp: nth_Cons add.assoc split: nat.splits)

text \<open>
  C23. When the sockets at the other side of the router's ports ask for pairwise disjoint ranges
  and there are no more ports than the limit, the map is generated without an error, is sorted and
  disjoint, and decodes exactly the requested addresses, each to the port its socket is bound to.
\<close>

theorem generateMap_decodes:
  assumes "\<forall>os \<in> set oss. \<forall>om. os \<noteq> Router om" and "length oss \<le> unat max_port"
    and "requests_disjoint (requests oss 0)"
  shows "\<exists>m. generateMap max_port oss 0 True [] = Inr m \<and> map_ok m \<and>
    (\<forall>k < length oss. \<forall>rs lo hi a. oss ! k = Ranges rs \<and> (lo, hi) \<in> set rs \<and> lo < hi \<and> lo \<le> a \<and> a \<le> hi \<longrightarrow>
       am_decode max_port a m = (True, of_nat k)) \<and>
    (\<forall>a. (\<forall>(lo, hi, i) \<in> set (requests oss 0). a < lo \<or> hi < a) \<longrightarrow> am_decode max_port a m = (False, max_port))"
proof -
  have "holds [] []" by (simp add: holds_def map_ok_def)
  then obtain m where m: "generateMap max_port oss 0 True [] = Inr m" "holds m (requests oss 0)"
    using generate_holds [of "[]" "[]" oss 0 max_port] assms by auto
  have "am_decode max_port a m = (True, of_nat k)"
    if "k < length oss" "oss ! k = Ranges rs" "(lo, hi) \<in> set rs" "lo < hi" "lo \<le> a" "a \<le> hi" for k rs lo hi a
    using decode_found [of m "new_Entry lo hi (of_nat k)" a max_port] m(2)
      requests_member [OF that(1-4), where i = 0] that(5,6) by (force simp: holds_def)
  moreover have "am_decode max_port a m = (False, max_port)"
    if "\<forall>(lo, hi, i) \<in> set (requests oss 0). a < lo \<or> hi < a" for a
    using that m(2) by (intro decode_none) (fastforce simp: holds_def)
  ultimately show ?thesis using m by (auto simp: holds_def)
qed

lemma generateMap_decodes_witness:
  "\<exists>m. generateMap 255 [Ranges [(0x100, 0x1FF), (0x400, 0x4FF)], Unknown, Ranges [(0, 0xFF)]] 0 True [] = Inr m \<and>
    map_ok m \<and> am_decode 255 0x450 m = (True, 0) \<and> am_decode 255 0x10 m = (True, 2) \<and>
    am_decode 255 0x300 m = (False, 255)"
proof -
  let ?oss = "[Ranges [(0x100, 0x1FF), (0x400, 0x4FF)], Unknown, Ranges [(0, 0xFF)]] :: other_side list"
  obtain m where m: "generateMap 255 ?oss 0 True [] = Inr m" "map_ok m"
    "\<forall>k < length ?oss. \<forall>rs lo hi a. ?oss ! k = Ranges rs \<and> (lo, hi) \<in> set rs \<and> lo < hi \<and> lo \<le> a \<and> a \<le> hi \<longrightarrow>
       am_decode 255 a m = (True, of_nat k)"
    "\<forall>a. (\<forall>(lo, hi, i) \<in> set (requests ?oss 0). a < lo \<or> hi < a) \<longrightarrow> am_decode 255 a m = (False, 255)"
    using generateMap_decodes [of ?oss 255] by (auto simp: requests_disjoint_def)
  have k: "am_decode 255 a m = (True, of_nat k)"
    if "k < length ?oss" "?oss ! k = Ranges rs" "(lo, hi) \<in> set rs" "lo < hi" "lo \<le> a" "a \<le> hi" for k rs lo hi a
    using m(3) that by blast
  have "am_decode 255 0x450 m = (True, of_nat 0)"
    by (rule k [where rs = "[(0x100, 0x1FF), (0x400, 0x4FF)]" and lo = "0x400" and hi = "0x4FF"]) simp_all
  moreover have "am_decode 255 0x10 m = (True, of_nat 2)"
    by (rule k [where rs = "[(0, 0xFF)]" and lo = "0" and hi = "0xFF"]) simp_all
  moreover have "am_decode 255 0x300 m = (False, 255)"
    by (rule m(4) [THEN spec, THEN mp]) simp
  ultimately show ?thesis using m(1,2) by simp
qed

end
