(* ===== verification/Sparse_Mem.thy ===== *)
theory Sparse_Mem
  imports GL_Prelude
begin

text \<open>
  The sparse memory of GreenMemory (\<^verbatim>\<open>greenmemory/sparse_mem.h\<close>): a sorted vector of
  page intervals, each with a heap buffer. The three parallel vectors \<open>ins\<close>, \<open>outs\<close> and \<open>buffers\<close> are one list
  of pages. Addresses are \<^verbatim>\<open>size_t\<close>: natural numbers below \<open>2 ^ 64\<close>, with the wrap-around of an
  addition written out. \<open>P\<close> is \<^verbatim>\<open>PAGE_SIZE\<close>; \<open>fresh\<close> gives the unspecified contents of a buffer that
  \<^verbatim>\<open>new[]\<close> has just allocated. A reference into a buffer is a page index with an offset.
\<close>

section \<open>Pages\<close>

record 'v page =
  pin :: nat
  pout :: nat
  buf :: "'v list"

definition size_add :: "nat \<Rightarrow> nat \<Rightarrow> nat" where
  "size_add a b = (a + b) mod 2 ^ 64"

text \<open>\<^verbatim>\<open>std::lower_bound\<close> returns the first position that is not less than the searched value.\<close>

definition outs_lower_bound :: "nat \<Rightarrow> 'v page list \<Rightarrow> nat" where
  "outs_lower_bound a ps = length (takeWhile (\<lambda>p. pout p < a) ps)"

definition sm_lower_bound :: "nat \<Rightarrow> 'v page list \<Rightarrow> int" where
  "sm_lower_bound a ps = int (length (takeWhile (\<lambda>p. pin p \<le> a) ps)) - 1"

definition insert_page :: "nat \<Rightarrow> (nat \<Rightarrow> 'v) \<Rightarrow> nat \<Rightarrow> nat \<Rightarrow> nat \<Rightarrow> 'v page list \<Rightarrow> 'v page list res" where
  "insert_page P fresh i addr e ps =
     (let start = addr div P * P;
          e' = (if e = 0 then size_add start P else e)
      in if size_sub e' start mod P \<noteq> 0 then Inl (AssertFail ''(end-start)%page_size == 0'')
         else Inr (take i ps @
                   \<lparr>pin = start, pout = e', buf = map (\<lambda>k. fresh (start + k)) [0 ..< size_sub e' start]\<rparr> #
                   drop i ps))"

definition copy_into :: "nat \<Rightarrow> 'v list \<Rightarrow> 'v list \<Rightarrow> 'v list" where
  "copy_into off src dst = take off dst @ src @ drop (off + length src) dst"

fun merge_pages :: "'v page \<Rightarrow> 'v page list \<Rightarrow> 'v page \<times> 'v page list" where
  "merge_pages p [] = (p, [])"
| "merge_pages p (q # qs) =
     (if pout q \<le> pout p
      then merge_pages (p\<lparr>buf := copy_into (size_sub (pin q) (pin p)) (buf q) (buf p)\<rparr>) qs
      else (p, q # qs))"

definition join_pages :: "nat \<Rightarrow> (nat \<Rightarrow> 'v) \<Rightarrow> nat \<Rightarrow> nat \<Rightarrow> nat \<Rightarrow> 'v page list \<Rightarrow> 'v page list res" where
  "join_pages P fresh i start e ps =
     bindr (insert_page P fresh i start e ps)
       (\<lambda>ps1. let (p, qs) = merge_pages (ps1 ! i) (drop (i + 1) ps1) in Inr (take i ps1 @ p # qs))"

definition get_block :: "nat \<Rightarrow> (nat \<Rightarrow> 'v) \<Rightarrow> nat \<Rightarrow> nat \<Rightarrow> 'v page list \<Rightarrow> ('v page list \<times> nat \<times> nat) res" where
  "get_block P fresh start0 end0 ps =
     (if \<not> start0 < end0 then Inl (AssertFail ''start_ < end_'')
      else
        let start = start0 div P * P;
            e0 = size_add (end0 div P * P) P;
            endi = outs_lower_bound e0 ps;
            e = (if endi \<noteq> length ps \<and> pin (ps ! endi) < e0 \<and> e0 < pout (ps ! endi)
                 then pout (ps ! endi) else e0);
            starti = sm_lower_bound start ps;
            result = (\<lambda>i ps'. Inr (ps', i, size_sub start0 (pin (ps' ! i))))
        in if starti = -1 then bindr (join_pages P fresh 0 start e ps) (result 0)
           else if starti = int endi then result (nat starti) ps
           else if start < pout (ps ! nat starti)
           then bindr (join_pages P fresh (nat starti) (pin (ps ! nat starti)) e ps) (result (nat starti))
           else bindr (join_pages P fresh (nat starti + 1) start e ps) (result (nat starti + 1)))"

definition sm_index :: "nat \<Rightarrow> (nat \<Rightarrow> 'v) \<Rightarrow> nat \<Rightarrow> 'v page list \<Rightarrow> ('v page list \<times> nat \<times> nat) res" where
  "sm_index P fresh addr ps =
     (let i = sm_lower_bound addr ps;
          result = (\<lambda>i ps'. Inr (ps', i, size_sub addr (pin (ps' ! i))))
      in if i = -1 then bindr (insert_page P fresh 0 addr 0 ps) (result 0)
         else if addr \<ge> pout (ps ! nat i)
         then bindr (insert_page P fresh (nat i + 1) addr 0 ps) (result (nat i + 1))
         else result (nat i) ps)"

definition sm_has :: "nat \<Rightarrow> 'v page list \<Rightarrow> bool" where
  "sm_has addr ps =
     (let i = sm_lower_bound addr ps
      in if i = -1 then False else if addr < pout (ps ! nat i) then True else False)"

text \<open>Reading and writing through a reference that \<open>operator[]\<close> or \<open>get_block\<close> returned.\<close>

definition read_ref :: "nat \<times> nat \<Rightarrow> 'v page list \<Rightarrow> 'v" where
  "read_ref r ps = buf (ps ! fst r) ! snd r"

definition write_ref :: "nat \<times> nat \<Rightarrow> 'v \<Rightarrow> 'v page list \<Rightarrow> 'v page list" where
  "write_ref r v ps = ps[fst r := (ps ! fst r)\<lparr>buf := (buf (ps ! fst r))[snd r := v]\<rparr>]"

section \<open>Invariant and abstraction\<close>

definition page_ok :: "nat \<Rightarrow> 'v page \<Rightarrow> bool" where
  "page_ok P p \<longleftrightarrow> pin p < pout p \<and> P dvd pin p \<and> P dvd pout p \<and> pout p < 2 ^ 64 \<and>
     length (buf p) = pout p - pin p"

definition sm_ok :: "nat \<Rightarrow> 'v page list \<Rightarrow> bool" where
  "sm_ok P ps \<longleftrightarrow> 0 < P \<and> sorted_wrt (\<lambda>p q. pout p \<le> pin q) ps \<and> (\<forall>p \<in> set ps. page_ok P p)"

definition in_page :: "'v page \<Rightarrow> nat \<Rightarrow> bool" where
  "in_page p a \<longleftrightarrow> pin p \<le> a \<and> a < pout p"

text \<open>The memory as a partial function from addresses to values.\<close>

definition mem :: "'v page list \<Rightarrow> nat \<Rightarrow> 'v option" where
  "mem ps a = map_option (\<lambda>p. buf p ! (a - pin p)) (find (\<lambda>p. in_page p a) ps)"

section \<open>Looking a page up\<close>

lemma find_unique:
  assumes "x \<in> set xs" and "Q x" and "\<And>y. y \<in> set xs \<Longrightarrow> Q y \<Longrightarrow> y = x"
  shows "find Q xs = Some x"
proof (cases "find Q xs")
  case None
  then show ?thesis using assms(1,2) by (simp add: find_None_iff)
next
  case (Some y)
  then have "y \<in> set xs" "Q y" by (auto simp: find_Some_iff)
  with assms(3) Some show ?thesis by simp
qed

lemma sm_okD: "sm_ok P ps \<Longrightarrow> p \<in> set ps \<Longrightarrow> page_ok P p"
  by (simp add: sm_ok_def)

lemma sm_ok_pos: "sm_ok P ps \<Longrightarrow> 0 < P"
  by (simp add: sm_ok_def)

lemma sm_ok_sorted: "sm_ok P ps \<Longrightarrow> i < j \<Longrightarrow> j < length ps \<Longrightarrow> pout (ps ! i) \<le> pin (ps ! j)"
  by (simp add: sm_ok_def sorted_wrt_iff_nth_less)

lemma page_unique:
  assumes "sm_ok P ps" and "p \<in> set ps" and "q \<in> set ps" and "in_page p a" and "in_page q a"
  shows "p = q"
proof -
  obtain i j where ij: "i < length ps" "j < length ps" "p = ps ! i" "q = ps ! j"
    using assms(2,3) by (auto simp: in_set_conv_nth)
  have "\<not> i < j" "\<not> j < i"
    using sm_ok_sorted [OF assms(1), of i j] sm_ok_sorted [OF assms(1), of j i] ij assms(4,5)
    by (auto simp: in_page_def)
  then show ?thesis using ij by (metis nat_neq_iff)
qed

lemma mem_Some: "sm_ok P ps \<Longrightarrow> p \<in> set ps \<Longrightarrow> in_page p a \<Longrightarrow> mem ps a = Some (buf p ! (a - pin p))"
  by (simp add: mem_def find_unique [of p ps "\<lambda>p. in_page p a"] page_unique [of P ps _ p a])

lemma mem_eq_None: "mem ps a = None \<longleftrightarrow> (\<forall>p \<in> set ps. \<not> in_page p a)"
  by (auto simp: mem_def find_None_iff)

lemma mem_Cons: "mem (p # ps) a = (if in_page p a then Some (buf p ! (a - pin p)) else mem ps a)"
  by (simp add: mem_def)

lemma mem_append: "mem (ps @ qs) a = (case mem ps a of None \<Rightarrow> mem qs a | Some v \<Rightarrow> Some v)"
  by (induction ps) (auto simp: mem_Cons mem_def)

lemma starts_sorted: "sm_ok P ps \<Longrightarrow> sorted_wrt (\<lambda>p q. pin p < pin q) ps"
proof -
  assume ok: "sm_ok P ps"
  have "pin (ps ! i) < pin (ps ! j)" if "i < j" "j < length ps" for i j
  proof -
    have "pin (ps ! i) < pout (ps ! i)"
      using sm_okD [OF ok, of "ps ! i"] that by (simp add: page_ok_def)
    also have "\<dots> \<le> pin (ps ! j)" by (rule sm_ok_sorted [OF ok that])
    finally show ?thesis .
  qed
  then show ?thesis by (simp add: sorted_wrt_iff_nth_less)
qed

lemma dropWhile_above:
  "sorted_wrt (\<lambda>p q. f p \<le> (f q :: nat)) ps \<Longrightarrow> q \<in> set (dropWhile (\<lambda>p. f p \<le> a) ps) \<Longrightarrow> a < f q"
proof (induction ps)
  case (Cons p ps)
  then show ?case by (cases "f p \<le> a") (auto intro: order_less_le_trans)
next
  case Nil
  then show ?case by simp
qed

lemma takeWhile_split:
  assumes "sorted_wrt (\<lambda>p q. f p \<le> (f q :: nat)) ps"
  shows "(\<forall>p \<in> set (take (length (takeWhile (\<lambda>p. f p \<le> a) ps)) ps). f p \<le> a) \<and>
    (\<forall>p \<in> set (drop (length (takeWhile (\<lambda>p. f p \<le> a) ps)) ps). a < f p)"
  unfolding takeWhile_eq_take [symmetric] dropWhile_eq_drop [symmetric]
  using dropWhile_above [OF assms] by (blast dest: set_takeWhileD)

lemma below_split:
  assumes "sm_ok P ps" and "i = length (takeWhile (\<lambda>p. pin p \<le> a) ps)"
  shows "i \<le> length ps" and "\<forall>p \<in> set (take i ps). pin p \<le> a" and "\<forall>p \<in> set (drop i ps). a < pin p"
proof -
  have "sorted_wrt (\<lambda>p q. pin p \<le> pin q) ps"
    using starts_sorted [OF assms(1)] by (rule sorted_wrt_mono_rel [rotated]) simp
  note sp = takeWhile_split [OF this, of a]
  show "\<forall>p \<in> set (take i ps). pin p \<le> a" "\<forall>p \<in> set (drop i ps). a < pin p"
    using sp unfolding assms(2) by (rule conjunct1, rule conjunct2)
  show "i \<le> length ps" unfolding assms(2) by (rule length_takeWhile_le)
qed

text \<open>The page at the position found by \<open>lower_bound\<close> is the only one that can hold the address.\<close>

lemma last_page:
  assumes "sm_ok P ps" and "i = length (takeWhile (\<lambda>p. pin p \<le> a) ps)" and "0 < i"
  shows "i - 1 < length ps" and "pin (ps ! (i - 1)) \<le> a"
    and "\<forall>p \<in> set (take (i - 1) ps). pout p \<le> pin (ps ! (i - 1))"
    and "\<forall>p \<in> set ps. in_page p a \<longleftrightarrow> p = ps ! (i - 1) \<and> a < pout p"
proof -
  note sp = below_split [OF assms(1,2)]
  show l: "i - 1 < length ps" using sp(1) assms(3) by simp
  have m: "ps ! (i - 1) \<in> set (take i ps)"
    using nth_mem [of "i - 1" "take i ps"] l assms(3) by simp
  then show le: "pin (ps ! (i - 1)) \<le> a" using sp(2) by blast
  show bef: "\<forall>p \<in> set (take (i - 1) ps). pout p \<le> pin (ps ! (i - 1))"
    using sm_ok_sorted [OF assms(1)] l by (auto simp: in_set_conv_nth)
  have "set ps = set (take (i - 1) ps) \<union> {ps ! (i - 1)} \<union> set (drop i ps)"
    using id_take_nth_drop [OF l] assms(3) by (metis Suc_diff_1 Un_insert_left Un_insert_right list.simps(15) set_append sup_bot.right_neutral)
  then show "\<forall>p \<in> set ps. in_page p a \<longleftrightarrow> p = ps ! (i - 1) \<and> a < pout p"
    using le bef sp(3) by (auto simp: in_page_def)
qed

lemma lower_bound_cases [consumes 1, case_names before at]:
  assumes "sm_ok P ps"
  obtains (before) "sm_lower_bound a ps = -1" and "\<forall>p \<in> set ps. a < pin p"
    | (at) i where "sm_lower_bound a ps = int i" and "i < length ps" and "pin (ps ! i) \<le> a"
        and "\<forall>p \<in> set (take i ps). pout p \<le> pin (ps ! i)"
        and "\<forall>p \<in> set (drop (i + 1) ps). a < pin p"
        and "\<forall>p \<in> set ps. in_page p a \<longleftrightarrow> p = ps ! i \<and> a < pout p"
proof -
  define n where "n = length (takeWhile (\<lambda>p. pin p \<le> a) ps)"
  note sp = below_split [OF assms n_def]
  show thesis
  proof (cases "n = 0")
    case True
    then show thesis using before sp(3) by (simp add: sm_lower_bound_def n_def [symmetric])
  next
    case False
    then have p: "0 < n" by simp
    show thesis
      by (rule at [of "n - 1"])
        (use last_page [OF assms n_def p] sp(3) p in \<open>simp_all add: sm_lower_bound_def n_def [symmetric] of_nat_diff\<close>)
  qed
qed

text \<open>
  \<open>has\<close> answers whether the address is mapped.
\<close>

theorem has_iff_mapped:
  assumes "sm_ok P ps"
  shows "sm_has a ps \<longleftrightarrow> mem ps a \<noteq> None"
using assms
proof (cases rule: lower_bound_cases [where a = a])
  case before
  then show ?thesis by (auto simp: sm_has_def mem_eq_None in_page_def)
next
  case (at i)
  then have "ps ! i \<in> set ps" by simp
  then show ?thesis using at by (auto simp: sm_has_def mem_eq_None)
qed

section \<open>Inserting and joining pages\<close>

lemma sm_ok_replace:
  assumes "sm_ok P (A @ B @ C)" and "page_ok P p"
    and "\<forall>q \<in> set A. pout q \<le> pin p" and "\<forall>q \<in> set C. pout p \<le> pin q"
  shows "sm_ok P (A @ p # C)"
  using assms by (auto simp: sm_ok_def sorted_wrt_append)

lemma size_sub_nat: "b \<le> a \<Longrightarrow> a < 2 ^ 64 \<Longrightarrow> size_sub a b = a - b"
  by (rule size_sub_le)

lemma page_start: "(0::nat) < P \<Longrightarrow> a div P * P \<le> a \<and> a < a div P * P + P"
  using div_mult_mod_eq [of a P] mod_less_divisor [of P a] by linarith

lemma insert_page_eq:
  assumes "0 < P" and "S mod P = 0" and "E mod P = 0" and "S < E" and "E < 2 ^ 64"
  shows "insert_page P fresh i S E ps =
    Inr (take i ps @ \<lparr>pin = S, pout = E, buf = map (\<lambda>k. fresh (S + k)) [0 ..< E - S]\<rparr> # drop i ps)"
proof -
  have s: "S div P * P = S" using assms(2) by auto
  have d: "size_sub E S = E - S" using assms by (simp add: size_sub_le)
  have "(E - S) mod P = 0" using assms(2-4) by (metis dvd_diff_nat mod_0_imp_dvd dvd_imp_mod_0)
  then show ?thesis using assms(4) unfolding insert_page_def s Let_def by (simp add: d)
qed

lemma insert_page_default: "insert_page P fresh i a 0 ps = insert_page P fresh i a (size_add (a div P * P) P) ps"
  if "size_add (a div P * P) P \<noteq> 0"
  using that by (simp add: insert_page_def)

lemma merge_pages_spec:
  assumes "sorted_wrt (\<lambda>p q. pout p \<le> pin q) B" and "\<forall>q \<in> set B. page_ok P q \<and> pin p \<le> pin q \<and> pout q \<le> pout p"
    and "\<forall>q \<in> set C. pout p < pout q" and "page_ok P p"
  shows "\<exists>b. merge_pages p (B @ C) = (p\<lparr>buf := b\<rparr>, C) \<and> length b = pout p - pin p \<and>
    (\<forall>a. in_page p a \<longrightarrow> b ! (a - pin p) = (case mem B a of None \<Rightarrow> buf p ! (a - pin p) | Some v \<Rightarrow> v))"
  using assms
proof (induction B arbitrary: p)
  case Nil
  then show ?case by (cases C) (auto simp: page_ok_def mem_def intro!: exI [of _ "buf p"])
next
  case (Cons q B)
  define b where "b = copy_into (pin q - pin p) (buf q) (buf p)"
  have q: "pin p \<le> pin q" "pin q < pout q" "pout q \<le> pout p" "length (buf q) = pout q - pin q"
    "length (buf p) = pout p - pin p" "pout p < 2 ^ 64"
    using Cons.prems by (auto simp: page_ok_def)
  have sz: "size_sub (pin q) (pin p) = pin q - pin p" using q by (simp add: size_sub_le)
  have lb: "length b = pout p - pin p" using q by (simp add: b_def copy_into_def)
  have nb: "b ! (a - pin p) = (if in_page q a then buf q ! (a - pin q) else buf p ! (a - pin p))"
    if "in_page p a" for a
    using that q by (auto simp: b_def copy_into_def nth_append in_page_def intro!: arg_cong2 [where f = nth])
  have ok: "page_ok P (p\<lparr>buf := b\<rparr>)" using Cons.prems(4) lb by (simp add: page_ok_def)
  have dis: "mem B a = None" if "in_page q a" for a
    using Cons.prems(1) that by (auto simp: mem_eq_None in_page_def)
  obtain c where c: "merge_pages (p\<lparr>buf := b\<rparr>) (B @ C) = (p\<lparr>buf := c\<rparr>, C)" "length c = pout p - pin p"
    "\<And>a. in_page p a \<Longrightarrow> c ! (a - pin p) = (case mem B a of None \<Rightarrow> b ! (a - pin p) | Some v \<Rightarrow> v)"
  proof -
    have "\<exists>c. merge_pages (p\<lparr>buf := b\<rparr>) (B @ C) = (p\<lparr>buf := b, buf := c\<rparr>, C) \<and> length c = pout (p\<lparr>buf := b\<rparr>) - pin (p\<lparr>buf := b\<rparr>) \<and>
      (\<forall>a. in_page (p\<lparr>buf := b\<rparr>) a \<longrightarrow> c ! (a - pin (p\<lparr>buf := b\<rparr>)) =
        (case mem B a of None \<Rightarrow> buf (p\<lparr>buf := b\<rparr>) ! (a - pin (p\<lparr>buf := b\<rparr>)) | Some v \<Rightarrow> v))"
      using Cons.prems ok by (intro Cons.IH) (auto simp: in_page_def)
    then show ?thesis using that by (auto simp: in_page_def cong: option.case_cong)
  qed
  show ?case
    using c(1,2) c(3) nb dis q(3)
    by (intro exI [of _ c]) (auto simp: sz b_def [symmetric] mem_Cons split: option.splits)
qed

lemma sm_ok_append: "sm_ok P (A @ B) \<longleftrightarrow> sm_ok P A \<and> sm_ok P B \<and> (\<forall>p \<in> set A. \<forall>q \<in> set B. pout p \<le> pin q)"
  by (auto simp: sm_ok_def sorted_wrt_append)

lemma outs_sorted: "sm_ok P ps \<Longrightarrow> sorted_wrt (\<lambda>p q. pout p \<le> pout q) ps"
proof (induction ps)
  case (Cons p ps)
  then have "pout p \<le> pout q" if "q \<in> set ps" for q
    using that by (fastforce simp: sm_ok_def page_ok_def intro: order_trans order_less_imp_le)
  with Cons show ?case by (simp add: sm_ok_def)
qed simp

lemma join_ok:
  fixes ps :: "'v page list"
  assumes ok: "sm_ok P ps" and i: "i \<le> length ps" and dv: "P dvd S" "P dvd E" and lt: "S < E" "E < 2 ^ 64"
    and before: "\<forall>p \<in> set (take i ps). pout p \<le> S"
    and after: "\<forall>q \<in> set (drop i ps). S \<le> pin q \<and> (pout q \<le> E \<or> E \<le> pin q)"
  shows "\<exists>p' C. join_pages P fresh i S E ps = Inr (take i ps @ p' # C) \<and> pin p' = S \<and> pout p' = E \<and>
    sm_ok P (take i ps @ p' # C) \<and>
    (\<forall>a. mem (take i ps @ p' # C) a =
       (if S \<le> a \<and> a < E then Some (case mem ps a of None \<Rightarrow> fresh a | Some v \<Rightarrow> v) else mem ps a))"
proof -
  define A where "A = take i ps"
  define B where "B = takeWhile (\<lambda>q. pout q \<le> E) (drop i ps)"
  define C where "C = dropWhile (\<lambda>q. pout q \<le> E) (drop i ps)"
  define p where "p = \<lparr>pin = S, pout = E, buf = map (\<lambda>k. fresh (S + k)) [0 ..< E - S]\<rparr>"
  have ps: "ps = A @ B @ C" "drop i ps = B @ C" "length A = i"
    using i by (simp_all add: A_def B_def C_def)
  have okp: "page_ok P p" using lt dv by (simp add: p_def page_ok_def)
  have B: "pout q \<le> E" if "q \<in> set B" for q using that by (auto simp: B_def dest: set_takeWhileD)
  have "sm_ok P (drop i ps)" using ok unfolding ps(2) by (simp add: ps(1) sm_ok_append)
  then have C1: "E < pout q" if "q \<in> set C" for q
    using dropWhile_above [OF outs_sorted] that unfolding C_def by blast
  have C: "E \<le> pin q" if "q \<in> set C" for q
  proof -
    have "q \<in> set (drop i ps)" using that by (simp add: ps(2))
    with after C1 [OF that] show ?thesis by (meson not_le)
  qed
  have ins: "insert_page P fresh i S E ps = Inr (A @ p # B @ C)"
    unfolding A_def ps(2) [symmetric] p_def
    by (rule insert_page_eq) (use ok dv lt in \<open>simp_all add: sm_ok_pos\<close>)
  have oB: "sm_ok P B" using ok by (simp add: ps(1) sm_ok_append)
  have "\<exists>b. merge_pages p (B @ C) = (p\<lparr>buf := b\<rparr>, C) \<and> length b = pout p - pin p \<and>
    (\<forall>a. in_page p a \<longrightarrow> b ! (a - pin p) = (case mem B a of None \<Rightarrow> buf p ! (a - pin p) | Some v \<Rightarrow> v))"
    using after B C1 okp oB by (intro merge_pages_spec) (auto simp: ps(2) p_def sm_ok_def)
  then obtain b where b: "merge_pages p (B @ C) = (p\<lparr>buf := b\<rparr>, C)" "length b = E - S"
    "\<And>a. S \<le> a \<Longrightarrow> a < E \<Longrightarrow> b ! (a - S) = (case mem B a of None \<Rightarrow> fresh a | Some v \<Rightarrow> v)"
    by (auto simp: p_def in_page_def cong: option.case_cong)
  define p' where "p' = p\<lparr>buf := b\<rparr>"
  have j: "join_pages P fresh i S E ps = Inr (A @ p' # C)"
    using ps(3) b(1) by (simp add: join_pages_def ins nth_append p'_def)
  have okp': "page_ok P p'" "pin p' = S" "pout p' = E" "buf p' = b"
    using okp b(2) by (simp_all add: p'_def p_def page_ok_def)
  have ok': "sm_ok P (A @ p' # C)"
    by (rule sm_ok_replace [where B = B]) (use ok ps okp' before C in \<open>auto simp: A_def [symmetric]\<close>)
  have A0: "mem A a = None" if "S \<le> a" for a
    using before that by (auto simp: mem_eq_None in_page_def A_def [symmetric])
  have B0: "mem B a = None" if "\<not> (S \<le> a \<and> a < E)" for a
  proof -
    have "S \<le> pin q \<and> pout q \<le> E" if "q \<in> set B" for q using after B [OF that] that by (simp add: ps(2))
    with that show ?thesis by (force simp: mem_eq_None in_page_def)
  qed
  have C0: "mem C a = None" if "a < E" for a
    using C that by (fastforce simp: mem_eq_None in_page_def)
  have "mem (A @ p' # C) a =
      (if S \<le> a \<and> a < E then Some (case mem ps a of None \<Rightarrow> fresh a | Some v \<Rightarrow> v) else mem ps a)" for a
  proof (cases "S \<le> a \<and> a < E")
    case True
    then show ?thesis
      using A0 C0 b(3) okp' by (simp add: ps(1) mem_append mem_Cons in_page_def split: option.split)
  next
    case False
    then have "\<not> in_page p' a" using okp' by (auto simp: in_page_def)
    then show ?thesis using False B0 [OF False] by (auto simp: ps(1) mem_append mem_Cons split: option.split)
  qed
  then show ?thesis using j ok' okp'(2,3) unfolding A_def by blast
qed

lemma aligned_above: "0 < P \<Longrightarrow> P dvd x \<Longrightarrow> a < x \<Longrightarrow> a div P * P + P \<le> (x :: nat)"
proof -
  assume "0 < P" "P dvd x" "a < x"
  then obtain k where "x = k * P" by (metis dvd_def mult.commute)
  moreover from this have "a div P < k" using \<open>a < x\<close> by (simp add: less_mult_imp_div_less)
  then have "(a div P + 1) * P \<le> k * P" by (intro mult_le_mono1) simp
  ultimately show ?thesis by simp
qed

lemma aligned_below: "P dvd x \<Longrightarrow> x \<le> a \<Longrightarrow> x \<le> a div P * (P :: nat)"
  using div_le_mono [of x a P] by (metis dvd_div_mult_self mult_le_mono1)

lemma same_page: "(0::nat) < P \<Longrightarrow> a div P * P \<le> b \<and> b < a div P * P + P \<longleftrightarrow> b div P = a div P"
  using page_start [of P b] aligned_below [of P "a div P * P" b] aligned_above [of P "a div P * P + P" b]
  by (metis add_le_cancel_right dvd_add_triv_right_iff dvd_triv_right mult_le_cancel2 nat_le_linear not_le order_antisym)

lemma insert_ok:
  fixes ps :: "'v page list"
  assumes ok: "sm_ok P ps" and i: "i \<le> length ps" and hi: "a div P * P + P < 2 ^ 64"
    and before: "\<forall>p \<in> set (take i ps). pout p \<le> a" and after: "\<forall>q \<in> set (drop i ps). a < pin q"
  shows "\<exists>p. insert_page P fresh i a 0 ps = Inr (take i ps @ p # drop i ps) \<and> in_page p a \<and>
    sm_ok P (take i ps @ p # drop i ps) \<and> mem ps a = None \<and>
    (\<forall>b. mem (take i ps @ p # drop i ps) b =
       (if mem ps b = None \<and> b div P = a div P then Some (fresh b) else mem ps b))"
proof -
  define S where "S = a div P * P"
  define p where "p = \<lparr>pin = S, pout = S + P, buf = map (\<lambda>k. fresh (S + k)) [0 ..< P]\<rparr>"
  have P: "0 < P" using ok by (rule sm_ok_pos)
  have S: "S \<le> a" "a < S + P" "P dvd S" "P dvd S + P" using page_start [OF P, of a] by (simp_all add: S_def)
  have np: "\<forall>p \<in> set ps. page_ok P p" using ok by (simp add: sm_ok_def)
  have be: "\<forall>p \<in> set (take i ps). pout p \<le> S"
    using before np by (auto simp: S_def page_ok_def dest: in_set_takeD intro!: aligned_below)
  have af: "\<forall>q \<in> set (drop i ps). S + P \<le> pin q"
    using after np P unfolding S_def by (auto simp: page_ok_def dest: in_set_dropD intro!: aligned_above)
  have hi': "S + P < 2 ^ 64" using hi by (simp add: S_def)
  have okp: "page_ok P p" unfolding page_ok_def p_def using P S(3,4) hi' by simp
  have "insert_page P fresh i a 0 ps = insert_page P fresh i S (S + P) ps"
    using P hi by (auto simp: insert_page_def S_def size_add_def Let_def)
  also have "\<dots> = Inr (take i ps @ p # drop i ps)"
  proof -
    have "insert_page P fresh i S (S + P) ps = Inr (take i ps @
        \<lparr>pin = S, pout = S + P, buf = map (\<lambda>k. fresh (S + k)) [0 ..< S + P - S]\<rparr> # drop i ps)"
      using P S(3,4) hi by (intro insert_page_eq) (auto simp: S_def)
    then show ?thesis by (simp add: p_def)
  qed
  finally have ins: "insert_page P fresh i a 0 ps = Inr (take i ps @ p # drop i ps)" .
  have ok': "sm_ok P (take i ps @ p # drop i ps)"
    by (rule sm_ok_replace [where B = "[]"]) (use ok okp be af in \<open>simp_all add: p_def\<close>)
  have T0: "mem (take i ps) b = None" if "S \<le> b" for b
    using be that by (auto simp: mem_eq_None in_page_def)
  have D0: "mem (drop i ps) b = None" if "b < S + P" for b
    using af that by (fastforce simp: mem_eq_None in_page_def)
  have spl: "mem ps b = mem (take i ps @ drop i ps) b" for b by simp
  have inp: "in_page p b \<longleftrightarrow> b div P = a div P" for b
    using same_page [OF P, of a b] by (simp add: p_def in_page_def S_def)
  have "mem (take i ps @ p # drop i ps) b =
      (if mem ps b = None \<and> b div P = a div P then Some (fresh b) else mem ps b)" for b
  proof (cases "in_page p b")
    case True
    then have b: "S \<le> b" "b < S + P" by (simp_all add: p_def in_page_def)
    have "b div P = a div P" using True inp by blast
    moreover have "b - S < P" using b by linarith
    ultimately show ?thesis using True T0 [OF b(1)] D0 [OF b(2)] b
      by (simp add: spl mem_append mem_Cons p_def del: append_take_drop_id)
  next
    case False
    then have "b div P \<noteq> a div P" using inp by blast
    then show ?thesis using False by (simp add: spl mem_append mem_Cons del: append_take_drop_id split: option.split)
  qed
  moreover have "mem ps a = None" using T0 D0 S by (simp add: spl mem_append del: append_take_drop_id)
  moreover have "in_page p a" using inp by simp
  ultimately show ?thesis using ins ok' by blast
qed

lemma write_ref_mem:
  assumes "sm_ok P ps" and "i < length ps" and "in_page (ps ! i) a"
  shows "sm_ok P (write_ref (i, a - pin (ps ! i)) v ps)"
    and "mem (write_ref (i, a - pin (ps ! i)) v ps) b = (if b = a then Some v else mem ps b)"
proof -
  define p where "p = (ps ! i)\<lparr>buf := (buf (ps ! i))[a - pin (ps ! i) := v]\<rparr>"
  have w: "write_ref (i, a - pin (ps ! i)) v ps = take i ps @ p # drop (Suc i) ps"
    using assms(2) by (simp add: write_ref_def p_def upd_conv_take_nth_drop)
  have ps: "ps = take i ps @ ps ! i # drop (Suc i) ps" using id_take_nth_drop [OF assms(2)] by simp
  have okp: "page_ok P (ps ! i)" using sm_okD [OF assms(1)] assms(2) by simp
  show ok': "sm_ok P (write_ref (i, a - pin (ps ! i)) v ps)"
    unfolding w using assms(1) okp
    by (subst (asm) ps) (auto simp: p_def sm_ok_def sorted_wrt_append page_ok_def)
  have l: "a - pin (ps ! i) < length (buf (ps ! i))"
    using okp assms(3) by (auto simp: page_ok_def in_page_def)
  have "mem (take i ps @ p # drop (Suc i) ps) b = (if b = a then Some v else mem (take i ps @ ps ! i # drop (Suc i) ps) b)"
  proof (cases "in_page (ps ! i) b")
    case True
    have "\<not> in_page q b" if "q \<in> set (take i ps)" for q
      using that True sm_ok_sorted [OF assms(1)] assms(2) by (fastforce simp: in_set_conv_nth in_page_def)
    then have "mem (take i ps) b = None" by (simp add: mem_eq_None)
    then show ?thesis using True l assms(3)
      by (auto simp: mem_append mem_Cons p_def in_page_def nth_list_update)
  next
    case False
    then show ?thesis using assms(3) by (auto simp: mem_append mem_Cons p_def in_page_def split: option.split)
  qed
  then show "mem (write_ref (i, a - pin (ps ! i)) v ps) b = (if b = a then Some v else mem ps b)"
    unfolding w using ps by simp
qed

section \<open>Properties\<close>

lemma index_ok:
  fixes ps :: "'v page list"
  assumes ok: "sm_ok P ps" and hi: "a div P * P + P < 2 ^ 64"
  shows "\<exists>ps' i. sm_index P fresh a ps = Inr (ps', i, a - pin (ps' ! i)) \<and> i < length ps' \<and> in_page (ps' ! i) a \<and>
    sm_ok P ps' \<and>
    (\<forall>b. mem ps' b = (if mem ps a = None \<and> mem ps b = None \<and> b div P = a div P then Some (fresh b) else mem ps b))"
proof -
  have a64: "a < 2 ^ 64" using page_start [OF sm_ok_pos [OF ok], of a] hi by linarith
  have ins: "\<exists>ps'. insert_page P fresh i a 0 ps = Inr ps' \<and> i < length ps' \<and> in_page (ps' ! i) a \<and> sm_ok P ps' \<and>
      (\<forall>b. mem ps' b = (if mem ps a = None \<and> mem ps b = None \<and> b div P = a div P then Some (fresh b) else mem ps b))"
    if "i \<le> length ps" "\<forall>p \<in> set (take i ps). pout p \<le> a" "\<forall>q \<in> set (drop i ps). a < pin q" for i
    using insert_ok [OF ok that(1) hi that(2,3), of fresh] that(1) by (auto simp: nth_append)
  have sub: "size_sub a (pin p) = a - pin p" if "in_page p a" for p :: "'v page"
    using that a64 by (simp add: size_sub_le in_page_def)
  show ?thesis
    using ok
  proof (cases rule: lower_bound_cases [where a = a])
    case before
    then obtain ps' where "insert_page P fresh 0 a 0 ps = Inr ps'" "0 < length ps'" "in_page (ps' ! 0) a"
      "sm_ok P ps'" "\<forall>b. mem ps' b = (if mem ps a = None \<and> mem ps b = None \<and> b div P = a div P then Some (fresh b) else mem ps b)"
      using ins [of 0] by auto
    then show ?thesis using before(1) sub by (intro exI [of _ ps'] exI [of _ 0]) (simp add: sm_index_def)
  next
    case (at i)
    show ?thesis
    proof (cases "a < pout (ps ! i)")
      case True
      then have ip: "in_page (ps ! i) a" using at by (simp add: in_page_def)
      then have "mem ps a \<noteq> None" using at(2) by (auto simp: mem_eq_None)
      then show ?thesis using at(1,2) True ok sub [OF ip] ip
        by (intro exI [of _ ps] exI [of _ i]) (simp add: sm_index_def Let_def)
    next
      case False
      have "\<forall>p \<in> set (take (i + 1) ps). pout p \<le> a"
        using at False by (auto simp: take_Suc_conv_app_nth)
      then obtain ps' where "insert_page P fresh (i + 1) a 0 ps = Inr ps'" "i + 1 < length ps'" "in_page (ps' ! (i + 1)) a"
        "sm_ok P ps'" "\<forall>b. mem ps' b = (if mem ps a = None \<and> mem ps b = None \<and> b div P = a div P then Some (fresh b) else mem ps b)"
        using ins [of "i + 1"] at by auto
      then show ?thesis using at(1) False sub by (intro exI [of _ ps'] exI [of _ "i + 1"]) (simp add: sm_index_def)
    qed
  qed
qed

text \<open>
  \<open>operator[]\<close> maps at most the page of the address and keeps all other contents; a value written
  through the reference it returns is the one read back at that address, and only there.
\<close>

theorem index_read_after_write:
  assumes "sm_ok P ps" and "a div P * P + P < 2 ^ 64"
  shows "\<exists>ps' r. sm_index P fresh a ps = Inr (ps', r) \<and> sm_ok P ps' \<and> mem ps' a = Some (read_ref r ps') \<and>
    (\<forall>b. mem ps' b = (if mem ps a = None \<and> mem ps b = None \<and> b div P = a div P then Some (fresh b) else mem ps b)) \<and>
    (\<forall>v. sm_ok P (write_ref r v ps') \<and> mem (write_ref r v ps') = (mem ps')(a \<mapsto> v))"
proof -
  obtain ps' i where i: "sm_index P fresh a ps = Inr (ps', i, a - pin (ps' ! i))" "i < length ps'" "in_page (ps' ! i) a"
    "sm_ok P ps'"
    "\<forall>b. mem ps' b = (if mem ps a = None \<and> mem ps b = None \<and> b div P = a div P then Some (fresh b) else mem ps b)"
    using index_ok [OF assms] by blast
  then have "mem ps' a = Some (read_ref (i, a - pin (ps' ! i)) ps')"
    using mem_Some [of P ps' "ps' ! i" a] by (simp add: read_ref_def)
  then show ?thesis
    using i write_ref_mem [OF i(4,2,3)]
    by (intro exI [of _ ps'] exI [of _ "(i, a - pin (ps' ! i))"]) (auto simp: fun_eq_iff)
qed

definition example_mem :: "nat page list" where
  "example_mem = [\<lparr>pin = 8, pout = 12, buf = [1, 2, 3, 4]\<rparr>]"

lemma example_ok: "sm_ok 4 example_mem"
  by (auto simp: sm_ok_def page_ok_def example_mem_def)

lemma has_iff_mapped_witness: "sm_has 9 example_mem \<longleftrightarrow> mem example_mem 9 \<noteq> None"
  by (rule has_iff_mapped [OF example_ok])

lemma index_read_after_write_witness:
  "\<exists>ps' r. sm_index 4 id 5 example_mem = Inr (ps', r) \<and> sm_ok 4 ps' \<and> mem ps' 5 = Some (read_ref r ps') \<and>
    (\<forall>b. mem ps' b = (if mem example_mem 5 = None \<and> mem example_mem b = None \<and> b div 4 = 5 div 4
                        then Some (id b) else mem example_mem b)) \<and>
    (\<forall>v. sm_ok 4 (write_ref r v ps') \<and> mem (write_ref r v ps') = (mem ps')(5 \<mapsto> v))"
  by (rule index_read_after_write [OF example_ok]) simp

text \<open>The end of the block is moved to the end of the page it falls into, so that no page straddles it.\<close>

lemma end_adjusted:
  fixes ps :: "'v page list"
  assumes ok: "sm_ok P ps" and e0: "P dvd e0" "e0 < 2 ^ 64" and ei: "ei = outs_lower_bound e0 ps"
    and e: "e = (if ei \<noteq> length ps \<and> pin (ps ! ei) < e0 \<and> e0 < pout (ps ! ei) then pout (ps ! ei) else e0)"
  shows "e0 \<le> e" and "P dvd e" and "e < 2 ^ 64" and "\<forall>q \<in> set ps. pout q \<le> e \<or> e \<le> pin q"
    and "\<forall>a. e0 \<le> a \<and> a < e \<longrightarrow> mem ps a \<noteq> None"
    and "ei \<le> length ps" and "\<forall>q \<in> set (take ei ps). pout q < e0" and "\<forall>q \<in> set (drop ei ps). e0 \<le> pout q"
proof -
  have eil: "ei = length (takeWhile (\<lambda>p. pout p < e0) ps)" by (simp add: ei outs_lower_bound_def)
  show lt: "\<forall>q \<in> set (take ei ps). pout q < e0"
    unfolding eil takeWhile_eq_take [symmetric] by (blast dest: set_takeWhileD)
  show el: "ei \<le> length ps" by (simp add: eil length_takeWhile_le)
  have ge: "e0 \<le> pout (ps ! ei)" if "ei < length ps"
    using nth_length_takeWhile [of "\<lambda>p. pout p < e0" ps] that by (simp add: eil)
  have later: "pout (ps ! ei) \<le> pin q" if "q \<in> set (drop (Suc ei) ps)" for q
    using that sm_ok_sorted [OF ok, of ei] by (auto simp: in_set_conv_nth)
  have spl: "q \<in> set (take ei ps) \<or> ei < length ps \<and> (q = ps ! ei \<or> q \<in> set (drop (Suc ei) ps))" if "q \<in> set ps" for q
  proof (cases "ei < length ps")
    case True
    have "set ps = set (take ei ps @ ps ! ei # drop (Suc ei) ps)" using id_take_nth_drop [OF True] by simp
    then show ?thesis using that True by auto
  qed (use that el in auto)
  have ok_i: "page_ok P (ps ! ei)" if "ei < length ps" using sm_okD [OF ok] that by simp
  have pq: "pin q < pout q" if "q \<in> set ps" for q using sm_okD [OF ok that] by (simp add: page_ok_def)
  show "\<forall>q \<in> set (drop ei ps). e0 \<le> pout q"
  proof
    fix q assume q: "q \<in> set (drop ei ps)"
    then have l: "ei < length ps" by (cases "ei < length ps") auto
    then have "q = ps ! ei \<or> q \<in> set (drop (Suc ei) ps)" using q by (auto simp: Cons_nth_drop_Suc [symmetric])
    then show "e0 \<le> pout q" using ge [OF l] later [of q] pq [of q] in_set_dropD [of q "Suc ei" ps] by fastforce
  qed
  have "(e = e0 \<and> (ei < length ps \<longrightarrow> e0 \<le> pin (ps ! ei) \<or> pout (ps ! ei) = e0)) \<or>
      (ei < length ps \<and> pin (ps ! ei) < e0 \<and> e0 < pout (ps ! ei) \<and> e = pout (ps ! ei))"
    using ge el unfolding e by (auto simp: le_less)
  then consider (same) "e = e0" "ei < length ps \<longrightarrow> e0 \<le> pin (ps ! ei) \<or> pout (ps ! ei) = e0"
    | (moved) "ei < length ps" "pin (ps ! ei) < e0" "e0 < pout (ps ! ei)" "e = pout (ps ! ei)" by blast
  then have "(e0 \<le> e \<and> P dvd e \<and> e < 2 ^ 64) \<and> (\<forall>q \<in> set ps. pout q \<le> e \<or> e \<le> pin q) \<and>
    (\<forall>a. e0 \<le> a \<and> a < e \<longrightarrow> mem ps a \<noteq> None)"
  proof cases
    case same
    have "\<forall>q \<in> set ps. pout q \<le> e \<or> e \<le> pin q"
      using spl lt later ge same by (metis le_trans less_imp_le order_refl)
    then show ?thesis using same(1) e0 by auto
  next
    case moved
    have "\<forall>q \<in> set ps. pout q \<le> e \<or> e \<le> pin q"
      using spl lt later moved by (metis le_trans less_imp_le order_refl)
    moreover have "\<exists>p \<in> set ps. in_page p a" if "e0 \<le> a" "a < e" for a
      using that moved by (intro bexI [of _ "ps ! ei"]) (simp_all add: in_page_def)
    ultimately show ?thesis using moved ok_i unfolding mem_eq_None by (auto simp: page_ok_def)
  qed
  then show "e0 \<le> e" "P dvd e" "e < 2 ^ 64" "\<forall>q \<in> set ps. pout q \<le> e \<or> e \<le> pin q"
    "\<forall>a. e0 \<le> a \<and> a < e \<longrightarrow> mem ps a \<noteq> None" by blast+
qed

text \<open>Page \<open>i\<close> of \<open>ps'\<close> covers \<open>s .. e0\<close>, and \<open>ps'\<close> extends \<open>ps\<close> at most there.\<close>

definition block_at :: "nat \<Rightarrow> 'v page list \<Rightarrow> nat \<Rightarrow> nat \<Rightarrow> nat \<Rightarrow> 'v page list \<Rightarrow> bool" where
  "block_at P ps s e0 i ps' \<longleftrightarrow> sm_ok P ps' \<and> i < length ps' \<and> pin (ps' ! i) \<le> s \<and> e0 \<le> pout (ps' ! i) \<and>
     (\<forall>a v. mem ps a = Some v \<longrightarrow> mem ps' a = Some v) \<and>
     (\<forall>a. mem ps a = None \<and> mem ps' a \<noteq> None \<longrightarrow> s \<le> a \<and> a < e0)"

lemma join_block:
  assumes "sm_ok P ps" and "i \<le> length ps" and "P dvd S" "P dvd e" and "S < e" "e < 2 ^ 64"
    and "\<forall>p \<in> set (take i ps). pout p \<le> S"
    and "\<forall>q \<in> set (drop i ps). S \<le> pin q \<and> (pout q \<le> e \<or> e \<le> pin q)"
    and "S \<le> s" "e0 \<le> e"
    and "\<forall>a. S \<le> a \<and> a < s \<longrightarrow> mem ps a \<noteq> None" and "\<forall>a. e0 \<le> a \<and> a < e \<longrightarrow> mem ps a \<noteq> None"
  shows "\<exists>ps'. join_pages P fresh i S e ps = Inr ps' \<and> block_at P ps s e0 i ps'"
proof -
  obtain p' C where c: "join_pages P fresh i S e ps = Inr (take i ps @ p' # C)" "pin p' = S" "pout p' = e"
    "sm_ok P (take i ps @ p' # C)"
    "\<And>a. mem (take i ps @ p' # C) a =
       (if S \<le> a \<and> a < e then Some (case mem ps a of None \<Rightarrow> fresh a | Some v \<Rightarrow> v) else mem ps a)"
    using join_ok [OF assms(1-8), of fresh] by blast
  have n: "(take i ps @ p' # C) ! i = p'" using assms(2) by (simp add: nth_append)
  have "s \<le> a \<and> a < e0" if "mem ps a = None" "mem (take i ps @ p' # C) a \<noteq> None" for a
    using that c(5) [of a] assms(11,12) by (metis not_le)
  then show ?thesis
    using c n assms(2,9,10) by (intro exI [of _ "take i ps @ p' # C"]) (auto simp: block_at_def)
qed

lemma get_block_ok:
  fixes ps :: "'v page list"
  assumes ok: "sm_ok P ps" and st: "s < t" and hi: "t div P * P + P < 2 ^ 64"
  shows "\<exists>ps' i. get_block P fresh s t ps = Inr (ps', i, size_sub s (pin (ps' ! i))) \<and>
    block_at P ps (s div P * P) (t div P * P + P) i ps'"
proof -
  define start where "start = s div P * P"
  define e0 where "e0 = t div P * P + P"
  define ei where "ei = outs_lower_bound e0 ps"
  define e where "e = (if ei \<noteq> length ps \<and> pin (ps ! ei) < e0 \<and> e0 < pout (ps ! ei) then pout (ps ! ei) else e0)"
  have P: "0 < P" by (rule sm_ok_pos [OF ok])
  have e0s: "size_add (t div P * P) P = e0" using hi by (simp add: size_add_def e0_def)
  have d: "P dvd start" "P dvd e0" "e0 < 2 ^ 64" using hi by (simp_all add: start_def e0_def)
  have "s div P \<le> t div P" using st by (simp add: div_le_mono)
  then have se: "start < e0" using P by (auto simp: start_def e0_def intro: le_less_trans [OF mult_le_mono1])
  note E = end_adjusted [OF ok d(2,3) ei_def e_def]
  have se': "start < e" using se E(1) by simp
  have gb: "get_block P fresh s t ps =
     (let si = sm_lower_bound start ps; result = (\<lambda>i ps'. Inr (ps', i, size_sub s (pin (ps' ! i))))
      in if si = -1 then bindr (join_pages P fresh 0 start e ps) (result 0)
           else if si = int ei then result (nat si) ps
           else if start < pout (ps ! nat si)
           then bindr (join_pages P fresh (nat si) (pin (ps ! nat si)) e ps) (result (nat si))
           else bindr (join_pages P fresh (nat si + 1) start e ps) (result (nat si + 1)))"
    using st unfolding get_block_def e0s start_def [symmetric] Let_def ei_def [symmetric] e_def [symmetric] by simp
  have "\<exists>ps' i. get_block P fresh s t ps = Inr (ps', i, size_sub s (pin (ps' ! i))) \<and> block_at P ps start e0 i ps'"
    using ok
  proof (cases rule: lower_bound_cases [where a = start])
    case before
    have "\<exists>ps'. join_pages P fresh 0 start e ps = Inr ps' \<and> block_at P ps start e0 0 ps'"
      using ok d se' E before(2) by (intro join_block) (auto intro: less_imp_le)
    then show ?thesis using before(1) by (auto simp: gb)
  next
    case (at i)
    have ips: "ps ! i \<in> set ps" using at(2) by simp
    then have oki: "page_ok P (ps ! i)" by (rule sm_okD [OF ok])
    consider (within) "i = ei" | (extend) "i \<noteq> ei" "start < pout (ps ! i)" | (new) "i \<noteq> ei" "pout (ps ! i) \<le> start"
      by linarith
    then show ?thesis
    proof cases
      case within
      then have "e0 \<le> pout (ps ! i)" using E(8) at(2) by (auto simp: Cons_nth_drop_Suc [symmetric])
      then have "block_at P ps start e0 i ps" using ok at by (auto simp: block_at_def)
      then show ?thesis using at(1) within by (auto simp: gb Let_def)
    next
      case extend
      have un: "mem ps a \<noteq> None" if "pin (ps ! i) \<le> a" "a < start" for a
        using that extend ips by (auto simp: mem_eq_None in_page_def)
      have dr: "\<forall>q \<in> set (drop i ps). pin (ps ! i) \<le> pin q"
        using at(2,3,5) by (auto simp: Cons_nth_drop_Suc [symmetric])
      have "\<exists>ps'. join_pages P fresh i (pin (ps ! i)) e ps = Inr ps' \<and> block_at P ps start e0 i ps'"
        by (rule join_block) (use ok at d E se' oki un dr in \<open>auto simp: page_ok_def dest: in_set_dropD\<close>)
      then show ?thesis using at(1) extend by (auto simp: gb)
    next
      case new
      have tk: "\<forall>p \<in> set (take (i + 1) ps). pout p \<le> start"
        using at new by (auto simp: take_Suc_conv_app_nth)
      have dr: "\<forall>q \<in> set (drop (i + 1) ps). start \<le> pin q" using at(5) by (auto intro: less_imp_le)
      have "\<exists>ps'. join_pages P fresh (i + 1) start e ps = Inr ps' \<and> block_at P ps start e0 (i + 1) ps'"
        by (rule join_block) (use ok at d E se' tk dr in \<open>auto dest: in_set_dropD\<close>)
      then show ?thesis using at(1) new by (auto simp: gb)
    qed
  qed
  then show ?thesis by (simp add: start_def e0_def)
qed

text \<open>
  C24. \<open>get_block\<close> always returns: the pointer it gives addresses a buffer in which the whole requested
  range is contiguous and holds the contents of the memory; nothing that was mapped is lost or
  changed by joining pages, and only the pages of the range are newly mapped.
\<close>

theorem get_block_contiguous:
  assumes "sm_ok P ps" and "s < t" and "t div P * P + P < 2 ^ 64"
  shows "\<exists>ps' i off. get_block P fresh s t ps = Inr (ps', i, off) \<and> sm_ok P ps' \<and>
    (\<forall>k \<le> t - s. off + k < length (buf (ps' ! i)) \<and> mem ps' (s + k) = Some (read_ref (i, off + k) ps')) \<and>
    (\<forall>a v. mem ps a = Some v \<longrightarrow> mem ps' a = Some v) \<and>
    (\<forall>a. mem ps a = None \<and> mem ps' a \<noteq> None \<longrightarrow> s div P * P \<le> a \<and> a < t div P * P + P)"
proof -
  obtain ps' i where g: "get_block P fresh s t ps = Inr (ps', i, size_sub s (pin (ps' ! i)))"
    and b: "block_at P ps (s div P * P) (t div P * P + P) i ps'"
    using get_block_ok [OF assms] by blast
  have P: "0 < P" by (rule sm_ok_pos [OF assms(1)])
  have i: "sm_ok P ps'" "i < length ps'" "pin (ps' ! i) \<le> s" "t < pout (ps' ! i)"
  proof -
    have "s div P * P \<le> s" "t < t div P * P + P"
      using page_start [OF P, of s] page_start [OF P, of t] by blast+
    with b show "sm_ok P ps'" "i < length ps'" "pin (ps' ! i) \<le> s" "t < pout (ps' ! i)"
      unfolding block_at_def by linarith+
  qed
  have m: "ps' ! i \<in> set ps'" using i(2) by simp
  have l: "length (buf (ps' ! i)) = pout (ps' ! i) - pin (ps' ! i)" "pout (ps' ! i) < 2 ^ 64"
    using sm_okD [OF i(1) m] by (simp_all add: page_ok_def)
  have off: "size_sub s (pin (ps' ! i)) = s - pin (ps' ! i)"
    using i(3,4) l(2) assms(2) by (simp add: size_sub_le)
  have "s - pin (ps' ! i) + k < length (buf (ps' ! i)) \<and>
      mem ps' (s + k) = Some (read_ref (i, s - pin (ps' ! i) + k) ps')" if "k \<le> t - s" for k
  proof -
    have "in_page (ps' ! i) (s + k)" using that i(3,4) assms(2) by (simp add: in_page_def)
    then show ?thesis using mem_Some [OF i(1) m, of "s + k"] that i(3,4) l(1) assms(2)
      by (simp add: read_ref_def)
  qed
  then show ?thesis using g b unfolding off block_at_def
    by (intro exI [of _ ps'] exI [of _ i] exI [of _ "s - pin (ps' ! i)"]) auto
qed

lemma get_block_contiguous_witness:
  "\<exists>ps' i off. get_block 4 id 3 14 example_mem = Inr (ps', i, off) \<and> sm_ok 4 ps' \<and>
    (\<forall>k \<le> 14 - 3. off + k < length (buf (ps' ! i)) \<and> mem ps' (3 + k) = Some (read_ref (i, off + k) ps')) \<and>
    (\<forall>a v. mem example_mem a = Some v \<longrightarrow> mem ps' a = Some v) \<and>
    (\<forall>a. mem example_mem a = None \<and> mem ps' a \<noteq> None \<longrightarrow> 3 div 4 * 4 \<le> a \<and> a < 14 div 4 * 4 + 4)"
  by (rule get_block_contiguous [OF example_ok]) simp_all

text \<open>
  The last page of the address space cannot be used: its end wraps to 0, so after \<open>operator[]\<close>
  has allocated it on an empty memory \<open>has\<close> denies the address, and a second access allocates the
  page again, behind the first one: a value written before is lost.
\<close>

theorem last_page_lost:
  assumes "0 < P" and "P < 2 ^ 64" and "a div P * P + P = 2 ^ 64"
  shows "\<exists>ps' r. sm_index P fresh a [] = Inr (ps', r) \<and> \<not> sm_has a ps' \<and>
    (\<forall>v fresh'. \<exists>ps'' r'. sm_index P fresh' a (write_ref r v ps') = Inr (ps'', r') \<and>
       length ps'' = 2 \<and> read_ref r' ps'' = fresh' a)"
proof -
  define S where "S = a div P * P"
  have S: "S \<le> a" "a < S + P" "S + P = 2 ^ 64" using page_start [OF assms(1), of a] assms(3) by (simp_all add: S_def)
  have e: "size_add S P = 0" by (simp add: size_add_def S(3))
  have d: "size_sub 0 S = P" "size_sub a S = a - S"
  proof -
    have "2 ^ 64 - S = P" using S(3) by simp
    then show "size_sub 0 S = P" using assms(2) by (simp add: size_sub_def)
    show "size_sub a S = a - S" using S by (intro size_sub_le) linarith+
  qed
  have k: "a - S < P" "S + (a - S) = a" using S by simp_all
  define p where "p = (\<lambda>f :: nat \<Rightarrow> 'a. \<lparr>pin = S, pout = 0, buf = map (\<lambda>k. f (S + k)) [0 ..< P]\<rparr>)"
  have ins: "insert_page P f i a 0 ps = Inr (take i ps @ p f # drop i ps)" for i ps and f :: "nat \<Rightarrow> 'a"
    unfolding insert_page_def S_def [symmetric] Let_def by (simp add: e d p_def)
  have one: "sm_index P fresh a [] = Inr ([p fresh], 0, a - S)"
    by (simp add: sm_index_def sm_lower_bound_def ins) (simp add: p_def d)
  have no: "\<not> sm_has a [p fresh]"
    using S(1) by (simp add: sm_has_def sm_lower_bound_def p_def)
  have "sm_index P fresh' a (write_ref (0, a - S) v [p fresh]) =
      Inr (write_ref (0, a - S) v [p fresh] @ [p fresh'], 1, a - S)" for v fresh'
    using S(1) by (simp add: sm_index_def sm_lower_bound_def ins write_ref_def) (simp add: p_def d)
  moreover have "read_ref (1, a - S) (write_ref (0, a - S) v [p fresh] @ [p fresh']) = fresh' a" for v fresh'
    using k by (simp add: read_ref_def write_ref_def p_def)
  moreover have "length (write_ref (0, a - S) v [p fresh] @ [p fresh']) = 2" for v fresh'
    by (simp add: write_ref_def)
  ultimately show ?thesis using one no by blast
qed

lemma last_page_lost_witness:
  "\<exists>ps' r. sm_index 1024 id (2 ^ 64 - 1) [] = Inr (ps', r) \<and> \<not> sm_has (2 ^ 64 - 1) ps' \<and>
    (\<forall>v fresh'. \<exists>ps'' r'. sm_index 1024 fresh' (2 ^ 64 - 1) (write_ref r v ps') = Inr (ps'', r') \<and>
       length ps'' = 2 \<and> read_ref r' ps'' = fresh' (2 ^ 64 - 1))"
  by (rule last_page_lost) simp_all

end
