(* ===== verification/Router_Scheduler.thy ===== *)
theory Router_Scheduler
  imports GL_Prelude "HOL-Library.Multiset"
begin

text \<open>
  The schedulers of GreenRouter (\<^verbatim>\<open>greenrouter/genericScheduler_if.h\<close>,
  \<^verbatim>\<open>scheduler/fixedPriorityScheduler.h\<close>, \<^verbatim>\<open>scheduler/dynamicPriorityScheduler.h\<close>). A request is
  a transaction with a phase and the number of the master it came from. Both queues are a
  \<^verbatim>\<open>std::multiset\<close>: a list in which an element is inserted behind those it is not less than. Times are
  in units of the time resolution; the simulation time is an argument.
\<close>

section \<open>The queue\<close>

definition ms_insert :: "('a \<Rightarrow> 'a \<Rightarrow> bool) \<Rightarrow> 'a \<Rightarrow> 'a list \<Rightarrow> 'a list" where
  "ms_insert lt x xs = takeWhile (\<lambda>y. \<not> lt x y) xs @ x # dropWhile (\<lambda>y. \<not> lt x y) xs"

lemma ms_insert_mset [simp]: "mset (ms_insert lt x xs) = add_mset x (mset xs)"
proof -
  have "mset (takeWhile (\<lambda>y. \<not> lt x y) xs @ dropWhile (\<lambda>y. \<not> lt x y) xs) = mset xs"
    by (simp only: takeWhile_dropWhile_id)
  then have "mset (takeWhile (\<lambda>y. \<not> lt x y) xs) + mset (dropWhile (\<lambda>y. \<not> lt x y) xs) = mset xs"
    by (simp only: mset_append)
  then show ?thesis by (simp add: ms_insert_def)
qed

lemma ms_insert_set [simp]: "set (ms_insert lt x xs) = insert x (set xs)"
  by (metis ms_insert_mset set_mset_add_mset_insert set_mset_mset)

lemma ms_insert_length [simp]: "length (ms_insert lt x xs) = Suc (length xs)"
  by (metis ms_insert_mset size_add_mset size_mset)

text \<open>An order given by a key.\<close>

lemma ms_insert_sorted:
  fixes f :: "'a \<Rightarrow> 'k :: linorder"
  assumes "\<And>x y. lt x y \<longleftrightarrow> f x < f y" and "sorted (map f xs)"
  shows "sorted (map f (ms_insert lt x xs))"
proof -
  have t: "f y \<le> f x" if "y \<in> set (takeWhile (\<lambda>y. \<not> lt x y) xs)" for y
    using set_takeWhileD [OF that] assms(1) [of x y] by (simp add: not_less)
  have d: "f x \<le> f y" if "y \<in> set (dropWhile (\<lambda>y. \<not> lt x y) xs)" for y
    using assms(2) that
  proof (induction xs)
    case (Cons z zs)
    then show ?case using assms(1) by (auto split: if_splits)
  qed simp
  have "sorted (map f (takeWhile (\<lambda>y. \<not> lt x y) xs @ dropWhile (\<lambda>y. \<not> lt x y) xs))"
    using assms(2) by (simp only: takeWhile_dropWhile_id)
  then have "sorted (map f (takeWhile (\<lambda>y. \<not> lt x y) xs))" "sorted (map f (dropWhile (\<lambda>y. \<not> lt x y) xs))"
    by (simp_all only: map_append sorted_append)
  moreover have "f y \<le> f z" if "y \<in> set (takeWhile (\<lambda>y. \<not> lt x y) xs)" "z \<in> set (dropWhile (\<lambda>y. \<not> lt x y) xs)" for y z
    using t [OF that(1)] d [OF that(2)] by (rule order_trans)
  ultimately show ?thesis using t d by (auto simp: ms_insert_def sorted_append)
qed

text \<open>Elements with the key of the inserted one stay in front of it.\<close>

lemma ms_insert_stable:
  fixes f :: "'a \<Rightarrow> 'k :: linorder"
  assumes "\<And>x y. lt x y \<longleftrightarrow> f x < f y" and "sorted (map f xs)"
  shows "filter (\<lambda>y. f y = k) (ms_insert lt x xs) =
    filter (\<lambda>y. f y = k) xs @ (if f x = k then [x] else [])"
proof -
  have "filter (\<lambda>y. f y = f x) (dropWhile (\<lambda>y. \<not> lt x y) xs) = []"
    using assms(2)
  proof (induction xs)
    case (Cons z zs)
    then show ?case using assms(1) by (auto simp: filter_empty_conv)
  qed simp
  moreover have "filter P xs = filter P (takeWhile (\<lambda>y. \<not> lt x y) xs) @ filter P (dropWhile (\<lambda>y. \<not> lt x y) xs)" for P
    by (metis filter_append takeWhile_dropWhile_id)
  ultimately show ?thesis by (auto simp: ms_insert_def)
qed

section \<open>Fixed priorities\<close>

type_synonym 'p request = "(nat \<times> 'p) \<times> u32"

definition fixed_less :: "'p request \<Rightarrow> 'p request \<Rightarrow> bool" where
  "fixed_less x y = (snd x < snd y)"

definition fixed_enqueue :: "nat \<Rightarrow> 'p \<Rightarrow> u32 \<Rightarrow> 'p request list \<Rightarrow> 'p request list" where
  "fixed_enqueue txn ph m_id q = ms_insert fixed_less ((txn, ph), m_id) q"

definition fixed_dequeue :: "bool \<Rightarrow> 'p request list \<Rightarrow> ((nat \<times> 'p) \<times> 'p request list) res" where
  "fixed_dequeue remove q =
     (case q of
        [] \<Rightarrow> Inl (ScError ''Dequeue was called on empty queue.'')
      | r # rs \<Rightarrow> Inr (fst r, if remove then rs else q))"

definition fixed_isPending :: "'p request list \<Rightarrow> bool" where
  "fixed_isPending q = (length q > 0)"

definition fixed_isEmpty :: "'p request list \<Rightarrow> bool" where
  "fixed_isEmpty q = (length q = 0)"

text \<open>All requests in the order in which they leave the queue.\<close>

fun fixed_drain :: "nat \<Rightarrow> 'p request list \<Rightarrow> (nat \<times> 'p) list res" where
  "fixed_drain 0 q = Inr []"
| "fixed_drain (Suc n) q =
     bindr (fixed_dequeue True q) (\<lambda>(r, q'). bindr (fixed_drain n q') (\<lambda>rs. Inr (r # rs)))"

definition fixed_enqueue_all :: "'p request list \<Rightarrow> 'p request list" where
  "fixed_enqueue_all rs = fold (\<lambda>((txn, ph), m_id). fixed_enqueue txn ph m_id) rs []"

lemma fixed_drain_eq: "fixed_drain (length q) q = Inr (map fst q)"
  by (induction q) (simp_all add: fixed_dequeue_def)

lemma fixed_fold:
  assumes "sorted (map snd q)"
  shows "sorted (map snd (fold (\<lambda>((txn, ph), m_id). fixed_enqueue txn ph m_id) rs q)) \<and>
    (\<forall>k. filter (\<lambda>r. snd r = k) (fold (\<lambda>((txn, ph), m_id). fixed_enqueue txn ph m_id) rs q) =
      filter (\<lambda>r. snd r = k) (q @ rs)) \<and>
    mset (fold (\<lambda>((txn, ph), m_id). fixed_enqueue txn ph m_id) rs q) = mset (q @ rs)"
  using assms
proof (induction rs arbitrary: q)
  case (Cons r rs)
  obtain txn ph m_id where r: "r = ((txn, ph), m_id)" by (metis surj_pair)
  have s: "sorted (map snd (fixed_enqueue txn ph m_id q))"
    unfolding fixed_enqueue_def by (rule ms_insert_sorted) (simp_all add: fixed_less_def Cons.prems)
  have f: "filter (\<lambda>r. snd r = k) (fixed_enqueue txn ph m_id q) =
      filter (\<lambda>r. snd r = k) q @ (if m_id = k then [r] else [])" for k
    unfolding fixed_enqueue_def using ms_insert_stable [of fixed_less snd q k r] Cons.prems
    by (simp add: fixed_less_def r)
  show ?case using Cons.IH [OF s] f by (simp add: r) (simp add: fixed_enqueue_def)
qed simp

text \<open>
  The fixed priority queue is a stable sort: whatever is enqueued leaves it ordered by the
  number of the master, requests of one master in the order in which they were enqueued, and
  none is lost or duplicated; one more dequeue reports an error.
\<close>

theorem fixed_scheduler_order:
  "fixed_drain (length rs) (fixed_enqueue_all rs) = Inr (map fst (sort_key snd rs)) \<and>
    isl (fixed_drain (Suc (length rs)) (fixed_enqueue_all rs))"
proof -
  let ?q = "fixed_enqueue_all rs"
  have q: "sorted (map snd ?q)" "mset ?q = mset rs" "\<And>k. filter (\<lambda>r. snd r = k) ?q = filter (\<lambda>r. snd r = k) rs"
    using fixed_fold [of "[]" rs] by (auto simp: fixed_enqueue_all_def)
  have "?q = sort_key snd rs"
  proof (rule properties_for_sort_key [symmetric])
    show "filter (\<lambda>x. snd k = snd x) ?q = filter (\<lambda>x. snd k = snd x) rs" for k
      using q(3) [of "snd k"] by (simp add: eq_commute)
  qed (use q in simp_all)
  moreover have "length ?q = length rs" using q(2) by (metis size_mset)
  moreover have "isl (fixed_drain (Suc (length q)) q)" for q
    by (induction q) (auto simp: fixed_dequeue_def bindr_def split: sum.splits)
  ultimately show ?thesis using fixed_drain_eq [of ?q] by (metis length_sort)
qed

section \<open>Dynamic priorities\<close>

text \<open>
  A request becomes valid one clock period after it was enqueued. The iterator \<^verbatim>\<open>m_pos\<close> is the index
  of its element, with the length of the queue for \<^verbatim>\<open>end()\<close>; an insertion in front of the element
  moves the index. The priority of a transaction is the value of its priority extension, if it has one.
\<close>

record 'p dyn_entry =
  m_tp :: "nat \<times> 'p"
  m_enqueue_time :: nat
  m_prio :: u32
  m_sock_id :: u32

definition dyn_less :: "'p dyn_entry \<Rightarrow> 'p dyn_entry \<Rightarrow> bool" where
  "dyn_less x y = (if m_prio x = m_prio y then m_sock_id x < m_sock_id y else m_prio x > m_prio y)"

record 'p dyn_sched =
  m_isPendingWasCalled :: bool
  m_queue :: "'p dyn_entry list"
  m_pos :: nat
  sched_clk :: nat

definition new_dyn_sched :: "nat \<Rightarrow> 'p dyn_sched" where
  "new_dyn_sched t = \<lparr>m_isPendingWasCalled = False, m_queue = [], m_pos = 0, sched_clk = t\<rparr>"

definition dyn_enqueue :: "nat \<Rightarrow> u32 option \<Rightarrow> nat \<Rightarrow> 'p \<Rightarrow> u32 \<Rightarrow> 'p dyn_sched \<Rightarrow> 'p dyn_sched" where
  "dyn_enqueue now prio txn ph mid s =
     (let e = \<lparr>m_tp = (txn, ph), m_enqueue_time = now,
                m_prio = (case prio of Some v \<Rightarrow> v | None \<Rightarrow> 2), m_sock_id = mid\<rparr>;
          k = length (takeWhile (\<lambda>y. \<not> dyn_less e y) (m_queue s))
      in s\<lparr>m_queue := ms_insert dyn_less e (m_queue s),
            m_pos := (if k \<le> m_pos s then m_pos s + 1 else m_pos s)\<rparr>)"

definition valid_at :: "nat \<Rightarrow> nat \<Rightarrow> 'p dyn_entry \<Rightarrow> bool" where
  "valid_at now clk e = (m_enqueue_time e + clk \<le> now)"

definition dyn_isPending :: "nat \<Rightarrow> 'p dyn_sched \<Rightarrow> bool \<times> 'p dyn_sched" where
  "dyn_isPending now s =
     (let k = length (takeWhile (\<lambda>e. \<not> valid_at now (sched_clk s) e) (m_queue s))
      in (k < length (m_queue s), s\<lparr>m_isPendingWasCalled := True, m_pos := k\<rparr>))"

definition dyn_dequeue :: "bool \<Rightarrow> 'p dyn_sched \<Rightarrow> ((nat \<times> 'p) \<times> 'p dyn_sched) res" where
  "dyn_dequeue remove s =
     (if \<not> m_isPendingWasCalled s
      then Inl (ScError ''Dequeue was called without preceeding isPending(). This is not allowed.'')
      else if length (m_queue s) = 0 then Inl (ScError ''Dequeue was called on empty queue.'')
      else if m_pos s \<ge> length (m_queue s) then Inl (Undefined ''dereference of end()'')
      else Inr (m_tp (m_queue s ! m_pos s),
                if remove
                then s\<lparr>m_queue := take (m_pos s) (m_queue s) @ drop (m_pos s + 1) (m_queue s),
                        m_isPendingWasCalled := False\<rparr>
                else s))"

definition dyn_isEmpty :: "'p dyn_sched \<Rightarrow> bool" where
  "dyn_isEmpty s = (length (m_queue s) = 0)"

text \<open>The order of the queue as one key: priority first, then the socket.\<close>

definition dyn_key :: "'p dyn_entry \<Rightarrow> nat" where
  "dyn_key e = (2 ^ 32 - 1 - unat (m_prio e)) * 2 ^ 32 + unat (m_sock_id e)"

lemma lex_key: "b < n \<Longrightarrow> d < n \<Longrightarrow> a * n + b < c * n + d \<longleftrightarrow> a < c \<or> (a = c \<and> b < (d :: nat))"
proof -
  assume h: "b < n" "d < n"
  have "a * n + b < c * n + d" if "a < c"
  proof -
    have "(a + 1) * n \<le> c * n" using that by (intro mult_le_mono1) simp
    then show ?thesis using h by simp
  qed
  moreover have "c * n + d < a * n + b" if "c < a"
  proof -
    have "(c + 1) * n \<le> a * n" using that by (intro mult_le_mono1) simp
    then show ?thesis using h by simp
  qed
  ultimately show ?thesis by (cases a c rule: linorder_cases) auto
qed

lemma dyn_less_key: "dyn_less x y \<longleftrightarrow> dyn_key x < dyn_key y"
proof -
  have b: "unat (w :: u32) < 2 ^ 32" for w using unsigned_less [of w, where 'a = nat] by simp
  have "2 ^ 32 - 1 - unat (m_prio x) < 2 ^ 32 - 1 - unat (m_prio y) \<longleftrightarrow> m_prio y < m_prio x"
    "2 ^ 32 - 1 - unat (m_prio x) = 2 ^ 32 - 1 - unat (m_prio y) \<longleftrightarrow> m_prio x = m_prio y"
    using b [of "m_prio x"] b [of "m_prio y"] by (auto simp: word_less_nat_alt word_unat_eq_iff)
  then show ?thesis
    unfolding dyn_key_def lex_key [OF b b] by (auto simp: dyn_less_def word_less_nat_alt)
qed

definition dyn_ok :: "'p dyn_sched \<Rightarrow> bool" where
  "dyn_ok s \<longleftrightarrow> sorted (map dyn_key (m_queue s))"

lemma dyn_ok_new: "dyn_ok (new_dyn_sched t)"
  by (simp add: dyn_ok_def new_dyn_sched_def)

lemma dyn_ok_enqueue: "dyn_ok s \<Longrightarrow> dyn_ok (dyn_enqueue now prio txn ph mid s)"
  using ms_insert_sorted [of dyn_less dyn_key "m_queue s"] by (simp add: dyn_ok_def dyn_enqueue_def Let_def dyn_less_key)

lemma dyn_isPending_ok [simp]: "dyn_ok (snd (dyn_isPending now s)) \<longleftrightarrow> dyn_ok s"
  by (simp add: dyn_ok_def dyn_isPending_def Let_def)

lemma takeWhile_stops: "length (takeWhile P xs) < length xs \<longleftrightarrow> (\<exists>x \<in> set xs. \<not> P x)"
  by (induction xs) auto

lemma dyn_pending_iff: "fst (dyn_isPending now s) \<longleftrightarrow> (\<exists>e \<in> set (m_queue s). valid_at now (sched_clk s) e)"
  by (simp add: dyn_isPending_def Let_def takeWhile_stops)

text \<open>The granted request.\<close>

lemma dyn_dequeue_eq:
  assumes "dyn_ok s" and "dyn_isPending now s = (True, s1)"
  shows "\<exists>e s2. dyn_dequeue True s1 = Inr (m_tp e, s2) \<and> dyn_ok s2 \<and> mset (m_queue s) = add_mset e (mset (m_queue s2)) \<and>
    valid_at now (sched_clk s) e \<and>
    (\<forall>e' \<in> set (m_queue s). valid_at now (sched_clk s) e' \<longrightarrow> \<not> dyn_less e' e)"
proof -
  define q where "q = m_queue s"
  define k where "k = length (takeWhile (\<lambda>e. \<not> valid_at now (sched_clk s) e) q)"
  have k: "k < length q" "s1 = s\<lparr>m_isPendingWasCalled := True, m_pos := k\<rparr>"
    using assms(2) by (auto simp: dyn_isPending_def Let_def k_def q_def)
  have v: "valid_at now (sched_clk s) (q ! k)"
    using nth_length_takeWhile [of "\<lambda>e. \<not> valid_at now (sched_clk s) e" q] k(1) by (simp add: k_def)
  have so: "sorted (map dyn_key q)" using assms(1) by (simp add: dyn_ok_def q_def)
  have split: "q = take k q @ q ! k # drop (k + 1) q" using id_take_nth_drop [OF k(1)] by simp
  have before: "\<not> valid_at now (sched_clk s) e" if "e \<in> set (take k q)" for e
    using that set_takeWhileD [of e "\<lambda>e. \<not> valid_at now (sched_clk s) e" q]
    unfolding k_def takeWhile_eq_take [symmetric] by blast
  have after: "dyn_key (q ! k) \<le> dyn_key e" if "e \<in> set (drop (k + 1) q)" for e
    using so that by (subst (asm) split) (auto simp: sorted_append)
  have best: "\<not> dyn_less e' (q ! k)" if "e' \<in> set q" "valid_at now (sched_clk s) e'" for e'
  proof -
    have "set q = set (take k q @ q ! k # drop (k + 1) q)" using split by simp
    then have "e' = q ! k \<or> e' \<in> set (drop (k + 1) q)" using that before by auto
    then show ?thesis using after by (auto simp: dyn_less_key not_less)
  qed
  have m: "mset q = add_mset (q ! k) (mset (take k q @ drop (k + 1) q))"
    by (subst split) simp
  have "sorted (map dyn_key (take k q @ drop (k + 1) q))"
    using so by (subst (asm) split) (auto simp: sorted_append)
  then show ?thesis using k v best m
    by (intro exI [of _ "q ! k"] exI [of _ "s1\<lparr>m_queue := take k q @ drop (k + 1) q, m_isPendingWasCalled := False\<rparr>"])
      (auto simp: dyn_dequeue_def dyn_ok_def q_def)
qed

text \<open>
  The dynamic scheduler on a sorted queue: when \<open>isPending\<close> holds, \<open>dequeue\<close> removes exactly one
  request, which has waited for a clock period and has the highest priority, and among those the
  lowest socket number, of all that have; when it does not hold but the queue is not empty,
  \<open>dequeue\<close> passes its check and dereferences the end of the queue.
\<close>

theorem dynamic_scheduler_grants:
  fixes s :: "'p dyn_sched"
  assumes "dyn_ok s"
  shows "(case dyn_isPending now s of
      (True, s1) \<Rightarrow> \<exists>e s2. dyn_dequeue True s1 = Inr (m_tp e, s2) \<and> dyn_ok s2 \<and>
        mset (m_queue s) = add_mset e (mset (m_queue s2)) \<and> valid_at now (sched_clk s) e \<and>
        (\<forall>e' \<in> set (m_queue s). valid_at now (sched_clk s) e' \<longrightarrow>
           m_prio e' < m_prio e \<or> (m_prio e' = m_prio e \<and> m_sock_id e \<le> m_sock_id e'))
    | (False, s1) \<Rightarrow>
        if m_queue s = [] then isl (dyn_dequeue r s1)
        else dyn_dequeue r s1 = Inl (Undefined ''dereference of end()''))"
proof (cases "fst (dyn_isPending now s)")
  case True
  then obtain s1 where s1: "dyn_isPending now s = (True, s1)" by (metis prod.collapse)
  have "\<not> dyn_less e' e \<longleftrightarrow> m_prio e' < m_prio e \<or> (m_prio e' = m_prio e \<and> m_sock_id e \<le> m_sock_id e')" for e' e :: "'p dyn_entry"
    by (auto simp: dyn_less_def)
  then show ?thesis using dyn_dequeue_eq [OF assms s1] by (simp add: s1)
next
  case False
  then show ?thesis by (auto simp: dyn_isPending_def dyn_dequeue_def Let_def)
qed

definition example_sched :: "nat dyn_sched" where
  "example_sched = dyn_enqueue 0 (Some 7) 12 1 3 (dyn_enqueue 0 None 11 1 0 (new_dyn_sched 10))"

lemma example_sched_ok: "dyn_ok example_sched"
  by (simp add: example_sched_def dyn_ok_enqueue dyn_ok_new)

lemma dynamic_scheduler_grants_witness:
  "(case dyn_isPending 10 example_sched of
      (True, s1) \<Rightarrow> \<exists>e s2. dyn_dequeue True s1 = Inr (m_tp e, s2) \<and> dyn_ok s2 \<and>
        mset (m_queue example_sched) = add_mset e (mset (m_queue s2)) \<and> valid_at 10 (sched_clk example_sched) e \<and>
        (\<forall>e' \<in> set (m_queue example_sched). valid_at 10 (sched_clk example_sched) e' \<longrightarrow>
           m_prio e' < m_prio e \<or> (m_prio e' = m_prio e \<and> m_sock_id e \<le> m_sock_id e'))
    | (False, s1) \<Rightarrow>
        if m_queue example_sched = [] then isl (dyn_dequeue True s1)
        else dyn_dequeue True s1 = Inl (Undefined ''dereference of end()''))"
  by (rule dynamic_scheduler_grants [OF example_sched_ok])

section \<open>The scheduler interface\<close>

text \<open>
  The operations of \<^verbatim>\<open>GenericScheduler_if\<close> that a bus uses, with the time and the priority
  extension of the transaction as arguments. A scheduler keeps its requests: what is enqueued is
  held until it is dequeued, and a pending scheduler has one to dequeue.
\<close>

record ('p, 'q) sched_ops =
  enqueue :: "nat \<Rightarrow> u32 option \<Rightarrow> nat \<Rightarrow> 'p \<Rightarrow> u32 \<Rightarrow> 'q \<Rightarrow> 'q"
  isPending :: "nat \<Rightarrow> 'q \<Rightarrow> bool \<times> 'q"
  dequeue :: "'q \<Rightarrow> ((nat \<times> 'p) \<times> 'q) res"

locale scheduler =
  fixes ops :: "('p, 'q) sched_ops" and held :: "'q \<Rightarrow> (nat \<times> 'p) multiset" and ok :: "'q \<Rightarrow> bool"
  assumes enqueue_ok: "ok q \<Longrightarrow> ok (enqueue ops now prio t ph m q)"
    and enqueue_held: "held (enqueue ops now prio t ph m q) = add_mset (t, ph) (held q)"
    and pending_ok: "ok q \<Longrightarrow> ok (snd (isPending ops now q))"
    and pending_held: "held (snd (isPending ops now q)) = held q"
    and dequeue_ok: "ok q \<Longrightarrow> isPending ops now q = (True, q1) \<Longrightarrow>
      \<exists>r q2. dequeue ops q1 = Inr (r, q2) \<and> ok q2 \<and> held q = add_mset r (held q2)"
begin

lemma pending_held_eq: "isPending ops now q = (b, q1) \<Longrightarrow> held q1 = held q"
  using pending_held [of now q] by simp

lemma pending_ok_eq: "ok q \<Longrightarrow> isPending ops now q = (b, q1) \<Longrightarrow> ok q1"
  using pending_ok [of q now] by simp

lemma dequeue_pending:
  assumes "ok q" and "isPending ops now q = (True, q1)" and "dequeue ops q1 = Inr (r, q2)"
  shows "ok q2 \<and> held q = add_mset r (held q2)"
  using dequeue_ok [OF assms(1,2)] assms(3) by auto

end

definition fixed_ops :: "('p, 'p request list) sched_ops" where
  "fixed_ops = \<lparr>enqueue = (\<lambda>now prio t ph m q. fixed_enqueue t ph m q),
     isPending = (\<lambda>now q. (fixed_isPending q, q)), dequeue = fixed_dequeue True\<rparr>"

definition dyn_ops :: "('p, 'p dyn_sched) sched_ops" where
  "dyn_ops = \<lparr>enqueue = dyn_enqueue, isPending = dyn_isPending, dequeue = dyn_dequeue True\<rparr>"

interpretation fixed: scheduler fixed_ops "\<lambda>q. image_mset fst (mset q)" "\<lambda>q. True"
proof
  fix q q1 :: "'p request list" and now
  assume "isPending fixed_ops now q = (True, q1)"
  then show "\<exists>r q2. dequeue fixed_ops q1 = Inr (r, q2) \<and> True \<and>
      image_mset fst (mset q) = add_mset r (image_mset fst (mset q2))"
    by (cases q) (auto simp: fixed_ops_def fixed_isPending_def fixed_dequeue_def)
qed (simp_all add: fixed_ops_def fixed_enqueue_def)

interpretation dynamic: scheduler dyn_ops "\<lambda>s. image_mset m_tp (mset (m_queue s))" dyn_ok
proof
  fix q q1 :: "'p dyn_sched" and now
  assume "dyn_ok q" "isPending dyn_ops now q = (True, q1)"
  then show "\<exists>r q2. dequeue dyn_ops q1 = Inr (r, q2) \<and> dyn_ok q2 \<and>
      image_mset m_tp (mset (m_queue q)) = add_mset r (image_mset m_tp (mset (m_queue q2)))"
    using dyn_dequeue_eq [of q now q1] by (force simp: dyn_ops_def)
qed (simp_all add: dyn_ops_def dyn_ok_enqueue dyn_enqueue_def dyn_isPending_def Let_def dyn_ok_def ms_insert_sorted dyn_less_key)

end
