(* ===== verification/Simple_Bus.thy ===== *)
theory Simple_Bus
  imports Router_Scheduler
begin

unbundle bit_operations_syntax

text \<open>
  The bus protocol of GreenRouter (\<^verbatim>\<open>greenrouter/protocol/SimpleBus/simpleBusProtocol.h\<close>): requests of
  the masters go through a payload event queue into the scheduler, the bus grants one at a time
  to a slave, and responses come back through a second queue. The order and time in which the two
  queues deliver is the kernel's: a history of operations is arbitrary. Transactions are numbered;
  the sockets at the two sides and the address decoder are arguments, and so is the scheduler, as
  the operations of its interface.
\<close>

section \<open>Transactions and phases\<close>

datatype phase =
    BEGIN_REQ | END_REQ | BEGIN_RESP | END_RESP
  | BEGIN_DATA | END_DATA
  | Ignorable nat

datatype sync = TLM_ACCEPTED | TLM_UPDATED | TLM_COMPLETED

datatype command = READ_COMMAND | WRITE_COMMAND | IGNORE_COMMAND

datatype response = OK_RESPONSE | INCOMPLETE_RESPONSE | Error_response nat

text \<open>
  The fields of the generic payload that the bus reads, with the extensions it uses:
  \<^verbatim>\<open>bytes_valid\<close>, the priority, \<^verbatim>\<open>txn_states\<close> (absent until the first router validates it) and the
  sender numbers, one entry per router in the last two.
\<close>

record payload =
  address :: u64
  command :: command
  response_status :: response
  data_length :: u32
  bytes_valid :: u32
  priority :: "u32 option"
  txn_states :: "8 word list"
  has_txn_states :: bool
  sender_ids :: "u32 list"

record p2p_data =
  p_txn :: nat
  p_phase :: phase
  p_addr :: u64
  p_bytes_valid :: u32
  p_response :: response

section \<open>The bus\<close>

record ('q, 'w) bus =
  txns :: "nat \<Rightarrow> payload"
  m_idle :: bool
  queue :: 'q
  m_fw_peq :: "p2p_data list"
  m_bw_peq :: "p2p_data list"
  world :: 'w

record 'w bus_env =
  router_id :: nat
  num_routers :: nat
  has_write_resp :: bool
  has_bytes_valid :: bool
  decodeAddress :: "payload \<Rightarrow> bool \<times> u32"
  nb_fw :: "u32 \<Rightarrow> nat \<Rightarrow> phase \<Rightarrow> (nat \<Rightarrow> payload) \<times> 'w \<Rightarrow> sync \<times> phase \<times> (nat \<Rightarrow> payload) \<times> 'w"
  nb_bw :: "u32 \<Rightarrow> nat \<Rightarrow> phase \<Rightarrow> (nat \<Rightarrow> payload) \<times> 'w \<Rightarrow> sync \<times> phase \<times> (nat \<Rightarrow> payload) \<times> 'w"

text \<open>What a step makes visible: references taken and dropped, requests queued and granted.\<close>

datatype bus_event = Acquire nat | Release nat | Queue nat phase | Grant nat phase | Start

type_synonym ('a, 'q, 'w) bus_res = "('a \<times> bus_event list \<times> ('q, 'w) bus) res"

definition set_txn :: "nat \<Rightarrow> (payload \<Rightarrow> payload) \<Rightarrow> ('q, 'w) bus \<Rightarrow> ('q, 'w) bus" where
  "set_txn t f s = s\<lparr>txns := (txns s)(t := f (txns s t))\<rparr>"

definition snapshot :: "nat \<Rightarrow> phase \<Rightarrow> ('q, 'w) bus \<Rightarrow> p2p_data" where
  "snapshot t ph s = \<lparr>p_txn = t, p_phase = ph, p_addr = address (txns s t),
     p_bytes_valid = bytes_valid (txns s t), p_response = response_status (txns s t)\<rparr>"

definition restore :: "p2p_data \<Rightarrow> payload \<Rightarrow> payload" where
  "restore d p = p\<lparr>address := p_addr d, response_status := p_response d, bytes_valid := p_bytes_valid d\<rparr>"

definition fw_notify :: "nat \<Rightarrow> phase \<Rightarrow> ('q, 'w) bus \<Rightarrow> ('q, 'w) bus" where
  "fw_notify t ph s = s\<lparr>m_fw_peq := m_fw_peq s @ [snapshot t ph s]\<rparr>"

definition bw_notify :: "nat \<Rightarrow> phase \<Rightarrow> ('q, 'w) bus \<Rightarrow> ('q, 'w) bus" where
  "bw_notify t ph s = s\<lparr>m_bw_peq := m_bw_peq s @ [snapshot t ph s]\<rparr>"

definition state_of :: "'w bus_env \<Rightarrow> nat \<Rightarrow> ('q, 'w) bus \<Rightarrow> 8 word res" where
  "state_of E t s =
     (if router_id E < length (txn_states (txns s t)) then Inr (txn_states (txns s t) ! router_id E)
      else Inl (Undefined ''txn_states index''))"

definition mark_state :: "'w bus_env \<Rightarrow> 8 word \<Rightarrow> nat \<Rightarrow> ('q, 'w) bus \<Rightarrow> ('q, 'w) bus" where
  "mark_state E b t s = set_txn t (\<lambda>p. p\<lparr>txn_states :=
     (txn_states p)[router_id E := (txn_states p ! router_id E) OR b]\<rparr>) s"

definition sender_of :: "'w bus_env \<Rightarrow> nat \<Rightarrow> ('q, 'w) bus \<Rightarrow> u32 res" where
  "sender_of E t s =
     (if router_id E < length (sender_ids (txns s t)) then Inr (sender_ids (txns s t) ! router_id E)
      else Inl (Undefined ''sender_ids index''))"

definition set_sender :: "'w bus_env \<Rightarrow> u32 \<Rightarrow> nat \<Rightarrow> ('q, 'w) bus \<Rightarrow> ('q, 'w) bus" where
  "set_sender E from t s = set_txn t (\<lambda>p.
     let ids = (if length (sender_ids p) \<le> router_id E
                then sender_ids p @ replicate (router_id E + 1 - length (sender_ids p)) 0
                else sender_ids p)
     in p\<lparr>sender_ids := ids[router_id E := from]\<rparr>) s"

text \<open>The first router that sees a transaction clears the states of all routers.\<close>

definition init_states :: "'w bus_env \<Rightarrow> nat \<Rightarrow> ('q, 'w) bus \<Rightarrow> ('q, 'w) bus" where
  "init_states E t s = set_txn t (\<lambda>p.
     if has_txn_states p then p
     else p\<lparr>txn_states := replicate (num_routers E) 0 @ drop (num_routers E) (txn_states p),
             has_txn_states := True\<rparr>) s"

definition call_fw :: "'w bus_env \<Rightarrow> u32 \<Rightarrow> nat \<Rightarrow> phase \<Rightarrow> ('q, 'w) bus \<Rightarrow> sync \<times> phase \<times> ('q, 'w) bus" where
  "call_fw E port t ph s =
     (case nb_fw E port t ph (txns s, world s) of
        (r, ph', ts, w) \<Rightarrow> (r, ph', s\<lparr>txns := ts, world := w\<rparr>))"

definition call_bw :: "'w bus_env \<Rightarrow> u32 \<Rightarrow> nat \<Rightarrow> phase \<Rightarrow> ('q, 'w) bus \<Rightarrow> sync \<times> phase \<times> ('q, 'w) bus" where
  "call_bw E port t ph s =
     (case nb_bw E port t ph (txns s, world s) of
        (r, ph', ts, w) \<Rightarrow> (r, ph', s\<lparr>txns := ts, world := w\<rparr>))"

section \<open>Accesses from the sockets\<close>

definition registerMasterAccess ::
  "'w bus_env \<Rightarrow> u32 \<Rightarrow> nat \<Rightarrow> phase \<Rightarrow> ('q, 'w) bus \<Rightarrow> (sync \<times> phase, 'q, 'w) bus_res" where
  "registerMasterAccess E from t ph s =
     (let s1 = init_states E t s
      in if ph = BEGIN_REQ
         then Inr ((TLM_ACCEPTED, ph), [Acquire t], fw_notify t ph (set_sender E from t s1))
         else if ph = END_RESP \<or> ph = BEGIN_DATA then Inr ((TLM_ACCEPTED, ph), [], fw_notify t ph s1)
         else bindr (state_of E t s1) (\<lambda>st.
           if st AND 4 = 0
           then let s2 = set_sender E from t s1
                in case decodeAddress E (txns s2 t) of
                     (True, port) \<Rightarrow> (case call_fw E port t ph s2 of (r, ph', s3) \<Rightarrow> Inr ((r, ph'), [], s3))
                   | (False, _) \<Rightarrow> Inr ((TLM_ACCEPTED, ph), [], s2)
           else Inr ((TLM_ACCEPTED, ph), [], s1)))"

definition registerSlaveAccess ::
  "'w bus_env \<Rightarrow> nat \<Rightarrow> phase \<Rightarrow> ('q, 'w) bus \<Rightarrow> (sync \<times> phase, 'q, 'w) bus_res" where
  "registerSlaveAccess E t ph s =
     (if ph = END_REQ \<or> ph = BEGIN_RESP \<or> ph = END_DATA
      then Inr ((TLM_ACCEPTED, ph), [], bw_notify t ph s)
      else if \<not> has_txn_states (txns s t) then Inl (AssertFail ''has_txn_sts'')
      else bindr (state_of E t s) (\<lambda>st.
        if st AND 2 = 0
        then bindr (sender_of E t s) (\<lambda>snd_id.
               case call_bw E snd_id t ph s of (r, ph', s1) \<Rightarrow> Inr ((r, ph'), [], s1))
        else Inr ((TLM_ACCEPTED, ph), [], s)))"

section \<open>The event queues\<close>

definition failed :: "payload \<Rightarrow> bool" where
  "failed p = (response_status p \<noteq> INCOMPLETE_RESPONSE \<and> response_status p \<noteq> OK_RESPONSE)"

definition finish :: "nat \<Rightarrow> ('q, 'w) bus \<Rightarrow> (unit, 'q, 'w) bus_res" where
  "finish t s = Inr ((), [Release t, Start], s\<lparr>m_idle := True\<rparr>)"

definition fw_forward :: "'w bus_env \<Rightarrow> nat \<Rightarrow> phase \<Rightarrow> ('q, 'w) bus \<Rightarrow> ('q, 'w) bus res" where
  "fw_forward E t ph s =
     bindr (state_of E t s) (\<lambda>st.
       if st AND 4 = 0
       then case decodeAddress E (txns s t) of
              (True, port) \<Rightarrow>
                (case call_fw E port t ph s of
                   (TLM_ACCEPTED, _, s1) \<Rightarrow> Inr s1
                 | (TLM_UPDATED, ph', s1) \<Rightarrow> Inr (bw_notify t ph' s1)
                 | (TLM_COMPLETED, _, s1) \<Rightarrow>
                     bindr (state_of E t s1) (\<lambda>_.
                       let s2 = mark_state E 4 t s1
                       in Inr (if ph = BEGIN_DATA then bw_notify t END_DATA s2 else s2)))
            | (False, _) \<Rightarrow> Inr s
       else Inr s)"

definition fw_peq_cb ::
  "(phase, 'q) sched_ops \<Rightarrow> 'w bus_env \<Rightarrow> nat \<Rightarrow> nat \<Rightarrow> phase \<Rightarrow> ('q, 'w) bus \<Rightarrow> (unit, 'q, 'w) bus_res" where
  "fw_peq_cb ops E now t ph s =
     (if ph = BEGIN_REQ
      then bindr (sender_of E t s) (\<lambda>snd_id.
             Inr ((), [Queue t ph, Start],
                  s\<lparr>queue := enqueue ops now (priority (txns s t)) t ph snd_id (queue s)\<rparr>))
      else if \<not> has_txn_states (txns s t) then Inl (AssertFail ''has_txn_sts'')
      else bindr (fw_forward E t ph s) (\<lambda>s1.
        let p = txns s1 t;
            is_over = (if has_bytes_valid E then bytes_valid p = data_length p else True)
        in if ph = END_RESP \<and> (is_over \<or> failed p) then finish t s1 else Inr ((), [], s1)))"

definition bw_forward :: "'w bus_env \<Rightarrow> nat \<Rightarrow> phase \<Rightarrow> ('q, 'w) bus \<Rightarrow> ('q, 'w) bus res" where
  "bw_forward E t ph s =
     bindr (state_of E t s) (\<lambda>st.
       if st AND 2 = 0
       then bindr (sender_of E t s) (\<lambda>snd_id.
              case call_bw E snd_id t ph s of
                (TLM_ACCEPTED, _, s1) \<Rightarrow> Inr s1
              | (TLM_UPDATED, ph', s1) \<Rightarrow> Inr (fw_notify t ph' s1)
              | (TLM_COMPLETED, _, s1) \<Rightarrow>
                  bindr (state_of E t s1) (\<lambda>_.
                    let s2 = mark_state E 2 t s1
                    in Inr (if ph = BEGIN_RESP then fw_notify t END_RESP s2 else s2)))
       else Inr s)"

definition bw_peq_cb ::
  "'w bus_env \<Rightarrow> nat \<Rightarrow> phase \<Rightarrow> ('q, 'w) bus \<Rightarrow> (unit, 'q, 'w) bus_res" where
  "bw_peq_cb E t ph s =
     (if \<not> has_txn_states (txns s t) then Inl (AssertFail ''has_txn_sts'')
      else bindr (bw_forward E t ph s) (\<lambda>s1.
        let p = txns s1 t;
            is_over = (if has_bytes_valid E then \<not> has_write_resp E \<and> bytes_valid p = data_length p
                       else \<not> has_write_resp E)
        in if ph = END_DATA \<and> (is_over \<or> failed p) then finish t s1 else Inr ((), [], s1)))"

section \<open>Granting the bus\<close>

text \<open>The granted transaction is forwarded to the target that its address decodes to.\<close>

definition send_granted :: "'w bus_env \<Rightarrow> nat \<Rightarrow> phase \<Rightarrow> ('q, 'w) bus \<Rightarrow> (bool \<times> ('q, 'w) bus) res" where
  "send_granted E t ph s =
     (case decodeAddress E (txns s t) of
        (False, _) \<Rightarrow> Inr (False, s)
      | (True, port) \<Rightarrow>
          (case call_fw E port t ph s of
             (TLM_ACCEPTED, _, s1) \<Rightarrow> Inr (True, s1)
           | (TLM_UPDATED, ph', s1) \<Rightarrow> Inr (True, bw_notify t ph' s1)
           | (TLM_COMPLETED, _, s1) \<Rightarrow>
               let p = txns s1 t;
                   s2 = bw_notify t
                          (if command p = WRITE_COMMAND \<and> has_write_resp E \<or> command p = READ_COMMAND
                           then BEGIN_RESP else END_REQ) s1
               in if \<not> has_txn_states p then Inl (AssertFail ''has_txn_sts'')
                  else bindr (state_of E t s2) (\<lambda>_. Inr (True, mark_state E 4 t s2))))"

definition processMasterAccess ::
  "(phase, 'q) sched_ops \<Rightarrow> 'w bus_env \<Rightarrow> nat \<Rightarrow> ('q, 'w) bus \<Rightarrow> (bool, 'q, 'w) bus_res" where
  "processMasterAccess ops E now s =
     (if \<not> m_idle s then Inr (False, [], s)
      else case isPending ops now (queue s) of
        (False, q) \<Rightarrow> Inr (False, [], s\<lparr>queue := q\<rparr>)
      | (True, q) \<Rightarrow>
          bindr (dequeue ops q) (\<lambda>((t, ph), q1).
          bindr (send_granted E t ph (s\<lparr>m_idle := False, queue := q1\<rparr>)) (\<lambda>(ok, s1).
            Inr (ok, [Grant t ph], s1))))"

section \<open>Histories\<close>

text \<open>
  One operation of a history: an access from a master or a slave, the delivery of an entry of one
  of the queues (which restores the saved fields of the transaction), the start event of the
  scheduler, or a change of the transactions and of the rest of the system between the calls.
\<close>

datatype 'w bus_op =
    MasterAccess u32 nat phase
  | SlaveAccess nat phase
  | DeliverFw nat nat
  | DeliverBw nat
  | Process nat
  | Outside "(nat \<Rightarrow> payload) \<times> 'w \<Rightarrow> (nat \<Rightarrow> payload) \<times> 'w"

definition deliver_fw ::
  "(phase, 'q) sched_ops \<Rightarrow> 'w bus_env \<Rightarrow> nat \<Rightarrow> nat \<Rightarrow> ('q, 'w) bus \<Rightarrow> (unit, 'q, 'w) bus_res" where
  "deliver_fw ops E now i s =
     (if i < length (m_fw_peq s)
      then let d = m_fw_peq s ! i
           in fw_peq_cb ops E now (p_txn d) (p_phase d)
                (set_txn (p_txn d) (restore d) (s\<lparr>m_fw_peq := take i (m_fw_peq s) @ drop (i + 1) (m_fw_peq s)\<rparr>))
      else Inr ((), [], s))"

definition deliver_bw :: "'w bus_env \<Rightarrow> nat \<Rightarrow> ('q, 'w) bus \<Rightarrow> (unit, 'q, 'w) bus_res" where
  "deliver_bw E i s =
     (if i < length (m_bw_peq s)
      then let d = m_bw_peq s ! i
           in bw_peq_cb E (p_txn d) (p_phase d)
                (set_txn (p_txn d) (restore d) (s\<lparr>m_bw_peq := take i (m_bw_peq s) @ drop (i + 1) (m_bw_peq s)\<rparr>))
      else Inr ((), [], s))"

definition drop_result :: "('a, 'q, 'w) bus_res \<Rightarrow> (bus_event list \<times> ('q, 'w) bus) res" where
  "drop_result r = bindr r (\<lambda>(_, es, s). Inr (es, s))"

fun bus_step ::
  "(phase, 'q) sched_ops \<Rightarrow> 'w bus_env \<Rightarrow> 'w bus_op \<Rightarrow> ('q, 'w) bus \<Rightarrow> (bus_event list \<times> ('q, 'w) bus) res" where
  "bus_step ops E (MasterAccess from t ph) s = drop_result (registerMasterAccess E from t ph s)"
| "bus_step ops E (SlaveAccess t ph) s = drop_result (registerSlaveAccess E t ph s)"
| "bus_step ops E (DeliverFw now i) s = drop_result (deliver_fw ops E now i s)"
| "bus_step ops E (DeliverBw i) s = drop_result (deliver_bw E i s)"
| "bus_step ops E (Process now) s = drop_result (processMasterAccess ops E now s)"
| "bus_step ops E (Outside f) s =
     (case f (txns s, world s) of (ts, w) \<Rightarrow> Inr ([], s\<lparr>txns := ts, world := w\<rparr>))"

fun bus_run ::
  "(phase, 'q) sched_ops \<Rightarrow> 'w bus_env \<Rightarrow> 'w bus_op list \<Rightarrow> ('q, 'w) bus \<Rightarrow> (bus_event list \<times> ('q, 'w) bus) res" where
  "bus_run ops E [] s = Inr ([], s)"
| "bus_run ops E (x # xs) s =
     bindr (bus_step ops E x s) (\<lambda>(es, s1). bindr (bus_run ops E xs s1) (\<lambda>(es', s2). Inr (es @ es', s2)))"

section \<open>Frame lemmas\<close>

lemma bus_frame [simp]:
  "m_idle (set_txn t f s) = m_idle s" "queue (set_txn t f s) = queue s"
  "m_idle (fw_notify t ph s) = m_idle s" "queue (fw_notify t ph s) = queue s"
  "m_idle (bw_notify t ph s) = m_idle s" "queue (bw_notify t ph s) = queue s"
  "m_idle (mark_state E b t s) = m_idle s" "queue (mark_state E b t s) = queue s"
  "m_idle (set_sender E from t s) = m_idle s" "queue (set_sender E from t s) = queue s"
  "m_idle (init_states E t s) = m_idle s" "queue (init_states E t s) = queue s"
  by (simp_all add: set_txn_def fw_notify_def bw_notify_def mark_state_def set_sender_def init_states_def)

lemma call_frame:
  "call_fw E port t ph s = (r, ph', s') \<Longrightarrow> m_idle s' = m_idle s \<and> queue s' = queue s"
  "call_bw E port t ph s = (r, ph', s') \<Longrightarrow> m_idle s' = m_idle s \<and> queue s' = queue s"
  by (auto simp: call_fw_def call_bw_def split: prod.splits)

lemma fw_forward_frame:
  assumes "fw_forward E t ph s = Inr s'"
  shows "m_idle s' = m_idle s \<and> queue s' = queue s"
proof -
  obtain d port r ph' s1 where c: "decodeAddress E (txns s t) = (d, port)" "call_fw E port t ph s = (r, ph', s1)"
    by (metis prod_cases3 surj_pair)
  show ?thesis using assms call_frame(1) [OF c(2)] c
    by (cases r; cases d) (auto simp: fw_forward_def bindr_eq_Inr Let_def split: if_splits)
qed

lemma bw_forward_frame:
  assumes "bw_forward E t ph s = Inr s'"
  shows "m_idle s' = m_idle s \<and> queue s' = queue s"
proof (cases "sender_of E t s")
  case (Inr snd_id)
  obtain r ph' s1 where c: "call_bw E snd_id t ph s = (r, ph', s1)"
    by (metis prod_cases3)
  show ?thesis using assms call_frame(2) [OF c] c Inr
    by (cases r) (auto simp: bw_forward_def bindr_eq_Inr Let_def split: if_splits)
qed (use assms in \<open>auto simp: bw_forward_def bindr_eq_Inr split: if_splits\<close>)

lemma send_granted_frame:
  assumes "send_granted E t ph s = Inr (ok, s')"
  shows "m_idle s' = m_idle s \<and> queue s' = queue s"
proof -
  obtain d port r ph' s1 where c: "decodeAddress E (txns s t) = (d, port)" "call_fw E port t ph s = (r, ph', s1)"
    by (metis prod_cases3 surj_pair)
  show ?thesis using assms call_frame(1) [OF c(2)] c
    by (cases r; cases d) (auto simp: send_granted_def bindr_eq_Inr Let_def split: if_splits)
qed

text \<open>
  What each step does to the bus and to the scheduler. A grant is made only by \<open>processMasterAccess\<close>
  on an idle bus; only a finished transaction makes it idle again.
\<close>

definition quiet :: "bus_event list \<Rightarrow> bool" where
  "quiet es \<longleftrightarrow> (\<forall>e \<in> set es. (\<forall>t ph. e \<noteq> Queue t ph \<and> e \<noteq> Grant t ph) \<and> (\<forall>t. e \<noteq> Release t))"

lemma master_access_quiet:
  assumes "registerMasterAccess E from t ph s = Inr (r, es, s')"
  shows "quiet es \<and> m_idle s' = m_idle s \<and> queue s' = queue s"
proof -
  let ?s = "set_sender E from t (init_states E t s)"
  obtain d port r1 ph' s1 where c: "decodeAddress E (txns ?s t) = (d, port)" "call_fw E port t ph ?s = (r1, ph', s1)"
    by (metis prod_cases3 surj_pair)
  show ?thesis using assms call_frame(1) [OF c(2)] c
    by (cases d) (auto simp: registerMasterAccess_def quiet_def bindr_eq_Inr Let_def split: if_splits)
qed

lemma slave_access_quiet:
  assumes "registerSlaveAccess E t ph s = Inr (r, es, s')"
  shows "quiet es \<and> m_idle s' = m_idle s \<and> queue s' = queue s"
proof (cases "sender_of E t s")
  case (Inr snd_id)
  obtain r1 ph' s1 where c: "call_bw E snd_id t ph s = (r1, ph', s1)"
    by (metis prod_cases3)
  show ?thesis using assms call_frame(2) [OF c] c Inr
    by (auto simp: registerSlaveAccess_def quiet_def bindr_eq_Inr split: if_splits)
qed (use assms in \<open>auto simp: registerSlaveAccess_def quiet_def bindr_eq_Inr split: if_splits\<close>)

lemma fw_peq_cb_step:
  assumes "fw_peq_cb ops E now t ph s = Inr (r, es, s')"
  obtains (queued) p m where "es = [Queue t ph, Start]" "m_idle s' = m_idle s" "queue s' = enqueue ops now p t ph m (queue s)"
    | (finished) "ph = END_RESP" "es = [Release t, Start]" "m_idle s'" "queue s' = queue s"
    | (other) "es = []" "m_idle s' = m_idle s" "queue s' = queue s"
  using assms
  by (auto simp: fw_peq_cb_def bindr_eq_Inr Let_def finish_def split: if_splits dest!: fw_forward_frame)

lemma bw_peq_cb_step:
  assumes "bw_peq_cb E t ph s = Inr (r, es, s')"
  obtains (finished) "ph = END_DATA" "es = [Release t, Start]" "m_idle s'" "queue s' = queue s"
    | (other) "es = []" "m_idle s' = m_idle s" "queue s' = queue s"
  using assms
  by (auto simp: bw_peq_cb_def bindr_eq_Inr Let_def finish_def split: if_splits dest!: bw_forward_frame)

lemma process_step:
  assumes "processMasterAccess ops E now s = Inr (r, es, s')"
  obtains (busy) "es = []" "\<not> m_idle s" "s' = s"
    | (none) q where "es = []" "m_idle s" "m_idle s'" "isPending ops now (queue s) = (False, q)" "queue s' = q"
    | (granted) t ph q where "es = [Grant t ph]" "m_idle s" "\<not> m_idle s'"
        "isPending ops now (queue s) = (True, q)" "dequeue ops q = Inr ((t, ph), queue s')"
proof (cases "m_idle s")
  case True
  obtain b q where b: "isPending ops now (queue s) = (b, q)" by force
  show ?thesis
  proof (cases b)
    case True
    then obtain t ph q1 ok s1 where g: "dequeue ops q = Inr ((t, ph), q1)"
        "send_granted E t ph (s\<lparr>m_idle := False, queue := q1\<rparr>) = Inr (ok, s1)" "es = [Grant t ph]" "s' = s1"
      using assms b \<open>m_idle s\<close> by (auto simp: processMasterAccess_def bindr_eq_Inr)
    then show ?thesis using granted send_granted_frame [OF g(2)] b True \<open>m_idle s\<close> by simp
  next
    case False
    then show ?thesis using none assms b \<open>m_idle s\<close> by (auto simp: processMasterAccess_def)
  qed
next
  case False
  then show ?thesis using busy assms by (simp add: processMasterAccess_def)
qed

lemma drop_result_Inr: "drop_result r = Inr (es, s) \<longleftrightarrow> (\<exists>a. r = Inr (a, es, s))"
  by (cases r) (auto simp: drop_result_def)

text \<open>
  Every operation of a history is one of five kinds of step of the bus. Only the delivery of an
  END_RESP from the forward queue or of an END_DATA from the backward queue can finish a
  transaction: \<open>ending_txn\<close> is the transaction of such an entry.
\<close>

fun ending_txn :: "'w bus_op \<Rightarrow> ('q, 'w) bus \<Rightarrow> nat option" where
  "ending_txn (DeliverFw now i) s =
     (if i < length (m_fw_peq s) \<and> p_phase (m_fw_peq s ! i) = END_RESP then Some (p_txn (m_fw_peq s ! i)) else None)"
| "ending_txn (DeliverBw i) s =
     (if i < length (m_bw_peq s) \<and> p_phase (m_bw_peq s ! i) = END_DATA then Some (p_txn (m_bw_peq s ! i)) else None)"
| "ending_txn _ s = None"

lemma bus_step_cases:
  assumes "bus_step ops E x s = Inr (es, s')"
  obtains (still) "quiet es" "m_idle s' = m_idle s" "queue s' = queue s"
    | (queued) now p t ph m where "es = [Queue t ph, Start]" "m_idle s' = m_idle s"
        "queue s' = enqueue ops now p t ph m (queue s)"
    | (finished) t where "ending_txn x s = Some t" "es = [Release t, Start]" "m_idle s'" "queue s' = queue s"
    | (asked) now q where "es = []" "m_idle s" "m_idle s'" "isPending ops now (queue s) = (False, q)" "queue s' = q"
    | (granted) now t ph q where "es = [Grant t ph]" "m_idle s" "\<not> m_idle s'"
        "isPending ops now (queue s) = (True, q)" "dequeue ops q = Inr ((t, ph), queue s')"
proof (cases x)
  case (MasterAccess m t ph)
  then show ?thesis using assms still master_access_quiet [of E m t ph s] by (auto simp: drop_result_Inr)
next
  case (SlaveAccess t ph)
  then show ?thesis using assms still slave_access_quiet [of E t ph s] by (auto simp: drop_result_Inr)
next
  case (DeliverFw now i)
  show ?thesis
  proof (cases "i < length (m_fw_peq s)")
    case True
    then obtain r where "fw_peq_cb ops E now (p_txn (m_fw_peq s ! i)) (p_phase (m_fw_peq s ! i))
        (set_txn (p_txn (m_fw_peq s ! i)) (restore (m_fw_peq s ! i))
          (s\<lparr>m_fw_peq := take i (m_fw_peq s) @ drop (i + 1) (m_fw_peq s)\<rparr>)) = Inr (r, es, s')"
      using assms DeliverFw by (auto simp: drop_result_Inr deliver_fw_def Let_def)
    then show ?thesis by (rule fw_peq_cb_step) (simp_all add: still queued finished DeliverFw True quiet_def)
  qed (use assms DeliverFw still in \<open>simp add: drop_result_Inr deliver_fw_def quiet_def\<close>)
next
  case (DeliverBw i)
  show ?thesis
  proof (cases "i < length (m_bw_peq s)")
    case True
    then obtain r where "bw_peq_cb E (p_txn (m_bw_peq s ! i)) (p_phase (m_bw_peq s ! i))
        (set_txn (p_txn (m_bw_peq s ! i)) (restore (m_bw_peq s ! i))
          (s\<lparr>m_bw_peq := take i (m_bw_peq s) @ drop (i + 1) (m_bw_peq s)\<rparr>)) = Inr (r, es, s')"
      using assms DeliverBw by (auto simp: drop_result_Inr deliver_bw_def Let_def)
    then show ?thesis by (rule bw_peq_cb_step) (simp_all add: still finished DeliverBw True quiet_def)
  qed (use assms DeliverBw still in \<open>simp add: drop_result_Inr deliver_bw_def quiet_def\<close>)
next
  case (Process now)
  then obtain r where "processMasterAccess ops E now s = Inr (r, es, s')"
    using assms by (auto simp: drop_result_Inr)
  then show ?thesis by (rule process_step) (use still asked granted in \<open>auto simp: quiet_def\<close>)
next
  case (Outside f)
  then show ?thesis using assms still by (auto simp: quiet_def split: prod.splits)
qed

section \<open>Mutual exclusion\<close>

text \<open>
  The transactions that were granted and are not finished, and the histories in which a grant
  finds none of them. The bus does not remember which transaction it granted: \<open>m_idle\<close> is one flag,
  and the last phase of any transaction sets it. What it relies on is the protocol of the sockets:
  the last phase is sent for a transaction that the bus has granted and that is not finished.
\<close>

fun outstanding :: "nat set \<Rightarrow> bus_event list \<Rightarrow> nat set" where
  "outstanding o1 [] = o1"
| "outstanding o1 (Grant t ph # es) = outstanding (insert t o1) es"
| "outstanding o1 (Release t # es) = outstanding (o1 - {t}) es"
| "outstanding o1 (_ # es) = outstanding o1 es"

fun exclusive :: "nat set \<Rightarrow> bus_event list \<Rightarrow> bool" where
  "exclusive o1 [] = True"
| "exclusive o1 (Grant t ph # es) = (o1 = {} \<and> exclusive {t} es)"
| "exclusive o1 (Release t # es) = (t \<in> o1 \<and> exclusive (o1 - {t}) es)"
| "exclusive o1 (_ # es) = exclusive o1 es"

fun ends_own ::
  "(phase, 'q) sched_ops \<Rightarrow> 'w bus_env \<Rightarrow> 'w bus_op list \<Rightarrow> ('q, 'w) bus \<Rightarrow> nat set \<Rightarrow> bool" where
  "ends_own ops E [] s o1 = True"
| "ends_own ops E (x # xs) s o1 =
     ((case ending_txn x s of None \<Rightarrow> True | Some t \<Rightarrow> t \<in> o1) \<and>
      (case bus_step ops E x s of Inl _ \<Rightarrow> True | Inr (es, s1) \<Rightarrow> ends_own ops E xs s1 (outstanding o1 es)))"

text \<open>What the idle flag means in such a history: it is set exactly when nothing is outstanding.\<close>

definition serves :: "nat set \<Rightarrow> ('q, 'w) bus \<Rightarrow> bool" where
  "serves o1 s \<longleftrightarrow> (if m_idle s then o1 = {} else \<exists>t. o1 = {t})"

lemma outstanding_append: "outstanding o1 (es @ es') = outstanding (outstanding o1 es) es'"
  by (induction o1 es rule: outstanding.induct) auto

lemma exclusive_append: "exclusive o1 es \<Longrightarrow> exclusive (outstanding o1 es) es' \<Longrightarrow> exclusive o1 (es @ es')"
  by (induction o1 es rule: outstanding.induct) auto

lemma quiet_exclusive: "quiet es \<Longrightarrow> exclusive o1 es \<and> outstanding o1 es = o1"
  by (induction o1 es rule: outstanding.induct) (auto simp: quiet_def)

lemma bus_step_exclusive:
  assumes "bus_step ops E x s = Inr (es, s')" and "serves o1 s"
    and "\<And>t. ending_txn x s = Some t \<Longrightarrow> t \<in> o1"
  shows "exclusive o1 es \<and> serves (outstanding o1 es) s'"
  using assms(1)
proof (cases rule: bus_step_cases)
  case (finished t)
  then show ?thesis using assms(2) assms(3) [of t] by (auto simp: serves_def split: if_splits)
qed (use assms(2) quiet_exclusive in \<open>auto simp: serves_def\<close>)

lemma bus_run_exclusive:
  assumes "bus_run ops E xs s = Inr (es, s')" and "serves o1 s" and "ends_own ops E xs s o1"
  shows "exclusive o1 es \<and> serves (outstanding o1 es) s'"
  using assms
proof (induction xs arbitrary: s es o1)
  case (Cons x xs)
  then obtain es1 s1 es2 where r: "bus_step ops E x s = Inr (es1, s1)" "bus_run ops E xs s1 = Inr (es2, s')" "es = es1 @ es2"
    by (auto simp: bindr_eq_Inr)
  have "exclusive o1 es1 \<and> serves (outstanding o1 es1) s1"
    using r(1) Cons.prems(2) by (rule bus_step_exclusive) (use Cons.prems(3) in auto)
  then show ?case using Cons.IH [OF r(2)] Cons.prems(3) r(1,3)
    by (simp add: exclusive_append outstanding_append)
qed simp

text \<open>Whatever the sockets do, a busy bus grants nothing before some transaction is finished.\<close>

lemma busy_bus_grants_nothing:
  assumes "bus_run ops E xs s = Inr (es, s')" and "\<not> m_idle s" and "\<forall>u. Release u \<notin> set es"
  shows "\<not> m_idle s' \<and> (\<forall>t ph. Grant t ph \<notin> set es)"
  using assms
proof (induction xs arbitrary: s es)
  case (Cons x xs)
  then obtain es1 s1 es2 where r: "bus_step ops E x s = Inr (es1, s1)" "bus_run ops E xs s1 = Inr (es2, s')" "es = es1 @ es2"
    by (auto simp: bindr_eq_Inr)
  have "\<not> m_idle s1 \<and> (\<forall>t ph. Grant t ph \<notin> set es1)"
    using r(1) by (cases rule: bus_step_cases) (use Cons.prems(2,3) r(3) in \<open>auto simp: quiet_def\<close>)
  then show ?case using Cons.IH [OF r(2)] Cons.prems(3) r(3) by auto
qed simp

text \<open>
  C4. The bus is exclusive, with any scheduler: take a history that starts on an idle bus with no
  transaction granted, in which the last phases that are delivered (END_RESP to the forward
  callback, END_DATA to the backward one) belong to a transaction that was granted and is not
  finished. Then every grant finds no granted transaction that is not finished, only a granted
  transaction is finished, and at the end the bus is idle exactly when none is outstanding and
  otherwise exactly one is. The condition on the last phases is needed:
  \<open>foreign_end_frees_bus\<close> is a history without it.
\<close>

theorem bus_grants_exclusively:
  assumes "bus_run ops E xs s = Inr (es, s')" and "m_idle s" and "ends_own ops E xs s {}"
  shows "exclusive {} es \<and> (if m_idle s' then outstanding {} es = {} else \<exists>t. outstanding {} es = {t})"
proof -
  have "serves {} s" using assms(2) by (simp add: serves_def)
  from bus_run_exclusive [OF assms(1) this assms(3)] show ?thesis unfolding serves_def by blast
qed

section \<open>No request is lost\<close>

fun queued_requests :: "bus_event list \<Rightarrow> (nat \<times> phase) multiset" where
  "queued_requests [] = {#}"
| "queued_requests (Queue t ph # es) = add_mset (t, ph) (queued_requests es)"
| "queued_requests (_ # es) = queued_requests es"

fun granted_requests :: "bus_event list \<Rightarrow> (nat \<times> phase) multiset" where
  "granted_requests [] = {#}"
| "granted_requests (Grant t ph # es) = add_mset (t, ph) (granted_requests es)"
| "granted_requests (_ # es) = granted_requests es"

lemma no_grant_requests: "\<forall>t ph. Grant t ph \<notin> set es \<Longrightarrow> granted_requests es = {#}"
  by (induction es rule: queued_requests.induct) auto

lemma requests_append:
  "queued_requests (es @ es') = queued_requests es + queued_requests es'"
  "granted_requests (es @ es') = granted_requests es + granted_requests es'"
  by (induction es rule: queued_requests.induct) auto

lemma quiet_requests: "quiet es \<Longrightarrow> queued_requests es = {#} \<and> granted_requests es = {#}"
  by (induction es rule: queued_requests.induct) (auto simp: quiet_def)

text \<open>The scheduler as the bus uses it: the phases it stores are those of the protocol.\<close>

locale bus_scheduler = scheduler ops held ok
  for ops :: "(phase, 'q) sched_ops" and held and ok
begin

lemma step_conserves:
  assumes "bus_step ops E x s = Inr (es, s')" and "ok (queue s)"
  shows "ok (queue s') \<and> held (queue s) + queued_requests es = granted_requests es + held (queue s')"
  using assms(1)
proof (cases rule: bus_step_cases)
  case still
  then show ?thesis using assms(2) quiet_requests by simp
next
  case (queued now p t ph m)
  then show ?thesis using assms(2) enqueue_ok enqueue_held by simp
next
  case (asked now q)
  then show ?thesis using assms(2) pending_held_eq pending_ok_eq by simp
next
  case (granted now t ph q)
  then show ?thesis using dequeue_pending [OF assms(2)] by simp
qed (use assms(2) in simp)

lemma run_conserves:
  assumes "bus_run ops E xs s = Inr (es, s')" and "ok (queue s)"
  shows "ok (queue s') \<and> held (queue s) + queued_requests es = granted_requests es + held (queue s')"
  using assms
proof (induction xs arbitrary: s es)
  case (Cons x xs)
  then obtain es1 s1 es2 where "bus_step ops E x s = Inr (es1, s1)" "bus_run ops E xs s1 = Inr (es2, s')" "es = es1 @ es2"
    by (auto simp: bindr_eq_Inr)
  moreover from this(1) Cons.prems(2) have "ok (queue s1) \<and> held (queue s) + queued_requests es1 = granted_requests es1 + held (queue s1)"
    by (rule step_conserves)
  ultimately show ?case using Cons.IH [of s1 es2]
    by (simp add: requests_append) (metis (no_types, lifting) add.assoc add.commute)
qed simp

end

interpretation fixed_bus: bus_scheduler fixed_ops "\<lambda>q. image_mset fst (mset q)" "\<lambda>q. True"
  by unfold_locales

interpretation dynamic_bus: bus_scheduler dyn_ops "\<lambda>s. image_mset m_tp (mset (m_queue s))" dyn_ok
  by unfold_locales

text \<open>
  C20. Requests are conserved, with either scheduler: in every history the requests that were queued
  are exactly those that were granted and those that the scheduler still holds, each as often as
  it was queued.
\<close>

theorem bus_conserves_requests:
  assumes "bus_run dyn_ops E xs s = Inr (es, s')" and "queue s = new_dyn_sched clk"
    and "bus_run fixed_ops F ys u = Inr (fs, u')" and "queue u = []"
  shows "queued_requests es = granted_requests es + image_mset m_tp (mset (m_queue (queue s'))) \<and>
    queued_requests fs = granted_requests fs + image_mset fst (mset (queue u'))"
  using dynamic_bus.run_conserves [OF assms(1)] fixed_bus.run_conserves [OF assms(3)] assms(2,4)
  by (simp add: dyn_ok_new) (simp add: new_dyn_sched_def)

text \<open>
  A granted transaction whose address decodes to no port leaves the bus taken: nothing was sent
  and nothing will come back, so from then on, as long as no transaction is released by an entry
  of one of the queues, no request is granted, whatever is queued.
\<close>

theorem bus_stuck_after_failed_decode:
  assumes "m_idle s" and "isPending ops now (queue s) = (True, q)" and "dequeue ops q = Inr ((t, ph), q')"
    and "\<not> fst (decodeAddress E (txns s t))"
  shows "\<exists>s1. processMasterAccess ops E now s = Inr (False, [Grant t ph], s1) \<and>
    m_fw_peq s1 = m_fw_peq s \<and> m_bw_peq s1 = m_bw_peq s \<and> world s1 = world s \<and>
    (\<forall>xs es s2. bus_run ops E xs s1 = Inr (es, s2) \<and> (\<forall>u. Release u \<notin> set es) \<longrightarrow> granted_requests es = {#})"
proof (intro exI conjI allI impI)
  let ?s1 = "s\<lparr>m_idle := False, queue := q'\<rparr>"
  show "processMasterAccess ops E now s = Inr (False, [Grant t ph], ?s1)"
    using assms by (auto simp: processMasterAccess_def send_granted_def split: prod.splits bool.splits)
  fix xs es s2 assume "bus_run ops E xs ?s1 = Inr (es, s2) \<and> (\<forall>u. Release u \<notin> set es)"
  then show "granted_requests es = {#}"
    using busy_bus_grants_nothing [of ops E xs ?s1 es s2] no_grant_requests [of es] by simp
qed simp_all

section \<open>A concrete history\<close>

text \<open>A read by one master that the slave answers with all phases of the base protocol.\<close>

definition example_payload :: payload where
  "example_payload = \<lparr>address = 0x10, command = READ_COMMAND, response_status = OK_RESPONSE, data_length = 4,
     bytes_valid = 4, priority = None, txn_states = [], has_txn_states = False, sender_ids = []\<rparr>"

definition example_env :: "unit bus_env" where
  "example_env = \<lparr>router_id = 0, num_routers = 1, has_write_resp = True, has_bytes_valid = False,
     decodeAddress = (\<lambda>p. (address p < 0x100, 0)),
     nb_fw = (\<lambda>port t ph (ts, w). (TLM_ACCEPTED, ph, ts, w)), nb_bw = (\<lambda>port t ph (ts, w). (TLM_ACCEPTED, ph, ts, w))\<rparr>"

definition example_bus :: "'q \<Rightarrow> ('q, unit) bus" where
  "example_bus q = \<lparr>txns = (\<lambda>_. example_payload), m_idle = True, queue = q, m_fw_peq = [], m_bw_peq = [], world = ()\<rparr>"

definition example_ops :: "unit bus_op list" where
  "example_ops = [MasterAccess 0 1 BEGIN_REQ, MasterAccess 3 2 BEGIN_REQ, DeliverFw 0 1, DeliverFw 0 0, Process 10, Process 20,
     SlaveAccess 1 BEGIN_RESP, DeliverBw 0, MasterAccess 0 1 END_RESP, DeliverFw 20 0, Process 30]"

definition example_events :: "bus_event list" where
  "example_events = [Acquire 1, Acquire 2, Queue 2 BEGIN_REQ, Start, Queue 1 BEGIN_REQ, Start, Grant 1 BEGIN_REQ,
     Release 1, Start, Grant 2 BEGIN_REQ]"

lemma example_run_fixed:
  "\<exists>s'. bus_run fixed_ops example_env example_ops (example_bus []) = Inr (example_events, s') \<and> \<not> m_idle s'"
proof -
  have "(case bus_run fixed_ops example_env example_ops (example_bus []) of
      Inl _ \<Rightarrow> False | Inr (es, s') \<Rightarrow> es = example_events \<and> \<not> m_idle s')"
    by code_simp
  then show ?thesis by (auto split: sum.splits)
qed

lemma example_run_dynamic:
  "\<exists>s'. bus_run dyn_ops example_env example_ops (example_bus (new_dyn_sched 5)) = Inr (example_events, s') \<and> \<not> m_idle s'"
proof -
  have "(case bus_run dyn_ops example_env example_ops (example_bus (new_dyn_sched 5)) of
      Inl _ \<Rightarrow> False | Inr (es, s') \<Rightarrow> es = example_events \<and> \<not> m_idle s')"
    by code_simp
  then show ?thesis by (auto split: sum.splits)
qed

lemma bus_grants_exclusively_witness:
  "exclusive {} example_events \<and> outstanding {} example_events = {2} \<and>
    (\<exists>s'. bus_run fixed_ops example_env example_ops (example_bus []) = Inr (example_events, s') \<and>
      (if m_idle s' then outstanding {} example_events = {} else \<exists>t. outstanding {} example_events = {t}))"
proof -
  obtain s' where r: "bus_run fixed_ops example_env example_ops (example_bus []) = Inr (example_events, s')"
    using example_run_fixed by blast
  have i: "m_idle (example_bus [] :: (phase request list, unit) bus)" by (simp add: example_bus_def)
  have "ends_own fixed_ops example_env example_ops (example_bus []) {}" by code_simp
  from bus_grants_exclusively [OF r i this] r show ?thesis by (simp add: example_events_def)
qed

text \<open>
  The condition is needed. Two masters request the bus and the first is granted; then the master
  of the second sends END_RESP for its own transaction, which is still in the scheduler. The
  forward callback takes it for the end of the transfer on the bus: the bus is idle again and
  grants the second transaction while the first is not finished.
\<close>

definition foreign_end_ops :: "unit bus_op list" where
  "foreign_end_ops = [MasterAccess 0 1 BEGIN_REQ, MasterAccess 3 2 BEGIN_REQ, DeliverFw 0 0, DeliverFw 0 0, Process 10,
     MasterAccess 3 2 END_RESP, DeliverFw 20 0, Process 30]"

lemma foreign_end_frees_bus:
  "case bus_run fixed_ops example_env foreign_end_ops (example_bus []) of
     Inl _ \<Rightarrow> False
   | Inr (es, s') \<Rightarrow> filter (\<lambda>e. case e of Grant _ _ \<Rightarrow> True | Release _ \<Rightarrow> True | _ \<Rightarrow> False) es =
       [Grant 1 BEGIN_REQ, Release 2, Grant 2 BEGIN_REQ] \<and> outstanding {} es = {1, 2} \<and> \<not> exclusive {} es"
  by code_simp

lemma bus_conserves_requests_witness:
  "\<exists>s' u'. bus_run dyn_ops example_env example_ops (example_bus (new_dyn_sched 5)) = Inr (example_events, s') \<and>
    bus_run fixed_ops example_env example_ops (example_bus []) = Inr (example_events, u') \<and>
    queued_requests example_events = granted_requests example_events + image_mset m_tp (mset (m_queue (queue s'))) \<and>
    queued_requests example_events = granted_requests example_events + image_mset fst (mset (queue u'))"
proof -
  obtain s' where s': "bus_run dyn_ops example_env example_ops (example_bus (new_dyn_sched 5)) = Inr (example_events, s')"
    using example_run_dynamic by blast
  obtain u' where u': "bus_run fixed_ops example_env example_ops (example_bus []) = Inr (example_events, u')"
    using example_run_fixed by blast
  have q: "queue (example_bus x) = x" for x :: 'x by (simp add: example_bus_def)
  show ?thesis using bus_conserves_requests [OF s' q u' q] s' u' by blast
qed

lemma bus_stuck_after_failed_decode_witness:
  "\<exists>s1. processMasterAccess fixed_ops (example_env\<lparr>decodeAddress := (\<lambda>_. (False, 0))\<rparr>) 5
      (example_bus [((1, BEGIN_REQ), 0)]) = Inr (False, [Grant 1 BEGIN_REQ], s1) \<and> \<not> m_idle s1"
proof -
  let ?E = "example_env\<lparr>decodeAddress := (\<lambda>_. (False, 0))\<rparr>" and ?s = "example_bus [((1, BEGIN_REQ), 0 :: u32)]"
  have h: "m_idle ?s" "isPending fixed_ops 5 (queue ?s) = (True, queue ?s)"
    "dequeue fixed_ops (queue ?s) = Inr ((1, BEGIN_REQ), [])" "\<not> fst (decodeAddress ?E (txns ?s 1))"
    by (simp_all add: example_bus_def fixed_ops_def fixed_isPending_def fixed_dequeue_def)
  obtain s1 where "processMasterAccess fixed_ops ?E 5 ?s = Inr (False, [Grant 1 BEGIN_REQ], s1)"
    using bus_stuck_after_failed_decode [OF h] by blast
  moreover from this have "\<not> m_idle s1"
    by (auto simp: processMasterAccess_def bindr_eq_Inr example_bus_def fixed_ops_def fixed_isPending_def fixed_dequeue_def
        dest!: send_granted_frame)
  ultimately show ?thesis by blast
qed

end
