(* ===== verification/Socket_Config.thy ===== *)
theory Socket_Config
  imports GL_Prelude
begin

text \<open>
  The configurations of GreenSockets (\<^verbatim>\<open>greensocket/generic/green_socket_config.h\<close> and
  \<^verbatim>\<open>.tpp\<close>): which extensions and phases a socket needs, tolerates or rejects, and how two
  configurations are merged when sockets are bound. Extensions are numbered; the number of extensions of
  the simulation (\<^verbatim>\<open>tlm::max_num_extensions()\<close>) and the text of a phase are arguments. A fatal
  message ends the program (\<open>ScFatal\<close>).
\<close>

section \<open>Configurations\<close>

datatype bindability = gs_optional | gs_mandatory | gs_reject | gs_unknown

record config =
  m_used_extensions :: "bindability list"
  m_used_phases :: "(string, bindability) omap"
  m_type_string :: "string option"
  m_treat_unknown_as_rejected :: bool
  cfg_invalid :: bool
  force_reeval :: bool

text \<open>
  The constructor leaves \<^verbatim>\<open>m_treat_unknown_as_rejected\<close> and the type string unset: what they
  hold is an argument.
\<close>

definition new_config :: "bool \<Rightarrow> string option \<Rightarrow> config" where
  "new_config junk junk_type = \<lparr>m_used_extensions = [], m_used_phases = [], m_type_string = junk_type,
     m_treat_unknown_as_rejected = junk, cfg_invalid = True, force_reeval = False\<rparr>"

definition set_force_reeval :: "bool \<Rightarrow> config \<Rightarrow> config" where
  "set_force_reeval v c = c\<lparr>force_reeval := (force_reeval c \<or> v)\<rparr>"

definition treat_unknown_as_optional :: "config \<Rightarrow> config" where
  "treat_unknown_as_optional c = c\<lparr>m_treat_unknown_as_rejected := False\<rparr>"

definition treat_unknown_as_rejected :: "config \<Rightarrow> config" where
  "treat_unknown_as_rejected c = c\<lparr>m_treat_unknown_as_rejected := True\<rparr>"

definition unknowns_are_optional :: "config \<Rightarrow> bool" where
  "unknowns_are_optional c = (\<not> m_treat_unknown_as_rejected c)"

definition vec_resize :: "nat \<Rightarrow> 'a \<Rightarrow> 'a list \<Rightarrow> 'a list" where
  "vec_resize n d xs = take n xs @ replicate (n - length xs) d"

definition has_extension :: "nat \<Rightarrow> config \<Rightarrow> bindability" where
  "has_extension index c =
     (if length (m_used_extensions c) \<le> index
      then (if m_treat_unknown_as_rejected c then gs_reject else gs_optional)
      else if m_used_extensions c ! index \<noteq> gs_unknown then m_used_extensions c ! index
      else if m_treat_unknown_as_rejected c then gs_reject else gs_optional)"

definition has_phase :: "string \<Rightarrow> config \<Rightarrow> bindability" where
  "has_phase ph c =
     (case map_find (m_used_phases c) ph of
        Some b \<Rightarrow> b
      | None \<Rightarrow> if m_treat_unknown_as_rejected c then gs_reject else gs_optional)"

definition set_extension_use :: "nat \<Rightarrow> bindability \<Rightarrow> nat \<Rightarrow> config \<Rightarrow> config res" where
  "set_extension_use N b i c =
     (let es = vec_resize N gs_unknown (m_used_extensions c)
      in if i < length es then Inr (c\<lparr>m_used_extensions := es[i := b]\<rparr>)
         else Inl (Undefined ''extension index''))"

definition remove_extension :: "nat \<Rightarrow> nat \<Rightarrow> config \<Rightarrow> config res" where
  "remove_extension N i c = set_extension_use N gs_unknown i c"

definition use_mandatory_extension :: "nat \<Rightarrow> nat \<Rightarrow> config \<Rightarrow> config res" where
  "use_mandatory_extension N i c = set_extension_use N gs_mandatory i c"

definition use_optional_extension :: "nat \<Rightarrow> nat \<Rightarrow> config \<Rightarrow> config res" where
  "use_optional_extension N i c = set_extension_use N gs_optional i c"

definition reject_extension :: "nat \<Rightarrow> nat \<Rightarrow> config \<Rightarrow> config res" where
  "reject_extension N i c = set_extension_use N gs_reject i c"

fun add_to_phase_map :: "string list \<Rightarrow> bindability \<Rightarrow> config \<Rightarrow> config" where
  "add_to_phase_map [] b c = c"
| "add_to_phase_map (ph # phs) b c = add_to_phase_map phs b (c\<lparr>m_used_phases := map_put ph b (m_used_phases c)\<rparr>)"

definition use_mandatory_phase :: "string \<Rightarrow> config \<Rightarrow> config" where
  "use_mandatory_phase ph c = add_to_phase_map [ph] gs_mandatory c"

definition use_optional_phase :: "string \<Rightarrow> config \<Rightarrow> config" where
  "use_optional_phase ph c = add_to_phase_map [ph] gs_optional c"

definition reject_phase :: "string \<Rightarrow> config \<Rightarrow> config" where
  "reject_phase ph c = add_to_phase_map [ph] gs_reject c"

definition remove_phase :: "string \<Rightarrow> config \<Rightarrow> config" where
  "remove_phase ph c = c\<lparr>m_used_phases := map_erase ph (m_used_phases c)\<rparr>"

text \<open>The comparison of two configurations; \<open>True\<close> when they differ.\<close>

fun phases_differ :: "(string, bindability) omap \<Rightarrow> (string, bindability) omap \<Rightarrow> bool" where
  "phases_differ [] other = False"
| "phases_differ ((ph, b) # m) other =
     (case map_find other ph of
        None \<Rightarrow> True
      | Some b' \<Rightarrow> if b' \<noteq> b then True else phases_differ m other)"

definition config_diff :: "config \<Rightarrow> config \<Rightarrow> bool" where
  "config_diff c d =
     (if m_treat_unknown_as_rejected c \<noteq> m_treat_unknown_as_rejected d then True
      else if length (m_used_phases c) \<noteq> length (m_used_phases d) then True
      else if length (m_used_extensions c) \<noteq> length (m_used_extensions d) then True
      else if \<exists>i < length (m_used_extensions c). m_used_extensions d ! i \<noteq> m_used_extensions c ! i then True
      else if phases_differ (m_used_phases c) (m_used_phases d) then True
      else phases_differ (m_used_phases d) (m_used_phases c))"

section \<open>Merging\<close>

text \<open>
  The effect on one extension, given how the two sides treat unknown ones: whether the merge must
  be aborted, and the new state. The other side's rejection of a mandatory extension is found here;
  a rejection on this side is left to the other side.
\<close>

fun merge_extension :: "bool \<Rightarrow> bool \<Rightarrow> bindability \<Rightarrow> bindability \<Rightarrow> bool \<times> bindability" where
  "merge_extension mine other gs_mandatory ext2 =
     (if ext2 = gs_unknown then other else ext2 = gs_reject, gs_mandatory)"
| "merge_extension mine other gs_optional ext2 =
     (False, case ext2 of gs_unknown \<Rightarrow> (if other then gs_reject else gs_optional)
                        | gs_reject \<Rightarrow> gs_reject | gs_mandatory \<Rightarrow> gs_mandatory | gs_optional \<Rightarrow> gs_optional)"
| "merge_extension mine other gs_reject ext2 = (False, gs_reject)"
| "merge_extension mine other gs_unknown ext2 =
     (if ext2 \<noteq> gs_unknown
      then (if mine then (ext2 = gs_mandatory, gs_unknown) else (False, ext2))
      else (False, gs_unknown))"

definition merge_extensions :: "bool \<Rightarrow> bool \<Rightarrow> bindability list \<Rightarrow> bindability list \<Rightarrow> bool \<times> bindability list" where
  "merge_extensions mine other es1 es2 =
     (let rs = map2 (merge_extension mine other) es1 es2 in (\<exists>r \<in> set rs. fst r, map snd rs))"

text \<open>One of the phases that this side knows; an unknown state in the map is fatal.\<close>

fun merge_known_phase :: "bool \<Rightarrow> bindability \<Rightarrow> bindability option \<Rightarrow> (bool \<times> bindability) res" where
  "merge_known_phase other gs_optional (Some gs_mandatory) = Inr (False, gs_mandatory)"
| "merge_known_phase other gs_optional (Some gs_reject) = Inr (False, gs_reject)"
| "merge_known_phase other gs_optional (Some gs_optional) = Inr (False, gs_optional)"
| "merge_known_phase other gs_optional (Some gs_unknown) = Inl (ScFatal ''This should NEVER happen!'')"
| "merge_known_phase other gs_optional None = Inr (False, if other then gs_reject else gs_optional)"
| "merge_known_phase other gs_mandatory None = Inr (other, gs_mandatory)"
| "merge_known_phase other gs_mandatory (Some b) = Inr (b = gs_reject, gs_mandatory)"
| "merge_known_phase other gs_reject b = Inr (False, gs_reject)"
| "merge_known_phase other gs_unknown b = Inl (ScFatal ''This should NEVER happen!'')"

fun merge_known_phases ::
  "bool \<Rightarrow> (string, bindability) omap \<Rightarrow> (string, bindability) omap \<Rightarrow> (bool \<times> (string, bindability) omap) res" where
  "merge_known_phases other phs2 [] = Inr (False, [])"
| "merge_known_phases other phs2 ((ph, b) # m) =
     bindr (merge_known_phase other b (map_find phs2 ph)) (\<lambda>(ab, b').
     bindr (merge_known_phases other phs2 m) (\<lambda>(ab', m'). Inr (ab \<or> ab', (ph, b') # m')))"

text \<open>The phases of the other side that this side does not know.\<close>

fun adopt_phases ::
  "bool \<Rightarrow> (string, bindability) omap \<Rightarrow> (string, bindability) omap \<Rightarrow> bool \<times> (string, bindability) omap" where
  "adopt_phases mine [] phs1 = (False, phs1)"
| "adopt_phases mine ((ph, b) # m) phs1 =
     (case map_find phs1 ph of
        Some _ \<Rightarrow> adopt_phases mine m phs1
      | None \<Rightarrow>
          if mine then (case adopt_phases mine m phs1 of (ab, phs) \<Rightarrow> (b = gs_mandatory \<or> ab, phs))
          else adopt_phases mine m (map_put ph b phs1))"

definition config_merge :: "nat \<Rightarrow> bool \<Rightarrow> config \<Rightarrow> config \<Rightarrow> (bool \<times> config \<times> config) res" where
  "config_merge N abort_at_mismatch c other =
     (let es1 = vec_resize N gs_unknown (m_used_extensions c);
          es2 = vec_resize N gs_unknown (m_used_extensions other);
          other' = other\<lparr>m_used_extensions := es2\<rparr>;
          mine = m_treat_unknown_as_rejected c;
          theirs = m_treat_unknown_as_rejected other;
          (ab1, es) = merge_extensions mine theirs es1 es2
      in bindr (merge_known_phases theirs (m_used_phases other) (m_used_phases c)) (\<lambda>(ab2, phs1).
         let (ab3, phs) = adopt_phases mine (m_used_phases other) phs1;
             do_abort = (ab1 \<or> ab2 \<or> ab3)
         in if abort_at_mismatch \<and> do_abort then Inl (ScFatal ''binding check failed'')
            else Inr (do_abort,
                      c\<lparr>m_used_extensions := es, m_used_phases := phs,
                         m_treat_unknown_as_rejected := (mine \<or> theirs)\<rparr>, other')))"

section \<open>What a configuration means\<close>

text \<open>
  The abstract view: every extension and every phase is mandatory, optional or rejected. A merge
  keeps what this side requires or rejects and takes the other side's view of what is optional here.
\<close>

definition phases_known :: "config \<Rightarrow> bool" where
  "phases_known c \<longleftrightarrow> (\<forall>b \<in> snd ` set (m_used_phases c). b \<noteq> gs_unknown)"

definition config_ok :: "nat \<Rightarrow> config \<Rightarrow> bool" where
  "config_ok N c \<longleftrightarrow> omap_ok (m_used_phases c) \<and> phases_known c \<and> length (m_used_extensions c) \<le> N"

fun join_use :: "bindability \<Rightarrow> bindability \<Rightarrow> bindability" where
  "join_use gs_mandatory b = gs_mandatory"
| "join_use gs_reject b = gs_reject"
| "join_use gs_optional b = b"
| "join_use gs_unknown b = b"

lemma vec_resize_length [simp]: "length (vec_resize n d xs) = n"
  by (simp add: vec_resize_def)

lemma vec_resize_nth: "i < n \<Longrightarrow> vec_resize n d xs ! i = (if i < length xs then xs ! i else d)"
  by (simp add: vec_resize_def nth_append)

lemma has_extension_resized:
  "length (m_used_extensions c) \<le> N \<Longrightarrow> i < N \<Longrightarrow>
    has_extension i c = (case vec_resize N gs_unknown (m_used_extensions c) ! i of
      gs_unknown \<Rightarrow> if m_treat_unknown_as_rejected c then gs_reject else gs_optional | b \<Rightarrow> b)"
  by (auto simp: has_extension_def vec_resize_nth split: bindability.splits)

lemma has_extension_known: "has_extension i c \<noteq> gs_unknown"
  by (simp add: has_extension_def)

text \<open>The use of an extension or phase from its entry and the treatment of unknown ones.\<close>

fun use_of :: "bool \<Rightarrow> bindability \<Rightarrow> bindability" where
  "use_of rejects gs_unknown = (if rejects then gs_reject else gs_optional)"
| "use_of rejects b = b"

lemma use_of_simp: "use_of r b = (if b = gs_unknown then if r then gs_reject else gs_optional else b)"
  by (cases b) auto

lemma has_extension_use:
  "length (m_used_extensions c) \<le> N \<Longrightarrow> has_extension i c =
    use_of (m_treat_unknown_as_rejected c)
      (if i < N then vec_resize N gs_unknown (m_used_extensions c) ! i else gs_unknown)"
  by (auto simp: has_extension_def vec_resize_nth use_of_simp)

lemma has_phase_use:
  "phases_known c \<Longrightarrow> has_phase ph c =
    use_of (m_treat_unknown_as_rejected c) (case map_find (m_used_phases c) ph of Some b \<Rightarrow> b | None \<Rightarrow> gs_unknown)"
  by (force simp: has_phase_def use_of_simp phases_known_def split: option.splits dest: map_of_SomeD)

lemma merge_extension_use:
  "use_of (mine \<or> theirs) (snd (merge_extension mine theirs b1 b2)) = join_use (use_of mine b1) (use_of theirs b2)"
  by (cases b1; cases b2) auto

definition clash :: "bool \<Rightarrow> bool \<Rightarrow> bindability \<Rightarrow> bindability \<Rightarrow> bool" where
  "clash mine theirs b1 b2 \<longleftrightarrow> (b1 = gs_mandatory \<and> use_of theirs b2 = gs_reject) \<or>
     (b1 = gs_unknown \<and> mine \<and> b2 = gs_mandatory)"

lemma merge_extension_clash: "fst (merge_extension mine theirs b1 b2) = clash mine theirs b1 b2"
  by (cases b1; cases b2) (auto simp: clash_def)

section \<open>Merging phases\<close>

lemma merge_known_phase_eq:
  assumes "b \<noteq> gs_unknown" and "b2 \<noteq> Some gs_unknown"
  shows "merge_known_phase theirs b b2 = Inr (merge_extension mine theirs b (case b2 of None \<Rightarrow> gs_unknown | Some b' \<Rightarrow> b'))"
proof -
  consider "b2 = None" | "b2 = Some gs_optional" | "b2 = Some gs_mandatory" | "b2 = Some gs_reject"
    using assms(2) by (metis bindability.exhaust option.exhaust)
  then show ?thesis using assms(1) by cases (cases b; simp)+
qed

lemma merge_known_phases_eq:
  assumes "\<forall>b \<in> snd ` set phs1. b \<noteq> gs_unknown" and "\<forall>b \<in> snd ` set phs2. b \<noteq> gs_unknown"
  shows "\<exists>ab phs. merge_known_phases theirs phs2 phs1 = Inr (ab, phs) \<and> map fst phs = map fst phs1 \<and>
    (ab \<longleftrightarrow> (\<exists>(ph, b) \<in> set phs1. clash mine theirs b (case map_find phs2 ph of None \<Rightarrow> gs_unknown | Some b' \<Rightarrow> b'))) \<and>
    (\<forall>ph. map_find phs ph = map_option (\<lambda>b. snd (merge_extension mine theirs b
       (case map_find phs2 ph of None \<Rightarrow> gs_unknown | Some b' \<Rightarrow> b'))) (map_find phs1 ph))"
  using assms(1)
proof (induction phs1)
  case (Cons e m)
  obtain ph b where e: "e = (ph, b)" by force
  have "b \<noteq> gs_unknown" using Cons.prems e by simp
  moreover have "map_find phs2 ph \<noteq> Some gs_unknown" using assms(2) by (force dest: map_of_SomeD)
  ultimately have "merge_known_phase theirs b (map_find phs2 ph) = Inr (merge_extension mine theirs b
      (case map_find phs2 ph of None \<Rightarrow> gs_unknown | Some b' \<Rightarrow> b'))" by (rule merge_known_phase_eq)
  moreover obtain ab phs where "merge_known_phases theirs phs2 m = Inr (ab, phs)" "map fst phs = map fst m"
    "ab \<longleftrightarrow> (\<exists>(ph, b) \<in> set m. clash mine theirs b (case map_find phs2 ph of None \<Rightarrow> gs_unknown | Some b' \<Rightarrow> b'))"
    "\<forall>ph. map_find phs ph = map_option (\<lambda>b. snd (merge_extension mine theirs b
       (case map_find phs2 ph of None \<Rightarrow> gs_unknown | Some b' \<Rightarrow> b'))) (map_find m ph)"
    using Cons by auto
  ultimately show ?case
    by (simp add: e merge_extension_clash split: prod.split) (metis fst_conv merge_extension_clash snd_conv)
next
  case Nil
  show ?case by (intro exI [of _ False] exI [of _ "[]"]) simp
qed

lemma adopt_phases_eq:
  assumes "omap_ok phs1" and "omap_ok phs2"
  shows "omap_ok (snd (adopt_phases mine phs2 phs1)) \<and>
    (fst (adopt_phases mine phs2 phs1) \<longleftrightarrow>
       mine \<and> (\<exists>(ph, b) \<in> set phs2. map_find phs1 ph = None \<and> b = gs_mandatory)) \<and>
    (\<forall>ph. map_find (snd (adopt_phases mine phs2 phs1)) ph =
       (case map_find phs1 ph of Some b \<Rightarrow> Some b | None \<Rightarrow> if mine then None else map_find phs2 ph))"
  using assms
proof (induction phs2 arbitrary: phs1)
  case (Cons e m)
  obtain ph b where e: "e = (ph, b)" by force
  have m: "omap_ok m" "map_find m ph = None" using Cons.prems(2) e
    by (auto simp: omap_ok_Cons map_of_eq_None_iff)
  show ?case
  proof (cases "map_find phs1 ph")
    case None
    show ?thesis
    proof (cases mine)
      case True
      obtain ab phs where ad: "adopt_phases mine m phs1 = (ab, phs)" by force
      have ih: "omap_ok phs" "ab \<longleftrightarrow> mine \<and> (\<exists>(ph, b) \<in> set m. map_find phs1 ph = None \<and> b = gs_mandatory)"
        "\<forall>ph. map_find phs ph = (case map_find phs1 ph of Some b \<Rightarrow> Some b | None \<Rightarrow> if mine then None else map_find m ph)"
        using Cons.IH [OF Cons.prems(1) m(1)] by (simp_all add: ad)
      have "adopt_phases mine (e # m) phs1 = (b = gs_mandatory \<or> ab, phs)" using True None e ad by simp
      then show ?thesis using ih True None e by auto
    next
      case False
      have "omap_ok (map_put ph b phs1)" using Cons.prems(1) by blast
      from Cons.IH [OF this m(1)] show ?thesis using None False e m(2)
        by (auto simp: map_simps split: option.splits)
    qed
  next
    case (Some b1)
    then show ?thesis using Cons.IH [OF Cons.prems(1) m(1)] e by (auto split: option.splits)
  qed
qed (auto split: option.splits)

section \<open>The merge of two configurations\<close>

definition ext_entry :: "nat \<Rightarrow> config \<Rightarrow> nat \<Rightarrow> bindability" where
  "ext_entry N c i = vec_resize N gs_unknown (m_used_extensions c) ! i"

definition phase_entry :: "config \<Rightarrow> string \<Rightarrow> bindability" where
  "phase_entry c ph = (case map_find (m_used_phases c) ph of None \<Rightarrow> gs_unknown | Some b \<Rightarrow> b)"

text \<open>What the tests of the merge amount to, entry by entry; \<open>merge_conflict_meaning\<close> says what they mean.\<close>

definition merge_conflict :: "nat \<Rightarrow> config \<Rightarrow> config \<Rightarrow> bool" where
  "merge_conflict N c d \<longleftrightarrow>
     (\<exists>i < N. clash (m_treat_unknown_as_rejected c) (m_treat_unknown_as_rejected d) (ext_entry N c i) (ext_entry N d i)) \<or>
     (\<exists>ph. clash (m_treat_unknown_as_rejected c) (m_treat_unknown_as_rejected d) (phase_entry c ph) (phase_entry d ph))"

lemma merge_extensions_eq:
  assumes "length es1 = N" and "length es2 = N"
  shows "length (snd (merge_extensions mine theirs es1 es2)) = N"
    and "fst (merge_extensions mine theirs es1 es2) \<longleftrightarrow> (\<exists>i < N. clash mine theirs (es1 ! i) (es2 ! i))"
    and "i < N \<Longrightarrow> snd (merge_extensions mine theirs es1 es2) ! i = snd (merge_extension mine theirs (es1 ! i) (es2 ! i))"
proof -
  define rs where "rs = map2 (merge_extension mine theirs) es1 es2"
  have rs: "length rs = N" "\<And>i. i < N \<Longrightarrow> rs ! i = merge_extension mine theirs (es1 ! i) (es2 ! i)"
    using assms by (simp_all add: rs_def)
  have "(\<exists>r \<in> set rs. fst r) \<longleftrightarrow> (\<exists>i < N. fst (rs ! i))"
    using rs(1) by (metis in_set_conv_nth)
  then show "fst (merge_extensions mine theirs es1 es2) \<longleftrightarrow> (\<exists>i < N. clash mine theirs (es1 ! i) (es2 ! i))"
    unfolding merge_extensions_def Let_def fst_conv rs_def [symmetric] merge_extension_clash [symmetric]
    using rs(2) by auto
qed (use assms in \<open>simp_all add: merge_extensions_def Let_def\<close>)

lemma ext_use:
  "length (m_used_extensions c) \<le> N \<Longrightarrow>
    has_extension i c = use_of (m_treat_unknown_as_rejected c) (if i < N then ext_entry N c i else gs_unknown)"
  by (simp add: has_extension_use ext_entry_def)

lemma phase_use: "phases_known c \<Longrightarrow> has_phase ph c = use_of (m_treat_unknown_as_rejected c) (phase_entry c ph)"
  unfolding phase_entry_def by (simp add: has_phase_use cong: option.case_cong)

lemma phase_entry_known: "phases_known c \<Longrightarrow> map_find (m_used_phases c) ph = Some b \<Longrightarrow> b \<noteq> gs_unknown"
  by (force simp: phases_known_def dest: map_of_SomeD)

lemma merged_phases:
  assumes c: "omap_ok (m_used_phases c)" "phases_known c" and d: "omap_ok (m_used_phases d)" "phases_known d"
    and mine: "mine = m_treat_unknown_as_rejected c" and theirs: "theirs = m_treat_unknown_as_rejected d"
  shows "\<exists>ab phs1. merge_known_phases theirs (m_used_phases d) (m_used_phases c) = Inr (ab, phs1) \<and>
    (ab \<or> fst (adopt_phases mine (m_used_phases d) phs1) \<longleftrightarrow> (\<exists>ph. clash mine theirs (phase_entry c ph) (phase_entry d ph))) \<and>
    omap_ok (snd (adopt_phases mine (m_used_phases d) phs1)) \<and>
    (\<forall>ph. map_find (snd (adopt_phases mine (m_used_phases d) phs1)) ph =
      (case map_find (m_used_phases c) ph of
         None \<Rightarrow> if mine then None else map_find (m_used_phases d) ph
       | Some b \<Rightarrow> Some (snd (merge_extension mine theirs b (phase_entry d ph)))))"
proof -
  have ku: "\<forall>b \<in> snd ` set (m_used_phases c). b \<noteq> gs_unknown" "\<forall>b \<in> snd ` set (m_used_phases d). b \<noteq> gs_unknown"
    using c(2) d(2) by (simp_all add: phases_known_def)
  obtain ab phs1 where p: "merge_known_phases theirs (m_used_phases d) (m_used_phases c) = Inr (ab, phs1)"
      "map fst phs1 = map fst (m_used_phases c)"
      "ab \<longleftrightarrow> (\<exists>(ph, b) \<in> set (m_used_phases c). clash mine theirs b (phase_entry d ph))"
      "\<And>ph. map_find phs1 ph = map_option (\<lambda>b. snd (merge_extension mine theirs b (phase_entry d ph))) (map_find (m_used_phases c) ph)"
    using merge_known_phases_eq [OF ku, of theirs mine] unfolding phase_entry_def by blast
  have ok1: "omap_ok phs1" using c(1) p(2) by (simp add: omap_ok_def)
  note ad = adopt_phases_eq [OF ok1 d(1), of mine]
  have in_c: "(ph, b) \<in> set (m_used_phases c) \<longleftrightarrow> map_find (m_used_phases c) ph = Some b" for ph b
    using omap_ok_distinct [OF c(1)] by (simp add: map_of_eq_Some_iff)
  have in_d: "(ph, b) \<in> set (m_used_phases d) \<longleftrightarrow> map_find (m_used_phases d) ph = Some b" for ph b
    using omap_ok_distinct [OF d(1)] by (simp add: map_of_eq_Some_iff)
  have none: "map_find phs1 ph = None \<longleftrightarrow> map_find (m_used_phases c) ph = None" for ph by (simp add: p(4))
  have "ab \<or> fst (adopt_phases mine (m_used_phases d) phs1) \<longleftrightarrow> (\<exists>ph. clash mine theirs (phase_entry c ph) (phase_entry d ph))"
  proof
    assume "ab \<or> fst (adopt_phases mine (m_used_phases d) phs1)"
    then consider ph b where "map_find (m_used_phases c) ph = Some b" "clash mine theirs b (phase_entry d ph)"
      | ph where mine "map_find (m_used_phases c) ph = None" "map_find (m_used_phases d) ph = Some gs_mandatory"
      using p(3) ad none in_c in_d by fastforce
    then show "\<exists>ph. clash mine theirs (phase_entry c ph) (phase_entry d ph)"
    proof cases
      case (1 ph b)
      then have "phase_entry c ph = b" by (simp add: phase_entry_def)
      with 1 show ?thesis by blast
    next
      case (2 ph)
      then have "clash mine theirs (phase_entry c ph) (phase_entry d ph)" by (simp add: phase_entry_def clash_def)
      then show ?thesis by blast
    qed
  next
    assume "\<exists>ph. clash mine theirs (phase_entry c ph) (phase_entry d ph)"
    then obtain ph where cl: "clash mine theirs (phase_entry c ph) (phase_entry d ph)" ..
    show "ab \<or> fst (adopt_phases mine (m_used_phases d) phs1)"
    proof (cases "map_find (m_used_phases c) ph")
      case None
      then have "phase_entry c ph = gs_unknown" by (simp add: phase_entry_def)
      then have "mine" "phase_entry d ph = gs_mandatory" using cl by (simp_all add: clash_def)
      moreover from this(2) have "map_find (m_used_phases d) ph = Some gs_mandatory"
        by (simp add: phase_entry_def split: option.splits)
      ultimately show ?thesis using ad None none in_d by fastforce
    next
      case (Some b)
      then have "phase_entry c ph = b" by (simp add: phase_entry_def)
      then show ?thesis using cl Some p(3) in_c by fastforce
    qed
  qed
  then show ?thesis using p(1,4) ad by (intro exI [of _ ab] exI [of _ phs1]) (auto split: option.split)
qed

lemma config_merge_result:
  assumes "config_ok N c" and "config_ok N d"
  obtains phs where
    "\<And>a. config_merge N a c d = (if a \<and> merge_conflict N c d then Inl (ScFatal ''binding check failed'')
      else Inr (merge_conflict N c d,
        c\<lparr>m_used_extensions := snd (merge_extensions (m_treat_unknown_as_rejected c) (m_treat_unknown_as_rejected d)
             (vec_resize N gs_unknown (m_used_extensions c)) (vec_resize N gs_unknown (m_used_extensions d))),
          m_used_phases := phs, m_treat_unknown_as_rejected := (m_treat_unknown_as_rejected c \<or> m_treat_unknown_as_rejected d)\<rparr>,
        d\<lparr>m_used_extensions := vec_resize N gs_unknown (m_used_extensions d)\<rparr>))"
    and "omap_ok phs"
    and "\<And>ph. map_find phs ph =
      (case map_find (m_used_phases c) ph of
         None \<Rightarrow> if m_treat_unknown_as_rejected c then None else map_find (m_used_phases d) ph
       | Some b \<Rightarrow> Some (snd (merge_extension (m_treat_unknown_as_rejected c) (m_treat_unknown_as_rejected d) b (phase_entry d ph))))"
proof -
  define mine theirs where "mine = m_treat_unknown_as_rejected c" and "theirs = m_treat_unknown_as_rejected d"
  define es1 es2 where "es1 = vec_resize N gs_unknown (m_used_extensions c)" and "es2 = vec_resize N gs_unknown (m_used_extensions d)"
  have c: "omap_ok (m_used_phases c)" "phases_known c" and d: "omap_ok (m_used_phases d)" "phases_known d"
    using assms by (simp_all add: config_ok_def)
  obtain ab phs1 where p: "merge_known_phases theirs (m_used_phases d) (m_used_phases c) = Inr (ab, phs1)"
    "ab \<or> fst (adopt_phases mine (m_used_phases d) phs1) \<longleftrightarrow> (\<exists>ph. clash mine theirs (phase_entry c ph) (phase_entry d ph))"
    "omap_ok (snd (adopt_phases mine (m_used_phases d) phs1))"
    "\<And>ph. map_find (snd (adopt_phases mine (m_used_phases d) phs1)) ph =
      (case map_find (m_used_phases c) ph of
         None \<Rightarrow> if mine then None else map_find (m_used_phases d) ph
       | Some b \<Rightarrow> Some (snd (merge_extension mine theirs b (phase_entry d ph))))"
    using merged_phases [OF c(1,2) d(1,2) mine_def theirs_def] by blast
  have ln: "length es1 = N" "length es2 = N" by (simp_all add: es1_def es2_def)
  have conf: "(fst (merge_extensions mine theirs es1 es2) \<or> ab \<or> fst (adopt_phases mine (m_used_phases d) phs1)) = merge_conflict N c d"
    unfolding merge_conflict_def ext_entry_def using merge_extensions_eq(2) [OF ln, of mine theirs] p(2)
    by (simp add: mine_def theirs_def es1_def es2_def)
  show thesis
  proof (rule that [of "snd (adopt_phases mine (m_used_phases d) phs1)"])
    show "config_merge N a c d = (if a \<and> merge_conflict N c d then Inl (ScFatal ''binding check failed'')
      else Inr (merge_conflict N c d,
        c\<lparr>m_used_extensions := snd (merge_extensions (m_treat_unknown_as_rejected c) (m_treat_unknown_as_rejected d)
             (vec_resize N gs_unknown (m_used_extensions c)) (vec_resize N gs_unknown (m_used_extensions d))),
          m_used_phases := snd (adopt_phases mine (m_used_phases d) phs1),
          m_treat_unknown_as_rejected := (m_treat_unknown_as_rejected c \<or> m_treat_unknown_as_rejected d)\<rparr>,
        d\<lparr>m_used_extensions := vec_resize N gs_unknown (m_used_extensions d)\<rparr>))" for a
      unfolding config_merge_def Let_def mine_def [symmetric] theirs_def [symmetric] es1_def [symmetric] es2_def [symmetric]
      using conf p(1) by (auto split: prod.splits)
  qed (unfold mine_def [symmetric] theirs_def [symmetric], fact p(3), fact p(4))
qed

lemma config_merge_merged:
  assumes ok: "config_ok N c" "config_ok N d" and m: "config_merge N a c d = Inr (x, c', d')"
  shows "m_used_extensions c' = snd (merge_extensions (m_treat_unknown_as_rejected c) (m_treat_unknown_as_rejected d)
             (vec_resize N gs_unknown (m_used_extensions c)) (vec_resize N gs_unknown (m_used_extensions d)))"
    and "m_treat_unknown_as_rejected c' = (m_treat_unknown_as_rejected c \<or> m_treat_unknown_as_rejected d)"
    and "d' = d\<lparr>m_used_extensions := vec_resize N gs_unknown (m_used_extensions d)\<rparr>"
    and "omap_ok (m_used_phases c')"
    and "map_find (m_used_phases c') ph =
      (case map_find (m_used_phases c) ph of
         None \<Rightarrow> if m_treat_unknown_as_rejected c then None else map_find (m_used_phases d) ph
       | Some b \<Rightarrow> Some (snd (merge_extension (m_treat_unknown_as_rejected c) (m_treat_unknown_as_rejected d) b (phase_entry d ph))))"
proof (atomize (full), rule config_merge_result [OF ok], goal_cases)
  case (1 phs)
  have "c' = c\<lparr>m_used_extensions := snd (merge_extensions (m_treat_unknown_as_rejected c) (m_treat_unknown_as_rejected d)
             (vec_resize N gs_unknown (m_used_extensions c)) (vec_resize N gs_unknown (m_used_extensions d))),
          m_used_phases := phs, m_treat_unknown_as_rejected := (m_treat_unknown_as_rejected c \<or> m_treat_unknown_as_rejected d)\<rparr>"
    and "d' = d\<lparr>m_used_extensions := vec_resize N gs_unknown (m_used_extensions d)\<rparr>"
    using m unfolding 1(1) by (auto split: if_splits)
  then show ?case using 1(2,3) by simp
qed

lemma merged_ok:
  assumes ok: "config_ok N c" "config_ok N d" and m: "config_merge N a c d = Inr (x, c', d')"
  shows "config_ok N c' \<and> config_ok N d'"
proof -
  have c: "phases_known c" and d: "phases_known d" "omap_ok (m_used_phases d)"
    using ok by (simp_all add: config_ok_def)
  note r = config_merge_merged [OF ok m]
  have "b \<noteq> gs_unknown" if "(ph, b) \<in> set (m_used_phases c')" for ph b
  proof -
    have f: "map_find (m_used_phases c') ph = Some b" using omap_ok_distinct [OF r(4)] that by (simp add: map_of_eq_Some_iff)
    show ?thesis
    proof (cases "map_find (m_used_phases c) ph")
      case None
      then show ?thesis using f r(5) [of ph] phase_entry_known [OF d(1), of ph b] by (auto split: if_splits)
    next
      case (Some b0)
      then have "b0 \<noteq> gs_unknown" by (rule phase_entry_known [OF c])
      moreover have "b = snd (merge_extension (m_treat_unknown_as_rejected c) (m_treat_unknown_as_rejected d) b0 (phase_entry d ph))"
        using f r(5) [of ph] Some by simp
      ultimately show ?thesis by (cases b0; cases "phase_entry d ph") auto
    qed
  qed
  then show ?thesis using r(1,3,4) d by (auto simp: config_ok_def phases_known_def merge_extensions_eq(1))
qed

lemma merged_extension:
  assumes ok: "config_ok N c" "config_ok N d" and m: "config_merge N a c d = Inr (x, c', d')"
  shows "has_extension i c' = join_use (has_extension i c) (has_extension i d) \<and> has_extension i d' = has_extension i d"
proof -
  define mine theirs where "mine = m_treat_unknown_as_rejected c" and "theirs = m_treat_unknown_as_rejected d"
  define es1 es2 where "es1 = vec_resize N gs_unknown (m_used_extensions c)" and "es2 = vec_resize N gs_unknown (m_used_extensions d)"
  define es where "es = snd (merge_extensions mine theirs es1 es2)"
  have l: "length (m_used_extensions c) \<le> N" "length (m_used_extensions d) \<le> N"
    using ok by (simp_all add: config_ok_def)
  have l': "length (m_used_extensions c') \<le> N" "length (m_used_extensions d') \<le> N"
    using merged_ok [OF ok m] by (simp_all add: config_ok_def)
  have ln: "length es1 = N" "length es2 = N" by (simp_all add: es1_def es2_def)
  have f: "m_used_extensions c' = es" "m_used_extensions d' = es2" "m_treat_unknown_as_rejected c' = (mine \<or> theirs)"
    "m_treat_unknown_as_rejected d' = theirs"
    using config_merge_merged(1-3) [OF ok m] by (simp_all add: es_def es1_def es2_def mine_def theirs_def)
  have e': "ext_entry N c' i = es ! i" "ext_entry N d' i = es2 ! i" if "i < N"
    using that merge_extensions_eq(1) [OF ln, of mine theirs] ln by (simp_all add: ext_entry_def vec_resize_nth f es_def)
  have "has_extension i c' = use_of (mine \<or> theirs) (if i < N then es ! i else gs_unknown)"
    "has_extension i d' = use_of theirs (if i < N then es2 ! i else gs_unknown)"
    using ext_use [OF l'(1), of i] ext_use [OF l'(2), of i] e' by (simp_all add: f)
  moreover have "has_extension i c = use_of mine (if i < N then es1 ! i else gs_unknown)"
    "has_extension i d = use_of theirs (if i < N then es2 ! i else gs_unknown)"
    using ext_use [OF l(1), of i] ext_use [OF l(2), of i]
    by (simp_all add: ext_entry_def mine_def theirs_def es1_def es2_def)
  ultimately show ?thesis
    using merge_extensions_eq(3) [OF ln, of i mine theirs] merge_extension_use [of mine theirs "es1 ! i" "es2 ! i"]
    by (cases "i < N") (simp_all add: es_def)
qed

lemma merged_phase:
  assumes ok: "config_ok N c" "config_ok N d" and m: "config_merge N a c d = Inr (x, c', d')"
  shows "has_phase ph c' = join_use (has_phase ph c) (has_phase ph d) \<and> has_phase ph d' = has_phase ph d"
proof -
  define mine theirs where "mine = m_treat_unknown_as_rejected c" and "theirs = m_treat_unknown_as_rejected d"
  have k: "phases_known c" "phases_known d" "phases_known c'"
    using ok merged_ok [OF ok m] by (simp_all add: config_ok_def)
  note r = config_merge_merged [OF ok m]
  have "phase_entry c' ph = snd (merge_extension mine theirs (phase_entry c ph) (phase_entry d ph))"
    using r(5) [of ph] by (auto simp: phase_entry_def mine_def theirs_def split: option.splits)
  then have "has_phase ph c' = join_use (has_phase ph c) (has_phase ph d)"
    using phase_use [OF k(3), of ph] phase_use [OF k(1), of ph] phase_use [OF k(2), of ph]
      merge_extension_use [of mine theirs "phase_entry c ph" "phase_entry d ph"]
    by (simp add: r(2) mine_def theirs_def)
  then show ?thesis by (simp add: has_phase_def r(3))
qed

lemma config_merge_conflict:
  assumes "config_ok N c" and "config_ok N d"
  obtains c' d' where "\<And>a. config_merge N a c d =
    (if a \<and> merge_conflict N c d then Inl (ScFatal ''binding check failed'') else Inr (merge_conflict N c d, c', d'))"
  by (rule config_merge_result [OF assms]) (rule that)

text \<open>Two sides that disagree: one requires what the other rejects.\<close>

definition opposed :: "bindability \<Rightarrow> bindability \<Rightarrow> bool" where
  "opposed a b \<longleftrightarrow> (a = gs_mandatory \<and> b = gs_reject) \<or> (a = gs_reject \<and> b = gs_mandatory)"

definition incompatible :: "config \<Rightarrow> config \<Rightarrow> bool" where
  "incompatible c d \<longleftrightarrow> (\<exists>i. opposed (has_extension i c) (has_extension i d)) \<or> (\<exists>ph. opposed (has_phase ph c) (has_phase ph d))"

text \<open>
  What one side objects to by itself: it requires what the other rejects, or it rejects unknown things
  and the other requires one that it does not know.
\<close>

definition unmet :: "config \<Rightarrow> config \<Rightarrow> bool" where
  "unmet c d \<longleftrightarrow> (\<exists>i. has_extension i c = gs_mandatory \<and> has_extension i d = gs_reject) \<or>
     (\<exists>ph. has_phase ph c = gs_mandatory \<and> has_phase ph d = gs_reject)"

definition knows_extension :: "config \<Rightarrow> nat \<Rightarrow> bool" where
  "knows_extension c i \<longleftrightarrow> i < length (m_used_extensions c) \<and> m_used_extensions c ! i \<noteq> gs_unknown"

definition knows_phase :: "config \<Rightarrow> string \<Rightarrow> bool" where
  "knows_phase c ph \<longleftrightarrow> map_find (m_used_phases c) ph \<noteq> None"

definition requires_unknown :: "config \<Rightarrow> config \<Rightarrow> bool" where
  "requires_unknown c d \<longleftrightarrow> m_treat_unknown_as_rejected c \<and>
     ((\<exists>i. \<not> knows_extension c i \<and> has_extension i d = gs_mandatory) \<or>
      (\<exists>ph. \<not> knows_phase c ph \<and> has_phase ph d = gs_mandatory))"

lemma incompatible_unmet: "incompatible c d \<longleftrightarrow> unmet c d \<or> unmet d c"
  by (auto simp: incompatible_def unmet_def opposed_def)

lemma use_mandatory: "use_of r b = gs_mandatory \<longleftrightarrow> b = gs_mandatory"
  by (cases b) auto

lemma merge_conflict_meaning:
  assumes "config_ok N c" and "config_ok N d"
  shows "merge_conflict N c d \<longleftrightarrow> unmet c d \<or> requires_unknown c d"
proof -
  let ?r = m_treat_unknown_as_rejected
  have l: "length (m_used_extensions c) \<le> N" "length (m_used_extensions d) \<le> N" "phases_known c" "phases_known d"
    using assms by (simp_all add: config_ok_def)
  have e: "i < N \<and> clash (?r c) (?r d) (ext_entry N c i) (ext_entry N d i) \<longleftrightarrow>
      (has_extension i c = gs_mandatory \<and> has_extension i d = gs_reject) \<or>
      (?r c \<and> \<not> knows_extension c i \<and> has_extension i d = gs_mandatory)" for i
    using ext_use [OF l(1), of i] ext_use [OF l(2), of i] l(1)
    by (auto simp: clash_def use_mandatory knows_extension_def ext_entry_def vec_resize_nth split: if_splits)
  have p: "clash (?r c) (?r d) (phase_entry c ph) (phase_entry d ph) \<longleftrightarrow>
      (has_phase ph c = gs_mandatory \<and> has_phase ph d = gs_reject) \<or>
      (?r c \<and> \<not> knows_phase c ph \<and> has_phase ph d = gs_mandatory)" for ph
    using phase_use [OF l(3), of ph] phase_use [OF l(4), of ph] phase_entry_known [OF l(3), of ph]
    by (auto simp: clash_def use_mandatory knows_phase_def phase_entry_def split: option.splits)
  show ?thesis unfolding merge_conflict_def e p unmet_def requires_unknown_def by blast
qed

lemma both_merges_conflict:
  assumes "config_ok N c" and "config_ok N d"
  shows "incompatible c d \<longleftrightarrow> merge_conflict N c d \<or> merge_conflict N d c"
proof -
  have "\<not> knows_extension c i \<Longrightarrow> m_treat_unknown_as_rejected c \<Longrightarrow> has_extension i c = gs_reject"
    "\<not> knows_phase c ph \<Longrightarrow> m_treat_unknown_as_rejected c \<Longrightarrow> has_phase ph c = gs_reject" for i ph c
    by (auto simp: knows_extension_def knows_phase_def has_extension_def has_phase_def)
  then have "requires_unknown c d \<Longrightarrow> unmet d c" for c d
    unfolding requires_unknown_def unmet_def by blast
  then show ?thesis
    using merge_conflict_meaning [OF assms] merge_conflict_meaning [OF assms(2,1)] assms incompatible_unmet by blast
qed

text \<open>
  C10. The merge of this side's configuration with that of the other implements the join of their
  meanings. It reports a conflict exactly when this side requires an extension or a phase that the other
  rejects, or rejects unknown ones and the other requires one it does not know; then it is fatal if it may abort.
  It never fails otherwise. Afterwards every extension and every phase that
  was mandatory or rejected on this side stays so, what was optional is what the other side
  makes of it, and the meaning of the other configuration is unchanged. The comment of the function
  also promises failure when the other side requires what this side explicitly rejects; that is not
  reported here (\<open>rejected_here_merges\<close>), only by the merge of the other side with this one: one of the
  two merges reports a conflict exactly when the configurations are incompatible.
\<close>

theorem config_merge_joins:
  assumes "config_ok N c" and "config_ok N d"
  shows "\<exists>x c' d'. config_merge N False c d = Inr (x, c', d') \<and>
    config_merge N True c d = (if x then Inl (ScFatal ''binding check failed'') else Inr (False, c', d')) \<and>
    (x \<longleftrightarrow> unmet c d \<or> requires_unknown c d) \<and>
    (\<exists>y d2 c2. config_merge N False d c = Inr (y, d2, c2) \<and> (incompatible c d \<longleftrightarrow> x \<or> y)) \<and>
    config_ok N c' \<and> config_ok N d' \<and>
    (\<forall>i. has_extension i c' = join_use (has_extension i c) (has_extension i d) \<and> has_extension i d' = has_extension i d) \<and>
    (\<forall>ph. has_phase ph c' = join_use (has_phase ph c) (has_phase ph d) \<and> has_phase ph d' = has_phase ph d)"
proof -
  obtain c' d' where r: "\<And>a. config_merge N a c d =
    (if a \<and> merge_conflict N c d then Inl (ScFatal ''binding check failed'') else Inr (merge_conflict N c d, c', d'))"
    by (rule config_merge_conflict [OF assms]) (rule that)
  then have m: "config_merge N False c d = Inr (merge_conflict N c d, c', d')" by simp
  have "\<exists>d2 c2. config_merge N False d c = Inr (merge_conflict N d c, d2, c2)"
    by (rule config_merge_conflict [OF assms(2,1)]) auto
  then show ?thesis
    using r merged_ok [OF assms m] merged_extension [OF assms m] merged_phase [OF assms m]
      merge_conflict_meaning [OF assms] both_merges_conflict [OF assms]
    by (intro exI [of _ "merge_conflict N c d"] exI [of _ c'] exI [of _ d']) auto
qed

definition sample_initiator :: config where
  "sample_initiator = \<lparr>m_used_extensions = [gs_mandatory], m_used_phases = [(''DATA'', gs_optional)], m_type_string = None,
     m_treat_unknown_as_rejected = False, cfg_invalid = False, force_reeval = False\<rparr>"

definition sample_target :: config where
  "sample_target = \<lparr>m_used_extensions = [gs_optional, gs_reject], m_used_phases = [(''DATA'', gs_mandatory)], m_type_string = None,
     m_treat_unknown_as_rejected = True, cfg_invalid = False, force_reeval = False\<rparr>"

lemma sample_ok: "config_ok 2 sample_initiator" "config_ok 2 sample_target"
  by (simp_all add: config_ok_def sample_initiator_def sample_target_def phases_known_def omap_ok_def)

lemma sample_uses:
  "has_extension 0 sample_initiator = gs_mandatory" "has_extension 1 sample_initiator = gs_optional"
  "has_extension 0 sample_target = gs_optional" "has_extension 1 sample_target = gs_reject"
  by (simp_all add: has_extension_def sample_initiator_def sample_target_def)

theorem config_merge_joins_witness:
  "config_ok 2 sample_initiator \<and> config_ok 2 sample_target \<and>
   (\<exists>c' d'. config_merge 2 False sample_initiator sample_target = Inr (False, c', d') \<and>
      has_extension 0 c' = gs_mandatory \<and> has_extension 1 c' = gs_reject)"
proof -
  have "config_merge 2 False sample_initiator sample_target =
      Inr (False, sample_initiator\<lparr>m_used_extensions := [gs_mandatory, gs_reject], m_used_phases := [(''DATA'', gs_mandatory)],
        m_treat_unknown_as_rejected := True\<rparr>, sample_target)"
    by code_simp
  then show ?thesis
    using config_merge_joins [OF sample_ok] sample_ok
    by (auto simp: sample_uses simp del: One_nat_def)
qed

text \<open>An extension that this side rejects and the other requires is no conflict of this merge.\<close>

lemma rejected_here_merges:
  "let c = sample_initiator\<lparr>m_used_extensions := [gs_reject]\<rparr>; d = sample_initiator\<lparr>m_used_extensions := [gs_mandatory]\<rparr>
   in has_extension 0 c = gs_reject \<and> has_extension 0 d = gs_mandatory \<and>
      (case config_merge 1 True c d of Inr (x, _, _) \<Rightarrow> \<not> x | Inl _ \<Rightarrow> False) \<and>
      (case config_merge 1 False d c of Inr (x, _, _) \<Rightarrow> x | Inl _ \<Rightarrow> False)"
  by code_simp

lemma config_merge_fields:
  assumes "config_merge N a c d = Inr (x, c', d')"
  shows "force_reeval c' = force_reeval c \<and> cfg_invalid c' = cfg_invalid c \<and> m_type_string c' = m_type_string c \<and>
    d' = d\<lparr>m_used_extensions := vec_resize N gs_unknown (m_used_extensions d)\<rparr>"
proof -
  obtain ab1 es where e: "merge_extensions (m_treat_unknown_as_rejected c) (m_treat_unknown_as_rejected d)
      (vec_resize N gs_unknown (m_used_extensions c)) (vec_resize N gs_unknown (m_used_extensions d)) = (ab1, es)" by force
  from assms obtain ab2 phs1 where k: "merge_known_phases (m_treat_unknown_as_rejected d) (m_used_phases d) (m_used_phases c) = Inr (ab2, phs1)"
    by (cases "merge_known_phases (m_treat_unknown_as_rejected d) (m_used_phases d) (m_used_phases c)") (auto simp: config_merge_def e)
  obtain ab3 phs where a: "adopt_phases (m_treat_unknown_as_rejected c) (m_used_phases d) phs1 = (ab3, phs)" by force
  show ?thesis using assms by (auto simp: config_merge_def e k a Let_def split: if_splits)
qed

lemmas config_merge_other = config_merge_fields [THEN conjunct2, THEN conjunct2, THEN conjunct2]

lemma phases_differ_refl:
  assumes "\<forall>(ph, b) \<in> set m. map_find phs ph = Some b"
  shows "\<not> phases_differ m phs"
  using assms by (induction m phs rule: phases_differ.induct) auto

lemma config_diff_refl: "config_ok N c \<Longrightarrow> \<not> config_diff c c"
  using phases_differ_refl [of "m_used_phases c" "m_used_phases c"] omap_ok_distinct [of "m_used_phases c"]
  by (auto simp: config_diff_def config_ok_def map_of_eq_Some_iff)

lemma has_phase_known: "phases_known c \<Longrightarrow> has_phase ph c \<noteq> gs_unknown"
  by (simp add: phase_use use_of_simp)

lemma join_agree: "\<not> opposed a b \<Longrightarrow> a \<noteq> gs_unknown \<Longrightarrow> b \<noteq> gs_unknown \<Longrightarrow> join_use a (join_use b a) = join_use b a"
  by (cases a; cases b) (auto simp: opposed_def)

text \<open>A conflict of the merge is a disagreement; a disagreement is a conflict of one of the two merges.\<close>

lemma clash_opposed: "clash mine theirs b1 b2 \<Longrightarrow> opposed (use_of mine b1) (use_of theirs b2)"
  by (cases b2) (auto simp: clash_def opposed_def)

lemma opposed_clash:
  assumes "opposed (use_of mine b1) (use_of theirs b2)" and "\<not> clash theirs mine b2 b1"
  shows "use_of mine b1 = gs_mandatory \<and> join_use (use_of theirs b2) (use_of mine b1) = gs_reject \<and> b1 = gs_mandatory"
  using assms by (cases b1; cases b2) (auto simp: clash_def opposed_def split: if_splits)

lemma conflict_incompatible:
  assumes "config_ok N c" and "config_ok N d" and "merge_conflict N c d"
  shows "incompatible c d"
proof -
  have l: "length (m_used_extensions c) \<le> N" "length (m_used_extensions d) \<le> N" "phases_known c" "phases_known d"
    using assms by (simp_all add: config_ok_def)
  consider i where "i < N" "clash (m_treat_unknown_as_rejected c) (m_treat_unknown_as_rejected d) (ext_entry N c i) (ext_entry N d i)"
    | ph where "clash (m_treat_unknown_as_rejected c) (m_treat_unknown_as_rejected d) (phase_entry c ph) (phase_entry d ph)"
    using assms(3) by (auto simp: merge_conflict_def)
  then show ?thesis
  proof cases
    case (1 i)
    then have "opposed (has_extension i c) (has_extension i d)"
      using clash_opposed ext_use [OF l(1), of i] ext_use [OF l(2), of i] by simp
    then show ?thesis by (auto simp: incompatible_def)
  next
    case (2 ph)
    then have "opposed (has_phase ph c) (has_phase ph d)"
      using clash_opposed phase_use [OF l(3), of ph] phase_use [OF l(4), of ph] by simp
    then show ?thesis by (auto simp: incompatible_def)
  qed
qed

text \<open>
  After the other side has merged with this one without a conflict, a disagreement is found here.
\<close>

lemma second_merge_conflict:
  assumes ok: "config_ok N c" "config_ok N d" "config_ok N d'"
    and n: "\<not> merge_conflict N d c"
    and e: "\<And>i. has_extension i d' = join_use (has_extension i d) (has_extension i c)"
      "\<And>ph. has_phase ph d' = join_use (has_phase ph d) (has_phase ph c)"
  shows "merge_conflict N c d' \<longleftrightarrow> incompatible c d"
proof
  have l: "length (m_used_extensions c) \<le> N" "length (m_used_extensions d) \<le> N" "phases_known c" "phases_known d"
    "length (m_used_extensions d') \<le> N" "phases_known d'"
    using ok by (simp_all add: config_ok_def)
  have op: "opposed (has_extension i c) (has_extension i d)" if "opposed (has_extension i c) (has_extension i d')" for i
    using that e(1) [of i] has_extension_known [of i c] has_extension_known [of i d]
    by (cases "has_extension i c"; cases "has_extension i d") (auto simp: opposed_def)
  have op': "opposed (has_phase ph c) (has_phase ph d)" if "opposed (has_phase ph c) (has_phase ph d')" for ph
    using that e(2) [of ph] has_phase_known [OF l(3), of ph] has_phase_known [OF l(4), of ph]
    by (cases "has_phase ph c"; cases "has_phase ph d") (auto simp: opposed_def)
  show "incompatible c d" if "merge_conflict N c d'"
    using conflict_incompatible [OF ok(1,3) that] op op' by (auto simp: incompatible_def)
  assume "incompatible c d"
  then consider i where "opposed (has_extension i c) (has_extension i d)" | ph where "opposed (has_phase ph c) (has_phase ph d)"
    by (auto simp: incompatible_def)
  then show "merge_conflict N c d'"
  proof cases
    case (1 i)
    have iN: "i < N" using 1 ext_use [OF l(1), of i] ext_use [OF l(2), of i] by (auto simp: opposed_def split: if_splits)
    have "\<not> clash (m_treat_unknown_as_rejected d) (m_treat_unknown_as_rejected c) (ext_entry N d i) (ext_entry N c i)"
      using n iN by (auto simp: merge_conflict_def)
    then have "has_extension i d' = gs_reject" "ext_entry N c i = gs_mandatory"
      using opposed_clash 1 e(1) [of i] ext_use [OF l(1), of i] ext_use [OF l(2), of i] iN by simp_all
    then have "clash (m_treat_unknown_as_rejected c) (m_treat_unknown_as_rejected d') (ext_entry N c i) (ext_entry N d' i)"
      using ext_use [OF l(5), of i] iN by (simp add: clash_def)
    then show ?thesis using iN by (auto simp: merge_conflict_def)
  next
    case (2 ph)
    have "\<not> clash (m_treat_unknown_as_rejected d) (m_treat_unknown_as_rejected c) (phase_entry d ph) (phase_entry c ph)"
      using n by (auto simp: merge_conflict_def)
    then have "has_phase ph d' = gs_reject" "phase_entry c ph = gs_mandatory"
      using opposed_clash 2 e(2) [of ph] phase_use [OF l(3), of ph] phase_use [OF l(4), of ph] by simp_all
    then have "clash (m_treat_unknown_as_rejected c) (m_treat_unknown_as_rejected d') (phase_entry c ph) (phase_entry d' ph)"
      using phase_use [OF l(6), of ph] by (simp add: clash_def)
    then show ?thesis by (auto simp: merge_conflict_def)
  qed
qed

end
