(* ===== verification/Bind_Checker.thy ===== *)
theory Bind_Checker
  imports Socket_Config
begin

text \<open>
  The check of a binding between sockets (\<^verbatim>\<open>greensocket/generic/green_socket_bind_checker.tpp\<close>):
  each socket has a configuration per link and, when its binding is checked, asks the socket at the
  other side of the link for its configuration, which checks the binding from there first, and merges it
  with its own. Sockets are numbered; which socket and link stands at the other side, the number of
  links of a socket and the \<open>bound_to\<close> callback of the user are arguments. A reference to
  the other side's configuration is the pair of its socket and link. The recursion of a check is
  cut off by fuel: a callback that keeps changing configurations would keep the code busy forever.
\<close>

datatype bind_check_state = gs_bind_check_not_allowed | gs_bind_check_running | gs_bind_check_allowed

record socket =
  m_configs :: "config list"
  cb_done :: "bool list"
  check_state :: bind_check_state
  type_string :: string

record net =
  socks :: "nat \<Rightarrow> socket"
  osci_cfg :: config

text \<open>The address of a configuration: a link of a socket, or the one of a socket of another library.\<close>

datatype cfg_ref = Link nat nat | Osci

record bind_env =
  num_extensions :: nat
  other_side :: "nat \<Rightarrow> nat \<Rightarrow> (nat \<times> nat) option"
  num_bindings :: "nat \<Rightarrow> nat"
  bound_to :: "nat \<Rightarrow> string option \<Rightarrow> (nat \<times> nat) option \<Rightarrow> nat \<Rightarrow> net \<Rightarrow> net res"

definition new_socket :: "config \<Rightarrow> string \<Rightarrow> socket" where
  "new_socket c ty = \<lparr>m_configs = [c], cb_done = [False], check_state = gs_bind_check_not_allowed, type_string = ty\<rparr>"

definition upd_sock :: "nat \<Rightarrow> (socket \<Rightarrow> socket) \<Rightarrow> net \<Rightarrow> net" where
  "upd_sock s f n = n\<lparr>socks := (socks n)(s := f (socks n s))\<rparr>"

definition read_cfg :: "cfg_ref \<Rightarrow> net \<Rightarrow> config res" where
  "read_cfg r n = (case r of
     Osci \<Rightarrow> Inr (osci_cfg n)
   | Link s i \<Rightarrow> if i < length (m_configs (socks n s)) then Inr (m_configs (socks n s) ! i)
                 else Inl (Undefined ''m_configs index''))"

definition write_cfg :: "cfg_ref \<Rightarrow> config \<Rightarrow> net \<Rightarrow> net" where
  "write_cfg r c n = (case r of
     Osci \<Rightarrow> n\<lparr>osci_cfg := c\<rparr>
   | Link s i \<Rightarrow> upd_sock s (\<lambda>k. k\<lparr>m_configs := (m_configs k)[i := c]\<rparr>) n)"

definition resize_configs :: "bind_env \<Rightarrow> nat \<Rightarrow> net \<Rightarrow> net" where
  "resize_configs E s n =
     (if length (m_configs (socks n s)) = 1 \<and> num_bindings E s > 1
      then upd_sock s (\<lambda>k. k\<lparr>m_configs := replicate (num_bindings E s) (m_configs k ! 0),
                              cb_done := vec_resize (num_bindings E s) False (cb_done k)\<rparr>) n
      else n)"

definition osci_config :: "string list \<Rightarrow> config \<Rightarrow> config" where
  "osci_config base_phases c =
     (treat_unknown_as_rejected (fold use_mandatory_phase base_phases c))
       \<lparr>m_type_string := Some ''plain_osci_socket'', cfg_invalid := False\<rparr>"

text \<open>
  \<open>get_config\<close> takes the check as an argument: it is the check of the other socket, one level down.
\<close>

definition get_config :: "bind_env \<Rightarrow> (nat \<Rightarrow> nat \<Rightarrow> net \<Rightarrow> net res) \<Rightarrow> nat \<Rightarrow> nat \<Rightarrow> net \<Rightarrow> net res" where
  "get_config E check s i n =
     (let n1 = resize_configs E s n
      in if \<not> length (m_configs (socks n1 s)) > i then Inl (AssertFail ''m_configs.size()>index'')
         else if check_state (socks n1 s) \<noteq> gs_bind_check_running then check s i n1
         else Inr n1)"

fun check_binding :: "nat \<Rightarrow> bind_env \<Rightarrow> nat \<Rightarrow> nat \<Rightarrow> net \<Rightarrow> net res" where
  "check_binding 0 E s i n = Inl OutOfFuel"
| "check_binding (Suc fuel) E s i n =
     (let n1 = resize_configs E s n
      in if \<not> length (m_configs (socks n1 s)) > i then Inl (AssertFail ''m_configs.size()>index'')
         else if cfg_invalid (m_configs (socks n1 s) ! i)
         then Inl (ScFatal ''Socket has no configuration at end of elaboration'')
         else
           let other = other_side E s i;
               n2 = upd_sock s (\<lambda>k. k\<lparr>check_state := gs_bind_check_running\<rparr>) n1;
               r = (case other of None \<Rightarrow> Osci | Some (o', oi) \<Rightarrow> Link o' oi)
           in bindr (case other of None \<Rightarrow> Inr n2
                       | Some (o', oi) \<Rightarrow> get_config E (check_binding fuel E) o' oi n2) (\<lambda>n3.
              bindr (read_cfg r n3) (\<lambda>oc.
              if cfg_invalid oc then Inl (ScFatal ''other socket has no configuration at end of elaboration'')
              else
                let do_cb = (\<not> cb_done (socks n3 s) ! i \<or> force_reeval oc);
                    oc1 = oc\<lparr>force_reeval := False\<rparr>;
                    tmp = m_configs (socks n3 s) ! i
                in bindr (config_merge (num_extensions E) True tmp oc1) (\<lambda>(_, c, oc2).
                   let n4 = write_cfg (Link s i) c (write_cfg r oc2 n3)
                   in if do_cb \<or> config_diff tmp c
                      then bindr (bound_to E s (m_type_string oc2) other i n4) (\<lambda>n5.
                           let n6 = upd_sock s (\<lambda>k. k\<lparr>cb_done := (cb_done k)[i := True]\<rparr>) n5
                           in bindr (read_cfg (Link s i) n6) (\<lambda>c6.
                              bindr (if force_reeval c6 then check_binding fuel E s i n6
                                     else if config_diff c c6
                                     then bindr (read_cfg r n6) (\<lambda>oc6.
                                          bindr (config_merge (num_extensions E) True c6 oc6) (\<lambda>(_, c7, oc7).
                                            let n7 = write_cfg (Link s i) c7 (write_cfg r oc7 n6)
                                            in if config_diff c c7 then check_binding fuel E s i n7 else Inr n7))
                                     else Inr n6) (\<lambda>n8.
                              Inr (upd_sock s (\<lambda>k. k\<lparr>check_state := gs_bind_check_allowed\<rparr>) n8))))
                      else Inr (upd_sock s (\<lambda>k. k\<lparr>check_state := gs_bind_check_allowed\<rparr>) n4)))))"

definition set_config_at :: "nat \<Rightarrow> bind_env \<Rightarrow> nat \<Rightarrow> config \<Rightarrow> nat \<Rightarrow> net \<Rightarrow> net res" where
  "set_config_at fuel E s c i n =
     (if i \<ge> length (m_configs (socks n s))
      then Inl (ScFatal ''Number of connected sockets has not yet been resolved'')
      else let n1 = write_cfg (Link s i) (c\<lparr>m_type_string := Some (type_string (socks n s)), cfg_invalid := False\<rparr>) n
           in if check_state (socks n1 s) = gs_bind_check_allowed then check_binding fuel E s i n1 else Inr n1)"

fun set_config_from :: "nat \<Rightarrow> bind_env \<Rightarrow> nat \<Rightarrow> config \<Rightarrow> nat list \<Rightarrow> net \<Rightarrow> net res" where
  "set_config_from fuel E s c [] n = Inr n"
| "set_config_from fuel E s c (i # is) n = bindr (set_config_at fuel E s c i n) (set_config_from fuel E s c is)"

definition set_config :: "nat \<Rightarrow> bind_env \<Rightarrow> nat \<Rightarrow> config \<Rightarrow> net \<Rightarrow> net res" where
  "set_config fuel E s c n = set_config_from fuel E s c [0 ..< length (m_configs (socks n s))] n"

definition get_recent_config :: "nat \<Rightarrow> nat \<Rightarrow> net \<Rightarrow> config res" where
  "get_recent_config s i n = read_cfg (Link s i) n"

section \<open>One link between two sockets\<close>

text \<open>Callbacks that only look: they leave the sockets as they are.\<close>

definition passive_callbacks :: "bind_env \<Rightarrow> bool" where
  "passive_callbacks E \<longleftrightarrow> (\<forall>s ty o' i n. bound_to E s ty o' i n = Inr n)"

text \<open>Link 0 of \<open>s\<close> is link 0 of \<open>o'\<close>, and neither socket has another one.\<close>

definition linked :: "bind_env \<Rightarrow> nat \<Rightarrow> nat \<Rightarrow> bool" where
  "linked E s o' \<longleftrightarrow> s \<noteq> o' \<and> other_side E s 0 = Some (o', 0) \<and> other_side E o' 0 = Some (s, 0) \<and>
     num_bindings E s \<le> 1 \<and> num_bindings E o' \<le> 1"

text \<open>A socket with its configuration, ready to be checked.\<close>

definition ready :: "bind_env \<Rightarrow> net \<Rightarrow> nat \<Rightarrow> config \<Rightarrow> bool" where
  "ready E n s c \<longleftrightarrow> m_configs (socks n s) = [c] \<and> length (cb_done (socks n s)) = 1 \<and> config_ok (num_extensions E) c \<and>
     \<not> cfg_invalid c \<and> \<not> force_reeval c"

lemma upd_sock_sel [simp]: "socks (upd_sock s f n) t = (if t = s then f (socks n s) else socks n t)"
  by (simp add: upd_sock_def)

lemma upd_sock_osci [simp]: "osci_cfg (upd_sock s f n) = osci_cfg n"
  by (simp add: upd_sock_def)

lemma resize_single: "num_bindings E s \<le> 1 \<Longrightarrow> resize_configs E s n = n"
  by (simp add: resize_configs_def)

text \<open>
  The part of a check that follows the other side's answer: a conflict of the merge is fatal,
  otherwise both sides hold the merged configurations.
\<close>

lemma check_after_answer:
  assumes E: "passive_callbacks E" and l: "s \<noteq> o'" "other_side E s 0 = Some (o', 0)" "num_bindings E s \<le> 1"
    and s: "ready E n s c0"
    and g: "get_config E (check_binding fuel E) o' 0 (upd_sock s (\<lambda>k. k\<lparr>check_state := gs_bind_check_running\<rparr>) n) = Inr n3"
    and r: "ready E n3 s c" "ready E n3 o' d"
  shows "if merge_conflict (num_extensions E) c d
    then check_binding (Suc fuel) E s 0 n = Inl (ScFatal ''binding check failed'')
    else \<exists>n' c' d'. check_binding (Suc fuel) E s 0 n = Inr n' \<and>
      config_merge (num_extensions E) True c d = Inr (False, c', d') \<and> ready E n' s c' \<and> ready E n' o' d' \<and>
      check_state (socks n' s) = gs_bind_check_allowed \<and> check_state (socks n' o') = check_state (socks n3 o')"
proof -
  define N where "N = num_extensions E"
  have n0: "m_configs (socks n s) = [c0]" "\<not> cfg_invalid c0"
    using s by (simp_all add: ready_def)
  have n: "\<not> cfg_invalid c" "\<not> force_reeval c" "config_ok N c"
    using r(1) by (simp_all add: ready_def N_def)
  have n3: "m_configs (socks n3 s) = [c]" "m_configs (socks n3 o') = [d]" "\<not> cfg_invalid d" "\<not> force_reeval d" "config_ok N d"
    "length (cb_done (socks n3 s)) = 1" "length (cb_done (socks n3 o')) = 1"
    using r by (simp_all add: ready_def N_def)
  obtain c' d' where r: "\<And>a. config_merge N a c d =
    (if a \<and> merge_conflict N c d then Inl (ScFatal ''binding check failed'') else Inr (merge_conflict N c d, c', d'))"
    by (rule config_merge_conflict [OF n(3) n3(5)]) (rule that)
  have m: "config_merge N True c d =
      (if merge_conflict N c d then Inl (ScFatal ''binding check failed'') else Inr (False, c', d'))"
    "config_ok N c'" "config_ok N d'"
    using merged_ok [OF n(3) n3(5) r [of False, simplified]] by (simp_all add: r)
  have d0: "d\<lparr>force_reeval := False\<rparr> = d" using n3(4) by (cases d) simp
  have start: "check_binding (Suc fuel) E s 0 n = bindr (config_merge N True c d) (\<lambda>(_, c, oc2).
      let n4 = write_cfg (Link s 0) c (write_cfg (Link o' 0) oc2 n3)
      in if (\<not> cb_done (socks n3 s) ! 0 \<or> force_reeval d) \<or> config_diff (m_configs (socks n3 s) ! 0) c
         then bindr (bound_to E s (m_type_string oc2) (Some (o', 0)) 0 n4) (\<lambda>n5.
              let n6 = upd_sock s (\<lambda>k. k\<lparr>cb_done := (cb_done k)[0 := True]\<rparr>) n5
              in bindr (read_cfg (Link s 0) n6) (\<lambda>c6.
                 bindr (if force_reeval c6 then check_binding fuel E s 0 n6
                        else if config_diff c c6
                        then bindr (read_cfg (Link o' 0) n6) (\<lambda>oc6.
                             bindr (config_merge (num_extensions E) True c6 oc6) (\<lambda>(_, c7, oc7).
                               let n7 = write_cfg (Link s 0) c7 (write_cfg (Link o' 0) oc7 n6)
                               in if config_diff c c7 then check_binding fuel E s 0 n7 else Inr n7))
                        else Inr n6) (\<lambda>n8.
                 Inr (upd_sock s (\<lambda>k. k\<lparr>check_state := gs_bind_check_allowed\<rparr>) n8))))
         else Inr (upd_sock s (\<lambda>k. k\<lparr>check_state := gs_bind_check_allowed\<rparr>) n4))"
    using l n0 g n3(1-3) d0
    by (simp add: resize_single Let_def read_cfg_def N_def cong: if_cong split: prod.split)
  show ?thesis
  proof (cases "merge_conflict N c d")
    case True
    then show ?thesis using start m(1) by (simp add: N_def)
  next
    case False
    then have mm: "config_merge N True c d = Inr (False, c', d')" using m(1) by simp
    have f: "force_reeval c' = force_reeval c" "cfg_invalid c' = cfg_invalid c" "force_reeval d' = force_reeval d"
      "cfg_invalid d' = cfg_invalid d"
      using config_merge_fields [OF mm] by simp_all
    define n4 where "n4 = write_cfg (Link s 0) c' (write_cfg (Link o' 0) d' n3)"
    have c4: "m_configs (socks n4 s) = [c']" "m_configs (socks n4 o') = [d']" "check_state (socks n4 o') = check_state (socks n3 o')"
      "length (cb_done (socks n4 s)) = 1" "length (cb_done (socks n4 o')) = 1"
      using n3 l(1) by (simp_all add: n4_def write_cfg_def)
    let ?n6 = "upd_sock s (\<lambda>k. k\<lparr>cb_done := (cb_done k)[0 := True]\<rparr>) n4"
    have "check_binding (Suc fuel) E s 0 n = Inr (upd_sock s (\<lambda>k. k\<lparr>check_state := gs_bind_check_allowed\<rparr>) ?n6) \<or>
        check_binding (Suc fuel) E s 0 n = Inr (upd_sock s (\<lambda>k. k\<lparr>check_state := gs_bind_check_allowed\<rparr>) n4)"
      unfolding start mm using E f n(2) c4(1) config_diff_refl [OF m(2)]
      by (simp add: n4_def [symmetric] passive_callbacks_def read_cfg_def)
    then show ?thesis
      using False mm m(2,3) f n n3 c4 l(1) unfolding N_def [symmetric] ready_def
      by (elim disjE) (simp_all add: N_def [symmetric])
  qed
qed

lemma answer_running:
  assumes "linked E s o'" and "ready E n s c" and "check_state (socks n s) = gs_bind_check_running"
  shows "get_config E check s 0 n = Inr n"
  using assms by (simp add: get_config_def linked_def resize_single ready_def)

lemma answer_checked:
  assumes "linked E s o'" and "ready E n s c" and "check_state (socks n s) \<noteq> gs_bind_check_running"
  shows "get_config E check s 0 n = check s 0 n"
  using assms by (simp add: get_config_def linked_def resize_single ready_def)

lemma linked_sym: "linked E s o' \<Longrightarrow> linked E o' s"
  by (auto simp: linked_def)

lemma ready_running [simp]:
  "ready E (upd_sock s (\<lambda>k. k\<lparr>check_state := b\<rparr>) n) t c \<longleftrightarrow> ready E n t c"
  by (simp add: ready_def)

text \<open>
  The configurations after the other side has merged with this one: the merge of this side finds
  every disagreement, and without one both sides agree.
\<close>

lemma merge_after_other:
  assumes okc: "config_ok N c" and okd: "config_ok N d" and m: "config_merge N True d c = Inr (False, d', c1)"
    and n: "\<not> merge_conflict N d c" and okd': "config_ok N d'" and okc1: "config_ok N c1"
  shows "merge_conflict N c1 d' \<longleftrightarrow> incompatible c d"
    and "\<not> incompatible c d \<Longrightarrow> config_merge N True c1 d' = Inr (False, c', d2) \<Longrightarrow>
      (\<forall>i. has_extension i c' = has_extension i d2) \<and> (\<forall>ph. has_phase ph c' = has_phase ph d2)"
proof -
  have j: "has_extension i d' = join_use (has_extension i d) (has_extension i c)" "has_extension i c1 = has_extension i c"
    "has_phase ph d' = join_use (has_phase ph d) (has_phase ph c)" "has_phase ph c1 = has_phase ph c" for i ph
    using merged_extension [OF okd okc m] merged_phase [OF okd okc m] by simp_all
  have c1: "c1 = c\<lparr>m_used_extensions := vec_resize N gs_unknown (m_used_extensions c)\<rparr>"
    using config_merge_other [OF m] .
  have n1: "\<not> merge_conflict N d c1"
    using n by (simp add: merge_conflict_def c1 ext_entry_def phase_entry_def vec_resize_nth cong: conj_cong)
  have inc: "incompatible c1 d \<longleftrightarrow> incompatible c d" by (simp add: incompatible_def j)
  show "merge_conflict N c1 d' \<longleftrightarrow> incompatible c d"
    unfolding inc [symmetric] by (rule second_merge_conflict [OF okc1 okd okd' n1]) (simp_all add: j)
  assume ni: "\<not> incompatible c d" and o: "config_merge N True c1 d' = Inr (False, c', d2)"
  have k: "has_extension i c' = join_use (has_extension i c) (has_extension i d')" "has_extension i d2 = has_extension i d'"
    "has_phase ph c' = join_use (has_phase ph c) (has_phase ph d')" "has_phase ph d2 = has_phase ph d'" for i ph
    using merged_extension [OF okc1 okd' o] merged_phase [OF okc1 okd' o] j by simp_all
  have "has_extension i c' = has_extension i d2" for i
    using ni join_agree [of "has_extension i c" "has_extension i d"] has_extension_known
    by (simp add: k j incompatible_def)
  moreover have "has_phase ph c' = has_phase ph d2" for ph
    using ni join_agree [of "has_phase ph c" "has_phase ph d"] has_phase_known okc okd
    by (simp add: k j incompatible_def config_ok_def)
  ultimately show "(\<forall>i. has_extension i c' = has_extension i d2) \<and> (\<forall>ph. has_phase ph c' = has_phase ph d2)" by blast
qed

text \<open>
  C8. The check of a binding between two sockets that are each other's only link, both with a
  well-formed, valid configuration that is not to be evaluated again, the other one not being checked already, and
  with bound-to callbacks that leave the configurations as they are: the check ends after two nested
  calls. It is fatal exactly when one side requires an extension or a phase that the other side rejects; otherwise both sockets are left
  checked and agree on every extension and every phase. The roles of the two sockets are
  interchangeable. Callbacks that change the configurations can keep a check busy for ever.
\<close>

theorem binding_check_agrees:
  assumes E: "passive_callbacks E" and l: "linked E s o'" and c: "ready E n s c" and d: "ready E n o' d"
    and nr: "check_state (socks n o') \<noteq> gs_bind_check_running"
  shows "if incompatible c d
    then check_binding (Suc (Suc fuel)) E s 0 n = Inl (ScFatal ''binding check failed'')
    else \<exists>n' c' d'. check_binding (Suc (Suc fuel)) E s 0 n = Inr n' \<and> ready E n' s c' \<and> ready E n' o' d' \<and>
      check_state (socks n' s) = gs_bind_check_allowed \<and> check_state (socks n' o') = gs_bind_check_allowed \<and>
      (\<forall>i. has_extension i c' = has_extension i d') \<and> (\<forall>ph. has_phase ph c' = has_phase ph d')"
proof -
  define N where "N = num_extensions E"
  have okc: "config_ok N c" and okd: "config_ok N d" using c d by (simp_all add: ready_def N_def)
  let ?n2 = "upd_sock s (\<lambda>k. k\<lparr>check_state := gs_bind_check_running\<rparr>) n"
  let ?n3 = "upd_sock o' (\<lambda>k. k\<lparr>check_state := gs_bind_check_running\<rparr>) ?n2"
  have ne: "s \<noteq> o'" and l': "other_side E s 0 = Some (o', 0)" "num_bindings E s \<le> 1"
    "other_side E o' 0 = Some (s, 0)" "num_bindings E o' \<le> 1"
    using l by (simp_all add: linked_def)
  have ask: "get_config E (check_binding (Suc fuel) E) o' 0 ?n2 = check_binding (Suc fuel) E o' 0 ?n2"
    by (rule answer_checked [OF linked_sym [OF l], of _ d]) (use d nr ne in simp_all)
  have rear: "get_config E (check_binding fuel E) s 0 ?n3 = Inr ?n3"
    by (rule answer_running [OF l, of _ c]) (use c ne in simp_all)
  note inner = check_after_answer [OF E ne [symmetric] l'(3,4), of ?n2 d fuel ?n3 d c, OF _ rear]
  have rd: "ready E ?n2 o' d" "ready E ?n3 o' d" "ready E ?n3 s c" using c d by simp_all
  show ?thesis
  proof (cases "merge_conflict N d c")
    case True
    then have "check_binding (Suc fuel) E o' 0 ?n2 = Inl (ScFatal ''binding check failed'')"
      using inner rd by (simp add: N_def)
    moreover have "incompatible c d"
      using conflict_incompatible [OF okd okc True] by (auto simp: incompatible_def opposed_def)
    ultimately show ?thesis using ask c l'(1,2) by (simp add: ready_def resize_single Let_def)
  next
    case False
    obtain m d' c1 where m: "check_binding (Suc fuel) E o' 0 ?n2 = Inr m" "config_merge N True d c = Inr (False, d', c1)"
      "ready E m o' d'" "ready E m s c1" "check_state (socks m o') = gs_bind_check_allowed"
      using inner rd False by (auto simp: N_def)
    have ok: "config_ok N d'" "config_ok N c1" using m(3,4) by (simp_all add: ready_def N_def)
    note merged = merge_after_other [OF okc okd m(2) False ok]
    note outer = check_after_answer [OF E ne l'(1,2) c, of "Suc fuel" m c1 d', OF _ m(4,3)]
    show ?thesis using outer ask m(1,5) merged by (fastforce simp: N_def)
  qed
qed

text \<open>The initiator and the target of the samples, bound by their links 0.\<close>

definition sample_env :: bind_env where
  "sample_env = \<lparr>num_extensions = 2,
     other_side = (\<lambda>s i. if i = 0 \<and> s \<le> 1 then Some (1 - s, 0) else None), num_bindings = (\<lambda>s. 1),
     bound_to = (\<lambda>s ty o' i n. Inr n)\<rparr>"

definition sample_net :: net where
  "sample_net = \<lparr>socks = (\<lambda>s. new_socket (if s = 0 then sample_initiator else sample_target) ''generic''),
     osci_cfg = sample_initiator\<rparr>"

lemma sample_compatible: "\<not> incompatible sample_initiator sample_target"
  unfolding incompatible_def opposed_def has_extension_def has_phase_def
  by (auto simp: sample_initiator_def sample_target_def nth_Cons' split: if_splits)

theorem binding_check_agrees_witness:
  "\<exists>n' c' d'. check_binding 2 sample_env 0 0 sample_net = Inr n' \<and> ready sample_env n' 0 c' \<and> ready sample_env n' 1 d' \<and>
     check_state (socks n' 0) = gs_bind_check_allowed \<and> check_state (socks n' 1) = gs_bind_check_allowed \<and>
     has_extension 1 c' = has_extension 1 d'"
proof -
  have e: "passive_callbacks sample_env" "linked sample_env 0 1"
    by (simp_all add: passive_callbacks_def linked_def sample_env_def)
  have r: "ready sample_env sample_net 0 sample_initiator" "ready sample_env sample_net 1 sample_target"
    using sample_ok
    by (simp_all add: ready_def sample_net_def new_socket_def sample_env_def) (simp_all add: sample_initiator_def sample_target_def)
  have "check_state (socks sample_net 1) \<noteq> gs_bind_check_running"
    by (simp add: sample_net_def new_socket_def)
  from binding_check_agrees [OF e r this, of 0] show ?thesis
    using sample_compatible by (auto simp: numeral_2_eq_2)
qed

end
