(* ===== verification/Generic_Router.thy ===== *)
theory Generic_Router
  imports Simple_Bus Address_Map Bind_Checker
begin

text \<open>
  The router of GreenRouter (\<^verbatim>\<open>greenrouter/genericRouter.h\<close>) over the simple address map, with the
  protocol it falls back to (\<^verbatim>\<open>greenrouter/protocol/Dummy/DummyProtocol.h\<close>): blocking, non-blocking and
  debug transports, the table of direct memory regions and its invalidation, and the refresh of the map
  when a device moves. The targets, the initiators and what stands at the other side of a port are
  arguments over a state of the rest of the system; the protocol is an argument too, as the operations
  of its interface. The configuration that a decode is given is ignored by this map and left out.
\<close>

section \<open>The router, its surroundings and its protocol\<close>

text \<open>The range of a direct memory pointer; the pointer itself and its latencies pass through.\<close>

record dmi =
  start_address :: u64
  end_address :: u64

record 'w router =
  m_addressMap :: "Entry_t list option"
  m_EOEdone :: bool
  mapCheckPending :: bool
  m_dmi_tport_entry :: "u32 \<Rightarrow> Entry_t list"
  rest :: 'w

text \<open>
  The multimap of direct memory regions is visited one key at a time: it is a list for each
  target port, in the order of insertion.
\<close>

record 'w router_env =
  max_port :: u32
  addr_err :: response
  sides :: "'w \<Rightarrow> other_side list"
  b_transport :: "u32 \<Rightarrow> payload \<times> 'w \<Rightarrow> payload \<times> 'w"
  dbg_transport :: "u32 \<Rightarrow> payload \<times> 'w \<Rightarrow> u32 \<times> payload \<times> 'w"
  dmi_transport :: "u32 \<Rightarrow> dmi \<times> payload \<times> 'w \<Rightarrow> bool \<times> dmi \<times> payload \<times> 'w"
  fw_transport :: "u32 \<Rightarrow> phase \<Rightarrow> payload \<times> 'w \<Rightarrow> (sync \<times> phase) \<times> payload \<times> 'w"
  bw_transport :: "u32 \<Rightarrow> phase \<Rightarrow> payload \<times> 'w \<Rightarrow> (sync \<times> phase) \<times> payload \<times> 'w"
  num_initiators :: nat

type_synonym decoder = "payload \<Rightarrow> (bool \<times> u32 list) res"

record 'w protocol_ops =
  before_b_transport :: "u32 \<Rightarrow> payload \<times> 'w \<Rightarrow> payload \<times> 'w"
  master_access :: "decoder \<Rightarrow> u32 \<Rightarrow> phase \<Rightarrow> payload \<times> 'w \<Rightarrow> ((sync \<times> phase) \<times> payload \<times> 'w) res"
  slave_access :: "phase \<Rightarrow> payload \<times> 'w \<Rightarrow> ((sync \<times> phase) \<times> payload \<times> 'w) res"
  protocol_dbg :: "decoder \<Rightarrow> u32 \<Rightarrow> payload \<times> 'w \<Rightarrow> (u32 \<times> payload \<times> 'w) res"
  protocol_dmi :: "u32 \<Rightarrow> dmi \<times> payload \<times> 'w \<Rightarrow> (dmi \<times> payload \<times> 'w) res"
  protocol_inv :: "u32 \<Rightarrow> u64 \<Rightarrow> u64 \<Rightarrow> 'w \<Rightarrow> 'w res"

definition new_router :: "'w \<Rightarrow> 'w router" where
  "new_router w = \<lparr>m_addressMap = None, m_EOEdone = False, mapCheckPending = False,
     m_dmi_tport_entry = (\<lambda>_. []), rest = w\<rparr>"

definition router_decode :: "'w router_env \<Rightarrow> 'w router \<Rightarrow> decoder" where
  "router_decode E r p =
     (case m_addressMap r of
        None \<Rightarrow> Inl (Undefined ''m_addressMap'')
      | Some m \<Rightarrow> (case am_decode (max_port E) (address p) m of (ok, port) \<Rightarrow> Inr (ok, [port])))"

section \<open>The map\<close>

definition assign_address :: "'w router_env \<Rightarrow> u64 \<Rightarrow> u64 \<Rightarrow> u32 \<Rightarrow> 'w router \<Rightarrow> 'w router res" where
  "assign_address E low high port r =
     bindr (map_range (max_port E) low high port True (case m_addressMap r of None \<Rightarrow> [] | Some m \<Rightarrow> m))
       (\<lambda>m. Inr (r\<lparr>m_addressMap := Some m\<rparr>))"

definition assign_next_address :: "'w router_env \<Rightarrow> u64 \<Rightarrow> u64 \<Rightarrow> 'w router \<Rightarrow> 'w router res" where
  "assign_next_address E low high r =
     assign_address E low high (case m_addressMap r of None \<Rightarrow> 0 | Some m \<Rightarrow> of_nat (length m) - 1) r"

definition router_end_of_elaboration :: "'w router_env \<Rightarrow> 'w router \<Rightarrow> 'w router res" where
  "router_end_of_elaboration E r =
     (if m_EOEdone r then Inr r
      else bindr (generateMap (max_port E) (sides E (rest r)) 0 True
                    (case m_addressMap r of None \<Rightarrow> [] | Some m \<Rightarrow> m))
             (\<lambda>m. Inr (r\<lparr>m_addressMap := Some m, m_EOEdone := True\<rparr>)))"

definition refreshAddressMap :: "'w router_env \<Rightarrow> bool \<Rightarrow> 'w router \<Rightarrow> 'w router res" where
  "refreshAddressMap E checkOverlap r =
     bindr (generateMap (max_port E) (sides E (rest r)) 0 checkOverlap [])
       (\<lambda>m. Inr (r\<lparr>m_addressMap := Some m, m_EOEdone := True\<rparr>))"

text \<open>What every access does first.\<close>

definition check_map :: "'w router_env \<Rightarrow> 'w router \<Rightarrow> 'w router res" where
  "check_map E r =
     (if mapCheckPending r
      then bindr (refreshAddressMap E True r) (\<lambda>r1. Inr (r1\<lparr>mapCheckPending := False\<rparr>))
      else Inr r)"

section \<open>Transports\<close>

fun forward_all :: "'w router_env \<Rightarrow> u32 list \<Rightarrow> payload \<times> 'w \<Rightarrow> payload \<times> 'w" where
  "forward_all E [] pw = pw"
| "forward_all E (port # ports) (p, w) =
     forward_all E ports
       (if port = max_port E then (p\<lparr>response_status := addr_err E\<rparr>, w) else b_transport E port (p, w))"

definition b_tr :: "'w protocol_ops \<Rightarrow> 'w router_env \<Rightarrow> u32 \<Rightarrow> payload \<Rightarrow> 'w router \<Rightarrow> (payload \<times> 'w router) res" where
  "b_tr P E from p r =
     bindr (check_map E r) (\<lambda>r1.
     case before_b_transport P from (p, rest r1) of (p1, w1) \<Rightarrow>
     bindr (router_decode E r1 p1) (\<lambda>(decode_ok, targets).
       if \<not> decode_ok then Inr (p1\<lparr>response_status := addr_err E\<rparr>, r1\<lparr>rest := w1\<rparr>)
       else (case forward_all E targets (p1, w1) of (p2, w2) \<Rightarrow> Inr (p2, r1\<lparr>rest := w2\<rparr>))))"

definition nb_bw ::
  "'w protocol_ops \<Rightarrow> 'w router_env \<Rightarrow> phase \<Rightarrow> payload \<Rightarrow> 'w router \<Rightarrow> ((sync \<times> phase) \<times> payload \<times> 'w router) res" where
  "nb_bw P E ph p r =
     bindr (check_map E r) (\<lambda>r1.
     bindr (slave_access P ph (p, rest r1)) (\<lambda>(a, p1, w1). Inr (a, p1, r1\<lparr>rest := w1\<rparr>)))"

definition nb_fw ::
  "'w protocol_ops \<Rightarrow> 'w router_env \<Rightarrow> u32 \<Rightarrow> phase \<Rightarrow> payload \<Rightarrow> 'w router \<Rightarrow> ((sync \<times> phase) \<times> payload \<times> 'w router) res" where
  "nb_fw P E from ph p r =
     bindr (check_map E r) (\<lambda>r1.
     bindr (router_decode E r1 p) (\<lambda>(decode_ok, targets).
       let refused = Inr ((TLM_UPDATED, END_REQ), p\<lparr>response_status := addr_err E\<rparr>, r1)
       in if decode_ok
          then (case targets of
                  [] \<Rightarrow> refused
                | port # _ \<Rightarrow>
                    if port = max_port E then refused
                    else bindr (master_access P (router_decode E r1) from ph (p, rest r1))
                           (\<lambda>(a, p1, w1). Inr (a, p1, r1\<lparr>rest := w1\<rparr>)))
          else refused))"

fun debug_all :: "'w router_env \<Rightarrow> u32 list \<Rightarrow> u32 \<Rightarrow> payload \<times> 'w \<Rightarrow> u32 \<times> payload \<times> 'w" where
  "debug_all E [] result (p, w) = (result, p, w)"
| "debug_all E (port # ports) result (p, w) =
     (if port = max_port E then debug_all E ports result (p\<lparr>response_status := addr_err E\<rparr>, w)
      else case dbg_transport E port (p, w) of (n, p1, w1) \<Rightarrow> debug_all E ports (result + n) (p1, w1))"

definition tr_dbg ::
  "'w protocol_ops \<Rightarrow> 'w router_env \<Rightarrow> u32 \<Rightarrow> payload \<Rightarrow> 'w router \<Rightarrow> (u32 \<times> payload \<times> 'w router) res" where
  "tr_dbg P E from p r =
     bindr (check_map E r) (\<lambda>r1.
     bindr (protocol_dbg P (router_decode E r1) from (p, rest r1)) (\<lambda>(_, p1, w1).
     bindr (router_decode E r1 p1) (\<lambda>(decode_ok, targets).
       if \<not> decode_ok then Inr (0, p1\<lparr>response_status := addr_err E\<rparr>, r1\<lparr>rest := w1\<rparr>)
       else (case debug_all E targets 0 (p1, w1) of (n, p2, w2) \<Rightarrow> Inr (n, p2, r1\<lparr>rest := w2\<rparr>)))))"

section \<open>Direct memory regions\<close>

text \<open>The region joins the first one of the same initiator that it overlaps, or is added at the end.\<close>

fun record_region :: "u32 \<Rightarrow> u64 \<Rightarrow> u64 \<Rightarrow> Entry_t list \<Rightarrow> Entry_t list" where
  "record_region from s t [] = [new_Entry s t from]"
| "record_region from s t (e # es) =
     (if port_id e \<noteq> from then e # record_region from s t es
      else case merge_with s t e of
             (True, e') \<Rightarrow> e' # es
           | (False, _) \<Rightarrow> e # record_region from s t es)"

definition get_dmi ::
  "'w protocol_ops \<Rightarrow> 'w router_env \<Rightarrow> u32 \<Rightarrow> dmi \<times> payload \<Rightarrow> 'w router \<Rightarrow> (bool \<times> (dmi \<times> payload) \<times> 'w router) res" where
  "get_dmi P E from dp r =
     bindr (check_map E r) (\<lambda>r1.
     bindr (router_decode E r1 (snd dp)) (\<lambda>(decode_ok, targets).
       if \<not> decode_ok then Inr (False, dp, r1)
       else let port = hd targets in
         bindr (protocol_dmi P from (fst dp, snd dp, rest r1)) (\<lambda>dpw.
         case dmi_transport E port dpw of (granted, d1, p1, w1) \<Rightarrow>
           let r2 = r1\<lparr>rest := w1\<rparr> in
           if \<not> granted then Inr (False, (d1, p1), r2)
           else if end_address d1 < start_address d1 then Inr (False, (d1, p1), r2)
           else Inr (True, (d1, p1), r2\<lparr>m_dmi_tport_entry := (m_dmi_tport_entry r2)
                  (port := record_region from (start_address d1) (end_address d1) (m_dmi_tport_entry r2 port))\<rparr>))))"

text \<open>
  The walk over the regions of the invalidating target, with the initiators told so far; a region
  that the walk splits off is inserted behind the others and so is visited too. A region that
  matches exactly is erased through the iterator that the loop then advances.
\<close>

fun inv_regions ::
  "nat \<Rightarrow> u64 \<Rightarrow> u64 \<Rightarrow> u32 list \<Rightarrow> Entry_t list \<Rightarrow> Entry_t list \<Rightarrow> (u32 list \<times> Entry_t list) res" where
  "inv_regions fuel s t told done [] = Inr (told, done)"
| "inv_regions 0 s t told done (e # es) = Inl OutOfFuel"
| "inv_regions (Suc fuel) s t told done (e # es) =
     (let told1 = (if port_id e \<in> set told then told else told @ [port_id e])
      in if lower_bound e = s \<and> upper_bound e = t then Inl (Undefined ''increment of an erased iterator'')
         else case remove_range s t e of
                (True, e') \<Rightarrow> inv_regions fuel s t told1 (done @ [e']) es
              | (False, _) \<Rightarrow>
                  inv_regions fuel s t told1 (done @ [e\<lparr>upper_bound := s - 1\<rparr>])
                    (es @ [new_Entry (t + 1) (upper_bound e) (port_id e)]))"

text \<open>The result lists the initiators that are told to give up the range.\<close>

definition inv_dmi ::
  "nat \<Rightarrow> 'w protocol_ops \<Rightarrow> u32 \<Rightarrow> u64 \<Rightarrow> u64 \<Rightarrow> 'w router \<Rightarrow> (u32 list \<times> 'w router) res" where
  "inv_dmi fuel P from s t r =
     bindr (protocol_inv P from s t (rest r)) (\<lambda>w.
       if t < s then Inr ([], r\<lparr>rest := w\<rparr>)
       else bindr (inv_regions fuel s t [] [] (m_dmi_tport_entry r from)) (\<lambda>(told, es).
              Inr (told, r\<lparr>rest := w, m_dmi_tport_entry := (m_dmi_tport_entry r)(from := es)\<rparr>)))"

section \<open>A device that moves\<close>

text \<open>
  The callback on the base address of a bound device. The bounds reported for the device keep their
  earlier value when what is bound is neither a router nor a socket with an address.
\<close>

definition plain_payload :: "u64 \<Rightarrow> payload" where
  "plain_payload a = \<lparr>address = a, command = IGNORE_COMMAND, response_status = INCOMPLETE_RESPONSE, data_length = 0,
     bytes_valid = 0, priority = None, txn_states = [], has_txn_states = False, sender_ids = []\<rparr>"

fun device_range :: "other_side \<Rightarrow> u64 \<times> u64 \<Rightarrow> (u64 \<times> u64) res" where
  "device_range (Router m) old = bindr (get_min m) (\<lambda>lo. bindr (get_max m) (\<lambda>hi. Inr (lo, hi)))"
| "device_range (Ranges (r # rs)) old = Inr r"
| "device_range (Ranges []) old = Inr old"
| "device_range Unknown old = Inr old"

fun changed_ports ::
  "other_side list \<Rightarrow> nat \<Rightarrow> u32 list \<Rightarrow> u64 \<times> u64 \<Rightarrow> ((nat \<times> u64 \<times> u64) list \<times> u64 \<times> u64) res" where
  "changed_ports oss i [] old = Inr ([], old)"
| "changed_ports oss i (port # ports) old =
     (if unat port < length oss
      then bindr (device_range (oss ! unat port) old) (\<lambda>now.
           bindr (changed_ports oss i ports now) (\<lambda>(calls, last_range). Inr ((i, now) # calls, last_range)))
      else Inl (Undefined ''init_socket index''))"

fun changed_from ::
  "'w router_env \<Rightarrow> u64 \<Rightarrow> nat list \<Rightarrow> u64 \<times> u64 \<Rightarrow> 'w router \<Rightarrow> ((nat \<times> u64 \<times> u64) list \<times> 'w router) res" where
  "changed_from E addr [] old r = Inr ([], r)"
| "changed_from E addr (i # is) old r =
     bindr (router_decode E r (plain_payload addr)) (\<lambda>(decode_ok, targets).
       if decode_ok
       then bindr (changed_ports (sides E (rest r)) i targets old) (\<lambda>(calls, now).
            bindr (changed_from E addr is now (r\<lparr>mapCheckPending := (targets \<noteq> [] \<or> mapCheckPending r)\<rparr>)) (\<lambda>(calls', r').
              Inr (calls @ calls', r')))
       else changed_from E addr is old r)"

text \<open>The result lists the initiators that are told to give up a range, each with that range.\<close>

definition addressChanged :: "'w router_env \<Rightarrow> u64 \<Rightarrow> u64 \<times> u64 \<Rightarrow> 'w router \<Rightarrow> ((nat \<times> u64 \<times> u64) list \<times> 'w router) res" where
  "addressChanged E addr junk r =
     bindr (refreshAddressMap E False r) (changed_from E addr [0 ..< num_initiators E] junk)"

section \<open>The protocols at the router's port\<close>

text \<open>The protocol that the router falls back to: it forwards at once and refuses direct memory by leaving the program.\<close>

definition dummy_sender :: "nat \<Rightarrow> u32 \<Rightarrow> payload \<Rightarrow> payload" where
  "dummy_sender rid from p =
     (let ids = (if length (sender_ids p) \<le> rid then sender_ids p @ replicate (rid + 1 - length (sender_ids p)) 0 else sender_ids p)
      in p\<lparr>sender_ids := ids[rid := from]\<rparr>)"

definition dummy_master_access ::
  "nat \<Rightarrow> 'w router_env \<Rightarrow> decoder \<Rightarrow> u32 \<Rightarrow> phase \<Rightarrow> payload \<times> 'w \<Rightarrow> ((sync \<times> phase) \<times> payload \<times> 'w) res" where
  "dummy_master_access rid E decode_addr from ph pw =
     (let p = dummy_sender rid from (fst pw)
      in bindr (decode_addr p) (\<lambda>(decode_ok, targets).
           if decode_ok then Inr (fw_transport E (hd targets) ph (p, snd pw))
           else Inr ((TLM_UPDATED, ph), p, snd pw)))"

definition dummy_slave_access ::
  "nat \<Rightarrow> 'w router_env \<Rightarrow> phase \<Rightarrow> payload \<times> 'w \<Rightarrow> ((sync \<times> phase) \<times> payload \<times> 'w) res" where
  "dummy_slave_access rid E ph pw =
     (if rid < length (sender_ids (fst pw)) then Inr (bw_transport E (sender_ids (fst pw) ! rid) ph pw)
      else Inl (Undefined ''sender_ids index''))"

definition dummy_transport_dbg ::
  "nat \<Rightarrow> 'w router_env \<Rightarrow> decoder \<Rightarrow> u32 \<Rightarrow> payload \<times> 'w \<Rightarrow> (u32 \<times> payload \<times> 'w) res" where
  "dummy_transport_dbg rid E decode_addr from pw =
     (let p = dummy_sender rid from (fst pw)
      in bindr (decode_addr p) (\<lambda>(decode_ok, targets).
           if decode_ok then Inr (dbg_transport E (hd targets) (p, snd pw)) else Inr (1, p, snd pw)))"

definition dummy_protocol :: "nat \<Rightarrow> 'w router_env \<Rightarrow> 'w protocol_ops" where
  "dummy_protocol rid E = \<lparr>before_b_transport = (\<lambda>_ pw. pw), master_access = dummy_master_access rid E,
     slave_access = dummy_slave_access rid E, protocol_dbg = dummy_transport_dbg rid E,
     protocol_dmi = (\<lambda>_ _. Inl (Exit 1)), protocol_inv = (\<lambda>_ _ _ _. Inl (Exit 1))\<rparr>"

text \<open>The hooks of the bus protocol beside the accesses: they let everything pass.\<close>

definition simple_bus_hooks :: "'w protocol_ops \<Rightarrow> 'w protocol_ops" where
  "simple_bus_hooks P = P\<lparr>before_b_transport := (\<lambda>_ pw. pw), protocol_dbg := (\<lambda>_ _ pw. Inr (0, pw)),
     protocol_dmi := (\<lambda>_ dpw. Inr dpw), protocol_inv := (\<lambda>_ _ _ w. Inr w)\<rparr>"

section \<open>Configurations of the router's sockets\<close>

text \<open>
  When one of the links of a router's socket has been checked, the configurations of all its links are
  merged into that of the first one, and the result is set on both sockets of the router.
\<close>

fun merge_links :: "nat \<Rightarrow> nat \<Rightarrow> nat list \<Rightarrow> config \<Rightarrow> net \<Rightarrow> (config \<times> net) res" where
  "merge_links N s [] c n = Inr (c, n)"
| "merge_links N s (i # is) c n =
     bindr (get_recent_config s i n) (\<lambda>d.
     bindr (config_merge N True c d) (\<lambda>(_, c', d'). merge_links N s is c' (write_cfg (Link s i) d' n)))"

definition bound_to_initiator :: "nat \<Rightarrow> bind_env \<Rightarrow> nat \<Rightarrow> nat \<Rightarrow> net \<Rightarrow> net res" where
  "bound_to_initiator fuel E target_socket init_socket n =
     bindr (get_recent_config target_socket 0 n) (\<lambda>c.
     bindr (merge_links (num_extensions E) target_socket [1 ..< num_bindings E target_socket] c n) (\<lambda>(conf, n1).
     bindr (set_config fuel E init_socket conf n1) (set_config fuel E target_socket conf)))"

definition bound_to_target :: "nat \<Rightarrow> bind_env \<Rightarrow> nat \<Rightarrow> nat \<Rightarrow> net \<Rightarrow> net res" where
  "bound_to_target fuel E target_socket init_socket n =
     bindr (get_recent_config init_socket 0 n) (\<lambda>c.
     bindr (merge_links (num_extensions E) init_socket [1 ..< num_bindings E init_socket] c n) (\<lambda>(conf, n1).
     bindr (set_config fuel E target_socket conf n1) (set_config fuel E init_socket conf)))"

section \<open>Accesses reach the socket that asked for the address\<close>

lemma check_map_idle [simp]: "\<not> mapCheckPending r \<Longrightarrow> check_map E r = Inr r"
  by (simp add: check_map_def)

text \<open>The port whose socket asked for an address.\<close>

definition asked_port :: "(u64 \<times> u64 \<times> u32) list \<Rightarrow> u64 \<Rightarrow> u32 option" where
  "asked_port qs a = map_option (\<lambda>(_, _, port). port) (find (\<lambda>(lo, hi, _). lo \<le> a \<and> a \<le> hi) qs)"

lemma holds_decode:
  assumes "holds m qs"
  shows "am_decode mp a m = (case asked_port qs a of None \<Rightarrow> (False, mp) | Some port \<Rightarrow> (True, port))"
proof (cases "find (\<lambda>(lo, hi, _). lo \<le> a \<and> a \<le> hi) qs")
  case None
  then have "\<forall>e \<in> set m. \<not> is_in e a"
    using assms by (fastforce simp: holds_def find_None_iff)
  then show ?thesis using None by (simp add: asked_port_def decode_none)
next
  case (Some q)
  then obtain lo hi port where q: "q = (lo, hi, port)" "q \<in> set qs" "lo \<le> a" "a \<le> hi"
    by (force simp: find_Some_iff in_set_conv_nth)
  then have "new_Entry lo hi port \<in> set m" using assms by (force simp: holds_def)
  then show ?thesis using decode_found [of m "new_Entry lo hi port" a mp] assms Some q
    by (simp add: asked_port_def holds_def)
qed

lemma asked_below:
  assumes "asked_port (requests oss i) a = Some port" and "unat i + length oss \<le> unat mp"
  shows "port < mp"
proof -
  have "j < mp" if "(lo, hi, j) \<in> set (requests oss i)" for lo hi j
    using that assms(2)
  proof (induction oss i rule: requests.induct)
    case (2 rs oss i)
    have i: "i < mp" using 2(3) by (simp add: word_less_nat_alt)
    show ?case using 2 i unat_step [OF i] by auto
  next
    case (3 om oss i)
    have i: "i < mp" using 3(3) by (simp add: word_less_nat_alt)
    show ?case using 3 unat_step [OF i] by auto
  next
    case (4 oss i)
    have i: "i < mp" using 4(3) by (simp add: word_less_nat_alt)
    show ?case using 4 unat_step [OF i] by auto
  qed simp
  moreover obtain lo hi where "(lo, hi, port) \<in> set (requests oss i)"
    using assms(1) by (fastforce simp: asked_port_def find_Some_iff in_set_conv_nth)
  ultimately show ?thesis by blast
qed

definition sides_ok :: "'w router_env \<Rightarrow> 'w \<Rightarrow> bool" where
  "sides_ok E w \<longleftrightarrow> (\<forall>os \<in> set (sides E w). \<forall>om. os \<noteq> Router om) \<and> length (sides E w) \<le> unat (max_port E) \<and>
     requests_disjoint (requests (sides E w) 0)"

text \<open>The map in use holds what the sockets asked for.\<close>

definition router_holds :: "'w router_env \<Rightarrow> (u64 \<times> u64 \<times> u32) list \<Rightarrow> 'w router \<Rightarrow> bool" where
  "router_holds E qs r \<longleftrightarrow> \<not> mapCheckPending r \<and> (\<exists>m. m_addressMap r = Some m \<and> holds m qs)"

lemma router_holds_decode:
  "router_holds E qs r \<Longrightarrow> router_decode E r p =
    Inr (case asked_port qs (address p) of None \<Rightarrow> (False, [max_port E]) | Some port \<Rightarrow> (True, [port]))"
  by (auto simp: router_holds_def router_decode_def holds_decode split: option.splits)

lemma generate_sides:
  assumes "sides_ok E w"
  shows "\<exists>m. generateMap (max_port E) (sides E w) 0 True [] = Inr m \<and> holds m (requests (sides E w) 0)"
  using generate_holds [of "[]" "[]" "sides E w" 0 "max_port E"] assms
  by (simp add: sides_ok_def holds_def map_ok_def)

lemma elaboration_holds:
  assumes "sides_ok E w"
  shows "\<exists>r. router_end_of_elaboration E (new_router w) = Inr r \<and> router_holds E (requests (sides E w) 0) r"
  using generate_sides [OF assms] by (auto simp: router_end_of_elaboration_def new_router_def router_holds_def)

lemma refresh_holds:
  assumes "sides_ok E (rest r)" and "mapCheckPending r"
  shows "\<exists>r1. check_map E r = Inr r1 \<and> router_holds E (requests (sides E (rest r)) 0) r1 \<and> rest r1 = rest r"
  using generate_sides [OF assms(1)] assms(2) by (auto simp: check_map_def refreshAddressMap_def router_holds_def)

text \<open>
  C2. When the sockets bound to the router ask for disjoint ranges, the router elaborates without an error,
  and from then on a blocking transaction is handed to exactly the target whose socket asked for
  its address, once, and a non-blocking one to the protocol; an address that nobody asked
  for is answered with the address error and reaches neither a target nor the protocol. The same holds
  after a refresh of the map.
\<close>

theorem router_delivers:
  assumes "sides_ok E w"
  defines "asked a \<equiv> asked_port (requests (sides E w) 0) a"
  shows "\<exists>r0. router_end_of_elaboration E (new_router w) = Inr r0 \<and>
    (\<forall>r. mapCheckPending r \<and> rest r = w \<longrightarrow> (\<exists>r1. check_map E r = Inr r1 \<and> m_addressMap r1 = m_addressMap r0)) \<and>
    (\<forall>P from p w1. b_tr P E from p (r0\<lparr>rest := w1\<rparr>) =
       (let (p1, w2) = before_b_transport P from (p, w1);
            (p2, w3) = (case asked (address p1) of
               Some port \<Rightarrow> b_transport E port (p1, w2)
             | None \<Rightarrow> (p1\<lparr>response_status := addr_err E\<rparr>, w2))
        in Inr (p2, r0\<lparr>rest := w3\<rparr>))) \<and>
    (\<forall>P from ph p w1. nb_fw P E from ph p (r0\<lparr>rest := w1\<rparr>) =
       (case asked (address p) of
          Some port \<Rightarrow> bindr (master_access P (router_decode E r0) from ph (p, w1)) (\<lambda>(a, p1, w2). Inr (a, p1, r0\<lparr>rest := w2\<rparr>))
        | None \<Rightarrow> Inr ((TLM_UPDATED, END_REQ), p\<lparr>response_status := addr_err E\<rparr>, r0\<lparr>rest := w1\<rparr>)))"
proof -
  let ?qs = "requests (sides E w) 0"
  obtain m where m: "generateMap (max_port E) (sides E w) 0 True [] = Inr m" "holds m ?qs"
    using generate_sides [OF assms(1)] by blast
  define r0 where "r0 = (new_router w)\<lparr>m_addressMap := Some m, m_EOEdone := True\<rparr>"
  have e: "router_end_of_elaboration E (new_router w) = Inr r0"
    using m by (simp add: router_end_of_elaboration_def r0_def new_router_def)
  have dec: "router_decode E (r0\<lparr>rest := w1\<rparr>) p =
      Inr (case asked (address p) of None \<Rightarrow> (False, [max_port E]) | Some port \<Rightarrow> (True, [port]))" for p w1
    using router_holds_decode [of E ?qs "r0\<lparr>rest := w1\<rparr>"] m(2)
    by (simp add: router_holds_def r0_def asked_def new_router_def)
  have dec0: "router_decode E (r0\<lparr>rest := w1\<rparr>) = router_decode E r0" for w1
    by (simp add: router_decode_def fun_eq_iff)
  have idle: "check_map E (r0\<lparr>rest := w1\<rparr>) = Inr (r0\<lparr>rest := w1\<rparr>)" for w1
    by (simp add: r0_def new_router_def)
  have below: "port \<noteq> max_port E" if "asked a = Some port" for a port
    using asked_below [of "sides E w" 0 a port "max_port E"] that assms(1) by (auto simp: asked_def sides_ok_def)
  have b: "b_tr P E from p (r0\<lparr>rest := w1\<rparr>) =
       (let (p1, w2) = before_b_transport P from (p, w1);
            (p2, w3) = (case asked (address p1) of
               Some port \<Rightarrow> b_transport E port (p1, w2)
             | None \<Rightarrow> (p1\<lparr>response_status := addr_err E\<rparr>, w2))
        in Inr (p2, r0\<lparr>rest := w3\<rparr>))" for P "from" p w1
  proof -
    obtain p1 w2 where o: "before_b_transport P from (p, w1) = (p1, w2)" by force
    show ?thesis using below [of "address p1"]
      by (cases "asked (address p1)") (simp_all add: b_tr_def idle dec o split: prod.splits)
  qed
  moreover have "nb_fw P E from ph p (r0\<lparr>rest := w1\<rparr>) =
       (case asked (address p) of
          Some port \<Rightarrow> bindr (master_access P (router_decode E r0) from ph (p, w1)) (\<lambda>(a, p1, w2). Inr (a, p1, r0\<lparr>rest := w2\<rparr>))
        | None \<Rightarrow> Inr ((TLM_UPDATED, END_REQ), p\<lparr>response_status := addr_err E\<rparr>, r0\<lparr>rest := w1\<rparr>))" for P "from" ph p w1
    using below [of "address p"]
    by (cases "asked (address p)") (simp_all add: nb_fw_def idle dec0 dec [unfolded dec0])
  moreover have "\<exists>r1. check_map E r = Inr r1 \<and> m_addressMap r1 = m_addressMap r0" if "mapCheckPending r \<and> rest r = w" for r
    using that m by (auto simp: check_map_def refreshAddressMap_def r0_def)
  ultimately show ?thesis using e by blast
qed

text \<open>A device at \<open>0x100\<close>, one at \<open>0x400\<close>; a target counts the transactions it gets.\<close>

definition sample_router_env :: "nat router_env" where
  "sample_router_env = \<lparr>max_port = 255, addr_err = Error_response 2,
     sides = (\<lambda>_. [Ranges [(0x100, 0x1FF)], Unknown, Ranges [(0x400, 0x4FF)]]),
     b_transport = (\<lambda>port (p, w). (p\<lparr>response_status := OK_RESPONSE\<rparr>, w + 1)),
     dbg_transport = (\<lambda>port (p, w). (4, p, w + 1)),
     dmi_transport = (\<lambda>port (d, p, w). (True, d, p, w)),
     fw_transport = (\<lambda>port ph (p, w). ((TLM_ACCEPTED, ph), p, w + 1)),
     bw_transport = (\<lambda>port ph (p, w). ((TLM_ACCEPTED, ph), p, w)), num_initiators = 2\<rparr>"

lemma sample_sides_ok: "sides_ok sample_router_env w"
  by (simp add: sides_ok_def sample_router_env_def requests_disjoint_def)

theorem router_delivers_witness:
  "\<exists>r0. router_end_of_elaboration sample_router_env (new_router 0) = Inr r0 \<and>
    b_tr (dummy_protocol 0 sample_router_env) sample_router_env 1 (plain_payload 0x410) r0 =
      Inr ((plain_payload 0x410)\<lparr>response_status := OK_RESPONSE\<rparr>, r0\<lparr>rest := 1\<rparr>) \<and>
    b_tr (dummy_protocol 0 sample_router_env) sample_router_env 1 (plain_payload 0x300) r0 =
      Inr ((plain_payload 0x300)\<lparr>response_status := Error_response 2\<rparr>, r0)"
proof -
  obtain r0 where r0: "router_end_of_elaboration sample_router_env (new_router 0) = Inr r0"
    and b: "\<And>P from p w1. b_tr P sample_router_env from p (r0\<lparr>rest := w1\<rparr>) =
       (let (p1, w2) = before_b_transport P from (p, w1);
            (p2, w3) = (case asked_port (requests (sides sample_router_env 0) 0) (address p1) of
               Some port \<Rightarrow> b_transport sample_router_env port (p1, w2)
             | None \<Rightarrow> (p1\<lparr>response_status := addr_err sample_router_env\<rparr>, w2))
        in Inr (p2, r0\<lparr>rest := w3\<rparr>))"
    using router_delivers [OF sample_sides_ok, of 0] by auto
  have w: "rest r0 = 0" using r0 by (auto simp: router_end_of_elaboration_def new_router_def bindr_eq_Inr)
  have "r0\<lparr>rest := 0\<rparr> = r0" using w by (cases r0) simp
  then show ?thesis using r0 b [of "dummy_protocol 0 sample_router_env" 1 _ 0]
    by (simp add: asked_port_def sample_router_env_def dummy_protocol_def plain_payload_def)
qed

section \<open>Invalidation of direct memory\<close>

lemma record_region_ids: "port_id ` set (record_region from s t es) = insert from (port_id ` set es)"
proof (induction es)
  case (Cons e es)
  obtain b e' where m: "merge_with s t e = (b, e')" by force
  then have "port_id e' = port_id e" by (auto simp: merge_with_def Let_def split: if_splits)
  then show ?case using Cons m by (cases b) auto
qed (simp add: new_Entry_def)

lemma remove_range_id: "remove_range s t e = (b, e') \<Longrightarrow> port_id e' = port_id e"
  by (auto simp: remove_range_def Let_def split: if_splits)

lemma inv_regions_ids:
  assumes "inv_regions fuel s t told done es = Inr (told', es')" and "distinct told"
  shows "set told' = set told \<union> port_id ` set es \<and> distinct told' \<and> port_id ` set es' = port_id ` (set done \<union> set es)"
  using assms
proof (induction fuel arbitrary: told "done" es)
  case 0
  then show ?case by (cases es) auto
next
  case (Suc fuel)
  show ?case
  proof (cases es)
    case (Cons e es1)
    obtain b e' where r: "remove_range s t e = (b, e')" by force
    have ne: "\<not> (lower_bound e = s \<and> upper_bound e = t)" using Suc.prems by (auto simp: Cons Let_def)
    let ?told = "if port_id e \<in> set told then told else told @ [port_id e]"
    have d: "distinct ?told" using Suc.prems(2) by simp
    show ?thesis
    proof (cases b)
      case True
      then have "inv_regions fuel s t ?told (done @ [e']) es1 = Inr (told', es')"
        using Suc.prems(1) ne by (simp add: Cons r Let_def)
      from Suc.IH [OF this d] show ?thesis using remove_range_id [OF r] by (auto simp: Cons)
    next
      case False
      then have "inv_regions fuel s t ?told (done @ [e\<lparr>upper_bound := s - 1\<rparr>])
          (es1 @ [new_Entry (t + 1) (upper_bound e) (port_id e)]) = Inr (told', es')"
        using Suc.prems(1) ne by (simp add: Cons r Let_def)
      from Suc.IH [OF this d] show ?thesis by (auto simp: Cons)
    qed
  qed (use Suc.prems in auto)
qed

text \<open>
  The operations of the router as steps with what they make known: a target's grant of direct memory to
  an initiator, an invalidation by a target with the initiators that are told, or nothing. An
  invalidation is a step when it returns, with whatever number of visits; one that does not return,
  or that is undefined, has no next state and ends the history.
\<close>

datatype router_event = Silent | Granted u32 u32 | Invalidated u32 "u32 list"

inductive router_step ::
  "'w protocol_ops \<Rightarrow> 'w router_env \<Rightarrow> router_event \<Rightarrow> 'w router \<Rightarrow> 'w router \<Rightarrow> bool"
  for P E where
  blocking: "b_tr P E from p r = Inr (p', r') \<Longrightarrow> router_step P E Silent r r'"
| forward: "nb_fw P E from ph p r = Inr (a, p', r') \<Longrightarrow> router_step P E Silent r r'"
| backward: "nb_bw P E ph p r = Inr (a, p', r') \<Longrightarrow> router_step P E Silent r r'"
| debug: "tr_dbg P E from p r = Inr (k, p', r') \<Longrightarrow> router_step P E Silent r r'"
| refused: "get_dmi P E from dp r = Inr (False, dp', r') \<Longrightarrow> router_step P E Silent r r'"
| granted: "get_dmi P E from dp r = Inr (True, dp', r') \<Longrightarrow> check_map E r = Inr r1 \<Longrightarrow>
    router_decode E r1 (snd dp) = Inr (True, port # ports) \<Longrightarrow> router_step P E (Granted port from) r r'"
| invalidate: "inv_dmi fuel P port s t r = Inr (told, r') \<Longrightarrow> s \<le> t \<Longrightarrow> router_step P E (Invalidated port told) r r'"
| backwards: "inv_dmi fuel P port s t r = Inr (told, r') \<Longrightarrow> t < s \<Longrightarrow> router_step P E Silent r r'"
| moved: "addressChanged E addr junk r = Inr (calls, r') \<Longrightarrow> router_step P E Silent r r'"
| assigned: "assign_address E low high port r = Inr r' \<Longrightarrow> router_step P E Silent r r'"
| elaborated: "router_end_of_elaboration E r = Inr r' \<Longrightarrow> router_step P E Silent r r'"
| outside: "r' = r\<lparr>rest := w\<rparr> \<Longrightarrow> router_step P E Silent r r'"

inductive router_run ::
  "'w protocol_ops \<Rightarrow> 'w router_env \<Rightarrow> router_event list \<Rightarrow> 'w router \<Rightarrow> 'w router \<Rightarrow> bool"
  for P E where
  start: "router_run P E [] r r"
| step: "router_run P E es r r1 \<Longrightarrow> router_step P E e r1 r2 \<Longrightarrow> router_run P E (es @ [e]) r r2"


lemma refresh_table: "refreshAddressMap E ck r = Inr r' \<Longrightarrow> m_dmi_tport_entry r' = m_dmi_tport_entry r"
  by (auto simp: refreshAddressMap_def bindr_eq_Inr)

lemma check_map_table: "check_map E r = Inr r' \<Longrightarrow> m_dmi_tport_entry r' = m_dmi_tport_entry r"
  by (auto simp: check_map_def bindr_eq_Inr dest: refresh_table split: if_splits)

lemma changed_from_table: "changed_from E addr is old r = Inr (calls, r') \<Longrightarrow> m_dmi_tport_entry r' = m_dmi_tport_entry r"
  by (induction E addr "is" old r arbitrary: calls rule: changed_from.induct)
    (fastforce simp: bindr_eq_Inr split: if_splits)+

text \<open>What an operation does to the table of regions.\<close>

lemma b_tr_table:
  assumes "b_tr P E from p r = Inr (p', r')"
  shows "m_dmi_tport_entry r' = m_dmi_tport_entry r"
proof -
  obtain r1 where c: "check_map E r = Inr r1" using assms by (cases "check_map E r") (auto simp: b_tr_def)
  obtain p1 w1 where o: "before_b_transport P from (p, rest r1) = (p1, w1)" by force
  show ?thesis using assms check_map_table [OF c]
    by (auto simp: b_tr_def c o bindr_eq_Inr split: if_splits prod.splits)
qed

lemma nb_fw_table: "nb_fw P E from ph p r = Inr (a, p', r') \<Longrightarrow> m_dmi_tport_entry r' = m_dmi_tport_entry r"
  by (auto simp: nb_fw_def bindr_eq_Inr Let_def dest!: check_map_table split: if_splits list.splits)

lemma nb_bw_table: "nb_bw P E ph p r = Inr (a, p', r') \<Longrightarrow> m_dmi_tport_entry r' = m_dmi_tport_entry r"
  by (auto simp: nb_bw_def bindr_eq_Inr dest!: check_map_table)

lemma tr_dbg_table: "tr_dbg P E from p r = Inr (k, p', r') \<Longrightarrow> m_dmi_tport_entry r' = m_dmi_tport_entry r"
  by (auto simp: tr_dbg_def bindr_eq_Inr dest!: check_map_table split: if_splits prod.splits)

lemma get_dmi_table:
  assumes "get_dmi P E from dp r = Inr (b, dp', r')" and c: "check_map E r = Inr r1"
    and d: "router_decode E r1 (snd dp) = Inr (ok, targets)"
  shows "m_dmi_tport_entry r' = (if b
    then (m_dmi_tport_entry r)(hd targets := record_region from (start_address (fst dp')) (end_address (fst dp'))
           (m_dmi_tport_entry r (hd targets)))
    else m_dmi_tport_entry r)"
proof (cases ok)
  case True
  then obtain dpw where p: "protocol_dmi P from (fst dp, snd dp, rest r1) = Inr dpw"
    using assms by (cases "protocol_dmi P from (fst dp, snd dp, rest r1)") (auto simp: get_dmi_def Let_def)
  obtain g d1 p1 w1 where t: "dmi_transport E (hd targets) dpw = (g, d1, p1, w1)" by (metis prod_cases4)
  show ?thesis using assms(1) True check_map_table [OF c]
    by (auto simp: get_dmi_def c d p t Let_def split: if_splits)
next
  case False
  then show ?thesis using assms check_map_table [OF c] by (simp add: get_dmi_def)
qed

lemma get_dmi_refused_table:
  assumes "get_dmi P E from dp r = Inr (False, dp', r')"
  shows "m_dmi_tport_entry r' = m_dmi_tport_entry r"
proof -
  obtain r1 where c: "check_map E r = Inr r1" using assms by (cases "check_map E r") (auto simp: get_dmi_def)
  then obtain ok targets where "router_decode E r1 (snd dp) = Inr (ok, targets)"
    using assms by (cases "router_decode E r1 (snd dp)") (auto simp: get_dmi_def)
  then show ?thesis using get_dmi_table [OF assms c] by simp
qed

lemma get_dmi_granted_table:
  assumes "get_dmi P E from dp r = Inr (True, dp', r')" and "check_map E r = Inr r1"
    and "router_decode E r1 (snd dp) = Inr (True, port # ports)"
  shows "m_dmi_tport_entry r' = (m_dmi_tport_entry r)
    (port := record_region from (start_address (fst dp')) (end_address (fst dp')) (m_dmi_tport_entry r port))"
  using get_dmi_table [OF assms] by simp

lemma inv_dmi_table:
  assumes "inv_dmi fuel P port s t r = Inr (told, r')" and "s \<le> t"
  shows "set told = port_id ` set (m_dmi_tport_entry r port) \<and> distinct told \<and>
    (\<forall>q. port_id ` set (m_dmi_tport_entry r' q) = port_id ` set (m_dmi_tport_entry r q))"
proof -
  obtain w es where w: "inv_regions fuel s t [] [] (m_dmi_tport_entry r port) = Inr (told, es)"
    "r' = r\<lparr>rest := w, m_dmi_tport_entry := (m_dmi_tport_entry r)(port := es)\<rparr>"
    using assms by (auto simp: inv_dmi_def bindr_eq_Inr split: if_splits prod.splits)
  show ?thesis using inv_regions_ids [OF w(1)] w(2) by auto
qed

text \<open>The table names for each target exactly the initiators that it has granted a region.\<close>

definition dmi_known :: "router_event list \<Rightarrow> 'w router \<Rightarrow> bool" where
  "dmi_known es r \<longleftrightarrow> (\<forall>port. port_id ` set (m_dmi_tport_entry r port) = {f. Granted port f \<in> set es})"

lemma dmi_known_silent:
  "m_dmi_tport_entry r' = m_dmi_tport_entry r \<Longrightarrow> dmi_known es r \<Longrightarrow> dmi_known (es @ [Silent]) r'"
  by (simp add: dmi_known_def)

lemma inv_dmi_backwards_table: "inv_dmi fuel P port s t r = Inr (told, r') \<Longrightarrow> t < s \<Longrightarrow> m_dmi_tport_entry r' = m_dmi_tport_entry r"
  by (auto simp: inv_dmi_def bindr_eq_Inr)

lemma addressChanged_table: "addressChanged E addr junk r = Inr (calls, r') \<Longrightarrow> m_dmi_tport_entry r' = m_dmi_tport_entry r"
  by (auto simp: addressChanged_def bindr_eq_Inr dest!: refresh_table changed_from_table)

lemma assign_address_table: "assign_address E low high port r = Inr r' \<Longrightarrow> m_dmi_tport_entry r' = m_dmi_tport_entry r"
  by (auto simp: assign_address_def bindr_eq_Inr)

lemma elaboration_table: "router_end_of_elaboration E r = Inr r' \<Longrightarrow> m_dmi_tport_entry r' = m_dmi_tport_entry r"
  by (auto simp: router_end_of_elaboration_def bindr_eq_Inr split: if_splits)

lemmas silent_tables = b_tr_table nb_fw_table nb_bw_table tr_dbg_table get_dmi_refused_table
  inv_dmi_backwards_table addressChanged_table assign_address_table elaboration_table

lemma dmi_known_step:
  assumes "router_step P E e r r'" and "dmi_known es r"
  shows "dmi_known (es @ [e]) r'"
  using assms(1)
proof cases
  case (granted "from" dp dp' r1 port ports)
  then have "port_id ` set (m_dmi_tport_entry r' q) =
      (if q = port then insert from (port_id ` set (m_dmi_tport_entry r port)) else port_id ` set (m_dmi_tport_entry r q))" for q
    using get_dmi_granted_table [OF granted(2-4)] by (simp add: record_region_ids)
  then show ?thesis using assms(2) granted(1) by (auto simp: dmi_known_def)
next
  case (invalidate port s t told)
  then show ?thesis using assms(2) inv_dmi_table [OF invalidate(2,3)] by (simp add: dmi_known_def)
qed (auto intro!: dmi_known_silent [OF _ assms(2)] intro: silent_tables)

lemma dmi_known_run:
  assumes "router_run P E es (new_router w) r"
  shows "dmi_known es r"
  using assms
proof (induction es "new_router w" r rule: router_run.induct)
  case start
  then show ?case by (simp add: dmi_known_def new_router_def)
qed (rule dmi_known_step)

text \<open>
  How the walk over the regions ends. It is undefined when a region is exactly the invalidated
  range. When a region and the range both reach the last address and the region starts first, what
  is split off starts at 0 and is split again, for ever. Otherwise every region is visited once, and
  what is split off from it once more.
\<close>

definition erased_by :: "u64 \<Rightarrow> u64 \<Rightarrow> Entry_t \<Rightarrow> bool" where
  "erased_by s t e \<longleftrightarrow> lower_bound e = s \<and> upper_bound e = t"

definition split_for_ever :: "u64 \<Rightarrow> u64 \<Rightarrow> Entry_t \<Rightarrow> bool" where
  "split_for_ever s t e \<longleftrightarrow> t = - 1 \<and> upper_bound e = - 1 \<and> lower_bound e < s"

definition cut_weight :: "u64 \<Rightarrow> Entry_t list \<Rightarrow> nat" where
  "cut_weight t es = sum_list (map (\<lambda>e. if t < lower_bound e then 1 else 2) es)"

lemma cut_weight_bound: "cut_weight t es \<le> 2 * length es"
  by (induction es) (simp_all add: cut_weight_def)

lemma remove_range_refuses:
  "s \<le> t \<Longrightarrow> remove_range s t e = (False, e') \<longleftrightarrow> e' = e \<and> lower_bound e \<le> s \<and> t \<le> upper_bound e"
  by (auto simp: remove_range_def Let_def not_less)

lemma inv_regions_erased:
  assumes "\<exists>e \<in> set es. erased_by s t e" and "length es \<le> fuel"
  shows "inv_regions fuel s t told done (es @ ys) = Inl (Undefined ''increment of an erased iterator'')"
  using assms
proof (induction es arbitrary: fuel told "done" ys)
  case (Cons e es)
  then obtain k where k: "fuel = Suc k" "length es \<le> k" by (cases fuel) auto
  show ?case
  proof (cases "erased_by s t e")
    case False
    then have "\<exists>x \<in> set es. erased_by s t x" using Cons.prems by simp
    note IH = Cons.IH [OF this k(2)]
    obtain b e' where "remove_range s t e = (b, e')" by force
    then show ?thesis using False IH k(1) by (cases b) (simp_all add: Let_def erased_by_def)
  qed (simp add: k erased_by_def)
qed simp

lemma inv_regions_runs_on:
  assumes "s \<le> t" and "\<not> (\<exists>e \<in> set es. erased_by s t e)" and "\<exists>e \<in> set es. split_for_ever s t e"
  shows "inv_regions fuel s t told done es = Inl OutOfFuel"
  using assms(2,3)
proof (induction fuel arbitrary: told "done" es)
  case 0
  then show ?case by (cases es) auto
next
  case (Suc fuel)
  then obtain e es1 where es: "es = e # es1" by (cases es) auto
  let ?n = "new_Entry (t + 1) (upper_bound e) (port_id e)"
  have ne: "\<not> erased_by s t e" and es1: "\<not> (\<exists>x \<in> set es1. erased_by s t x)"
    and t: "t = - 1" using Suc.prems es by (auto simp: split_for_ever_def)
  obtain b e' where r: "remove_range s t e = (b, e')" by force
  show ?case
  proof (cases b)
    case True
    then have "\<not> split_for_ever s t e"
      using r remove_range_refuses [OF assms(1), of e e] by (auto simp: split_for_ever_def)
    then have "\<exists>x \<in> set es1. split_for_ever s t x" using Suc.prems es by auto
    then show ?thesis using Suc.IH [OF es1] True r ne es by (simp add: Let_def erased_by_def)
  next
    case False
    then have e: "lower_bound e < s" "upper_bound e = - 1"
      using r remove_range_refuses [OF assms(1), of e e'] ne t by (auto simp: erased_by_def word_order.extremum_unique)
    then have "0 < s" by (metis word_gt_0 word_not_simps(1))
    with e t have "\<not> erased_by s t ?n" "split_for_ever s t ?n"
      by (auto simp: erased_by_def split_for_ever_def)
    then show ?thesis using Suc.IH [of "es1 @ [?n]"] es1 False r ne es by (simp add: Let_def erased_by_def)
  qed
qed

lemma inv_regions_returns:
  assumes "s \<le> t" and "\<forall>e \<in> set es. \<not> erased_by s t e \<and> \<not> split_for_ever s t e" and "cut_weight t es \<le> fuel"
  shows "\<exists>told' es'. inv_regions fuel s t told done es = Inr (told', es')"
  using assms(2,3)
proof (induction fuel arbitrary: told "done" es)
  case 0
  then have "es = []" by (cases es) (auto simp: cut_weight_def split: if_splits)
  then show ?case by simp
next
  case (Suc fuel)
  show ?case
  proof (cases es)
    case (Cons e es1)
    let ?n = "new_Entry (t + 1) (upper_bound e) (port_id e)"
    have ne: "\<not> erased_by s t e" and nf: "\<not> split_for_ever s t e"
      and es1: "\<forall>e \<in> set es1. \<not> erased_by s t e \<and> \<not> split_for_ever s t e" using Suc.prems Cons by simp_all
    obtain b e' where r: "remove_range s t e = (b, e')" by force
    show ?thesis
    proof (cases b)
      case True
      have "cut_weight t es1 \<le> fuel" using Suc.prems(2) by (simp add: Cons cut_weight_def split: if_splits)
      then show ?thesis using Suc.IH [OF es1] True r ne by (simp add: Cons Let_def erased_by_def)
    next
      case False
      then have e: "lower_bound e \<le> s" "t \<le> upper_bound e" using r remove_range_refuses [OF assms(1)] by auto
      with nf ne have "t \<noteq> - 1"
        by (auto simp: erased_by_def split_for_ever_def word_order.extremum_unique)
      then have t1: "t < t + 1" using above_iff [of t "- 1" "t + 1"] by (simp add: word_order.not_eq_extremum)
      then have n: "\<not> erased_by s t ?n" "\<not> split_for_ever s t ?n"
        using assms(1) \<open>t \<noteq> - 1\<close> by (auto simp: erased_by_def split_for_ever_def)
      have "\<not> t < lower_bound e" using e(1) assms(1) by simp
      then have "cut_weight t (es1 @ [?n]) \<le> fuel" using Suc.prems(2) t1 by (simp add: Cons cut_weight_def)
      then show ?thesis using Suc.IH [of "es1 @ [?n]"] es1 n False r ne by (simp add: Cons Let_def erased_by_def)
    qed
  qed simp
qed

text \<open>
  C12. Take any history of the router, whatever was granted, merged, cut or split in it and however
  often the map was refreshed, and an invalidation of a range of direct memory by a target after it
  (a protocol that accepts it). There are three cases. When a region recorded for the target is
  exactly the range, the walk is undefined: it advances an iterator that it erased. Otherwise, when
  a recorded region and the range both end at the last address and the region starts before the
  range, the walk never returns. In all other cases it returns after at most two visits for each
  recorded region, and it has told each initiator that this target has ever granted a region,
  exactly once, and nobody else.
\<close>

theorem dmi_invalidation_reaches_holders:
  assumes "router_run P E es (new_router w) r" and "protocol_inv P port s t (rest r) = Inr w1" and "s \<le> t"
    and "2 * length (m_dmi_tport_entry r port) \<le> fuel"
  shows "if \<exists>e \<in> set (m_dmi_tport_entry r port). erased_by s t e
    then inv_dmi fuel P port s t r = Inl (Undefined ''increment of an erased iterator'')
    else if \<exists>e \<in> set (m_dmi_tport_entry r port). split_for_ever s t e
    then \<forall>fuel'. inv_dmi fuel' P port s t r = Inl OutOfFuel
    else \<exists>told r'. inv_dmi fuel P port s t r = Inr (told, r') \<and>
      distinct told \<and> (\<forall>f. f \<in> set told \<longleftrightarrow> Granted port f \<in> set es)"
proof -
  let ?es = "m_dmi_tport_entry r port"
  have st: "\<not> t < s" using assms(3) by simp
  consider (erased) "\<exists>e \<in> set ?es. erased_by s t e"
    | (on) "\<not> (\<exists>e \<in> set ?es. erased_by s t e)" "\<exists>e \<in> set ?es. split_for_ever s t e"
    | (ends) "\<forall>e \<in> set ?es. \<not> erased_by s t e \<and> \<not> split_for_ever s t e"
    by blast
  then show ?thesis
  proof cases
    case erased
    then show ?thesis using inv_regions_erased [OF erased, of fuel "[]" "[]" "[]"] assms(2,4) st by (simp add: inv_dmi_def)
  next
    case on
    then show ?thesis using inv_regions_runs_on [OF assms(3) on] assms(2) st by (simp add: inv_dmi_def)
  next
    case ends
    have "cut_weight t ?es \<le> fuel" using cut_weight_bound assms(4) le_trans by blast
    from inv_regions_returns [OF assms(3) ends this, of "[]" "[]"] obtain told es' where
      "inv_regions fuel s t [] [] ?es = Inr (told, es')" by blast
    then obtain r' where i: "inv_dmi fuel P port s t r = Inr (told, r')"
      using assms(2) st by (simp add: inv_dmi_def)
    have "dmi_known es r" using assms(1) by (rule dmi_known_run)
    then have "distinct told \<and> (\<forall>f. f \<in> set told \<longleftrightarrow> Granted port f \<in> set es)"
      using inv_dmi_table [OF i assms(3)] by (auto simp: dmi_known_def)
    then show ?thesis using i ends by auto
  qed
qed

text \<open>
  Initiator 1 is granted the region of the first device, which later takes back a part of it; and
  taking back exactly the region is undefined.
\<close>

theorem dmi_invalidation_reaches_holders_witness:
  "\<exists>r. router_run (simple_bus_hooks (dummy_protocol 0 sample_router_env)) sample_router_env
         [Silent, Granted 0 1] (new_router 0) r \<and>
       (\<exists>told r'. inv_dmi 2 (simple_bus_hooks (dummy_protocol 0 sample_router_env)) 0 0x120 0x12F r = Inr (told, r') \<and>
          distinct told \<and> set told = {1}) \<and>
       inv_dmi 2 (simple_bus_hooks (dummy_protocol 0 sample_router_env)) 0 0x100 0x1FF r =
         Inl (Undefined ''increment of an erased iterator'')"
proof -
  let ?P = "simple_bus_hooks (dummy_protocol 0 sample_router_env)" and ?E = sample_router_env
  obtain r0 where r0: "router_end_of_elaboration ?E (new_router 0) = Inr r0" "router_holds ?E (requests (sides ?E 0) 0) r0"
    using elaboration_holds [OF sample_sides_ok, of 0] by blast
  let ?d = "\<lparr>start_address = 0x100, end_address = 0x1FF\<rparr>"
  let ?r1 = "r0\<lparr>m_dmi_tport_entry := (m_dmi_tport_entry r0)(0 := [new_Entry 0x100 0x1FF 1])\<rparr>"
  have t0: "m_dmi_tport_entry r0 = (\<lambda>_. [])" using elaboration_table [OF r0(1)] by (simp add: new_router_def)
  have dec: "router_decode ?E r0 (plain_payload 0x110) = Inr (True, [0])"
    using router_holds_decode [OF r0(2)] by (simp add: asked_port_def sample_router_env_def plain_payload_def)
  have idle: "check_map ?E r0 = Inr r0" using r0(2) by (simp add: router_holds_def)
  have g: "get_dmi ?P ?E 1 (?d, plain_payload 0x110) r0 = Inr (True, (?d, plain_payload 0x110), ?r1)"
    by (simp add: get_dmi_def idle dec simple_bus_hooks_def t0 Let_def) (simp add: sample_router_env_def t0)
  have "router_run ?P ?E (([] @ [Silent]) @ [Granted 0 1]) (new_router 0) ?r1"
    by (rule router_run.step [OF router_run.step [OF router_run.start]])
      (rule router_step.elaborated [OF r0(1)], rule router_step.granted [OF g idle], simp add: dec)
  then have run: "router_run ?P ?E [Silent, Granted 0 1] (new_router 0) ?r1" by simp
  have p: "protocol_inv ?P 0 s t (rest ?r1) = Inr (rest r0)" for s t by (simp add: simple_bus_hooks_def)
  have "\<exists>told r'. inv_dmi 2 ?P 0 0x120 0x12F ?r1 = Inr (told, r') \<and> distinct told \<and> set told = {1}"
    using dmi_invalidation_reaches_holders [OF run p, of "0x120" "0x12F" 2]
    by (auto simp: erased_by_def split_for_ever_def)
  moreover have "inv_dmi 2 ?P 0 0x100 0x1FF ?r1 = Inl (Undefined ''increment of an erased iterator'')"
    using dmi_invalidation_reaches_holders [OF run p, of "0x100" "0x1FF" 2] by (simp add: erased_by_def)
  ultimately show ?thesis using run by blast
qed

text \<open>The addresses on which an initiator is recorded.\<close>

definition regions :: "u32 \<Rightarrow> Entry_t list \<Rightarrow> u64 set" where
  "regions f es = (\<Union>e \<in> {e \<in> set es. port_id e = f}. range e)"

lemma regions_simps [simp]:
  "regions f [] = {}" "regions f (e # es) = (if port_id e = f then range e else {}) \<union> regions f es"
  "regions f (es @ es') = regions f es \<union> regions f es'"
  by (auto simp: regions_def)

definition cuttable :: "u64 \<Rightarrow> u64 \<Rightarrow> Entry_t \<Rightarrow> bool" where
  "cuttable s t e \<longleftrightarrow> t < lower_bound e \<or> (lower_bound e \<le> upper_bound e \<and> \<not> range e \<subseteq> {s .. t})"

lemma cut_cases:
  assumes "0 < s" and "s \<le> t" and "t < - 1" and "cuttable s t e"
  obtains (whole) e' where "remove_range s t e = (True, e')" "range e' = range e - {s .. t}" "port_id e' = port_id e"
      "\<not> (lower_bound e = s \<and> upper_bound e = t)"
  | (split) "remove_range s t e = (False, e)" "\<not> t < lower_bound e" "\<not> (lower_bound e = s \<and> upper_bound e = t)"
      "range (e\<lparr>upper_bound := s - 1\<rparr>) \<union> range (new_Entry (t + 1) (upper_bound e) (port_id e)) = range e - {s .. t}"
proof -
  have up: "t + 1 \<le> x \<longleftrightarrow> t < x" and down: "x \<le> s - 1 \<longleftrightarrow> x < s" for x
    using above_iff [OF assms(3)] below_iff [OF assms(1)] by simp_all
  show thesis
  proof (cases "t < lower_bound e \<or> upper_bound e < s")
    case True
    then show ?thesis using assms(2,4) by (intro whole [of e]) (auto simp: remove_range_def range_def cuttable_def)
  next
    case False
    then have e: "lower_bound e \<le> upper_bound e" "\<not> (s \<le> lower_bound e \<and> upper_bound e \<le> t)"
      using assms(4) by (auto simp: cuttable_def range_def)
    then consider (low) "s < lower_bound e" "t < upper_bound e" | (high) "lower_bound e < s" "upper_bound e < t"
      | (inside) "lower_bound e \<le> s" "t \<le> upper_bound e"
      by fastforce
    then show ?thesis
    proof cases
      case low
      then show ?thesis using False remove_range_low [of s e t]
        by (intro whole [of "e\<lparr>lower_bound := t + 1\<rparr>"]) (auto simp: range_def up not_less)
    next
      case high
      then show ?thesis using False remove_range_high [of e s t]
        by (intro whole [of "e\<lparr>upper_bound := s - 1\<rparr>"]) (auto simp: range_def down not_less)
    next
      case inside
      then show ?thesis using False e assms(2)
        by (intro split) (auto simp: remove_range_def range_def up down)
    qed
  qed
qed

lemma inv_regions_cut:
  assumes st: "0 < s" "s \<le> t" "t < - 1" and "\<forall>e \<in> set es. cuttable s t e" and "cut_weight t es \<le> fuel"
  shows "\<exists>told' es'. inv_regions fuel s t told done es = Inr (told', es') \<and>
    (\<forall>f. regions f es' = regions f done \<union> (regions f es - {s .. t}))"
  using assms(4,5)
proof (induction fuel arbitrary: told "done" es)
  case 0
  then have "es = []" by (cases es) (auto simp: cut_weight_def split: if_splits)
  then show ?case by simp
next
  case (Suc fuel)
  show ?case
  proof (cases es)
    case (Cons e es1)
    then have e: "cuttable s t e" and es1: "\<forall>e \<in> set es1. cuttable s t e" using Suc.prems by simp_all
    let ?told = "if port_id e \<in> set told then told else told @ [port_id e]"
    show ?thesis
    proof (cases rule: cut_cases [OF st e])
      case (1 e')
      have "cut_weight t es1 \<le> fuel" using Suc.prems(2) by (simp add: Cons cut_weight_def split: if_splits)
      from Suc.IH [OF es1 this, of ?told "done @ [e']"] obtain told' es' where
        r: "inv_regions fuel s t ?told (done @ [e']) es1 = Inr (told', es')"
        "\<forall>f. regions f es' = regions f (done @ [e']) \<union> (regions f es1 - {s .. t})" by blast
      have "regions f es' = regions f done \<union> (regions f es - {s .. t})" for f
        using r(2) 1(2,3) by (auto simp: Cons)
      then show ?thesis using r(1) 1(1,4) by (auto simp: Cons Let_def)
    next
      case 2
      let ?n = "new_Entry (t + 1) (upper_bound e) (port_id e)"
      have n: "t < lower_bound ?n" using above_iff [OF st(3), of "t + 1"] by simp
      have "\<forall>e \<in> set (es1 @ [?n]). cuttable s t e" "cut_weight t (es1 @ [?n]) \<le> fuel"
        using es1 n Suc.prems(2) 2(2) by (simp_all add: cuttable_def Cons cut_weight_def)
      from Suc.IH [OF this, of ?told "done @ [e\<lparr>upper_bound := s - 1\<rparr>]"] obtain told' es' where
        r: "inv_regions fuel s t ?told (done @ [e\<lparr>upper_bound := s - 1\<rparr>]) (es1 @ [?n]) = Inr (told', es')"
        "\<forall>f. regions f es' = regions f (done @ [e\<lparr>upper_bound := s - 1\<rparr>]) \<union> (regions f (es1 @ [?n]) - {s .. t})"
        by blast
      have "range ?n - {s .. t} = range ?n" using n by auto
      then have "regions f es' = regions f done \<union> (regions f es - {s .. t})" for f
        using r(2) 2(4) by (auto simp: Cons)
      then show ?thesis using r(1) 2(1,3) by (auto simp: Cons Let_def)
    qed
  qed simp
qed

text \<open>
  An invalidation returns after at most two visits for each region, and afterwards the initiators are
  recorded on what they were recorded on before less the invalidated range: when that range starts
  above address 0, ends below the last address and encloses no region.
\<close>

theorem inv_dmi_cuts_range:
  assumes "protocol_inv P port s t (rest r) = Inr w" and "0 < s" and "s \<le> t" and "t < - 1"
    and "\<forall>e \<in> set (m_dmi_tport_entry r port). lower_bound e \<le> upper_bound e \<and> \<not> range e \<subseteq> {s .. t}"
    and "2 * length (m_dmi_tport_entry r port) \<le> fuel"
  shows "\<exists>told r'. inv_dmi fuel P port s t r = Inr (told, r') \<and>
    (\<forall>f. regions f (m_dmi_tport_entry r' port) = regions f (m_dmi_tport_entry r port) - {s .. t}) \<and>
    (\<forall>q. q \<noteq> port \<longrightarrow> m_dmi_tport_entry r' q = m_dmi_tport_entry r q)"
proof -
  have "cut_weight t (m_dmi_tport_entry r port) \<le> fuel" using cut_weight_bound assms(6) le_trans by blast
  moreover have "\<forall>e \<in> set (m_dmi_tport_entry r port). cuttable s t e" using assms(5) by (simp add: cuttable_def)
  ultimately obtain told es where "inv_regions fuel s t [] [] (m_dmi_tport_entry r port) = Inr (told, es)"
    "\<forall>f. regions f es = regions f (m_dmi_tport_entry r port) - {s .. t}"
    using inv_regions_cut [OF assms(2-4), of "m_dmi_tport_entry r port" fuel "[]" "[]"] by auto
  moreover have "\<not> t < s" using assms(3) by simp
  ultimately show ?thesis using assms(1) by (simp add: inv_dmi_def)
qed

text \<open>
  When a region reaches the last address, an invalidation that also reaches it but starts inside the
  region never returns: the end of the range wraps to 0, and every region split off is again one
  that reaches from 0 to the last address.
\<close>

theorem inv_dmi_never_returns:
  assumes "protocol_inv P port s (- 1) (rest r) = Inr w" and "0 < s"
    and "m_dmi_tport_entry r port = [e]" and "lower_bound e < s" and "upper_bound e = - 1"
  shows "inv_dmi fuel P port s (- 1) r = Inl OutOfFuel"
proof -
  have "inv_regions fuel s (- 1) told done [e] = Inl OutOfFuel"
    if "lower_bound e < s" "upper_bound e = - 1" for told "done" e
    using that
  proof (induction fuel arbitrary: told "done" e)
    case (Suc fuel)
    have n: "lower_bound (new_Entry 0 (- 1) (port_id e)) < s" "upper_bound (new_Entry 0 (- 1) (port_id e)) = - 1"
      using assms(2) by simp_all
    show ?case using Suc.prems Suc.IH [OF n] by (auto simp: remove_range_def Let_def)
  qed simp
  then show ?thesis using assms by (simp add: inv_dmi_def)
qed

theorem inv_dmi_cuts_range_witness:
  "\<exists>told r'. inv_dmi 2 (simple_bus_hooks (dummy_protocol 0 sample_router_env)) 0 0x120 0x12F
       ((new_router 0)\<lparr>m_dmi_tport_entry := (\<lambda>_. [new_Entry 0x100 0x1FF 1])\<rparr>) = Inr (told, r') \<and>
     (\<forall>f. regions f (m_dmi_tport_entry r' 0) = regions f [new_Entry 0x100 0x1FF 1] - {0x120 .. 0x12F})"
proof -
  let ?P = "simple_bus_hooks (dummy_protocol 0 sample_router_env)"
  let ?r = "(new_router 0)\<lparr>m_dmi_tport_entry := (\<lambda>_. [new_Entry 0x100 0x1FF 1])\<rparr>"
  have w: "protocol_inv ?P 0 0x120 0x12F (rest ?r) = Inr 0" by (simp add: simple_bus_hooks_def new_router_def)
  have e: "\<forall>e \<in> set (m_dmi_tport_entry ?r 0). lower_bound e \<le> upper_bound e \<and> \<not> range e \<subseteq> {0x120 .. 0x12F}" by simp
  show ?thesis using inv_dmi_cuts_range [OF w _ _ _ e, of 2] by force
qed

theorem inv_dmi_never_returns_witness:
  "inv_dmi 1000 (simple_bus_hooks (dummy_protocol 0 sample_router_env)) 0 0x1000 (- 1)
     ((new_router 0)\<lparr>m_dmi_tport_entry := (\<lambda>_. [new_Entry 0 (- 1) 1])\<rparr>) = Inl OutOfFuel"
  by (rule inv_dmi_never_returns [where w = 0 and e = "new_Entry 0 (- 1) 1"])
    (simp_all add: simple_bus_hooks_def new_router_def)

section \<open>Moving a device, debug accesses and the fallback protocol\<close>

text \<open>
  Moving a device upwards by writing its base address first makes it unreachable: while the base lies
  above the end of the device, the callback finds nothing at the new base, tells no initiator to give
  up its direct memory and leaves no refresh pending; no callback follows the later write of the end. Whatever the
  bounds have become, every access is answered with the address error.
\<close>

theorem moved_upwards_unreachable:
  assumes "sides E (rest r) = [Ranges [(lo, hi)]]" and "hi < lo" and "0 < max_port E" and "\<not> mapCheckPending r"
  shows "\<exists>r'. addressChanged E lo junk r = Inr ([], r') \<and>
    (\<forall>P from p w. b_tr P E from p (r'\<lparr>rest := w\<rparr>) =
       (let (p1, w1) = before_b_transport P from (p, w)
        in Inr (p1\<lparr>response_status := addr_err E\<rparr>, r'\<lparr>rest := w1\<rparr>)))"
proof -
  define r' where "r' = r\<lparr>m_addressMap := Some [new_Entry lo hi 0], m_EOEdone := True\<rparr>"
  have f: "refreshAddressMap E False r = Inr r'"
    using assms(1,3) by (simp add: refreshAddressMap_def map_range_def sort_entries_def r'_def not_le)
  have d: "router_decode E (r'\<lparr>rest := w\<rparr>) p = Inr (False, [max_port E])" for w p
    using assms(2) by (auto simp: router_decode_def r'_def am_decode_def)
  have "r'\<lparr>rest := rest r'\<rparr> = r'" by simp
  then have d0: "router_decode E r' p = Inr (False, [max_port E])" for p using d [of "rest r'"] by simp
  have "changed_from E lo is junk r' = Inr ([], r')" for "is"
    by (induction "is") (simp_all add: d0)
  moreover have "check_map E (r'\<lparr>rest := w\<rparr>) = Inr (r'\<lparr>rest := w\<rparr>)" for w
    using assms(4) by (simp add: r'_def)
  ultimately show ?thesis
    by (intro exI [of _ r']) (simp add: addressChanged_def f b_tr_def d split: prod.splits)
qed

theorem moved_upwards_unreachable_witness:
  "\<exists>r'. addressChanged (sample_router_env\<lparr>sides := (\<lambda>w. [Ranges [(0x1000, 0x1FF)]])\<rparr>) 0x1000 (0, 0) (new_router 0) = Inr ([], r') \<and>
    b_tr (dummy_protocol 0 sample_router_env) (sample_router_env\<lparr>sides := (\<lambda>w. [Ranges [(0x1000, 0x1FF)]])\<rparr>) 0
      (plain_payload 0x1000) (r'\<lparr>rest := 7\<rparr>) =
    Inr ((plain_payload 0x1000)\<lparr>response_status := Error_response 2\<rparr>, r'\<lparr>rest := 7\<rparr>)"
proof -
  let ?E = "sample_router_env\<lparr>sides := (\<lambda>w. [Ranges [(0x1000, 0x1FF)]])\<rparr>"
  obtain r' where "addressChanged ?E 0x1000 (0, 0) (new_router 0) = Inr ([], r')"
    "\<And>P from p w. b_tr P ?E from p (r'\<lparr>rest := w\<rparr>) =
       (let (p1, w1) = before_b_transport P from (p, w)
        in Inr (p1\<lparr>response_status := addr_err ?E\<rparr>, r'\<lparr>rest := w1\<rparr>))"
    using moved_upwards_unreachable [where E = ?E and r = "new_router 0" and lo = "0x1000" and hi = "0x1FF" and junk = "(0, 0)"]
    by (auto simp: sample_router_env_def new_router_def)
  then show ?thesis by (intro exI [of _ r']) (simp add: dummy_protocol_def sample_router_env_def)
qed

text \<open>
  With the fallback protocol a debug access to a mapped address is carried out twice by the target, first
  for the protocol, whose result is dropped, then for the router; and a request for direct memory
  at a mapped address, like every invalidation, ends the program.
\<close>

theorem dummy_protocol_hooks:
  assumes "router_holds E qs r" and "asked_port qs (address p) = Some port" and "port \<noteq> max_port E"
    and "address (fst (snd (dbg_transport E port (dummy_sender rid m p, rest r)))) = address p"
  shows "tr_dbg (dummy_protocol rid E) E m p r =
      (case dbg_transport E port (dummy_sender rid m p, rest r) of (_, p1, w1) \<Rightarrow>
       case dbg_transport E port (p1, w1) of (n, p2, w2) \<Rightarrow> Inr (n, p2, r\<lparr>rest := w2\<rparr>)) \<and>
    get_dmi (dummy_protocol rid E) E m (d, p) r = Inl (Exit 1) \<and>
    inv_dmi fuel (dummy_protocol rid E) port s t r = Inl (Exit 1)"
proof -
  obtain n p1 w1 where t: "dbg_transport E port (dummy_sender rid m p, rest r) = (n, p1, w1)" by (metis prod_cases3)
  have a: "address (dummy_sender rid m p) = address p" "address p1 = address p"
    using assms(4) t by (simp_all add: dummy_sender_def Let_def)
  have c: "check_map E r = Inr r" using assms(1) by (simp add: router_holds_def)
  note dec = router_holds_decode [OF assms(1)]
  show ?thesis using assms(2,3) a t
    by (auto simp: tr_dbg_def get_dmi_def inv_dmi_def c dec dummy_protocol_def dummy_transport_dbg_def Let_def split: prod.splits)
qed

theorem dummy_protocol_hooks_witness:
  "\<exists>r. tr_dbg (dummy_protocol 0 sample_router_env) sample_router_env 1 (plain_payload 0x410) r =
      Inr (4, (plain_payload 0x410)\<lparr>sender_ids := [1]\<rparr>, r\<lparr>rest := 2\<rparr>)"
proof -
  obtain r where r: "router_end_of_elaboration sample_router_env (new_router 0) = Inr r"
    "router_holds sample_router_env (requests (sides sample_router_env 0) 0) r"
    using elaboration_holds [OF sample_sides_ok, of 0] by blast
  have "rest r = 0" using r(1) by (auto simp: router_end_of_elaboration_def new_router_def bindr_eq_Inr)
  then show ?thesis using dummy_protocol_hooks [OF r(2), where p = "plain_payload 0x410" and port = 2 and rid = 0 and m = 1]
    by (simp add: asked_port_def sample_router_env_def plain_payload_def dummy_sender_def exI [of _ r])
qed

section \<open>The configuration of a router's side\<close>

text \<open>What a list of views makes of one extension or phase: the first that requires or rejects it decides.\<close>

definition join_uses :: "bindability \<Rightarrow> bindability list \<Rightarrow> bindability" where
  "join_uses b bs = foldl join_use b bs"

definition links_ok :: "nat \<Rightarrow> nat \<Rightarrow> nat list \<Rightarrow> net \<Rightarrow> bool" where
  "links_ok N s is n \<longleftrightarrow> distinct is \<and>
     (\<forall>l \<in> set is. l < length (m_configs (socks n s)) \<and> config_ok N (m_configs (socks n s) ! l))"

text \<open>
  The configuration that the router sets on both its sockets is the join of those of all links of one
  side, in their order: every extension and phase is what the first link that requires or rejects it
  says. The only failure is a conflict, and that ends the program.
\<close>

theorem router_config_joins:
  assumes "config_ok N c" and "links_ok N s is n"
  shows "merge_links N s is c n = Inl (ScFatal ''binding check failed'') \<or>
    (\<exists>c' n'. merge_links N s is c n = Inr (c', n') \<and> config_ok N c' \<and>
      (\<forall>i. has_extension i c' = join_uses (has_extension i c) (map (\<lambda>l. has_extension i (m_configs (socks n s) ! l)) is)) \<and>
      (\<forall>ph. has_phase ph c' = join_uses (has_phase ph c) (map (\<lambda>l. has_phase ph (m_configs (socks n s) ! l)) is)))"
  using assms
proof (induction "is" arbitrary: c n)
  case (Cons l ls)
  let ?d = "m_configs (socks n s) ! l"
  have l: "l < length (m_configs (socks n s))" "config_ok N ?d" and ls: "links_ok N s ls n" "l \<notin> set ls"
    using Cons.prems(2) by (simp_all add: links_ok_def)
  obtain c1 d1 where m: "\<And>a. config_merge N a c ?d =
      (if a \<and> merge_conflict N c ?d then Inl (ScFatal ''binding check failed'') else Inr (merge_conflict N c ?d, c1, d1))"
    by (rule config_merge_conflict [OF Cons.prems(1) l(2)]) (rule that)
  have g: "get_recent_config s l n = Inr ?d" using l by (simp add: get_recent_config_def read_cfg_def)
  show ?case
  proof (cases "merge_conflict N c ?d")
    case True
    then show ?thesis by (simp add: g m)
  next
    case False
    then have m1: "config_merge N True c ?d = Inr (False, c1, d1)" by (simp add: m)
    let ?n = "write_cfg (Link s l) d1 n"
    have same: "m_configs (socks ?n s) ! k = m_configs (socks n s) ! k" if "k \<in> set ls" for k
      using that ls(2) by (cases "k = l") (simp_all add: write_cfg_def)
    have "links_ok N s ls ?n" using ls same by (simp add: links_ok_def write_cfg_def)
    from Cons.IH [OF conjunct1 [OF merged_ok [OF Cons.prems(1) l(2) m1]] this]
    show ?thesis
      using merged_extension [OF Cons.prems(1) l(2) m1] merged_phase [OF Cons.prems(1) l(2) m1]
      by (simp add: g m1 same join_uses_def cong: map_cong)
  qed
qed (simp add: join_uses_def)

theorem router_config_joins_witness:
  "\<exists>c' n'. merge_links 2 0 [1] sample_initiator
       (sample_net\<lparr>socks := (\<lambda>s. (new_socket sample_initiator ''router'')\<lparr>m_configs := [sample_initiator, sample_target]\<rparr>)\<rparr>) = Inr (c', n') \<and>
     has_extension 0 c' = gs_mandatory \<and> has_extension 1 c' = gs_reject"
proof -
  let ?n = "sample_net\<lparr>socks := (\<lambda>s. (new_socket sample_initiator ''router'')\<lparr>m_configs := [sample_initiator, sample_target]\<rparr>)\<rparr>"
  have ok: "links_ok 2 0 [1] ?n" using sample_ok by (simp add: links_ok_def new_socket_def)
  have "merge_links 2 0 [1] sample_initiator ?n \<noteq> Inl (ScFatal ''binding check failed'')"
  proof -
    have "\<not> merge_conflict 2 sample_initiator sample_target"
      using conflict_incompatible [OF sample_ok] sample_compatible by blast
    then obtain c' d' where m: "config_merge 2 True sample_initiator sample_target = Inr (False, c', d')"
      by (rule_tac config_merge_conflict [OF sample_ok]) simp
    then show ?thesis by (simp add: get_recent_config_def read_cfg_def new_socket_def)
  qed
  then show ?thesis using router_config_joins [OF sample_ok(1) ok]
    by (auto simp: join_uses_def new_socket_def sample_uses simp del: One_nat_def)
qed

end
