(* ===== verification/Mac_Map.thy ===== *)
theory Mac_Map
  imports GL_Prelude
begin

text \<open>
  The address map that routes Ethernet frames (\<^verbatim>\<open>greenrouter/MACAddressMap.h\<close>): ports and the
  MAC address that each was seen with last. What the router finds on the other side of a port is a parameter of the generation.
\<close>

section \<open>The map\<close>

record mac_map =
  m_address_map :: "(u32, u64) omap"
  m_extWrldPortId :: u32

definition mac_map0 :: "u32 \<Rightarrow> mac_map" where
  "mac_map0 PORTMAX = \<lparr>m_address_map = [], m_extWrldPortId = PORTMAX\<rparr>"

text \<open>Another router leaves the address that is stored without a value.\<close>

datatype mac_target = Other_Router | Other_Socket u64 | Other_Unknown

definition generate_port :: "u32 \<Rightarrow> mac_target \<Rightarrow> mac_map \<Rightarrow> mac_map res" where
  "generate_port port_id other s =
     (case other of
        Other_Router \<Rightarrow> Inl (Undefined ''address_low is not initialised'')
      | Other_Socket address_low \<Rightarrow>
          (let s' = s\<lparr>m_address_map := map_put port_id address_low (m_address_map s)\<rparr>
           in Inr (if address_low = 0xffffffffffff then s'\<lparr>m_extWrldPortId := port_id\<rparr> else s'))
      | Other_Unknown \<Rightarrow> Inr s)"

fun generate_from :: "u32 \<Rightarrow> mac_target list \<Rightarrow> mac_map \<Rightarrow> mac_map res" where
  "generate_from port_id [] s = Inr s"
| "generate_from port_id (t # ts) s = bindr (generate_port port_id t s) (generate_from (port_id + 1) ts)"

definition mac_generateMap :: "mac_target list \<Rightarrow> mac_map \<Rightarrow> mac_map res" where
  "mac_generateMap targets s = generate_from 0 targets s"

text \<open>Six bytes copied into a zeroed 64 bit integer of a little endian machine.\<close>

definition mac_value :: "8 word list \<Rightarrow> u64" where
  "mac_value bs = foldr (\<lambda>b a. ucast b + 256 * a) bs 0"

fun mac_port_of :: "u64 \<Rightarrow> (u32, u64) omap \<Rightarrow> u32 option" where
  "mac_port_of a [] = None"
| "mac_port_of a ((p, b) # m) = (if b = a then Some p else mac_port_of a m)"

definition mac_decode :: "u32 \<Rightarrow> 8 word list \<Rightarrow> u32 \<Rightarrow> mac_map \<Rightarrow> (u32 \<times> mac_map) res" where
  "mac_decode PORTMAX data from_port s =
     (if length data < 12 then Inl (Undefined ''the data of the frame is read past its end'')
      else
        let destAdd = mac_value (take 6 data);
            srcAdd = mac_value (take 6 (drop 6 data));
            s' = s\<lparr>m_address_map := map_put from_port srcAdd (m_address_map s)\<rparr>
        in Inr (case mac_port_of destAdd (m_address_map s') of
                  Some port_id \<Rightarrow> port_id
                | None \<Rightarrow> if from_port = m_extWrldPortId s then PORTMAX else m_extWrldPortId s, s'))"


section \<open>Where frames go\<close>

text \<open>A history of frames: the port they come from and their data; the map that remains, and what each port was seen with.\<close>

definition mac_decode_step :: "u32 \<times> 8 word list \<Rightarrow> mac_map \<Rightarrow> mac_map" where
  "mac_decode_step = (\<lambda>(p, data) s. case mac_decode 0 data p s of Inr (_, s') \<Rightarrow> s' | Inl _ \<Rightarrow> s)"

definition seen_step :: "u32 \<times> 8 word list \<Rightarrow> (u32 \<Rightarrow> u64 option) \<Rightarrow> u32 \<Rightarrow> u64 option" where
  "seen_step = (\<lambda>(p, data) f. if length data < 12 then f else f(p := Some (mac_value (take 6 (drop 6 data)))))"

lemma decode_step_map:
  assumes "omap_ok (m_address_map s)"
  shows "omap_ok (m_address_map (mac_decode_step x s)) \<and> map_find (m_address_map (mac_decode_step x s)) = seen_step x (map_find (m_address_map s)) \<and>
    m_extWrldPortId (mac_decode_step x s) = m_extWrldPortId s"
proof -
  obtain p data where x: "x = (p, data)" by (cases x)
  show ?thesis using assms
    by (cases "length data < 12") (auto simp: x mac_decode_step_def seen_step_def mac_decode_def Let_def map_simps fun_eq_iff)
qed

lemma decode_run_map:
  assumes "omap_ok (m_address_map s)"
  shows "omap_ok (m_address_map (fold mac_decode_step frames s)) \<and>
    map_find (m_address_map (fold mac_decode_step frames s)) = fold seen_step frames (map_find (m_address_map s)) \<and>
    m_extWrldPortId (fold mac_decode_step frames s) = m_extWrldPortId s"
  using assms
proof (induction frames arbitrary: s)
  case (Cons x frames)
  then show ?case using decode_step_map [OF Cons.prems, of x] by simp
qed simp

lemma port_of_least:
  assumes "omap_ok m"
  shows "mac_port_of a m = (if \<exists>p. map_find m p = Some a then Some (LEAST p. map_find m p = Some a) else None)"
  using assms
proof (induction m)
  case (Cons e m)
  obtain p b where e: "e = (p, b)" by (cases e)
  have m: "omap_ok m" "\<forall>k \<in> fst ` set m. p < k" using Cons.prems e by (simp_all add: omap_ok_Cons)
  have far: "p < k" if "map_find m k = Some c" for k c
    using m(2) that by (metis map_of_SomeD fst_conv image_eqI)
  show ?case
  proof (cases "b = a")
    case True
    have "(LEAST k. map_find (e # m) k = Some a) = p"
      by (rule Least_equality) (use True e far in \<open>auto split: if_splits intro: less_imp_le\<close>)
    moreover have "\<exists>k. map_find (e # m) k = Some a" using True e by (intro exI [of _ p]) simp
    ultimately show ?thesis using True e by simp
  next
    case False
    have "map_find (e # m) k = Some a \<longleftrightarrow> map_find m k = Some a" for k
      using False e far [of k a] by auto
    then show ?thesis using False e Cons.IH [OF m(1)] by simp
  qed
qed simp

text \<open>
  C27. After any history of frames, a frame goes to the lowest port whose last frame (its own included) had the destination as its source,
  or that was generated with it and has sent nothing; if there is none, it goes to the external world, and is dropped to the invalid
  port when it comes from there.
\<close>

theorem frames_follow_last_seen:
  assumes "omap_ok (m_address_map s)" and "12 \<le> length data"
  shows "let seen = fold seen_step (frames @ [(p, data)]) (map_find (m_address_map s));
             dest = mac_value (take 6 data) in
    map_option fst (case mac_decode PORTMAX data p (fold mac_decode_step frames s) of Inr r \<Rightarrow> Some r | Inl _ \<Rightarrow> None) =
      Some (if \<exists>q. seen q = Some dest then LEAST q. seen q = Some dest
            else if p = m_extWrldPortId s then PORTMAX else m_extWrldPortId s)"
proof -
  let ?s = "fold mac_decode_step frames s"
  let ?m = "map_put p (mac_value (take 6 (drop 6 data))) (m_address_map ?s)"
  note r = decode_run_map [OF assms(1), of frames]
  have ok: "omap_ok ?m" using r by blast
  have "map_find ?m = fold seen_step (frames @ [(p, data)]) (map_find (m_address_map s))"
    using r assms(2) by (simp add: seen_step_def map_simps fun_eq_iff)
  then show ?thesis using r assms(2) port_of_least [OF ok, of "mac_value (take 6 data)"]
    by (simp add: mac_decode_def Let_def)
qed

definition frame :: "8 word \<Rightarrow> 8 word \<Rightarrow> 8 word list" where
  "frame dest src = [dest, 0, 0, 0, 0, 0, src, 0, 0, 0, 0, 0]"

text \<open>The host with address 7 moves from port 1 to port 2: its frames still go to port 1, until that port sends something else.\<close>

theorem frames_follow_last_seen_witness:
  "map_option fst (case mac_decode 255 (frame 7 9) 3 (fold mac_decode_step [(1, frame 1 7), (2, frame 1 7)] (mac_map0 255)) of Inr r \<Rightarrow> Some r | Inl _ \<Rightarrow> None) = Some 1"
proof -
  let ?seen = "fold seen_step ([(1, frame 1 7), (2, frame 1 7)] @ [(3, frame 7 9)]) (map_find (m_address_map (mac_map0 255)))"
  have s: "?seen = [1 \<mapsto> 7, 2 \<mapsto> 7, 3 \<mapsto> 9]"
    by (simp add: seen_step_def frame_def mac_value_def mac_map0_def)
  have l: "(LEAST q. ?seen q = Some 7) = 1"
  proof (rule Least_equality)
    show "?seen 1 = Some 7" unfolding s by simp
    show "1 \<le> q" if "?seen q = Some 7" for q using that unfolding s by (auto split: if_splits)
  qed
  have d: "mac_value (take 6 (frame 7 9)) = 7" by (simp add: frame_def mac_value_def)
  have e: "\<exists>q. ?seen q = Some 7" unfolding s by (rule exI [of _ 1]) simp
  have "omap_ok (m_address_map (mac_map0 255))" "12 \<le> length (frame 7 9)" by (simp_all add: mac_map0_def frame_def)
  from frames_follow_last_seen [OF this, of "[(1, frame 1 7), (2, frame 1 7)]" 3 255] show ?thesis
    unfolding Let_def d using e l by simp
qed

end
