(* ===== verification/Reg_Notify.thy ===== *)
theory Reg_Notify
  imports GL_Prelude
begin

text \<open>
  The notification rules of GreenReg (\<^verbatim>\<open>greenreg/sysc_ext/kernel\<close>): the events that a rule notifies
  (\<^verbatim>\<open>gr_event\<close>), the kinds of rules (\<^verbatim>\<open>gr_notification_rules.h\<close>) and the container of active and
  inactive rules (\<^verbatim>\<open>gr_notification_rule_container\<close>). What a notification does outside is a list of calls:
  callbacks and rules are named, the transaction passed on is a number.
\<close>

section \<open>Events\<close>

text \<open>The callbacks are a set of pointers, visited in the order of their addresses: a sorted list.\<close>

record gr_event =
  m_timed :: bool
  m_callbacks :: "nat list"
  m_callback_registered :: bool
  m_delayed :: bool
  m_delay :: nat

datatype notification =
    Sc_notify
  | Sc_notify_after nat
  | Execute nat "nat option" nat
  | Execute_later "nat option" nat

definition new_event :: "bool \<Rightarrow> nat \<Rightarrow> gr_event" where
  "new_event default_behavior junk_delay = \<lparr>m_timed = default_behavior, m_callbacks = [], m_callback_registered = False,
     m_delayed = False, m_delay = junk_delay\<rparr>"

definition add_payload_callback :: "nat \<Rightarrow> gr_event \<Rightarrow> gr_event" where
  "add_payload_callback cb ev = ev\<lparr>m_callback_registered := True, m_callbacks := insort_insert cb (m_callbacks ev)\<rparr>"

definition enable_timing :: "gr_event \<Rightarrow> gr_event" where
  "enable_timing ev = ev\<lparr>m_timed := True\<rparr>"

definition disable_timing :: "gr_event \<Rightarrow> gr_event" where
  "disable_timing ev = ev\<lparr>m_timed := False\<rparr>"

definition set_delay :: "nat \<Rightarrow> gr_event \<Rightarrow> gr_event" where
  "set_delay d ev = ev\<lparr>m_delay := d, m_delayed := True\<rparr>"

definition notify_as_callback :: "nat option \<Rightarrow> gr_event \<Rightarrow> notification list" where
  "notify_as_callback tr ev = map (\<lambda>cb. Execute cb tr (m_delay ev)) (m_callbacks ev)"

definition event_notify :: "nat option \<Rightarrow> gr_event \<Rightarrow> notification list" where
  "event_notify tr ev =
     (if m_timed ev \<and> \<not> m_callback_registered ev then [Sc_notify] else notify_as_callback tr ev)"

definition notify_with_delay :: "nat option \<Rightarrow> gr_event \<Rightarrow> notification list" where
  "notify_with_delay tr ev =
     (if m_timed ev \<and> \<not> m_callback_registered ev then [Sc_notify_after (m_delay ev)]
      else if m_delayed ev then [Execute_later tr (m_delay ev)]
      else notify_as_callback tr ev)"

section \<open>Rules\<close>

datatype rule_kind =
    Notify
  | Notify_on_change
  | Write_pattern_equal string
  | Read_pattern_equal string
  | Pattern_state_change string string
  | Bit_state u32 bool
  | Bit_state_change u32 bool bool

record rule =
  kind :: rule_kind
  default_event :: gr_event

definition hex_digit :: "nat \<Rightarrow> char" where
  "hex_digit n = (''0123456789abcdef'') ! n"

fun hex_digits :: "nat \<Rightarrow> string" where
  "hex_digits n = (if n < 16 then [hex_digit n] else hex_digits (n div 16) @ [hex_digit (n mod 16)])"

declare hex_digits.simps [simp del]

definition unsigned_long_to_hex_string :: "nat \<Rightarrow> nat \<Rightarrow> string" where
  "unsigned_long_to_hex_string width v =
     ''0x'' @ replicate (width - length (hex_digits v)) CHR ''0'' @ hex_digits v"

fun match_chars :: "char \<Rightarrow> string \<Rightarrow> string \<Rightarrow> bool" where
  "match_chars ign (p # ps) (c # cs) = (if p \<noteq> ign \<and> p \<noteq> c then False else match_chars ign ps cs)"
| "match_chars ign _ _ = True"

definition string_match :: "string \<Rightarrow> string \<Rightarrow> char \<Rightarrow> bool" where
  "string_match pattern str ign = (if length pattern \<noteq> length str then False else match_chars ign pattern str)"

definition pattern_holds :: "string \<Rightarrow> u32 \<Rightarrow> bool" where
  "pattern_holds pattern v = string_match pattern (unsigned_long_to_hex_string 8 (unat v)) CHR ''-''"

text \<open>A shift by the width of the word or more is undefined.\<close>

definition bit_at :: "u32 \<Rightarrow> u32 \<Rightarrow> bool res" where
  "bit_at v n = (if n < 32 then Inr (drop_bit (unat n) v mod 2 = 1) else Inl (Undefined ''shift''))"

fun rule_fires :: "rule_kind \<Rightarrow> u32 \<Rightarrow> u32 \<Rightarrow> bool res" where
  "rule_fires Notify old new = Inr True"
| "rule_fires Notify_on_change old new = Inr (old \<noteq> new)"
| "rule_fires (Write_pattern_equal p) old new = Inr (pattern_holds p new)"
| "rule_fires (Read_pattern_equal p) old new = Inr (pattern_holds p old)"
| "rule_fires (Pattern_state_change p q) old new = Inr (pattern_holds p old \<and> pattern_holds q new)"
| "rule_fires (Bit_state n b) old new = bindr (bit_at new n) (\<lambda>x. Inr (x = b))"
| "rule_fires (Bit_state_change n b c) old new =
     bindr (bit_at old n) (\<lambda>x. if x = b then bindr (bit_at new n) (\<lambda>y. Inr (y = c)) else Inr False)"

definition process_rule :: "u32 \<Rightarrow> u32 \<Rightarrow> nat option \<Rightarrow> bool \<Rightarrow> rule \<Rightarrow> notification list res" where
  "process_rule old new tr delayed r =
     bindr (rule_fires (kind r) old new) (\<lambda>fires.
       Inr (if fires then (if delayed then notify_with_delay tr (default_event r) else event_notify tr (default_event r))
            else []))"

section \<open>The container\<close>

record rule_container =
  m_active_rules :: "(string \<times> rule) list"
  m_inactive_rules :: "(string \<times> rule) list"

definition new_rules :: rule_container where
  "new_rules = \<lparr>m_active_rules = [], m_inactive_rules = []\<rparr>"

fun find_in_container :: "(string \<times> rule) list \<Rightarrow> string \<Rightarrow> nat" where
  "find_in_container [] name = 0"
| "find_in_container ((n, r) # rs) name = (if n = name then 0 else Suc (find_in_container rs name))"

definition find_active_rule :: "string \<Rightarrow> rule_container \<Rightarrow> rule option" where
  "find_active_rule name c =
     (let i = find_in_container (m_active_rules c) name
      in if i < length (m_active_rules c) then Some (snd (m_active_rules c ! i)) else None)"

definition find_inactive_rule :: "string \<Rightarrow> rule_container \<Rightarrow> rule option" where
  "find_inactive_rule name c =
     (let i = find_in_container (m_inactive_rules c) name
      in if i < length (m_inactive_rules c) then Some (snd (m_inactive_rules c ! i)) else None)"

definition find_rule :: "string \<Rightarrow> rule_container \<Rightarrow> rule option" where
  "find_rule name c = (case find_active_rule name c of Some r \<Rightarrow> Some r | None \<Rightarrow> find_inactive_rule name c)"

definition has_rule :: "string \<Rightarrow> rule_container \<Rightarrow> bool" where
  "has_rule name c = (find_rule name c \<noteq> None)"

definition rules_is_empty :: "rule_container \<Rightarrow> bool" where
  "rules_is_empty c = (length (m_inactive_rules c) = 0 \<and> length (m_active_rules c) = 0)"

definition move_rule_to_front :: "string \<Rightarrow> rule_container \<Rightarrow> rule_container" where
  "move_rule_to_front name c =
     (let i = find_in_container (m_active_rules c) name
      in if i = 0 then c
         else if i < length (m_active_rules c)
         then c\<lparr>m_active_rules := (name, snd (m_active_rules c ! i)) # erase_at i (m_active_rules c)\<rparr>
         else c)"

definition move_rule_to_back :: "string \<Rightarrow> rule_container \<Rightarrow> rule_container" where
  "move_rule_to_back name c =
     (let i = find_in_container (m_active_rules c) name
      in if i = length (m_active_rules c) then c
         else if i + 1 = length (m_active_rules c) then c
         else c\<lparr>m_active_rules := erase_at i (m_active_rules c) @ [(name, snd (m_active_rules c ! i))]\<rparr>)"

definition add_notification_rule :: "string \<Rightarrow> rule \<Rightarrow> rule_container \<Rightarrow> bool \<times> rule_container" where
  "add_notification_rule name r c =
     (if find_rule name c = None then (True, c\<lparr>m_active_rules := m_active_rules c @ [(name, r)]\<rparr>) else (False, c))"

definition deactivate_rule :: "string \<Rightarrow> rule_container \<Rightarrow> rule_container res" where
  "deactivate_rule name c =
     (if find_inactive_rule name c = None
      then let i = find_in_container (m_active_rules c) name
           in if i < length (m_active_rules c)
              then let r = snd (m_active_rules c ! i);
                       c1 = c\<lparr>m_active_rules := erase_at i (m_active_rules c),
                               m_inactive_rules := m_inactive_rules c @ [(name, r)]\<rparr>
                   in if find_in_container (m_active_rules c1) name \<noteq> length (m_active_rules c1)
                      then Inl (ScError ''deactivate did not work!!! Should never reach here!'')
                      else Inr c1
              else Inr c
      else Inr c)"

definition activate_rule :: "string \<Rightarrow> rule_container \<Rightarrow> rule_container" where
  "activate_rule name c =
     (if find_active_rule name c = None
      then let i = find_in_container (m_inactive_rules c) name
           in if i < length (m_inactive_rules c)
              then c\<lparr>m_inactive_rules := erase_at i (m_inactive_rules c),
                      m_active_rules := m_active_rules c @ [(name, snd (m_inactive_rules c ! i))]\<rparr>
              else c
      else c)"

definition switch_enable_events :: "bool \<Rightarrow> rule_container \<Rightarrow> rule_container" where
  "switch_enable_events enable c =
     (let switch = map (\<lambda>(n, r). (n, r\<lparr>default_event := (if enable then enable_timing else disable_timing) (default_event r)\<rparr>))
      in c\<lparr>m_active_rules := switch (m_active_rules c), m_inactive_rules := switch (m_inactive_rules c)\<rparr>)"

text \<open>
  The loop over the active rules uses the member iterator that every search of the container sets
  as well. \<open>looks\<close> gives the names that the callbacks of a rule look up in the same container while
  they run; the loop then goes on behind the rule found last, or, when that is not an active one,
  advances an iterator of another list. Callbacks that change the container are not covered.
\<close>

fun executes :: "notification \<Rightarrow> bool" where
  "executes (Execute cb tr d) = True"
| "executes _ = False"

definition looked_up :: "string \<Rightarrow> (string \<times> rule) list \<Rightarrow> nat res" where
  "looked_up name rs =
     (if find_in_container rs name < length rs then Inr (find_in_container rs name)
      else Inl (Undefined ''iterator of another list''))"

fun process_from ::
  "nat \<Rightarrow> (string \<Rightarrow> string list) \<Rightarrow> (rule \<Rightarrow> notification list res) \<Rightarrow> (string \<times> rule) list \<Rightarrow> nat \<Rightarrow>
   notification list res" where
  "process_from 0 looks f rs i = Inl OutOfFuel"
| "process_from (Suc fuel) looks f rs i =
     (if i \<ge> length rs then Inr []
      else bindr (f (snd (rs ! i))) (\<lambda>out.
           bindr (if list_ex executes out \<and> looks (fst (rs ! i)) \<noteq> [] then looked_up (last (looks (fst (rs ! i)))) rs else Inr i) (\<lambda>j.
           bindr (process_from fuel looks f rs (j + 1)) (\<lambda>outs. Inr (out @ outs)))))"

definition process_active_rules ::
  "nat \<Rightarrow> (string \<Rightarrow> string list) \<Rightarrow> u32 \<Rightarrow> u32 \<Rightarrow> nat option \<Rightarrow> bool \<Rightarrow> rule_container \<Rightarrow> notification list res" where
  "process_active_rules fuel looks old new tr delayed c =
     process_from fuel looks (process_rule old new tr delayed) (m_active_rules c) 0"

section \<open>The container keeps every rule once\<close>

definition rule_names :: "rule_container \<Rightarrow> string list" where
  "rule_names c = map fst (m_active_rules c @ m_inactive_rules c)"

definition rules_ok :: "rule_container \<Rightarrow> bool" where
  "rules_ok c \<longleftrightarrow> distinct (rule_names c)"

lemma find_in_container_less: "find_in_container rs name < length rs \<longleftrightarrow> name \<in> fst ` set rs"
  by (induction rs name rule: find_in_container.induct) auto

lemma find_in_container_le: "find_in_container rs name \<le> length rs"
  by (induction rs name rule: find_in_container.induct) auto

lemma find_in_container_nth: "name \<in> fst ` set rs \<Longrightarrow> fst (rs ! find_in_container rs name) = name"
  by (induction rs name rule: find_in_container.induct) auto

lemma find_in_container_at:
  assumes "distinct (map fst rs)" and "i < length rs"
  shows "find_in_container rs (fst (rs ! i)) = i"
  using assms
proof (induction rs arbitrary: i)
  case (Cons r rs)
  then show ?case by (cases r; cases i) (auto simp: image_iff)
qed simp

lemma find_active_None: "find_active_rule name c = None \<longleftrightarrow> name \<notin> fst ` set (m_active_rules c)"
  by (simp add: find_active_rule_def Let_def find_in_container_less)

lemma find_inactive_None: "find_inactive_rule name c = None \<longleftrightarrow> name \<notin> fst ` set (m_inactive_rules c)"
  by (simp add: find_inactive_rule_def Let_def find_in_container_less)

lemma find_rule_None: "find_rule name c = None \<longleftrightarrow> name \<notin> set (rule_names c)"
  using find_active_None [of name c] find_inactive_None [of name c]
  by (auto simp: find_rule_def rule_names_def split: option.splits)

text \<open>Taking the named entry out of a list, and putting it elsewhere.\<close>

lemma erase_found:
  assumes "find_in_container rs name < length rs"
  obtains ys zs r where "rs = ys @ (name, r) # zs" and "erase_at (find_in_container rs name) rs = ys @ zs"
    and "snd (rs ! find_in_container rs name) = r"
proof -
  let ?i = "find_in_container rs name"
  have n: "fst (rs ! ?i) = name" using assms find_in_container_nth by (simp add: find_in_container_less)
  obtain ys zs where "rs = ys @ rs ! ?i # zs" "erase_at ?i rs = ys @ zs" using erase_at_split [OF assms] by blast
  moreover have "rs ! ?i = (name, snd (rs ! ?i))" using n by (simp add: prod_eq_iff)
  ultimately show thesis using that [of ys "snd (rs ! ?i)" zs] by metis
qed

datatype rule_op =
    Add_rule string rule
  | Activate string
  | Deactivate string
  | To_front string
  | To_back string
  | Switch_events bool

fun rule_step :: "rule_op \<Rightarrow> rule_container \<Rightarrow> rule_container res" where
  "rule_step (Add_rule n r) c = Inr (snd (add_notification_rule n r c))"
| "rule_step (Activate n) c = Inr (activate_rule n c)"
| "rule_step (Deactivate n) c = deactivate_rule n c"
| "rule_step (To_front n) c = Inr (move_rule_to_front n c)"
| "rule_step (To_back n) c = Inr (move_rule_to_back n c)"
| "rule_step (Switch_events b) c = Inr (switch_enable_events b c)"

fun rule_run :: "rule_op list \<Rightarrow> rule_container \<Rightarrow> rule_container res" where
  "rule_run [] c = Inr c"
| "rule_run (x # xs) c = bindr (rule_step x c) (rule_run xs)"

text \<open>The abstract view: each name is unknown, active or inactive.\<close>

fun next_status :: "rule_op \<Rightarrow> (string \<Rightarrow> bool option) \<Rightarrow> string \<Rightarrow> bool option" where
  "next_status (Add_rule n r) st = (if st n = None then st(n := Some True) else st)"
| "next_status (Activate n) st = (if st n = Some False then st(n := Some True) else st)"
| "next_status (Deactivate n) st = (if st n = Some True then st(n := Some False) else st)"
| "next_status (To_front n) st = st"
| "next_status (To_back n) st = st"
| "next_status (Switch_events b) st = st"

definition status_of :: "rule_container \<Rightarrow> string \<Rightarrow> bool option" where
  "status_of c n = (if n \<in> fst ` set (m_active_rules c) then Some True
                    else if n \<in> fst ` set (m_inactive_rules c) then Some False else None)"

lemma switch_names [simp]:
  "map fst (m_active_rules (switch_enable_events b c)) = map fst (m_active_rules c)"
  "map fst (m_inactive_rules (switch_enable_events b c)) = map fst (m_inactive_rules c)"
  by (simp_all add: switch_enable_events_def Let_def comp_def split_def)

lemma status_names:
  assumes "map fst (m_active_rules c') = map fst (m_active_rules c)" and "map fst (m_inactive_rules c') = map fst (m_inactive_rules c)"
  shows "status_of c' = status_of c \<and> (rules_ok c' \<longleftrightarrow> rules_ok c)"
proof -
  have "fst ` set (m_active_rules c') = fst ` set (m_active_rules c)" "fst ` set (m_inactive_rules c') = fst ` set (m_inactive_rules c)"
    using assms by (metis list.set_map)+
  then show ?thesis using assms by (simp add: status_of_def fun_eq_iff rules_ok_def rule_names_def)
qed

lemma rule_step_refines:
  assumes "rules_ok c"
  shows "\<exists>c'. rule_step x c = Inr c' \<and> rules_ok c' \<and> status_of c' = next_status x (status_of c)"
proof (cases x)
  case (Add_rule n r)
  have "status_of c n = None \<longleftrightarrow> find_rule n c = None" by (auto simp: find_rule_None status_of_def rule_names_def)
  then show ?thesis using assms Add_rule
    by (auto simp: add_notification_rule_def find_rule_None rules_ok_def rule_names_def status_of_def fun_eq_iff)
next
  case (Activate n)
  show ?thesis
  proof (cases "n \<in> fst ` set (m_active_rules c) \<or> n \<notin> fst ` set (m_inactive_rules c)")
    case True
    then have "activate_rule n c = c"
      by (auto simp: activate_rule_def find_active_None Let_def find_in_container_less)
    then show ?thesis using True assms Activate by (auto simp: status_of_def)
  next
    case False
    then have l: "find_in_container (m_inactive_rules c) n < length (m_inactive_rules c)" by (simp add: find_in_container_less)
    obtain ys zs r where e: "m_inactive_rules c = ys @ (n, r) # zs"
      "erase_at (find_in_container (m_inactive_rules c) n) (m_inactive_rules c) = ys @ zs"
      "snd (m_inactive_rules c ! find_in_container (m_inactive_rules c) n) = r"
      by (rule erase_found [OF l])
    have "activate_rule n c = c\<lparr>m_inactive_rules := ys @ zs, m_active_rules := m_active_rules c @ [(n, r)]\<rparr>"
      using False l e(2,3) by (simp add: activate_rule_def find_active_None Let_def)
    then show ?thesis using False assms Activate e(1)
      by (auto simp: status_of_def rules_ok_def rule_names_def fun_eq_iff)
  qed
next
  case (Deactivate n)
  show ?thesis
  proof (cases "n \<in> fst ` set (m_active_rules c)")
    case False
    then have "deactivate_rule n c = Inr c"
      by (auto simp: deactivate_rule_def Let_def find_in_container_less)
    then show ?thesis using False assms Deactivate by (auto simp: status_of_def)
  next
    case True
    then have l: "find_in_container (m_active_rules c) n < length (m_active_rules c)" by (simp add: find_in_container_less)
    obtain ys zs r where e: "m_active_rules c = ys @ (n, r) # zs"
      "erase_at (find_in_container (m_active_rules c) n) (m_active_rules c) = ys @ zs"
      "snd (m_active_rules c ! find_in_container (m_active_rules c) n) = r"
      by (rule erase_found [OF l])
    have i: "find_inactive_rule n c = None" and out: "n \<notin> fst ` set (ys @ zs)"
      using assms e(1) by (auto simp: find_inactive_None rules_ok_def rule_names_def image_iff)
    have "find_in_container (ys @ zs) n = length (ys @ zs)"
      using out find_in_container_less [of "ys @ zs" n] find_in_container_le [of "ys @ zs" n] by simp
    then have "deactivate_rule n c = Inr (c\<lparr>m_active_rules := ys @ zs, m_inactive_rules := m_inactive_rules c @ [(n, r)]\<rparr>)"
      using i l e(2,3) by (simp add: deactivate_rule_def Let_def)
    then show ?thesis using True assms Deactivate e(1)
      by (auto simp: status_of_def rules_ok_def rule_names_def fun_eq_iff)
  qed
next
  case (To_front n)
  show ?thesis
  proof (cases "0 < find_in_container (m_active_rules c) n \<and> find_in_container (m_active_rules c) n < length (m_active_rules c)")
    case False
    then show ?thesis using assms To_front by (auto simp: move_rule_to_front_def Let_def)
  next
    case True
    obtain ys zs r where e: "m_active_rules c = ys @ (n, r) # zs"
      "erase_at (find_in_container (m_active_rules c) n) (m_active_rules c) = ys @ zs"
      "snd (m_active_rules c ! find_in_container (m_active_rules c) n) = r"
      by (rule erase_found [OF conjunct2 [OF True]])
    have "move_rule_to_front n c = c\<lparr>m_active_rules := (n, r) # ys @ zs\<rparr>"
      using True e(2,3) by (simp add: move_rule_to_front_def Let_def)
    then show ?thesis using assms To_front e(1)
      by (auto simp: status_of_def rules_ok_def rule_names_def fun_eq_iff)
  qed
next
  case (To_back n)
  show ?thesis
  proof (cases "find_in_container (m_active_rules c) n + 1 < length (m_active_rules c)")
    case False
    then show ?thesis using assms To_back find_in_container_le [of "m_active_rules c" n]
      by (auto simp: move_rule_to_back_def Let_def)
  next
    case True
    then have l: "find_in_container (m_active_rules c) n < length (m_active_rules c)" by simp
    obtain ys zs r where e: "m_active_rules c = ys @ (n, r) # zs"
      "erase_at (find_in_container (m_active_rules c) n) (m_active_rules c) = ys @ zs"
      "snd (m_active_rules c ! find_in_container (m_active_rules c) n) = r"
      by (rule erase_found [OF l])
    have "move_rule_to_back n c = c\<lparr>m_active_rules := (ys @ zs) @ [(n, r)]\<rparr>"
      using True e(2,3) by (simp add: move_rule_to_back_def Let_def)
    then show ?thesis using assms To_back e(1)
      by (auto simp: status_of_def rules_ok_def rule_names_def fun_eq_iff)
  qed
next
  case (Switch_events b)
  then show ?thesis using assms status_names [of "switch_enable_events b c" c] by simp
qed

fun status_after :: "rule_op list \<Rightarrow> (string \<Rightarrow> bool option) \<Rightarrow> string \<Rightarrow> bool option" where
  "status_after [] st = st"
| "status_after (x # xs) st = status_after xs (next_status x st)"

lemma rule_run_refines:
  assumes "rules_ok c"
  shows "\<exists>c'. rule_run ops c = Inr c' \<and> rules_ok c' \<and> status_of c' = status_after ops (status_of c)"
  using assms
proof (induction ops arbitrary: c)
  case (Cons x xs)
  obtain c1 where c1: "rule_step x c = Inr c1" "rules_ok c1" "status_of c1 = next_status x (status_of c)"
    using rule_step_refines [OF Cons.prems] by blast
  then show ?case using Cons.IH [OF c1(2)] by simp
qed simp

text \<open>
  C16. Whatever is done to a rule container, no operation fails, no rule is stored twice, and a rule is
  active or inactive exactly as the last of its activations and deactivations says; adding a rule
  under a name that exists and moving rules change neither.
\<close>

theorem rule_container_refines:
  "\<exists>c. rule_run ops new_rules = Inr c \<and> distinct (rule_names c) \<and> status_of c = status_after ops (\<lambda>_. None)"
proof -
  have "rules_ok new_rules" "status_of new_rules = (\<lambda>_. None)"
    by (simp_all add: rules_ok_def rule_names_def new_rules_def status_of_def fun_eq_iff)
  then show ?thesis using rule_run_refines [of new_rules ops] by (simp add: rules_ok_def)
qed

section \<open>Processing the active rules\<close>

fun all_notifications :: "(rule \<Rightarrow> notification list res) \<Rightarrow> rule list \<Rightarrow> notification list res" where
  "all_notifications f [] = Inr []"
| "all_notifications f (r # rs) = bindr (f r) (\<lambda>out. bindr (all_notifications f rs) (\<lambda>outs. Inr (out @ outs)))"

lemma process_from_quiet:
  assumes "length rs - i < fuel"
  shows "process_from fuel (\<lambda>_. []) f rs i = all_notifications f (map snd (drop i rs))"
  using assms
proof (induction fuel arbitrary: i)
  case (Suc fuel)
  show ?case
  proof (cases "i < length rs")
    case True
    have "process_from fuel (\<lambda>_. []) f rs (Suc i) = all_notifications f (map snd (drop (Suc i) rs))"
      using Suc.prems True by (intro Suc.IH) simp
    then show ?thesis using True by (simp add: Cons_nth_drop_Suc [symmetric])
  qed simp
qed simp

definition notified :: "u32 \<Rightarrow> u32 \<Rightarrow> nat option \<Rightarrow> rule \<Rightarrow> notification list" where
  "notified old new tr r =
     (if (case kind r of
            Notify \<Rightarrow> True
          | Notify_on_change \<Rightarrow> old \<noteq> new
          | Write_pattern_equal p \<Rightarrow> pattern_holds p new
          | Read_pattern_equal p \<Rightarrow> pattern_holds p old
          | Pattern_state_change p q \<Rightarrow> pattern_holds p old \<and> pattern_holds q new
          | Bit_state n b \<Rightarrow> bit new (unat n) = b
          | Bit_state_change n b c \<Rightarrow> bit old (unat n) = b \<and> bit new (unat n) = c)
      then event_notify tr (default_event r) else [])"

text \<open>The bit that a rule looks at lies in the register.\<close>

definition bits_in_word :: "rule_kind \<Rightarrow> bool" where
  "bits_in_word k = (case k of Bit_state n b \<Rightarrow> n < 32 | Bit_state_change n b c \<Rightarrow> n < 32 | _ \<Rightarrow> True)"

lemma bit_at_bit: "n < 32 \<Longrightarrow> bit_at v n = Inr (bit v (unat n))"
  by (simp add: bit_at_def bit_iff_odd_drop_bit odd_iff_mod_2_eq_one)

lemma process_rule_notified: "bits_in_word (kind r) \<Longrightarrow> process_rule old new tr False r = Inr (notified old new tr r)"
  by (cases "kind r") (auto simp: process_rule_def notified_def bits_in_word_def bit_at_bit)

text \<open>
  Processing the active rules of a register ends after one visit of each, calls exactly the events of the
  rules that the change of value satisfies, in the order of the container, as long as no callback
  searches the container meanwhile and every bit number lies in the register.
\<close>

theorem active_rules_in_order:
  assumes "\<forall>(n, r) \<in> set (m_active_rules c). bits_in_word (kind r)" and "\<And>n. looks n = []"
    and "length (m_active_rules c) < fuel"
  shows "process_active_rules fuel looks old new tr False c =
    Inr (concat (map (\<lambda>(n, r). notified old new tr r) (m_active_rules c)))"
proof -
  have "all_notifications (process_rule old new tr False) (map snd rs) =
      Inr (concat (map (\<lambda>(n, r). notified old new tr r) rs))"
    if "\<forall>(n, r) \<in> set rs. bits_in_word (kind r)" for rs
    using that by (induction rs) (auto simp: process_rule_notified)
  moreover have "looks = (\<lambda>_. [])" using assms(2) by (simp add: fun_eq_iff)
  ultimately show ?thesis using assms(1,3) by (simp add: process_active_rules_def process_from_quiet)
qed

definition sample_rule :: "rule_kind \<Rightarrow> nat \<Rightarrow> rule" where
  "sample_rule k cb = \<lparr>kind = k, default_event = add_payload_callback cb (new_event False 0)\<rparr>"

definition sample_rules :: rule_container where
  "sample_rules = new_rules\<lparr>m_active_rules := [(''all'', sample_rule Notify 1), (''change'', sample_rule Notify_on_change 2),
     (''bit4'', sample_rule (Bit_state_change 4 False True) 3), (''low'', sample_rule (Bit_state 0 True) 4)]\<rparr>"

theorem active_rules_in_order_witness:
  "process_active_rules 5 (\<lambda>_. []) 0x0F 0x1E (Some 7) False sample_rules =
     Inr [Execute 1 (Some 7) 0, Execute 2 (Some 7) 0, Execute 3 (Some 7) 0]"
proof -
  have b: "\<not> bit (15 :: u32) 4" "bit (30 :: u32) 4" "\<not> bit (30 :: u32) 0"
    by (simp_all add: bit_iff_odd drop_bit_eq_div)
  show ?thesis
    by (subst active_rules_in_order)
      (simp_all add: sample_rules_def sample_rule_def bits_in_word_def notified_def event_notify_def notify_as_callback_def
        add_payload_callback_def new_event_def insort_insert_key_def b new_rules_def)
qed

text \<open>
  The loop over the active rules and the searches of the container share one iterator: when the
  callback of a rule looks up a rule that stands before it, the loop goes back to that rule's successor, and
  so does the callback, again and again: processing the rules never ends.
\<close>

theorem lookup_restarts_rules:
  assumes "i < length rs" and "fst (rs ! i) = n" and "f (snd (rs ! i)) = Inr out" and "list_ex executes out"
    and "looks n = [m]" and "find_in_container rs m < i"
    and "\<forall>j < length rs. j \<noteq> i \<longrightarrow> looks (fst (rs ! j)) = []" and "\<forall>r \<in> snd ` set rs. \<not> isl (f r)"
  shows "process_from fuel looks f rs 0 = Inl OutOfFuel"
proof -
  let ?k = "find_in_container rs m"
  have l: "looked_up m rs = Inr ?k" using assms(1,6) by (simp add: looked_up_def)
  have "process_from fuel looks f rs j = Inl OutOfFuel" if "j \<le> i" for j
    using that
  proof (induction fuel arbitrary: j)
    case (Suc fuel)
    show ?case
    proof (cases "j = i")
      case True
      have "process_from fuel looks f rs (?k + 1) = Inl OutOfFuel" using Suc.IH assms(6) by simp
      then show ?thesis using True assms(1-5) l by simp
    next
      case False
      then have j: "j < length rs" "j < i" using Suc.prems assms(1) by simp_all
      then have "snd (rs ! j) \<in> snd ` set rs" by simp
      then obtain o' where o': "f (snd (rs ! j)) = Inr o'" using assms(8) not_isl_Inr by blast
      have "process_from fuel looks f rs (Suc j) = Inl OutOfFuel" using Suc.IH j by simp
      then show ?thesis using j o' assms(7) by simp
    qed
  qed simp
  then show ?thesis by simp
qed

theorem lookup_restarts_rules_witness:
  "process_active_rules 1000 (\<lambda>n. if n = ''change'' then [''all''] else []) 0 1 None False sample_rules = Inl OutOfFuel"
proof -
  let ?f = "process_rule 0 1 None False" and ?rs = "m_active_rules sample_rules"
  have f: "?f (sample_rule Notify_on_change 2) = Inr [Execute 2 None 0]"
    by (simp add: process_rule_def sample_rule_def event_notify_def notify_as_callback_def add_payload_callback_def new_event_def insort_insert_key_def)
  have "process_from 1000 (\<lambda>n. if n = ''change'' then [''all''] else []) ?f ?rs 0 = Inl OutOfFuel"
  proof (rule lookup_restarts_rules [where i = 1 and n = "''change''" and m = "''all''" and out = "[Execute 2 None 0]"])
    show "\<forall>r \<in> snd ` set ?rs. \<not> isl (?f r)"
      by (simp add: sample_rules_def process_rule_def sample_rule_def bit_at_def)
    show "\<forall>j < length ?rs. j \<noteq> 1 \<longrightarrow> (if fst (?rs ! j) = ''change'' then [''all''] else []) = []"
      by (auto simp: sample_rules_def new_rules_def less_Suc_eq nth_Cons')
  qed (use f in \<open>simp_all add: sample_rules_def new_rules_def\<close>)
  then show ?thesis by (simp add: process_active_rules_def)
qed

end
