(* ===== verification/Registers.thy ===== *)
theory Registers
  imports Reg_Notify
begin

unbundle bit_operations_syntax

text \<open>
  The registers of GreenReg (\<^verbatim>\<open>greenreg/internal/registers\<close> and \<^verbatim>\<open>greenreg/framework/registers\<close>): the byte
  store of a register container, the input and output buffers of a register with their masks, its bits
  and named bit ranges, accesses by the user and over the bus with the notification rules they process, and
  the adapter that turns byte accesses into word accesses. A register is 8, 16 or 32 bits wide; its values are 32 bit
  words. The code shifts by up to 32 positions, which C++ leaves undefined and which the library counts on
  taking the count modulo 32 (the case \<^verbatim>\<open>b == 0\<close> of the constructor of a bit range): so do the definitions here.
  The callbacks of notification rules are recorded, not run.
\<close>

section \<open>The byte store\<close>

type_synonym store = "8 word list"

fun le_bytes :: "nat \<Rightarrow> u32 \<Rightarrow> store" where
  "le_bytes 0 v = []"
| "le_bytes (Suc n) v = ucast v # le_bytes n (drop_bit 8 v)"

fun le_value :: "store \<Rightarrow> u32" where
  "le_value [] = 0"
| "le_value (b # bs) = ucast b OR push_bit 8 (le_value bs)"

text \<open>The code tests no bound in the two functions; an access that does not lie in the array is undefined, which the
  result says. That no history gets there is a theorem about the tests of \<open>create_register\<close>, in \<open>Register_Facts\<close>.\<close>

definition store_read :: "nat \<Rightarrow> nat \<Rightarrow> store \<Rightarrow> u32 res" where
  "store_read off n m =
     (if n \<le> 4 \<and> off + n \<le> length m then Inr (le_value (take n (drop off m)) AND mask (8 * n))
      else Inl (Undefined ''data_store_array''))"

definition store_write :: "nat \<Rightarrow> nat \<Rightarrow> u32 \<Rightarrow> store \<Rightarrow> store res" where
  "store_write off n v m =
     (if n \<le> 4 \<and> off + n \<le> length m then Inr (take off m @ le_bytes n v @ drop (off + n) m)
      else Inl (Undefined ''data_store_array''))"

section \<open>Buffers, registers and their container\<close>

text \<open>
  A standard buffer holds its value, a primary one keeps it in the container's store at a byte offset
  and with a byte size.
\<close>

datatype buffer_data = Own u32 | Stored nat nat

record buffer =
  m_data :: buffer_data
  m_write_mask :: u32
  m_lock_mask :: u32
  m_write_rules :: rule_container

datatype buffers = Shared_io buffer | Split_io buffer buffer

datatype direction = In | Out

text \<open>A bit range accesses one buffer of its register in each direction, or one for both.\<close>

record range_data =
  m_register_data :: direction
  range_write_rules :: rule_container

datatype range_buffers = Shared_range range_data | Split_range range_data range_data

record bit_range =
  m_bit_range_start :: u32
  m_bit_range_end :: u32
  m_bit_range_mask :: u32
  range_bufs :: range_buffers
  range_pre_write :: rule_container
  range_post_write :: rule_container
  range_pre_read :: rule_container
  range_post_read :: rule_container

record register =
  m_register_type :: u32
  m_register_width :: u32
  m_register_offset :: u32
  bufs :: buffers
  m_pre_write_rules :: rule_container
  m_post_write_rules :: rule_container
  m_pre_read_rules :: rule_container
  m_post_read_rules :: rule_container
  m_events_enabled :: bool
  br :: "(string, bit_range) omap"

datatype addressing_mode = ALIGNED_ADDRESS | INDEXED_ADDRESS

record bank =
  m_register_input_store :: store
  m_array_size :: nat
  m_addressing_mode :: addressing_mode
  m_next_register_index :: int
  m_contents :: "(u32, register) omap"

text \<open>The size that the store reports is a product in 32 bits.\<close>

definition new_bank :: "addressing_mode \<Rightarrow> u32 \<Rightarrow> store \<Rightarrow> bank" where
  "new_bank mode dword_size junk =
    \<lparr>m_register_input_store = take (4 * unat dword_size) (junk @ replicate (4 * unat dword_size) 0),
     m_array_size = unat (dword_size * 4), m_addressing_mode = mode, m_next_register_index = -1, m_contents = []\<rparr>"

definition SINGLE_IO :: u32 where "SINGLE_IO = 0x100"
definition SPLIT_IO :: u32 where "SPLIT_IO = 0x200"

definition buf :: "direction \<Rightarrow> buffers \<Rightarrow> buffer" where
  "buf d bs = (case bs of Shared_io b \<Rightarrow> b | Split_io i out \<Rightarrow> (case d of In \<Rightarrow> i | Out \<Rightarrow> out))"

definition upd_buf :: "direction \<Rightarrow> (buffer \<Rightarrow> buffer) \<Rightarrow> buffers \<Rightarrow> buffers" where
  "upd_buf d f bs =
     (case bs of Shared_io b \<Rightarrow> Shared_io (f b)
      | Split_io i out \<Rightarrow> (case d of In \<Rightarrow> Split_io (f i) out | Out \<Rightarrow> Split_io i (f out)))"

definition range_buf :: "direction \<Rightarrow> bit_range \<Rightarrow> range_data" where
  "range_buf d b = (case range_bufs b of Shared_range x \<Rightarrow> x | Split_range i out \<Rightarrow> (case d of In \<Rightarrow> i | Out \<Rightarrow> out))"

section \<open>Shifts\<close>

text \<open>\<^verbatim>\<open>~0x0 << n\<close>, and a value shifted to the right.\<close>

definition ones_above :: "u32 \<Rightarrow> u32" where
  "ones_above n = push_bit (unat (n AND 31)) (- 1)"

definition shift_right :: "u32 \<Rightarrow> u32 \<Rightarrow> u32" where
  "shift_right v n = drop_bit (unat (n AND 31)) v"

definition shift_left :: "u32 \<Rightarrow> u32 \<Rightarrow> u32" where
  "shift_left v n = push_bit (unat (n AND 31)) v"

definition set_bit_to :: "u32 \<Rightarrow> u32 \<Rightarrow> bool \<Rightarrow> u32" where
  "set_bit_to v n b = (if b then v OR shift_left 1 n else v AND NOT (shift_left 1 n))"

section \<open>Reading and setting a buffer\<close>

type_synonym 'a bank_res = "('a \<times> notification list \<times> bank) res"

definition get_register :: "u32 \<Rightarrow> bank \<Rightarrow> register res" where
  "get_register a k = (case map_find (m_contents k) a of Some r \<Rightarrow> Inr r | None \<Rightarrow> Inl (AssertFail ''m_contents.find( _key)''))"

definition put_register :: "u32 \<Rightarrow> register \<Rightarrow> bank \<Rightarrow> bank" where
  "put_register a r k = k\<lparr>m_contents := map_put a r (m_contents k)\<rparr>"

definition buf_get :: "buffer \<Rightarrow> bank \<Rightarrow> u32 res" where
  "buf_get b k = (case m_data b of Own v \<Rightarrow> Inr v | Stored off n \<Rightarrow> store_read off n (m_register_input_store k))"

definition run_rules :: "u32 \<Rightarrow> u32 \<Rightarrow> nat option \<Rightarrow> bool \<Rightarrow> rule_container \<Rightarrow> notification list res" where
  "run_rules old new tr delayed c = process_active_rules (length (m_active_rules c) + 1) (\<lambda>_. []) old new tr delayed c"

text \<open>The part of a register value that a bit range shows to its rules.\<close>

definition range_value :: "u32 \<Rightarrow> bit_range \<Rightarrow> u32 \<Rightarrow> u32" where
  "range_value width b v =
     (let shift_count = m_bit_range_end b + 1 - m_bit_range_start b
      in if width \<noteq> shift_count then shift_right v (m_bit_range_start b) AND NOT (ones_above shift_count) else v)"

fun run_range_rules ::
  "u32 \<Rightarrow> (bit_range \<Rightarrow> rule_container) \<Rightarrow> u32 \<Rightarrow> u32 \<Rightarrow> nat option \<Rightarrow> bool \<Rightarrow> (string, bit_range) omap \<Rightarrow> notification list res" where
  "run_range_rules width rules old new tr delayed [] = Inr []"
| "run_range_rules width rules old new tr delayed ((n, b) # bs) =
     bindr (run_rules (range_value width b old) (range_value width b new) tr delayed (rules b)) (\<lambda>out.
     bindr (run_range_rules width rules old new tr delayed bs) (\<lambda>outs. Inr (out @ outs)))"

text \<open>
  Setting a buffer: the value is stored and the rules of the buffer run, then those of the ranges: a primary buffer
  is taken to be the output, any other the input.
\<close>

definition buf_set :: "u32 \<Rightarrow> direction \<Rightarrow> u32 \<Rightarrow> bank \<Rightarrow> unit bank_res" where
  "buf_set a d v k =
     bindr (get_register a k) (\<lambda>r.
     let b = buf d (bufs r) in
     bindr (buf_get b k) (\<lambda>old.
     bindr (case m_data b of
              Own _ \<Rightarrow> Inr (put_register a (r\<lparr>bufs := upd_buf d (\<lambda>b. b\<lparr>m_data := Own v\<rparr>) (bufs r)\<rparr>) k)
            | Stored off n \<Rightarrow> bindr (store_write off n v (m_register_input_store k))
                (\<lambda>m. Inr (k\<lparr>m_register_input_store := m\<rparr>))) (\<lambda>k1.
     bindr (run_rules old v None False (m_write_rules b)) (\<lambda>out1.
     bindr (run_range_rules (m_register_width r)
              (\<lambda>x. range_write_rules (range_buf (case m_data b of Own _ \<Rightarrow> In | Stored _ _ \<Rightarrow> Out) x)) old v None False (br r)) (\<lambda>out2.
       Inr ((), out1 @ out2, k1))))))"

section \<open>Accesses of the user\<close>

definition reg_get :: "u32 \<Rightarrow> bank \<Rightarrow> u32 res" where
  "reg_get a k = bindr (get_register a k) (\<lambda>r. buf_get (buf In (bufs r)) k)"

definition reg_set :: "u32 \<Rightarrow> u32 \<Rightarrow> bank \<Rightarrow> unit bank_res" where
  "reg_set a v k = buf_set a Out v k"

definition get_write_mask :: "u32 \<Rightarrow> bank \<Rightarrow> u32 res" where
  "get_write_mask a k = bindr (get_register a k) (\<lambda>r. Inr (m_write_mask (buf In (bufs r))))"

definition get_lock_mask :: "u32 \<Rightarrow> bank \<Rightarrow> u32 res" where
  "get_lock_mask a k = bindr (get_register a k) (\<lambda>r. Inr (m_lock_mask (buf In (bufs r))))"

definition set_write_mask :: "u32 \<Rightarrow> u32 \<Rightarrow> bank \<Rightarrow> bank res" where
  "set_write_mask a m k = bindr (get_register a k) (\<lambda>r.
     Inr (put_register a (r\<lparr>bufs := upd_buf In (\<lambda>b. b\<lparr>m_write_mask := m\<rparr>) (bufs r)\<rparr>) k))"

definition set_lock_mask :: "u32 \<Rightarrow> u32 \<Rightarrow> bank \<Rightarrow> bank res" where
  "set_lock_mask a m k = bindr (get_register a k) (\<lambda>r.
     Inr (put_register a (r\<lparr>bufs := upd_buf In (\<lambda>b. b\<lparr>m_lock_mask := m\<rparr>) (bufs r)\<rparr>) k))"

text \<open>The bit functions of a register convert the shifted value as a whole to a truth value.\<close>

definition bit_get :: "u32 \<Rightarrow> u32 \<Rightarrow> bank \<Rightarrow> bool res" where
  "bit_get a n k = bindr (reg_get a k) (\<lambda>v. Inr (shift_right v n \<noteq> 0))"

definition bit_set :: "u32 \<Rightarrow> u32 \<Rightarrow> bool \<Rightarrow> bank \<Rightarrow> unit bank_res" where
  "bit_set a n b k = bindr (reg_get a k) (\<lambda>v. reg_set a (set_bit_to v n b) k)"

definition bit_is_writable :: "u32 \<Rightarrow> u32 \<Rightarrow> bank \<Rightarrow> bool res" where
  "bit_is_writable a n k = bindr (get_write_mask a k) (\<lambda>m. Inr (shift_right m n \<noteq> 0))"

definition bit_set_writable :: "u32 \<Rightarrow> u32 \<Rightarrow> bool \<Rightarrow> bank \<Rightarrow> bank res" where
  "bit_set_writable a n b k = bindr (get_write_mask a k) (\<lambda>m. set_write_mask a (set_bit_to m n b) k)"

definition bit_is_locked :: "u32 \<Rightarrow> u32 \<Rightarrow> bank \<Rightarrow> bool res" where
  "bit_is_locked a n k = bindr (get_lock_mask a k) (\<lambda>m. Inr (shift_right m n \<noteq> 0))"

definition bit_lock :: "u32 \<Rightarrow> u32 \<Rightarrow> bank \<Rightarrow> bank res" where
  "bit_lock a n k = bindr (get_write_mask a k) (\<lambda>m. set_write_mask a (set_bit_to m n True) k)"

definition bit_unlock :: "u32 \<Rightarrow> u32 \<Rightarrow> bank \<Rightarrow> bank res" where
  "bit_unlock a n k = bindr (get_lock_mask a k) (\<lambda>m. set_lock_mask a (set_bit_to m n False) k)"


section \<open>Bits and bit ranges\<close>

text \<open>The bit objects, unlike the functions above, look at their own bit of the value.\<close>

definition acc_get :: "u32 \<Rightarrow> u32 \<Rightarrow> bank \<Rightarrow> bool res" where
  "acc_get a n k = bindr (get_register a k) (\<lambda>r. bindr (buf_get (buf In (bufs r)) k) (\<lambda>v. Inr (1 AND shift_right v n \<noteq> 0)))"

definition acc_set :: "u32 \<Rightarrow> u32 \<Rightarrow> bool \<Rightarrow> bank \<Rightarrow> unit bank_res" where
  "acc_set a n b k = bindr (get_register a k) (\<lambda>r. bindr (buf_get (buf Out (bufs r)) k) (\<lambda>v. buf_set a Out (set_bit_to v n b) k))"

text \<open>The assignment to a bit of a buffer, which asks for the write mask of that buffer first.\<close>

definition acc_assign :: "u32 \<Rightarrow> u32 \<Rightarrow> direction \<Rightarrow> bool \<Rightarrow> bank \<Rightarrow> unit bank_res" where
  "acc_assign a n d b k = bindr (get_register a k) (\<lambda>r.
     if shift_right (m_write_mask (buf d (bufs r))) n \<noteq> 0
     then bindr (buf_get (buf d (bufs r)) k) (\<lambda>v. buf_set a d (set_bit_to v n b) k)
     else Inr ((), [], k))"

definition acc_is_writable :: "u32 \<Rightarrow> u32 \<Rightarrow> bank \<Rightarrow> bool res" where
  "acc_is_writable a n k = bindr (get_register a k) (\<lambda>r. Inr (shift_right (m_write_mask (buf In (bufs r))) n \<noteq> 0))"

definition acc_set_writable :: "u32 \<Rightarrow> u32 \<Rightarrow> bool \<Rightarrow> bank \<Rightarrow> bank res" where
  "acc_set_writable a n b k = bindr (get_register a k) (\<lambda>r.
     Inr (put_register a (r\<lparr>bufs := upd_buf In (\<lambda>x. x\<lparr>m_write_mask := set_bit_to (m_write_mask x) n b\<rparr>) (bufs r)\<rparr>) k))"

definition acc_is_locked :: "u32 \<Rightarrow> u32 \<Rightarrow> bank \<Rightarrow> bool res" where
  "acc_is_locked a n k = bindr (get_register a k) (\<lambda>r. Inr (shift_right (m_lock_mask (buf In (bufs r))) n \<noteq> 0))"

definition acc_lock :: "u32 \<Rightarrow> u32 \<Rightarrow> bank \<Rightarrow> bank res" where
  "acc_lock a n k = bindr (get_register a k) (\<lambda>r.
     Inr (put_register a (r\<lparr>bufs := upd_buf In (\<lambda>x. x\<lparr>m_lock_mask := set_bit_to (m_lock_mask x) n True\<rparr>) (bufs r)\<rparr>) k))"

definition acc_unlock :: "u32 \<Rightarrow> u32 \<Rightarrow> bank \<Rightarrow> bank res" where
  "acc_unlock a n k = bindr (get_register a k) (\<lambda>r.
     Inr (put_register a (r\<lparr>bufs := upd_buf In (\<lambda>x. x\<lparr>m_lock_mask := set_bit_to (m_lock_mask x) n False\<rparr>) (bufs r)\<rparr>) k))"

definition bit_range_mask_of :: "u32 \<Rightarrow> u32 \<Rightarrow> u32" where
  "bit_range_mask_of s e =
     (let x = ones_above s; y = NOT (ones_above (e + 1)) in x AND (if y = 0 then -1 else y))"

definition new_range_data :: "direction \<Rightarrow> range_data" where
  "new_range_data d = \<lparr>m_register_data = d, range_write_rules = new_rules\<rparr>"

definition new_bit_range :: "u32 \<Rightarrow> u32 \<Rightarrow> range_buffers \<Rightarrow> bit_range" where
  "new_bit_range s e bs = \<lparr>m_bit_range_start = s, m_bit_range_end = e, m_bit_range_mask = bit_range_mask_of s e,
     range_bufs = bs, range_pre_write = new_rules, range_post_write = new_rules, range_pre_read = new_rules,
     range_post_read = new_rules\<rparr>"

text \<open>A range is split only when the type of its register is \<open>SPLIT_IO\<close> and nothing else.\<close>

definition create_bit_range :: "u32 \<Rightarrow> string \<Rightarrow> u32 \<Rightarrow> u32 \<Rightarrow> bank \<Rightarrow> bank res" where
  "create_bit_range a name s e k = bindr (get_register a k) (\<lambda>r.
     if map_find (br r) name \<noteq> None then Inl (ScFatal ''Bit range already exists'')
     else if e \<ge> m_register_width r then Inl (ScFatal ''The end bit passes the end of register width'')
     else let bs = (if m_register_type r = SPLIT_IO then Split_range (new_range_data In) (new_range_data Out)
                    else Shared_range (new_range_data Out))
          in Inr (put_register a (r\<lparr>br := map_put name (new_bit_range s e bs) (br r)\<rparr>) k))"

definition get_range :: "string \<Rightarrow> register \<Rightarrow> bit_range res" where
  "get_range name r = (case map_find (br r) name of Some x \<Rightarrow> Inr x | None \<Rightarrow> Inl (ScFatal ''Invalid bit range name''))"

definition range_extract :: "bit_range \<Rightarrow> u32 \<Rightarrow> u32" where
  "range_extract x v =
     shift_right v (m_bit_range_start x) AND NOT (ones_above (m_bit_range_end x + 1 - m_bit_range_start x))"

definition range_insert :: "bit_range \<Rightarrow> u32 \<Rightarrow> u32 \<Rightarrow> u32" where
  "range_insert x v w =
     (v AND NOT (m_bit_range_mask x)) OR (shift_left w (m_bit_range_start x) AND m_bit_range_mask x)"

definition bit_range_get :: "u32 \<Rightarrow> string \<Rightarrow> bank \<Rightarrow> u32 res" where
  "bit_range_get a name k = bindr (get_register a k) (\<lambda>r. bindr (get_range name r) (\<lambda>x.
     bindr (buf_get (buf (m_register_data (range_buf In x)) (bufs r)) k) (\<lambda>v. Inr (range_extract x v))))"

definition bit_range_set :: "u32 \<Rightarrow> string \<Rightarrow> u32 \<Rightarrow> bank \<Rightarrow> unit bank_res" where
  "bit_range_set a name w k = bindr (get_register a k) (\<lambda>r. bindr (get_range name r) (\<lambda>x.
     let d = m_register_data (range_buf Out x) in
     bindr (buf_get (buf d (bufs r)) k) (\<lambda>v. buf_set a d (range_insert x v w) k)))"

definition range_bit :: "bit_range \<Rightarrow> u32 \<Rightarrow> u32" where
  "range_bit x n = n + m_bit_range_start x"


section \<open>Rules of registers and ranges, and the event switch\<close>

datatype rule_place = PRE_READ | POST_READ | PRE_WRITE | POST_WRITE | USR_IN_WRITE | USR_OUT_WRITE

definition upd_rules :: "rule_place \<Rightarrow> (rule_container \<Rightarrow> rule_container) \<Rightarrow> register \<Rightarrow> register" where
  "upd_rules p f r = (case p of
       PRE_READ \<Rightarrow> r\<lparr>m_pre_read_rules := f (m_pre_read_rules r)\<rparr>
     | POST_READ \<Rightarrow> r\<lparr>m_post_read_rules := f (m_post_read_rules r)\<rparr>
     | PRE_WRITE \<Rightarrow> r\<lparr>m_pre_write_rules := f (m_pre_write_rules r)\<rparr>
     | POST_WRITE \<Rightarrow> r\<lparr>m_post_write_rules := f (m_post_write_rules r)\<rparr>
     | USR_IN_WRITE \<Rightarrow> r\<lparr>bufs := upd_buf In (\<lambda>b. b\<lparr>m_write_rules := f (m_write_rules b)\<rparr>) (bufs r)\<rparr>
     | USR_OUT_WRITE \<Rightarrow> r\<lparr>bufs := upd_buf Out (\<lambda>b. b\<lparr>m_write_rules := f (m_write_rules b)\<rparr>) (bufs r)\<rparr>)"

definition upd_range_buf :: "direction \<Rightarrow> (range_data \<Rightarrow> range_data) \<Rightarrow> range_buffers \<Rightarrow> range_buffers" where
  "upd_range_buf d f bs =
     (case bs of Shared_range x \<Rightarrow> Shared_range (f x)
      | Split_range i out \<Rightarrow> (case d of In \<Rightarrow> Split_range (f i) out | Out \<Rightarrow> Split_range i (f out)))"

definition upd_range_rules :: "rule_place \<Rightarrow> (rule_container \<Rightarrow> rule_container) \<Rightarrow> bit_range \<Rightarrow> bit_range" where
  "upd_range_rules p f x = (case p of
       PRE_READ \<Rightarrow> x\<lparr>range_pre_read := f (range_pre_read x)\<rparr>
     | POST_READ \<Rightarrow> x\<lparr>range_post_read := f (range_post_read x)\<rparr>
     | PRE_WRITE \<Rightarrow> x\<lparr>range_pre_write := f (range_pre_write x)\<rparr>
     | POST_WRITE \<Rightarrow> x\<lparr>range_post_write := f (range_post_write x)\<rparr>
     | USR_IN_WRITE \<Rightarrow> x\<lparr>range_bufs := upd_range_buf In (\<lambda>d. d\<lparr>range_write_rules := f (range_write_rules d)\<rparr>) (range_bufs x)\<rparr>
     | USR_OUT_WRITE \<Rightarrow> x\<lparr>range_bufs := upd_range_buf Out (\<lambda>d. d\<lparr>range_write_rules := f (range_write_rules d)\<rparr>) (range_bufs x)\<rparr>)"

text \<open>A read pattern rule is built as a write pattern rule.\<close>

definition built_kind :: "rule_kind \<Rightarrow> rule_kind" where
  "built_kind k = (case k of Read_pattern_equal p \<Rightarrow> Write_pattern_equal p | _ \<Rightarrow> k)"

definition add_rule_to :: "string \<Rightarrow> rule_kind \<Rightarrow> nat \<Rightarrow> bool \<Rightarrow> rule_container \<Rightarrow> rule_container" where
  "add_rule_to name k junk enabled c =
     switch_enable_events enabled
       (snd (add_notification_rule name \<lparr>kind = built_kind k, default_event = new_event True junk\<rparr> c))"

definition add_rule :: "u32 \<Rightarrow> rule_place \<Rightarrow> string \<Rightarrow> rule_kind \<Rightarrow> nat \<Rightarrow> bank \<Rightarrow> bank res" where
  "add_rule a p name k junk b = bindr (get_register a b) (\<lambda>r.
     Inr (put_register a (upd_rules p (add_rule_to name k junk (m_events_enabled r)) r) b))"

definition add_range_rule :: "u32 \<Rightarrow> string \<Rightarrow> rule_place \<Rightarrow> string \<Rightarrow> rule_kind \<Rightarrow> nat \<Rightarrow> bank \<Rightarrow> bank res" where
  "add_range_rule a rname p name k junk b = bindr (get_register a b) (\<lambda>r. bindr (get_range rname r) (\<lambda>x.
     Inr (put_register a
       (r\<lparr>br := map_put rname (upd_range_rules p (add_rule_to name k junk (m_events_enabled r)) x) (br r)\<rparr>) b)))"

definition switch_range :: "bool \<Rightarrow> bit_range \<Rightarrow> bit_range" where
  "switch_range enable x =
     fold (\<lambda>p. upd_range_rules p (switch_enable_events enable))
       [PRE_WRITE, POST_WRITE, PRE_READ, POST_READ, USR_IN_WRITE, USR_OUT_WRITE] x"

definition switch_register :: "bool \<Rightarrow> register \<Rightarrow> register" where
  "switch_register enable r =
     (let r1 = fold (\<lambda>p. upd_rules p (switch_enable_events enable))
                 [PRE_WRITE, POST_WRITE, PRE_READ, POST_READ, USR_IN_WRITE, USR_OUT_WRITE] (r\<lparr>m_events_enabled := enable\<rparr>)
      in r1\<lparr>br := map (\<lambda>(n, x). (n, switch_range enable x)) (br r1)\<rparr>)"

section \<open>Accesses over the bus\<close>

text \<open>
  The process that runs the access decides whether it may wait; what the rest of the system does to the
  bank during a wait is the function \<open>env\<close>.
\<close>

datatype proc_kind = Method_process | Thread_process | Other_process

definition busy :: "bool \<Rightarrow> register \<Rightarrow> bool" where
  "busy delayed r = (m_events_enabled r \<or> delayed)"

definition access_rules ::
  "(register \<Rightarrow> rule_container) \<Rightarrow> (bit_range \<Rightarrow> rule_container) \<Rightarrow> u32 \<Rightarrow> u32 \<Rightarrow> nat option \<Rightarrow> bool \<Rightarrow> register \<Rightarrow> notification list res" where
  "access_rules rules range_rules old new tr delayed r =
     bindr (run_rules old new tr delayed (rules r)) (\<lambda>out.
     bindr (run_range_rules (m_register_width r) range_rules old new tr delayed (br r)) (\<lambda>outs. Inr (out @ outs)))"

definition before_access ::
  "(register \<Rightarrow> rule_container) \<Rightarrow> (bit_range \<Rightarrow> rule_container) \<Rightarrow> u32 \<Rightarrow> u32 \<Rightarrow> nat option \<Rightarrow> bool \<Rightarrow> proc_kind \<Rightarrow>
   (bank \<Rightarrow> bank) \<Rightarrow> register \<Rightarrow> bank \<Rightarrow> (notification list \<times> bank) res" where
  "before_access rules range_rules old new tr delayed proc env r k = (case proc of
       Method_process \<Rightarrow> if busy delayed r then Inr ([], k)
                         else bindr (access_rules rules range_rules old new tr delayed r) (\<lambda>out. Inr (out, k))
     | Thread_process \<Rightarrow> bindr (access_rules rules range_rules old new tr delayed r)
                           (\<lambda>out. Inr (out, if busy delayed r then env k else k))
     | Other_process \<Rightarrow> if busy delayed r then Inl (AssertFail ''unexpected process handle'') else Inr ([], k))"

definition after_access :: "bool \<Rightarrow> proc_kind \<Rightarrow> (bank \<Rightarrow> bank) \<Rightarrow> register \<Rightarrow> bank \<Rightarrow> bank res" where
  "after_access delayed proc env r k =
     (if busy delayed r
      then (case proc of Method_process \<Rightarrow> Inr k | Thread_process \<Rightarrow> Inr (env k)
            | Other_process \<Rightarrow> Inl (AssertFail ''unexpected process handle''))
      else Inr k)"

definition on_received_write_request ::
  "proc_kind \<Rightarrow> (bank \<Rightarrow> bank) \<Rightarrow> u32 \<Rightarrow> u32 \<Rightarrow> nat option \<Rightarrow> bool \<Rightarrow> bank \<Rightarrow> unit bank_res" where
  "on_received_write_request proc env a v tr delayed k =
     bindr (get_register a k) (\<lambda>r.
     bindr (buf_get (buf In (bufs r)) k) (\<lambda>old.
     let m = m_write_mask (buf Out (bufs r)); new = (v AND m) OR (old AND NOT m) in
     bindr (before_access m_pre_write_rules range_pre_write old new tr delayed proc env r k) (\<lambda>(out1, k1).
     bindr (buf_set a In new k1) (\<lambda>(_, out2, k2).
     bindr (get_register a k2) (\<lambda>r2.
     bindr (access_rules m_post_write_rules range_post_write old new tr delayed r2) (\<lambda>out3.
     bindr (after_access delayed proc env r2 k2) (\<lambda>k3. Inr ((), out1 @ out2 @ out3, k3))))))))"

definition on_received_read_request ::
  "proc_kind \<Rightarrow> (bank \<Rightarrow> bank) \<Rightarrow> u32 \<Rightarrow> nat option \<Rightarrow> bool \<Rightarrow> bank \<Rightarrow> u32 bank_res" where
  "on_received_read_request proc env a tr delayed k =
     bindr (get_register a k) (\<lambda>r.
     bindr (buf_get (buf Out (bufs r)) k) (\<lambda>old.
     bindr (before_access m_pre_read_rules range_pre_read old old tr delayed proc env r k) (\<lambda>(out1, k1).
     bindr (get_register a k1) (\<lambda>r1.
     bindr (buf_get (buf Out (bufs r1)) k1) (\<lambda>v.
     bindr (access_rules m_post_read_rules range_post_read old v tr delayed r1) (\<lambda>out2.
     bindr (after_access delayed proc env r1 k1) (\<lambda>k2. Inr (v, out1 @ out2, k2))))))))"

definition bus_read ::
  "proc_kind \<Rightarrow> (bank \<Rightarrow> bank) \<Rightarrow> u32 \<Rightarrow> u32 \<Rightarrow> u32 \<Rightarrow> nat option \<Rightarrow> bool \<Rightarrow> bank \<Rightarrow> (bool \<times> u32) bank_res" where
  "bus_read proc env data a byte_enable tr delayed k =
     (if byte_enable \<noteq> 0
      then if map_find (m_contents k) a \<noteq> None
           then bindr (on_received_read_request proc env a tr delayed k) (\<lambda>(v, out, k1). Inr ((True, v), out, k1))
           else Inr ((True, 0xffffffff), [], k)
      else Inr ((False, data), [], k))"

definition bus_write ::
  "proc_kind \<Rightarrow> (bank \<Rightarrow> bank) \<Rightarrow> u32 \<Rightarrow> u32 \<Rightarrow> u32 \<Rightarrow> nat option \<Rightarrow> bool \<Rightarrow> bank \<Rightarrow> bool bank_res" where
  "bus_write proc env data a byte_enable tr delayed k =
     (if byte_enable \<noteq> 0
      then if map_find (m_contents k) a \<noteq> None
           then bindr (on_received_write_request proc env a data tr delayed k) (\<lambda>(_, out, k1). Inr (True, out, k1))
           else Inr (True, [], k)
      else Inr (False, [], k))"

section \<open>Creating registers\<close>

definition add_register :: "u32 \<Rightarrow> register \<Rightarrow> bank \<Rightarrow> bool \<times> bank" where
  "add_register a r k = (if map_find (m_contents k) a = None then (True, put_register a r k) else (False, k))"

definition new_buffer :: "buffer_data \<Rightarrow> u32 \<Rightarrow> u32 \<Rightarrow> buffer" where
  "new_buffer d wm lm = \<lparr>m_data = d, m_write_mask = wm, m_lock_mask = lm, m_write_rules = new_rules\<rparr>"

text \<open>The constructor of a register enters it into the container of its bank.\<close>

definition register_ctor :: "u32 \<Rightarrow> u32 \<Rightarrow> u32 \<Rightarrow> buffers \<Rightarrow> bank \<Rightarrow> bank res" where
  "register_ctor offset type width bs k =
     (let r = \<lparr>m_register_type = type, m_register_width = width, m_register_offset = offset, bufs = bs,
               m_pre_write_rules = new_rules, m_post_write_rules = new_rules, m_pre_read_rules = new_rules,
               m_post_read_rules = new_rules, m_events_enabled = True, br = []\<rparr>;
          (added, k1) = add_register offset r k
      in case m_addressing_mode k of
           ALIGNED_ADDRESS \<Rightarrow>
             if width = 8 then (if \<not> added then Inl (ScFatal ''Attempt to add multiple registers'') else Inr k1)
             else if width = 16
             then (if offset mod 2 > 0 \<or> \<not> added then Inl (ScFatal ''multiple registers or miss-alignment'') else Inr k1)
             else if width = 32
             then (if offset mod 4 > 0 \<or> \<not> added then Inl (ScFatal ''multiple registers or miss-alignment'') else Inr k1)
             else Inl (ScFatal ''invalid width'')
         | INDEXED_ADDRESS \<Rightarrow>
             if \<not> added then Inl (ScFatal ''Attempt to add multiple registers'') else Inr k1)"

definition get_next_register_index :: "bank \<Rightarrow> (int \<times> bank) res" where
  "get_next_register_index k = (case m_addressing_mode k of
       INDEXED_ADDRESS \<Rightarrow>
         if m_next_register_index k + 1 \<ge> 0 \<and> nat (m_next_register_index k + 1) < m_array_size k
         then Inr (m_next_register_index k + 1, k\<lparr>m_next_register_index := m_next_register_index k + 1\<rparr>)
         else Inl (ScError ''Attempting to add more registers than allocated'')
     | ALIGNED_ADDRESS \<Rightarrow> Inr (-1, k))"

definition store_offset :: "addressing_mode \<Rightarrow> u32 \<Rightarrow> nat" where
  "store_offset mode offset = unat (case mode of ALIGNED_ADDRESS \<Rightarrow> offset | INDEXED_ADDRESS \<Rightarrow> offset * 4)"

text \<open>The constructor of the primary data writes the initial value into the store.\<close>

definition primary_ctor :: "u32 \<Rightarrow> u32 \<Rightarrow> u32 \<Rightarrow> bank \<Rightarrow> bank res" where
  "primary_ctor offset width data k =
     bindr (case m_addressing_mode k of INDEXED_ADDRESS \<Rightarrow> bindr (get_next_register_index k) (\<lambda>(_, k1). Inr k1)
            | ALIGNED_ADDRESS \<Rightarrow> Inr k) (\<lambda>k1.
     bindr (store_write (store_offset (m_addressing_mode k) offset) (unat (width div 8)) data (m_register_input_store k1)) (\<lambda>m.
       Inr (k1\<lparr>m_register_input_store := m\<rparr>)))"

definition primary_buffer :: "addressing_mode \<Rightarrow> u32 \<Rightarrow> u32 \<Rightarrow> u32 \<Rightarrow> u32 \<Rightarrow> buffer" where
  "primary_buffer mode offset width wm lm = new_buffer (Stored (store_offset mode offset) (unat (width div 8))) wm lm"

definition register_sharedio :: "u32 \<Rightarrow> u32 \<Rightarrow> u32 \<Rightarrow> u32 \<Rightarrow> u32 \<Rightarrow> u32 \<Rightarrow> bank \<Rightarrow> bank res" where
  "register_sharedio offset data input_mask type width lock_mask k =
     bindr (register_ctor offset type width
              (Shared_io (primary_buffer (m_addressing_mode k) offset width input_mask lock_mask)) k)
       (primary_ctor offset width data)"

definition register_splitio :: "u32 \<Rightarrow> u32 \<Rightarrow> u32 \<Rightarrow> u32 \<Rightarrow> u32 \<Rightarrow> u32 \<Rightarrow> bank \<Rightarrow> bank res" where
  "register_splitio offset data input_mask type width lock_mask k =
     bindr (register_ctor offset type width
              (Split_io (new_buffer (Own data) input_mask lock_mask)
                (primary_buffer (m_addressing_mode k) offset width input_mask lock_mask)) k)
       (primary_ctor offset width data)"

text \<open>The products of the bounds checks are computed in 32 bits, the size of the store is an \<^verbatim>\<open>unsigned long\<close>.\<close>

definition create_register :: "u32 \<Rightarrow> u32 \<Rightarrow> u32 \<Rightarrow> u32 \<Rightarrow> u32 \<Rightarrow> u32 \<Rightarrow> bank \<Rightarrow> bank res" where
  "create_register offset type data input_mask width lock_mask k =
     (if m_addressing_mode k = INDEXED_ADDRESS \<and> unat (offset * 4) \<ge> m_array_size k
      then Inl (ScFatal ''out-of-bounds in the indexed-addressing container'')
      else if m_addressing_mode k = ALIGNED_ADDRESS \<and> unat (offset * 8 + width) > m_array_size k * 8
      then Inl (ScFatal ''out-of-bounds in the aligned-addressing container'')
      else if type AND SINGLE_IO > 0 then register_sharedio offset data input_mask type width lock_mask k
      else if type AND SPLIT_IO > 0 then register_splitio offset data input_mask type width lock_mask k
      else Inl (ScError ''Invalid Register Type''))"

fun create_register_block ::
  "nat \<Rightarrow> u32 \<Rightarrow> u32 \<Rightarrow> u32 \<Rightarrow> u32 \<Rightarrow> u32 \<Rightarrow> u32 \<Rightarrow> u32 \<Rightarrow> bank \<Rightarrow> bank res" where
  "create_register_block 0 offset offset_end type data input_mask width lock_mask k = Inl OutOfFuel"
| "create_register_block (Suc fuel) offset offset_end type data input_mask width lock_mask k =
     (if offset < offset_end
      then bindr (create_register offset type data input_mask width lock_mask k) (\<lambda>k1.
           create_register_block fuel (case m_addressing_mode k of ALIGNED_ADDRESS \<Rightarrow> offset + width div 8 | INDEXED_ADDRESS \<Rightarrow> offset + 1)
             offset_end type data input_mask width lock_mask k1)
      else Inr k)"

end
