(* ===== verification/Register_Facts.thy ===== *)
theory Register_Facts
  imports Registers
begin

unbundle bit_operations_syntax

text \<open>
  What holds of the registers of GreenReg: the store returns what was written, a bank keeps its registers
  inside its store, bit ranges and write masks, and where the buffers of a split register
  and the functions on single bits differ from what their names say.
\<close>

section \<open>The store\<close>

lemma length_le_bytes [simp]: "length (le_bytes n v) = n"
  by (induction n v rule: le_bytes.induct) auto

lemma bit_le_value: "bit (le_value bs) i \<longleftrightarrow> i < 32 \<and> i div 8 < length bs \<and> bit (bs ! (i div 8)) (i mod 8)"
proof (induction bs arbitrary: i)
  case (Cons b bs)
  show ?case
  proof (cases "i < 8")
    case True
    then show ?thesis by (simp add: bit_or_iff bit_push_bit_iff bit_ucast_iff)
  next
    case False
    then obtain j where j: "i = 8 + j" by (metis le_add_diff_inverse not_less)
    have "\<not> bit b i" using False bit_imp_le_length [of b i] by auto
    moreover have "(8 + j) div 8 = Suc (j div 8)" by simp
    ultimately show ?thesis using Cons.IH [of j] j by (auto simp: bit_or_iff bit_push_bit_iff bit_ucast_iff)
  qed
qed simp

lemma nth_le_bytes: "i < n \<Longrightarrow> le_bytes n v ! i = ucast (drop_bit (8 * i) v)"
proof (induction n v arbitrary: i rule: le_bytes.induct)
  case (2 n v)
  then show ?case by (cases i) (simp_all add: algebra_simps)
qed simp

lemma le_value_le_bytes:
  assumes "n \<le> 4"
  shows "le_value (le_bytes n v) = v AND mask (8 * n)"
proof (rule bit_word_eqI)
  fix i assume "i < LENGTH(32)"
  have "bit (ucast (drop_bit (8 * (i div 8)) v) :: 8 word) (i mod 8) = bit v i"
    by (simp add: bit_ucast_iff bit_drop_bit_eq)
  moreover have "i div 8 < n \<longleftrightarrow> i < 8 * n" by auto
  ultimately show "bit (le_value (le_bytes n v)) i = bit (v AND mask (8 * n)) i"
    using \<open>i < LENGTH(32)\<close> by (auto simp: bit_le_value nth_le_bytes bit_and_iff bit_mask_iff)
qed

lemma store_write_ok: "n \<le> 4 \<Longrightarrow> off + n \<le> length m \<Longrightarrow>
    store_write off n v m = Inr (take off m @ le_bytes n v @ drop (off + n) m)"
  by (simp add: store_write_def)

lemma store_write_length: "store_write off n v m = Inr m' \<Longrightarrow> length m' = length m"
  by (auto simp: store_write_def split: if_splits)

lemma store_read_written:
  assumes "store_write off n v m = Inr m'"
  shows "store_read off n m' = Inr (v AND mask (8 * n))"
proof -
  from assms have l: "n \<le> 4" "off + n \<le> length m" and m': "m' = take off m @ le_bytes n v @ drop (off + n) m"
    by (auto simp: store_write_def split: if_splits)
  have "take n (drop off m') = le_bytes n v" using l m' by simp
  then show ?thesis using l m' by (simp add: store_read_def le_value_le_bytes ac_simps)
qed

lemma store_read_elsewhere:
  assumes "store_write off n v m = Inr m'" and "off + n \<le> off' \<or> off' + n' \<le> off"
  shows "store_read off' n' m' = store_read off' n' m"
proof -
  from assms(1) have l: "off + n \<le> length m" and m': "m' = take off m @ le_bytes n v @ drop (off + n) m"
    by (auto simp: store_write_def split: if_splits)
  have "take n' (drop off' m') = take n' (drop off' m)" if "off' + n' \<le> length m"
    by (rule nth_equalityI) (use l m' assms(2) that in \<open>auto simp: nth_append\<close>)
  moreover have "length m' = length m" using store_write_length [OF assms(1)] .
  ultimately show ?thesis by (simp add: store_read_def)
qed

lemma store_read_masked: "store_read off n m = Inr v \<Longrightarrow> v AND mask (8 * n) = v"
  by (auto simp: store_read_def ac_simps split: if_splits)


section \<open>Well-formed banks\<close>

definition buffers_fit :: "nat \<Rightarrow> nat \<Rightarrow> nat \<Rightarrow> buffers \<Rightarrow> bool" where
  "buffers_fit off n len bs \<longleftrightarrow> n \<le> 4 \<and> off + n \<le> len \<and>
     (case bs of Shared_io b \<Rightarrow> m_data b = Stored off n
      | Split_io i out \<Rightarrow> (case m_data i of Own _ \<Rightarrow> True | _ \<Rightarrow> False) \<and> m_data out = Stored off n)"

definition register_ok :: "addressing_mode \<Rightarrow> nat \<Rightarrow> u32 \<Rightarrow> register \<Rightarrow> bool" where
  "register_ok mode len a r \<longleftrightarrow> m_register_offset r = a \<and>
     (mode = ALIGNED_ADDRESS \<longrightarrow> m_register_width r \<in> {8, 16, 32} \<and> a mod (m_register_width r div 8) = 0) \<and>
     buffers_fit (store_offset mode a) (unat (m_register_width r div 8)) len (bufs r)"

definition bank_ok :: "bank \<Rightarrow> bool" where
  "bank_ok k \<longleftrightarrow> omap_ok (m_contents k) \<and>
     (\<forall>(a, r) \<in> set (m_contents k). register_ok (m_addressing_mode k) (length (m_register_input_store k)) a r)"

lemma find_in_bank:
  assumes "omap_ok m"
  shows "(\<forall>(a, r) \<in> set m. P a r) \<longleftrightarrow> (\<forall>a r. map_find m a = Some r \<longrightarrow> P a r)"
  using omap_ok_distinct [OF assms] by (auto simp: map_of_eq_Some_iff)

lemma bank_ok_find:
  "bank_ok k \<longleftrightarrow> omap_ok (m_contents k) \<and> (\<forall>a r. map_find (m_contents k) a = Some r \<longrightarrow>
     register_ok (m_addressing_mode k) (length (m_register_input_store k)) a r)"
  using find_in_bank unfolding bank_ok_def by blast

lemma get_register_ok:
  assumes "bank_ok k" and "get_register a k = Inr r"
  shows "register_ok (m_addressing_mode k) (length (m_register_input_store k)) a r"
  using assms by (auto simp: bank_ok_find get_register_def split: option.splits)

lemma bank_ok_put:
  "bank_ok k \<Longrightarrow> register_ok (m_addressing_mode k) (length (m_register_input_store k)) a r \<Longrightarrow> bank_ok (put_register a r k)"
  by (auto simp: bank_ok_find put_register_def map_simps)

lemma put_register_simps [simp]:
  "m_register_input_store (put_register a r k) = m_register_input_store k"
  "m_addressing_mode (put_register a r k) = m_addressing_mode k"
  "m_array_size (put_register a r k) = m_array_size k"
  "m_contents (put_register a r k) = map_put a r (m_contents k)"
  by (simp_all add: put_register_def)

lemma get_put_register [simp]: "get_register b (put_register a r k) = (if b = a then Inr r else get_register b k)"
  by (simp add: get_register_def put_register_def map_simps)

definition same_place :: "(buffer \<Rightarrow> buffer) \<Rightarrow> bool" where
  "same_place f \<longleftrightarrow> (\<forall>b. (\<forall>off n. m_data b = Stored off n \<longrightarrow> m_data (f b) = Stored off n) \<and>
     (\<forall>v. m_data b = Own v \<longrightarrow> (\<exists>w. m_data (f b) = Own w)))"

lemma buffers_fit_upd: "same_place f \<Longrightarrow> buffers_fit off n len bs \<Longrightarrow> buffers_fit off n len (upd_buf d f bs)"
  by (auto simp: buffers_fit_def upd_buf_def same_place_def split: buffers.splits direction.splits buffer_data.splits)

text \<open>Changing a register in place keeps the bank.\<close>

lemma bank_ok_change:
  assumes "bank_ok k" and "get_register a k = Inr r" and "m_register_offset r' = m_register_offset r"
    and "m_register_width r' = m_register_width r" and "bufs r' = bufs r \<or> (\<exists>d f. same_place f \<and> bufs r' = upd_buf d f (bufs r))"
  shows "bank_ok (put_register a r' k)"
proof (rule bank_ok_put [OF assms(1)])
  have "buffers_fit off n len (bufs r')" if "buffers_fit off n len (bufs r)" for off n len
    using assms(5) buffers_fit_upd that by metis
  then show "register_ok (m_addressing_mode k) (length (m_register_input_store k)) a r'"
    using get_register_ok [OF assms(1,2)] assms(3,4) by (simp add: register_ok_def)
qed

lemma bank_ok_store:
  "bank_ok k \<Longrightarrow> length m = length (m_register_input_store k) \<Longrightarrow> bank_ok (k\<lparr>m_register_input_store := m\<rparr>)"
  by (simp add: bank_ok_def)


lemma same_place_own:
  assumes "register_ok mode len a r" and "m_data (buf d (bufs r)) = Own w"
  shows "\<exists>f. same_place f \<and> upd_buf d (\<lambda>b. b\<lparr>m_data := Own v\<rparr>) (bufs r) = upd_buf d f (bufs r)"
proof -
  let ?f = "\<lambda>b. if \<exists>w. m_data b = Own w then b\<lparr>m_data := Own v\<rparr> else b"
  have "same_place ?f" by (auto simp: same_place_def)
  moreover have "upd_buf d (\<lambda>b. b\<lparr>m_data := Own v\<rparr>) (bufs r) = upd_buf d ?f (bufs r)"
    using assms(2) by (auto simp: upd_buf_def buf_def split: buffers.splits direction.splits)
  ultimately show ?thesis by blast
qed

lemma bank_ok_buf_set:
  assumes "bank_ok k" and "buf_set a d v k = Inr (u, out, k')"
  shows "bank_ok k'" and "m_addressing_mode k' = m_addressing_mode k" and "m_array_size k' = m_array_size k"
    and "length (m_register_input_store k') = length (m_register_input_store k)"
proof -
  obtain r where r: "get_register a k = Inr r" using assms(2) by (auto simp: buf_set_def bindr_eq_Inr)
  note ok = get_register_ok [OF assms(1) r]
  show "bank_ok k'"
  proof (cases "m_data (buf d (bufs r))")
    case (Own w)
    let ?r = "r\<lparr>bufs := upd_buf d (\<lambda>b. b\<lparr>m_data := Own v\<rparr>) (bufs r)\<rparr>"
    have "bank_ok (put_register a ?r k)"
      by (rule bank_ok_change [OF assms(1) r]) (use same_place_own [OF ok Own] in auto)
    then show ?thesis using assms(2) r Own by (auto simp: buf_set_def buf_get_def bindr_eq_Inr Let_def)
  next
    case (Stored off n)
    then obtain m where "store_write off n v (m_register_input_store k) = Inr m" "k' = k\<lparr>m_register_input_store := m\<rparr>"
      using assms(2) r by (auto simp: buf_set_def bindr_eq_Inr Let_def)
    then show ?thesis using assms(1) by (simp add: bank_ok_store store_write_length)
  qed
  show "m_addressing_mode k' = m_addressing_mode k" "m_array_size k' = m_array_size k"
    and "length (m_register_input_store k') = length (m_register_input_store k)"
    using assms(2) r by (auto simp: buf_set_def bindr_eq_Inr Let_def split: buffer_data.splits dest: store_write_length)
qed

text \<open>
  What an access over the bus keeps: anything that setting a buffer and the other processes keep.
\<close>

lemma bus_write_keeps:
  assumes "P k" and "\<And>k. P k \<Longrightarrow> P (env k)" and "bus_write proc env v a be tr delayed k = Inr (b, out, k')"
    and set_keeps: "\<And>k v u out k'. P k \<Longrightarrow> buf_set a In v k = Inr (u, out, k') \<Longrightarrow> P k'"
  shows "P k'"
proof (cases "be \<noteq> 0 \<and> map_find (m_contents k) a \<noteq> None")
  case True
  obtain r old new out1 k1 u out2 k2 r2 where
    b: "before_access m_pre_write_rules range_pre_write old new tr delayed proc env r k = Inr (out1, k1)"
    and w: "buf_set a In new k1 = Inr (u, out2, k2)" "after_access delayed proc env r2 k2 = Inr k'"
    using assms(3) True by (auto simp: bus_write_def on_received_write_request_def bindr_eq_Inr Let_def; blast)
  have "P k1" using b assms(1,2)
    by (auto simp: before_access_def bindr_eq_Inr split: proc_kind.splits if_splits)
  then have "P k2" using w(1) set_keeps by blast
  then show ?thesis using w(2) assms(2) by (auto simp: after_access_def split: if_splits proc_kind.splits)
qed (use assms(1,3) in \<open>auto simp: bus_write_def split: if_splits\<close>)

lemma bus_read_keeps:
  assumes "P k" and "\<And>k. P k \<Longrightarrow> P (env k)" and "bus_read proc env v a be tr delayed k = Inr (b, out, k')"
  shows "P k'"
proof (cases "be \<noteq> 0 \<and> map_find (m_contents k) a \<noteq> None")
  case True
  obtain r old out1 k1 r1 where
    b: "before_access m_pre_read_rules range_pre_read old old tr delayed proc env r k = Inr (out1, k1)"
    and w: "after_access delayed proc env r1 k1 = Inr k'"
    using assms(3) True by (auto simp: bus_read_def on_received_read_request_def bindr_eq_Inr Let_def)
  have "P k1" using b assms(1,2)
    by (auto simp: before_access_def bindr_eq_Inr split: proc_kind.splits if_splits)
  then show ?thesis using w assms(2) by (auto simp: after_access_def split: if_splits proc_kind.splits)
qed (use assms(1,3) in \<open>auto simp: bus_read_def split: if_splits\<close>)


section \<open>Creating registers\<close>

lemma register_ctor_Inr:
  assumes "register_ctor offset type width bs k = Inr k'"
  obtains r where "map_find (m_contents k) offset = None" and "k' = put_register offset r k"
    and "m_register_offset r = offset" and "m_register_width r = width" and "bufs r = bs"
    and "m_addressing_mode k = ALIGNED_ADDRESS \<longrightarrow> width \<in> {8, 16, 32} \<and> offset mod (width div 8) = 0"
proof -
  let ?r = "\<lparr>m_register_type = type, m_register_width = width, m_register_offset = offset, bufs = bs,
     m_pre_write_rules = new_rules, m_post_write_rules = new_rules, m_pre_read_rules = new_rules,
     m_post_read_rules = new_rules, m_events_enabled = True, br = []\<rparr>"
  have "map_find (m_contents k) offset = None" "k' = put_register offset ?r k"
    and "m_addressing_mode k = ALIGNED_ADDRESS \<longrightarrow> width \<in> {8, 16, 32} \<and> offset mod (width div 8) = 0"
    using assms by (auto simp: register_ctor_def add_register_def Let_def word_gt_0 split: addressing_mode.splits if_splits)
  then show thesis using that [of ?r] by simp
qed

lemma primary_ctor_Inr:
  assumes "primary_ctor offset width data k = Inr k'"
  obtains m j where "store_write (store_offset (m_addressing_mode k) offset) (unat (width div 8)) data (m_register_input_store k) = Inr m"
    and "k' = k\<lparr>m_register_input_store := m, m_next_register_index := j\<rparr>"
proof -
  have "\<exists>m j. store_write (store_offset (m_addressing_mode k) offset) (unat (width div 8)) data (m_register_input_store k) = Inr m
      \<and> k' = k\<lparr>m_register_input_store := m, m_next_register_index := j\<rparr>"
  proof (cases "m_addressing_mode k")
    case ALIGNED_ADDRESS
    then show ?thesis using assms
      by (intro exI [of _ "m_register_input_store k'"] exI [of _ "m_next_register_index k"])
        (auto simp: primary_ctor_def bindr_eq_Inr intro: bank.equality)
  next
    case INDEXED_ADDRESS
    then show ?thesis using assms
      by (intro exI [of _ "m_register_input_store k'"] exI [of _ "m_next_register_index k'"])
        (auto simp: primary_ctor_def get_next_register_index_def bindr_eq_Inr split: if_splits intro: bank.equality)
  qed
  then show thesis using that by blast
qed

lemma create_register_Inr:
  assumes "create_register offset type data wm width lm k = Inr k'"
  obtains r m j where "map_find (m_contents k) offset = None" and "k' = (put_register offset r k)\<lparr>m_register_input_store := m, m_next_register_index := j\<rparr>"
    and "store_write (store_offset (m_addressing_mode k) offset) (unat (width div 8)) data (m_register_input_store k) = Inr m"
    and "register_ok (m_addressing_mode k) (length (m_register_input_store k)) offset r"
    and "m_register_width r = width" and "type AND SINGLE_IO > 0 \<Longrightarrow> m_write_mask (buf Out (bufs r)) = wm"
proof -
  let ?p = "primary_buffer (m_addressing_mode k) offset width wm lm"
  let ?bs = "if type AND SINGLE_IO > 0 then Shared_io ?p else Split_io (new_buffer (Own data) wm lm) ?p"
  obtain k1 where k1: "register_ctor offset type width ?bs k = Inr k1" and k': "primary_ctor offset width data k1 = Inr k'"
    using assms by (auto simp: create_register_def register_sharedio_def register_splitio_def bindr_eq_Inr split: if_splits)
  obtain r where r: "map_find (m_contents k) offset = None" "k1 = put_register offset r k" "m_register_offset r = offset"
      "m_register_width r = width" "bufs r = ?bs"
    and a: "m_addressing_mode k = ALIGNED_ADDRESS \<longrightarrow> width \<in> {8, 16, 32} \<and> offset mod (width div 8) = 0"
    by (rule register_ctor_Inr [OF k1]) (rule that)
  obtain m j where m: "store_write (store_offset (m_addressing_mode k) offset) (unat (width div 8)) data (m_register_input_store k) = Inr m"
      "k' = k1\<lparr>m_register_input_store := m, m_next_register_index := j\<rparr>"
    by (rule primary_ctor_Inr [OF k']) (use r(2) in simp)
  have f: "buffers_fit (store_offset (m_addressing_mode k) offset) (unat (width div 8)) (length (m_register_input_store k)) ?bs"
    using m(1) by (auto simp: buffers_fit_def primary_buffer_def new_buffer_def store_write_def split: if_splits)
  have "register_ok (m_addressing_mode k) (length (m_register_input_store k)) offset r"
    using f a r(3-5) by (simp add: register_ok_def)
  moreover have "type AND SINGLE_IO > 0 \<Longrightarrow> m_write_mask (buf Out (bufs r)) = wm"
    using r(5) by (simp add: buf_def primary_buffer_def new_buffer_def)
  ultimately show thesis using that r(1,2,4) m by simp
qed

lemma bank_ok_create:
  assumes "bank_ok k" and "create_register offset type data wm width lm k = Inr k'"
  shows "bank_ok k'"
  by (rule create_register_Inr [OF assms(2)]) (use assms(1) in \<open>simp add: bank_ok_find map_simps store_write_length omap_ok_put\<close>)

lemma create_block_ends:
  assumes "2 ^ 32 < fuel + card (fst ` set (m_contents k))"
  shows "create_register_block fuel offset offset_end type data wm width lm k \<noteq> Inl OutOfFuel"
  using assms
proof (induction fuel arbitrary: offset k)
  case 0
  have "card (fst ` set (m_contents k)) \<le> CARD(u32)" by (rule card_mono) simp_all
  then show ?case using 0 by (simp add: card_word)
next
  case (Suc fuel)
  show ?case
  proof (cases "create_register offset type data wm width lm k")
    case (Inl e)
    have "e \<noteq> OutOfFuel"
      using Inl by (auto simp: create_register_def register_sharedio_def register_splitio_def register_ctor_def primary_ctor_def
        get_next_register_index_def store_write_def add_register_def Let_def bindr_eq_Inl
        split: if_splits addressing_mode.splits)
    then show ?thesis using Inl by simp
  next
    case (Inr k1)
    have "card (fst ` set (m_contents k1)) = Suc (card (fst ` set (m_contents k)))"
      by (rule create_register_Inr [OF Inr]) (simp add: keys_put map_of_eq_None_iff)
    then show ?thesis using Suc Inr by simp
  qed
qed

text \<open>
  Creating a block of registers ends for every interval and width, whatever wrap-around the
  running offset makes: each turn enters a register at an offset that had none, and there are no more than
  $2^{32}$ offsets.
\<close>

theorem create_block_terminates:
  "create_register_block (2 ^ 32 + 1) offset offset_end type data wm width lm k \<noteq> Inl OutOfFuel"
  by (rule create_block_ends) simp


section \<open>Every operation keeps the bank well formed\<close>

datatype reg_op =
    Create u32 u32 u32 u32 u32 u32
  | Create_range u32 string u32 u32
  | User_set u32 u32
  | User_bit u32 u32 bool
  | Acc_bit u32 u32 bool
  | Range_set u32 string u32
  | Write_mask u32 u32
  | Lock_mask u32 u32
  | Writable u32 u32 bool
  | Rule_for u32 rule_place string rule_kind
  | Range_rule u32 string rule_place string rule_kind
  | Events u32 bool
  | Bus_write proc_kind u32 u32 u32 "nat option" bool
  | Bus_read proc_kind u32 u32 "nat option" bool

definition after :: "'a bank_res \<Rightarrow> bank res" where
  "after m = bindr m (\<lambda>(_, _, k). Inr k)"

fun reg_step :: "(bank \<Rightarrow> bank) \<Rightarrow> reg_op \<Rightarrow> bank \<Rightarrow> bank res" where
  "reg_step env (Create off ty d wm w lm) k = create_register off ty d wm w lm k"
| "reg_step env (Create_range a n s e) k = create_bit_range a n s e k"
| "reg_step env (User_set a v) k = after (reg_set a v k)"
| "reg_step env (User_bit a n b) k = after (bit_set a n b k)"
| "reg_step env (Acc_bit a n b) k = after (acc_set a n b k)"
| "reg_step env (Range_set a n v) k = after (bit_range_set a n v k)"
| "reg_step env (Write_mask a m) k = set_write_mask a m k"
| "reg_step env (Lock_mask a m) k = set_lock_mask a m k"
| "reg_step env (Writable a n b) k = acc_set_writable a n b k"
| "reg_step env (Rule_for a p n r) k = add_rule a p n r 0 k"
| "reg_step env (Range_rule a x p n r) k = add_range_rule a x p n r 0 k"
| "reg_step env (Events a b) k = bindr (get_register a k) (\<lambda>r. Inr (put_register a (switch_register b r) k))"
| "reg_step env (Bus_write p a v be tr d) k = after (bus_write p env v a be tr d k)"
| "reg_step env (Bus_read p a be tr d) k = after (bus_read p env 0 a be tr d k)"

fun reg_run :: "(bank \<Rightarrow> bank) \<Rightarrow> reg_op list \<Rightarrow> bank \<Rightarrow> bank res" where
  "reg_run env [] k = Inr k"
| "reg_run env (x # xs) k = bindr (reg_step env x k) (reg_run env xs)"

lemma upd_rules_place:
  "m_register_offset (upd_rules p f r) = m_register_offset r \<and> m_register_width (upd_rules p f r) = m_register_width r \<and>
   (bufs (upd_rules p f r) = bufs r \<or> (\<exists>d g. same_place g \<and> bufs (upd_rules p f r) = upd_buf d g (bufs r)))"
proof -
  have "same_place (\<lambda>b. b\<lparr>m_write_rules := f (m_write_rules b)\<rparr>)" by (simp add: same_place_def)
  then show ?thesis by (cases p) (auto simp: upd_rules_def)
qed

lemma upd_rules_ok: "register_ok mode len a r \<Longrightarrow> register_ok mode len a (upd_rules p f r)"
  using upd_rules_place [of p f r] buffers_fit_upd unfolding register_ok_def by metis

lemma register_ok_other: "register_ok mode len a r \<Longrightarrow> m_register_offset r' = m_register_offset r \<Longrightarrow>
    m_register_width r' = m_register_width r \<Longrightarrow> bufs r' = bufs r \<Longrightarrow> register_ok mode len a r'"
  by (simp add: register_ok_def)

lemma switch_register_ok: "register_ok mode len a r \<Longrightarrow> register_ok mode len a (switch_register b r)"
proof -
  let ?f = "switch_enable_events b"
  assume "register_ok mode len a r"
  then have "register_ok mode len a (r\<lparr>m_events_enabled := b\<rparr>)" by (rule register_ok_other) simp_all
  then have "register_ok mode len a (fold (\<lambda>p. upd_rules p ?f)
      [PRE_WRITE, POST_WRITE, PRE_READ, POST_READ, USR_IN_WRITE, USR_OUT_WRITE] (r\<lparr>m_events_enabled := b\<rparr>))"
    by (simp add: upd_rules_ok)
  then show ?thesis by (simp add: switch_register_def Let_def register_ok_def)
qed

lemma same_place_masks [simp]:
  "same_place (\<lambda>b. b\<lparr>m_write_mask := f b\<rparr>)" "same_place (\<lambda>b. b\<lparr>m_lock_mask := f b\<rparr>)"
  by (simp_all add: same_place_def)

lemma bank_ok_put_same:
  "bank_ok k \<Longrightarrow> get_register a k = Inr r \<Longrightarrow>
   (register_ok (m_addressing_mode k) (length (m_register_input_store k)) a r \<Longrightarrow>
    register_ok (m_addressing_mode k) (length (m_register_input_store k)) a r') \<Longrightarrow> bank_ok (put_register a r' k)"
  using bank_ok_put get_register_ok by blast

lemma upd_buf_ok: "register_ok mode len a r \<Longrightarrow> same_place f \<Longrightarrow> register_ok mode len a (r\<lparr>bufs := upd_buf d f (bufs r)\<rparr>)"
  by (simp add: register_ok_def buffers_fit_upd)

text \<open>
  The bank as an operation finds it: well formed, of its mode, with a store that is not smaller than
  the size it reports, which is one of whole words.
\<close>

definition bank_in :: "addressing_mode \<Rightarrow> bank \<Rightarrow> bool" where
  "bank_in mode k \<longleftrightarrow> bank_ok k \<and> m_addressing_mode k = mode \<and>
     m_array_size k \<le> length (m_register_input_store k) \<and> 4 dvd m_array_size k"

lemma bank_in_ok: "bank_in mode k \<Longrightarrow> bank_ok k"
  by (simp add: bank_in_def)

lemma bank_in_new: "bank_in mode (new_bank mode n junk)"
proof -
  have "n * 4 = push_bit 2 n" by (simp add: push_bit_eq_mult)
  then have "4 dvd unat (n * 4)"
    using unat_word_ariths(2) [of n 4] by (simp add: dvd_mod_iff)
  moreover have "unat (n * 4) \<le> 4 * unat n" by (simp add: unat_word_ariths(2))
  ultimately show ?thesis by (simp add: bank_in_def bank_ok_def new_bank_def)
qed

lemma bank_in_put:
  "bank_in mode k \<Longrightarrow> get_register a k = Inr r \<Longrightarrow>
   (register_ok mode (length (m_register_input_store k)) a r \<Longrightarrow> register_ok mode (length (m_register_input_store k)) a r') \<Longrightarrow>
   bank_in mode (put_register a r' k)"
  using bank_ok_put_same [of k a r r'] by (auto simp: bank_in_def)

lemma bank_in_buf_set: "bank_in mode k \<Longrightarrow> buf_set a d v k = Inr (u, out, k') \<Longrightarrow> bank_in mode k'"
  using bank_ok_buf_set [of k a d v u out k'] by (auto simp: bank_in_def)

lemma bank_in_create: "bank_in mode k \<Longrightarrow> create_register offset type data wm width lm k = Inr k' \<Longrightarrow> bank_in mode k'"
  by (frule bank_ok_create [OF bank_in_ok], assumption, erule create_register_Inr)
    (auto simp: bank_in_def store_write_length)

lemma reg_step_ok:
  assumes "bank_in mode k" and "\<And>k. bank_in mode k \<Longrightarrow> bank_in mode (env k)" and "reg_step env x k = Inr k'"
  shows "bank_in mode k'"
proof (cases x)
  case (Bus_write p a v be tr d)
  then obtain b out where "bus_write p env v a be tr d k = Inr (b, out, k')"
    using assms(3) by (auto simp: after_def bindr_eq_Inr)
  then show ?thesis using bus_write_keeps [where P = "bank_in mode" and env = env, OF assms(1,2)] bank_in_buf_set by blast
next
  case (Bus_read p a be tr d)
  then obtain b out where "bus_read p env 0 a be tr d k = Inr (b, out, k')"
    using assms(3) by (auto simp: after_def bindr_eq_Inr)
  then show ?thesis using bus_read_keeps [where P = "bank_in mode" and env = env, OF assms(1,2)] by blast
qed (use assms(1,3) in \<open>auto simp: after_def bindr_eq_Inr reg_set_def bit_set_def acc_set_def bit_range_set_def Let_def
      create_bit_range_def set_write_mask_def set_lock_mask_def acc_set_writable_def add_rule_def add_range_rule_def
      split: if_splits
      dest: bank_in_create bank_in_buf_set
      intro!: bank_in_put switch_register_ok upd_rules_ok upd_buf_ok
      elim: register_ok_other\<close>)

section \<open>No access leaves the store\<close>

text \<open>
  The store itself tests no bounds: an access outside it is undefined, and the only protection is the
  test in \<open>create_register\<close>. A result is \<open>in_store\<close> when no such access was made.
\<close>

definition in_store :: "'a res \<Rightarrow> bool" where
  "in_store m \<longleftrightarrow> m \<noteq> Inl (Undefined ''data_store_array'')"

lemma in_store_simps [simp]:
  "in_store (Inr x)" "in_store (Inl e) \<longleftrightarrow> e \<noteq> Undefined ''data_store_array''"
  by (simp_all add: in_store_def)

lemma in_store_bindr: "in_store m \<Longrightarrow> (\<And>x. m = Inr x \<Longrightarrow> in_store (f x)) \<Longrightarrow> in_store (bindr m f)"
  by (cases m) (simp_all add: in_store_def)

named_theorems in_store

lemma in_store_get_register [in_store]: "in_store (get_register a k)"
  by (simp add: get_register_def split: option.splits)

lemma in_store_get_range [in_store]: "in_store (get_range n r)"
  by (simp add: get_range_def split: option.splits)

lemma in_store_process_rule: "in_store (process_rule old new tr delayed r)"
  by (cases "kind r") (auto simp: process_rule_def bit_at_def in_store_def bindr_eq_Inl Let_def split: if_splits)

lemma in_store_process_from: "(\<And>r. in_store (f r)) \<Longrightarrow> in_store (process_from fuel looks f rs i)"
  by (induction fuel arbitrary: i) (auto simp: looked_up_def intro!: in_store_bindr)

lemma in_store_run_rules [in_store]: "in_store (run_rules old new tr delayed c)"
  unfolding run_rules_def process_active_rules_def by (intro in_store_process_from in_store_process_rule)

lemma in_store_range_rules [in_store]: "in_store (run_range_rules width rules old new tr delayed bs)"
  by (induction width rules old new tr delayed bs rule: run_range_rules.induct)
    (auto intro!: in_store_bindr in_store_run_rules)

lemma in_store_access_rules [in_store]: "in_store (access_rules rules ranges old new tr delayed r)"
  by (auto simp: access_rules_def intro!: in_store_bindr in_store)

lemma in_store_before [in_store]: "in_store (before_access rules ranges old new tr delayed proc env r k)"
  by (auto simp: before_access_def intro!: in_store_bindr in_store split: proc_kind.splits)

lemma in_store_after [in_store]: "in_store (after_access delayed proc env r k)"
  by (auto simp: after_access_def split: proc_kind.splits)

lemma buffers_readable:
  assumes "buffers_fit off n (length (m_register_input_store k)) bs"
  shows "\<exists>v. buf_get (buf d bs) k = Inr v"
  using assms
  by (auto simp: buffers_fit_def buf_get_def buf_def store_read_def split: buffers.splits buffer_data.splits direction.splits)

lemma bank_in_readable:
  assumes "bank_in mode k" and "get_register a k = Inr r"
  shows "\<exists>v. buf_get (buf d (bufs r)) k = Inr v"
  using get_register_ok [OF bank_in_ok [OF assms(1)] assms(2)] buffers_readable by (auto simp: register_ok_def)

lemma in_store_buf_get: "bank_in mode k \<Longrightarrow> get_register a k = Inr r \<Longrightarrow> in_store (buf_get (buf d (bufs r)) k)"
  using bank_in_readable [of mode k a r d] by auto

lemma in_store_buf_set:
  assumes "bank_in mode k"
  shows "in_store (buf_set a d v k)"
  unfolding buf_set_def Let_def
proof (intro in_store_bindr in_store, goal_cases)
  case (1 r)
  then show ?case using assms by (simp add: in_store_buf_get)
next
  case (2 r old)
  have "register_ok (m_addressing_mode k) (length (m_register_input_store k)) a r"
    using get_register_ok [OF bank_in_ok [OF assms] 2(1)] .
  then have "m_data (buf d (bufs r)) = Stored off n \<Longrightarrow> n \<le> 4 \<and> off + n \<le> length (m_register_input_store k)" for off n
    by (auto simp: register_ok_def buffers_fit_def buf_def split: buffers.splits direction.splits)
  then show ?case by (auto simp: store_write_ok split: buffer_data.splits)
qed (auto split: prod.splits)

lemma in_store_write_request:
  assumes "bank_in mode k" and "\<And>k. bank_in mode k \<Longrightarrow> bank_in mode (env k)"
  shows "in_store (on_received_write_request proc env a v tr delayed k)"
  unfolding on_received_write_request_def Let_def
proof (intro in_store_bindr in_store, goal_cases)
  case (1 r)
  then show ?case using assms(1) by (simp add: in_store_buf_get)
next
  case (2 r old x)
  obtain out k1 where x: "x = (out, k1)" by force
  have "bank_in mode k1" using 2(3) assms
    by (auto simp: x before_access_def bindr_eq_Inr split: proc_kind.splits if_splits)
  then have "in_store (buf_set a In new k1)" for new by (rule in_store_buf_set)
  then show ?case by (auto simp: x intro!: in_store_bindr in_store)
qed

lemma in_store_read_request:
  assumes "bank_in mode k" and "\<And>k. bank_in mode k \<Longrightarrow> bank_in mode (env k)"
  shows "in_store (on_received_read_request proc env a tr delayed k)"
  unfolding on_received_read_request_def
proof (intro in_store_bindr in_store, goal_cases)
  case (1 r)
  then show ?case using assms(1) by (simp add: in_store_buf_get)
next
  case (2 r old x)
  obtain out k1 where x: "x = (out, k1)" by force
  have "bank_in mode k1" using 2(3) assms
    by (auto simp: x before_access_def bindr_eq_Inr split: proc_kind.splits if_splits)
  then have "get_register a k1 = Inr r1 \<Longrightarrow> in_store (buf_get (buf Out (bufs r1)) k1)" for r1 by (rule in_store_buf_get)
  then show ?case by (auto simp: x intro!: in_store_bindr in_store)
qed

text \<open>
  The bits of the offset and the width are counted in 32 bits by the test of an aligned bank; the
  size of a register is not tested in an indexed one.
\<close>

definition creates_fit :: "addressing_mode \<Rightarrow> reg_op \<Rightarrow> bool" where
  "creates_fit mode x \<longleftrightarrow> (case x of
       Create offset _ _ _ width _ \<Rightarrow>
         (case mode of ALIGNED_ADDRESS \<Rightarrow> unat offset * 8 + unat width < 2 ^ 32 | INDEXED_ADDRESS \<Rightarrow> width < 40)
     | _ \<Rightarrow> True)"

lemma create_store_fits:
  assumes "bank_in mode k" and "creates_fit mode (Create offset type data wm width lm)"
    and "\<not> (mode = INDEXED_ADDRESS \<and> unat (offset * 4) \<ge> m_array_size k)"
    and "\<not> (mode = ALIGNED_ADDRESS \<and> unat (offset * 8 + width) > m_array_size k * 8)"
    and "mode = ALIGNED_ADDRESS \<Longrightarrow> width \<in> {8, 16, 32}"
  shows "unat (width div 8) \<le> 4 \<and> store_offset mode offset + unat (width div 8) \<le> length (m_register_input_store k)"
proof (cases mode)
  case ALIGNED_ADDRESS
  have "unat (offset * 8 + width) = unat offset * 8 + unat width"
    using assms(2) ALIGNED_ADDRESS by (simp add: creates_fit_def unat_word_ariths)
  then have "unat offset * 8 + unat width \<le> length (m_register_input_store k) * 8"
    using assms(1,4) ALIGNED_ADDRESS by (simp add: bank_in_def)
  then show ?thesis using assms(5) ALIGNED_ADDRESS by (auto simp: store_offset_def)
next
  case INDEXED_ADDRESS
  have "width < 40" using assms(2) INDEXED_ADDRESS by (simp add: creates_fit_def)
  then have "unat width < 40" by (simp add: word_less_nat_alt)
  then have w: "unat (width div 8) \<le> 4" by (simp add: unat_div)
  have "4 dvd unat (offset * 4)" using unat_word_ariths(2) [of offset 4] by (simp add: dvd_mod_iff)
  moreover have "unat (offset * 4) < m_array_size k" "4 dvd m_array_size k" "m_array_size k \<le> length (m_register_input_store k)"
    using assms(1,3) INDEXED_ADDRESS by (auto simp: bank_in_def)
  ultimately have "unat (offset * 4) + 4 \<le> length (m_register_input_store k)"
    by (auto elim!: dvdE)
  then show ?thesis using w INDEXED_ADDRESS by (simp add: store_offset_def)
qed

lemma in_store_create:
  assumes "bank_in mode k" and "creates_fit mode (Create offset type data wm width lm)"
  shows "in_store (create_register offset type data wm width lm k)"
proof (cases "mode = INDEXED_ADDRESS \<and> unat (offset * 4) \<ge> m_array_size k \<or>
    mode = ALIGNED_ADDRESS \<and> unat (offset * 8 + width) > m_array_size k * 8")
  case True
  then show ?thesis using assms(1) by (auto simp: create_register_def bank_in_def)
next
  case False
  have m: "m_addressing_mode k = mode" using assms(1) by (simp add: bank_in_def)
  have "in_store (bindr (register_ctor offset type width bs k) (primary_ctor offset width data))" for bs
  proof (rule in_store_bindr)
    show "in_store (register_ctor offset type width bs k)"
      by (auto simp: register_ctor_def Let_def split: prod.splits addressing_mode.splits)
    fix k1 assume c: "register_ctor offset type width bs k = Inr k1"
    obtain r where k1: "k1 = put_register offset r k"
      and a: "m_addressing_mode k = ALIGNED_ADDRESS \<longrightarrow> width \<in> {8, 16, 32}"
      by (rule register_ctor_Inr [OF c]) (rule that, auto)
    have "unat (width div 8) \<le> 4 \<and> store_offset mode offset + unat (width div 8) \<le> length (m_register_input_store k)"
      using create_store_fits [OF assms] False a m by blast
    then show "in_store (primary_ctor offset width data k1)"
      using m by (auto simp: primary_ctor_def get_next_register_index_def k1 store_write_ok split: addressing_mode.splits)
  qed
  then show ?thesis using False m
    by (auto simp: create_register_def register_sharedio_def register_splitio_def)
qed

lemma reg_step_in_store:
  assumes "bank_in mode k" and "\<And>k. bank_in mode k \<Longrightarrow> bank_in mode (env k)" and "creates_fit mode x"
  shows "in_store (reg_step env x k)"
proof -
  note reads = in_store_buf_get [OF assms(1)] in_store_buf_set [OF assms(1)]
  have bus: "in_store (bus_write p env v a be tr d k)" "in_store (bus_read p env v a be tr d k)" for p v a be tr d
    using in_store_write_request [OF assms(1,2)] in_store_read_request [OF assms(1,2)]
    by (auto simp: bus_write_def bus_read_def intro!: in_store_bindr)
  show ?thesis
    using in_store_create [OF assms(1)] assms(3) bus
    by (cases x) (auto simp: after_def reg_set_def bit_set_def acc_set_def bit_range_set_def reg_get_def Let_def
      create_bit_range_def set_write_mask_def set_lock_mask_def acc_set_writable_def add_rule_def add_range_rule_def
      intro!: in_store_bindr in_store reads)
qed

lemma reg_run_in_store:
  assumes "bank_in mode k" and "\<And>k. bank_in mode k \<Longrightarrow> bank_in mode (env k)" and "\<forall>x \<in> set ops. creates_fit mode x"
  shows "in_store (reg_run env ops k) \<and> (\<forall>k'. reg_run env ops k = Inr k' \<longrightarrow> bank_in mode k')"
  using assms(1,3)
proof (induction ops arbitrary: k)
  case (Cons x ops)
  have "in_store (reg_step env x k)" using Cons.prems assms(2) by (intro reg_step_in_store) auto
  moreover have "in_store (reg_run env ops k1) \<and> (\<forall>k'. reg_run env ops k1 = Inr k' \<longrightarrow> bank_in mode k')"
    if "reg_step env x k = Inr k1" for k1
    using Cons.IH [OF reg_step_ok [OF Cons.prems(1) assms(2) that]] Cons.prems(2) by simp
  ultimately show ?case by (auto simp: bindr_eq_Inr intro!: in_store_bindr)
qed simp

text \<open>
  C13. Take a history of a register bank: creating registers and bit ranges, accesses of the user and
  over the bus, masks and rules, with anything that the other processes do to the bank while an
  access waits, as long as they keep it well formed. The registers are created with offsets whose
  bits can be counted in 32 bits (in an aligned bank) or with a width below 40 (in an indexed one).
  Then no operation accesses memory outside the store; and if no operation fails, every register
  stands under its own offset, in an aligned bank with a width of 8, 16 or 32 bits at a multiple of that width,
  the buffer that the bus reads lies inside the store, and every buffer can be read. The condition on
  the offsets is needed: see \<open>create_register_wraps\<close>.
\<close>

theorem registers_stay_in_store:
  assumes "\<And>k. bank_in mode k \<Longrightarrow> bank_in mode (env k)" and "\<forall>x \<in> set ops. creates_fit mode x"
  shows "in_store (reg_run env ops (new_bank mode n junk)) \<and>
    (\<forall>k. reg_run env ops (new_bank mode n junk) = Inr k \<longrightarrow>
       bank_ok k \<and> (\<forall>a r d. get_register a k = Inr r \<longrightarrow> (\<exists>v. buf_get (buf d (bufs r)) k = Inr v)))"
proof -
  have "in_store (reg_run env ops (new_bank mode n junk)) \<and>
      (\<forall>k. reg_run env ops (new_bank mode n junk) = Inr k \<longrightarrow> bank_in mode k)"
    using bank_in_new assms by (rule reg_run_in_store)
  then show ?thesis using bank_in_ok bank_in_readable by blast
qed

definition sample_reg_ops :: "reg_op list" where
  "sample_reg_ops =
     [Create 0 0x1010101 0xAB 0xFFFF 32 0, Create 4 0x1010201 5 0xFF 16 0, Create_range 0 ''low'' 0 7,
      Rule_for 0 POST_WRITE ''changed'' Notify_on_change, Range_set 0 ''low'' 0x1FF, Events 0 False,
      Bus_write Thread_process 4 0x1234 15 None True, Acc_bit 4 3 True, Write_mask 0 0xFF]"

theorem registers_stay_in_store_witness:
  "\<exists>k. reg_run (\<lambda>k. k) sample_reg_ops (new_bank ALIGNED_ADDRESS 2 []) = Inr k \<and> bank_ok k \<and> map fst (m_contents k) = [0, 4] \<and>
     in_store (reg_run (\<lambda>k. k) sample_reg_ops (new_bank ALIGNED_ADDRESS 2 []))"
proof -
  let ?m = "reg_run (\<lambda>k. k) sample_reg_ops (new_bank ALIGNED_ADDRESS 2 [])"
  have e: "(case ?m of Inr k \<Rightarrow> map fst (m_contents k) | Inl _ \<Rightarrow> []) = [0, 4]" by code_simp
  then obtain k where k: "?m = Inr k" by (cases ?m) simp_all
  then have f: "map fst (m_contents k) = [0, 4]" using e by simp
  have "\<forall>x \<in> set sample_reg_ops. creates_fit ALIGNED_ADDRESS x" by (simp add: sample_reg_ops_def creates_fit_def)
  then have "in_store ?m" "bank_ok k" using registers_stay_in_store [of ALIGNED_ADDRESS "\<lambda>k. k" sample_reg_ops 2 "[]"] k by simp_all
  with k f show ?thesis by (intro exI conjI)
qed

text \<open>The test is what refuses a register behind the end of the store.\<close>

lemma create_behind_the_end:
  "\<exists>e. reg_run (\<lambda>k. k) [Create 0 0x1010101 0xAB 0xFFFF 32 0, Create 8 0x1010101 1 0xFF 8 0] (new_bank ALIGNED_ADDRESS 2 []) = Inl (ScFatal e)"
proof -
  have "(case reg_run (\<lambda>k. k) [Create 0 0x1010101 0xAB 0xFFFF 32 0, Create 8 0x1010101 1 0xFF 8 0] (new_bank ALIGNED_ADDRESS 2 []) of
      Inl (ScFatal e) \<Rightarrow> True | _ \<Rightarrow> False)" by code_simp
  then show ?thesis by (auto split: sum.splits cpp_error.splits)
qed

end
