(* ===== verification/Register_Access.thy ===== *)
theory Register_Access
  imports Register_Facts
begin

unbundle bit_operations_syntax

text \<open>
  What the accesses to a GreenReg register do to its value: bus writes and their masks, the two buffers
  of a split register, bit ranges, and the functions on single bits. The rules of a register are arbitrary as
  long as the bits they watch lie inside it.
\<close>

section \<open>Rules that run through\<close>

definition rules_safe :: "rule_container \<Rightarrow> bool" where
  "rules_safe c \<longleftrightarrow> (\<forall>(n, r) \<in> set (m_active_rules c). bits_in_word (kind r))"

definition range_safe :: "bit_range \<Rightarrow> bool" where
  "range_safe x \<longleftrightarrow> list_all rules_safe [range_pre_write x, range_post_write x, range_pre_read x, range_post_read x,
     range_write_rules (range_buf In x), range_write_rules (range_buf Out x)]"

definition register_safe :: "register \<Rightarrow> bool" where
  "register_safe r \<longleftrightarrow> list_all rules_safe [m_pre_write_rules r, m_post_write_rules r, m_pre_read_rules r, m_post_read_rules r,
     m_write_rules (buf In (bufs r)), m_write_rules (buf Out (bufs r))] \<and> (\<forall>x \<in> snd ` set (br r). range_safe x)"

lemma rules_safe_new [simp]: "rules_safe new_rules"
  by (simp add: rules_safe_def new_rules_def)

lemma run_rules_safe: "rules_safe c \<Longrightarrow> \<exists>out. run_rules old new tr delayed c = Inr out"
proof -
  assume "rules_safe c"
  have "\<exists>out. all_notifications (process_rule old new tr delayed) (map snd rs) = Inr out"
    if "\<forall>(n, r) \<in> set rs. bits_in_word (kind r)" for rs
    using that
  proof (induction rs)
    case (Cons x rs)
    then obtain outs where "all_notifications (process_rule old new tr delayed) (map snd rs) = Inr outs" by auto
    moreover have "\<exists>b. rule_fires (kind (snd x)) old new = Inr b"
      using Cons.prems by (cases "kind (snd x)") (auto simp: bits_in_word_def bit_at_bit)
    then obtain out where "process_rule old new tr delayed (snd x) = Inr out" by (auto simp: process_rule_def)
    ultimately show ?case by simp
  qed simp
  moreover have "run_rules old new tr delayed c = all_notifications (process_rule old new tr delayed) (map snd (m_active_rules c))"
    unfolding run_rules_def process_active_rules_def by (subst process_from_quiet) simp_all
  ultimately show ?thesis using \<open>rules_safe c\<close> by (simp add: rules_safe_def)
qed

lemma run_range_rules_safe:
  "(\<And>x. x \<in> snd ` set bs \<Longrightarrow> rules_safe (rules x)) \<Longrightarrow> \<exists>out. run_range_rules width rules old new tr delayed bs = Inr out"
proof (induction bs)
  case (Cons b bs)
  obtain n x where b: "b = (n, x)" by (cases b)
  have "rules_safe (rules x)" using Cons.prems b by simp
  then obtain out where "run_rules (range_value width x old) (range_value width x new) tr delayed (rules x) = Inr out"
    using run_rules_safe by blast
  moreover obtain outs where "run_range_rules width rules old new tr delayed bs = Inr outs"
    using Cons by fastforce
  ultimately show ?case using b by simp
qed simp

lemma access_rules_safe:
  assumes "register_safe r"
  shows "\<exists>out. access_rules m_pre_write_rules range_pre_write old new tr delayed r = Inr out"
    and "\<exists>out. access_rules m_post_write_rules range_post_write old new tr delayed r = Inr out"
    and "\<exists>out. access_rules m_pre_read_rules range_pre_read old new tr delayed r = Inr out"
    and "\<exists>out. access_rules m_post_read_rules range_post_read old new tr delayed r = Inr out"
proof -
  have *: "\<exists>out. access_rules f g old new tr delayed r = Inr out" if f: "rules_safe (f r)" and g: "\<And>x. x \<in> snd ` set (br r) \<Longrightarrow> rules_safe (g x)" for f g
  proof -
    obtain o1 o2 where "run_rules old new tr delayed (f r) = Inr o1" "run_range_rules (m_register_width r) g old new tr delayed (br r) = Inr o2"
      using run_rules_safe [OF f] run_range_rules_safe [of "br r" g] g by meson
    then show ?thesis by (simp add: access_rules_def)
  qed
  show "\<exists>out. access_rules m_pre_write_rules range_pre_write old new tr delayed r = Inr out"
    "\<exists>out. access_rules m_post_write_rules range_post_write old new tr delayed r = Inr out"
    "\<exists>out. access_rules m_pre_read_rules range_pre_read old new tr delayed r = Inr out"
    "\<exists>out. access_rules m_post_read_rules range_post_read old new tr delayed r = Inr out"
    by (rule *; use assms in \<open>auto simp: register_safe_def range_safe_def\<close>)+
qed

section \<open>Setting a buffer\<close>

text \<open>Writing a buffer of a register always succeeds in a well-formed bank, and changes nothing else.\<close>

lemma buf_set_stored:
  assumes "bank_ok k" and "get_register a k = Inr r" and "register_safe r" and "m_data (buf d (bufs r)) = Stored off n"
  shows "\<exists>out m. store_write off n v (m_register_input_store k) = Inr m \<and>
    buf_set a d v k = Inr ((), out, k\<lparr>m_register_input_store := m\<rparr>)"
proof -
  have fit: "n \<le> 4" "off + n \<le> length (m_register_input_store k)"
    using get_register_ok [OF assms(1,2)] assms(4)
    by (auto simp: register_ok_def buffers_fit_def buf_def split: buffers.splits direction.splits buffer_data.splits)
  obtain m old where m: "store_write off n v (m_register_input_store k) = Inr m" "buf_get (buf d (bufs r)) k = Inr old"
    using fit assms(4) by (auto simp: store_write_def buf_get_def store_read_def)
  obtain out1 where "run_rules old v None False (m_write_rules (buf d (bufs r))) = Inr out1"
    using run_rules_safe assms(3) by (cases d) (fastforce simp: register_safe_def)+
  moreover obtain out2 where "run_range_rules (m_register_width r) (\<lambda>x. range_write_rules (range_buf Out x)) old v None False (br r) = Inr out2"
    using run_range_rules_safe [of "br r" "\<lambda>x. range_write_rules (range_buf Out x)"] assms(3)
    unfolding register_safe_def range_safe_def by fastforce
  ultimately show ?thesis using m assms(2,4) by (auto simp: buf_set_def Let_def)
qed

lemma buf_set_own:
  assumes "get_register a k = Inr r" and "register_safe r" and "m_data (buf d (bufs r)) = Own w"
  shows "\<exists>out. buf_set a d v k = Inr ((), out, put_register a (r\<lparr>bufs := upd_buf d (\<lambda>b. b\<lparr>m_data := Own v\<rparr>) (bufs r)\<rparr>) k)"
proof -
  obtain out1 where "run_rules w v None False (m_write_rules (buf d (bufs r))) = Inr out1"
    using run_rules_safe assms(2) by (cases d) (fastforce simp: register_safe_def)+
  moreover obtain out2 where "run_range_rules (m_register_width r) (\<lambda>x. range_write_rules (range_buf In x)) w v None False (br r) = Inr out2"
    using run_range_rules_safe [of "br r" "\<lambda>x. range_write_rules (range_buf In x)"] assms(2)
    unfolding register_safe_def range_safe_def by fastforce
  ultimately show ?thesis using assms(1,3) by (auto simp: buf_set_def buf_get_def Let_def)
qed


section \<open>Accesses over the bus\<close>

text \<open>A process that may run the access: the bank is left alone while a thread waits.\<close>

lemma before_access_safe:
  assumes "proc \<noteq> Other_process" and "\<exists>out. access_rules rules range_rules old new tr delayed r = Inr out"
  shows "\<exists>out. before_access rules range_rules old new tr delayed proc (\<lambda>k. k) r k = Inr (out, k)"
  using assms by (cases proc) (auto simp: before_access_def)

lemma after_access_safe: "proc \<noteq> Other_process \<Longrightarrow> after_access delayed proc (\<lambda>k. k) r k = Inr k"
  by (cases proc) (auto simp: after_access_def)

lemma bus_write_runs:
  assumes "get_register a k = Inr r" and "register_safe r" and "proc \<noteq> Other_process" and "be \<noteq> 0"
    and "buf_get (buf In (bufs r)) k = Inr old"
    and "buf_set a In ((v AND m_write_mask (buf Out (bufs r))) OR (old AND NOT (m_write_mask (buf Out (bufs r))))) k = Inr ((), out, k')"
    and "get_register a k' = Inr r'" and "register_safe r'"
  shows "\<exists>out. bus_write proc (\<lambda>k. k) v a be tr delayed k = Inr (True, out, k')"
proof -
  let ?new = "(v AND m_write_mask (buf Out (bufs r))) OR (old AND NOT (m_write_mask (buf Out (bufs r))))"
  obtain out1 where "before_access m_pre_write_rules range_pre_write old ?new tr delayed proc (\<lambda>k. k) r k = Inr (out1, k)"
    using before_access_safe [OF assms(3) access_rules_safe(1) [OF assms(2)]] by blast
  moreover obtain out3 where "access_rules m_post_write_rules range_post_write old ?new tr delayed r' = Inr out3"
    using access_rules_safe(2) [OF assms(8)] by blast
  moreover have "map_find (m_contents k) a \<noteq> None"
    using assms(1) by (auto simp: get_register_def split: option.splits)
  ultimately show ?thesis using assms after_access_safe
    by (simp add: bus_write_def on_received_write_request_def Let_def)
qed

lemma bus_read_runs:
  assumes "get_register a k = Inr r" and "register_safe r" and "proc \<noteq> Other_process" and "be \<noteq> 0"
    and "buf_get (buf Out (bufs r)) k = Inr v"
  shows "\<exists>out. bus_read proc (\<lambda>k. k) x a be tr delayed k = Inr ((True, v), out, k)"
proof -
  obtain out1 where "before_access m_pre_read_rules range_pre_read v v tr delayed proc (\<lambda>k. k) r k = Inr (out1, k)"
    using before_access_safe [OF assms(3) access_rules_safe(3) [OF assms(2)]] by blast
  moreover obtain out2 where "access_rules m_post_read_rules range_post_read v v tr delayed r = Inr out2"
    using access_rules_safe(4) [OF assms(2)] by blast
  moreover have "map_find (m_contents k) a \<noteq> None"
    using assms(1) by (auto simp: get_register_def split: option.splits)
  ultimately show ?thesis using assms after_access_safe
    by (simp add: bus_read_def on_received_read_request_def)
qed

lemma get_register_store [simp]: "get_register a (k\<lparr>m_register_input_store := m\<rparr>) = get_register a k"
  by (simp add: get_register_def)

lemma buf_get_written:
  assumes "store_write off n v (m_register_input_store k) = Inr m" and "m_data b = Stored off n"
  shows "buf_get b (k\<lparr>m_register_input_store := m\<rparr>) = Inr (v AND mask (8 * n))"
  using assms store_read_written by (simp add: buf_get_def)

text \<open>The bytes of a register in the store of its bank.\<close>

definition place :: "bank \<Rightarrow> register \<Rightarrow> nat \<times> nat" where
  "place k r = (store_offset (m_addressing_mode k) (m_register_offset r), unat (m_register_width r div 8))"

lemma place_Stored:
  assumes "bank_ok k" and "get_register a k = Inr r"
  shows "(\<exists>b. bufs r = Shared_io b \<and> m_data b = Stored (fst (place k r)) (snd (place k r))) \<or>
    (\<exists>i out w. bufs r = Split_io i out \<and> m_data i = Own w \<and> m_data out = Stored (fst (place k r)) (snd (place k r)))"
  using get_register_ok [OF assms]
  by (auto simp: register_ok_def buffers_fit_def place_def split: buffers.splits buffer_data.splits)

definition apart :: "nat \<times> nat \<Rightarrow> nat \<times> nat \<Rightarrow> bool" where
  "apart p q \<longleftrightarrow> fst p + snd p \<le> fst q \<or> fst q + snd q \<le> fst p"

lemma buf_get_apart:
  assumes "store_write (fst (place k r)) (snd (place k r)) v (m_register_input_store k) = Inr m" and "bank_ok k"
    and "get_register a' k = Inr r'" and "apart (place k r) (place k r')"
  shows "buf_get (buf d (bufs r')) (k\<lparr>m_register_input_store := m\<rparr>) = buf_get (buf d (bufs r')) k"
  using place_Stored [OF assms(2,3)] assms(4) store_read_elsewhere [OF assms(1)]
  by (auto simp: buf_def buf_get_def apart_def split: direction.splits)

text \<open>
  C14. A bus write to a register with one buffer, by a method or by a thread whose waits leave the bank
  alone, takes the bits of the write mask from the bus and keeps the others, within the width of the register: the
  next bus read and the user's \<^verbatim>\<open>get\<close> return that value, and no register in other bytes of the store changes.
\<close>

theorem bus_write_applies_mask:
  assumes "bank_ok k" and "get_register a k = Inr r" and "bufs r = Shared_io b" and "register_safe r"
    and "buf_get b k = Inr old" and "proc \<noteq> Other_process" and "be \<noteq> 0"
  shows "\<exists>out out' k'. bus_write proc (\<lambda>k. k) v a be tr delayed k = Inr (True, out, k') \<and>
    bus_read proc (\<lambda>k. k) x a be tr delayed k' =
      Inr ((True, ((v AND m_write_mask b) OR (old AND NOT (m_write_mask b))) AND mask (8 * snd (place k r))), out', k') \<and>
    reg_get a k' = Inr (((v AND m_write_mask b) OR (old AND NOT (m_write_mask b))) AND mask (8 * snd (place k r))) \<and>
    (\<forall>a' r'. get_register a' k = Inr r' \<and> apart (place k r) (place k r') \<longrightarrow> reg_get a' k' = reg_get a' k)"
proof -
  let ?new = "(v AND m_write_mask b) OR (old AND NOT (m_write_mask b))"
  have b: "buf d (bufs r) = b" for d by (simp add: buf_def assms(3))
  have st: "m_data b = Stored (fst (place k r)) (snd (place k r))" using place_Stored [OF assms(1,2)] assms(3) by auto
  obtain o1 m where m: "store_write (fst (place k r)) (snd (place k r)) ?new (m_register_input_store k) = Inr m"
    and s: "buf_set a In ?new k = Inr ((), o1, k\<lparr>m_register_input_store := m\<rparr>)"
    using buf_set_stored [OF assms(1,2,4), of In] st b by metis
  let ?k = "k\<lparr>m_register_input_store := m\<rparr>"
  have g: "buf_get b ?k = Inr (?new AND mask (8 * snd (place k r)))" using buf_get_written [OF m st] .
  have w: "\<exists>out. bus_write proc (\<lambda>k. k) v a be tr delayed k = Inr (True, out, ?k)"
    by (rule bus_write_runs [OF assms(2,4,6,7)]) (use assms(2,4,5) s b in simp_all)
  obtain out' where rd: "bus_read proc (\<lambda>k. k) x a be tr delayed ?k = Inr ((True, ?new AND mask (8 * snd (place k r))), out', ?k)"
    using bus_read_runs [of a ?k r] assms(2,4,6,7) g b by fastforce
  have "reg_get a ?k = Inr (?new AND mask (8 * snd (place k r)))" using assms(2) g b by (simp add: reg_get_def)
  moreover have "reg_get a' ?k = reg_get a' k" if "get_register a' k = Inr r'" "apart (place k r) (place k r')" for a' r'
    using buf_get_apart [OF m assms(1) that] that(1) by (simp add: reg_get_def)
  ultimately show ?thesis using w rd by blast
qed


definition sample_buffer :: "buffer_data \<Rightarrow> u32 \<Rightarrow> buffer" where
  "sample_buffer d wm = new_buffer d wm 0"

definition sample_register :: "u32 \<Rightarrow> u32 \<Rightarrow> u32 \<Rightarrow> buffers \<Rightarrow> register" where
  "sample_register a type width bs = \<lparr>m_register_type = type, m_register_width = width, m_register_offset = a, bufs = bs,
     m_pre_write_rules = new_rules, m_post_write_rules = new_rules, m_pre_read_rules = new_rules,
     m_post_read_rules = new_rules, m_events_enabled = True, br = []\<rparr>"

definition shared_sample :: register where
  "shared_sample = sample_register 0 0x1010101 32 (Shared_io (sample_buffer (Stored 0 4) 0xFF00))"

definition split_sample :: register where
  "split_sample = sample_register 4 0x1010201 32 (Split_io (sample_buffer (Own 5) 0xFFFF) (sample_buffer (Stored 4 4) 0xFFFF))"

definition sample_bank :: bank where
  "sample_bank = (new_bank ALIGNED_ADDRESS 2 [0x78, 0x56, 0x34, 0x12, 7])\<lparr>m_contents := [(0, shared_sample), (4, split_sample)]\<rparr>"

lemmas sample_defs = sample_bank_def shared_sample_def split_sample_def sample_register_def sample_buffer_def new_buffer_def new_bank_def

lemma sample_bank_facts:
  "bank_ok sample_bank" "get_register 0 sample_bank = Inr shared_sample" "get_register 4 sample_bank = Inr split_sample"
  "register_safe shared_sample" "register_safe split_sample"
  "place sample_bank shared_sample = (0, 4)" "place sample_bank split_sample = (4, 4)"
  "buf_get (buf In (bufs shared_sample)) sample_bank = Inr 0x12345678"
  "buf_get (buf Out (bufs split_sample)) sample_bank = Inr 7"
proof -
  show "bank_ok sample_bank" "get_register 0 sample_bank = Inr shared_sample" "get_register 4 sample_bank = Inr split_sample"
    "register_safe shared_sample" "register_safe split_sample"
    "place sample_bank shared_sample = (0, 4)" "place sample_bank split_sample = (4, 4)"
    by (auto simp: sample_defs bank_ok_def omap_ok_def register_ok_def buffers_fit_def store_offset_def get_register_def
      register_safe_def buf_def place_def)
  show "buf_get (buf In (bufs shared_sample)) sample_bank = Inr 0x12345678" "buf_get (buf Out (bufs split_sample)) sample_bank = Inr 7"
    by code_simp+
qed

theorem bus_write_applies_mask_witness:
  "\<exists>out out' k'. bus_write Thread_process (\<lambda>k. k) 0xAABBCCDD 0 15 None True sample_bank = Inr (True, out, k') \<and>
    bus_read Thread_process (\<lambda>k. k) 0 0 15 None True k' = Inr ((True, 0x1234CC78), out', k') \<and> reg_get 4 k' = reg_get 4 sample_bank"
proof -
  have e: "((0xAABBCCDD AND 0xFF00) OR (0x12345678 AND NOT 0xFF00)) AND mask 32 = (0x1234CC78 :: u32)" by code_simp
  have b: "bufs shared_sample = Shared_io (sample_buffer (Stored 0 4) 0xFF00)" by (simp add: sample_defs)
  have g: "buf_get (sample_buffer (Stored 0 4) 0xFF00) sample_bank = Inr 0x12345678" by code_simp
  obtain out out' k' where w: "bus_write Thread_process (\<lambda>k. k) 0xAABBCCDD 0 15 None True sample_bank = Inr (True, out, k')"
    and rd: "bus_read Thread_process (\<lambda>k. k) 0 0 15 None True k' = Inr ((True,
      ((0xAABBCCDD AND m_write_mask (sample_buffer (Stored 0 4) 0xFF00)) OR (0x12345678 AND NOT (m_write_mask (sample_buffer (Stored 0 4) 0xFF00))))
       AND mask (8 * snd (place sample_bank shared_sample))), out', k')"
    and o: "\<forall>a' r'. get_register a' sample_bank = Inr r' \<and> apart (place sample_bank shared_sample) (place sample_bank r') \<longrightarrow>
      reg_get a' k' = reg_get a' sample_bank"
    using bus_write_applies_mask [OF sample_bank_facts(1,2) b sample_bank_facts(4) g, of Thread_process 15 "0xAABBCCDD" None True 0]
    by auto
  have "reg_get 4 k' = reg_get 4 sample_bank"
    using o sample_bank_facts(3,6,7) by (auto simp: apart_def)
  moreover have "m_write_mask (sample_buffer (Stored 0 4) 0xFF00) = 0xFF00" by (simp add: sample_buffer_def new_buffer_def)
  ultimately show ?thesis using w rd e sample_bank_facts(6) by auto
qed


section \<open>Split registers\<close>

lemma buf_get_put [simp]: "buf_get b (put_register a r k) = buf_get b k"
  by (simp add: buf_get_def split: buffer_data.splits)

lemma values_put: "snd ` set (map_put n x m) \<subseteq> insert x (snd ` set m)"
  by (induction n x m rule: map_put.induct) auto

lemma register_safe_upd:
  "register_safe r \<Longrightarrow> (\<And>b. m_write_rules (f b) = m_write_rules b) \<Longrightarrow> register_safe (r\<lparr>bufs := upd_buf d f (bufs r)\<rparr>)"
  by (auto simp: register_safe_def buf_def upd_buf_def split: buffers.splits direction.splits)

lemma bus_write_split:
  assumes "get_register a k = Inr r" and "bufs r = Split_io i out" and "m_data i = Own old" and "register_safe r"
    and "proc \<noteq> Other_process" and "be \<noteq> 0"
  shows "\<exists>ns. bus_write proc (\<lambda>k. k) v a be tr delayed k = Inr (True, ns,
    put_register a (r\<lparr>bufs := Split_io (i\<lparr>m_data := Own ((v AND m_write_mask out) OR (old AND NOT (m_write_mask out)))\<rparr>) out\<rparr>) k)"
proof -
  let ?new = "(v AND m_write_mask out) OR (old AND NOT (m_write_mask out))"
  let ?r = "r\<lparr>bufs := upd_buf In (\<lambda>b. b\<lparr>m_data := Own ?new\<rparr>) (bufs r)\<rparr>"
  have b: "buf In (bufs r) = i" "buf Out (bufs r) = out" by (simp_all add: buf_def assms(2))
  obtain ns where "buf_set a In ?new k = Inr ((), ns, put_register a ?r k)"
    using buf_set_own [OF assms(1,4), of In old] b assms(3) by auto
  moreover have "register_safe ?r" using assms(4) by (rule register_safe_upd) simp
  moreover have "bufs ?r = Split_io (i\<lparr>m_data := Own ?new\<rparr>) out" by (simp add: upd_buf_def assms(2))
  ultimately have "\<exists>ns. bus_write proc (\<lambda>k. k) v a be tr delayed k = Inr (True, ns, put_register a ?r k)"
    by (intro bus_write_runs [OF assms(1,4,5,6)]) (use b assms(3) in \<open>simp_all add: buf_get_def\<close>)
  then show ?thesis by (simp add: upd_buf_def assms(2))
qed

text \<open>
  A split register keeps what the bus writes apart from what the bus reads: a bus write lands in
  the input buffer, which the user's \<^verbatim>\<open>get\<close> returns, and a following bus read still returns the output buffer.
  The mask that applies to the bus write is the one of the output buffer: the write mask that the
  user has set, and reads back, is that of the input buffer and has no effect.
\<close>

theorem split_register_ignores_set_mask:
  assumes "bank_ok k" and "get_register a k = Inr r" and "bufs r = Split_io i out" and "register_safe r"
    and "buf_get i k = Inr old" and "buf_get out k = Inr shown" and "proc \<noteq> Other_process" and "be \<noteq> 0"
    and "set_write_mask a m k = Inr k1"
  shows "\<exists>n1 n2 k2. bus_write proc (\<lambda>k. k) v a be tr delayed k1 = Inr (True, n1, k2) \<and> get_write_mask a k2 = Inr m \<and>
    reg_get a k2 = Inr ((v AND m_write_mask out) OR (old AND NOT (m_write_mask out))) \<and>
    bus_read proc (\<lambda>k. k) x a be tr delayed k2 = Inr ((True, shown), n2, k2)"
proof -
  let ?r1 = "r\<lparr>bufs := Split_io (i\<lparr>m_write_mask := m\<rparr>) out\<rparr>"
  let ?new = "(v AND m_write_mask out) OR (old AND NOT (m_write_mask out))"
  let ?r2 = "r\<lparr>bufs := Split_io (i\<lparr>m_write_mask := m, m_data := Own ?new\<rparr>) out\<rparr>"
  have i: "m_data i = Own old" using place_Stored [OF assms(1,2)] assms(3,5) by (auto simp: buf_get_def)
  have k1: "k1 = put_register a ?r1 k" using assms(9,2,3) by (simp add: set_write_mask_def upd_buf_def)
  have g1: "get_register a k1 = Inr ?r1" using k1 by simp
  have s: "register_safe ?r1" "register_safe ?r2"
    using assms(3,4) by (auto simp: register_safe_def buf_def split: direction.splits)
  let ?k2 = "put_register a ?r2 k1"
  have "\<exists>ns. bus_write proc (\<lambda>k. k) v a be tr delayed k1 = Inr (True, ns, ?k2)"
    using bus_write_split [OF g1 _ _ s(1) assms(7,8), of "i\<lparr>m_write_mask := m\<rparr>" out old] i by simp
  moreover have "get_write_mask a ?k2 = Inr m" "reg_get a ?k2 = Inr ?new"
    by (simp_all add: get_write_mask_def reg_get_def buf_def buf_get_def)
  moreover have "buf_get (buf Out (bufs ?r2)) ?k2 = Inr shown"
    using assms(6) k1 by (simp add: buf_def)
  then have "\<exists>ns. bus_read proc (\<lambda>k. k) x a be tr delayed ?k2 = Inr ((True, shown), ns, ?k2)"
    by (intro bus_read_runs [OF _ s(2) assms(7,8)]) simp_all
  ultimately show ?thesis by blast
qed

theorem split_register_ignores_set_mask_witness:
  "\<exists>k1 n1 n2 k2. set_write_mask 4 0 sample_bank = Inr k1 \<and> bus_write Method_process (\<lambda>k. k) 0x11 4 15 None True k1 = Inr (True, n1, k2)
    \<and> reg_get 4 k2 = Inr 0x11 \<and> bus_read Method_process (\<lambda>k. k) 0 4 15 None True k2 = Inr ((True, 7), n2, k2)"
proof -
  let ?i = "sample_buffer (Own 5) 0xFFFF" and ?o = "sample_buffer (Stored 4 4) 0xFFFF"
  have b: "bufs split_sample = Split_io ?i ?o" by (simp add: sample_defs)
  have g: "buf_get ?i sample_bank = Inr 5" "buf_get ?o sample_bank = Inr 7" by code_simp+
  have m: "m_write_mask ?o = 0xFFFF" by (simp add: sample_buffer_def new_buffer_def)
  obtain k1 where k1: "set_write_mask 4 0 sample_bank = Inr k1" using sample_bank_facts(3) by (simp add: set_write_mask_def)
  have e: "((0x11 AND 0xFFFF) OR (5 AND NOT 0xFFFF)) = (0x11 :: u32)" by code_simp
  show ?thesis
    using split_register_ignores_set_mask [OF sample_bank_facts(1,3) b sample_bank_facts(5) g _ _ k1, of Method_process 15 "0x11" None True 0] k1 m e
    by auto
qed

lemma register_safe_range:
  assumes "register_safe r" and "range_safe x"
  shows "register_safe (r\<lparr>br := map_put nm x (br r)\<rparr>)"
proof -
  have "range_safe y" if "y \<in> snd ` set (map_put nm x (br r))" for y
    using subsetD [OF values_put that] assms by (auto simp only: register_safe_def insert_iff)
  then show ?thesis using assms(1) by (simp add: register_safe_def)
qed

lemma range_safe_new [simp]: "range_safe (new_bit_range s e (Shared_range (new_range_data d)))"
  by (simp add: range_safe_def new_bit_range_def range_buf_def new_range_data_def)

text \<open>
  A bit range of a split register whose type has further flags, as the types the library is used
  with have, is not split: after a bus write it goes on reading the output buffer, so it does not see
  the value that the bus has written and that the user's \<^verbatim>\<open>get\<close> returns.
\<close>

theorem split_range_reads_output:
  assumes "bank_ok k" and "get_register a k = Inr r" and "bufs r = Split_io i out" and "register_safe r"
    and "buf_get i k = Inr old" and "buf_get out k = Inr shown" and "proc \<noteq> Other_process" and "be \<noteq> 0"
    and "m_register_type r \<noteq> SPLIT_IO" and "create_bit_range a nm s e k = Inr k1"
  shows "\<exists>n1 k2. bus_write proc (\<lambda>k. k) v a be tr delayed k1 = Inr (True, n1, k2) \<and>
    reg_get a k2 = Inr ((v AND m_write_mask out) OR (old AND NOT (m_write_mask out))) \<and>
    bit_range_get a nm k2 = Inr (range_extract (new_bit_range s e (Shared_range (new_range_data Out))) shown)"
proof -
  let ?x = "new_bit_range s e (Shared_range (new_range_data Out))"
  let ?r1 = "r\<lparr>br := map_put nm ?x (br r)\<rparr>"
  let ?new = "(v AND m_write_mask out) OR (old AND NOT (m_write_mask out))"
  let ?k2 = "put_register a (?r1\<lparr>bufs := Split_io (i\<lparr>m_data := Own ?new\<rparr>) out\<rparr>) k1"
  have i: "m_data i = Own old" using place_Stored [OF assms(1,2)] assms(3,5) by (auto simp: buf_get_def)
  have k1: "k1 = put_register a ?r1 k" using assms(10,2,9) by (auto simp: create_bit_range_def split: if_splits)
  have "register_safe ?r1" by (rule register_safe_range [OF assms(4)]) simp
  then have "\<exists>ns. bus_write proc (\<lambda>k. k) v a be tr delayed k1 = Inr (True, ns, ?k2)"
    using bus_write_split [of a k1 ?r1 i out old] k1 i assms(3,7,8) by simp
  moreover have "reg_get a ?k2 = Inr ?new" by (simp add: reg_get_def buf_def buf_get_def)
  moreover have "bit_range_get a nm ?k2 = Inr (range_extract ?x shown)"
    using assms(6) k1 by (simp add: bit_range_get_def get_range_def map_simps range_buf_def new_bit_range_def new_range_data_def
      buf_def)
  ultimately show ?thesis by blast
qed


theorem split_range_reads_output_witness:
  "\<exists>k1 n1 k2. create_bit_range 4 ''low'' 0 3 sample_bank = Inr k1 \<and> bus_write Method_process (\<lambda>k. k) 0x11 4 15 None True k1 = Inr (True, n1, k2)
    \<and> reg_get 4 k2 = Inr 0x11 \<and> bit_range_get 4 ''low'' k2 = Inr 7"
proof -
  let ?i = "sample_buffer (Own 5) 0xFFFF" and ?o = "sample_buffer (Stored 4 4) 0xFFFF"
  have b: "bufs split_sample = Split_io ?i ?o" by (simp add: sample_defs)
  have g: "buf_get ?i sample_bank = Inr 5" "buf_get ?o sample_bank = Inr 7" by code_simp+
  have m: "m_write_mask ?o = 0xFFFF" by (simp add: sample_buffer_def new_buffer_def)
  have t: "m_register_type split_sample \<noteq> SPLIT_IO" by (simp add: sample_defs SPLIT_IO_def)
  obtain k1 where k1: "create_bit_range 4 ''low'' 0 3 sample_bank = Inr k1"
    using sample_bank_facts(3) by (auto simp: create_bit_range_def sample_defs Let_def)
  have e: "((0x11 AND 0xFFFF) OR (5 AND NOT 0xFFFF)) = (0x11 :: u32)"
    "range_extract (new_bit_range 0 3 (Shared_range (new_range_data Out))) 7 = 7" by code_simp+
  show ?thesis
    using split_range_reads_output [OF sample_bank_facts(1,3) b sample_bank_facts(5) g _ _ t k1, of Method_process 15 "0x11" None True] k1 m e
    by auto
qed

section \<open>Bits and bit ranges\<close>

lemma unat_count: "unat (n AND 31 :: u32) = unat n mod 32"
proof -
  have n: "n AND 31 = take_bit 5 n" by (simp add: take_bit_eq_mask mask_eq_exp_minus_1)
  have "unat (take_bit 5 n) = take_bit 5 (unat n)" by (rule unsigned_take_bit_eq)
  then show ?thesis unfolding n by (simp only: take_bit_eq_mod) simp
qed

lemma count_small: "n < 32 \<Longrightarrow> unat (n AND 31 :: u32) = unat n"
  by (simp add: unat_count word_less_nat_alt)

lemma bit_shift_right: "n < 32 \<Longrightarrow> bit (shift_right v n) i \<longleftrightarrow> bit v (unat n + i)"
  by (simp add: shift_right_def count_small bit_drop_bit_eq)

lemma bit_shift_left: "n < 32 \<Longrightarrow> bit (shift_left v n) i \<longleftrightarrow> unat n \<le> i \<and> i < 32 \<and> bit v (i - unat n)"
  by (auto simp: shift_left_def count_small bit_push_bit_iff dest: bit_imp_le_length)

lemma bit_ones_above: "n < 32 \<Longrightarrow> bit (ones_above n) i \<longleftrightarrow> unat n \<le> i \<and> i < 32"
  by (auto simp: ones_above_def count_small bit_simps dest: bit_imp_le_length)

lemma ones_above_32 [simp]: "ones_above 32 = - 1"
  by (simp add: ones_above_def)

lemma bit_set_bit_to: "n < 32 \<Longrightarrow> i < 32 \<Longrightarrow> bit (set_bit_to v n b) i = (if i = unat n then b else bit v i)"
  by (auto simp: set_bit_to_def bit_or_iff bit_and_iff bit_not_iff bit_shift_left bit_1_iff)

lemma nonzero_bit: "(v :: u32) \<noteq> 0 \<longleftrightarrow> (\<exists>i. bit v i)"
  using bit_word_eqI [of v 0] by auto

text \<open>
  The functions on single bits of a register do not look at one bit: \<^verbatim>\<open>bit_get\<close> is true when any
  bit from the given one upwards is set, where the bit object of the same bit returns that bit; and
  \<^verbatim>\<open>bit_lock\<close> sets the bit of the write mask, making the bit writable, and leaves the lock mask alone.
\<close>

theorem bit_functions_see_upper_bits:
  assumes "get_register a k = Inr r" and "buf_get (buf In (bufs r)) k = Inr v" and "n < 32"
  shows "bit_get a n k = Inr (\<exists>i \<ge> unat n. bit v i) \<and> acc_get a n k = Inr (bit v (unat n)) \<and>
    (\<exists>k'. bit_lock a n k = Inr k' \<and> get_lock_mask a k' = get_lock_mask a k \<and>
      get_write_mask a k' = Inr (set_bit_to (m_write_mask (buf In (bufs r))) n True))"
proof -
  have "shift_right v n \<noteq> 0 \<longleftrightarrow> (\<exists>i \<ge> unat n. bit v i)"
    unfolding nonzero_bit bit_shift_right [OF assms(3)] by (metis le_add1 le_add_diff_inverse)
  moreover have "1 AND shift_right v n \<noteq> 0 \<longleftrightarrow> bit v (unat n)"
    using bit_shift_right [OF assms(3), of v 0] by (simp add: nonzero_bit bit_and_iff bit_1_iff)
  ultimately have "bit_get a n k = Inr (\<exists>i \<ge> unat n. bit v i)" "acc_get a n k = Inr (bit v (unat n))"
    using assms by (simp_all add: bit_get_def reg_get_def acc_get_def)
  moreover have "m_lock_mask (buf In (upd_buf In (\<lambda>b. b\<lparr>m_write_mask := x\<rparr>) bs)) = m_lock_mask (buf In bs)"
    "m_write_mask (buf In (upd_buf In (\<lambda>b. b\<lparr>m_write_mask := x\<rparr>) bs)) = x" for x bs
    by (simp_all add: buf_def upd_buf_def split: buffers.split)
  ultimately show ?thesis
    using assms(1) by (simp add: bit_lock_def get_write_mask_def set_write_mask_def get_lock_mask_def)
qed

theorem bit_functions_see_upper_bits_witness:
  "bit_get 0 2 sample_bank = Inr True \<and> acc_get 0 2 sample_bank = Inr False"
proof -
  have "bit (0x12345678 :: u32) 28" "\<not> bit (0x12345678 :: u32) 2" by code_simp+
  moreover have "bit_get 0 2 sample_bank = Inr (\<exists>i \<ge> unat (2 :: u32). bit (0x12345678 :: u32) i)"
    "acc_get 0 2 sample_bank = Inr (bit (0x12345678 :: u32) (unat (2 :: u32)))"
    using bit_functions_see_upper_bits [OF sample_bank_facts(2,8), of 2] by simp_all
  ultimately show ?thesis by (auto intro: exI [of _ 28])
qed


lemma bit_range_mask:
  assumes "s \<le> e" and "e < 32" and "i < 32"
  shows "bit (bit_range_mask_of s e) i \<longleftrightarrow> unat s \<le> i \<and> i \<le> unat e"
proof -
  have s: "s < 32" using assms(1,2) by simp
  have "bit (let y = NOT (ones_above (e + 1)) in if y = 0 then -1 else y) i \<longleftrightarrow> i \<le> unat e"
  proof (cases "e = 31")
    case False
    then have e: "e < 31" using assms(2) by (simp add: word_less_nat_alt word_unat_eq_iff)
    then have u: "unat (e + 1) = unat e + 1" by (simp add: unat_word_ariths word_less_nat_alt)
    have "e + 1 < 32" using e u by (simp add: word_less_nat_alt)
    then have b: "bit (NOT (ones_above (e + 1))) j \<longleftrightarrow> j < 32 \<and> j \<le> unat e" for j
      using u by (auto simp: bit_not_iff bit_ones_above)
    have "bit (NOT (ones_above (e + 1))) 0" using b [of 0] by simp
    then have "NOT (ones_above (e + 1)) \<noteq> 0" using nonzero_bit by blast
    then show ?thesis using b assms(3) by (simp add: Let_def)
  qed (use assms(3) in simp)
  then show ?thesis using assms(3) s by (auto simp: bit_range_mask_of_def Let_def bit_and_iff bit_ones_above)
qed

lemma bit_range_insert:
  assumes "s \<le> e" and "e < 32" and "i < 32"
  shows "bit (range_insert (new_bit_range s e bs) v w) i = (if unat s \<le> i \<and> i \<le> unat e then bit w (i - unat s) else bit v i)"
proof -
  have s: "s < 32" using assms(1,2) by simp
  show ?thesis using assms(3) s bit_range_mask [OF assms]
    by (auto simp: range_insert_def new_bit_range_def bit_or_iff bit_and_iff bit_not_iff bit_shift_left)
qed

lemma bit_range_extract:
  assumes "s \<le> e" and "e < 32" and "s \<noteq> 0 \<or> e \<noteq> 31"
  shows "bit (range_extract (new_bit_range s e bs) v) i \<longleftrightarrow> i \<le> unat e - unat s \<and> bit v (unat s + i)"
proof -
  have l: "unat s \<le> unat e" "unat e < 32" using assms(1,2) by (simp_all add: word_le_nat_alt word_less_nat_alt)
  have "unat s \<noteq> 0 \<or> unat e \<noteq> 31" using assms(3) by (auto simp: word_unat_eq_iff)
  then have c: "unat (e + 1 - s) = unat e + 1 - unat s" "unat e + 1 - unat s < 32"
    using l by (auto simp: unat_sub_if' unat_word_ariths)
  then have "e + 1 - s < 32" "s < 32" using l by (simp_all add: word_less_nat_alt)
  then show ?thesis using c l
    by (auto simp: range_extract_def new_bit_range_def bit_and_iff bit_not_iff bit_ones_above bit_shift_right dest: bit_imp_le_length)
qed


lemma range_set_get:
  assumes "bank_ok k" and "get_register a k = Inr r" and "bufs r = Shared_io b" and "register_safe r"
    and "m_register_type r \<noteq> SPLIT_IO" and "create_bit_range a nm s e k = Inr k1" and "reg_get a k = Inr v"
  obtains out k2 v2 where "bit_range_set a nm w k1 = Inr ((), out, k2)" and "reg_get a k2 = Inr v2"
    and "v2 = range_insert (new_bit_range s e (Shared_range (new_range_data Out))) v w AND mask (8 * snd (place k r))"
    and "bit_range_get a nm k2 = Inr (range_extract (new_bit_range s e (Shared_range (new_range_data Out))) v2)"
proof -
  let ?x = "new_bit_range s e (Shared_range (new_range_data Out))"
  let ?r1 = "r\<lparr>br := map_put nm ?x (br r)\<rparr>"
  let ?v = "range_insert ?x v w"
  have b: "buf d (bufs r) = b" for d by (simp add: buf_def assms(3))
  have k1: "k1 = put_register a ?r1 k" using assms(6,2,5) by (auto simp: create_bit_range_def split: if_splits)
  have g1: "get_register a k1 = Inr ?r1" using k1 by simp
  have s1: "register_safe ?r1" by (rule register_safe_range [OF assms(4)]) simp
  have ok1: "bank_ok k1" unfolding k1 by (rule bank_ok_change [OF assms(1,2)]) simp_all
  have "place k1 ?r1 = place k r" using k1 by (simp add: place_def)
  then have st: "m_data b = Stored (fst (place k r)) (snd (place k r))" using place_Stored [OF assms(1,2)] assms(3) by auto
  obtain out m where m: "store_write (fst (place k r)) (snd (place k r)) ?v (m_register_input_store k1) = Inr m"
    and set: "buf_set a Out ?v k1 = Inr ((), out, k1\<lparr>m_register_input_store := m\<rparr>)"
    using buf_set_stored [OF ok1 g1 s1, of Out "fst (place k r)" "snd (place k r)" ?v] st b by auto
  let ?k2 = "k1\<lparr>m_register_input_store := m\<rparr>"
  have v: "buf_get b k1 = Inr v" using assms(2,7) b k1 by (simp add: reg_get_def)
  have v2: "buf_get b ?k2 = Inr (?v AND mask (8 * snd (place k r)))" using buf_get_written [OF m st] .
  have x: "get_range nm ?r1 = Inr ?x" by (simp add: get_range_def map_simps)
  have d: "m_register_data (range_buf y ?x) = Out" for y by (simp add: range_buf_def new_bit_range_def new_range_data_def)
  have "bit_range_set a nm w k1 = Inr ((), out, ?k2)" using g1 x d v b set by (simp add: bit_range_set_def)
  moreover have "reg_get a ?k2 = Inr (?v AND mask (8 * snd (place k r)))" using g1 v2 b by (simp add: reg_get_def)
  moreover have "bit_range_get a nm ?k2 = Inr (range_extract ?x (?v AND mask (8 * snd (place k r))))"
    using g1 x d v2 b by (simp add: bit_range_get_def)
  ultimately show thesis using that by blast
qed

text \<open>
  C15. Take a register with one buffer for input and output that is not of the type \<^verbatim>\<open>SPLIT_IO\<close>, whose rules wait for
  nothing, and a new bit range within its width that is not all the 32 bits of a word. Setting the
  bit range and getting it returns the low bits of the value set, and in the register only the bits of the range have changed.
  (A range of all 32 bits reads 0, see \<open>full_range_reads_zero\<close>; a range of a split register is written to one buffer and read from the
  other, so it is not read back.)
\<close>

theorem bit_range_roundtrip:
  assumes "bank_ok k" and "get_register a k = Inr r" and "bufs r = Shared_io b" and "register_safe r"
    and "m_register_type r \<noteq> SPLIT_IO" and "create_bit_range a nm s e k = Inr k1" and "reg_get a k = Inr v"
    and "s \<le> e" and "e < 32" and "unat e < 8 * snd (place k r)" and "s \<noteq> 0 \<or> e \<noteq> 31"
  shows "\<exists>out k2 v2. bit_range_set a nm w k1 = Inr ((), out, k2) \<and>
    bit_range_get a nm k2 = Inr (w AND mask (unat e + 1 - unat s)) \<and> reg_get a k2 = Inr v2 \<and>
    (\<forall>i. bit v2 i = (if unat s \<le> i \<and> i \<le> unat e then bit w (i - unat s) else bit v i))"
proof -
  let ?x = "new_bit_range s e (Shared_range (new_range_data Out))"
  obtain out k2 v2 where k2: "bit_range_set a nm w k1 = Inr ((), out, k2)" "reg_get a k2 = Inr v2"
      "v2 = range_insert ?x v w AND mask (8 * snd (place k r))" "bit_range_get a nm k2 = Inr (range_extract ?x v2)"
    by (rule range_set_get [OF assms(1-7)]) (rule that)
  have l: "unat s \<le> unat e" "unat e < 32" using assms(8,9) by (simp_all add: word_le_nat_alt word_less_nat_alt)
  have "m_data b = Stored (fst (place k r)) (snd (place k r))" using place_Stored [OF assms(1,2)] assms(3) by auto
  then have "v AND mask (8 * snd (place k r)) = v"
    using assms(2,3,7) by (auto simp: reg_get_def buf_def buf_get_def dest: store_read_masked)
  then have v: "bit v i \<Longrightarrow> i < 8 * snd (place k r)" for i by (metis bit_and_iff bit_mask_iff)
  have v2: "bit v2 i = (if unat s \<le> i \<and> i \<le> unat e then bit w (i - unat s) else bit v i)" for i
  proof (cases "i < 32")
    case True
    then show ?thesis using k2(3) assms(10) v by (auto simp: bit_and_iff bit_mask_iff bit_range_insert [OF assms(8,9)])
  next
    case False
    then show ?thesis using l(2) bit_imp_le_length [of v2 i] bit_imp_le_length [of v i] by auto
  qed
  have "range_extract ?x v2 = w AND mask (unat e + 1 - unat s)"
  proof (rule bit_word_eqI)
    fix i assume "i < LENGTH(32)"
    show "bit (range_extract ?x v2) i = bit (w AND mask (unat e + 1 - unat s)) i"
      using l \<open>i < LENGTH(32)\<close> by (auto simp: bit_range_extract [OF assms(8,9,11)] v2 bit_and_iff bit_mask_iff)
  qed
  then show ?thesis using k2 v2 by auto
qed


lemma create_sample_range:
  assumes "e < 32"
  shows "\<exists>k1. create_bit_range 0 ''field'' s e sample_bank = Inr k1"
  using sample_bank_facts(2) assms by (simp add: create_bit_range_def shared_sample_def sample_register_def Let_def)

lemma shared_sample_facts:
  "bufs shared_sample = Shared_io (sample_buffer (Stored 0 4) 0xFF00)" "m_register_type shared_sample \<noteq> SPLIT_IO"
  "reg_get 0 sample_bank = Inr 0x12345678"
  using sample_bank_facts(2,8) by (simp_all add: reg_get_def sample_defs SPLIT_IO_def)

theorem bit_range_roundtrip_witness:
  "\<exists>k1 out k2. create_bit_range 0 ''field'' 4 11 sample_bank = Inr k1 \<and> bit_range_set 0 ''field'' 0xFFFFFFAB k1 = Inr ((), out, k2) \<and>
    bit_range_get 0 ''field'' k2 = Inr 0xAB"
proof -
  obtain k1 where k1: "create_bit_range 0 ''field'' 4 11 sample_bank = Inr k1" using create_sample_range [of 11 4] by auto
  have e: "0xFFFFFFAB AND mask (unat (11 :: u32) + 1 - unat (4 :: u32)) = (0xAB :: u32)" by code_simp
  show ?thesis
    using bit_range_roundtrip [OF sample_bank_facts(1,2) shared_sample_facts(1) sample_bank_facts(4) shared_sample_facts(2) k1 shared_sample_facts(3),
      of "0xFFFFFFAB"] sample_bank_facts(6) k1 e by auto
qed

text \<open>
  A bit range that covers a 32 bit register can be set but not read: setting it stores the whole
  value, and getting it shifts by the width of the word and returns 0 whatever the register holds.
\<close>

theorem full_range_reads_zero:
  assumes "bank_ok k" and "get_register a k = Inr r" and "bufs r = Shared_io b" and "register_safe r"
    and "m_register_type r \<noteq> SPLIT_IO" and "create_bit_range a nm 0 31 k = Inr k1" and "reg_get a k = Inr v"
    and "m_register_width r = 32"
  shows "\<exists>out k2. bit_range_set a nm w k1 = Inr ((), out, k2) \<and> reg_get a k2 = Inr w \<and> bit_range_get a nm k2 = Inr 0"
proof -
  let ?x = "new_bit_range 0 31 (Shared_range (new_range_data Out))"
  obtain out k2 v2 where k2: "bit_range_set a nm w k1 = Inr ((), out, k2)" "reg_get a k2 = Inr v2"
      "v2 = range_insert ?x v w AND mask (8 * snd (place k r))" "bit_range_get a nm k2 = Inr (range_extract ?x v2)"
    by (rule range_set_get [OF assms(1-7)]) (rule that)
  have p: "8 * snd (place k r) = 32" by (simp add: place_def assms(8))
  have "v2 = w"
  proof (rule bit_word_eqI)
    fix i assume "i < LENGTH(32)"
    then show "bit v2 i = bit w i" using k2(3) p by (simp add: bit_and_iff bit_mask_iff bit_range_insert)
  qed
  moreover have "range_extract ?x v2 = 0" by (simp add: range_extract_def new_bit_range_def)
  ultimately show ?thesis using k2 by auto
qed

theorem full_range_reads_zero_witness:
  "\<exists>k1 out k2. create_bit_range 0 ''field'' 0 31 sample_bank = Inr k1 \<and> bit_range_set 0 ''field'' 0xAB k1 = Inr ((), out, k2) \<and>
    reg_get 0 k2 = Inr 0xAB \<and> bit_range_get 0 ''field'' k2 = Inr 0"
proof -
  obtain k1 where k1: "create_bit_range 0 ''field'' 0 31 sample_bank = Inr k1" using create_sample_range [of 31 0] by auto
  have "m_register_width shared_sample = 32" by (simp add: sample_defs)
  with full_range_reads_zero [OF sample_bank_facts(1,2) shared_sample_facts(1) sample_bank_facts(4) shared_sample_facts(2) k1 shared_sample_facts(3),
      of "0xAB"] k1
  show ?thesis by auto
qed

section \<open>Creation\<close>

text \<open>
  In an aligned bank the test of an offset against the end of the store multiplies and adds in 32 bits: a
  register 32 bits wide at offset \<^verbatim>\<open>0x20000000\<close> passes it in every bank, and its initial value is
  written outside the store.
\<close>

theorem create_register_wraps:
  assumes "m_addressing_mode k = ALIGNED_ADDRESS" and "4 \<le> m_array_size k" and "length (m_register_input_store k) = m_array_size k"
    and "m_array_size k < 0x20000004" and "map_find (m_contents k) 0x20000000 = None" and "type AND SINGLE_IO > 0"
  shows "create_register 0x20000000 type data wm 32 lm k = Inl (Undefined ''data_store_array'')"
proof -
  have w: "(0x20000000 :: u32) * 8 + 32 = 32" "(0x20000000 :: u32) mod 4 = 0" by code_simp+
  show ?thesis using assms w
    by (auto simp: create_register_def register_sharedio_def register_ctor_def add_register_def primary_ctor_def
      store_write_def store_offset_def Let_def)
qed

theorem create_register_wraps_witness:
  "create_register 0x20000000 0x1010101 1 0 32 0 sample_bank = Inl (Undefined ''data_store_array'')"
  by (rule create_register_wraps) (simp_all add: sample_bank_def new_bank_def SINGLE_IO_def; code_simp)+

end
