(* ===== verification/Rmw_Adapter.thy ===== *)
theory Rmw_Adapter
  imports Register_Access
begin

unbundle bit_operations_syntax

text \<open>
  The adapter of \<^verbatim>\<open>greenreg/internal/registers/register/read_modify_write_adapter.h\<close>, which
  turns accesses to bytes and half words into a read and a write of the 32 bit register they lie in. The bus it
  is bound to is a parameter of its definitions; the laws it needs of that bus are a locale, with the register
  bank as its interpretation.
\<close>

section \<open>The adapter\<close>

type_synonym 's bus_reader = "u32 \<Rightarrow> u32 \<Rightarrow> u32 \<Rightarrow> 's \<Rightarrow> ((bool \<times> u32) \<times> notification list \<times> 's) res"
type_synonym 's bus_writer = "u32 \<Rightarrow> u32 \<Rightarrow> u32 \<Rightarrow> 's \<Rightarrow> (bool \<times> notification list \<times> 's) res"

definition byte2word_address :: "u32 \<Rightarrow> u32" where
  "byte2word_address byte_address = byte_address AND NOT 0x3"

definition byte_address2offset :: "u32 \<Rightarrow> u32" where
  "byte_address2offset byte_address = byte_address AND 0x3"

definition word2byte_data :: "u32 \<Rightarrow> u32 \<Rightarrow> u32" where
  "word2byte_data word_data addr_offset = shift_right word_data (addr_offset * 8)"

definition byte_enable2mask :: "u32 \<Rightarrow> u32 res" where
  "byte_enable2mask byte_enable =
     (if byte_enable = 0x1 then Inr 0x000000FF
      else if byte_enable = 0x2 then Inr 0x0000FF00
      else if byte_enable = 0x3 then Inr 0x0000FFFF
      else if byte_enable = 0x4 then Inr 0x00FF0000
      else if byte_enable = 0x7 then Inr 0x00FFFFFF
      else if byte_enable = 0x8 then Inr 0xFF000000
      else if byte_enable = 0xC then Inr 0xFFFF0000
      else if byte_enable = 0xF then Inr 0xFFFFFFFF
      else Inl (ScError ''unsupported byte enable''))"

text \<open>The local word is passed uninitialised to the read.\<close>

definition rmw_read :: "'s bus_reader \<Rightarrow> u32 \<Rightarrow> u32 \<Rightarrow> u32 \<Rightarrow> 's \<Rightarrow> ((bool \<times> u32) \<times> notification list \<times> 's) res" where
  "rmw_read rd junk address byte_enable s =
     bindr (rd junk (byte2word_address address) 0xF s) (\<lambda>((status, word_data), out, s1).
       Inr ((status, word2byte_data word_data (byte_address2offset address)), out, s1))"

definition rmw_write :: "'s bus_reader \<Rightarrow> 's bus_writer \<Rightarrow> u32 \<Rightarrow> u32 \<Rightarrow> u32 \<Rightarrow> u32 \<Rightarrow> 's \<Rightarrow> (bool \<times> notification list \<times> 's) res" where
  "rmw_write rd wr junk data address byte_enable s =
     (let word_address = byte2word_address address; offset = byte_address2offset address in
      bindr (rd junk word_address 0xF s) (\<lambda>((status, read_data), out1, s1).
      bindr (byte_enable2mask byte_enable) (\<lambda>m.
      let data_mask = shift_left m (offset * 8);
          word_data = shift_left data (offset * 8);
          write_data = (read_data AND NOT data_mask) OR (word_data AND data_mask)
      in bindr (wr write_data word_address 0xF s1) (\<lambda>(written, out2, s2). Inr (if written then status else False, out1 @ out2, s2)))))"

text \<open>The other conversions of the class, which its accesses do not call.\<close>

definition be2length :: "u32 \<Rightarrow> nat res" where
  "be2length byte_enable =
     (if byte_enable = 0x1 then Inr 1 else if byte_enable = 0x3 then Inr 2 else if byte_enable = 0xf then Inr 4
      else Inl (ScError ''unsupported byte enable''))"

definition byte2word_data :: "u32 \<Rightarrow> u32 \<Rightarrow> u32 res" where
  "byte2word_data byte_data byte_enable =
     (if byte_enable \<in> {0x1, 0x3, 0xF} then Inr byte_data
      else if byte_enable = 0x2 then Inr (push_bit (1 * 8) byte_data)
      else if byte_enable \<in> {0x4, 0xC} then Inr (push_bit (2 * 8) byte_data)
      else if byte_enable = 0x8 then Inr (push_bit (3 * 8) byte_data)
      else Inl (ScError ''unsupported byte enable''))"

section \<open>What the adapter needs of the bus\<close>

text \<open>
  A bus of words: the words at certain addresses can be read and written as a whole, and a write
  changes no other word.
\<close>

locale word_bus =
  fixes rd :: "u32 \<Rightarrow> u32 \<Rightarrow> u32 \<Rightarrow> 's \<Rightarrow> ((bool \<times> u32) \<times> notification list \<times> 's) res"
    and wr :: "u32 \<Rightarrow> u32 \<Rightarrow> u32 \<Rightarrow> 's \<Rightarrow> (bool \<times> notification list \<times> 's) res"
    and word_at :: "'s \<Rightarrow> u32 \<Rightarrow> u32 option"
  assumes read_word: "word_at s a = Some w \<Longrightarrow> \<exists>out. rd d a 0xF s = Inr ((True, w), out, s)"
    and write_word: "word_at s a = Some w \<Longrightarrow> \<exists>out s'. wr d a 0xF s = Inr (True, out, s') \<and> word_at s' = (word_at s)(a \<mapsto> d)"
begin

text \<open>A write merges the bytes under the mask into the word.\<close>

lemma rmw_write_word:
  assumes "word_at s (byte2word_address a) = Some w" and "byte_enable2mask be = Inr m"
  shows "\<exists>out s'. rmw_write rd wr junk data a be s = Inr (True, out, s') \<and>
    word_at s' = (word_at s)(byte2word_address a \<mapsto>
      (w AND NOT (shift_left m (byte_address2offset a * 8))) OR
      (shift_left data (byte_address2offset a * 8) AND shift_left m (byte_address2offset a * 8)))"
proof -
  obtain o1 where "rd junk (byte2word_address a) 0xF s = Inr ((True, w), o1, s)"
    using read_word [OF assms(1)] by blast
  moreover obtain o2 s' where "wr ((w AND NOT (shift_left m (byte_address2offset a * 8))) OR
      (shift_left data (byte_address2offset a * 8) AND shift_left m (byte_address2offset a * 8))) (byte2word_address a) 0xF s = Inr (True, o2, s')"
    "word_at s' = (word_at s)(byte2word_address a \<mapsto> (w AND NOT (shift_left m (byte_address2offset a * 8))) OR
      (shift_left data (byte_address2offset a * 8) AND shift_left m (byte_address2offset a * 8)))"
    using write_word [OF assms(1)] by blast
  ultimately show ?thesis using assms(2) by (simp add: rmw_write_def Let_def)
qed

lemma rmw_read_word:
  assumes "word_at s (byte2word_address a) = Some w"
  shows "\<exists>out. rmw_read rd junk a be s = Inr ((True, word2byte_data w (byte_address2offset a)), out, s)"
  using read_word [OF assms, of junk] by (auto simp: rmw_read_def)

text \<open>A byte that the mask lets through is read back at its address; every other byte of every word stays.\<close>

lemma rmw_bytes:
  assumes "word_at s (byte2word_address a) = Some w" and "byte_enable2mask be = Inr m"
  shows "\<exists>out s' w'. rmw_write rd wr junk data a be s = Inr (True, out, s') \<and>
    word_at s' = (word_at s)(byte2word_address a \<mapsto> w') \<and>
    (\<forall>i. bit w' i = (if bit (shift_left m (byte_address2offset a * 8)) i then bit data (i - unat (byte_address2offset a) * 8) else bit w i)) \<and>
    (\<exists>out'. rmw_read rd junk a be s' = Inr ((True, word2byte_data w' (byte_address2offset a)), out', s'))"
proof -
  let ?o = "byte_address2offset a"
  let ?w = "(w AND NOT (shift_left m (?o * 8))) OR (shift_left data (?o * 8) AND shift_left m (?o * 8))"
  obtain out s' where s': "rmw_write rd wr junk data a be s = Inr (True, out, s')" "word_at s' = (word_at s)(byte2word_address a \<mapsto> ?w)"
    using rmw_write_word [OF assms] by blast
  have "unat ?o < 4"
  proof -
    have "?o = take_bit 2 a" by (simp add: byte_address2offset_def take_bit_eq_mask mask_eq_exp_minus_1)
    then have "unat ?o = take_bit 2 (unat a)" by (simp only: unsigned_take_bit_eq)
    then show ?thesis by (simp add: take_bit_eq_mod)
  qed
  then have u: "?o * 8 < 32" "unat (?o * 8) = unat ?o * 8" by (simp_all add: word_less_nat_alt unat_word_ariths)
  have b: "bit ?w i = (if bit (shift_left m (?o * 8)) i then bit data (i - unat ?o * 8) else bit w i)" for i
    using u by (auto simp: bit_or_iff bit_and_iff bit_not_iff bit_shift_left dest: bit_imp_le_length)
  have "\<exists>out'. rmw_read rd junk a be s' = Inr ((True, word2byte_data ?w ?o), out', s')"
    by (rule rmw_read_word) (simp add: s'(2))
  then show ?thesis using s' b by blast
qed

end


section \<open>A register bank is such a bus\<close>

text \<open>The words of a bank: the 32 bit registers with one buffer and no masked bit.\<close>

definition is_word :: "register \<Rightarrow> bool" where
  "is_word r \<longleftrightarrow> m_register_width r = 32 \<and> register_safe r \<and>
     (case bufs r of Shared_io b \<Rightarrow> m_write_mask b = - 1 | Split_io _ _ \<Rightarrow> False)"

definition bank_word :: "bank \<Rightarrow> u32 \<Rightarrow> u32 option" where
  "bank_word k a =
     (if bank_ok k \<and> m_addressing_mode k = ALIGNED_ADDRESS
      then (case map_find (m_contents k) a of
              Some r \<Rightarrow> if is_word r then (case buf_get (buf In (bufs r)) k of Inr v \<Rightarrow> Some v | Inl _ \<Rightarrow> None) else None
            | None \<Rightarrow> None)
      else None)"

lemma bank_word_Some:
  "bank_word k a = Some w \<longleftrightarrow> bank_ok k \<and> m_addressing_mode k = ALIGNED_ADDRESS \<and>
     (\<exists>r. get_register a k = Inr r \<and> is_word r \<and> buf_get (buf In (bufs r)) k = Inr w)"
  by (auto simp: bank_word_def get_register_def split: option.splits sum.splits)

lemma word_place:
  assumes "bank_ok k" and "m_addressing_mode k = ALIGNED_ADDRESS" and "get_register a k = Inr r" and "m_register_width r = 32"
  shows "place k r = (unat a, 4)" and "4 dvd unat a"
proof -
  have r: "m_register_offset r = a" "a mod 4 = 0"
    using get_register_ok [OF assms(1,3)] assms(2,4) by (simp_all add: register_ok_def)
  then show "place k r = (unat a, 4)" using assms(2,4) by (simp add: place_def store_offset_def)
  have "unat a mod 4 = unat (a mod 4)" by (simp add: unat_mod)
  then show "4 dvd unat a" using r(2) by (simp add: dvd_eq_mod_eq_0)
qed

lemma words_apart:
  assumes "4 dvd (m :: nat)" and "4 dvd n" and "m \<noteq> n"
  shows "apart (m, 4) (n, 4)"
  using assms by (auto simp: apart_def elim!: dvdE)

lemma bank_write_word:
  assumes "bank_word k a = Some w" and "proc \<noteq> Other_process"
  shows "\<exists>out k'. bus_write proc (\<lambda>k. k) d a 0xF tr delayed k = Inr (True, out, k') \<and> bank_word k' = (bank_word k)(a \<mapsto> d)"
proof -
  obtain r where k: "bank_ok k" "m_addressing_mode k = ALIGNED_ADDRESS" "get_register a k = Inr r" "is_word r"
    and w: "buf_get (buf In (bufs r)) k = Inr w" using assms(1) by (auto simp: bank_word_Some)
  then obtain b where b: "bufs r = Shared_io b" "m_write_mask b = - 1" and r: "m_register_width r = 32" "register_safe r"
    by (auto simp: is_word_def split: buffers.splits)
  have bb: "buf x (bufs r) = b" for x by (simp add: buf_def b(1))
  have p: "place k r = (unat a, 4)" and dv: "4 dvd unat a" using word_place [OF k(1,2,3) r(1)] by simp_all
  have st: "m_data b = Stored (unat a) 4" using place_Stored [OF k(1,3)] b(1) p by auto
  obtain o1 m where m: "store_write (unat a) 4 d (m_register_input_store k) = Inr m"
      "buf_set a In d k = Inr ((), o1, k\<lparr>m_register_input_store := m\<rparr>)"
    using buf_set_stored [OF k(1,3) r(2), of In "unat a" 4 d] st bb by auto
  let ?k = "k\<lparr>m_register_input_store := m\<rparr>"
  have ok: "bank_ok ?k" using k(1) store_write_length [OF m(1)] by (simp add: bank_ok_store)
  have "\<exists>out. bus_write proc (\<lambda>k. k) d a 0xF tr delayed k = Inr (True, out, ?k)"
    by (rule bus_write_runs [OF k(3) r(2) assms(2)]) (use k(3) r(2) w bb b(2) m(2) in simp_all)
  moreover have "bank_word ?k x = ((bank_word k)(a \<mapsto> d)) x" for x
  proof (cases "x = a")
    case True
    have "buf_get b ?k = Inr (d AND mask 32)" using buf_get_written [OF m(1) st] by simp
    then have "bank_word ?k a = Some d" using ok k b bb by (auto simp: bank_word_Some mask_full [where 'a = 32, simplified])
    then show ?thesis using True by simp
  next
    case False
    have "buf_get (buf In (bufs y)) ?k = buf_get (buf In (bufs y)) k" if "get_register x k = Inr y" "is_word y" for y
    proof -
      have "m_register_width y = 32" using that(2) by (simp add: is_word_def)
      then have "place k y = (unat x, 4)" "4 dvd unat x" using word_place [OF k(1,2) that(1)] by simp_all
      then have "apart (place k r) (place k y)" using p dv False by (simp add: words_apart word_unat_eq_iff)
      then show ?thesis using buf_get_apart [OF _ k(1) that(1), of r d m In] m(1) p by simp
    qed
    then have "bank_word ?k x = bank_word k x"
      using ok k(1) by (auto simp: bank_word_def get_register_def split: option.splits)
    then show ?thesis using False by simp
  qed
  ultimately show ?thesis by blast
qed

lemma bank_read_word:
  assumes "bank_word k a = Some w" and "proc \<noteq> Other_process"
  shows "\<exists>out. bus_read proc (\<lambda>k. k) d a 0xF tr delayed k = Inr ((True, w), out, k)"
proof -
  obtain r where k: "get_register a k = Inr r" "is_word r" "buf_get (buf In (bufs r)) k = Inr w"
    using assms(1) by (auto simp: bank_word_Some)
  then have "register_safe r" "buf_get (buf Out (bufs r)) k = Inr w" by (auto simp: is_word_def buf_def split: buffers.splits)
  then show ?thesis using bus_read_runs [OF k(1) _ assms(2)] by simp
qed

definition runner :: "bool \<Rightarrow> proc_kind" where
  "runner thread = (if thread then Thread_process else Method_process)"

definition bank_rd :: "bool \<Rightarrow> nat option \<Rightarrow> bool \<Rightarrow> bank bus_reader" where
  "bank_rd thread tr delayed d a be k = bus_read (runner thread) (\<lambda>k. k) d a be tr delayed k"

definition bank_wr :: "bool \<Rightarrow> nat option \<Rightarrow> bool \<Rightarrow> bank bus_writer" where
  "bank_wr thread tr delayed d a be k = bus_write (runner thread) (\<lambda>k. k) d a be tr delayed k"

interpretation bank_bus: word_bus "bank_rd thread tr delayed" "bank_wr thread tr delayed" bank_word for thread tr delayed
  by unfold_locales (use bank_read_word bank_write_word in \<open>simp_all add: runner_def bank_rd_def bank_wr_def\<close>)


text \<open>
  C17. A write through the adapter, bound to a register bank, changes in the addressed word exactly the
  bytes of the byte enables, moved by the offset of the address in the word, to the bytes of the data; it succeeds for
  every byte enable the adapter knows, no other word of the bank changes, and reading the same address back returns the
  word from that byte on.
\<close>

theorem rmw_adapter_merges_bytes:
  assumes "bank_word k (byte2word_address a) = Some w" and "byte_enable2mask be = Inr m"
  shows "\<exists>out k' w'. rmw_write (bank_rd thread tr delayed) (bank_wr thread tr delayed) junk data a be k = Inr (True, out, k') \<and>
    bank_word k' = (bank_word k)(byte2word_address a \<mapsto> w') \<and>
    (\<forall>i. bit w' i = (if bit (shift_left m (byte_address2offset a * 8)) i then bit data (i - unat (byte_address2offset a) * 8) else bit w i)) \<and>
    (\<exists>out'. rmw_read (bank_rd thread tr delayed) junk a be k' =
       Inr ((True, word2byte_data w' (byte_address2offset a)), out', k'))"
  by (rule bank_bus.rmw_bytes [OF assms])

definition word_sample :: bank where
  "word_sample = (new_bank ALIGNED_ADDRESS 1 [0x78, 0x56, 0x34, 0x12])\<lparr>m_contents :=
     [(0, sample_register 0 0x1010101 32 (Shared_io (sample_buffer (Stored 0 4) (- 1))))]\<rparr>"

lemma word_sample_word: "bank_word word_sample (byte2word_address 2) = Some 0x12345678"
proof -
  let ?b = "sample_buffer (Stored 0 4) (- 1)"
  have a: "byte2word_address 2 = 0" by code_simp
  have g: "buf_get ?b word_sample = Inr 0x12345678" by code_simp
  have "bank_ok word_sample"
    by (simp add: word_sample_def sample_defs bank_ok_def omap_ok_def register_ok_def buffers_fit_def store_offset_def)
  moreover have "is_word (sample_register 0 0x1010101 32 (Shared_io ?b))"
    by (simp add: is_word_def sample_defs register_safe_def buf_def)
  ultimately show ?thesis unfolding a bank_word_Some
    using g by (simp add: word_sample_def get_register_def new_bank_def buf_def sample_register_def)
qed

theorem rmw_adapter_merges_bytes_witness:
  "\<exists>out k' out' w'. rmw_write (bank_rd False None True)
      (bank_wr False None True) 0 0xAB 2 1 word_sample = Inr (True, out, k') \<and>
    bank_word k' 0 = Some w' \<and> bit w' 16 \<and> \<not> bit w' 18 \<and> bit w' 28 \<and>
    rmw_read (bank_rd False None True) 0 2 1 k' = Inr ((True, word2byte_data w' 2), out', k')"
proof -
  have a: "byte2word_address 2 = 0" "byte_address2offset 2 = 2" by code_simp+
  have m: "byte_enable2mask 1 = Inr 0xFF" by (simp add: byte_enable2mask_def)
  have u: "unat (2 :: u32) = 2" by simp
  have b: "bit (shift_left 0xFF 16) 16" "bit (shift_left 0xFF 16) 18" "\<not> bit (shift_left 0xFF 16) 28" "bit (0xAB :: u32) 0" "\<not> bit (0xAB :: u32) 2" "bit (0x12345678 :: u32) 28"
    by code_simp+
  obtain out k' w' out' where w: "rmw_write (bank_rd False None True)
      (bank_wr False None True) 0 0xAB 2 1 word_sample = Inr (True, out, k')"
    and k: "bank_word k' = (bank_word word_sample)(0 \<mapsto> w')"
    and i: "\<forall>i. bit w' i = (if bit (shift_left 0xFF 16) i then bit (0xAB :: u32) (i - 16) else bit (0x12345678 :: u32) i)"
    and rd: "rmw_read (bank_rd False None True) 0 2 1 k' = Inr ((True, word2byte_data w' 2), out', k')"
    using rmw_adapter_merges_bytes [OF word_sample_word m, of False None True 0 "0xAB"] unfolding a u by auto
  have "bit w' 16" "\<not> bit w' 18" "bit w' 28" using spec [OF i, of 16] spec [OF i, of 18] spec [OF i, of 28] b by auto
  then show ?thesis using w k rd by auto
qed

end
