(* ===== verification/Quantum_Keeper.thy ===== *)
theory Quantum_Keeper
  imports GL_Prelude
begin

text \<open>
  The quantum keeper that shares its local time offset with observers
  (\<^verbatim>\<open>greensocket/generic/gs_quantumkeeper.h\<close>). Times are SystemC's 64 bit counts; SystemC's time and
  TLM's local quantum at a time are parameters. A process is an address, 0 outside of every process.
\<close>

section \<open>The keeper\<close>

record keeper =
  m_next_sync_point :: u64
  m_local_time :: u64

text \<open>The static variables: the shared time and the process that set it.\<close>

record shared_time =
  td_instance :: u64
  td_set_pid :: nat

definition shared_time0 :: shared_time where
  "shared_time0 = \<lparr>td_instance = 0, td_set_pid = 0\<rparr>"

definition getTD :: "nat \<Rightarrow> shared_time \<Rightarrow> u64" where
  "getTD pid_current td = (if pid_current = td_set_pid td then td_instance td else 0)"

definition setTD :: "nat \<Rightarrow> u64 \<Rightarrow> shared_time \<Rightarrow> shared_time" where
  "setTD pid_current t td = td\<lparr>td_instance := t, td_set_pid := pid_current\<rparr>"

definition keeper_reset :: "(u64 \<Rightarrow> u64) \<Rightarrow> u64 \<Rightarrow> keeper \<Rightarrow> keeper" where
  "keeper_reset quantum now k = k\<lparr>m_local_time := 0, m_next_sync_point := now + quantum now\<rparr>"

definition new_keeper :: "(u64 \<Rightarrow> u64) \<Rightarrow> u64 \<Rightarrow> keeper" where
  "new_keeper quantum now = keeper_reset quantum now \<lparr>m_next_sync_point = 0, m_local_time = 0\<rparr>"

definition keeper_from :: "(u64 \<Rightarrow> u64) \<Rightarrow> u64 \<Rightarrow> nat \<Rightarrow> u64 \<Rightarrow> shared_time \<Rightarrow> keeper \<times> shared_time" where
  "keeper_from quantum now pid t td =
     (\<lparr>m_next_sync_point = now + quantum now, m_local_time = t\<rparr>, if t \<noteq> 0 then setTD pid t td else td)"

definition keeper_inc :: "nat \<Rightarrow> u64 \<Rightarrow> keeper \<Rightarrow> shared_time \<Rightarrow> keeper \<times> shared_time" where
  "keeper_inc pid t k td = (let k' = k\<lparr>m_local_time := m_local_time k + t\<rparr> in (k', setTD pid (m_local_time k') td))"

definition keeper_set :: "nat \<Rightarrow> u64 \<Rightarrow> keeper \<Rightarrow> shared_time \<Rightarrow> keeper \<times> shared_time" where
  "keeper_set pid t k td = (k\<lparr>m_local_time := t\<rparr>, setTD pid t td)"

definition need_sync :: "u64 \<Rightarrow> keeper \<Rightarrow> bool" where
  "need_sync now k \<longleftrightarrow> now + m_local_time k \<ge> m_next_sync_point k"

definition get_current_time :: "u64 \<Rightarrow> keeper \<Rightarrow> u64" where
  "get_current_time now k = now + m_local_time k"

text \<open>The wait lets SystemC's time advance by the local time.\<close>

definition keeper_sync :: "(u64 \<Rightarrow> u64) \<Rightarrow> u64 \<Rightarrow> keeper \<Rightarrow> u64 \<times> keeper" where
  "keeper_sync quantum now k = (let now' = now + m_local_time k in (now', keeper_reset quantum now' k))"


section \<open>A process and its keeper\<close>

datatype keeper_op = Inc u64 | Sync

fun keeper_step :: "(u64 \<Rightarrow> u64) \<Rightarrow> nat \<Rightarrow> keeper_op \<Rightarrow> u64 \<times> keeper \<times> shared_time \<Rightarrow> u64 \<times> keeper \<times> shared_time" where
  "keeper_step quantum pid (Inc t) (now, k, td) = (case keeper_inc pid t k td of (k', td') \<Rightarrow> (now, k', td'))"
| "keeper_step quantum pid Sync (now, k, td) = (case keeper_sync quantum now k of (now', k') \<Rightarrow> (now', k', td))"

fun op_time :: "keeper_op \<Rightarrow> u64" where
  "op_time (Inc t) = t"
| "op_time Sync = 0"

lemma keeper_time_run:
  "fold (keeper_step quantum pid) ops (now, k, td) = (now', k', td') \<Longrightarrow>
   get_current_time now' k' = get_current_time now k + sum_list (map op_time ops)"
proof (induction ops arbitrary: now k td)
  case (Cons x ops)
  obtain n1 k1 td1 where s: "keeper_step quantum pid x (now, k, td) = (n1, k1, td1)" by (cases "keeper_step quantum pid x (now, k, td)")
  then have "get_current_time n1 k1 = get_current_time now k + op_time x"
    by (cases x) (auto simp: keeper_inc_def keeper_sync_def keeper_reset_def get_current_time_def Let_def)
  moreover have "fold (keeper_step quantum pid) ops (n1, k1, td1) = (now', k', td')" using Cons.prems s by simp
  ultimately show ?case using Cons.IH by (simp add: add.assoc)
qed simp

text \<open>
  However a process increases its local time and synchronises, its current time is the sum of the increments; after a synchronisation all
  of it is SystemC's, the local time is 0 and the next synchronisation is due when the local quantum has passed.
\<close>

theorem keeper_time_adds_up:
  "case fold (keeper_step quantum pid) (ops @ [Sync]) (now, new_keeper quantum now, td) of (now', k, td') \<Rightarrow>
     now' = now + sum_list (map op_time ops) \<and> m_local_time k = 0 \<and> m_next_sync_point k = now' + quantum now' \<and>
     need_sync now' k = (now' + quantum now' \<le> now')"
proof -
  obtain n k d where f: "fold (keeper_step quantum pid) ops (now, new_keeper quantum now, td) = (n, k, d)"
    by (cases "fold (keeper_step quantum pid) ops (now, new_keeper quantum now, td)")
  have "n + m_local_time k = now + sum_list (map op_time ops)"
    using keeper_time_run [OF f] by (simp add: get_current_time_def new_keeper_def keeper_reset_def)
  then show ?thesis using f by (simp add: keeper_sync_def keeper_reset_def need_sync_def Let_def)
qed

text \<open>
  The time offset that observers get for a process is its local time from an increment on, but a synchronisation does not reset it:
  afterwards the local time is 0 and the observers still add the offset that SystemC's time has already advanced by.
\<close>

theorem observed_offset_is_stale_after_sync:
  "case fold (keeper_step quantum pid) (ops @ [Inc t]) (now, k, td) of (n1, k1, td1) \<Rightarrow>
     getTD pid td1 = m_local_time k1 \<and>
     (case keeper_step quantum pid Sync (n1, k1, td1) of (n2, k2, td2) \<Rightarrow>
        m_local_time k2 = 0 \<and> getTD pid td2 = m_local_time k1 \<and> n2 + getTD pid td2 = get_current_time n2 k2 + m_local_time k1)"
proof -
  obtain n k' d where "fold (keeper_step quantum pid) ops (now, k, td) = (n, k', d)"
    by (cases "fold (keeper_step quantum pid) ops (now, k, td)")
  then show ?thesis
    by (simp add: keeper_inc_def keeper_sync_def keeper_reset_def getTD_def setTD_def get_current_time_def Let_def)
qed

lemma other_process_sees_no_offset: "pid \<noteq> td_set_pid td \<Longrightarrow> getTD pid td = 0"
  by (simp add: getTD_def)

end
