(* ===== verification/Message_Tree.thy ===== *)
theory Message_Tree
  imports Number_Text
begin

text \<open>
  The messages of GreenMessage (\<^verbatim>\<open>greenmessage/tree_map.hpp\<close> and the strings of
  \<^verbatim>\<open>greenmessage/lex_t.hpp\<close>, which are their keys and values, without null characters): a tree whose nodes hold a value or
  children, addressed by names with dots. A reference that an access returns is modelled by the function that
  is applied to the node it refers to.
\<close>

section \<open>The tree\<close>

datatype tree_map = Node (tm_value: string) (m_is_leaf: bool) (children: "(string \<times> tree_map) list")

definition new_tree :: tree_map where
  "new_tree = Node [] False []"

definition has_value :: "tree_map \<Rightarrow> bool" where
  "has_value t = m_is_leaf t"

definition tm_cast :: "tree_map \<Rightarrow> string" where
  "tm_cast t = (if has_value t then tm_value t else [])"

definition tm_assign :: "string \<Rightarrow> tree_map \<Rightarrow> tree_map" where
  "tm_assign v t = Node v True []"

lemma find_opt_dot: "find_opt ''.'' k = Some p \<Longrightarrow> p < length k"
  by (drule find_opt_SomeD) (auto simp: prefix_def dest: arg_cong [of _ _ length])

text \<open>The access to a node that creates what is missing, and makes every node on its way a branch.\<close>

function tm_at :: "string \<Rightarrow> (tree_map \<Rightarrow> tree_map) \<Rightarrow> tree_map \<Rightarrow> tree_map" where
  "tm_at k f (Node v l cs) =
     (case map_find cs k of
        Some c \<Rightarrow> Node v False (map_put k (f c) cs)
      | None \<Rightarrow>
          (case find_opt ''.'' k of
             Some p \<Rightarrow>
               Node v False (map_put (take p k)
                 (tm_at (drop (p + 1) k) f (case map_find cs (take p k) of Some c \<Rightarrow> c | None \<Rightarrow> new_tree)) cs)
           | None \<Rightarrow> Node v False (map_put k (f new_tree) cs)))"
  by pat_completeness auto
termination by (relation "measure (\<lambda>(k, _, _). length k)") (auto dest: find_opt_dot)

text \<open>The access to a constant tree throws when a name is missing.\<close>

definition key_not_found :: "string \<Rightarrow> cpp_error" where
  "key_not_found k = StdException (''FATAL: key `'' @ k @ CHR 0x27 # '' not found in message.'')"

function tm_lookup :: "string \<Rightarrow> tree_map \<Rightarrow> tree_map res" where
  "tm_lookup k (Node v l cs) =
     (case map_find cs k of
        Some c \<Rightarrow> Inr c
      | None \<Rightarrow>
          (case find_opt ''.'' k of
             Some p \<Rightarrow>
               (case map_find cs (take p k) of
                  Some c \<Rightarrow> tm_lookup (drop (p + 1) k) c
                | None \<Rightarrow> Inl (key_not_found (take p k)))
           | None \<Rightarrow> Inl (key_not_found k)))"
  by pat_completeness auto
termination by (relation "measure (\<lambda>(k, _). length k)") (auto dest: find_opt_dot)

text \<open>The search takes a name apart before it looks; a leaf has nothing below it.\<close>

function tm_find :: "string \<Rightarrow> tree_map \<Rightarrow> tree_map option" where
  "tm_find k (Node v l cs) =
     (if l then None
      else case map_find cs (case find_opt ''.'' k of Some p \<Rightarrow> take p k | None \<Rightarrow> k) of
             None \<Rightarrow> None
           | Some c \<Rightarrow> (case find_opt ''.'' k of None \<Rightarrow> Some c | Some p \<Rightarrow> tm_find (drop (p + 1) k) c))"
  by pat_completeness auto
termination by (relation "measure (\<lambda>(k, _). length k)") (auto dest: find_opt_dot)

function tm_erase :: "string \<Rightarrow> tree_map \<Rightarrow> tree_map" where
  "tm_erase k (Node v l cs) =
     (if l then Node v l cs
      else case map_find cs (case find_opt ''.'' k of Some p \<Rightarrow> take p k | None \<Rightarrow> k) of
             None \<Rightarrow> Node v l cs
           | Some c \<Rightarrow>
               (case find_opt ''.'' k of
                  None \<Rightarrow> Node v l (map_erase k cs)
                | Some p \<Rightarrow> Node v l (map_put (take p k) (tm_erase (drop (p + 1) k) c) cs)))"
  by pat_completeness auto
termination by (relation "measure (\<lambda>(k, _). length k)") (auto dest: find_opt_dot)

declare tm_at.simps [simp del] tm_lookup.simps [simp del] tm_find.simps [simp del] tm_erase.simps [simp del]

section \<open>Names as paths\<close>

function path_of :: "string \<Rightarrow> string list" where
  "path_of k = (case find_opt ''.'' k of None \<Rightarrow> [k] | Some p \<Rightarrow> take p k # path_of (drop (p + 1) k))"
  by pat_completeness auto
termination by (relation "measure length") (auto dest: find_opt_dot)

declare path_of.simps [simp del]

fun value_of :: "tree_map \<Rightarrow> string list \<Rightarrow> string option" where
  "value_of (Node v l cs) [] = (if l then Some v else None)"
| "value_of (Node v l cs) (x # xs) = (case map_find cs x of None \<Rightarrow> None | Some c \<Rightarrow> value_of c xs)"

text \<open>Trees as the operations build them: sorted children without dots in their names, and no children of a leaf.\<close>

fun tree_ok :: "tree_map \<Rightarrow> bool" where
  "tree_ok (Node v l cs) \<longleftrightarrow> omap_ok cs \<and> (l \<longrightarrow> cs = []) \<and> (\<forall>p \<in> set cs. CHR ''.'' \<notin> set (fst p) \<and> tree_ok (snd p))"


lemma find_dot_None: "find_opt ''.'' k = None \<longleftrightarrow> CHR ''.'' \<notin> set k"
  by (induction k) auto

lemma find_dot_take: "find_opt ''.'' k = Some p \<Longrightarrow> CHR ''.'' \<notin> set (take p k)"
proof (induction k arbitrary: p)
  case (Cons c k)
  then show ?case by (cases "c = CHR ''.''") (auto split: option.splits)
qed simp

lemma path_of_plain: "CHR ''.'' \<notin> set k \<Longrightarrow> path_of k = [k]"
  using find_dot_None [of k] by (subst path_of.simps) simp

lemma path_of_dot: "find_opt ''.'' k = Some p \<Longrightarrow> path_of k = take p k # path_of (drop (p + 1) k)"
  by (subst path_of.simps) simp

lemma path_of_nonempty [simp]: "path_of k \<noteq> []"
  by (subst path_of.simps) (simp split: option.split)

lemma path_names: "x \<in> set (path_of k) \<Longrightarrow> CHR ''.'' \<notin> set x"
proof (induction k rule: path_of.induct)
  case (1 k)
  show ?case
  proof (cases "find_opt ''.'' k")
    case None
    then show ?thesis using 1 path_of_plain find_dot_None by auto
  next
    case (Some p)
    then show ?thesis using 1 path_of_dot find_dot_take by auto
  qed
qed

text \<open>The operations along a path.\<close>

fun subtree :: "tree_map \<Rightarrow> string list \<Rightarrow> tree_map option" where
  "subtree t [] = Some t"
| "subtree (Node v l cs) (x # xs) = (case map_find cs x of None \<Rightarrow> None | Some c \<Rightarrow> subtree c xs)"

fun at_path :: "string list \<Rightarrow> (tree_map \<Rightarrow> tree_map) \<Rightarrow> tree_map \<Rightarrow> tree_map" where
  "at_path [] f t = f t"
| "at_path (x # xs) f (Node v l cs) =
     Node v False (map_put x (at_path xs f (case map_find cs x of Some c \<Rightarrow> c | None \<Rightarrow> new_tree)) cs)"

fun erase_path :: "string list \<Rightarrow> tree_map \<Rightarrow> tree_map" where
  "erase_path [] t = t"
| "erase_path (x # xs) (Node v l cs) =
     (case map_find cs x of
        None \<Rightarrow> Node v l cs
      | Some c \<Rightarrow> if xs = [] then Node v l (map_erase x cs) else Node v l (map_put x (erase_path xs c) cs))"

lemma tree_ok_new [simp]: "tree_ok new_tree"
  by (simp add: new_tree_def)

lemma tree_ok_child: "tree_ok (Node v l cs) \<Longrightarrow> map_find cs x = Some c \<Longrightarrow> tree_ok c \<and> CHR ''.'' \<notin> set x"
  using map_of_SomeD [of cs x c] by fastforce

lemma tree_ok_leaf: "tree_ok (Node v True cs) \<Longrightarrow> cs = []"
  by simp

lemma tm_at_path: "tree_ok t \<Longrightarrow> tm_at k f t = at_path (path_of k) f t"
proof (induction k f t rule: tm_at.induct)
  case (1 k f v l cs)
  show ?case
  proof (cases "map_find cs k")
    case (Some c)
    then have "path_of k = [k]" using tree_ok_child [OF 1(2)] path_of_plain by blast
    then show ?thesis using Some by (simp add: tm_at.simps)
  next
    case None
    show ?thesis
    proof (cases "find_opt ''.'' k")
      case (Some p)
      let ?c = "case map_find cs (take p k) of Some c \<Rightarrow> c | None \<Rightarrow> new_tree"
      have "tree_ok ?c" using tree_ok_child [OF 1(2), of "take p k"] by (auto split: option.split)
      then have "tm_at (drop (p + 1) k) f ?c = at_path (path_of (drop (p + 1) k)) f ?c" using 1(1) None Some by blast
      then show ?thesis using None Some by (simp add: tm_at.simps path_of_dot)
    next
      case no_dot: None
      then have "path_of k = [k]" using path_of_plain find_dot_None by blast
      then show ?thesis using None no_dot by (simp add: tm_at.simps)
    qed
  qed
qed

lemma tm_lookup_subtree:
  "tree_ok t \<Longrightarrow> (case subtree t (path_of k) of Some c \<Rightarrow> tm_lookup k t = Inr c | None \<Rightarrow> isl (tm_lookup k t))"
proof (induction k t rule: tm_lookup.induct)
  case (1 k v l cs)
  show ?case
  proof (cases "map_find cs k")
    case (Some c)
    then have "path_of k = [k]" using tree_ok_child [OF 1(2)] path_of_plain by blast
    then show ?thesis using Some by (simp add: tm_lookup.simps [of k])
  next
    case None
    show ?thesis
    proof (cases "find_opt ''.'' k")
      case (Some p)
      show ?thesis
      proof (cases "map_find cs (take p k)")
        case (Some c)
        have "tree_ok c" using tree_ok_child [OF 1(2) Some] by blast
        then have "case subtree c (path_of (drop (p + 1) k)) of Some x \<Rightarrow> tm_lookup (drop (p + 1) k) c = Inr x | None \<Rightarrow> isl (tm_lookup (drop (p + 1) k) c)"
          using 1(1) None Some \<open>find_opt ''.'' k = Some p\<close> by simp
        moreover have "tm_lookup k (Node v l cs) = tm_lookup (drop (p + 1) k) c"
          using None Some \<open>find_opt ''.'' k = Some p\<close> by (simp add: tm_lookup.simps [of k])
        moreover have "subtree (Node v l cs) (path_of k) = subtree c (path_of (drop (p + 1) k))"
          using Some \<open>find_opt ''.'' k = Some p\<close> by (simp add: path_of_dot)
        ultimately show ?thesis by (simp only:)
      qed (use None Some in \<open>simp add: tm_lookup.simps [of k] path_of_dot\<close>)
    next
      case no_dot: None
      then have "path_of k = [k]" using path_of_plain find_dot_None by blast
      then show ?thesis using None no_dot by (simp add: tm_lookup.simps [of k])
    qed
  qed
qed

lemma tm_find_subtree: "tree_ok t \<Longrightarrow> tm_find k t = subtree t (path_of k)"
proof (induction k t rule: tm_find.induct)
  case (1 k v l cs)
  show ?case
  proof (cases "find_opt ''.'' k")
    case (Some p)
    then show ?thesis using 1 tree_ok_child [OF 1(2), of "take p k"]
      by (auto simp: tm_find.simps path_of_dot split: option.split)
  next
    case None
    then have "path_of k = [k]" using path_of_plain find_dot_None by blast
    then show ?thesis using None 1(2) by (auto simp: tm_find.simps split: option.split)
  qed
qed

lemma tm_erase_path: "tree_ok t \<Longrightarrow> tm_erase k t = erase_path (path_of k) t"
proof (induction k t rule: tm_erase.induct)
  case (1 k v l cs)
  show ?case
  proof (cases "find_opt ''.'' k")
    case (Some p)
    then show ?thesis using 1 tree_ok_child [OF 1(2), of "take p k"]
      by (auto simp: tm_erase.simps path_of_dot split: option.split)
  next
    case None
    then have "path_of k = [k]" using path_of_plain find_dot_None by blast
    then show ?thesis using None 1(2) by (auto simp: tm_erase.simps split: option.split)
  qed
qed


section \<open>A message is a map from paths to values\<close>

definition node_at :: "tree_map \<Rightarrow> string list \<Rightarrow> tree_map" where
  "node_at t p = (case subtree t p of Some c \<Rightarrow> c | None \<Rightarrow> new_tree)"

lemma value_of_new [simp]: "value_of new_tree q = None"
  by (cases q) (simp_all add: new_tree_def)

lemma node_at_simps [simp]:
  "node_at t [] = t"
  "node_at (Node v l cs) (x # xs) = node_at (case map_find cs x of Some c \<Rightarrow> c | None \<Rightarrow> new_tree) xs"
proof -
  show "node_at t [] = t" by (simp add: node_at_def)
  have new: "node_at new_tree xs = new_tree" by (cases xs) (simp_all add: node_at_def new_tree_def)
  show "node_at (Node v l cs) (x # xs) = node_at (case map_find cs x of Some c \<Rightarrow> c | None \<Rightarrow> new_tree) xs"
    by (cases "map_find cs x") (simp_all add: new, simp_all add: node_at_def)
qed

lemma value_of_at_path:
  "value_of (at_path p f t) q =
     (if prefix p q then value_of (f (node_at t p)) (drop (length p) q) else if prefix q p then None else value_of t q)"
proof (induction p f t arbitrary: q rule: at_path.induct)
  case (2 x xs f v l cs)
  show ?case
  proof (cases q)
    case (Cons y ys)
    show ?thesis
    proof (cases "y = x")
      case True
      then show ?thesis using Cons 2 by (auto simp: map_simps split: option.split)
    next
      case False
      then show ?thesis using Cons by (simp add: map_simps)
    qed
  qed simp
qed simp

lemma value_of_subtree: "value_of t (p @ q) = (case subtree t p of Some c \<Rightarrow> value_of c q | None \<Rightarrow> None)"
  by (induction t p rule: subtree.induct) (auto split: option.split)

lemma value_of_erase_path:
  assumes "tree_ok t" and "p \<noteq> []"
  shows "value_of (erase_path p t) q = (if prefix p q then None else value_of t q)"
  using assms
proof (induction p t arbitrary: q rule: erase_path.induct)
  case (2 x xs v l cs)
  show ?case
  proof (cases "map_find cs x")
    case None
    then show ?thesis by (cases q) auto
  next
    case (Some c)
    have c: "tree_ok c" and cs: "omap_ok cs" using tree_ok_child [OF 2(2) Some] 2(2) by simp_all
    show ?thesis
    proof (cases q)
      case Nil
      then show ?thesis using Some by simp
    next
      case (Cons y ys)
      show ?thesis
      proof (cases "xs = []")
        case True
        then show ?thesis using Some Cons cs by (auto simp: map_find_erase split: option.split)
      next
        case False
        then show ?thesis using Some Cons 2(1) [OF Some False c False] by (auto simp: map_simps split: option.split)
      qed
    qed
  qed
qed simp

lemma tree_ok_put:
  assumes "tree_ok (Node v l cs)" and "tree_ok c" and "CHR ''.'' \<notin> set x" and "\<not> l'"
  shows "tree_ok (Node w l' (map_put x c cs))"
proof -
  have "set (map_put x c cs) \<subseteq> insert (x, c) (set cs)"
    by (induction x c cs rule: map_put.induct) auto
  then show ?thesis using assms by (auto intro!: omap_ok_put)
qed

lemma tree_ok_at_path:
  assumes "tree_ok t" and "\<And>c. tree_ok c \<Longrightarrow> tree_ok (f c)" and "\<forall>x \<in> set p. CHR ''.'' \<notin> set x"
  shows "tree_ok (at_path p f t)"
  using assms
proof (induction p f t rule: at_path.induct)
  case (2 x xs f v l cs)
  have "tree_ok (case map_find cs x of Some c \<Rightarrow> c | None \<Rightarrow> new_tree)"
    using tree_ok_child [OF 2(2)] by (auto split: option.split)
  then have "tree_ok (at_path xs f (case map_find cs x of Some c \<Rightarrow> c | None \<Rightarrow> new_tree))" using 2(1,3,4) by simp
  then show ?case unfolding at_path.simps by (rule tree_ok_put [OF 2(2)]) (use 2(4) in simp_all)
qed simp

lemma tree_ok_erase_path: "tree_ok t \<Longrightarrow> \<forall>x \<in> set p. CHR ''.'' \<notin> set x \<Longrightarrow> tree_ok (erase_path p t)"
proof (induction p t rule: erase_path.induct)
  case (2 x xs v l cs)
  show ?case
  proof (cases "map_find cs x")
    case (Some c)
    have e: "set (map_erase x cs) \<subseteq> set cs" by (induction x cs rule: map_erase.induct) auto
    have "l \<longrightarrow> cs = []" "cs \<noteq> []" using 2(2) Some by auto
    then have "\<not> l" by simp
    moreover have c: "tree_ok c" using tree_ok_child [OF 2(2) Some] by simp
    ultimately have "tree_ok (Node v l (map_put x (erase_path xs c) cs))" if "xs \<noteq> []"
      using 2(1) [OF Some that c] 2(3) by (intro tree_ok_put [OF 2(2)]) simp_all
    moreover have "tree_ok (Node v l (map_erase x cs))" using 2(2) e \<open>\<not> l\<close> by (auto intro!: omap_ok_erase)
    ultimately show ?thesis using Some by simp
  qed (use 2 in simp)
qed simp

datatype msg_op = Put string string | Touch string | Erase string

fun tm_step :: "msg_op \<Rightarrow> tree_map \<Rightarrow> tree_map" where
  "tm_step (Put k v) t = tm_at k (tm_assign v) t"
| "tm_step (Touch k) t = tm_at k (\<lambda>c. c) t"
| "tm_step (Erase k) t = tm_erase k t"

fun path_step :: "msg_op \<Rightarrow> (string list \<Rightarrow> string option) \<Rightarrow> string list \<Rightarrow> string option" where
  "path_step (Put k v) m q =
     (if q = path_of k then Some v else if prefix (path_of k) q \<or> prefix q (path_of k) then None else m q)"
| "path_step (Touch k) m q = (if strict_prefix q (path_of k) then None else m q)"
| "path_step (Erase k) m q = (if prefix (path_of k) q then None else m q)"

lemma tm_step_refines:
  assumes "tree_ok t"
  shows "tree_ok (tm_step x t) \<and> value_of (tm_step x t) = path_step x (value_of t)"
proof (cases x)
  case (Put k v)
  have "value_of (Node v True []) q = (if q = [] then Some v else None)" for q by (cases q) auto
  then have "value_of (at_path (path_of k) (tm_assign v) t) q = path_step x (value_of t) q" for q
    using Put by (auto simp: value_of_at_path tm_assign_def prefix_def)
  moreover have "tree_ok (at_path (path_of k) (tm_assign v) t)"
    by (rule tree_ok_at_path [OF assms]) (auto simp: tm_assign_def dest: path_names)
  ultimately show ?thesis using Put assms by (auto simp: tm_at_path)
next
  case (Touch k)
  have "prefix p q \<Longrightarrow> value_of (node_at t p) (drop (length p) q) = value_of t q" for p q
    by (auto simp: prefix_def value_of_subtree node_at_def split: option.split)
  then have "value_of (at_path (path_of k) (\<lambda>c. c) t) q = path_step x (value_of t) q" for q
    using Touch by (auto simp: value_of_at_path strict_prefix_def)
  moreover have "tree_ok (at_path (path_of k) (\<lambda>c. c) t)"
    by (rule tree_ok_at_path [OF assms]) (auto dest: path_names)
  ultimately show ?thesis using Touch assms by (auto simp: tm_at_path)
next
  case (Erase k)
  have "tree_ok (erase_path (path_of k) t)" by (rule tree_ok_erase_path [OF assms]) (auto dest: path_names)
  then show ?thesis using Erase assms by (auto simp: tm_erase_path value_of_erase_path)
qed

definition found_value :: "tree_map option \<Rightarrow> string option" where
  "found_value r = (case r of Some c \<Rightarrow> if has_value c then Some (tm_cast c) else None | None \<Rightarrow> None)"

text \<open>
  C11. Whatever is assigned to names of a message, read through its non-constant access and erased, the
  message is the map from dotted paths to values that remains: an assignment puts its value and removes what
  stood below and above its path, an erasure removes everything at and below its path, and a mere access removes the
  values above its path. The search and the constant access find the same nodes, with these values.
\<close>

theorem message_refines_paths:
  "found_value (tm_find k (fold tm_step ops new_tree)) = fold path_step ops (\<lambda>_. None) (path_of k) \<and>
   (case tm_find k (fold tm_step ops new_tree) of
      Some c \<Rightarrow> tm_lookup k (fold tm_step ops new_tree) = Inr c
    | None \<Rightarrow> isl (tm_lookup k (fold tm_step ops new_tree)))"
proof -
  let ?t = "fold tm_step ops new_tree"
  have run: "tree_ok (fold tm_step ops t) \<and> value_of (fold tm_step ops t) = fold path_step ops (value_of t)" if "tree_ok t" for t
    using that by (induction ops arbitrary: t) (auto simp: tm_step_refines)
  have new: "value_of new_tree = (\<lambda>_. None)" by (rule ext) simp
  have t: "tree_ok ?t" "value_of ?t = fold path_step ops (\<lambda>_. None)" using run [of new_tree] new by simp_all
  have "found_value (subtree ?t p) = value_of ?t p" for p
    using value_of_subtree [of ?t p "[]"]
    by (auto simp: found_value_def has_value_def tm_cast_def split: option.split tree_map.split) (metis value_of.simps(1) tree_map.collapse)+
  then show ?thesis using t tm_lookup_subtree [OF t(1), of k] by (simp add: tm_find_subtree)
qed


section \<open>Messages as arrays\<close>

text \<open>The cast of a string to an \<^verbatim>\<open>int\<close> gives 0 when the stream cannot read one.\<close>

definition cast_to_int :: "string \<Rightarrow> int" where
  "cast_to_int s = (case read_int (- (2 ^ 31)) (2 ^ 31 - 1) s of Some (z, _) \<Rightarrow> z | None \<Rightarrow> 0)"

fun array_scan :: "string list \<Rightarrow> int \<Rightarrow> int \<Rightarrow> int" where
  "array_scan [] max_found nr_found = (if nr_found = 1 + max_found then nr_found else 0)"
| "array_scan (k # ks) max_found nr_found =
     (if cast_to_int k \<le> 0 \<and> k \<noteq> ''0'' then 0
      else array_scan ks (if max_found < cast_to_int k then cast_to_int k else max_found) (nr_found + 1))"

definition length_as_array :: "tree_map \<Rightarrow> int" where
  "length_as_array t = array_scan (map fst (children t)) (-1) 0"

lemma cast_to_int_decimal [simp]: "n < 2 ^ 31 \<Longrightarrow> cast_to_int (decimal n) = int n"
  using read_int_text [of "- (2 ^ 31)" "int n" "2 ^ 31 - 1" "[]"] by (simp add: cast_to_int_def int_text_def)

lemma decimal_0: "decimal n = ''0'' \<longleftrightarrow> n = 0"
proof -
  have "decimal 0 = ''0''" by (subst decimal.simps) (simp add: digit_char_def, code_simp)
  then show ?thesis using decimal_inject [of n 0] by metis
qed

lemma array_scan_decimals:
  assumes "\<forall>n \<in> set ns. n < 2 ^ 31"
  shows "array_scan (map decimal ns) m c =
    (if c + int (length ns) = 1 + Max (insert m (int ` set ns)) then c + int (length ns) else 0)"
  using assms
proof (induction ns arbitrary: m c)
  case (Cons n ns)
  let ?m = "if m < int n then int n else m"
  have "array_scan (map decimal (n # ns)) m c = array_scan (map decimal ns) ?m (c + 1)"
    using Cons.prems by (simp add: decimal_0)
  moreover have "Max (insert ?m (int ` set ns)) = Max (insert m (int ` set (n # ns)))"
  proof -
    have "?m = max m (int n)" by auto
    then show ?thesis by (cases "ns = []") (simp_all only: list.set image_insert, simp_all add: max.assoc)
  qed
  ultimately show ?case using Cons.IH [of ?m "c + 1"] Cons.prems by (simp only: list.size) (simp add: algebra_simps)
qed simp

lemma dense_max:
  assumes fin: "finite (A :: nat set)"
  shows "int (card A) = 1 + Max (insert (- 1) (int ` A)) \<longleftrightarrow> A = {..< card A}"
proof (cases "A = {}")
  case False
  have M: "Max (insert (- 1) (int ` A)) = int (Max A)"
  proof (rule Max_eqI)
    show "int (Max A) \<in> insert (- 1) (int ` A)" using Max_in [OF fin False] by simp
    show "y \<le> int (Max A)" if "y \<in> insert (- 1) (int ` A)" for y using that Max_ge [OF fin] by auto
  qed (simp add: fin)
  have sub: "A \<subseteq> {.. Max A}" using fin by auto
  show ?thesis
  proof
    assume "int (card A) = 1 + Max (insert (- 1) (int ` A))"
    then have c: "card A = Suc (Max A)" using M by simp
    then have "A = {.. Max A}" using sub by (intro card_subset_eq) auto
    then show "A = {..< card A}" using c by (simp add: lessThan_Suc_atMost)
  next
    assume A: "A = {..< card A}"
    obtain n where n: "card A = Suc n" using fin False by (cases "card A") auto
    have "Max A = n" by (rule Max_eqI) (use A n fin in \<open>auto simp: lessThan_Suc_atMost\<close>)
    then show "int (card A) = 1 + Max (insert (- 1) (int ` A))" using M n by simp
  qed
qed simp

text \<open>
  A message whose children are all named by decimal numbers counts as an array exactly when the
  numbers are 0 to n - 1, and then its length is n; every other such message has the length 0.
\<close>

theorem array_length_iff_dense:
  assumes "tree_ok t" and "fst ` set (children t) = decimal ` A" and "\<forall>n \<in> A. n < 2 ^ 31" and "finite A"
  shows "length_as_array t = (if A = {..< card A} then int (card A) else 0)"
proof -
  obtain v l cs where t: "t = Node v l cs" by (cases t)
  have d: "distinct (map fst cs)" using assms(1) t by (simp add: omap_ok_distinct)
  note fin = assms(4)
  define ns where "ns = map digits_value (map fst cs)"
  have "decimal (digits_value k) = k" if "k \<in> set (map fst cs)" for k using assms(2) t that by auto
  then have ns: "map fst cs = map decimal ns" unfolding ns_def by (metis map_idI map_map comp_apply)
  have "set ns = digits_value ` (fst ` set cs)" unfolding ns_def by (simp add: image_image)
  also have "fst ` set cs = decimal ` A" using assms(2) t by simp
  finally have A: "set ns = A" by (simp add: image_image)
  have "distinct ns" using d ns by (metis distinct_map)
  then have len: "length ns = card A" using distinct_card [of ns] unfolding A by simp
  have "\<forall>n \<in> set ns. n < 2 ^ 31" unfolding A by (rule assms(3))
  from array_scan_decimals [OF this, of "-1" 0]
  have scan: "array_scan (map decimal ns) (- 1) 0 = (if int (card A) = 1 + Max (insert (- 1) (int ` A)) then int (card A) else 0)"
    unfolding A len by simp
  have "map fst (children t) = map decimal ns" using t ns by simp
  then have "length_as_array t = (if int (card A) = 1 + Max (insert (-1) (int ` A)) then int (card A) else 0)"
    unfolding length_as_array_def using scan by simp
  then show ?thesis using dense_max [OF assms(4)] by simp
qed

definition sample_array :: tree_map where
  "sample_array = fold tm_step [Put ''0'' ''a'', Put ''1'' ''b'', Put ''2.x'' ''c''] new_tree"

theorem array_length_iff_dense_witness:
  "length_as_array sample_array = 3 \<and> length_as_array (tm_erase ''1'' sample_array) = 0"
proof -
  have d: "decimal 0 = ''0''" "decimal 1 = ''1''" "decimal 2 = ''2''" by code_simp+
  have s: "sample_array = Node [] False [(''0'', Node ''a'' True []), (''1'', Node ''b'' True []), (''2'', Node [] False [(''x'', Node ''c'' True [])])]"
    "tm_erase ''1'' sample_array = Node [] False [(''0'', Node ''a'' True []), (''2'', Node [] False [(''x'', Node ''c'' True [])])]"
    by code_simp+
  have ok: "tree_ok sample_array" "tree_ok (tm_erase ''1'' sample_array)" unfolding s by code_simp+
  have k: "fst ` set (children sample_array) = decimal ` {0, 1, 2}" "fst ` set (children (tm_erase ''1'' sample_array)) = decimal ` {0, 2}"
    unfolding s(2) using d by (simp_all add: s(1))
  have u: "\<forall>n \<in> {0, 1, 2}. n < (2 ^ 31 :: nat)" "\<forall>n \<in> {0, 2}. n < (2 ^ 31 :: nat)" by simp_all
  have c: "card {0, 1, 2 :: nat} = 3" "card {0, 2 :: nat} = 2" by simp_all
  have a: "{0, 1, 2} = {..< 3 :: nat}" by auto
  have "2 \<in> {0, 2 :: nat}" "2 \<notin> {..< 2 :: nat}" by simp_all
  then have b: "{0, 2} \<noteq> {..< 2 :: nat}" by metis
  have "length_as_array sample_array = 3"
    using array_length_iff_dense [OF ok(1) k(1) u(1)] unfolding c(1) using a by simp
  moreover have "length_as_array (tm_erase ''1'' sample_array) = 0"
    using array_length_iff_dense [OF ok(2) k(2) u(2)] unfolding c(2) using b by simp
  ultimately show ?thesis ..
qed

text \<open>Names that are no decimal numbers as they are written can hide a gap: here index 0 is missing.\<close>

lemma array_length_spelling: "length_as_array (fold tm_step [Put ''1'' ''a'', Put ''01'' ''b''] new_tree) = 2"
  by code_simp

end
