(* ===== verification/Green_Message.thy ===== *)
theory Green_Message
  imports Message_Tree
begin

text \<open>
  The delivery of messages (\<^verbatim>\<open>greenmessage/greenmessage.hpp\<close>): the registry of the receivers by
  name, the groups of receivers and the broadcast group. A receiver is an address. What a receiver itself
  does is SystemC's FIFO interface: its \<^verbatim>\<open>num_free\<close>, \<^verbatim>\<open>nb_write\<close> and
  \<^verbatim>\<open>write\<close> are parameters, with their laws in the locale \<^verbatim>\<open>fifo_out\<close>.
\<close>

section \<open>Groups of receivers\<close>

text \<open>A group is a \<^verbatim>\<open>std::set\<close> of pointers: a sorted list of addresses.\<close>

type_synonym write_group = "nat list"

definition group_insert :: "nat \<Rightarrow> write_group \<Rightarrow> write_group" where
  "group_insert w ws = insort_insert w ws"

definition group_erase :: "nat \<Rightarrow> write_group \<Rightarrow> write_group" where
  "group_erase w ws = remove1 w ws"

definition group_write :: "(nat \<Rightarrow> 'm \<Rightarrow> 's \<Rightarrow> 's) \<Rightarrow> write_group \<Rightarrow> 'm \<Rightarrow> 's \<Rightarrow> 's" where
  "group_write wr ws m s = fold (\<lambda>w. wr w m) ws s"

text \<open>The minimum of the free places; it is never set when the group is empty.\<close>

fun min_free :: "(nat \<Rightarrow> 's \<Rightarrow> int) \<Rightarrow> write_group \<Rightarrow> 's \<Rightarrow> int option \<Rightarrow> int option" where
  "min_free nf [] s m = m"
| "min_free nf (w # ws) s m =
     min_free nf ws s
       (case m of None \<Rightarrow> Some (nf w s) | Some k \<Rightarrow> if nf w s < k then Some (nf w s) else Some k)"

definition group_num_free :: "(nat \<Rightarrow> 's \<Rightarrow> int) \<Rightarrow> write_group \<Rightarrow> 's \<Rightarrow> int res" where
  "group_num_free nf ws s =
     (case min_free nf ws s None of Some k \<Rightarrow> Inr k | None \<Rightarrow> Inl (Undefined ''min_num_free is not initialised''))"

fun nb_write_all :: "(nat \<Rightarrow> 'm \<Rightarrow> 's \<Rightarrow> bool \<times> 's) \<Rightarrow> write_group \<Rightarrow> 'm \<Rightarrow> bool \<Rightarrow> 's \<Rightarrow> bool \<times> 's" where
  "nb_write_all nbw [] m r s = (r, s)"
| "nb_write_all nbw (w # ws) m r s = (case nbw w m s of (b, s') \<Rightarrow> nb_write_all nbw ws m (if b then r else False) s')"

definition group_nb_write ::
  "(nat \<Rightarrow> 's \<Rightarrow> int) \<Rightarrow> (nat \<Rightarrow> 'm \<Rightarrow> 's \<Rightarrow> bool \<times> 's) \<Rightarrow> write_group \<Rightarrow> 'm \<Rightarrow> 's \<Rightarrow> (bool \<times> 's) res" where
  "group_nb_write nf nbw ws m s =
     bindr (group_num_free nf ws s) (\<lambda>k. if k = 0 then Inr (False, s) else Inr (nb_write_all nbw ws m True s))"

text \<open>
  The event that tells of a free place: the loop keeps the fullest member in \<^verbatim>\<open>ilow\<close>, and the
  function then reads through \<^verbatim>\<open>i\<close>, which has reached the end.
\<close>

fun lowest :: "(nat \<Rightarrow> 's \<Rightarrow> int) \<Rightarrow> write_group \<Rightarrow> 's \<Rightarrow> nat \<Rightarrow> (int \<times> nat) option \<Rightarrow> nat \<times> (int \<times> nat) option" where
  "lowest nf [] s i m = (i, m)"
| "lowest nf (w # ws) s i m =
     lowest nf ws s (i + 1)
       (case m of None \<Rightarrow> Some (nf w s, i) | Some (k, j) \<Rightarrow> if nf w s < k then Some (nf w s, i) else Some (k, j))"

definition group_data_read_event :: "(nat \<Rightarrow> 's \<Rightarrow> int) \<Rightarrow> (nat \<Rightarrow> 'e) \<Rightarrow> write_group \<Rightarrow> 's \<Rightarrow> 'e res" where
  "group_data_read_event nf ev ws s =
     (case lowest nf ws s 0 None of
        (i, _) \<Rightarrow> if i < length ws then Inr (ev (ws ! i)) else Inl (Undefined ''the end of the set is dereferenced''))"

lemma lowest_end: "fst (lowest nf ws s i m) = i + length ws"
  by (induction nf ws s i m rule: lowest.induct) simp_all

lemma data_read_event_undefined:
  "group_data_read_event nf ev ws s = Inl (Undefined ''the end of the set is dereferenced'')"
  using lowest_end [of nf ws s 0 None] by (cases "lowest nf ws s 0 None") (simp add: group_data_read_event_def)

lemma min_free_Some: "min_free nf ws s (Some k) = Some (Min (insert k ((\<lambda>w. nf w s) ` set ws)))"
proof (induction ws arbitrary: k)
  case (Cons w ws)
  have "(if nf w s < k then nf w s else k) = min k (nf w s)" by auto
  moreover have "Min (insert (min k (nf w s)) B) = Min (insert k (insert (nf w s) B))" if "finite B" for B
    using that by (cases "B = {}") (simp_all add: min.assoc)
  ultimately show ?case using Cons.IH [of "min k (nf w s)"] by (simp only: min_free.simps option.case if_distrib [of Some, symmetric]) simp
qed simp

lemma group_num_free_min: "ws \<noteq> [] \<Longrightarrow> group_num_free nf ws s = Inr (Min ((\<lambda>w. nf w s) ` set ws))"
  by (cases ws) (simp_all add: group_num_free_def min_free_Some)

text \<open>
  What SystemC promises of a FIFO's writing side: the number of free places is never negative; a
  non-blocking write succeeds exactly when there is a free place, and otherwise changes nothing; when it
  succeeds, this FIFO has one free place less and the message behind those that it holds, and every other
  FIFO is as before.
\<close>

locale fifo_out =
  fixes num_free :: "nat \<Rightarrow> 's \<Rightarrow> int"
    and nb_write :: "nat \<Rightarrow> 'm \<Rightarrow> 's \<Rightarrow> bool \<times> 's"
    and items :: "nat \<Rightarrow> 's \<Rightarrow> 'm list"
    and valid :: "nat set"
  assumes free_nonneg: "w \<in> valid \<Longrightarrow> 0 \<le> num_free w s"
    and nb_write_ok: "w \<in> valid \<Longrightarrow> fst (nb_write w m s) \<longleftrightarrow> num_free w s \<noteq> 0"
    and nb_write_full: "w \<in> valid \<Longrightarrow> num_free w s = 0 \<Longrightarrow> snd (nb_write w m s) = s"
    and nb_write_free: "w \<in> valid \<Longrightarrow> w' \<in> valid \<Longrightarrow> num_free w s \<noteq> 0 \<Longrightarrow>
      num_free w' (snd (nb_write w m s)) = num_free w' s - (if w' = w then 1 else 0)"
    and nb_write_items: "w \<in> valid \<Longrightarrow> w' \<in> valid \<Longrightarrow> num_free w s \<noteq> 0 \<Longrightarrow>
      items w' (snd (nb_write w m s)) = items w' s @ (if w' = w then [m] else [])"
begin

lemma write_all_free:
  assumes "distinct ws" and "set ws \<subseteq> valid" and "\<forall>w \<in> set ws. num_free w s \<noteq> 0"
  shows "fst (nb_write_all nb_write ws m r s) = r \<and>
    (\<forall>w' \<in> valid. num_free w' (snd (nb_write_all nb_write ws m r s)) = num_free w' s - (if w' \<in> set ws then 1 else 0) \<and>
      items w' (snd (nb_write_all nb_write ws m r s)) = items w' s @ (if w' \<in> set ws then [m] else []))"
  using assms
proof (induction ws arbitrary: r s)
  case (Cons w ws)
  obtain b s' where n: "nb_write w m s = (b, s')" by (cases "nb_write w m s")
  have w: "w \<in> valid" "num_free w s \<noteq> 0" using Cons.prems by simp_all
  have b: b using nb_write_ok [OF w(1), of m s] w n by simp
  have f: "num_free w' s' = num_free w' s - (if w' = w then 1 else 0)" if "w' \<in> valid" for w'
    using nb_write_free [OF w(1) that w(2), of m] n by simp
  have i: "items w' s' = items w' s @ (if w' = w then [m] else [])" if "w' \<in> valid" for w'
    using nb_write_items [OF w(1) that w(2), of m] n by simp
  have "\<forall>u \<in> set ws. num_free u s' \<noteq> 0" using Cons.prems f by (auto simp: subset_iff)
  then show ?case using Cons.IH [of s' r] Cons.prems n b f i by auto
qed simp

lemma group_all_or_none:
  assumes "ws \<noteq> []" and "distinct ws" and "set ws \<subseteq> valid"
  shows "\<exists>b s'. group_nb_write num_free nb_write ws m s = Inr (b, s') \<and>
    b = (\<forall>w \<in> set ws. num_free w s \<noteq> 0) \<and> (\<not> b \<longrightarrow> s' = s) \<and>
    (b \<longrightarrow> (\<forall>w \<in> valid. num_free w s' = num_free w s - (if w \<in> set ws then 1 else 0) \<and>
      items w s' = items w s @ (if w \<in> set ws then [m] else [])))"
proof -
  let ?F = "(\<lambda>w. num_free w s) ` set ws"
  have ne: "?F \<noteq> {}" using assms(1) by simp
  have "\<forall>w \<in> set ws. 0 \<le> num_free w s" using assms(3) free_nonneg by blast
  then have z: "Min ?F = 0 \<longleftrightarrow> 0 \<in> ?F" using ne by (auto simp: Min_eq_iff)
  show ?thesis
  proof (cases "0 \<in> ?F")
    case True
    then have "group_nb_write num_free nb_write ws m s = Inr (False, s)"
      using z by (simp add: group_nb_write_def group_num_free_min [OF assms(1)])
    then show ?thesis using True by (intro exI [of _ False] exI [of _ s]) force
  next
    case False
    then have "group_nb_write num_free nb_write ws m s = Inr (nb_write_all nb_write ws m True s)"
      using z by (simp add: group_nb_write_def group_num_free_min [OF assms(1)])
    moreover have all: "\<forall>w \<in> set ws. num_free w s \<noteq> 0" using False by force
    ultimately show ?thesis using write_all_free [OF assms(2,3) all, of m True]
      by (intro exI [of _ "fst (nb_write_all nb_write ws m True s)"] exI [of _ "snd (nb_write_all nb_write ws m True s)"]) (simp add: prod_eq_iff)
  qed
qed

text \<open>Disjoint groups of receivers keep the same laws: groups can be put into groups.\<close>

lemma groups_cascade:
  assumes g: "\<forall>a \<in> G. grp a \<noteq> [] \<and> distinct (grp a) \<and> set (grp a) \<subseteq> valid"
    and disj: "\<forall>a \<in> G. \<forall>b \<in> G. a \<noteq> b \<longrightarrow> set (grp a) \<inter> set (grp b) = {}"
  shows "fifo_out (\<lambda>a s. projr (group_num_free num_free (grp a) s)) (\<lambda>a m s. projr (group_nb_write num_free nb_write (grp a) m s))
    (\<lambda>a. items (hd (grp a))) G"
proof
  have free: "group_num_free num_free (grp a) s = Inr (Min ((\<lambda>w. num_free w s) ` set (grp a)))" if "a \<in> G" for a s
    using g that by (intro group_num_free_min) blast
  have zero: "Min ((\<lambda>w. num_free w s) ` set (grp a)) = 0 \<longleftrightarrow> (\<exists>w \<in> set (grp a). num_free w s = 0)" if a: "a \<in> G" for a s
    using g a free_nonneg by (subst Min_eq_iff) fastforce+
  fix a b m s
  assume a: "a \<in> G"
  show "0 \<le> projr (group_num_free num_free (grp a) s)" using g a free_nonneg by (simp add: free) (metis subsetD)
  obtain r s' where w: "group_nb_write num_free nb_write (grp a) m s = Inr (r, s')" "r = (\<forall>w \<in> set (grp a). num_free w s \<noteq> 0)"
      "\<not> r \<Longrightarrow> s' = s" "r \<Longrightarrow> \<forall>w \<in> valid. num_free w s' = num_free w s - (if w \<in> set (grp a) then 1 else 0) \<and>
        items w s' = items w s @ (if w \<in> set (grp a) then [m] else [])"
    using group_all_or_none [of "grp a" m s] g a by blast
  show "fst (projr (group_nb_write num_free nb_write (grp a) m s)) \<longleftrightarrow> projr (group_num_free num_free (grp a) s) \<noteq> 0"
    using w zero [OF a] by (simp add: free [OF a])
  show "snd (projr (group_nb_write num_free nb_write (grp a) m s)) = s" if "projr (group_num_free num_free (grp a) s) = 0"
    using w zero [OF a] that by (simp add: free [OF a])
  assume b: "b \<in> G" and "projr (group_num_free num_free (grp a) s) \<noteq> 0"
  then have r using w(2) zero [OF a] by (simp add: free [OF a])
  have sub: "set (grp b) \<subseteq> valid" "grp b \<noteq> []" using g b by simp_all
  have "num_free w s' = num_free w s - (if b = a then 1 else 0)" if "w \<in> set (grp b)" for w
  proof -
    have "w \<in> set (grp a) \<longleftrightarrow> b = a" using that disj a b by blast
    then show ?thesis using w(4) [OF \<open>r\<close>] that sub by auto
  qed
  then have "(\<lambda>w. num_free w s') ` set (grp b) = (\<lambda>k. k - (if b = a then 1 else 0)) ` (\<lambda>w. num_free w s) ` set (grp b)"
    by (simp add: image_image)
  then have "Min ((\<lambda>w. num_free w s') ` set (grp b)) = Min ((\<lambda>w. num_free w s) ` set (grp b)) - (if b = a then 1 else 0)"
    using sub(2) mono_Min_commute [of "\<lambda>k :: int. k - (if b = a then 1 else 0)" "(\<lambda>w. num_free w s) ` set (grp b)"]
    by (simp add: mono_def)
  then show "projr (group_num_free num_free (grp b) (snd (projr (group_nb_write num_free nb_write (grp a) m s)))) =
    projr (group_num_free num_free (grp b) s) - (if b = a then 1 else 0)" using w(1) by (simp add: free [OF b])
  have "hd (grp b) \<in> set (grp b)" using sub(2) by simp
  moreover from this have "hd (grp b) \<in> set (grp a) \<longleftrightarrow> b = a" using disj a b by blast
  ultimately show "items (hd (grp b)) (snd (projr (group_nb_write num_free nb_write (grp a) m s))) =
    items (hd (grp b)) s @ (if b = a then [m] else [])" using w(1) w(4) [OF \<open>r\<close>] sub(1) by auto
qed

end

lemma group_insert_set: "set (group_insert w ws) = insert w (set ws)"
  by (simp add: group_insert_def set_insort_insert)

lemma group_insert_ok: "sorted ws \<and> distinct ws \<Longrightarrow> sorted (group_insert w ws) \<and> distinct (group_insert w ws)"
  by (simp add: group_insert_def sorted_insort_insert distinct_insort_insert)

lemma group_built: "sorted (fold group_insert xs []) \<and> distinct (fold group_insert xs []) \<and> set (fold group_insert xs []) = set xs"
proof -
  have "sorted (fold group_insert xs ws) \<and> distinct (fold group_insert xs ws) \<and> set (fold group_insert xs ws) = set xs \<union> set ws"
    if "sorted ws \<and> distinct ws" for ws
    using that by (induction xs arbitrary: ws) (simp_all add: group_insert_ok group_insert_set)
  then show ?thesis by simp
qed

text \<open>
  C26. A non-blocking write to a group of FIFOs, for any operations of the FIFOs that satisfy
  SystemC's laws (\<open>fifo_out\<close>), is all or nothing: when every FIFO of the group has a free
  place, each of them gets the message once, behind those it holds, and no other FIFO changes; when one of them is full, nothing
  is written anywhere. For a group without members the result is undefined.
\<close>

theorem group_write_all_or_none:
  assumes "fifo_out num_free nb_write items valid" and "set xs \<subseteq> valid"
  shows "if xs = []
    then group_nb_write num_free nb_write (fold group_insert xs []) m s = Inl (Undefined ''min_num_free is not initialised'')
    else if \<exists>w \<in> set xs. num_free w s = 0
    then group_nb_write num_free nb_write (fold group_insert xs []) m s = Inr (False, s)
    else \<exists>s'. group_nb_write num_free nb_write (fold group_insert xs []) m s = Inr (True, s') \<and>
      (\<forall>w \<in> valid. items w s' = items w s @ (if w \<in> set xs then [m] else []))"
proof (cases "xs = []")
  case False
  let ?ws = "fold group_insert xs []"
  have ws: "set ?ws = set xs" "distinct ?ws" using group_built by simp_all
  have ne: "?ws \<noteq> []" using ws(1) False by (metis set_empty)
  have "set ?ws \<subseteq> valid" using ws(1) assms(2) by simp
  from fifo_out.group_all_or_none [OF assms(1) ne ws(2) this, of m s] obtain b s' where
    g: "group_nb_write num_free nb_write ?ws m s = Inr (b, s')" "b = (\<forall>w \<in> set xs. num_free w s \<noteq> 0)" "\<not> b \<Longrightarrow> s' = s"
      "b \<Longrightarrow> \<forall>w \<in> valid. items w s' = items w s @ (if w \<in> set xs then [m] else [])"
    unfolding ws(1) by blast
  show ?thesis
  proof (cases b)
    case True
    then have "\<not> (\<exists>w \<in> set xs. num_free w s = 0)" using g(2) by blast
    then show ?thesis using False True g(1) g(4) by simp
  next
    case full: False
    then have "\<exists>w \<in> set xs. num_free w s = 0" using g(2) by blast
    then show ?thesis using False full g(1) g(3) by simp
  qed
qed (simp add: group_nb_write_def group_num_free_def)

text \<open>A group can be a member of a group; its interface as a receiver is the following one.\<close>

definition member_free :: "(nat \<Rightarrow> 's \<Rightarrow> int) \<Rightarrow> (nat \<Rightarrow> write_group) \<Rightarrow> nat \<Rightarrow> 's \<Rightarrow> int" where
  "member_free nf grp a s = projr (group_num_free nf (grp a) s)"

definition member_write ::
  "(nat \<Rightarrow> 's \<Rightarrow> int) \<Rightarrow> (nat \<Rightarrow> 'm \<Rightarrow> 's \<Rightarrow> bool \<times> 's) \<Rightarrow> (nat \<Rightarrow> write_group) \<Rightarrow> nat \<Rightarrow> 'm \<Rightarrow> 's \<Rightarrow> bool \<times> 's" where
  "member_write nf nbw grp a m s = projr (group_nb_write nf nbw (grp a) m s)"

text \<open>
  Groups of groups: as long as the inner groups have members and no FIFO is in two of them, a non-blocking write
  to the outer group again writes everywhere or nowhere, and on success takes one place of each inner group.
\<close>

theorem nested_group_all_or_none:
  assumes "fifo_out num_free nb_write items UNIV"
    and "\<forall>a \<in> set gs. grp a \<noteq> [] \<and> distinct (grp a)"
    and "\<forall>a \<in> set gs. \<forall>b \<in> set gs. a \<noteq> b \<longrightarrow> set (grp a) \<inter> set (grp b) = {}"
    and "gs \<noteq> []" and "distinct gs"
  shows "\<exists>b s'. group_nb_write (member_free num_free grp) (member_write num_free nb_write grp) gs m s = Inr (b, s') \<and>
    b = (\<forall>a \<in> set gs. \<forall>w \<in> set (grp a). num_free w s \<noteq> 0) \<and> (\<not> b \<longrightarrow> s' = s) \<and>
    (b \<longrightarrow> (\<forall>a \<in> set gs. member_free num_free grp a s' = member_free num_free grp a s - 1))"
proof -
  have f: "fifo_out (member_free num_free grp) (member_write num_free nb_write grp) (\<lambda>a. items (hd (grp a))) (set gs)"
    unfolding member_free_def member_write_def using assms(2,3) by (intro fifo_out.groups_cascade [OF assms(1)]) simp_all
  have z: "member_free num_free grp a s \<noteq> 0 \<longleftrightarrow> (\<forall>w \<in> set (grp a). num_free w s \<noteq> 0)" if a: "a \<in> set gs" for a
  proof -
    have "grp a \<noteq> []" using assms(2) a by simp
    then have "member_free num_free grp a s = Min ((\<lambda>w. num_free w s) ` set (grp a))"
      by (simp add: member_free_def group_num_free_min)
    moreover have "Min ((\<lambda>w. num_free w s) ` set (grp a)) = 0 \<longleftrightarrow> (\<exists>w \<in> set (grp a). num_free w s = 0)"
      using \<open>grp a \<noteq> []\<close> fifo_out.free_nonneg [OF assms(1) UNIV_I, of _ s] by (subst Min_eq_iff) auto
    ultimately show ?thesis by simp
  qed
  show ?thesis using fifo_out.group_all_or_none [OF f assms(4,5) subset_refl, of m s] z by auto
qed

text \<open>
  An instance of the laws, used for the concrete cases only: each FIFO is its size and the messages not read yet.
\<close>

type_synonym sample_fifos = "nat \<Rightarrow> nat \<times> tree_map list"

definition sample_free :: "nat \<Rightarrow> sample_fifos \<Rightarrow> int" where
  "sample_free w s = int (fst (s w) - length (snd (s w)))"

definition sample_write :: "nat \<Rightarrow> tree_map \<Rightarrow> sample_fifos \<Rightarrow> bool \<times> sample_fifos" where
  "sample_write w m s = (if sample_free w s = 0 then (False, s) else (True, s(w := (fst (s w), snd (s w) @ [m]))))"

interpretation ff: fifo_out sample_free sample_write "\<lambda>w s. snd (s w)" UNIV
  by unfold_locales (simp_all add: sample_free_def sample_write_def)

definition empty_fifos :: sample_fifos where
  "empty_fifos = (\<lambda>w. (1, []))"

theorem group_write_all_or_none_witness:
  "\<exists>s'. group_nb_write sample_free sample_write (fold group_insert [3, 1] []) new_tree empty_fifos = Inr (True, s') \<and>
     snd (s' 1) = [new_tree] \<and> snd (s' 2) = [] \<and> snd (s' 3) = [new_tree] \<and>
     group_nb_write sample_free sample_write (fold group_insert [2, 1] []) new_tree s' = Inr (False, s')"
proof -
  let ?s1 = "(empty_fifos(1 := (1, [new_tree])))(3 := (1, [new_tree]))"
  have r: "group_nb_write sample_free sample_write (fold group_insert [3, 1] []) new_tree empty_fifos = Inr (True, ?s1)"
    by (simp add: group_nb_write_def group_num_free_def group_insert_def insort_insert_key_def sample_write_def sample_free_def empty_fifos_def)
  have "\<not> (\<exists>w \<in> set [3, 1 :: nat]. sample_free w empty_fifos = 0)" by (simp add: sample_free_def empty_fifos_def)
  then have "\<forall>w. snd (?s1 w) = snd (empty_fifos w) @ (if w \<in> set [3, 1] then [new_tree] else [])"
    using group_write_all_or_none [OF ff.fifo_out_axioms subset_UNIV, of "[3, 1]" new_tree empty_fifos] r
    by (simp only: if_False list.distinct) simp
  moreover have "\<exists>w \<in> set [2, 1]. sample_free w ?s1 = 0" by (simp add: sample_free_def)
  then have "group_nb_write sample_free sample_write (fold group_insert [2, 1] []) new_tree ?s1 = Inr (False, ?s1)"
    using group_write_all_or_none [OF ff.fifo_out_axioms subset_UNIV, of "[2, 1]" new_tree ?s1] by simp
  ultimately show ?thesis using r by (intro exI [of _ ?s1]) (simp add: empty_fifos_def)
qed

theorem nested_group_all_or_none_witness:
  "\<exists>s'. group_nb_write (member_free sample_free (\<lambda>a. [a, a + 1])) (member_write sample_free sample_write (\<lambda>a. [a, a + 1]))
     [10, 20] new_tree empty_fifos = Inr (True, s')"
proof -
  have "\<forall>a \<in> set [10, 20 :: nat]. \<forall>w \<in> set [a, a + 1]. sample_free w empty_fifos \<noteq> 0"
    by (simp add: sample_free_def empty_fifos_def)
  then show ?thesis
    using nested_group_all_or_none [OF ff.fifo_out_axioms, of "[10, 20]" "\<lambda>a. [a, a + 1]" new_tree empty_fifos] by auto
qed

text \<open>Inner groups that share a FIFO break it: the write fails and the shared FIFO has the message.\<close>

lemma shared_member_breaks_all_or_none:
  "\<exists>s'. group_nb_write (member_free sample_free (\<lambda>a. [0])) (member_write sample_free sample_write (\<lambda>a. [0]))
     [10, 20] new_tree empty_fifos = Inr (False, s') \<and> snd (s' 0) = [new_tree]"
  by (simp add: group_nb_write_def group_num_free_def member_free_def member_write_def sample_write_def
      sample_free_def empty_fifos_def)


section \<open>The registry of the receivers\<close>

text \<open>
  The registry and the static variables of \<^verbatim>\<open>broadcast()\<close>; \<^verbatim>\<open>names\<close> holds the
  \<^verbatim>\<open>m_registered_name\<close> of every receiver object that exists.
\<close>

record messaging =
  gm_registry :: "(string, nat) omap"
  gm_names :: "nat \<Rightarrow> string option"
  gm_initialized :: bool
  gm_receivers :: write_group

definition messaging0 :: messaging where
  "messaging0 = \<lparr>gm_registry = [], gm_names = (\<lambda>_. None), gm_initialized = False, gm_receivers = []\<rparr>"

definition receiver_init :: "nat \<Rightarrow> string \<Rightarrow> messaging \<Rightarrow> messaging res" where
  "receiver_init a name s =
     (if map_find (gm_registry s) name \<noteq> None
      then Inl (StdException (''FATAL: GreenMessage receiver with duplicate name: `'' @ name @ [CHR 0x27, CHR ''.'']))
      else Inr (s\<lparr>gm_registry := map_put name a (gm_registry s), gm_names := (gm_names s)(a := Some name)\<rparr>))"

definition receiver_destroy :: "nat \<Rightarrow> messaging \<Rightarrow> messaging" where
  "receiver_destroy a s =
     (case gm_names s a of
        None \<Rightarrow> s
      | Some name \<Rightarrow> s\<lparr>gm_registry := map_erase name (gm_registry s), gm_names := (gm_names s)(a := None)\<rparr>)"

definition findReceiver :: "string \<Rightarrow> messaging \<Rightarrow> nat res" where
  "findReceiver name s =
     (case map_find (gm_registry s) name of
        None \<Rightarrow> Inl (StdException (''FATAL: GreenMessage receiver named `'' @ name @ [CHR 0x27] @ '' not found.''))
      | Some a \<Rightarrow> Inr a)"

definition findReceivers :: "messaging \<Rightarrow> write_group \<Rightarrow> write_group" where
  "findReceivers s ws = fold (\<lambda>(_, a). group_insert a) (gm_registry s) ws"

definition broadcast :: "messaging \<Rightarrow> write_group \<times> messaging" where
  "broadcast s =
     (let s' = (if \<not> gm_initialized s
                then s\<lparr>gm_receivers := findReceivers s (gm_receivers s), gm_initialized := True\<rparr> else s)
      in (gm_receivers s', s'))"

definition sendMsg :: "(nat \<Rightarrow> 'm \<Rightarrow> 's \<Rightarrow> 's) \<Rightarrow> string \<Rightarrow> 'm \<Rightarrow> messaging \<Rightarrow> 's \<Rightarrow> 's res" where
  "sendMsg wr name m s t =
     (case findReceiver name s of Inr a \<Rightarrow> Inr (wr a m t) | Inl _ \<Rightarrow> Inl (Exit 1))"

definition build_name :: "string \<Rightarrow> string \<Rightarrow> string" where
  "build_name pre name = (if pre = [] then name else pre @ ''.'' @ name)"

text \<open>The commands of a module: an unknown command yields the null handler, and is entered with it.\<close>

definition command_register :: "string \<Rightarrow> 'h \<Rightarrow> (string, 'h option) omap \<Rightarrow> (string, 'h option) omap" where
  "command_register name h m = map_put name (Some h) m"

definition command_get :: "string \<Rightarrow> (string, 'h option) omap \<Rightarrow> 'h option \<times> (string, 'h option) omap" where
  "command_get name m = (case map_find m name of Some h \<Rightarrow> (h, m) | None \<Rightarrow> (None, map_put name None m))"

section \<open>Histories of receivers\<close>

datatype gm_op = Construct nat string | Destroy nat | Broadcast

text \<open>A constructor that throws leaves the registry as it is; an object is never built where another one lives.\<close>

fun gm_step :: "gm_op \<Rightarrow> messaging \<Rightarrow> messaging" where
  "gm_step (Construct a name) s =
     (if gm_names s a \<noteq> None then s else case receiver_init a name s of Inr s' \<Rightarrow> s' | Inl _ \<Rightarrow> s)"
| "gm_step (Destroy a) s = receiver_destroy a s"
| "gm_step Broadcast s = snd (broadcast s)"

definition registry_ok :: "messaging \<Rightarrow> bool" where
  "registry_ok s \<longleftrightarrow> omap_ok (gm_registry s) \<and> (\<forall>n a. map_find (gm_registry s) n = Some a \<longleftrightarrow> gm_names s a = Some n)"

lemma registry_ok_step: "registry_ok s \<Longrightarrow> registry_ok (gm_step x s)"
proof (cases x)
  case (Construct a n)
  assume r: "registry_ok s"
  show ?thesis
  proof (cases "gm_names s a = None \<and> map_find (gm_registry s) n = None")
    case True
    then have "gm_step x s = s\<lparr>gm_registry := map_put n a (gm_registry s), gm_names := (gm_names s)(a := Some n)\<rparr>"
      by (simp add: Construct receiver_init_def)
    moreover have "gm_names s b \<noteq> Some n" for b using r True unfolding registry_ok_def by (metis option.distinct(1))
    ultimately show ?thesis using r True by (auto simp: registry_ok_def map_simps)
  next
    case False
    then have "gm_step x s = s" using Construct by (auto simp: receiver_init_def)
    then show ?thesis using r by simp
  qed
next
  case (Destroy a)
  assume r: "registry_ok s"
  show ?thesis
  proof (cases "gm_names s a")
    case (Some n)
    have m: "omap_ok (gm_registry s)" "\<And>n a. map_find (gm_registry s) n = Some a \<longleftrightarrow> gm_names s a = Some n"
      using r by (simp_all add: registry_ok_def)
    have inj: "b = a" if "gm_names s b = Some n" for b
      using m(2) [of n a] m(2) [of n b] Some that by simp
    have f: "map_find (map_erase n (gm_registry s)) k = Some b \<longleftrightarrow> ((gm_names s)(a := None)) b = Some k" for k b
    proof (cases "k = n")
      case True
      then show ?thesis using inj [of b] by (auto simp: map_find_erase [OF m(1)])
    next
      case False
      then show ?thesis using Some by (auto simp: map_find_erase [OF m(1)] m(2))
    qed
    have "omap_ok (map_erase n (gm_registry s))" using m(1) by (rule omap_ok_erase)
    then show ?thesis using f by (simp add: Destroy Some registry_ok_def receiver_destroy_def)
  qed (use r Destroy in \<open>simp add: receiver_destroy_def\<close>)
next
  case Broadcast
  assume "registry_ok s"
  then show ?thesis using Broadcast by (simp add: registry_ok_def broadcast_def Let_def)
qed

lemma registry_ok_run: "registry_ok (fold gm_step ops messaging0)"
proof -
  have "registry_ok s \<Longrightarrow> registry_ok (fold gm_step ops s)" for s
    by (induction ops arbitrary: s) (simp_all add: registry_ok_step)
  then show ?thesis by (simp add: registry_ok_def messaging0_def)
qed

text \<open>
  After any history of receivers built and destroyed, \<^verbatim>\<open>findReceiver\<close> returns a receiver exactly
  when it exists and was registered under this name, so that no name is ever that of a destroyed receiver; for any other name it throws,
  and \<^verbatim>\<open>sendMsg\<close> ends the program.
\<close>

theorem findReceiver_history:
  "(findReceiver n (fold gm_step ops messaging0) = Inr a) = (gm_names (fold gm_step ops messaging0) a = Some n) \<and>
   (sendMsg wr n m (fold gm_step ops messaging0) t = Inl (Exit 1)) = (\<forall>b. gm_names (fold gm_step ops messaging0) b \<noteq> Some n)"
proof -
  have r: "map_find (gm_registry (fold gm_step ops messaging0)) n = Some b \<longleftrightarrow>
      gm_names (fold gm_step ops messaging0) b = Some n" for b
    using registry_ok_run [of ops] by (simp add: registry_ok_def)
  have "(findReceiver n (fold gm_step ops messaging0) = Inr a) = (gm_names (fold gm_step ops messaging0) a = Some n)"
    using r [of a] by (auto simp: findReceiver_def split: option.split)
  moreover have "(sendMsg wr n m (fold gm_step ops messaging0) t = Inl (Exit 1)) =
      (map_find (gm_registry (fold gm_step ops messaging0)) n = None)"
    by (simp add: sendMsg_def findReceiver_def split: option.split)
  ultimately show ?thesis using r by (metis not_Some_eq)
qed

lemma findReceivers_set: "set (findReceivers s ws) = snd ` set (gm_registry s) \<union> set ws"
proof -
  have "set (fold (\<lambda>(_, a). group_insert a) m ws) = snd ` set m \<union> set ws" for m :: "(string \<times> nat) list" and ws
    by (induction m arbitrary: ws) (auto simp: group_insert_set)
  then show ?thesis by (simp add: findReceivers_def)
qed

lemma broadcast_fixed:
  assumes "gm_initialized s"
  shows "gm_receivers (fold gm_step ops s) = gm_receivers s \<and> gm_initialized (fold gm_step ops s)"
  using assms
proof (induction ops arbitrary: s)
  case (Cons x ops)
  have "gm_receivers (gm_step x s) = gm_receivers s \<and> gm_initialized (gm_step x s)"
    using Cons.prems by (cases x) (auto simp: receiver_init_def receiver_destroy_def broadcast_def Let_def split: option.split)
  then show ?case using Cons.IH [of "gm_step x s"] by simp
qed simp

lemma broadcast_unused:
  "Broadcast \<notin> set ops \<Longrightarrow> gm_receivers (fold gm_step ops s) = gm_receivers s \<and> gm_initialized (fold gm_step ops s) = gm_initialized s"
proof (induction ops arbitrary: s)
  case (Cons x ops)
  have "gm_receivers (gm_step x s) = gm_receivers s \<and> gm_initialized (gm_step x s) = gm_initialized s"
    using Cons.prems by (cases x) (auto simp: receiver_init_def receiver_destroy_def split: option.split)
  then show ?case using Cons by simp
qed simp

text \<open>
  C28. The broadcast group is a snapshot: whatever happens after the first call of \<^verbatim>\<open>broadcast()\<close>, it
  keeps reaching exactly the receivers that existed at that call; a receiver built later is never in it, and a destroyed one
  is never taken out.
\<close>

theorem broadcast_is_a_snapshot:
  assumes "Broadcast \<notin> set before"
  shows "set (fst (broadcast (fold gm_step (before @ Broadcast # after) messaging0))) =
    {a. gm_names (fold gm_step before messaging0) a \<noteq> None}"
proof -
  let ?s = "fold gm_step before messaging0"
  let ?b = "snd (broadcast ?s)"
  have s: "\<not> gm_initialized ?s" "gm_receivers ?s = []"
    using broadcast_unused [OF assms, of messaging0] by (simp_all add: messaging0_def)
  then have b: "gm_initialized ?b" "gm_receivers ?b = findReceivers ?s []" by (simp_all add: broadcast_def Let_def)
  have "fst (broadcast (fold gm_step after ?b)) = findReceivers ?s []"
    using broadcast_fixed [OF b(1), of after] b(2) by (simp add: broadcast_def Let_def)
  moreover have ok: "registry_ok ?s" by (rule registry_ok_run)
  then have "snd ` set (gm_registry ?s) = {a. \<exists>n. map_find (gm_registry ?s) n = Some a}"
    by (force simp: registry_ok_def dest: omap_ok_distinct map_of_SomeD)
  moreover have "\<dots> = {a. gm_names ?s a \<noteq> None}" using ok by (auto simp: registry_ok_def)
  ultimately show ?thesis by (simp add: findReceivers_set)
qed

theorem broadcast_is_a_snapshot_witness:
  "set (fst (broadcast (fold gm_step ([Construct 1 ''a'', Construct 2 ''b''] @ Broadcast # [Destroy 1, Construct 3 ''c'']) messaging0))) = {1, 2}"
proof -
  have "gm_names (fold gm_step [Construct 1 ''a'', Construct 2 ''b''] messaging0) = [1 \<mapsto> ''a'', 2 \<mapsto> ''b'']"
    by (simp add: receiver_init_def messaging0_def)
  then show ?thesis
    using broadcast_is_a_snapshot [of "[Construct 1 ''a'', Construct 2 ''b'']" "[Destroy 1, Construct 3 ''c'']"] by auto
qed

end
