(* ===== verification/Async_Event.thy ===== *)
theory Async_Event
  imports GL_Prelude
begin

text \<open>
  Events that other operating system threads notify (\<^verbatim>\<open>greenthreads/thread_safe_event.h\<close>,
  \<^verbatim>\<open>gs_event_async\<close>) as a step relation in which the statements of the threads and of the SystemC
  thread interleave, and the time windows of \<^verbatim>\<open>centralSyncPolicy\<close>. The mutexes and the semaphore are
  POSIX primitives; the update requests are SystemC's, a flag per channel.
\<close>

section \<open>The state\<close>

datatype owner = Thr nat | Kernel

record async_ev =
  ev_delay :: u64
  local_mutex :: "owner option"
  outstanding :: nat
  requested :: bool
  delivered :: "u64 list"

text \<open>Where a thread stands in \<^verbatim>\<open>notify\<close>, and the SystemC thread in \<^verbatim>\<open>update\<close> and
  \<^verbatim>\<open>simulation_phase_callback\<close>: the statement that has been done last.\<close>

datatype notifier = Outside | Locked nat u64 | Delayed nat | Requested nat | Posted nat | Counted nat

datatype kernel = Running | Update nat | U_Locked nat | U_Notified nat | U_Waited nat | Sleeping | Woken

record async_state =
  events :: "nat \<Rightarrow> async_ev"
  notifiers :: "nat \<Rightarrow> notifier"
  systemc :: kernel
  global_semaphore :: nat

definition new_async_event :: async_ev where
  "new_async_event = \<lparr>ev_delay = 0, local_mutex = None, outstanding = 0, requested = False, delivered = []\<rparr>"

definition async0 :: async_state where
  "async0 = \<lparr>events = (\<lambda>_. new_async_event), notifiers = (\<lambda>_. Outside), systemc = Running, global_semaphore = 0\<rparr>"

abbreviation set_ev :: "nat \<Rightarrow> (async_ev \<Rightarrow> async_ev) \<Rightarrow> async_state \<Rightarrow> async_state" where
  "set_ev e f s \<equiv> s\<lparr>events := (events s)(e := f (events s e))\<rparr>"

abbreviation set_thr :: "nat \<Rightarrow> notifier \<Rightarrow> async_state \<Rightarrow> async_state" where
  "set_thr i p s \<equiv> s\<lparr>notifiers := (notifiers s)(i := p)\<rparr>"

text \<open>The statements of \<open>notify(delay)\<close> on event \<open>e\<close> by thread \<open>i\<close>, of \<open>update\<close> and of the callback at the
  end of a delta, for \<open>T\<close> threads and \<open>M\<close> events.\<close>

inductive async_step :: "nat \<Rightarrow> nat \<Rightarrow> async_state \<Rightarrow> async_state \<Rightarrow> bool" for T M where
  n_lock: "i < T \<Longrightarrow> e < M \<Longrightarrow> notifiers s i = Outside \<Longrightarrow> local_mutex (events s e) = None \<Longrightarrow>
    async_step T M s (set_thr i (Locked e d) (set_ev e (\<lambda>v. v\<lparr>local_mutex := Some (Thr i)\<rparr>) s))"
| n_delay: "i < T \<Longrightarrow> notifiers s i = Locked e d \<Longrightarrow>
    async_step T M s (set_thr i (Delayed e) (set_ev e (\<lambda>v. v\<lparr>ev_delay := d\<rparr>) s))"
| n_request: "i < T \<Longrightarrow> notifiers s i = Delayed e \<Longrightarrow>
    async_step T M s (set_thr i (Requested e) (set_ev e (\<lambda>v. v\<lparr>requested := True\<rparr>) s))"
| n_post: "i < T \<Longrightarrow> notifiers s i = Requested e \<Longrightarrow>
    async_step T M s ((set_thr i (Posted e) s)\<lparr>global_semaphore := global_semaphore s + 1\<rparr>)"
| n_count: "i < T \<Longrightarrow> notifiers s i = Posted e \<Longrightarrow>
    async_step T M s (set_thr i (Counted e) (set_ev e (\<lambda>v. v\<lparr>outstanding := outstanding v + 1\<rparr>) s))"
| n_unlock: "i < T \<Longrightarrow> notifiers s i = Counted e \<Longrightarrow>
    async_step T M s (set_thr i Outside (set_ev e (\<lambda>v. v\<lparr>local_mutex := None\<rparr>) s))"
| k_update: "systemc s = Running \<Longrightarrow> e < M \<Longrightarrow> requested (events s e) \<Longrightarrow>
    async_step T M s ((set_ev e (\<lambda>v. v\<lparr>requested := False\<rparr>) s)\<lparr>systemc := Update e\<rparr>)"
| k_lock: "systemc s = Update e \<Longrightarrow> local_mutex (events s e) = None \<Longrightarrow>
    async_step T M s ((set_ev e (\<lambda>v. v\<lparr>local_mutex := Some Kernel\<rparr>) s)\<lparr>systemc := U_Locked e\<rparr>)"
| k_notify: "systemc s = U_Locked e \<Longrightarrow>
    async_step T M s ((set_ev e (\<lambda>v. v\<lparr>delivered := delivered v @ [ev_delay v]\<rparr>) s)\<lparr>systemc := U_Notified e\<rparr>)"
| k_wait: "systemc s = U_Notified e \<Longrightarrow> outstanding (events s e) > 0 \<Longrightarrow> global_semaphore s > 0 \<Longrightarrow>
    async_step T M s (s\<lparr>global_semaphore := global_semaphore s - 1, systemc := U_Waited e\<rparr>)"
| k_count: "systemc s = U_Waited e \<Longrightarrow>
    async_step T M s ((set_ev e (\<lambda>v. v\<lparr>outstanding := outstanding v - 1\<rparr>) s)\<lparr>systemc := U_Notified e\<rparr>)"
| k_unlock: "systemc s = U_Notified e \<Longrightarrow> outstanding (events s e) = 0 \<Longrightarrow>
    async_step T M s ((set_ev e (\<lambda>v. v\<lparr>local_mutex := None\<rparr>) s)\<lparr>systemc := Running\<rparr>)"
| k_sleep: "systemc s = Running \<Longrightarrow> async_step T M s (s\<lparr>systemc := Sleeping\<rparr>)"
| k_wake: "systemc s = Sleeping \<Longrightarrow> global_semaphore s > 0 \<Longrightarrow>
    async_step T M s (s\<lparr>global_semaphore := global_semaphore s - 1, systemc := Woken\<rparr>)"
| k_post: "systemc s = Woken \<Longrightarrow>
    async_step T M s (s\<lparr>global_semaphore := global_semaphore s + 1, systemc := Running\<rparr>)"

abbreviation async_reachable :: "nat \<Rightarrow> nat \<Rightarrow> async_state \<Rightarrow> bool" where
  "async_reachable T M \<equiv> (async_step T M)\<^sup>*\<^sup>* async0"


section \<open>The invariants\<close>

fun in_event :: "notifier \<Rightarrow> nat option" where
  "in_event Outside = None"
| "in_event (Locked e d) = Some e"
| "in_event (Delayed e) = Some e"
| "in_event (Requested e) = Some e"
| "in_event (Posted e) = Some e"
| "in_event (Counted e) = Some e"

fun kernel_in :: "kernel \<Rightarrow> nat option" where
  "kernel_in (U_Locked e) = Some e"
| "kernel_in (U_Notified e) = Some e"
| "kernel_in (U_Waited e) = Some e"
| "kernel_in _ = None"

text \<open>The mutex of an event has exactly the owner that stands between its lock and its unlock.\<close>

definition mutex_inv :: "async_state \<Rightarrow> bool" where
  "mutex_inv s \<longleftrightarrow> (\<forall>e. (\<forall>i. local_mutex (events s e) = Some (Thr i) \<longleftrightarrow> in_event (notifiers s i) = Some e) \<and>
     (local_mutex (events s e) = Some Kernel \<longleftrightarrow> kernel_in (systemc s) = Some e))"

definition is_posted :: "notifier \<Rightarrow> int" where
  "is_posted p = (case p of Posted _ \<Rightarrow> 1 | _ \<Rightarrow> 0)"

definition taken :: "kernel \<Rightarrow> int" where
  "taken k = (case k of U_Waited _ \<Rightarrow> 1 | Woken \<Rightarrow> 1 | _ \<Rightarrow> 0)"

text \<open>The tokens of the semaphore are the outstanding notifications, but for a statement in between.\<close>

definition token_inv :: "nat \<Rightarrow> nat \<Rightarrow> async_state \<Rightarrow> bool" where
  "token_inv T M s \<longleftrightarrow>
     int (global_semaphore s) + taken (systemc s) =
       (\<Sum>e<M. int (outstanding (events s e))) + (\<Sum>i<T. is_posted (notifiers s i)) \<and>
     (\<forall>i e. in_event (notifiers s i) = Some e \<longrightarrow> e < M) \<and> (\<forall>e. kernel_in (systemc s) = Some e \<longrightarrow> e < M) \<and>
     (\<forall>e. systemc s = Update e \<longrightarrow> e < M) \<and> (\<forall>e. systemc s = U_Waited e \<longrightarrow> 0 < outstanding (events s e))"

text \<open>The delay of the last notification has been delivered, or is on its way.\<close>

definition delayed_in :: "(nat \<Rightarrow> notifier) \<Rightarrow> nat \<Rightarrow> bool" where
  "delayed_in N e \<longleftrightarrow> (\<exists>i. N i = Delayed e)"

definition on_its_way :: "async_state \<Rightarrow> nat \<Rightarrow> bool" where
  "on_its_way s e \<longleftrightarrow>
     requested (events s e) \<or> systemc s = Update e \<or> systemc s = U_Locked e \<or> delayed_in (notifiers s) e"

definition has_requested :: "notifier \<Rightarrow> nat \<Rightarrow> bool" where
  "has_requested p e \<longleftrightarrow> p = Requested e \<or> p = Posted e \<or> p = Counted e"

definition requests_in :: "(nat \<Rightarrow> notifier) \<Rightarrow> nat \<Rightarrow> bool" where
  "requests_in N e \<longleftrightarrow> (\<exists>i. has_requested (N i) e)"

definition delivered_last :: "async_state \<Rightarrow> nat \<Rightarrow> bool" where
  "delivered_last s e \<longleftrightarrow> on_its_way s e \<or>
     (if delivered (events s e) = []
      then outstanding (events s e) = 0 \<and> \<not> requests_in (notifiers s) e
      else last (delivered (events s e)) = ev_delay (events s e))"

lemma sum_upd:
  fixes g :: "'b \<Rightarrow> int" and e M :: nat
  assumes "e < M"
  shows "(\<Sum>k<M. g ((h(e := x)) k)) = (\<Sum>k<M. g (h k)) - g (h e) + g x"
proof -
  have "(\<Sum>k<M. g ((h(e := x)) k)) = g x + (\<Sum>k\<in>{..<M} - {e}. g (h k))"
    using assms by (subst sum.remove [of "{..<M}" e]) (auto intro!: sum.cong)
  moreover have "(\<Sum>k<M. g (h k)) = g (h e) + (\<Sum>k\<in>{..<M} - {e}. g (h k))" using assms by (intro sum.remove) auto
  ultimately show ?thesis by simp
qed

lemma mutex_step: "async_step T M s s' \<Longrightarrow> mutex_inv s \<Longrightarrow> mutex_inv s'"
  by (induction rule: async_step.induct)
    (auto simp: mutex_inv_def, (metis in_event.simps kernel_in.simps option.inject option.distinct(1) owner.distinct(1) owner.inject)+)

lemma mutex_reachable: "async_reachable T M s \<Longrightarrow> mutex_inv s"
  by (induction rule: rtranclp_induct) (auto simp: mutex_step, simp add: mutex_inv_def async0_def new_async_event_def)

lemma sum_same [simp]:
  "(\<Sum>k<M. int (outstanding (if k = e then events s e\<lparr>local_mutex := x\<rparr> else events s k))) = (\<Sum>k<M. int (outstanding (events s k)))"
  "(\<Sum>k<M. int (outstanding (if k = e then events s e\<lparr>ev_delay := y\<rparr> else events s k))) = (\<Sum>k<M. int (outstanding (events s k)))"
  "(\<Sum>k<M. int (outstanding (if k = e then events s e\<lparr>requested := b\<rparr> else events s k))) = (\<Sum>k<M. int (outstanding (events s k)))"
  "(\<Sum>k<M. int (outstanding (if k = e then events s e\<lparr>delivered := l\<rparr> else events s k))) = (\<Sum>k<M. int (outstanding (events s k)))"
  by (auto intro!: sum.cong)

lemma posted_same [simp]:
  "is_posted (notifiers s i) = 0 \<Longrightarrow> is_posted p = 0 \<Longrightarrow>
    (\<Sum>k<T. is_posted (if k = i then p else notifiers s k)) = (\<Sum>k<T. is_posted (notifiers s k))"
  by (auto intro!: sum.cong)

lemma is_posted_simps [simp]:
  "is_posted Outside = 0" "is_posted (Locked e d) = 0" "is_posted (Delayed e) = 0" "is_posted (Requested e) = 0"
  "is_posted (Counted e) = 0"
  by (simp_all add: is_posted_def)

lemma token_step:
  assumes "async_step T M s s'" and "token_inv T M s"
  shows "token_inv T M s'"
  using assms
proof (induction rule: async_step.induct)
  case (k_count s e)
  then have e: "e < M" "0 < outstanding (events s e)" by (auto simp: token_inv_def)
  have "(\<Sum>k<M. int (outstanding (((events s)(e := (events s e)\<lparr>outstanding := outstanding (events s e) - 1\<rparr>)) k))) =
      (\<Sum>k<M. int (outstanding (events s k))) - 1"
    using e by (subst sum_upd [where g = "\<lambda>v. int (outstanding v)"]) (simp_all add: of_nat_diff)
  then show ?case using k_count e by (simp add: token_inv_def taken_def del: fun_upd_apply)
next
  case (n_count i s e)
  then have e: "e < M" unfolding token_inv_def by (metis in_event.simps(5))
  have "(\<Sum>k<M. int (outstanding (((events s)(e := (events s e)\<lparr>outstanding := outstanding (events s e) + 1\<rparr>)) k))) =
      (\<Sum>k<M. int (outstanding (events s k))) + 1"
    using e by (subst sum_upd [where g = "\<lambda>v. int (outstanding v)"]) simp_all
  moreover have "(\<Sum>k<T. is_posted (((notifiers s)(i := Counted e)) k)) = (\<Sum>k<T. is_posted (notifiers s k)) - 1"
    using n_count by (subst sum_upd) (simp_all add: is_posted_def)
  ultimately show ?case using n_count e by (auto simp: token_inv_def simp del: of_nat_Suc)
next
  case (n_post i s e)
  then have e: "e < M" unfolding token_inv_def by (metis in_event.simps(4))
  have "(\<Sum>k<T. is_posted (((notifiers s)(i := Posted e)) k)) = (\<Sum>k<T. is_posted (notifiers s k)) + 1"
    using n_post by (subst sum_upd) (simp_all add: is_posted_def)
  then show ?case using n_post e by (auto simp: token_inv_def)
next
  case (n_delay i s e d)
  then have "e < M" unfolding token_inv_def by (metis in_event.simps(2))
  then show ?case using n_delay by (auto simp: token_inv_def)
next
  case (n_request i s e)
  then have "e < M" unfolding token_inv_def by (metis in_event.simps(3))
  then show ?case using n_request by (auto simp: token_inv_def)
qed (auto simp: token_inv_def taken_def of_nat_diff)

lemma token_reachable: "async_reachable T M s \<Longrightarrow> token_inv T M s"
  by (induction rule: rtranclp_induct)
    (auto simp: token_step, simp add: token_inv_def async0_def new_async_event_def taken_def is_posted_def)

lemma delayed_upd: "N i \<noteq> Delayed f \<Longrightarrow> delayed_in (N(i := q)) f \<longleftrightarrow> q = Delayed f \<or> delayed_in N f"
  by (auto simp: delayed_in_def)

lemma delayed_upd_same: "delayed_in (N(i := Delayed f)) f"
  by (auto simp: delayed_in_def)

lemma requests_upd: "requests_in (N(i := q)) f \<Longrightarrow> has_requested q f \<or> requests_in N f"
  by (auto simp: requests_in_def split: if_splits)

lemma requests_upd_same: "\<not> has_requested (N i) f \<Longrightarrow> \<not> has_requested q f \<Longrightarrow> requests_in (N(i := q)) f = requests_in N f"
  by (auto simp: requests_in_def split: if_splits)

lemma requests_at: "has_requested (N i) f \<Longrightarrow> requests_in N f"
  by (auto simp: requests_in_def)

lemma delivery_step:
  assumes "async_step T M s s'" and "delivered_last s f"
  shows "delivered_last s' f"
  using assms
proof (induction rule: async_step.induct)
  case (n_delay i s e d)
  then show ?case using n_delay(3)
    by (cases "f = e") (auto simp: delivered_last_def on_its_way_def delayed_upd delayed_upd_same has_requested_def requests_upd_same)
next
  case (n_request i s e)
  then show ?case using n_request(3)
    by (cases "f = e") (auto simp: delivered_last_def on_its_way_def delayed_upd has_requested_def requests_upd_same)
next
  case (n_lock i e s d)
  then show ?case using n_lock(5)
    by (cases "f = e") (auto simp: delivered_last_def on_its_way_def delayed_upd has_requested_def requests_upd_same)
next
  case (n_post i s e)
  have "requests_in (notifiers s) e" by (rule requests_at [of _ i]) (simp add: n_post has_requested_def)
  then show ?case using n_post(1,2) n_post(3)
    by (cases "f = e") (auto simp: delivered_last_def on_its_way_def delayed_upd has_requested_def requests_upd_same)
next
  case (n_count i s e)
  have "requests_in (notifiers s) e" by (rule requests_at [of _ i]) (simp add: n_count has_requested_def)
  then show ?case using n_count(1,2) n_count(3)
    by (cases "f = e") (auto simp: delivered_last_def on_its_way_def delayed_upd has_requested_def requests_upd_same)
next
  case (n_unlock i s e)
  have "requests_in (notifiers s) e" by (rule requests_at [of _ i]) (simp add: n_unlock has_requested_def)
  then show ?case using n_unlock(1,2) n_unlock(3)
    by (cases "f = e") (auto simp: delivered_last_def on_its_way_def delayed_upd has_requested_def requests_upd_same)
qed (auto simp: delivered_last_def on_its_way_def)

lemma delivery_reachable: "async_reachable T M s \<Longrightarrow> \<forall>e. delivered_last s e"
  by (induction rule: rtranclp_induct)
    (simp add: delivered_last_def async0_def new_async_event_def requests_in_def has_requested_def, blast intro: delivery_step)


section \<open>What the invariants give\<close>

text \<open>Runs for examples: a statement of thread 0 on event 0 with a delay, or one of the SystemC thread.\<close>

fun notify_run :: "u64 \<Rightarrow> async_state \<Rightarrow> async_state" where
  "notify_run d s =
     s\<lparr>events := (events s)(0 := (events s 0)\<lparr>ev_delay := d, requested := True, outstanding := outstanding (events s 0) + 1, local_mutex := None\<rparr>),
       notifiers := (notifiers s)(0 := Outside), global_semaphore := global_semaphore s + 1\<rparr>"

lemma notify_run_steps:
  assumes "notifiers s 0 = Outside" and "local_mutex (events s 0) = None"
  shows "(async_step 1 1)\<^sup>*\<^sup>* s (notify_run d s)"
proof -
  define s1 where "s1 = set_thr 0 (Locked 0 d) (set_ev 0 (\<lambda>v. v\<lparr>local_mutex := Some (Thr 0)\<rparr>) s)"
  define s2 where "s2 = set_thr 0 (Delayed 0) (set_ev 0 (\<lambda>v. v\<lparr>ev_delay := d\<rparr>) s1)"
  define s3 where "s3 = set_thr 0 (Requested 0) (set_ev 0 (\<lambda>v. v\<lparr>requested := True\<rparr>) s2)"
  define s4 where "s4 = (set_thr 0 (Posted 0) s3)\<lparr>global_semaphore := global_semaphore s3 + 1\<rparr>"
  define s5 where "s5 = set_thr 0 (Counted 0) (set_ev 0 (\<lambda>v. v\<lparr>outstanding := outstanding v + 1\<rparr>) s4)"
  define s6 where "s6 = set_thr 0 Outside (set_ev 0 (\<lambda>v. v\<lparr>local_mutex := None\<rparr>) s5)"
  have a1: "async_step 1 1 s s1" unfolding s1_def by (rule n_lock) (simp_all add: assms)
  have a2: "async_step 1 1 s1 s2" unfolding s2_def by (rule n_delay) (simp_all add: assms s1_def)
  have a3: "async_step 1 1 s2 s3" unfolding s3_def by (rule n_request) (simp_all add: assms s1_def s2_def)
  have a4: "async_step 1 1 s3 s4" unfolding s4_def by (rule n_post) (simp_all add: assms s1_def s2_def s3_def)
  have a5: "async_step 1 1 s4 s5" unfolding s5_def by (rule n_count) (simp_all add: assms s1_def s2_def s3_def s4_def)
  have a6: "async_step 1 1 s5 s6" unfolding s6_def by (rule n_unlock) (simp_all add: assms s1_def s2_def s3_def s4_def s5_def)
  have "(async_step 1 1)\<^sup>*\<^sup>* s s6"
    by (rule converse_rtranclp_into_rtranclp [OF a1 converse_rtranclp_into_rtranclp [OF a2 converse_rtranclp_into_rtranclp [OF a3 converse_rtranclp_into_rtranclp [OF a4 converse_rtranclp_into_rtranclp [OF a5 r_into_rtranclp [of "async_step 1 1", OF a6]]]]]])
  moreover have "s6 = notify_run d s" by (simp add: assms s1_def s2_def s3_def s4_def s5_def s6_def)
  ultimately show ?thesis by metis
qed

fun update_run :: "async_state \<Rightarrow> async_state" where
  "update_run s =
     s\<lparr>events := (events s)(0 := (events s 0)\<lparr>requested := False, local_mutex := Some Kernel,
         delivered := delivered (events s 0) @ [ev_delay (events s 0)]\<rparr>), systemc := U_Notified 0\<rparr>"

lemma update_run_steps:
  assumes "systemc s = Running" and "requested (events s 0)" and "local_mutex (events s 0) = None"
  shows "(async_step 1 1)\<^sup>*\<^sup>* s (update_run s)"
proof -
  define s1 where "s1 = (set_ev 0 (\<lambda>v. v\<lparr>requested := False\<rparr>) s)\<lparr>systemc := Update 0\<rparr>"
  define s2 where "s2 = (set_ev 0 (\<lambda>v. v\<lparr>local_mutex := Some Kernel\<rparr>) s1)\<lparr>systemc := U_Locked 0\<rparr>"
  define s3 where "s3 = (set_ev 0 (\<lambda>v. v\<lparr>delivered := delivered v @ [ev_delay v]\<rparr>) s2)\<lparr>systemc := U_Notified 0\<rparr>"
  have a1: "async_step 1 1 s s1" unfolding s1_def by (rule k_update) (simp_all add: assms)
  have a2: "async_step 1 1 s1 s2" unfolding s2_def by (rule k_lock) (simp_all add: assms s1_def)
  have a3: "async_step 1 1 s2 s3" unfolding s3_def by (rule k_notify) (simp_all add: assms s1_def s2_def)
  have "(async_step 1 1)\<^sup>*\<^sup>* s s3"
    by (rule converse_rtranclp_into_rtranclp [OF a1 converse_rtranclp_into_rtranclp [OF a2 r_into_rtranclp [of "async_step 1 1", OF a3]]])
  moreover have "s3 = update_run s" by (simp add: assms s1_def s2_def s3_def)
  ultimately show ?thesis by metis
qed

fun drain_run :: "async_state \<Rightarrow> async_state" where
  "drain_run s = s\<lparr>events := (events s)(0 := (events s 0)\<lparr>outstanding := outstanding (events s 0) - 1\<rparr>),
     global_semaphore := global_semaphore s - 1\<rparr>"

lemma drain_run_steps:
  assumes "systemc s = U_Notified 0" and "0 < outstanding (events s 0)" and "0 < global_semaphore s"
  shows "(async_step 1 1)\<^sup>*\<^sup>* s (drain_run s)"
proof -
  define s1 where "s1 = s\<lparr>global_semaphore := global_semaphore s - 1, systemc := U_Waited 0\<rparr>"
  define s2 where "s2 = (set_ev 0 (\<lambda>v. v\<lparr>outstanding := outstanding v - 1\<rparr>) s1)\<lparr>systemc := U_Notified 0\<rparr>"
  have a1: "async_step 1 1 s s1" unfolding s1_def by (rule k_wait) (simp_all add: assms)
  have a2: "async_step 1 1 s1 s2" unfolding s2_def by (rule k_count) (simp_all add: assms s1_def)
  have "(async_step 1 1)\<^sup>*\<^sup>* s s2"
    by (rule converse_rtranclp_into_rtranclp [OF a1 r_into_rtranclp [of "async_step 1 1", OF a2]])
  moreover have "s2 = drain_run s" by (simp add: assms s1_def s2_def)
  ultimately show ?thesis by metis
qed

definition two_notified :: async_state where
  "two_notified = update_run (notify_run 9 (notify_run 1 async0))"

lemma two_notified_reachable: "async_reachable 1 1 two_notified"
proof -
  have "async_reachable 1 1 (notify_run 1 async0)" by (rule notify_run_steps) (simp_all add: async0_def new_async_event_def)
  also have "(async_step 1 1)\<^sup>*\<^sup>* (notify_run 1 async0) (notify_run 9 (notify_run 1 async0))" by (rule notify_run_steps) simp_all
  also have "(async_step 1 1)\<^sup>*\<^sup>* (notify_run 9 (notify_run 1 async0)) two_notified"
    unfolding two_notified_def by (rule update_run_steps) (simp_all add: async0_def)
  finally show ?thesis .
qed

text \<open>
  C5. In every interleaving of notifying threads and the SystemC thread, a mutex has one owner at a time, and the SystemC thread never
  blocks on the semaphore while it drains the notifications of an event: as long as one is outstanding there is a token for it. When
  it sleeps at the end of a delta without a token, no event has an outstanding notification.
\<close>

theorem async_semaphore_never_starves:
  assumes "async_reachable T M s"
  shows "(systemc s = U_Notified e \<and> 0 < outstanding (events s e) \<longrightarrow> 0 < global_semaphore s) \<and>
    (systemc s = Sleeping \<and> global_semaphore s = 0 \<longrightarrow> (\<forall>k<M. outstanding (events s k) = 0)) \<and>
    (in_event (notifiers s i) = Some e \<and> in_event (notifiers s j) = Some e \<longrightarrow> i = j) \<and>
    \<not> (in_event (notifiers s i) = Some e \<and> kernel_in (systemc s) = Some e)"
proof -
  have t: "token_inv T M s" and m: "mutex_inv s" using assms token_reachable mutex_reachable by blast+
  have p: "0 \<le> (\<Sum>i<T. is_posted (notifiers s i))"
    by (rule sum_nonneg) (simp add: is_posted_def split: notifier.split)
  have o: "int (outstanding (events s k)) \<le> (\<Sum>e<M. int (outstanding (events s e)))" if "k < M" for k
    using that by (intro member_le_sum) auto
  have "systemc s = U_Notified e \<Longrightarrow> 0 < outstanding (events s e) \<Longrightarrow> 0 < global_semaphore s"
    using t p o [of e] by (simp add: token_inv_def taken_def)
  moreover have "systemc s = Sleeping \<Longrightarrow> global_semaphore s = 0 \<Longrightarrow> k < M \<Longrightarrow> outstanding (events s k) = 0" for k
    using t p o [of k] by (simp add: token_inv_def taken_def)
  moreover have "in_event (notifiers s i) = Some e \<Longrightarrow> in_event (notifiers s j) = Some e \<Longrightarrow> i = j"
    using m unfolding mutex_inv_def by (metis option.inject owner.inject)
  moreover have "\<not> (in_event (notifiers s i) = Some e \<and> kernel_in (systemc s) = Some e)"
    using m unfolding mutex_inv_def by (metis option.inject owner.distinct(1))
  ultimately show ?thesis by blast
qed

theorem async_semaphore_never_starves_witness:
  "systemc two_notified = U_Notified 0 \<and> outstanding (events two_notified 0) = 2 \<and> 0 < global_semaphore two_notified"
proof -
  have "systemc two_notified = U_Notified 0" "outstanding (events two_notified 0) = 2"
    by (simp_all add: two_notified_def async0_def new_async_event_def)
  then show ?thesis using async_semaphore_never_starves [OF two_notified_reachable, of 0] by simp
qed

text \<open>
  C18. No notification is lost: once no request of an event is pending and nobody is at work on it, either it was never notified, or the
  delay that the SystemC event got last is the one of the last notification. (Earlier ones may be skipped: the last one wins, even when
  it is later in time.)
\<close>

theorem async_last_notification_delivered:
  assumes "async_reachable T M s" and "\<not> requested (events s e)" and "\<forall>i. in_event (notifiers s i) \<noteq> Some e"
    and "systemc s = Running \<or> systemc s = Sleeping"
  shows "if delivered (events s e) = [] then outstanding (events s e) = 0
    else last (delivered (events s e)) = ev_delay (events s e)"
proof -
  have "\<not> delayed_in (notifiers s) e" using assms(3) by (metis delayed_in_def in_event.simps(3))
  then have "\<not> on_its_way s e" using assms(2,4) by (auto simp: on_its_way_def)
  then show ?thesis using delivery_reachable [OF assms(1)] unfolding delivered_last_def by metis
qed

definition two_drained :: async_state where
  "two_drained = (set_ev 0 (\<lambda>v. v\<lparr>local_mutex := None\<rparr>) (drain_run (drain_run two_notified)))\<lparr>systemc := Running\<rparr>"

lemma two_notified_fields:
  "systemc two_notified = U_Notified 0" "outstanding (events two_notified 0) = 2" "global_semaphore two_notified = 2"
  "delivered (events two_notified 0) = [9]" "ev_delay (events two_notified 0) = 9" "\<not> requested (events two_notified 0)"
  "notifiers two_notified i = Outside"
  by (simp_all add: two_notified_def async0_def new_async_event_def)

lemma two_drained_reachable: "async_reachable 1 1 two_drained"
proof -
  note two_notified_reachable
  also have "(async_step 1 1)\<^sup>*\<^sup>* two_notified (drain_run two_notified)"
    by (rule drain_run_steps) (simp_all add: two_notified_fields)
  also have "(async_step 1 1)\<^sup>*\<^sup>* (drain_run two_notified) (drain_run (drain_run two_notified))"
    by (rule drain_run_steps) (simp_all add: two_notified_fields)
  also have "async_step 1 1 (drain_run (drain_run two_notified)) two_drained"
    unfolding two_drained_def by (rule k_unlock) (simp_all add: two_notified_fields)
  finally show ?thesis .
qed

text \<open>Here the notification with the delay 1 has been replaced by the one with the delay 9.\<close>

theorem async_last_notification_delivered_witness: "last (delivered (events two_drained 0)) = 9"
proof -
  have d: "\<not> requested (events two_drained 0)" "\<forall>i. in_event (notifiers two_drained i) \<noteq> Some 0"
      "systemc two_drained = Running" "delivered (events two_drained 0) = [9]" "ev_delay (events two_drained 0) = 9"
    by (simp_all add: two_drained_def two_notified_fields)
  then show ?thesis using async_last_notification_delivered [OF two_drained_reachable d(1,2)] by simp
qed

end
