(* ===== verification/Sync_Window.thy ===== *)
theory Sync_Window
  imports GL_Prelude
begin

text \<open>
  The synchronisation of several threads with SystemC's time (\<^verbatim>\<open>greenthreads/thread_safe_event.h\<close>,
  \<^verbatim>\<open>centralSyncPolicy\<close> and \<^verbatim>\<open>syncSource\<close>): each source has an entry with its time,
  and the window is the range from the earliest to the latest of them. Times are SystemC's 64 bit counts; an entry reference is
  a position of the list, which only grows at its end.
\<close>

section \<open>The state\<close>

record sync_policy =
  endTimes :: "u64 list"
  backWindow :: u64
  frontWindow :: u64
  sc_is_back_window :: bool
  canLock :: nat
  locksToDo :: nat
  window_checks :: nat

text \<open>\<^verbatim>\<open>window_checks\<close> counts the notifications of the event that calls \<^verbatim>\<open>checkWindow\<close>.\<close>

definition sync_policy0 :: sync_policy where
  "sync_policy0 = \<lparr>endTimes = [], backWindow = 0, frontWindow = 0, sc_is_back_window = False, canLock = 0, locksToDo = 0,
     window_checks = 0\<rparr>"

definition releaseLock :: "sync_policy \<Rightarrow> sync_policy" where
  "releaseLock s = s\<lparr>canLock := canLock s + 1\<rparr>"

definition takeLock :: "sync_policy \<Rightarrow> sync_policy" where
  "takeLock s = s\<lparr>locksToDo := locksToDo s + 1, window_checks := window_checks s + 1\<rparr>"

definition kickLock :: "sync_policy \<Rightarrow> sync_policy" where
  "kickLock s = s\<lparr>canLock := canLock s + 1, locksToDo := locksToDo s + 1, window_checks := window_checks s + 1\<rparr>"

text \<open>The loop that takes the tokens: it spins on an empty semaphore until somebody releases one; \<open>Inl\<close> says that it spins.\<close>

fun take_loop :: "nat \<Rightarrow> nat \<Rightarrow> nat + nat" where
  "take_loop 0 can = Inr can"
| "take_loop (Suc n) can = (if can = 0 then Inl (Suc n) else take_loop n (can - 1))"

definition takeLockMethod :: "sync_policy \<Rightarrow> sync_policy option" where
  "takeLockMethod s =
     (case take_loop (locksToDo s) (canLock s) of
        Inr can \<Rightarrow> Some (s\<lparr>canLock := can, locksToDo := 0\<rparr>)
      | Inl n \<Rightarrow> None)"

fun window_scan :: "u64 list \<Rightarrow> u64 \<Rightarrow> u64 \<Rightarrow> u64 \<times> u64" where
  "window_scan [] back front = (back, front)"
| "window_scan (t # ts) back front =
     (if t < back then window_scan ts t front
      else if t > front then window_scan ts back t
      else window_scan ts back front)"

definition update_window :: "u64 \<Rightarrow> sync_policy \<Rightarrow> sync_policy" where
  "update_window sc_ts s =
     (case window_scan (endTimes s) sc_ts sc_ts of
        (back, front) \<Rightarrow>
          let changed = (back \<noteq> backWindow s \<or> frontWindow s \<noteq> front);
              s' = s\<lparr>backWindow := back, frontWindow := front, sc_is_back_window := (sc_ts = back)\<rparr>
          in if changed then kickLock s' else s')"

definition registerLockable :: "sync_policy \<Rightarrow> nat \<times> sync_policy" where
  "registerLockable s = (length (endTimes s), s\<lparr>endTimes := endTimes s @ [0]\<rparr>)"

text \<open>
  A source sets its time; if it is ahead of the window by more than the quantum it waits, once for each element of
  \<open>wakeups\<close>: whether the wait timed out, and the back of the window that is then seen. \<open>None\<close> says that it still waits.
\<close>

fun ahead_loop :: "bool \<Rightarrow> u64 \<Rightarrow> u64 \<Rightarrow> u64 \<Rightarrow> (bool \<times> u64) list \<Rightarrow> u64 option" where
  "ahead_loop dec t quantum back wakeups =
     (if \<not> dec \<and> t > back + quantum
      then case wakeups of
             [] \<Rightarrow> None
           | (timeout, back') # ws \<Rightarrow> if timeout then Some back' else ahead_loop dec t quantum back' ws
      else Some back)"

declare ahead_loop.simps [simp del]

definition setWindow :: "u64 \<Rightarrow> u64 \<Rightarrow> nat \<Rightarrow> sync_policy \<Rightarrow> sync_policy" where
  "setWindow sc_ts t ref s = update_window sc_ts (s\<lparr>endTimes := (endTimes s)[ref := t]\<rparr>)"

record sync_source =
  entityRef :: nat
  localBackWindow :: u64
  decoupled :: bool

definition new_syncSource :: "bool \<Rightarrow> u64 \<Rightarrow> sync_policy \<Rightarrow> sync_source \<times> sync_policy" where
  "new_syncSource d sc_ts s =
     (case registerLockable s of
        (ref, s1) \<Rightarrow> (\<lparr>entityRef = ref, localBackWindow = 0, decoupled = d\<rparr>, setWindow sc_ts 0 ref s1))"

definition syncAt :: "bool \<Rightarrow> u64 \<Rightarrow> u64 \<Rightarrow> sync_source \<Rightarrow> sync_policy \<Rightarrow> sync_source \<times> sync_policy" where
  "syncAt in_main_thread sc_ts t src s =
     (if in_main_thread then (src, s)
      else if t > localBackWindow src then
        let l = (if decoupled src then sc_ts else t)
        in (src\<lparr>localBackWindow := l\<rparr>, setWindow sc_ts l (entityRef src) s)
      else (src, s))"

text \<open>What \<^verbatim>\<open>checkWindow\<close> does: sleep until the front, go on, or ask again; \<open>None\<close> says that it spins for a token.\<close>

datatype check = NotifyIn u64 | GoOn | NotifyNow

definition checkWindow :: "u64 \<Rightarrow> sync_policy \<Rightarrow> (check \<times> sync_policy) option" where
  "checkWindow sc_ts s =
     (let s1 = (if sc_is_back_window s then update_window sc_ts s else s) in
      if sc_ts < frontWindow s1 then Some (NotifyIn (frontWindow s1 - sc_ts), s1)
      else case takeLockMethod s1 of
             None \<Rightarrow> None
           | Some s2 \<Rightarrow> if canLock s2 > 0 then Some (GoOn, s2) else Some (NotifyNow, s2))"


section \<open>The window\<close>

lemma window_scan_bounds:
  "back \<le> front \<Longrightarrow> window_scan ts back front = (Min (insert back (set ts)), Max (insert front (set ts)))"
proof (induction ts arbitrary: "back" front)
  case (Cons t ts)
  have i: "Min (insert b (insert t (set ts))) = Min (insert (min b t) (set ts))"
    "Max (insert b (insert t (set ts))) = Max (insert (max b t) (set ts))" for b
    by (cases "set ts = {}", simp_all add: min.assoc max.assoc)+
  have m: "Min (insert t (insert t (set ts))) = Min (insert t (set ts))" by simp
  consider "t < back" | "\<not> t < back" "t > front" | "\<not> t < back" "\<not> t > front" by blast
  then show ?case
  proof cases
    case 1
    then have "min back t = t" "max front t = front" using Cons.prems by simp_all
    then show ?thesis using 1 Cons.IH [of t front] Cons.prems i [of "back"] i [of front] by simp
  next
    case 2
    then have "min back t = back" "max front t = t" by simp_all
    then show ?thesis using 2 Cons.IH [of "back" t] Cons.prems i [of "back"] i [of front] by simp
  next
    case 3
    then have "min back t = back" "max front t = front" by simp_all
    then show ?thesis using 3 Cons.IH [of "back" front] Cons.prems i [of "back"] i [of front] by simp
  qed
qed simp

text \<open>
  After an update the window reaches from the earliest to the latest of SystemC's time and the times of all sources; SystemC
  is at its back exactly when no source is behind it; and the sleeping SystemC thread is kicked, with one token and one check, exactly when the
  window has moved.
\<close>

theorem update_window_is_the_range:
  "(let s' = update_window now s; W = insert now (set (endTimes s)); moved = (Min W \<noteq> backWindow s \<or> Max W \<noteq> frontWindow s) in
     backWindow s' = Min W \<and> frontWindow s' = Max W \<and> sc_is_back_window s' = (\<forall>t \<in> set (endTimes s). now \<le> t) \<and>
     endTimes s' = endTimes s \<and>
     (canLock s', locksToDo s', window_checks s') =
       (if moved then (canLock s + 1, locksToDo s + 1, window_checks s + 1) else (canLock s, locksToDo s, window_checks s)))"
proof -
  let ?W = "insert now (set (endTimes s))"
  have "now = Min ?W \<longleftrightarrow> (\<forall>t \<in> set (endTimes s). now \<le> t)"
  proof
    assume n: "now = Min ?W"
    show "\<forall>t \<in> set (endTimes s). now \<le> t" by (subst n) simp
  next
    assume "\<forall>t \<in> set (endTimes s). now \<le> t"
    then show "now = Min ?W" by (intro Min_eqI [symmetric]) auto
  qed
  then show ?thesis using window_scan_bounds [of now now "endTimes s"]
    by (auto simp: update_window_def Let_def kickLock_def)
qed


section \<open>The tokens\<close>

datatype token_op = Rel_Lock | Take_Lock | Kick_Lock | Set_Window u64 u64 nat | Take_All

text \<open>A history of the operations; taking all tokens is possible only when it does not spin.\<close>

fun lock_run :: "token_op list \<Rightarrow> sync_policy \<Rightarrow> sync_policy option" where
  "lock_run [] s = Some s"
| "lock_run (Rel_Lock # ops) s = lock_run ops (releaseLock s)"
| "lock_run (Take_Lock # ops) s = lock_run ops (takeLock s)"
| "lock_run (Kick_Lock # ops) s = lock_run ops (kickLock s)"
| "lock_run (Set_Window now t i # ops) s = lock_run ops (setWindow now t i s)"
| "lock_run (Take_All # ops) s = (case takeLockMethod s of Some s' \<Rightarrow> lock_run ops s' | None \<Rightarrow> None)"

lemma take_loop_result: "take_loop n can = (if n \<le> can then Inr (can - n) else Inl (n - can))"
  by (induction n can rule: take_loop.induct) auto

lemma takeLockMethod_result:
  "takeLockMethod s = (if locksToDo s \<le> canLock s then Some (s\<lparr>canLock := canLock s - locksToDo s, locksToDo := 0\<rparr>) else None)"
  by (simp add: takeLockMethod_def take_loop_result)

definition balance :: "sync_policy \<Rightarrow> int" where
  "balance s = int (canLock s) - int (locksToDo s)"

lemma balance_ops [simp]:
  "balance (releaseLock s) = balance s + 1" "balance (takeLock s) = balance s - 1" "balance (kickLock s) = balance s"
  "balance (setWindow now t i s) = balance s"
  by (auto simp: balance_def releaseLock_def takeLock_def kickLock_def setWindow_def update_window_def Let_def split: prod.split)

lemma balance_take: "takeLockMethod s = Some s' \<Longrightarrow> balance s' = balance s \<and> locksToDo s' = 0"
  by (auto simp: takeLockMethod_result balance_def split: if_splits)

lemma lock_run_balance:
  "lock_run ops s = Some s' \<Longrightarrow> balance s' = balance s + int (count_list ops Rel_Lock) - int (count_list ops Take_Lock)"
  by (induction ops s rule: lock_run.induct) (auto simp: balance_take split: option.splits)

text \<open>
  The tokens balance: after any history of releases, takes, kicks and window changes, the SystemC thread can take all the tokens it owes without
  spinning exactly when there have been at least as many releases as takes, and it is then left with the difference. Kicks and
  moves of the window, which come with their own token, never make it spin.
\<close>

theorem lock_tokens_balance:
  assumes "lock_run ops sync_policy0 = Some s"
  shows "map_option (\<lambda>s'. (canLock s', locksToDo s')) (takeLockMethod s) =
    (if count_list ops Take_Lock \<le> count_list ops Rel_Lock then Some (count_list ops Rel_Lock - count_list ops Take_Lock, 0) else None)"
proof -
  have "int (canLock s) - int (locksToDo s) = int (count_list ops Rel_Lock) - int (count_list ops Take_Lock)"
    using lock_run_balance [OF assms] by (simp add: balance_def sync_policy0_def)
  then have "locksToDo s \<le> canLock s \<longleftrightarrow> count_list ops Take_Lock \<le> count_list ops Rel_Lock"
    "count_list ops Take_Lock \<le> count_list ops Rel_Lock \<Longrightarrow> canLock s - locksToDo s = count_list ops Rel_Lock - count_list ops Take_Lock"
    by linarith+
  then show ?thesis by (simp add: takeLockMethod_result)
qed

theorem lock_tokens_balance_witness:
  "\<exists>s. lock_run [Rel_Lock, Set_Window 5 7 0, Kick_Lock, Take_Lock, Take_All, Rel_Lock] sync_policy0 = Some s \<and>
    map_option (\<lambda>s'. (canLock s', locksToDo s')) (takeLockMethod s) = Some (1, 0)"
proof -
  let ?ops = "[Rel_Lock, Set_Window 5 7 0, Kick_Lock, Take_Lock, Take_All, Rel_Lock]"
  have "lock_run ?ops sync_policy0 \<noteq> None"
    by (simp add: sync_policy0_def releaseLock_def takeLock_def kickLock_def setWindow_def update_window_def takeLockMethod_result)
  then obtain s where s: "lock_run ?ops sync_policy0 = Some s" by blast
  then show ?thesis using lock_tokens_balance [OF s] by simp
qed

text \<open>A source that waits returns when the window has come close enough, or after a time-out, wherever the window is then.\<close>

lemma ahead_loop_returns:
  "ahead_loop dec t quantum back wakeups = Some b \<Longrightarrow>
   dec \<or> t \<le> b + quantum \<or> (\<exists>w \<in> set wakeups. fst w)"
proof (induction dec t quantum "back" wakeups rule: ahead_loop.induct)
  case (1 dec t quantum bk wakeups)
  show ?case
  proof (cases wakeups)
    case Nil
    then show ?thesis using 1(2) by (auto simp: ahead_loop.simps [of dec t quantum bk] split: if_splits)
  next
    case (Cons w ws)
    obtain timeout back' where w: "w = (timeout, back')" by (cases w)
    show ?thesis
    proof (cases "\<not> dec \<and> t > bk + quantum \<and> \<not> timeout")
      case True
      then have "ahead_loop dec t quantum back' ws = Some b"
        using 1(2) Cons w by (simp add: ahead_loop.simps [of False t quantum bk])
      then show ?thesis using 1(1) [of w ws timeout back'] True Cons w by auto
    next
      case False
      then show ?thesis using 1(2) Cons w
        by (auto simp: ahead_loop.simps [of dec t quantum bk] ahead_loop.simps [of False t quantum bk]
            ahead_loop.simps [of True t quantum bk] split: if_splits)
    qed
  qed
qed

end
