(* ===== verification/Calculator.thy ===== *)
theory Calculator
  imports GL_Prelude
begin

text \<open>
  The statistics calculator of GreenAV (\<^verbatim>\<open>gav/plugin/Calculator.h\<close>,
  \<^verbatim>\<open>Calculator_bit.h\<close>) for \<^verbatim>\<open>T = int\<close>: formulas over parameters are
  registered one operator at a time, each with a result parameter, and recalculated in this order; a sliding
  window averages the results. Signed overflow is undefined behaviour of C++.
\<close>

section \<open>The functions\<close>

type_synonym func = "int \<Rightarrow> int \<Rightarrow> bool \<Rightarrow> int res"

definition chk_int :: "int \<Rightarrow> int res" where
  "chk_int z = (if - (2 ^ 31) \<le> z \<and> z < 2 ^ 31 then Inr z else Inl (Undefined ''signed overflow''))"

definition trunc_div :: "int \<Rightarrow> int \<Rightarrow> int" where
  "trunc_div x y = sgn x * sgn y * (\<bar>x\<bar> div \<bar>y\<bar>)"

definition add_it :: func where "add_it x y sloppy = chk_int (x + y)"
definition diff_it :: func where "diff_it x y sloppy = chk_int (x - y)"
definition mult_it :: func where "mult_it x y sloppy = chk_int (x * y)"

definition div_it :: func where
  "div_it x y sloppy =
     (if y = 0 then (if \<not> sloppy then Inl (ScFatal ''Division by zero'') else Inr 0)
      else chk_int (trunc_div x y))"

definition of_bool_int :: "bool \<Rightarrow> int" where "of_bool_int b = (if b then 1 else 0)"

definition equal_it :: func where "equal_it x y sloppy = Inr (of_bool_int (x = y))"
definition n_equal :: func where "n_equal x y sloppy = Inr (of_bool_int (x \<noteq> y))"
definition gt_eq :: func where "gt_eq x y sloppy = Inr (of_bool_int (x \<ge> y))"
definition lt_eq :: func where "lt_eq x y sloppy = Inr (of_bool_int (x \<le> y))"
definition lt_it :: func where "lt_it x y sloppy = Inr (of_bool_int (x < y))"
definition gt_it :: func where "gt_it x y sloppy = Inr (of_bool_int (x > y))"

definition bit_and :: func where "bit_and x y sloppy = Inr (and x y)"
definition bit_or :: func where "bit_or x y sloppy = Inr (or x y)"

text \<open>The static tables, which all calculators of a type share.\<close>

record func_table =
  m_op_map :: "(string, nat) omap"
  m_func_vec :: "func list"

definition push_func :: "string \<times> func \<Rightarrow> func_table \<Rightarrow> func_table" where
  "push_func = (\<lambda>(sign, f) t.
     t\<lparr>m_func_vec := m_func_vec t @ [f], m_op_map := map_put sign (length (m_func_vec t @ [f]) - 1) (m_op_map t)\<rparr>)"

definition base_funcs :: "(string \<times> func) list" where
  "base_funcs = [(''+'', add_it), (''-'', diff_it), (''/'', div_it), (''*'', mult_it), (''=='', equal_it), (''!='', n_equal),
     (''>='', gt_eq), (''<='', lt_eq), (''<'', lt_it), (''>'', gt_it)]"

definition initFuncs :: func_table where
  "initFuncs = fold push_func base_funcs \<lparr>m_op_map = [], m_func_vec = []\<rparr>"

text \<open>Every construction of a calculator with bit operators pushes them again.\<close>

definition new_calculator_bit :: "func_table \<Rightarrow> func_table" where
  "new_calculator_bit t = push_func (''|'', bit_or) (push_func (''&'', bit_and) t)"

definition addFunc :: "func \<Rightarrow> string \<Rightarrow> func_table \<Rightarrow> func_table" where
  "addFunc f sign t = (if map_find (m_op_map t) sign = None then push_func (sign, f) t else t)"

definition func_of :: "func_table \<Rightarrow> string \<Rightarrow> func option" where
  "func_of t sign = map_option (\<lambda>i. m_func_vec t ! i) (map_find (m_op_map t) sign)"

definition table_ok :: "func_table \<Rightarrow> bool" where
  "table_ok t \<longleftrightarrow> (\<forall>s i. map_find (m_op_map t) s = Some i \<longrightarrow> i < length (m_func_vec t))"


section \<open>The formula\<close>

text \<open>A parameter that a formula uses: one of the model, a constant's, the result of an earlier operator, or the default.\<close>

datatype operand = Param nat | Const int | Res nat | Default

record calculator =
  got_result_param :: bool
  got_input_params :: bool
  sliding_window_size :: nat
  sliding_window_elements :: "int list"
  sliding_window_result :: "int option"
  input_parameters :: "operand list"
  m_sloppy :: bool
  m_results :: "int list"
  m_params :: "(operand \<times> operand) list"
  m_functions :: "nat list"

definition new_calculator :: calculator where
  "new_calculator = \<lparr>got_result_param = False, got_input_params = False, sliding_window_size = 0, sliding_window_elements = [],
     sliding_window_result = None, input_parameters = [], m_sloppy = False, m_results = [], m_params = [], m_functions = []\<rparr>"

definition is_result :: "operand \<Rightarrow> int list \<Rightarrow> bool" where
  "is_result p rs \<longleftrightarrow> (\<exists>i < length rs. p = Res i)"

definition operand_used :: "operand \<Rightarrow> (operand \<times> operand) list \<Rightarrow> bool" where
  "operand_used p ps = list_ex (\<lambda>(a, b). p = a \<or> p = b) ps"

definition calc :: "func_table \<Rightarrow> string \<Rightarrow> operand \<Rightarrow> operand \<Rightarrow> calculator \<Rightarrow> operand \<times> calculator" where
  "calc t func a b c =
     (case map_find (m_op_map t) func of
        None \<Rightarrow> (Default, c)
      | Some f \<Rightarrow>
          let results = m_results c @ [0];
              save_first = (\<not> is_result a results \<and> \<not> operand_used a (m_params c));
              save_second = (\<not> is_result b results \<and> a \<noteq> b \<and> \<not> operand_used b (m_params c))
          in (Res (length (m_results c)),
              c\<lparr>m_results := results, m_params := m_params c @ [(a, b)], m_functions := m_functions c @ [f],
                input_parameters := input_parameters c @ (if save_first then [a] else []) @ (if save_second then [b] else [])\<rparr>))"

definition operand_value :: "(nat \<Rightarrow> int) \<Rightarrow> int list \<Rightarrow> operand \<Rightarrow> int" where
  "operand_value env rs p = (case p of Param i \<Rightarrow> env i | Const z \<Rightarrow> z | Res i \<Rightarrow> rs ! i | Default \<Rightarrow> 0)"

fun recalc_loop :: "func_table \<Rightarrow> (nat \<Rightarrow> int) \<Rightarrow> bool \<Rightarrow> (nat \<times> operand \<times> operand) list \<Rightarrow> nat \<Rightarrow> int list \<Rightarrow> int list res" where
  "recalc_loop t env sloppy [] i rs = Inr rs"
| "recalc_loop t env sloppy ((f, a, b) # fs) i rs =
     bindr ((m_func_vec t ! f) (operand_value env rs a) (operand_value env rs b) sloppy)
       (\<lambda>v. recalc_loop t env sloppy fs (i + 1) (rs[i := v]))"

text \<open>The window's sum in order, and the division by its size, which is unsigned.\<close>

fun window_sum :: "int list \<Rightarrow> int res" where
  "window_sum [] = Inl (Undefined ''tmp is not initialised'')"
| "window_sum (x # xs) = foldl (\<lambda>r y. bindr r (\<lambda>s. chk_int (s + y))) (Inr x) xs"

definition int_of_unsigned :: "int \<Rightarrow> int" where
  "int_of_unsigned z = (let r = z mod 2 ^ 32 in if r < 2 ^ 31 then r else r - 2 ^ 32)"

definition window_average :: "int list \<Rightarrow> int res" where
  "window_average els = bindr (window_sum els) (\<lambda>s. Inr (int_of_unsigned ((s mod 2 ^ 64) div int (length els))))"

definition recalculate :: "func_table \<Rightarrow> (nat \<Rightarrow> int) \<Rightarrow> calculator \<Rightarrow> calculator res" where
  "recalculate t env c =
     bindr (recalc_loop t env (m_sloppy c) (zip (m_functions c) (m_params c)) 0 (m_results c)) (\<lambda>rs.
       let c' = c\<lparr>m_results := rs\<rparr> in
       if sliding_window_size c > 0 then
         (if rs = [] then Inl (Undefined ''the last of no results is read'')
          else let els = sliding_window_elements c @ [last rs];
                   els = (if length els > sliding_window_size c then tl els else els)
               in bindr (window_average els) (\<lambda>r.
                    Inr (c'\<lparr>sliding_window_elements := els, sliding_window_result := Some r\<rparr>)))
       else Inr c')"

definition get_used_params :: "calculator \<Rightarrow> operand list \<times> calculator" where
  "get_used_params c = (input_parameters c, c\<lparr>got_input_params := True\<rparr>)"

text \<open>The result parameter's value; \<open>None\<close> is the null pointer.\<close>

definition get_result_param :: "calculator \<Rightarrow> int option \<times> calculator" where
  "get_result_param c =
     (if \<not> got_input_params c then (None, c)
      else let c' = c\<lparr>got_result_param := True\<rparr> in
           (if sliding_window_size c > 0 then sliding_window_result c
            else if m_results c = [] then None else Some (last (m_results c)), c'))"

definition enable_sliding_window :: "nat \<Rightarrow> calculator \<Rightarrow> calculator" where
  "enable_sliding_window window_size c =
     (let c' = c\<lparr>sliding_window_elements := []\<rparr>;
          c' = (if window_size \<noteq> 0 \<and> sliding_window_size c = 0 \<and> sliding_window_result c = None
                then c'\<lparr>sliding_window_result := Some 0\<rparr> else c')
      in c'\<lparr>sliding_window_size := window_size\<rparr>)"

definition enable_sloppy :: "calculator \<Rightarrow> calculator" where
  "enable_sloppy c = c\<lparr>m_sloppy := True\<rparr>"

definition disable_sloppy :: "calculator \<Rightarrow> calculator" where
  "disable_sloppy c = c\<lparr>m_sloppy := False\<rparr>"


section \<open>Formulas as expressions\<close>

datatype expr = E_Param nat | E_Const int | E_Op string expr expr

fun compile :: "func_table \<Rightarrow> expr \<Rightarrow> calculator \<Rightarrow> operand \<times> calculator" where
  "compile t (E_Param i) c = (Param i, c)"
| "compile t (E_Const z) c = (Const z, c)"
| "compile t (E_Op f x y) c =
     (case compile t x c of (a, c1) \<Rightarrow> case compile t y c1 of (b, c2) \<Rightarrow> calc t f a b c2)"

fun eval :: "func_table \<Rightarrow> (nat \<Rightarrow> int) \<Rightarrow> bool \<Rightarrow> expr \<Rightarrow> int res" where
  "eval t env sloppy (E_Param i) = Inr (env i)"
| "eval t env sloppy (E_Const z) = Inr z"
| "eval t env sloppy (E_Op f x y) =
     bindr (eval t env sloppy x) (\<lambda>u. bindr (eval t env sloppy y) (\<lambda>v.
       case func_of t f of Some g \<Rightarrow> g u v sloppy | None \<Rightarrow> Inr 0))"

definition calc_ok :: "calculator \<Rightarrow> bool" where
  "calc_ok c \<longleftrightarrow> length (m_functions c) = length (m_results c) \<and> length (m_params c) = length (m_results c)"

fun operand_ok :: "nat \<Rightarrow> operand \<Rightarrow> bool" where
  "operand_ok n (Res i) = (i < n)"
| "operand_ok n _ = True"

definition instructions :: "calculator \<Rightarrow> (nat \<times> operand \<times> operand) list" where
  "instructions c = zip (m_functions c) (m_params c)"

lemma recalc_append:
  "recalc_loop t env sl (xs @ ys) i rs = bindr (recalc_loop t env sl xs i rs) (recalc_loop t env sl ys (i + length xs))"
proof (induction t env sl xs i rs rule: recalc_loop.induct)
  case (2 t env sl f a b fs i rs)
  then show ?case by (cases "(m_func_vec t ! f) (operand_value env rs a) (operand_value env rs b) sl") simp_all
qed simp

lemma operand_value_cong: "operand_ok n p \<Longrightarrow> \<forall>i < n. rs ! i = rs' ! i \<Longrightarrow> operand_value env rs p = operand_value env rs' p"
  by (cases p) (simp_all add: operand_value_def)

lemma operand_ok_mono: "operand_ok n p \<Longrightarrow> n \<le> m \<Longrightarrow> operand_ok m p"
  by (cases p) simp_all

text \<open>What the code for an expression does when it is appended to a calculator.\<close>

definition computes :: "func_table \<Rightarrow> expr \<Rightarrow> calculator \<Rightarrow> operand \<Rightarrow> calculator \<Rightarrow> (nat \<times> operand \<times> operand) list \<Rightarrow> bool" where
  "computes t e c r c' ys \<longleftrightarrow>
     calc_ok c' \<and> m_sloppy c' = m_sloppy c \<and> sliding_window_size c' = sliding_window_size c \<and> instructions c' = instructions c @ ys \<and>
     length (m_results c') = length (m_results c) + length ys \<and> operand_ok (length (m_results c')) r \<and>
     (\<forall>env sl rs. length (m_results c') \<le> length rs \<longrightarrow>
        (case recalc_loop t env sl ys (length (m_results c)) rs of
           Inl er \<Rightarrow> eval t env sl e = Inl er
         | Inr rs' \<Rightarrow> length rs' = length rs \<and> (\<forall>i < length (m_results c). rs' ! i = rs ! i) \<and>
             eval t env sl e = Inr (operand_value env rs' r)))"

lemma computes_Inl:
  assumes "computes t e c r c' ys" and "length (m_results c') \<le> length rs" and "n = length (m_results c)"
    and "recalc_loop t env sl ys n rs = Inl er"
  shows "eval t env sl e = Inl er"
proof -
  have "\<forall>env sl rs. length (m_results c') \<le> length rs \<longrightarrow>
        (case recalc_loop t env sl ys (length (m_results c)) rs of
           Inl er \<Rightarrow> eval t env sl e = Inl er
         | Inr rs' \<Rightarrow> length rs' = length rs \<and> (\<forall>i < length (m_results c). rs' ! i = rs ! i) \<and>
             eval t env sl e = Inr (operand_value env rs' r))" using assms(1) by (simp add: computes_def)
  from this [rule_format, OF assms(2), of env sl] show ?thesis using assms(3,4) by simp
qed

lemma computes_Inr:
  assumes "computes t e c r c' ys" and "length (m_results c') \<le> length rs" and "n = length (m_results c)"
    and "recalc_loop t env sl ys n rs = Inr rs'"
  shows "length rs' = length rs" "\<forall>i < n. rs' ! i = rs ! i" "eval t env sl e = Inr (operand_value env rs' r)"
proof -
  have "\<forall>env sl rs. length (m_results c') \<le> length rs \<longrightarrow>
        (case recalc_loop t env sl ys (length (m_results c)) rs of
           Inl er \<Rightarrow> eval t env sl e = Inl er
         | Inr rs' \<Rightarrow> length rs' = length rs \<and> (\<forall>i < length (m_results c). rs' ! i = rs ! i) \<and>
             eval t env sl e = Inr (operand_value env rs' r))" using assms(1) by (simp add: computes_def)
  from this [rule_format, OF assms(2), of env sl]
  show "length rs' = length rs" "\<forall>i < n. rs' ! i = rs ! i" "eval t env sl e = Inr (operand_value env rs' r)"
    using assms(3,4) by simp_all
qed

lemma computes_op:
  assumes x: "computes t x c a c1 xs" and y: "computes t y c1 b c2 ys" and k: "calc t f a b c2 = (r, c3)"
  shows "\<exists>zs. computes t (E_Op f x y) c r c3 zs"
proof -
  define n where "n = length (m_results c)"
  have len: "length (m_results c1) = n + length xs" "length (m_results c2) = n + length xs + length ys"
    using x y by (simp_all add: computes_def n_def)
  define zs where "zs = (case map_find (m_op_map t) f of None \<Rightarrow> [] | Some g \<Rightarrow> [(g, a, b)])"
  have ok2: "calc_ok c2" "instructions c2 = instructions c @ xs @ ys" "m_sloppy c2 = m_sloppy c" "sliding_window_size c2 = sliding_window_size c"
    using x y by (simp_all add: computes_def)
  have struct: "calc_ok c3" "m_sloppy c3 = m_sloppy c" "sliding_window_size c3 = sliding_window_size c" "instructions c3 = instructions c @ xs @ ys @ zs"
    "length (m_results c3) = n + length xs + length ys + length zs" "operand_ok (length (m_results c3)) r"
    using k ok2 len by (auto simp: calc_def zs_def calc_ok_def instructions_def Let_def split: option.splits)
  have run: "(case recalc_loop t env sl (xs @ ys @ zs) n rs of
           Inl er \<Rightarrow> eval t env sl (E_Op f x y) = Inl er
         | Inr rs' \<Rightarrow> length rs' = length rs \<and> (\<forall>i < n. rs' ! i = rs ! i) \<and> eval t env sl (E_Op f x y) = Inr (operand_value env rs' r))"
    if L: "length (m_results c3) \<le> length rs" for env sl rs
  proof (cases "recalc_loop t env sl xs n rs")
    case (Inl er)
    have "length (m_results c1) \<le> length rs" using L len struct(5) by simp
    then have "eval t env sl x = Inl er" using Inl by (intro computes_Inl [OF x _ n_def])
    then show ?thesis using Inl by (simp add: recalc_append)
  next
    case (Inr r1)
    have "length (m_results c1) \<le> length rs" using L len struct(5) by simp
    then have 1: "length r1 = length rs" "\<forall>i < n. r1 ! i = rs ! i" "eval t env sl x = Inr (operand_value env r1 a)"
      using Inr computes_Inr [OF x _ n_def] by blast+
    have L2: "length (m_results c2) \<le> length r1" using L len struct(5) 1(1) by simp
    show ?thesis
    proof (cases "recalc_loop t env sl ys (n + length xs) r1")
      case (Inl er)
      then have "eval t env sl y = Inl er" by (intro computes_Inl [OF y L2 len(1) [symmetric]])
      then show ?thesis using Inl Inr 1 by (simp add: recalc_append)
    next
      case (Inr r2)
      then have 2: "length r2 = length r1" "\<forall>i < n + length xs. r2 ! i = r1 ! i" "eval t env sl y = Inr (operand_value env r2 b)"
        using computes_Inr [OF y L2 len(1) [symmetric]] by blast+
      have "operand_ok (length (m_results c1)) a" using x unfolding computes_def by blast
      then have "operand_ok (n + length xs) a" using len(1) by simp
      then have a: "operand_value env r2 a = operand_value env r1 a" using 2(2) by (intro operand_value_cong) auto
      have pre: "recalc_loop t env sl (xs @ ys @ zs) n rs = recalc_loop t env sl zs (n + length xs + length ys) r2"
        using Inr \<open>recalc_loop t env sl xs n rs = Inr r1\<close> by (simp add: recalc_append add.assoc)
      show ?thesis
      proof (cases "map_find (m_op_map t) f")
        case None
        then have "r = Default" "zs = []" using k by (simp_all add: calc_def zs_def)
        then show ?thesis using pre 1 2 None by (simp add: func_of_def operand_value_def)
      next
        case (Some g)
        then have r: "r = Res (n + length xs + length ys)" "zs = [(g, a, b)]" using k len by (auto simp: calc_def zs_def Let_def)
        have "n + length xs + length ys < length r2" using L struct(5) r(2) 1(1) 2(1) by simp
        then show ?thesis using pre 1 2 Some a r
          by (cases "(m_func_vec t ! g) (operand_value env r2 a) (operand_value env r2 b) sl")
            (simp_all add: func_of_def operand_value_def nth_list_update)
      qed
    qed
  qed
  have "computes t (E_Op f x y) c r c3 (xs @ ys @ zs)"
    unfolding computes_def n_def [symmetric] using struct run by auto
  then show ?thesis by blast
qed

lemma compile_computes: "calc_ok c \<Longrightarrow> compile t e c = (r, c') \<Longrightarrow> \<exists>ys. computes t e c r c' ys"
proof (induction t e c arbitrary: r c' rule: compile.induct)
  case (3 t f x y c)
  obtain a c1 where 1: "compile t x c = (a, c1)" by (cases "compile t x c")
  obtain b c2 where 2: "compile t y c1 = (b, c2)" by (cases "compile t y c1")
  obtain xs where x: "computes t x c a c1 xs" using 3(1) [OF 3(3) 1] by blast
  then have "calc_ok c1" by (simp add: computes_def)
  then obtain ys where y: "computes t y c1 b c2 ys" using 3(2) [OF 1 [symmetric] _ 2] by blast
  have "calc t f a b c2 = (r, c')" using 3(4) 1 2 by simp
  then show ?case using computes_op [OF x y] by blast
next
  case (1 t i c)
  then have "computes t (E_Param i) c r c' []" by (auto simp: computes_def operand_value_def)
  then show ?case by blast
next
  case (2 t z c)
  then have "computes t (E_Const z) c r c' []" by (auto simp: computes_def operand_value_def)
  then show ?case by blast
qed

text \<open>
  C7. A formula that is registered operator by operator computes its expression: recalculation goes through the operators in the
  order of their registration, and the parameter that was returned for the whole formula then holds the value of the expression. It fails
  exactly when the evaluation from left to right does, with the same error, and an unknown operator counts as 0.
\<close>

theorem formula_computes_expression:
  "case compile t e new_calculator of (r, c) \<Rightarrow>
     (case recalculate t env c of Inl er \<Rightarrow> Inl er | Inr c' \<Rightarrow> Inr (operand_value env (m_results c') r)) = eval t env False e"
proof -
  obtain r c where c: "compile t e new_calculator = (r, c)" by (cases "compile t e new_calculator")
  have "calc_ok new_calculator" by (simp add: calc_ok_def new_calculator_def)
  then obtain ys where ys: "computes t e new_calculator r c ys" using compile_computes [OF _ c] by blast
  then have "instructions c = ys" "sliding_window_size c = 0" "\<not> m_sloppy c" by (simp_all add: computes_def instructions_def new_calculator_def)
  then have "recalculate t env c = bindr (recalc_loop t env False ys 0 (m_results c)) (\<lambda>rs. Inr (c\<lparr>m_results := rs\<rparr>))"
    by (simp add: recalculate_def instructions_def)
  moreover have "m_results new_calculator = []" by (simp add: new_calculator_def)
  then have n: "0 = length (m_results new_calculator)" by simp
  have "case recalc_loop t env False ys 0 (m_results c) of Inl er \<Rightarrow> eval t env False e = Inl er
      | Inr rs' \<Rightarrow> eval t env False e = Inr (operand_value env rs' r)"
  proof (cases "recalc_loop t env False ys 0 (m_results c)")
    case (Inl er)
    then show ?thesis using computes_Inl [OF ys order_refl n Inl] by simp
  next
    case (Inr rs')
    then show ?thesis using computes_Inr(3) [OF ys order_refl n Inr] by simp
  qed
  ultimately show ?thesis using c by (cases "recalc_loop t env False ys 0 (m_results c)") simp_all
qed

section \<open>The parameters to watch\<close>

text \<open>The parameters that a calculator asks to be called back for: those that its operators use, but not the results.\<close>

definition used_params :: "calculator \<Rightarrow> operand set" where
  "used_params c = {p. operand_used p (m_params c) \<and> (\<forall>i. p \<noteq> Res i)}"

definition watch_ok :: "calculator \<Rightarrow> bool" where
  "watch_ok c \<longleftrightarrow> distinct (input_parameters c) \<and> set (input_parameters c) = used_params c \<and>
     (\<forall>p. operand_used p (m_params c) \<longrightarrow> operand_ok (length (m_results c)) p)"

lemma operand_used_snoc: "operand_used p (ps @ [(a, b)]) \<longleftrightarrow> operand_used p ps \<or> p = a \<or> p = b"
  by (auto simp: operand_used_def)

lemma is_result_ok: "operand_ok (length rs) p \<Longrightarrow> is_result p (rs @ [v]) \<longleftrightarrow> (\<exists>i. p = Res i)"
  by (cases p) (auto simp: is_result_def)

lemma calc_watch:
  assumes "watch_ok c" and "operand_ok (length (m_results c)) a" and "operand_ok (length (m_results c)) b"
  shows "watch_ok (snd (calc t f a b c))"
proof (cases "map_find (m_op_map t) f")
  case (Some g)
  let ?c = "snd (calc t f a b c)"
  let ?a = "(\<forall>i. a \<noteq> Res i) \<and> \<not> operand_used a (m_params c)"
  let ?b = "(\<forall>i. b \<noteq> Res i) \<and> a \<noteq> b \<and> \<not> operand_used b (m_params c)"
  have c: "input_parameters ?c = input_parameters c @ (if ?a then [a] else []) @ (if ?b then [b] else [])"
    "m_params ?c = m_params c @ [(a, b)]" "length (m_results ?c) = Suc (length (m_results c))"
    using Some by (auto simp: calc_def Let_def is_result_ok [OF assms(2)] is_result_ok [OF assms(3)])
  have w: "distinct (input_parameters c)" "set (input_parameters c) = used_params c" using assms(1) by (simp_all add: watch_ok_def)
  have "distinct (input_parameters ?c)" unfolding c(1) using w by (auto simp: used_params_def)
  moreover have "set (input_parameters ?c) = used_params ?c"
    unfolding c(1) used_params_def c(2) operand_used_snoc using w(2) by (auto simp: used_params_def)
  moreover have "operand_ok (length (m_results ?c)) p" if "operand_used p (m_params ?c)" for p
    using that assms operand_ok_mono [of "length (m_results c)" p "length (m_results ?c)"]
    unfolding c(2) operand_used_snoc c(3) watch_ok_def by auto
  ultimately show ?thesis by (simp add: watch_ok_def)
qed (use assms in \<open>simp add: calc_def\<close>)

lemma compile_watch:
  "compile t e c = (r, c') \<Longrightarrow> watch_ok c \<Longrightarrow>
   watch_ok c' \<and> length (m_results c) \<le> length (m_results c') \<and> operand_ok (length (m_results c')) r"
proof (induction t e c arbitrary: r c' rule: compile.induct)
  case (3 t f x y c)
  obtain a c1 where 1: "compile t x c = (a, c1)" by (cases "compile t x c")
  obtain b c2 where 2: "compile t y c1 = (b, c2)" by (cases "compile t y c1")
  have x: "watch_ok c1" "length (m_results c) \<le> length (m_results c1)" "operand_ok (length (m_results c1)) a" using 3(1) [OF 1 3(4)] by simp_all
  have y: "watch_ok c2" "length (m_results c1) \<le> length (m_results c2)" "operand_ok (length (m_results c2)) b" using 3(2) [OF 1 [symmetric] 2 x(1)] by simp_all
  have k: "calc t f a b c2 = (r, c')" using 3(3) 1 2 by simp
  then have "watch_ok c'" using calc_watch [OF y(1) operand_ok_mono [OF x(3) y(2)] y(3), of t f] by simp
  moreover have "length (m_results c2) \<le> length (m_results c')" "operand_ok (length (m_results c')) r"
    using k by (auto simp: calc_def Let_def split: option.splits)
  ultimately show ?case using x(2) y(2) by simp
qed auto

text \<open>
  A calculator asks to be called back once for each parameter and constant that the operators of its formula use, and never for the
  results of operators; registering further formulas keeps it so.
\<close>

theorem watched_once:
  "case compile t e new_calculator of (r, c) \<Rightarrow> case compile t e' c of (r', c') \<Rightarrow>
     distinct (input_parameters c') \<and> set (input_parameters c') = {p. operand_used p (m_params c') \<and> (\<forall>i. p \<noteq> Res i)}"
proof -
  obtain r c where c: "compile t e new_calculator = (r, c)" by (cases "compile t e new_calculator")
  obtain r' c' where c': "compile t e' c = (r', c')" by (cases "compile t e' c")
  have "watch_ok new_calculator" by (simp add: watch_ok_def new_calculator_def used_params_def operand_used_def)
  then have "watch_ok c" using compile_watch [OF c] by blast
  then have "watch_ok c'" using compile_watch [OF c'] by blast
  then show ?thesis using c c' by (simp add: watch_ok_def used_params_def)
qed


section \<open>The sliding window\<close>

definition in_int :: "int \<Rightarrow> bool" where
  "in_int z \<longleftrightarrow> - (2 ^ 31) \<le> z \<and> z < 2 ^ 31"

text \<open>The sums of the first elements, which have to stay in range.\<close>

lemma foldl_sum:
  "foldl (\<lambda>r y. bindr r (\<lambda>s. chk_int (s + y))) r xs = (case r of Inl e \<Rightarrow> Inl e | Inr s \<Rightarrow> foldl (\<lambda>r y. bindr r (\<lambda>s. chk_int (s + y))) (Inr s) xs)"
  by (cases r) (induction xs, simp_all)

lemma foldl_chk:
  assumes "\<forall>k \<le> length xs. in_int (x + sum_list (take k xs))"
  shows "foldl (\<lambda>r y. bindr r (\<lambda>s. chk_int (s + y))) (Inr x) xs = Inr (x + sum_list xs)"
  using assms
proof (induction xs arbitrary: x)
  case (Cons y ys)
  have "in_int (x + y)" using Cons.prems [rule_format, of 1] by simp
  moreover have "\<forall>k \<le> length ys. in_int (x + y + sum_list (take k ys))"
  proof (intro allI impI)
    fix k assume "k \<le> length ys"
    then show "in_int (x + y + sum_list (take k ys))" using Cons.prems [rule_format, of "Suc k"] by (simp add: add.assoc)
  qed
  ultimately show ?case using Cons.IH [of "x + y"] by (simp add: chk_int_def in_int_def add.assoc)
qed simp

text \<open>
  C31. The result of a sliding window whose sums stay in range: for a sum that is not negative it is the average, rounded down. For a
  negative sum it is not, because the division by the unsigned size is unsigned: it is the quotient of the sum plus $2^{64}$, cut to 32 bits.
\<close>

theorem window_average_value:
  assumes "els \<noteq> []" and "\<forall>k \<le> length els. in_int (sum_list (take k els))" and "length els < 2 ^ 31"
  shows "window_average els =
    Inr (if 0 \<le> sum_list els then sum_list els div int (length els)
         else int_of_unsigned ((2 ^ 64 + sum_list els) div int (length els)))"
proof -
  obtain x xs where els: "els = x # xs" using assms(1) by (cases els) auto
  have "\<forall>k \<le> length xs. in_int (x + sum_list (take k xs))"
  proof (intro allI impI)
    fix k assume "k \<le> length xs"
    then show "in_int (x + sum_list (take k xs))" using assms(2) [rule_format, of "Suc k"] els by simp
  qed
  then have w: "window_sum els = Inr (sum_list els)" using els foldl_chk [of xs x] by simp
  have r: "in_int (sum_list els)" using assms(2) [rule_format, of "length els"] by simp
  show ?thesis
  proof (cases "0 \<le> sum_list els")
    case True
    have n: "1 \<le> int (length els)" using els by simp
    have m: "sum_list els mod 2 ^ 64 = sum_list els" using True r by (simp add: in_int_def)
    have "sum_list els div int (length els) \<le> sum_list els" using True using zdiv_mono2 [of "sum_list els" 1 "int (length els)"] n by simp
    moreover have "0 \<le> sum_list els div int (length els)" by (rule pos_imp_zdiv_nonneg_iff [THEN iffD2]) (use True els in simp_all)
    ultimately have "int_of_unsigned (sum_list els div int (length els)) = sum_list els div int (length els)"
      using r by (simp add: int_of_unsigned_def in_int_def Let_def)
    then show ?thesis using w m True by (simp add: window_average_def)
  next
    case False
    then have "sum_list els mod 2 ^ 64 = (2 ^ 64 + sum_list els) mod 2 ^ 64" by simp
    also have "\<dots> = 2 ^ 64 + sum_list els" using False r by (intro mod_pos_pos_trivial) (simp_all add: in_int_def)
    finally have "sum_list els mod 2 ^ 64 = 2 ^ 64 + sum_list els" .
    then show ?thesis using w False by (simp add: window_average_def)
  qed
qed

text \<open>The average of -1, -1 and -1 is 1431655764, not -1.\<close>

theorem window_average_value_witness: "window_average [-1, -1, -1] = Inr 1431655764"
proof -
  have "in_int (sum_list (take k [-1, -1, -1]))" if k: "k \<le> length [-1, -1, -1 :: int]" for k
  proof -
    have "k = 0 \<or> k = 1 \<or> k = 2 \<or> k = 3" using k by auto
    then show ?thesis by (auto simp: in_int_def)
  qed
  then show ?thesis using window_average_value [of "[-1, -1, -1]"] by (simp add: int_of_unsigned_def Let_def)
qed

end
