(* ===== verification/Payload_Queue.thy ===== *)
theory Payload_Queue
  imports GL_Prelude
begin

text \<open>
  The event queue with payloads (\<^verbatim>\<open>gsgpsocket/utils/payload_event_queue.h\<close>): a list of elements in the
  order of their times with a list of free elements, and one SystemC event that is notified for the first of them. In
  the call mode a process of the queue passes every payload to the bound target; in the event mode processes wait for
  the event and ask for the payload. Times and delta counts are numbers; what SystemC's kernel does with the event
  is the step relation below.
\<close>

section \<open>The list in the order of times\<close>

record 'p element =
  el_p :: 'p
  el_t :: nat
  el_d :: nat

record 'p timeorderedlist =
  empties :: "'p element list"
  tl_list :: "'p element list"
  tl_size :: nat

definition timeorderedlist0 :: "'p timeorderedlist" where
  "timeorderedlist0 = \<lparr>empties = [], tl_list = [], tl_size = 0\<rparr>"

text \<open>The search for the place: after all elements that are not later.\<close>

fun el_place :: "'p element \<Rightarrow> 'p element list \<Rightarrow> 'p element list" where
  "el_place e [] = [e]"
| "el_place e (x # xs) = (if el_t x \<le> el_t e then x # el_place e xs else e # x # xs)"

definition tl_insert :: "'p \<Rightarrow> nat \<Rightarrow> nat \<Rightarrow> 'p timeorderedlist \<Rightarrow> 'p timeorderedlist" where
  "tl_insert p t delta l =
     (let es = (if empties l = [] then [\<lparr>el_p = p, el_t = t, el_d = 0\<rparr>] else empties l);
          e = (hd es)\<lparr>el_p := p, el_t := t, el_d := delta\<rparr>
      in l\<lparr>empties := tl es, tl_list := el_place e (tl_list l), tl_size := tl_size l + 1\<rparr>)"

definition delete_top :: "'p timeorderedlist \<Rightarrow> 'p timeorderedlist" where
  "delete_top l =
     (case tl_list l of
        [] \<Rightarrow> l
      | e # es \<Rightarrow> l\<lparr>tl_list := es, empties := e # empties l, tl_size := tl_size l - 1\<rparr>)"

text \<open>The readers dereference the first element, and the second one for the next time.\<close>

definition tl_top :: "'p timeorderedlist \<Rightarrow> 'p element res" where
  "tl_top l = (case tl_list l of [] \<Rightarrow> Inl (Undefined ''null element'') | e # _ \<Rightarrow> Inr e)"

definition next_time :: "'p timeorderedlist \<Rightarrow> nat res" where
  "next_time l = (case tl_list l of _ # e # _ \<Rightarrow> Inr (el_t e) | _ \<Rightarrow> Inl (Undefined ''null element''))"

section \<open>The queue\<close>

text \<open>
  \<open>m_e\<close> lists the times for which the event has been notified since it was last triggered or cancelled. The last two
  fields only record what happened: what the target was given, at what time and whether by a direct call, and the requests with a delay, with
  their times, less those that were cancelled.
\<close>

record 'p peq =
  m_ppq :: "'p timeorderedlist"
  m_e :: "nat list"
  m_delta :: nat
  m_time :: nat
  callMode :: bool
  peq_out :: "('p \<times> nat \<times> bool) list"
  peq_requests :: "('p \<times> nat) list"

definition queued_outputs :: "'p peq \<Rightarrow> ('p \<times> nat) list" where
  "queued_outputs q = map (\<lambda>(p, t, _). (p, t)) (filter (\<lambda>(_, _, direct). \<not> direct) (peq_out q))"

definition new_peq :: "nat \<Rightarrow> bool \<Rightarrow> 'p peq" where
  "new_peq t0 mode = \<lparr>m_ppq = timeorderedlist0, m_e = [], m_delta = 0, m_time = t0, callMode = mode, peq_out = [], peq_requests = []\<rparr>"

definition notify_at :: "nat \<Rightarrow> nat \<Rightarrow> 'p \<Rightarrow> nat \<Rightarrow> 'p peq \<Rightarrow> 'p peq" where
  "notify_at now delta p wh q =
     q\<lparr>m_ppq := tl_insert p (wh + now) delta (m_ppq q), m_e := m_e q @ [now + wh],
       peq_requests := peq_requests q @ [(p, now + wh)]\<rparr>"

text \<open>Without a delay: a call in the call mode, else an immediate notification of the event; the result says
  whether that is made.\<close>

definition notify_now :: "nat \<Rightarrow> nat \<Rightarrow> 'p \<Rightarrow> 'p peq \<Rightarrow> bool \<times> 'p peq" where
  "notify_now now delta p q =
     (if callMode q then (False, q\<lparr>peq_out := peq_out q @ [(p, now, True)]\<rparr>)
      else (True, q\<lparr>m_ppq := tl_insert p now delta (m_ppq q)\<rparr>))"

function cancel_loop :: "'p timeorderedlist \<Rightarrow> 'p timeorderedlist res" where
  "cancel_loop l =
     (if tl_size l > 0
      then (if tl_list l = [] then Inl OutOfFuel else cancel_loop (delete_top l))
      else Inr l)"
  by pat_completeness auto
termination
  by (relation "measure tl_size") (auto simp: delete_top_def split: list.splits)

declare cancel_loop.simps [simp del]

definition cancel_all :: "'p peq \<Rightarrow> 'p peq res" where
  "cancel_all q = bindr (cancel_loop (m_ppq q)) (\<lambda>l. Inr (q\<lparr>m_ppq := l, m_e := [], peq_requests := queued_outputs q\<rparr>))"

subsection \<open>The event mode\<close>

text \<open>The first loop of \<^verbatim>\<open>advance\<close> removes what is overdue and reads the new first time each time.\<close>

function advance_loop :: "nat \<Rightarrow> nat \<Rightarrow> nat \<Rightarrow> 'p peq \<Rightarrow> 'p peq res" where
  "advance_loop now delta tp q =
     (if tp < now
      then (let q' = q\<lparr>m_ppq := delete_top (m_ppq q)\<rparr> in
            case tl_list (m_ppq q') of
              [] \<Rightarrow> Inl (Undefined ''null element'')
            | e # _ \<Rightarrow> advance_loop now delta (el_t e) (q'\<lparr>m_delta := delta\<rparr>))
      else Inr q)"
  by pat_completeness auto
termination
  by (relation "measure (\<lambda>(now, delta, tp, q). length (tl_list (m_ppq q)))")
    (auto simp: delete_top_def split: list.splits)

definition advance :: "nat \<Rightarrow> nat \<Rightarrow> 'p peq \<Rightarrow> 'p peq res" where
  "advance now delta q =
     bindr (tl_top (m_ppq q)) (\<lambda>e.
     let q1 = (if m_time q \<noteq> now then q\<lparr>m_time := now, m_delta := delta\<rparr> else q) in
     bindr (advance_loop now delta (el_t e) q1) (\<lambda>q2.
     if delta > m_delta q2
     then (let q3 = q2\<lparr>m_ppq := delete_top (m_ppq q2)\<rparr> in
           bindr (tl_top (m_ppq q3)) (\<lambda>_. Inr (q3\<lparr>m_delta := delta\<rparr>)))
     else Inr q2))"

definition get_payload :: "nat \<Rightarrow> nat \<Rightarrow> 'p peq \<Rightarrow> ('p \<times> 'p peq) res" where
  "get_payload now delta q = bindr (advance now delta q) (\<lambda>q'. bindr (tl_top (m_ppq q')) (\<lambda>e. Inr (el_p e, q')))"

definition fire_event :: "nat \<Rightarrow> nat \<Rightarrow> 'p peq \<Rightarrow> 'p peq res" where
  "fire_event now delta q =
     bindr (advance now delta q) (\<lambda>q'.
     if tl_size (m_ppq q') > 1
     then bindr (next_time (m_ppq q')) (\<lambda>t. Inr (q'\<lparr>m_e := m_e q' @ [now + (t - now)]\<rparr>))
     else Inr q')"

text \<open>A process that waits for a payload wakes up at the times and deltas of the list; before each, the others
  have changed the queue. \<open>None\<close>: it waits still.\<close>

fun peq_wait :: "'p \<Rightarrow> (nat \<times> nat \<times> ('p peq \<Rightarrow> 'p peq)) list \<Rightarrow> 'p peq \<Rightarrow> 'p peq option res" where
  "peq_wait p [] q = Inr None"
| "peq_wait p ((now, delta, others) # ws) q =
     bindr (get_payload now delta (others q)) (\<lambda>(p', q').
       if p \<noteq> p' then peq_wait p ws q' else Inr (Some q'))"

subsection \<open>The call mode\<close>

text \<open>
  The target that a payload is passed to can call the queue before it returns. What it does may depend on the payload
  and on all that happened before, so it is a function to the list of its calls; a direct call reaches it again, and the
  calls that it makes then stand behind that one in the list.
\<close>

datatype 'p peq_call = Notify_after 'p nat | Notify_direct 'p | Cancel

type_synonym 'p peq_target = "'p \<Rightarrow> 'p peq \<Rightarrow> 'p peq_call list"

fun peq_calls :: "nat \<Rightarrow> nat \<Rightarrow> 'p peq_call list \<Rightarrow> 'p peq \<Rightarrow> 'p peq res" where
  "peq_calls now delta [] q = Inr q"
| "peq_calls now delta (Notify_after p wh # cs) q = peq_calls now delta cs (notify_at now delta p wh q)"
| "peq_calls now delta (Notify_direct p # cs) q = peq_calls now delta cs (snd (notify_now now delta p q))"
| "peq_calls now delta (Cancel # cs) q = bindr (cancel_all q) (peq_calls now delta cs)"

text \<open>
  One turn of the loop of \<^verbatim>\<open>fec\<close>: the first payload is passed on, then what is first is deleted. The
  variables \<^verbatim>\<open>top\<close> and \<^verbatim>\<open>top_delta\<close> are those of the first element whenever the loop tests them.
\<close>

definition pass_top :: "'p peq_target \<Rightarrow> nat \<Rightarrow> nat \<Rightarrow> 'p element \<Rightarrow> 'p peq \<Rightarrow> 'p peq res" where
  "pass_top tgt now delta e q =
     (let q1 = q\<lparr>peq_out := peq_out q @ [(el_p e, now, False)]\<rparr> in
      bindr (peq_calls now delta (tgt (el_p e) q1) q1) (\<lambda>q2. Inr (q2\<lparr>m_ppq := delete_top (m_ppq q2)\<rparr>)))"

lemma bindr_cong [fundef_cong]:
  "m = m' \<Longrightarrow> (\<And>x. m' = Inr x \<Longrightarrow> f x = f' x) \<Longrightarrow> bindr m f = bindr m' f'"
  by (cases m') simp_all

lemma set_el_place [simp]: "set (el_place e xs) = insert e (set xs)"
  by (induction xs) auto

lemma length_el_place [simp]: "length (el_place e xs) = Suc (length xs)"
  by (induction xs) auto

named_theorems tl_simps \<open>the list after an operation\<close>

lemma tl_insert_list [tl_simps]:
  "tl_list (tl_insert p t d l) = el_place \<lparr>el_p = p, el_t = t, el_d = d\<rparr> (tl_list l)"
  "tl_size (tl_insert p t d l) = Suc (tl_size l)"
  by (cases "hd (empties l)"; simp add: tl_insert_def Let_def)+

lemma delete_top_list [tl_simps]:
  "tl_list (delete_top l) = tl (tl_list l)"
  "tl_size (delete_top l) = (if tl_list l = [] then tl_size l else tl_size l - 1)"
  by (simp_all add: delete_top_def split: list.splits)

lemma cancel_loop_list:
  assumes "cancel_loop l = Inr l'"
  shows "tl_size l' = 0 \<and> (\<exists>n. tl_list l' = drop n (tl_list l))"
  using assms
proof (induction l rule: cancel_loop.induct)
  case (1 l)
  show ?case
  proof (cases "tl_size l > 0")
    case True
    with 1(2) have "tl_list l \<noteq> []" "cancel_loop (delete_top l) = Inr l'"
      by (subst (asm) cancel_loop.simps; simp split: if_splits)+
    with 1(1) True show ?thesis by (simp add: tl_simps) (metis drop_Suc)
  next
    case False
    with 1(2) have "l' = l" by (subst (asm) cancel_loop.simps) simp
    with False show ?thesis by (auto intro: exI [of _ 0])
  qed
qed

text \<open>What ends the loop: the elements that calls of the target add carry the present delta.\<close>

definition older :: "nat \<Rightarrow> 'p peq \<Rightarrow> 'p element list" where
  "older delta q = filter (\<lambda>e. el_d e \<noteq> delta) (tl_list (m_ppq q))"

lemma older_place: "el_d e = delta \<Longrightarrow> filter (\<lambda>e. el_d e \<noteq> delta) (el_place e xs) = filter (\<lambda>e. el_d e \<noteq> delta) xs"
  by (induction xs) auto

lemma peq_calls_older:
  assumes "peq_calls now delta cs q = Inr q'"
  shows "\<exists>n. older delta q' = drop n (older delta q)"
  using assms
proof (induction now delta cs q rule: peq_calls.induct)
  case (4 now delta cs q)
  then obtain l where l: "cancel_loop (m_ppq q) = Inr l" "peq_calls now delta cs (q\<lparr>m_ppq := l, m_e := [], peq_requests := queued_outputs q\<rparr>) = Inr q'"
    by (auto simp: cancel_all_def bindr_eq_Inr)
  then obtain n where n: "tl_list l = drop n (tl_list (m_ppq q))" using cancel_loop_list by blast
  have "\<exists>k. filter (\<lambda>e. el_d e \<noteq> delta) (drop n xs) = drop k (filter (\<lambda>e. el_d e \<noteq> delta) xs)" for xs :: "'a element list"
    by (metis append_eq_conv_conj append_take_drop_id filter_append)
  then obtain k where "older delta (q\<lparr>m_ppq := l, m_e := [], peq_requests := queued_outputs q\<rparr>) = drop k (older delta q)"
    using n by (auto simp: older_def)
  moreover obtain j where "older delta q' = drop j (older delta (q\<lparr>m_ppq := l, m_e := [], peq_requests := queued_outputs q\<rparr>))"
    using 4(1) l by (auto simp: cancel_all_def)
  ultimately have "older delta q' = drop (j + k) (older delta q)" by simp
  then show ?case ..
qed (auto simp: notify_at_def notify_now_def older_def tl_simps older_place intro: exI [of _ 0])

lemma peq_calls_front:
  assumes "peq_calls now delta cs q = Inr q'" and "tl_list (m_ppq q) = e # es" and "el_t e = now" and "el_d e \<noteq> delta"
  shows "(\<exists>es'. tl_list (m_ppq q') = e # es') \<or> length (older delta q') < length (older delta q)"
  using assms
proof (induction now delta cs q arbitrary: es rule: peq_calls.induct)
  case (4 now delta cs q)
  then obtain l where l: "cancel_loop (m_ppq q) = Inr l" "peq_calls now delta cs (q\<lparr>m_ppq := l, m_e := [], peq_requests := queued_outputs q\<rparr>) = Inr q'"
    by (auto simp: cancel_all_def bindr_eq_Inr)
  let ?q = "q\<lparr>m_ppq := l, m_e := [], peq_requests := queued_outputs q\<rparr>"
  obtain n where n: "tl_list l = drop n (e # es)" using cancel_loop_list [OF l(1)] 4(3) by auto
  show ?case
  proof (cases n)
    case 0
    with n l 4 show ?thesis by (auto simp: cancel_all_def older_def)
  next
    case (Suc k)
    obtain m where "older delta q' = drop m (older delta ?q)" using peq_calls_older [OF l(2)] by blast
    moreover have "length (filter (\<lambda>e. el_d e \<noteq> delta) (drop k es)) \<le> length (filter (\<lambda>e. el_d e \<noteq> delta) es)"
      by (metis append_take_drop_id filter_append le_add2 length_append)
    ultimately show ?thesis using Suc n 4(3-5) by (auto simp: older_def)
  qed
qed (auto simp: notify_at_def notify_now_def older_def tl_simps older_place split: if_splits)

function fec_loop :: "'p peq_target \<Rightarrow> nat \<Rightarrow> nat \<Rightarrow> 'p peq \<Rightarrow> 'p peq res" where
  "fec_loop tgt now delta q =
     (if tl_size (m_ppq q) > 0
      then bindr (tl_top (m_ppq q)) (\<lambda>e.
        if el_t e = now \<and> delta \<noteq> el_d e
        then bindr (pass_top tgt now delta e q) (\<lambda>q'. fec_loop tgt now delta q')
        else Inr q)
      else Inr q)"
  by pat_completeness auto
termination
proof (relation "measure (\<lambda>(tgt, now, delta, q). length (older delta q))", simp, goal_cases)
  case (1 tgt now delta q e q')
  then obtain es where es: "tl_list (m_ppq q) = e # es" by (auto simp: tl_top_def split: list.splits)
  let ?q1 = "q\<lparr>peq_out := peq_out q @ [(el_p e, now, False)]\<rparr>"
  obtain q2 where q2: "peq_calls now delta (tgt (el_p e) ?q1) ?q1 = Inr q2" "q' = q2\<lparr>m_ppq := delete_top (m_ppq q2)\<rparr>"
    using 1 by (auto simp: pass_top_def Let_def bindr_eq_Inr)
  have tl: "length (older delta q') \<le> length (older delta q2)"
    by (cases "tl_list (m_ppq q2)") (auto simp: q2(2) older_def tl_simps)
  have "older delta ?q1 = older delta q" by (simp add: older_def)
  moreover obtain n where "older delta q2 = drop n (older delta ?q1)" using peq_calls_older [OF q2(1)] by blast
  moreover have "(\<exists>es'. tl_list (m_ppq q2) = e # es') \<or> length (older delta q2) < length (older delta ?q1)"
    using peq_calls_front [OF q2(1)] es 1 by auto
  moreover have "length (older delta q') < length (older delta q2)" if "tl_list (m_ppq q2) = e # es'" for es'
    using that 1 by (simp add: q2(2) older_def tl_simps)
  ultimately have "length (older delta q') < length (older delta q)" using tl by fastforce
  then show ?case by simp
qed

definition fec :: "'p peq_target \<Rightarrow> nat \<Rightarrow> nat \<Rightarrow> 'p peq \<Rightarrow> 'p peq res" where
  "fec tgt now delta q =
     (if tl_size (m_ppq q) = 0 then Inl (AssertFail ''m_ppq.getSize()'') else
      bindr (tl_top (m_ppq q)) (\<lambda>e.
      if el_t e \<noteq> now then Inl (AssertFail ''top==now'') else
      bindr (fec_loop tgt now delta q) (\<lambda>q'.
      if tl_size (m_ppq q') > 0
      then bindr (tl_top (m_ppq q')) (\<lambda>e'. Inr (q'\<lparr>m_e := m_e q' @ [now + (el_t e' - now)]\<rparr>))
      else Inr q')))"

declare advance_loop.simps [simp del] fec_loop.simps [simp del]

section \<open>The list is a stable priority queue\<close>

definition tl_ok :: "'p timeorderedlist \<Rightarrow> bool" where
  "tl_ok l \<longleftrightarrow> tl_size l = length (tl_list l) \<and> sorted (map el_t (tl_list l))"

definition el_pair :: "'p element \<Rightarrow> 'p \<times> nat" where
  "el_pair e = (el_p e, el_t e)"

lemma el_pair_simps [simp]: "snd (el_pair e) = el_t e" "fst (el_pair e) = el_p e"
  by (simp_all add: el_pair_def)

lemma sorted_el_place: "sorted (map el_t xs) \<Longrightarrow> sorted (map el_t (el_place e xs))"
  by (induction xs) auto

lemma el_place_after: "\<forall>x \<in> set xs. el_t x \<le> el_t e \<Longrightarrow> el_place e (xs @ ys) = xs @ el_place e ys"
  by (induction xs) auto

lemma hd_el_place:
  "el_place e xs \<noteq> []" "el_t (hd (el_place e xs)) = (if xs = [] then el_t e else min (el_t e) (el_t (hd xs)))"
  by (cases xs; simp)+

lemma tl_insert_ok: "tl_ok l \<Longrightarrow> tl_ok (tl_insert p t d l)"
  by (simp add: tl_ok_def tl_simps sorted_el_place)

lemma delete_top_ok: "tl_ok l \<Longrightarrow> tl_ok (delete_top l)"
  by (cases "tl_list l") (auto simp: tl_ok_def tl_simps)

text \<open>Placing one more element is one more step of a stable sort of the requests.\<close>

fun place_pair :: "'p \<times> nat \<Rightarrow> ('p \<times> nat) list \<Rightarrow> ('p \<times> nat) list" where
  "place_pair r [] = [r]"
| "place_pair r (x # xs) = (if snd x \<le> snd r then x # place_pair r xs else r # x # xs)"

lemma map_el_place: "map el_pair (el_place e xs) = place_pair (el_pair e) (map el_pair xs)"
  by (induction xs) auto

lemma place_pair_after: "\<forall>x \<in> set xs. snd x \<le> snd r \<Longrightarrow> place_pair r (xs @ ys) = xs @ place_pair r ys"
  by (induction xs) auto

lemma insort_place_comm:
  "sorted (map snd xs) \<Longrightarrow> insort_key snd a (place_pair r xs) = place_pair r (insort_key snd a xs)"
  by (induction xs) auto

lemma sort_key_snoc: "sort_key snd (rs @ [r]) = place_pair r (sort_key snd rs)"
  by (induction rs) (simp_all add: insort_place_comm)

section \<open>What the queue keeps\<close>

declare fec_loop.simps [simp del]

lemma cancel_loop_empties:
  assumes "tl_ok l"
  shows "\<exists>l'. cancel_loop l = Inr l' \<and> tl_list l' = [] \<and> tl_size l' = 0"
  using assms
proof (induction l rule: cancel_loop.induct)
  case (1 l)
  show ?case
  proof (cases "tl_size l > 0")
    case True
    with 1(2) have "tl_list l \<noteq> []" by (auto simp: tl_ok_def)
    with 1 True show ?thesis by (subst cancel_loop.simps) (simp add: delete_top_ok)
  next
    case False
    with 1(2) show ?thesis by (subst cancel_loop.simps) (simp add: tl_ok_def)
  qed
qed

text \<open>
  \<open>es\<close> are the payloads that still have to be passed on: the requests are what has been passed on and then those, in the
  stable order of the times. \<open>calling\<close> is what holds while the target is called, \<open>waiting\<close> when the process of the queue sleeps.
\<close>

definition core :: "nat \<Rightarrow> nat \<Rightarrow> 'p element list \<Rightarrow> 'p peq \<Rightarrow> bool" where
  "core now delta es q \<longleftrightarrow> callMode q \<and> sorted (map el_t es)
     \<and> (\<forall>e \<in> set es. now \<le> el_t e \<and> el_d e \<le> delta) \<and> (\<forall>r \<in> set (queued_outputs q). snd r \<le> now)
     \<and> queued_outputs q @ map el_pair es = sort_key snd (peq_requests q)"

definition calling :: "nat \<Rightarrow> 'p element list \<Rightarrow> 'p peq \<Rightarrow> bool" where
  "calling delta es q \<longleftrightarrow> set (m_e q) \<subseteq> el_t ` {e \<in> set es. el_d e = delta}"

definition waiting :: "'p element list \<Rightarrow> 'p peq \<Rightarrow> bool" where
  "waiting es q \<longleftrightarrow> (if es = [] then m_e q = [] else el_t (hd es) \<in> set (m_e q) \<and> (\<forall>t \<in> set (m_e q). el_t (hd es) \<le> t))"

definition holds_list :: "'p element list \<Rightarrow> 'p peq \<Rightarrow> bool" where
  "holds_list es q \<longleftrightarrow> tl_list (m_ppq q) = es \<and> tl_size (m_ppq q) = length es"

lemma core_notify:
  assumes "core now delta es q"
  shows "core now delta (el_place \<lparr>el_p = p, el_t = wh + now, el_d = delta\<rparr> es) (notify_at now delta p wh q)"
proof -
  let ?e = "\<lparr>el_p = p, el_t = wh + now, el_d = delta\<rparr>" and ?q = "notify_at now delta p wh q"
  have out: "queued_outputs ?q = queued_outputs q" by (simp add: queued_outputs_def notify_at_def)
  have "sort_key snd (peq_requests ?q) = place_pair (p, now + wh) (queued_outputs q @ map el_pair es)"
    using assms by (simp add: sort_key_snoc core_def notify_at_def)
  also have "\<dots> = queued_outputs q @ place_pair (el_pair ?e) (map el_pair es)"
    using assms by (subst place_pair_after) (auto simp: core_def el_pair_def add.commute)
  finally have "queued_outputs ?q @ map el_pair (el_place ?e es) = sort_key snd (peq_requests ?q)"
    by (simp only: out map_el_place)
  then show ?thesis using assms out by (auto simp: core_def sorted_el_place notify_at_def)
qed

lemma core_cancel: "core now delta es q \<Longrightarrow> core now delta [] (q\<lparr>m_ppq := l, m_e := [], peq_requests := queued_outputs q\<rparr>)"
proof -
  assume core: "core now delta es q"
  have "sorted (map snd (queued_outputs q @ map el_pair es))" using core by (simp add: core_def)
  then have "sort_key snd (queued_outputs q) = queued_outputs q" by (simp add: sorted_append sort_key_id_if_sorted)
  then show ?thesis using core by (simp add: core_def queued_outputs_def)
qed

lemma core_direct:
  "core now delta es q \<Longrightarrow> core now delta es (snd (notify_now now delta p q))"
  by (auto simp: core_def notify_now_def queued_outputs_def)

lemma direct_frame:
  "callMode q \<Longrightarrow> m_ppq (snd (notify_now now delta p q)) = m_ppq q \<and> m_e (snd (notify_now now delta p q)) = m_e q
    \<and> peq_out (snd (notify_now now delta p q)) = peq_out q @ [(p, now, True)]"
  by (simp add: notify_now_def)

lemma cancel_all_empties:
  assumes "holds_list es q" and "core now delta es q"
  obtains q' where "cancel_all q = Inr q'" and "core now delta [] q'" and "holds_list [] q'" and "m_e q' = []"
    and "peq_out q' = peq_out q"
proof -
  have "tl_ok (m_ppq q)" using assms by (simp add: tl_ok_def holds_list_def core_def)
  then obtain l where l: "cancel_loop (m_ppq q) = Inr l" "tl_list l = []" "tl_size l = 0" using cancel_loop_empties by blast
  then show ?thesis using that [of "q\<lparr>m_ppq := l, m_e := [], peq_requests := queued_outputs q\<rparr>"] core_cancel [OF assms(2)]
    by (simp add: cancel_all_def holds_list_def)
qed

section \<open>One run of the call mode's process\<close>

text \<open>The calls of a target that notifies nothing with a delay once it has cancelled all.\<close>

fun delayed_call :: "'p peq_call \<Rightarrow> bool" where
  "delayed_call (Notify_after p wh) = True"
| "delayed_call c = False"

fun cancels_last :: "'p peq_call list \<Rightarrow> bool" where
  "cancels_last [] = True"
| "cancels_last (Cancel # cs) = list_all (\<lambda>c. \<not> delayed_call c) cs"
| "cancels_last (c # cs) = cancels_last cs"

lemma calls_when_empty:
  assumes "core now delta [] q" and "holds_list [] q" and "m_e q = []" and "list_all (\<lambda>c. \<not> delayed_call c) cs"
  shows "\<exists>q'. peq_calls now delta cs q = Inr q' \<and> core now delta [] q' \<and> holds_list [] q' \<and> m_e q' = []
    \<and> length (peq_out q) \<le> length (peq_out q')"
  using assms
proof (induction now delta cs q rule: peq_calls.induct)
  case (3 now delta p cs q)
  then have "callMode q" by (simp add: core_def)
  note d = direct_frame [OF this, of now delta p]
  have "\<exists>q'. peq_calls now delta cs (snd (notify_now now delta p q)) = Inr q' \<and> core now delta [] q' \<and> holds_list [] q'
      \<and> m_e q' = [] \<and> length (peq_out (snd (notify_now now delta p q))) \<le> length (peq_out q')"
    using 3 d by (intro 3(1)) (simp_all add: core_direct holds_list_def)
  then show ?case using d by auto
next
  case (4 now delta cs q)
  obtain q1 where q1: "cancel_all q = Inr q1" "core now delta [] q1" "holds_list [] q1" "m_e q1 = []" "peq_out q1 = peq_out q"
    by (rule cancel_all_empties [OF 4(3,2)])
  have "\<exists>q'. peq_calls now delta cs q1 = Inr q' \<and> core now delta [] q' \<and> holds_list [] q'
      \<and> m_e q' = [] \<and> length (peq_out q1) \<le> length (peq_out q')"
    using 4(5) q1(2-4) by (intro 4(1)) simp_all
  then show ?case using q1 by simp
qed simp_all

text \<open>While the target is called, the payload that it was given is still the first of the list.\<close>

lemma calls_behind_first:
  assumes "core now delta es q" and "holds_list (e # es) q" and "calling delta es q" and "el_t e = now" and "cancels_last cs"
  shows "\<exists>q' es'. peq_calls now delta cs q = Inr q' \<and> core now delta es' q' \<and> calling delta es' q'
    \<and> (holds_list (e # es') q' \<or> es' = [] \<and> holds_list [] q') \<and> length (peq_out q) \<le> length (peq_out q')"
  using assms
proof (induction now delta cs q arbitrary: es rule: peq_calls.induct)
  case (2 now delta p wh cs q)
  let ?e = "\<lparr>el_p = p, el_t = wh + now, el_d = delta\<rparr>" and ?q = "notify_at now delta p wh q"
  have "calling delta (el_place ?e es) ?q"
    using 2(4) by (auto simp: calling_def notify_at_def add.commute intro: image_eqI [of _ el_t ?e])
  moreover have "holds_list (e # el_place ?e es) ?q"
    using 2(3,5) by (simp add: holds_list_def notify_at_def tl_simps)
  moreover have "core now delta (el_place ?e es) ?q" by (rule core_notify [OF 2(2)])
  ultimately have "\<exists>q' es'. peq_calls now delta cs ?q = Inr q' \<and> core now delta es' q' \<and> calling delta es' q'
      \<and> (holds_list (e # es') q' \<or> es' = [] \<and> holds_list [] q') \<and> length (peq_out ?q) \<le> length (peq_out q')"
    using 2(5,6) by (intro 2(1)) simp_all
  then show ?case by (simp add: notify_at_def)
next
  case (3 now delta p cs q)
  then have "callMode q" by (simp add: core_def)
  note d = direct_frame [OF this, of now delta p]
  have "\<exists>q' es'. peq_calls now delta cs (snd (notify_now now delta p q)) = Inr q' \<and> core now delta es' q' \<and> calling delta es' q'
      \<and> (holds_list (e # es') q' \<or> es' = [] \<and> holds_list [] q')
      \<and> length (peq_out (snd (notify_now now delta p q))) \<le> length (peq_out q')"
    using 3 d by (intro 3(1) [of es]) (simp_all add: core_direct holds_list_def calling_def)
  then show ?case using d by (auto dest: Suc_leD)
next
  case (4 now delta cs q)
  have "tl_ok (m_ppq q)" using 4(2,3,5) by (auto simp: core_def holds_list_def tl_ok_def)
  then obtain l where l: "cancel_loop (m_ppq q) = Inr l" "tl_list l = []" "tl_size l = 0" using cancel_loop_empties by blast
  let ?q = "q\<lparr>m_ppq := l, m_e := [], peq_requests := queued_outputs q\<rparr>"
  have "\<exists>q'. peq_calls now delta cs ?q = Inr q' \<and> core now delta [] q' \<and> holds_list [] q' \<and> m_e q' = []
      \<and> length (peq_out ?q) \<le> length (peq_out q')"
    using 4(6) l core_cancel [OF 4(2), of l] by (intro calls_when_empty) (simp_all add: holds_list_def)
  then show ?case using l by (fastforce simp: cancel_all_def calling_def)
qed auto

lemma pass_top_keeps:
  assumes "core now delta (e # es) q" and "holds_list (e # es) q" and "calling delta (e # es) q"
    and "el_t e = now" and "el_d e \<noteq> delta" and "\<And>p q. cancels_last (tgt p q)"
  shows "\<exists>q' es'. pass_top tgt now delta e q = Inr q' \<and> core now delta es' q' \<and> calling delta es' q' \<and> holds_list es' q'
    \<and> length (peq_out q) < length (peq_out q')"
proof -
  let ?q1 = "q\<lparr>peq_out := peq_out q @ [(el_p e, now, False)]\<rparr>"
  have "core now delta es ?q1" using assms(1,4) by (auto simp: core_def queued_outputs_def el_pair_def)
  moreover have "calling delta es ?q1" using assms(3,5) by (auto simp: calling_def)
  moreover have "holds_list (e # es) ?q1" using assms(2) by (simp add: holds_list_def)
  ultimately obtain q2 es' where q2: "peq_calls now delta (tgt (el_p e) ?q1) ?q1 = Inr q2" "core now delta es' q2"
      "calling delta es' q2" "holds_list (e # es') q2 \<or> es' = [] \<and> holds_list [] q2" "length (peq_out ?q1) \<le> length (peq_out q2)"
    using calls_behind_first [of now delta es ?q1 e "tgt (el_p e) ?q1"] assms(4,6) by blast
  have "core now delta es' (q2\<lparr>m_ppq := delete_top (m_ppq q2)\<rparr>)" "calling delta es' (q2\<lparr>m_ppq := delete_top (m_ppq q2)\<rparr>)"
    using q2(2,3) by (simp_all add: core_def calling_def queued_outputs_def)
  moreover have "holds_list es' (q2\<lparr>m_ppq := delete_top (m_ppq q2)\<rparr>)"
    using q2(4) by (auto simp: holds_list_def tl_simps)
  ultimately show ?thesis using q2(1,5) by (auto simp: pass_top_def Let_def)
qed

lemma fec_loop_keeps:
  assumes "core now delta es q" and "holds_list es q" and "calling delta es q" and "\<And>p q. cancels_last (tgt p q)"
  shows "\<exists>q' es'. fec_loop tgt now delta q = Inr q' \<and> core now delta es' q' \<and> calling delta es' q' \<and> holds_list es' q'
    \<and> length (peq_out q) + (if es \<noteq> [] \<and> el_t (hd es) = now \<and> el_d (hd es) \<noteq> delta then 1 else 0) \<le> length (peq_out q')"
  using assms
proof (induction tgt now delta q arbitrary: es rule: fec_loop.induct)
  case (1 tgt now delta q)
  show ?case
  proof (cases es)
    case Nil
    then show ?thesis using 1(2-) by (subst fec_loop.simps) (auto simp: holds_list_def)
  next
    case (Cons e es1)
    then have top: "tl_size (m_ppq q) > 0" "tl_top (m_ppq q) = Inr e" using 1(3) by (simp_all add: holds_list_def tl_top_def)
    show ?thesis
    proof (cases "el_t e = now \<and> delta \<noteq> el_d e")
      case True
      then obtain q1 es' where q1: "pass_top tgt now delta e q = Inr q1" "core now delta es' q1" "calling delta es' q1"
          "holds_list es' q1" "length (peq_out q) < length (peq_out q1)"
        using pass_top_keeps [of now delta e es1 q tgt] 1(2-5) Cons by metis
      obtain q' es'' where "fec_loop tgt now delta q1 = Inr q'" "core now delta es'' q'" "calling delta es'' q'" "holds_list es'' q'"
          "length (peq_out q1) \<le> length (peq_out q')"
        using 1(1) [OF top True q1(1,2,4,3) 1(5)] by force
      then show ?thesis using top True q1(1,5) by (subst fec_loop.simps) auto
    next
      case False
      then show ?thesis using top 1(2-4) Cons by (subst fec_loop.simps) (auto intro!: exI [of _ es])
    qed
  qed
qed

lemma fec_keeps:
  assumes "core now delta es q" and "holds_list es q" and "calling delta es q" and "\<And>p q. cancels_last (tgt p q)"
    and "es \<noteq> []" and "el_t (hd es) = now" and "el_d (hd es) \<noteq> delta"
  shows "\<exists>q' es'. fec tgt now delta q = Inr q' \<and> core now delta es' q' \<and> holds_list es' q' \<and> waiting es' q'
    \<and> length (peq_out q) < length (peq_out q')"
proof -
  obtain q1 es' where q1: "fec_loop tgt now delta q = Inr q1" "core now delta es' q1" "calling delta es' q1" "holds_list es' q1"
      "length (peq_out q) < length (peq_out q1)"
    using fec_loop_keeps [OF assms(1-4)] assms(5-7) by force
  have top: "tl_size (m_ppq q) > 0" "tl_top (m_ppq q) = Inr (hd es)"
    using assms(2,5) by (cases es; simp add: holds_list_def tl_top_def)+
  show ?thesis
  proof (cases es')
    case Nil
    then show ?thesis using q1 top assms(6) by (auto simp: fec_def holds_list_def calling_def waiting_def)
  next
    case (Cons e' es2)
    have "now \<le> el_t e'" "\<forall>e \<in> set es'. el_t e' \<le> el_t e" using q1(2) Cons by (auto simp: core_def)
    moreover have "fec tgt now delta q = Inr (q1\<lparr>m_e := m_e q1 @ [now + (el_t e' - now)]\<rparr>)"
      using q1(1,4) top assms(6) Cons by (simp add: fec_def holds_list_def tl_top_def)
    moreover have "core now delta es' (q1\<lparr>m_e := m_e q1 @ [now + (el_t e' - now)]\<rparr>)"
      using q1(2) by (simp add: core_def queued_outputs_def)
    ultimately show ?thesis using q1(3-5) Cons
      by (intro exI [of _ "q1\<lparr>m_e := m_e q1 @ [now + (el_t e' - now)]\<rparr>"] exI [of _ es'])
        (auto simp: holds_list_def waiting_def calling_def)
  qed
qed

section \<open>The queue under SystemC's kernel\<close>

text \<open>
  The steps of a simulation with a queue in the call mode. Other processes notify with a delay, call the target directly, or cancel,
  at any moment. The kernel goes to the next delta, with a new count, at the same time or at a later time, not past a
  notification of the event, and not while the process of the queue is to run: it is, \<open>due\<close>, when the time of the earliest
  notification has come; a cancel then does not take that back, and \<open>spoiled\<close> records it. \<open>T\<close> holds all that the target may do when
  it is called.
\<close>

record 'p peq_sys =
  sq :: "'p peq"
  peq_now :: nat
  peq_delta :: nat
  due :: bool
  spoiled :: bool

definition start_peq :: "nat \<Rightarrow> 'p peq_sys" where
  "start_peq t0 = \<lparr>sq = new_peq t0 True, peq_now = 0, peq_delta = 0, due = False, spoiled = False\<rparr>"

definition to_time :: "nat \<Rightarrow> 'p peq_sys \<Rightarrow> 'p peq_sys" where
  "to_time t s =
     (let hit = (t \<in> set (m_e (sq s))) in
      s\<lparr>peq_now := t, peq_delta := peq_delta s + 1, due := hit, sq := (sq s)\<lparr>m_e := (if hit then [] else m_e (sq s))\<rparr>\<rparr>)"

inductive peq_step :: "'p peq_target set \<Rightarrow> 'p peq_sys \<Rightarrow> 'p peq_sys \<Rightarrow> bool" for T where
  Call: "peq_calls (peq_now s) (peq_delta s) [c] (sq s) = Inr q \<Longrightarrow>
     peq_step T s (s\<lparr>sq := q, spoiled := (spoiled s \<or> due s \<and> c = Cancel)\<rparr>)"
| Kernel: "\<not> due s \<Longrightarrow> peq_now s \<le> t \<Longrightarrow> \<forall>t' \<in> set (m_e (sq s)). t \<le> t' \<Longrightarrow> peq_step T s (to_time t s)"
| Run: "due s \<Longrightarrow> tgt \<in> T \<Longrightarrow> fec tgt (peq_now s) (peq_delta s) (sq s) = Inr q \<Longrightarrow>
     peq_step T s (s\<lparr>sq := q, due := False, spoiled := False\<rparr>)"

definition peq_reaches :: "'p peq_target set \<Rightarrow> 'p peq_sys \<Rightarrow> 'p peq_sys \<Rightarrow> bool" where
  "peq_reaches T = (peq_step T)\<^sup>*\<^sup>*"

text \<open>When the process is to run: its first payload has come due and was queued before, unless all was cancelled since; then
  all that is in the queue was queued in the present delta.\<close>

definition event_ok :: "'p element list \<Rightarrow> 'p peq_sys \<Rightarrow> bool" where
  "event_ok es s \<longleftrightarrow>
     (if due s \<and> \<not> spoiled s
      then es \<noteq> [] \<and> el_t (hd es) = peq_now s \<and> el_d (hd es) < peq_delta s \<and> calling (peq_delta s) es (sq s)
      else waiting es (sq s) \<and> (due s \<longrightarrow> (\<forall>e \<in> set es. el_d e = peq_delta s)))
     \<and> (spoiled s \<longrightarrow> due s)"

definition peq_ok :: "'p peq_sys \<Rightarrow> bool" where
  "peq_ok s \<longleftrightarrow> (\<exists>es. core (peq_now s) (peq_delta s) es (sq s) \<and> holds_list es (sq s) \<and> event_ok es s)"

lemmas event_simps = event_ok_def calling_def waiting_def

lemma start_peq_ok: "peq_ok (start_peq t0)"
  by (simp add: peq_ok_def start_peq_def new_peq_def timeorderedlist0_def queued_outputs_def event_simps core_def holds_list_def)

lemma event_notify:
  assumes "event_ok es s" and "core (peq_now s) (peq_delta s) es (sq s)"
  shows "event_ok (el_place \<lparr>el_p = p, el_t = wh + peq_now s, el_d = peq_delta s\<rparr> es)
    (s\<lparr>sq := notify_at (peq_now s) (peq_delta s) p wh (sq s)\<rparr>)"
proof (cases "due s \<and> \<not> spoiled s")
  case True
  let ?e = "\<lparr>el_p = p, el_t = wh + peq_now s, el_d = peq_delta s\<rparr>"
  from True assms(1) have "es \<noteq> []" "el_t (hd es) = peq_now s" by (auto simp: event_ok_def)
  then have "hd (el_place ?e es) = hd es" by (cases es) auto
  then show ?thesis using True assms(1) by (auto simp: event_simps hd_el_place(1) notify_at_def add.commute intro: image_eqI [of _ el_t ?e])
next
  case False
  then show ?thesis using assms(1)
    by (auto simp: event_simps notify_at_def hd_el_place min_def add.commute split: if_splits)
qed

lemma call_ok:
  assumes "peq_ok s" and "peq_calls (peq_now s) (peq_delta s) [c] (sq s) = Inr q"
  shows "peq_ok (s\<lparr>sq := q, spoiled := (spoiled s \<or> due s \<and> c = Cancel)\<rparr>)"
proof -
  from assms(1) obtain es where es: "core (peq_now s) (peq_delta s) es (sq s)" "holds_list es (sq s)" "event_ok es s"
    by (auto simp: peq_ok_def)
  show ?thesis
  proof (cases c)
    case (Notify_after p wh)
    let ?es = "el_place \<lparr>el_p = p, el_t = wh + peq_now s, el_d = peq_delta s\<rparr> es"
    have "core (peq_now s) (peq_delta s) ?es q" "holds_list ?es q" "event_ok ?es (s\<lparr>sq := q\<rparr>)"
      using core_notify [OF es(1), of p wh] es(2) event_notify [OF es(3,1), of p wh] assms(2) Notify_after
      by (simp_all add: holds_list_def) (auto simp: notify_at_def tl_simps)
    then show ?thesis using Notify_after by (auto simp: peq_ok_def event_ok_def intro!: exI [of _ ?es] split: if_splits)
  next
    case (Notify_direct p)
    have "callMode (sq s)" using es(1) by (simp add: core_def)
    then have "core (peq_now s) (peq_delta s) es q" "m_ppq q = m_ppq (sq s)" "m_e q = m_e (sq s)"
      using core_direct [OF es(1), of p] direct_frame [of "sq s" "peq_now s" "peq_delta s" p] assms(2) Notify_direct by simp_all
    then show ?thesis using es(2,3) Notify_direct by (auto simp: peq_ok_def event_simps holds_list_def intro!: exI [of _ es] split: if_splits)
  next
    case Cancel
    obtain q' where "cancel_all (sq s) = Inr q'" "core (peq_now s) (peq_delta s) [] q'" "holds_list [] q'" "m_e q' = []"
      by (rule cancel_all_empties [OF es(2,1)])
    then show ?thesis using assms(2) es(3) Cancel by (auto simp: peq_ok_def event_simps intro!: exI [of _ "[]"] split: if_splits)
  qed
qed

lemma to_time_ok:
  assumes "peq_ok s" and "\<not> due s" and "peq_now s \<le> t" and "\<forall>t' \<in> set (m_e (sq s)). t \<le> t'"
  shows "peq_ok (to_time t s)"
proof -
  from assms(1) obtain es where es: "core (peq_now s) (peq_delta s) es (sq s)" "holds_list es (sq s)" "event_ok es s"
    by (auto simp: peq_ok_def)
  have w: "waiting es (sq s)" "\<not> spoiled s" using es(3) assms(2) by (auto simp: event_ok_def)
  have later: "\<forall>e \<in> set es. t \<le> el_t e"
  proof (cases es)
    case (Cons e es')
    with w assms(4) have "t \<le> el_t e" by (simp add: waiting_def)
    then show ?thesis using es(1) Cons by (auto simp: core_def intro: le_trans)
  qed simp
  have hit: "es \<noteq> [] \<and> el_t (hd es) = t \<and> el_d (hd es) < Suc (peq_delta s)" if "t \<in> set (m_e (sq s))"
    using that w assms(4) es(1) by (cases es) (auto simp: waiting_def core_def le_antisym)
  have "queued_outputs (sq (to_time t s)) = queued_outputs (sq s)" by (simp add: to_time_def queued_outputs_def Let_def)
  then have "core t (Suc (peq_delta s)) es (sq (to_time t s))"
    using es(1) later assms(3) by (auto simp: core_def to_time_def Let_def le_Suc_eq intro: le_trans)
  moreover have "event_ok es (to_time t s)" using hit w by (auto simp: event_simps to_time_def Let_def)
  ultimately show ?thesis using es(2) by (auto simp: peq_ok_def holds_list_def to_time_def Let_def)
qed

lemma due_run:
  assumes "peq_ok s" and "due s" and "\<not> spoiled s" and "\<And>p q. cancels_last (tgt p q)"
  shows "\<exists>q. fec tgt (peq_now s) (peq_delta s) (sq s) = Inr q \<and> peq_ok (s\<lparr>sq := q, due := False, spoiled := False\<rparr>)
    \<and> length (peq_out (sq s)) < length (peq_out q)"
proof -
  from assms(1) obtain es where es: "core (peq_now s) (peq_delta s) es (sq s)" "holds_list es (sq s)" "event_ok es s"
    by (auto simp: peq_ok_def)
  have c: "calling (peq_delta s) es (sq s)" "es \<noteq> []" "el_t (hd es) = peq_now s" "el_d (hd es) \<noteq> peq_delta s"
    using es(3) assms(2,3) by (auto simp: event_ok_def)
  from fec_keeps [where tgt = tgt, OF es(1,2) c(1) assms(4) c(2-4)]
  obtain q es' where r: "fec tgt (peq_now s) (peq_delta s) (sq s) = Inr q" "core (peq_now s) (peq_delta s) es' q" "holds_list es' q"
      "waiting es' q" "length (peq_out (sq s)) < length (peq_out q)"
    by (elim exE conjE)
  have "event_ok es' (s\<lparr>sq := q, due := False, spoiled := False\<rparr>)" using r(4) by (simp add: event_ok_def)
  then have "peq_ok (s\<lparr>sq := q, due := False, spoiled := False\<rparr>)"
    unfolding peq_ok_def using r(2,3) by (intro exI [of _ es']) simp
  with r(1,5) show ?thesis by blast
qed

text \<open>After a cancel the process finds nothing, or only what was queued in the present delta.\<close>

lemma spoiled_run:
  assumes "core now delta es q" and "holds_list es q" and "\<forall>e \<in> set es. el_d e = delta"
  shows "fec tgt now delta q =
    (if es = [] then Inl (AssertFail ''m_ppq.getSize()'')
     else if el_t (hd es) \<noteq> now then Inl (AssertFail ''top==now'')
     else Inr (q\<lparr>m_e := m_e q @ [now]\<rparr>))"
  using assms
  by (cases es) (auto simp: fec_def fec_loop.simps holds_list_def tl_top_def)

lemma run_ok:
  assumes "peq_ok s" and "due s" and "\<And>p q. cancels_last (tgt p q)" and "fec tgt (peq_now s) (peq_delta s) (sq s) = Inr q"
  shows "peq_ok (s\<lparr>sq := q, due := False, spoiled := False\<rparr>)"
proof (cases "spoiled s")
  case True
  from assms(1) obtain es where es: "core (peq_now s) (peq_delta s) es (sq s)" "holds_list es (sq s)" "event_ok es s"
    by (auto simp: peq_ok_def)
  with True have w: "waiting es (sq s)" "\<forall>e \<in> set es. el_d e = peq_delta s" by (auto simp: event_ok_def)
  have "es \<noteq> []" "el_t (hd es) = peq_now s" "q = (sq s)\<lparr>m_e := m_e (sq s) @ [peq_now s]\<rparr>"
    using spoiled_run [OF es(1,2) w(2), of tgt] assms(4) by (simp_all split: if_splits)
  then show ?thesis using es w
    by (auto simp: peq_ok_def core_def holds_list_def event_simps queued_outputs_def intro!: exI [of _ es])
next
  case False
  then show ?thesis using due_run [OF assms(1,2) False, of tgt] assms(3,4) by auto
qed

lemma peq_step_ok:
  "peq_step T s s' \<Longrightarrow> \<forall>tgt \<in> T. \<forall>p q. cancels_last (tgt p q) \<Longrightarrow> peq_ok s \<Longrightarrow> peq_ok s'"
  by (induction rule: peq_step.induct) (blast intro: call_ok to_time_ok run_ok)+

lemma peq_reaches_ok:
  "peq_reaches T (start_peq t0) s \<Longrightarrow> \<forall>tgt \<in> T. \<forall>p q. cancels_last (tgt p q) \<Longrightarrow> peq_ok s"
  unfolding peq_reaches_def by (induction rule: rtranclp_induct) (auto simp: start_peq_ok intro: peq_step_ok)

section \<open>Properties\<close>

text \<open>C32. In the call mode, whatever the other processes call, however the kernel advances and whatever the target calls from inside,
  if only it notifies nothing with a delay after it has cancelled all in the same call: the payloads passed on so far and then those in the
  queue are the requests that were not cancelled, in the stable order of their times, each passed on at exactly its time, and none in the
  queue is overdue. Whenever the queue's process is to run and nothing was cancelled since its event was triggered, it passes on at
  least one payload and no assertion fails; if all was cancelled since, its assertions fail unless a payload without any delay has been
  queued again, which it leaves for the next delta. Whenever payloads wait, the kernel can advance to the time at which the process runs.\<close>

theorem payload_queue_delivers:
  assumes "peq_reaches T (start_peq t0) s" and "\<forall>tgt \<in> T. \<forall>p q. cancels_last (tgt p q)"
  defines "es \<equiv> tl_list (m_ppq (sq s))"
  shows "queued_outputs (sq s) @ map el_pair es = sort_key snd (peq_requests (sq s))
    \<and> (\<forall>e \<in> set es. peq_now s \<le> el_t e)
    \<and> (due s \<and> \<not> spoiled s \<longrightarrow>
        (\<forall>tgt \<in> T. \<exists>q. fec tgt (peq_now s) (peq_delta s) (sq s) = Inr q \<and> length (peq_out (sq s)) < length (peq_out q)))
    \<and> (due s \<and> spoiled s \<longrightarrow>
        (\<forall>tgt. fec tgt (peq_now s) (peq_delta s) (sq s) =
          (if es = [] then Inl (AssertFail ''m_ppq.getSize()'')
           else if el_t (hd es) \<noteq> peq_now s then Inl (AssertFail ''top==now'')
           else Inr ((sq s)\<lparr>m_e := m_e (sq s) @ [peq_now s]\<rparr>))))
    \<and> (es \<noteq> [] \<and> \<not> due s \<longrightarrow> (\<exists>t. peq_step T s (to_time t s) \<and> due (to_time t s)))"
proof -
  have ok: "peq_ok s" by (rule peq_reaches_ok [OF assms(1,2)])
  then have core: "core (peq_now s) (peq_delta s) es (sq s)" and lst: "holds_list es (sq s)" and ev: "event_ok es s"
    unfolding es_def by (auto simp: peq_ok_def holds_list_def)
  have "\<exists>t. peq_step T s (to_time t s) \<and> due (to_time t s)" if "es \<noteq> []" "\<not> due s"
  proof -
    have "el_t (hd es) \<in> set (m_e (sq s))" "\<forall>t' \<in> set (m_e (sq s)). el_t (hd es) \<le> t'" "peq_now s \<le> el_t (hd es)"
      using ev core that by (auto simp: event_ok_def waiting_def core_def)
    then have "peq_step T s (to_time (el_t (hd es)) s)" and "due (to_time (el_t (hd es)) s)"
      using that(2) by (blast intro: peq_step.Kernel, simp add: to_time_def Let_def)
    then show ?thesis by blast
  qed
  moreover have "\<exists>q. fec tgt (peq_now s) (peq_delta s) (sq s) = Inr q \<and> length (peq_out (sq s)) < length (peq_out q)"
    if "due s" "\<not> spoiled s" "tgt \<in> T" for tgt
    using due_run [OF ok that(1,2), of tgt] assms(2) that(3) by blast
  moreover have "fec tgt (peq_now s) (peq_delta s) (sq s) =
          (if es = [] then Inl (AssertFail ''m_ppq.getSize()'')
           else if el_t (hd es) \<noteq> peq_now s then Inl (AssertFail ''top==now'')
           else Inr ((sq s)\<lparr>m_e := m_e (sq s) @ [peq_now s]\<rparr>))" if "due s" "spoiled s" for tgt
    using ev that by (intro spoiled_run [OF core lst]) (simp add: event_ok_def)
  ultimately show ?thesis using core by (simp add: core_def)
qed

text \<open>A target that sends each payload on to itself two units later, and gives up everything at the payload 0.\<close>

definition sample_target :: "int peq_target" where
  "sample_target p q = (if p = 0 then [Cancel] else [Notify_after (p - 1) 2])"

lemma sample_peq_reached:
  "peq_reaches {sample_target} (start_peq 0) (to_time 2 ((start_peq 0)\<lparr>sq := notify_at 0 0 7 2 (sq (start_peq 0))\<rparr>))"
proof -
  let ?s = "(start_peq 0)\<lparr>sq := notify_at 0 0 (7::int) 2 (sq (start_peq 0))\<rparr>"
  have "peq_step {sample_target} (start_peq 0) ?s"
    using peq_step.Call [of "start_peq 0" "Notify_after (7::int) 2" _ "{sample_target}"] by (simp add: start_peq_def)
  moreover have "peq_step {sample_target} ?s (to_time 2 ?s)"
    by (rule peq_step.Kernel) (simp_all add: start_peq_def notify_at_def new_peq_def)
  ultimately show ?thesis unfolding peq_reaches_def by (meson rtranclp.rtrancl_into_rtrancl rtranclp.rtrancl_refl)
qed

lemma payload_queue_delivers_witness:
  "\<exists>q. fec sample_target 2 1 (sq (to_time 2 ((start_peq 0)\<lparr>sq := notify_at 0 0 7 2 (sq (start_peq 0))\<rparr>))) = Inr q \<and> peq_out q \<noteq> []"
proof -
  have "\<forall>tgt \<in> {sample_target}. \<forall>p q. cancels_last (tgt p q)" by (simp add: sample_target_def)
  from payload_queue_delivers [OF sample_peq_reached this] show ?thesis
    by (auto simp: to_time_def start_peq_def notify_at_def new_peq_def Let_def)
qed

text \<open>A call without a delay overtakes the payloads that are already queued for the same time.\<close>

lemma direct_call_overtakes:
  "callMode q \<Longrightarrow> snd (notify_now now delta p q) = q\<lparr>peq_out := peq_out q @ [(p, now, True)]\<rparr>"
  by (simp add: notify_now_def)

text \<open>When everything is cancelled after the event was triggered and before the process runs, the process fails its assertion.\<close>

lemma cancel_while_due_asserts:
  "tl_ok (m_ppq q) \<Longrightarrow> cancel_all q = Inr q' \<Longrightarrow> fec tgt now delta q' = Inl (AssertFail ''m_ppq.getSize()'')"
  using cancel_loop_empties [of "m_ppq q"] by (auto simp: cancel_all_def fec_def)

text \<open>
  When the target itself cancels everything and then notifies a new payload, the loop deletes the new payload in the place of the
  one that it has passed on; the event stays notified for it, and the assertion fails at that time.
\<close>

definition restarting :: "int peq_target" where
  "restarting p q = [Cancel, Notify_after (p + 1) 2]"

lemma cancel_in_target_loses:
  "\<exists>q. fec restarting 2 1 (notify_at 0 0 7 2 (new_peq 0 True)) = Inr q
    \<and> tl_list (m_ppq q) = [] \<and> m_e q = [4] \<and> (8, 4) \<in> set (peq_requests q)
    \<and> fec restarting 4 2 (q\<lparr>m_e := []\<rparr>) = Inl (AssertFail ''m_ppq.getSize()'')"
  by (simp add: fec_def fec_loop.simps pass_top_def restarting_def notify_at_def new_peq_def timeorderedlist0_def tl_insert_def
      cancel_all_def cancel_loop.simps delete_top_def tl_top_def queued_outputs_def Let_def)

text \<open>In the event mode a reader at a time sees the first payload of that time, in a later delta of the same time the next one,
  and when there is none, it reads through a null pointer.\<close>

lemma event_mode_first_read:
  assumes "tl_list (m_ppq q) = e # es" and "el_t e = now" and "m_time q \<noteq> now"
  shows "get_payload now delta q = Inr (el_p e, q\<lparr>m_time := now, m_delta := delta\<rparr>)"
  using assms by (simp add: get_payload_def advance_def tl_top_def advance_loop.simps)

lemma event_mode_later_read:
  assumes "tl_list (m_ppq q) = e # es" and "el_t e = now" and "m_time q = now" and "m_delta q < delta"
  shows "get_payload now delta q =
    (case es of [] \<Rightarrow> Inl (Undefined ''null element'')
     | e' # _ \<Rightarrow> Inr (el_p e', q\<lparr>m_ppq := delete_top (m_ppq q), m_delta := delta\<rparr>))"
  using assms by (simp add: get_payload_def advance_def tl_top_def advance_loop.simps Let_def tl_simps split: list.splits)

end
