(* ===== verification/Timing_Support.thy ===== *)
theory Timing_Support
  imports GL_Prelude
begin

text \<open>
  The distribution of timing between connected sockets
  (\<^verbatim>\<open>greensocket/generic/green_socket_timing_support_base.h\<close> and \<^verbatim>\<open>.tpp\<close>): each socket keeps a timing per
  binding and tells the socket at the other side when it changes; that one calls back its module, which may set the timing of
  its own sockets. The code of an initiator socket and of a target socket is the same up to the names, so one record models
  both. A counter of the nesting ends a combinatorial loop. Sockets are numbers; the callbacks of the modules are
  a parameter. Phases and times are numbers.
\<close>

section \<open>Timing of phases\<close>

type_synonym timing_info = "(nat, nat) omap"

definition set_start_time :: "nat \<Rightarrow> nat \<Rightarrow> timing_info \<Rightarrow> timing_info" where
  "set_start_time phase delay t = map_put phase delay t"

definition get_start_time :: "nat \<Rightarrow> timing_info \<Rightarrow> nat \<times> timing_info" where
  "get_start_time phase t = (case map_find t phase of Some d \<Rightarrow> (d, t) | None \<Rightarrow> (0, map_put phase 0 t))"

fun timing_iter :: "timing_info \<Rightarrow> timing_info \<Rightarrow> bool" where
  "timing_iter ((p, d) # t) ((p', d') # t') = (if p = p' then (if d \<noteq> d' then False else timing_iter t t') else False)"
| "timing_iter t t' = True"

definition timing_eq :: "timing_info \<Rightarrow> timing_info \<Rightarrow> bool" where
  "timing_eq t t' = (if length t \<noteq> length t' then False else timing_iter t t')"

fun is_non_default :: "timing_info \<Rightarrow> bool" where
  "is_non_default [] = False"
| "is_non_default ((p, d) # t) = (if d \<noteq> 0 then True else is_non_default t)"

lemma timing_eq_iff [simp]: "timing_eq t t' \<longleftrightarrow> t = t'"
proof -
  have "length t = length t' \<Longrightarrow> timing_iter t t' \<longleftrightarrow> t = t'"
    by (induction t t' rule: timing_iter.induct) auto
  then show ?thesis by (auto simp: timing_eq_def)
qed

text \<open>Reading a phase that has no entry adds one; the timing is then unequal to the one before.\<close>

lemma get_start_time_adds:
  "map_find t phase = None \<Longrightarrow> get_start_time phase t = (0, t') \<Longrightarrow> \<not> timing_eq t t' \<and> is_non_default t' = is_non_default t"
proof -
  assume a: "map_find t phase = None" "get_start_time phase t = (0, t')"
  then have t': "t' = map_put phase 0 t" by (simp add: get_start_time_def)
  then have "map_find t' phase = Some 0" by (simp add: map_simps)
  moreover have "map_find t phase = None \<Longrightarrow> is_non_default (map_put phase 0 t) = is_non_default t" for t
    by (induction t) (auto split: if_splits)
  ultimately show ?thesis using a(1) t' by auto
qed

section \<open>Sockets and their network\<close>

record tsock =
  is_initiator :: bool
  has_listener :: bool
  m_one_for_all_timing :: timing_info
  m_bound :: "bool list"
  m_timing_list :: "timing_info list"
  other_sock :: "nat option list"

text \<open>\<open>told\<close> lists the transmissions: the socket and binding that sent, and the timing.\<close>

record 'm tnet =
  tsocks :: "nat \<Rightarrow> tsock"
  rec_count :: nat
  rec_limit :: nat
  told :: "((nat \<times> nat) \<times> timing_info) list"
  modules :: 'm

text \<open>The calls a module can make: a timing for all bindings of a socket, or for one binding.\<close>

datatype tcall = SetAll nat timing_info | SetOne nat timing_info nat

type_synonym 'm listener = "nat \<Rightarrow> timing_info \<Rightarrow> 'm \<Rightarrow> tcall list \<times> 'm"

definition upd_tsock :: "nat \<Rightarrow> (tsock \<Rightarrow> tsock) \<Rightarrow> 'm tnet \<Rightarrow> 'm tnet" where
  "upd_tsock s f n = n\<lparr>tsocks := (tsocks n)(s := f (tsocks n s))\<rparr>"

definition inc_recursion_count :: "'m tnet \<Rightarrow> 'm tnet res" where
  "inc_recursion_count n =
     (let n' = n\<lparr>rec_count := rec_count n + 1\<rparr> in
      if rec_count n' = rec_limit n' then Inl (AssertFail ''recursion limit'') else Inr n')"

definition dec_recursion_count :: "'m tnet \<Rightarrow> 'm tnet" where
  "dec_recursion_count n = n\<lparr>rec_count := rec_count n - 1\<rparr>"

definition vec_grow :: "nat \<Rightarrow> 'a \<Rightarrow> 'a list \<Rightarrow> 'a list" where
  "vec_grow k x xs = xs @ replicate (k - length xs) x"

text \<open>All three vectors are made large enough; an entry that is there stays.\<close>

definition grow_to :: "nat \<Rightarrow> tsock \<Rightarrow> tsock" where
  "grow_to i k =
     k\<lparr>m_timing_list := (if i \<ge> length (m_timing_list k) then vec_grow (i + 1) (m_one_for_all_timing k) (m_timing_list k)
                        else m_timing_list k),
       m_bound := (if i \<ge> length (m_bound k) then vec_grow (i + 1) False (m_bound k) else m_bound k),
       other_sock := (if i \<ge> length (other_sock k) then vec_grow (i + 1) None (other_sock k) else other_sock k)\<rparr>"

text \<open>The calls of a module run one after the other; \<open>call\<close> runs one. The loop over the bindings reads
  the length again in each step; its fuel bounds the steps.\<close>

fun module_calls :: "(tcall \<Rightarrow> 'm tnet \<Rightarrow> 'm tnet res) \<Rightarrow> tcall list \<Rightarrow> 'm tnet \<Rightarrow> 'm tnet res" where
  "module_calls call [] n = Inr n"
| "module_calls call (c # cs) n = bindr (call c n) (module_calls call cs)"

text \<open>The other socket's setter calls its listener, when there is one.\<close>

definition hear_timing :: "(tcall \<Rightarrow> 'm tnet \<Rightarrow> 'm tnet res) \<Rightarrow> 'm listener \<Rightarrow> nat \<Rightarrow> timing_info \<Rightarrow> 'm tnet \<Rightarrow> 'm tnet res" where
  "hear_timing call cb r t n =
     (if has_listener (tsocks n r)
      then (let (cs, m) = cb r t (modules n) in module_calls call cs (n\<lparr>modules := m\<rparr>))
      else Inr n)"

definition transmit_timing :: "(tcall \<Rightarrow> 'm tnet \<Rightarrow> 'm tnet res) \<Rightarrow> 'm listener \<Rightarrow> nat \<Rightarrow> nat \<Rightarrow> 'm tnet \<Rightarrow> 'm tnet res" where
  "transmit_timing call cb s i n =
     (let k = tsocks n s in
      case (if length (other_sock k) > i then other_sock k ! i else None) of
        None \<Rightarrow> Inl (AssertFail ''connected to a non matching socket'')
      | Some r \<Rightarrow>
          if is_initiator (tsocks n r) = is_initiator k then Inl (AssertFail ''Unexpected class hierarchy'')
          else (let t = m_timing_list k ! i in hear_timing call cb r t (n\<lparr>told := told n @ [((s, i), t)]\<rparr>)))"

definition store_timing :: "(nat \<Rightarrow> 'm tnet \<Rightarrow> 'm tnet res) \<Rightarrow> nat \<Rightarrow> timing_info \<Rightarrow> nat \<Rightarrow> 'm tnet \<Rightarrow> 'm tnet res" where
  "store_timing tr s t i n =
     (if \<not> timing_eq t (m_timing_list (tsocks n s) ! i)
      then (let n1 = upd_tsock s (m_timing_list_update (\<lambda>ts. ts[i := t])) n in
            if m_bound (tsocks n1 s) ! i then tr i n1 else Inr n1)
      else Inr n)"

fun all_loop :: "(nat \<Rightarrow> 'm tnet \<Rightarrow> 'm tnet res) \<Rightarrow> nat \<Rightarrow> nat \<Rightarrow> timing_info \<Rightarrow> nat \<Rightarrow> 'm tnet \<Rightarrow> 'm tnet res" where
  "all_loop tr 0 s t i n = Inl OutOfFuel"
| "all_loop tr (Suc f) s t i n =
     (if i < length (m_timing_list (tsocks n s))
      then bindr (store_timing tr s t i n) (all_loop tr f s t (i + 1))
      else Inr n)"

text \<open>The setters; the fuel is the depth of the calls.\<close>

fun set_timing :: "'m listener \<Rightarrow> nat \<Rightarrow> tcall \<Rightarrow> 'm tnet \<Rightarrow> 'm tnet res" where
  "set_timing cb 0 c n = Inl OutOfFuel"
| "set_timing cb (Suc f) (SetAll s t) n =
     bindr (inc_recursion_count n) (\<lambda>n1.
     bindr (all_loop (transmit_timing (set_timing cb f) cb s) f s t 0 (upd_tsock s (m_one_for_all_timing_update (\<lambda>_. t)) n1))
       (\<lambda>n2. Inr (dec_recursion_count n2)))"
| "set_timing cb (Suc f) (SetOne s t i) n =
     bindr (inc_recursion_count n) (\<lambda>n1.
     bindr (store_timing (transmit_timing (set_timing cb f) cb s) s t i (upd_tsock s (grow_to i) n1))
       (\<lambda>n2. Inr (dec_recursion_count n2)))"

text \<open>A binding has been resolved; the other side is \<open>None\<close> when it is not a GreenSocket.\<close>

definition timing_bound_to :: "'m listener \<Rightarrow> nat \<Rightarrow> nat \<Rightarrow> nat option \<Rightarrow> nat \<Rightarrow> 'm tnet \<Rightarrow> 'm tnet res" where
  "timing_bound_to cb f s other i n =
     (let n1 = upd_tsock s (\<lambda>k. let k' = grow_to i k in k'\<lparr>m_bound := (m_bound k')[i := True]\<rparr>) n in
      case other of
        None \<Rightarrow> Inr n1
      | Some r \<Rightarrow>
          let n2 = upd_tsock s (other_sock_update (\<lambda>os. os[i := Some r])) n1 in
          if is_non_default (m_timing_list (tsocks n2 s) ! i) then transmit_timing (set_timing cb f) cb s i n2 else Inr n2)"

definition new_tsock :: "bool \<Rightarrow> bool \<Rightarrow> tsock" where
  "new_tsock ini listens = \<lparr>is_initiator = ini, has_listener = listens, m_one_for_all_timing = [], m_bound = [],
     m_timing_list = [], other_sock = []\<rparr>"

definition set_recursion_limit :: "nat \<Rightarrow> 'm tnet \<Rightarrow> 'm tnet" where
  "set_recursion_limit v n = n\<lparr>rec_limit := v\<rparr>"

text \<open>A history: bindings, calls from the outside, new limits.\<close>

datatype tnet_op = Call tcall | Bound nat "nat option" nat | Limit nat

fun tnet_step :: "'m listener \<Rightarrow> nat \<Rightarrow> tnet_op \<Rightarrow> 'm tnet \<Rightarrow> 'm tnet res" where
  "tnet_step cb f (Call c) n = set_timing cb f c n"
| "tnet_step cb f (Bound s r i) n = timing_bound_to cb f s r i n"
| "tnet_step cb f (Limit v) n = Inr (set_recursion_limit v n)"

fun tnet_run :: "'m listener \<Rightarrow> nat \<Rightarrow> tnet_op list \<Rightarrow> 'm tnet \<Rightarrow> 'm tnet res" where
  "tnet_run cb f [] n = Inr n"
| "tnet_run cb f (x # xs) n = bindr (tnet_step cb f x n) (tnet_run cb f xs)"

definition new_tnet :: "(nat \<Rightarrow> bool) \<Rightarrow> (nat \<Rightarrow> bool) \<Rightarrow> 'm \<Rightarrow> 'm tnet" where
  "new_tnet ini listens m = \<lparr>tsocks = (\<lambda>s. new_tsock (ini s) (listens s)), rec_count = 0, rec_limit = 10000, told = [], modules = m\<rparr>"

section \<open>Every connected socket has been told\<close>

definition last_told :: "'m tnet \<Rightarrow> nat \<Rightarrow> nat \<Rightarrow> timing_info option" where
  "last_told n s i = map_of (rev (told n)) (s, i)"

definition told_entry :: "tsock \<Rightarrow> timing_info option \<Rightarrow> nat \<Rightarrow> bool" where
  "told_entry k lt i \<longleftrightarrow>
     (if i < length (other_sock k) \<and> other_sock k ! i \<noteq> None
      then (case lt of Some t \<Rightarrow> t = m_timing_list k ! i | None \<Rightarrow> \<not> is_non_default (m_timing_list k ! i))
      else lt = None)"

definition told_at :: "'m tnet \<Rightarrow> nat \<Rightarrow> nat \<Rightarrow> bool" where
  "told_at n s i \<longleftrightarrow> told_entry (tsocks n s) (last_told n s i) i"

lemma told_entry_other:
  "i' \<noteq> i \<Longrightarrow> told_entry (m_timing_list_update (\<lambda>ts. ts[i := t]) k) lt i' = told_entry k lt i'"
  by (auto simp: told_entry_def split: option.split)

definition sock_ok :: "tsock \<Rightarrow> bool" where
  "sock_ok k \<longleftrightarrow> length (m_timing_list k) = length (m_bound k) \<and> length (other_sock k) = length (m_bound k)
     \<and> (\<forall>i < length (m_bound k). other_sock k ! i \<noteq> None \<longrightarrow> m_bound k ! i)"

text \<open>All sockets are well formed, and all bindings, but the one that is being changed, have been told.\<close>

definition tnet_but :: "(nat \<times> nat) set \<Rightarrow> 'm tnet \<Rightarrow> bool" where
  "tnet_but A n \<longleftrightarrow> (\<forall>s. sock_ok (tsocks n s)) \<and> (\<forall>s i. (s, i) \<notin> A \<longrightarrow> told_at n s i)"

abbreviation tnet_ok :: "'m tnet \<Rightarrow> bool" where
  "tnet_ok \<equiv> tnet_but {}"

lemma tnet_but_upd:
  assumes "tnet_but A n" and "sock_ok (f (tsocks n s))"
    and "\<And>j. (s, j) \<notin> A' \<Longrightarrow> told_entry (f (tsocks n s)) (last_told n s j) j" and "A \<subseteq> A'"
  shows "tnet_but A' (upd_tsock s f n)"
proof -
  have "told_at (upd_tsock s f n) s' i" if "(s', i) \<notin> A'" for s' i
  proof (cases "s' = s")
    case True
    then show ?thesis using assms(3) that by (simp add: told_at_def upd_tsock_def last_told_def)
  next
    case False
    then have "told_at n s' i" using assms(1,4) that unfolding tnet_but_def by blast
    then show ?thesis using False by (simp add: told_at_def upd_tsock_def last_told_def)
  qed
  then show ?thesis using assms(1,2) by (auto simp: tnet_but_def upd_tsock_def)
qed

lemma tnet_butD: "tnet_but A n \<Longrightarrow> sock_ok (tsocks n s)"
    "tnet_but A n \<Longrightarrow> (s, j) \<notin> A \<Longrightarrow> told_entry (tsocks n s) (last_told n s j) j"
  by (simp_all add: tnet_but_def told_at_def)

lemma tnet_but_add: "tnet_but {(s, i)} n \<Longrightarrow> told_entry (tsocks n s) (last_told n s i) i \<Longrightarrow> tnet_ok n"
  by (auto simp: tnet_but_def told_at_def)

text \<open>What no call changes: the nesting, its limit, and the bindings, to which unbound ones may be added.\<close>

definition tnet_ext :: "'m tnet \<Rightarrow> 'm tnet \<Rightarrow> bool" where
  "tnet_ext n n' \<longleftrightarrow> rec_count n' = rec_count n \<and> rec_limit n' = rec_limit n
     \<and> (\<forall>s. \<exists>j. m_bound (tsocks n' s) = m_bound (tsocks n s) @ replicate j False)"

lemma tnet_ext_refl [simp]: "tnet_ext n n"
  by (auto simp: tnet_ext_def intro: exI [of _ 0])

lemma tnet_ext_trans: "tnet_ext n1 n2 \<Longrightarrow> tnet_ext n2 n3 \<Longrightarrow> tnet_ext n1 n3"
  unfolding tnet_ext_def by (metis append_assoc replicate_add)

definition call_keeps :: "(tcall \<Rightarrow> 'm tnet \<Rightarrow> 'm tnet res) \<Rightarrow> bool" where
  "call_keeps call \<longleftrightarrow> (\<forall>c n n'. tnet_ok n \<longrightarrow> call c n = Inr n' \<longrightarrow> tnet_ok n' \<and> tnet_ext n n')"

lemma module_calls_keeps:
  assumes "call_keeps call"
  shows "module_calls call cs n = Inr n' \<Longrightarrow> tnet_ok n \<Longrightarrow> tnet_ok n' \<and> tnet_ext n n'"
proof (induction cs arbitrary: n)
  case (Cons c cs)
  then obtain n1 where "call c n = Inr n1" "module_calls call cs n1 = Inr n'" by (auto simp: res_simps)
  with Cons assms show ?case unfolding call_keeps_def by (meson tnet_ext_trans)
qed simp

lemma tnet_but_modules [simp]: "tnet_but A (n\<lparr>modules := m\<rparr>) = tnet_but A n" "tnet_ext n (n'\<lparr>modules := m\<rparr>) = tnet_ext n n'"
    "tnet_ext (n\<lparr>modules := m\<rparr>) n' = tnet_ext n n'"
  by (simp_all add: tnet_but_def told_at_def last_told_def tnet_ext_def)

lemma hear_timing_keeps:
  assumes "call_keeps call" and "hear_timing call cb r t n = Inr n'" and "tnet_ok n"
  shows "tnet_ok n' \<and> tnet_ext n n'"
proof (cases "has_listener (tsocks n r)")
  case True
  obtain cs m where "cb r t (modules n) = (cs, m)" by fastforce
  then show ?thesis using assms True module_calls_keeps [OF assms(1), of cs "n\<lparr>modules := m\<rparr>" n']
    by (simp add: hear_timing_def)
qed (use assms in \<open>simp add: hear_timing_def\<close>)

lemma told_entry_all: "told_entry (m_one_for_all_timing_update f k) lt i = told_entry k lt i"
  by (auto simp: told_entry_def split: option.split)

lemma tell_ok:
  assumes "tnet_but {(s, i)} n" and "i < length (other_sock (tsocks n s))" and "other_sock (tsocks n s) ! i \<noteq> None"
  shows "tnet_ok (n\<lparr>told := told n @ [((s, i), m_timing_list (tsocks n s) ! i)]\<rparr>)"
  using assms by (auto simp: tnet_but_def told_at_def last_told_def) (auto simp: told_entry_def)

lemma transmit_keeps:
  assumes "call_keeps call" and "transmit_timing call cb s i n = Inr n'" and "tnet_but {(s, i)} n"
  shows "tnet_ok n' \<and> tnet_ext n n'"
proof -
  let ?n = "n\<lparr>told := told n @ [((s, i), m_timing_list (tsocks n s) ! i)]\<rparr>"
  obtain r where "hear_timing call cb r (m_timing_list (tsocks n s) ! i) ?n = Inr n'"
      and "i < length (other_sock (tsocks n s))" "other_sock (tsocks n s) ! i \<noteq> None"
    using assms(2) by (auto simp: transmit_timing_def Let_def split: option.splits if_splits)
  then have "tnet_ok n' \<and> tnet_ext ?n n'" using hear_timing_keeps [OF assms(1) _ tell_ok [OF assms(3)]] by blast
  then show ?thesis by (simp add: tnet_ext_def)
qed

lemma store_keeps:
  assumes "call_keeps call" and "store_timing (transmit_timing call cb s) s t i n = Inr n'" and "tnet_ok n"
    and "i < length (m_bound (tsocks n s))"
  shows "tnet_ok n' \<and> tnet_ext n n'"
proof (cases "t = m_timing_list (tsocks n s) ! i")
  case False
  let ?n = "upd_tsock s (m_timing_list_update (\<lambda>ts. ts[i := t])) n"
  have but: "tnet_but {(s, i)} ?n"
    using assms(3) by (auto simp: tnet_but_def told_at_def last_told_def upd_tsock_def sock_ok_def told_entry_other)
  have ext: "tnet_ext n ?n"
    by (auto simp: tnet_ext_def upd_tsock_def intro: exI [of _ 0])
  show ?thesis
  proof (cases "m_bound (tsocks ?n s) ! i")
    case True
    then have "transmit_timing call cb s i ?n = Inr n'" using assms(2) False by (simp add: store_timing_def Let_def)
    then show ?thesis using transmit_keeps [OF assms(1) _ but] ext tnet_ext_trans by blast
  next
    case False
    moreover have "sock_ok (tsocks n s)" using assms(3) by (simp add: tnet_but_def)
    ultimately have "other_sock (tsocks n s) ! i = None" using assms(4) unfolding sock_ok_def upd_tsock_def by (cases "other_sock (tsocks n s) ! i") auto
    moreover from this have "last_told n s i = None" using assms(3) by (auto simp: tnet_but_def told_at_def told_entry_def)
    ultimately have "told_at ?n s i" by (simp add: told_at_def told_entry_def upd_tsock_def last_told_def)
    then have "tnet_ok ?n" using but unfolding tnet_but_def by (metis empty_iff prod.inject singletonD)
    moreover have "n' = ?n" using assms(2) False \<open>t \<noteq> _\<close> by (simp add: store_timing_def Let_def)
    ultimately show ?thesis using ext by simp
  qed
qed (use assms in \<open>simp add: store_timing_def\<close>)

lemma all_loop_keeps:
  assumes "call_keeps call"
  shows "all_loop (transmit_timing call cb s) f s t i n = Inr n' \<Longrightarrow> tnet_ok n \<Longrightarrow> tnet_ok n' \<and> tnet_ext n n'"
proof (induction f arbitrary: i n)
  case (Suc f)
  show ?case
  proof (cases "i < length (m_timing_list (tsocks n s))")
    case True
    then obtain n1 where n1: "store_timing (transmit_timing call cb s) s t i n = Inr n1"
        "all_loop (transmit_timing call cb s) f s t (i + 1) n1 = Inr n'"
      using Suc.prems by (auto simp: res_simps)
    have "i < length (m_bound (tsocks n s))" using True Suc.prems(2) by (simp add: tnet_but_def sock_ok_def)
    from store_keeps [OF assms n1(1) Suc.prems(2) this] Suc.IH [OF n1(2)] show ?thesis by (meson tnet_ext_trans)
  qed (use Suc.prems in simp)
qed simp

lemma grow_to_bound: "\<exists>j. m_bound (grow_to i k) = m_bound k @ replicate j False"
  by (auto simp: grow_to_def vec_grow_def intro: exI [of _ 0])

lemma grow_to_facts:
  assumes "sock_ok k"
  shows "sock_ok (grow_to i k)" and "i < length (m_bound (grow_to i k))" and "told_entry (grow_to i k) lt j = told_entry k lt j"
  using assms by (auto simp: grow_to_def vec_grow_def sock_ok_def told_entry_def nth_append split: option.split)

lemma tnet_but_counts [simp]:
  "tnet_but A (n\<lparr>rec_count := c\<rparr>) = tnet_but A n" "tnet_but A (n\<lparr>rec_limit := c\<rparr>) = tnet_but A n"
  by (simp_all add: tnet_but_def told_at_def last_told_def)

lemma tnet_ok_grow: "tnet_ok n \<Longrightarrow> tnet_ok (upd_tsock s (grow_to i) n)"
  by (simp add: tnet_but_def told_at_def last_told_def upd_tsock_def grow_to_facts)

lemma tnet_ext_grow: "tnet_ext n (upd_tsock s (grow_to i) n)"
  using grow_to_bound by (auto simp: tnet_ext_def upd_tsock_def intro: exI [of _ 0])

lemma tnet_all_timing:
  "tnet_ok n \<Longrightarrow> tnet_ok (upd_tsock s (m_one_for_all_timing_update (\<lambda>_. t)) n)"
  "tnet_ext n (upd_tsock s (m_one_for_all_timing_update (\<lambda>_. t)) n)"
  by (auto simp: tnet_but_def told_at_def told_entry_all last_told_def upd_tsock_def sock_ok_def tnet_ext_def
      intro: exI [of _ 0])

lemma set_timing_keeps: "call_keeps (set_timing cb f)"
proof (induction f)
  case 0
  show ?case by (simp add: call_keeps_def)
next
  case (Suc f)
  let ?tr = "transmit_timing (set_timing cb f) cb"
  show ?case
    unfolding call_keeps_def
  proof (intro allI impI)
    fix c n n' assume n: "tnet_ok n" and r: "set_timing cb (Suc f) c n = Inr n'"
    let ?n = "n\<lparr>rec_count := rec_count n + 1\<rparr>"
    have n1: "tnet_ok ?n" using n by simp
    have dec: "tnet_ok n' \<and> tnet_ext n n'"
      if "tnet_ok m \<and> tnet_ext k m" "tnet_ext ?n k" "n' = dec_recursion_count m" for k m
      using that tnet_ext_trans [OF that(2), of m] by (auto simp: dec_recursion_count_def tnet_ext_def)
    show "tnet_ok n' \<and> tnet_ext n n'"
    proof (cases c)
      case (SetAll s t)
      let ?n1 = "upd_tsock s (m_one_for_all_timing_update (\<lambda>_. t)) ?n"
      from r SetAll obtain m where "all_loop (?tr s) f s t 0 ?n1 = Inr m" "n' = dec_recursion_count m"
        by (auto simp: res_simps inc_recursion_count_def Let_def split: if_splits)
      with all_loop_keeps [OF Suc this(1) tnet_all_timing(1) [OF n1]] tnet_all_timing(2) show ?thesis by (intro dec)
    next
      case (SetOne s t i)
      let ?n1 = "upd_tsock s (grow_to i) ?n"
      from r SetOne obtain m where m: "store_timing (?tr s) s t i ?n1 = Inr m" "n' = dec_recursion_count m"
        by (auto simp: res_simps inc_recursion_count_def Let_def split: if_splits)
      have "i < length (m_bound (tsocks ?n1 s))" using n by (simp add: upd_tsock_def tnet_but_def grow_to_facts(2))
      from store_keeps [OF Suc m(1) tnet_ok_grow [OF n1] this] tnet_ext_grow m(2) show ?thesis by (intro dec)
    qed
  qed
qed

lemma told_entry_bound: "told_entry (m_bound_update f k) lt j = told_entry k lt j"
  by (auto simp: told_entry_def split: option.split)

lemma told_entry_sock: "j \<noteq> i \<Longrightarrow> told_entry (other_sock_update (\<lambda>os. os[i := r]) k) lt j = told_entry k lt j"
  by (auto simp: told_entry_def split: option.split)

lemma bound_to_keeps:
  assumes "tnet_ok n" and "timing_bound_to cb f s other i n = Inr n'"
  shows "tnet_ok n' \<and> rec_count n' = rec_count n"
proof -
  let ?f = "\<lambda>k. let k' = grow_to i k in k'\<lparr>m_bound := (m_bound k')[i := True]\<rparr>"
  let ?n1 = "upd_tsock s ?f n" and ?k = "?f (tsocks n s)"
  have g: "sock_ok (grow_to i (tsocks n s))" "i < length (m_bound ?k)"
      "told_entry (grow_to i (tsocks n s)) (last_told n s j) j" for j
    using grow_to_facts [OF tnet_butD(1) [OF assms(1)]] tnet_butD(2) [OF assms(1)] by (auto simp: Let_def)
  have k: "sock_ok ?k" "m_bound ?k ! i" using g(1,2) by (auto simp: sock_ok_def Let_def nth_list_update)
  have told: "told_entry ?k (last_told n s j) j" for j using g(3) told_entry_bound by (simp add: Let_def)
  have n1: "tnet_ok ?n1" by (rule tnet_but_upd [OF assms(1)]) (use k(1) told in auto)
  show ?thesis
  proof (cases other)
    case None
    then show ?thesis using assms(2) n1 by (auto simp: timing_bound_to_def upd_tsock_def)
  next
    case (Some r)
    let ?g = "other_sock_update (\<lambda>os. os[i := Some r])"
    let ?n2 = "upd_tsock s ?g ?n1"
    have at: "tsocks ?n1 s = ?k" "tsocks ?n2 s = ?g ?k" "last_told ?n1 = last_told n" "last_told ?n2 = last_told n"
      by (simp_all add: upd_tsock_def last_told_def fun_eq_iff)
    have "sock_ok (?g ?k)" using k g(2) by (auto simp: sock_ok_def nth_list_update)
    moreover have count: "rec_count ?n2 = rec_count n" by (simp add: upd_tsock_def)
    ultimately have but: "tnet_but {(s, i)} ?n2"
      using told_entry_sock told by (intro tnet_but_upd [OF n1]) (auto simp: at)
    show ?thesis
    proof (cases "is_non_default (m_timing_list (tsocks ?n2 s) ! i)")
      case True
      then have "transmit_timing (set_timing cb f) cb s i ?n2 = Inr n'"
        using assms(2) Some by (simp only: timing_bound_to_def Let_def option.case if_True)
      from transmit_keeps [OF set_timing_keeps this but] have "tnet_ok n'" "rec_count n' = rec_count ?n2"
        unfolding tnet_ext_def by blast+
      with count show ?thesis by simp
    next
      case False
      then have "n' = ?n2"
        using assms(2) Some by (simp only: timing_bound_to_def Let_def option.case if_False sum.inject)
      moreover have "told_entry (?g ?k) (last_told n s i) i"
        using False [unfolded at(2)] told [of i] g(2) k(1)
        by (auto simp: told_entry_def sock_ok_def split: option.splits if_splits)
      ultimately show ?thesis using tnet_but_add [OF but] count by (simp only: at)
    qed
  qed
qed

lemma tnet_run_keeps: "tnet_run cb f ops n = Inr n' \<Longrightarrow> tnet_ok n \<Longrightarrow> tnet_ok n' \<and> rec_count n' = rec_count n"
proof (induction ops arbitrary: n)
  case (Cons x ops)
  then obtain n1 where n1: "tnet_step cb f x n = Inr n1" "tnet_run cb f ops n1 = Inr n'" by (auto simp: res_simps)
  have "tnet_ok n1 \<and> rec_count n1 = rec_count n"
  proof (cases x)
    case (Call c)
    then show ?thesis using n1(1) Cons.prems(2) set_timing_keeps [of cb f] unfolding call_keeps_def tnet_ext_def by auto
  next
    case (Bound s r i)
    then show ?thesis using n1(1) Cons.prems(2) bound_to_keeps by (metis tnet_step.simps(2))
  next
    case (Limit v)
    then show ?thesis using n1(1) Cons.prems(2) by (auto simp: set_recursion_limit_def)
  qed
  then show ?case using Cons.IH [OF n1(2)] by simp
qed simp

lemma new_tnet_ok: "tnet_ok (new_tnet ini listens m)"
  by (simp add: tnet_but_def new_tnet_def new_tsock_def sock_ok_def told_at_def told_entry_def last_told_def)

section \<open>The distribution ends\<close>

text \<open>More fuel gives the same result.\<close>

definition more_fuel :: "(tcall \<Rightarrow> 'm tnet \<Rightarrow> 'm tnet res) \<Rightarrow> (tcall \<Rightarrow> 'm tnet \<Rightarrow> 'm tnet res) \<Rightarrow> bool" where
  "more_fuel call call' \<longleftrightarrow> (\<forall>c n. call c n \<noteq> Inl OutOfFuel \<longrightarrow> call' c n = call c n)"

lemma bindr_more:
  assumes "bindr m f \<noteq> Inl OutOfFuel" and "m \<noteq> Inl OutOfFuel \<Longrightarrow> m' = m"
    and "\<And>x. m = Inr x \<Longrightarrow> f x \<noteq> Inl OutOfFuel \<Longrightarrow> f' x = f x"
  shows "bindr m' f' = bindr m f"
  using assms by (cases m) auto

lemma module_calls_more:
  assumes "more_fuel call call'"
  shows "module_calls call cs n \<noteq> Inl OutOfFuel \<Longrightarrow> module_calls call' cs n = module_calls call cs n"
proof (induction cs arbitrary: n)
  case (Cons c cs)
  then show ?case using assms unfolding more_fuel_def module_calls.simps by (intro bindr_more) auto
qed simp

lemma transmit_more:
  assumes "more_fuel call call'" and "transmit_timing call cb s i n \<noteq> Inl OutOfFuel"
  shows "transmit_timing call' cb s i n = transmit_timing call cb s i n"
  using assms module_calls_more [OF assms(1)]
  by (auto simp: transmit_timing_def hear_timing_def Let_def split: option.splits prod.splits)

lemma store_more:
  assumes "more_fuel call call'" and "store_timing (transmit_timing call cb s) s t i n \<noteq> Inl OutOfFuel"
  shows "store_timing (transmit_timing call' cb s) s t i n = store_timing (transmit_timing call cb s) s t i n"
  using assms transmit_more [OF assms(1)] by (auto simp: store_timing_def Let_def)

lemma all_loop_more:
  assumes "more_fuel call call'"
  shows "all_loop (transmit_timing call cb s) g s t i n \<noteq> Inl OutOfFuel \<Longrightarrow> g \<le> g' \<Longrightarrow>
    all_loop (transmit_timing call' cb s) g' s t i n = all_loop (transmit_timing call cb s) g s t i n"
proof (induction g arbitrary: i n g')
  case (Suc g)
  then obtain h where g': "g' = Suc h" "g \<le> h" by (cases g') auto
  show ?case
  proof (cases "i < length (m_timing_list (tsocks n s))")
    case True
    have "bindr (store_timing (transmit_timing call' cb s) s t i n) (all_loop (transmit_timing call' cb s) h s t (i + 1))
      = bindr (store_timing (transmit_timing call cb s) s t i n) (all_loop (transmit_timing call cb s) g s t (i + 1))"
    proof (rule bindr_more)
      show "bindr (store_timing (transmit_timing call cb s) s t i n) (all_loop (transmit_timing call cb s) g s t (i + 1)) \<noteq> Inl OutOfFuel"
        using Suc.prems(1) True by simp
    qed (use store_more [OF assms] Suc.IH g' in auto)
    then show ?thesis using True g' by simp
  qed (use g' in simp)
qed simp

lemma set_timing_more: "f \<le> f' \<Longrightarrow> more_fuel (set_timing cb f) (set_timing cb f')"
proof (induction f arbitrary: f')
  case 0
  show ?case by (simp add: more_fuel_def)
next
  case (Suc f)
  then obtain g where f': "f' = Suc g" "f \<le> g" by (cases f') auto
  note m = Suc.IH [OF f'(2)]
  show ?case
    unfolding more_fuel_def
  proof (intro allI impI)
    fix c n assume r: "set_timing cb (Suc f) c n \<noteq> Inl OutOfFuel"
    show "set_timing cb f' c n = set_timing cb (Suc f) c n"
    proof (cases c)
      case (SetAll s t)
      then show ?thesis using r all_loop_more [OF m _ f'(2)]
        unfolding f' SetAll set_timing.simps by (intro bindr_more) auto
    next
      case (SetOne s t i)
      then show ?thesis using r store_more [OF m]
        unfolding f' SetOne set_timing.simps by (intro bindr_more) auto
    qed
  qed
qed

lemmas module_calls_raise = module_calls_more [OF set_timing_more]
lemmas store_raise = store_more [OF set_timing_more]
lemmas all_loop_raise = all_loop_more [OF set_timing_more]

text \<open>When all nested calls end, so does what is built from them.\<close>

definition calls_end :: "'m listener \<Rightarrow> nat \<Rightarrow> nat \<Rightarrow> bool" where
  "calls_end cb c l \<longleftrightarrow> (\<forall>n x. tnet_ok n \<and> rec_count n = c \<and> rec_limit n = l \<longrightarrow> (\<exists>f. set_timing cb f x n \<noteq> Inl OutOfFuel))"

lemma module_calls_end:
  assumes "calls_end cb c l"
  shows "tnet_ok n \<Longrightarrow> rec_count n = c \<Longrightarrow> rec_limit n = l \<Longrightarrow> \<exists>f. module_calls (set_timing cb f) cs n \<noteq> Inl OutOfFuel"
proof (induction cs arbitrary: n)
  case (Cons x cs)
  from assms Cons.prems obtain f where f: "set_timing cb f x n \<noteq> Inl OutOfFuel" unfolding calls_end_def by blast
  show ?case
  proof (cases "set_timing cb f x n")
    case (Inl e)
    then show ?thesis using f by (intro exI [of _ f]) simp
  next
    case (Inr n')
    then have "tnet_ok n' \<and> tnet_ext n n'" using set_timing_keeps Cons.prems(1) unfolding call_keeps_def by blast
    then obtain g where g: "module_calls (set_timing cb g) cs n' \<noteq> Inl OutOfFuel"
      using Cons by (auto simp: tnet_ext_def)
    let ?h = "max f g"
    have "set_timing cb ?h x n = Inr n'"
      using set_timing_more [of f ?h cb] f Inr unfolding more_fuel_def by simp
    moreover have "module_calls (set_timing cb ?h) cs n' = module_calls (set_timing cb g) cs n'"
      using module_calls_raise [of g ?h] g by simp
    ultimately show ?thesis using g by (intro exI [of _ ?h]) simp
  qed
qed simp

lemma transmit_end:
  assumes "calls_end cb c l" and "tnet_but {(s, i)} n" and "rec_count n = c" and "rec_limit n = l"
  shows "\<exists>f. transmit_timing (set_timing cb f) cb s i n \<noteq> Inl OutOfFuel"
proof (cases "i < length (other_sock (tsocks n s)) \<and> other_sock (tsocks n s) ! i \<noteq> None")
  case True
  let ?t = "m_timing_list (tsocks n s) ! i"
  let ?n = "n\<lparr>told := told n @ [((s, i), ?t)]\<rparr>"
  obtain r where r: "other_sock (tsocks n s) ! i = Some r" using True by auto
  obtain cs m where cs: "cb r ?t (modules n) = (cs, m)" by fastforce
  have "tnet_ok (?n\<lparr>modules := m\<rparr>)" using tell_ok [OF assms(2)] True by simp
  from module_calls_end [OF assms(1) this] assms(3,4)
  obtain f where "module_calls (set_timing cb f) cs (?n\<lparr>modules := m\<rparr>) \<noteq> Inl OutOfFuel" by auto
  then show ?thesis using True r cs by (intro exI [of _ f]) (simp add: transmit_timing_def hear_timing_def Let_def)
qed (auto simp: transmit_timing_def Let_def)

lemma store_end:
  assumes "calls_end cb c l" and "tnet_ok n" and "rec_count n = c" and "rec_limit n = l"
  shows "\<exists>f. store_timing (transmit_timing (set_timing cb f) cb s) s t i n \<noteq> Inl OutOfFuel"
proof -
  let ?n = "upd_tsock s (m_timing_list_update (\<lambda>ts. ts[i := t])) n"
  have "tnet_but {(s, i)} ?n"
    using tnet_butD [OF assms(2), of s]
    by (intro tnet_but_upd [OF assms(2)]) (auto simp: sock_ok_def told_entry_other)
  from transmit_end [OF assms(1) this] assms(3,4)
  obtain f where "transmit_timing (set_timing cb f) cb s i ?n \<noteq> Inl OutOfFuel" by (auto simp: upd_tsock_def)
  then show ?thesis by (intro exI [of _ f]) (simp add: store_timing_def Let_def)
qed

text \<open>The bindings that are left, and of them the bound ones.\<close>

definition bindings_left :: "nat \<Rightarrow> tsock \<Rightarrow> nat" where
  "bindings_left i k = length (filter id (drop i (m_bound k)))"

lemma filter_id_drop: "i < length bs \<Longrightarrow> length (filter id (drop i bs)) = (if bs ! i then 1 else 0) + length (filter id (drop (Suc i) bs))"
  by (simp add: Cons_nth_drop_Suc [symmetric])

lemma store_left:
  assumes "store_timing (transmit_timing (set_timing cb f) cb s) s t i n = Inr n'" and "tnet_ok n"
    and i: "i < length (m_bound (tsocks n s))"
  shows "((bindings_left (i + 1) (tsocks n' s), length (m_bound (tsocks n' s)) - (i + 1)),
      (bindings_left i (tsocks n s), length (m_bound (tsocks n s)) - i)) \<in> less_than <*lex*> less_than"
proof -
  let ?bs = "m_bound (tsocks n s)"
  have "tnet_ext n n'" using store_keeps [OF set_timing_keeps assms] by blast
  then obtain j where j: "m_bound (tsocks n' s) = ?bs @ replicate j False" by (auto simp: tnet_ext_def)
  show ?thesis
  proof (cases "?bs ! i")
    case True
    then show ?thesis using i j filter_id_drop [OF i] by (simp add: bindings_left_def)
  next
    case False
    then have "m_bound (tsocks n' s) = ?bs" using assms(1) by (auto simp: store_timing_def upd_tsock_def Let_def split: if_splits)
    then show ?thesis using False i filter_id_drop [OF i] by (simp add: bindings_left_def)
  qed
qed

lemma all_loop_end:
  assumes "calls_end cb c l"
  shows "tnet_ok n \<Longrightarrow> rec_count n = c \<Longrightarrow> rec_limit n = l \<Longrightarrow>
    \<exists>f. all_loop (transmit_timing (set_timing cb f) cb s) f s t i n \<noteq> Inl OutOfFuel"
proof (induction "(bindings_left i (tsocks n s), length (m_bound (tsocks n s)) - i)" arbitrary: i n
    rule: wf_induct_rule [OF wf_lex_prod [OF wf_less_than wf_less_than]])
  case (1 i n)
  let ?tr = "\<lambda>f. transmit_timing (set_timing cb f) cb s"
  have len: "length (m_timing_list (tsocks n s)) = length (m_bound (tsocks n s))"
    using tnet_butD(1) [OF 1(2)] by (simp add: sock_ok_def)
  show ?case
  proof (cases "i < length (m_bound (tsocks n s))")
    case True
    obtain f where f: "store_timing (?tr f) s t i n \<noteq> Inl OutOfFuel" using store_end [OF assms 1(2-4)] by blast
    show ?thesis
    proof (cases "store_timing (?tr f) s t i n")
      case (Inl e)
      then have "store_timing (?tr (Suc f)) s t i n = Inl e" using f store_raise by (metis le_SucI order_refl)
      then show ?thesis using f Inl True len by (intro exI [of _ "Suc f"]) simp
    next
      case (Inr n')
      then have k: "tnet_ok n'" "tnet_ext n n'" using store_keeps [OF set_timing_keeps Inr 1(2) True] by auto
      from 1(1) [OF store_left [OF Inr 1(2) True] k(1)] k(2) 1(3,4)
      obtain g where g: "all_loop (?tr g) g s t (i + 1) n' \<noteq> Inl OutOfFuel" by (auto simp: tnet_ext_def)
      let ?h = "Suc (max f g)"
      have "store_timing (?tr ?h) s t i n = Inr n'" using f Inr store_raise by (metis max.cobounded1 le_SucI)
      moreover have "all_loop (?tr ?h) (max f g) s t (i + 1) n' = all_loop (?tr g) g s t (i + 1) n'"
        by (rule all_loop_raise) (use g in auto)
      ultimately show ?thesis using True len g by (intro exI [of _ ?h]) simp
    qed
  qed (use len in \<open>auto intro: exI [of _ 1]\<close>)
qed

lemma set_timing_ends:
  "rec_count n < rec_limit n \<Longrightarrow> tnet_ok n \<Longrightarrow> \<exists>f. set_timing cb f x n \<noteq> Inl OutOfFuel"
proof (induction "rec_limit n - rec_count n" arbitrary: n x rule: less_induct)
  case less
  let ?n = "n\<lparr>rec_count := rec_count n + 1\<rparr>"
  show ?case
  proof (cases "rec_count n + 1 = rec_limit n")
    case True
    then show ?thesis by (intro exI [of _ "Suc 0"]) (cases x; simp add: inc_recursion_count_def)
  next
    case False
    then have e: "calls_end cb (rec_count n + 1) (rec_limit n)"
      using less(1) less(2) by (auto simp: calls_end_def)
    have inc: "inc_recursion_count n = Inr ?n" using False by (simp add: inc_recursion_count_def)
    have ok: "tnet_ok ?n" using less(3) by simp
    have fin: "bindr m (\<lambda>n2. Inr (dec_recursion_count n2)) \<noteq> Inl OutOfFuel" if "m \<noteq> Inl OutOfFuel" for m :: "'a tnet res"
      using that by (cases m) auto
    show ?thesis
    proof (cases x)
      case (SetAll s t)
      let ?n1 = "upd_tsock s (m_one_for_all_timing_update (\<lambda>_. t)) ?n"
      obtain f where "all_loop (transmit_timing (set_timing cb f) cb s) f s t 0 ?n1 \<noteq> Inl OutOfFuel"
        using all_loop_end [OF e tnet_all_timing(1) [OF ok]] by (fastforce simp: upd_tsock_def)
      then show ?thesis using SetAll inc fin by (intro exI [of _ "Suc f"]) simp
    next
      case (SetOne s t i)
      let ?n1 = "upd_tsock s (grow_to i) ?n"
      obtain f where "store_timing (transmit_timing (set_timing cb f) cb s) s t i ?n1 \<noteq> Inl OutOfFuel"
        using store_end [OF e tnet_ok_grow [OF ok]] by (fastforce simp: upd_tsock_def)
      then show ?thesis using SetOne inc fin by (intro exI [of _ "Suc f"]) simp
    qed
  qed
qed

section \<open>Properties\<close>

text \<open>C33. Whatever the modules do in their callbacks, a call that sets a timing ends once the recursion limit is positive:
  it returns or the limit is reported. With enough fuel the model never runs out of it, and more gives the same result.\<close>

theorem timing_distribution_ends:
  assumes "tnet_run cb g ops (new_tnet ini listens m) = Inr n" and "0 < rec_limit n"
  shows "\<exists>f. set_timing cb f x n \<noteq> Inl OutOfFuel \<and> (\<forall>f' \<ge> f. set_timing cb f' x n = set_timing cb f x n)"
proof -
  have "tnet_ok n" "rec_count n = 0" using tnet_run_keeps [OF assms(1) new_tnet_ok] by (simp_all add: new_tnet_def)
  then obtain f where f: "set_timing cb f x n \<noteq> Inl OutOfFuel" using set_timing_ends [of n] assms(2) by auto
  then have "\<forall>f' \<ge> f. set_timing cb f' x n = set_timing cb f x n"
    using set_timing_more unfolding more_fuel_def by blast
  then show ?thesis using f by blast
qed

text \<open>Two sockets whose modules answer every timing with a later one.\<close>

definition sample_answer :: "nat listener" where
  "sample_answer r t m = ([SetAll r [(0, m + 1)]], m + 1)"

definition sample_ops :: "tnet_op list" where
  "sample_ops = [Bound 0 (Some 1) 0, Bound 1 (Some 0) 0, Limit 2]"

lemma sample_net: "\<exists>n. tnet_run sample_answer 1 sample_ops (new_tnet (\<lambda>s. s = 0) (\<lambda>s. True) 0) = Inr n \<and> rec_limit n = 2"
  by (simp add: sample_ops_def timing_bound_to_def upd_tsock_def grow_to_def vec_grow_def new_tnet_def new_tsock_def
      set_recursion_limit_def)

lemma timing_distribution_ends_witness:
  "\<exists>n f. tnet_run sample_answer 1 sample_ops (new_tnet (\<lambda>s. s = 0) (\<lambda>s. True) 0) = Inr n
    \<and> set_timing sample_answer f (SetAll 0 [(0, 7)]) n \<noteq> Inl OutOfFuel"
proof -
  obtain n where n: "tnet_run sample_answer 1 sample_ops (new_tnet (\<lambda>s. s = 0) (\<lambda>s. True) 0) = Inr n" "rec_limit n = 2"
    using sample_net by blast
  then show ?thesis using timing_distribution_ends [OF n(1)] by auto
qed

lemma limit_is_reported:
  "rec_count n + 1 = rec_limit n \<Longrightarrow> set_timing cb (Suc f) x n = Inl (AssertFail ''recursion limit'')"
  by (cases x) (simp_all add: inc_recursion_count_def)

text \<open>C34. After any history of bindings and calls, with modules that answer: each binding to a GreenSocket that has been
  told a timing was last told the timing the socket has for it, and one that was never told has a timing without delays.\<close>

theorem connected_sockets_are_told:
  assumes "tnet_run cb f ops (new_tnet ini listens m) = Inr n"
    and "i < length (other_sock (tsocks n s))" and "other_sock (tsocks n s) ! i = Some r"
  shows "case last_told n s i of Some t \<Rightarrow> t = m_timing_list (tsocks n s) ! i
    | None \<Rightarrow> \<not> is_non_default (m_timing_list (tsocks n s) ! i)"
proof -
  have "told_entry (tsocks n s) (last_told n s i) i"
    using tnet_run_keeps [OF assms(1) new_tnet_ok] tnet_butD(2) by blast
  then show ?thesis using assms(2,3) by (auto simp: told_entry_def)
qed

lemma connected_sockets_are_told_witness:
  "\<exists>n. tnet_run (\<lambda>r t m. ([], m)) 2 [Bound 0 (Some 1) 0, Call (SetOne 0 [(0, 7)] 0)] (new_tnet (\<lambda>s. s = 0) (\<lambda>s. True) (0::nat)) = Inr n
    \<and> (case last_told n 0 0 of Some t \<Rightarrow> t = m_timing_list (tsocks n 0) ! 0
       | None \<Rightarrow> \<not> is_non_default (m_timing_list (tsocks n 0) ! 0))"
proof -
  have "\<exists>n. tnet_run (\<lambda>r t m. ([], m)) 2 [Bound 0 (Some 1) 0, Call (SetOne 0 [(0, 7)] 0)] (new_tnet (\<lambda>s. s = 0) (\<lambda>s. True) (0::nat)) = Inr n
      \<and> 0 < length (other_sock (tsocks n 0)) \<and> other_sock (tsocks n 0) ! 0 = Some 1"
    by (simp add: timing_bound_to_def upd_tsock_def grow_to_def vec_grow_def new_tnet_def new_tsock_def inc_recursion_count_def
        store_timing_def transmit_timing_def hear_timing_def dec_recursion_count_def numeral_2_eq_2)
  then obtain n where n: "tnet_run (\<lambda>r t m. ([], m)) 2 [Bound 0 (Some 1) 0, Call (SetOne 0 [(0, 7)] 0)]
        (new_tnet (\<lambda>s. s = 0) (\<lambda>s. True) (0::nat)) = Inr n"
      "0 < length (other_sock (tsocks n 0))" "other_sock (tsocks n 0) ! 0 = Some 1" by blast
  show ?thesis by (rule exI [of _ n], rule conjI [OF n(1) connected_sockets_are_told [OF n]])
qed

end
