(* ===== verification/Socket_Extensions.thy ===== *)
theory Socket_Extensions
  imports GL_Prelude
begin

text \<open>
  Extensions of transactions with guards (\<^verbatim>\<open>greensocket/generic/gs_extension.h\<close>,
  \<^verbatim>\<open>green_socket_extension_support_base.tpp\<close>, \<^verbatim>\<open>greensocket/utils/greensocket_extension_pool.h\<close>).
  An extension object has a valid flag; it counts only together with a guard extension, which the memory management of TLM
  removes. The payload and its extension array are TLM's: a type with the operations of the record \<open>tlm_ops\<close>, whose laws are
  the hypothesis \<open>tlm_laws\<close>. Objects are addresses that \<^verbatim>\<open>new\<close> returns in ascending order.
\<close>

section \<open>Pools of extension objects\<close>

text \<open>An entry carries a pointer; one on \<open>out_of_pool\<close> may carry a stale one.\<close>

record epool =
  in_pool :: "nat list"
  out_of_pool :: "nat list"
  ep_mine :: "nat list"

text \<open>\<^verbatim>\<open>extension_pool(size)\<close> with the first address it allocates; at least one object.\<close>

definition extension_pool :: "nat \<Rightarrow> nat \<Rightarrow> epool \<times> nat" where
  "extension_pool sz a =
     (let n = max 1 sz in (\<lparr>in_pool = rev [a..<a + n], out_of_pool = [], ep_mine = [a..<a + n]\<rparr>, a + n))"

definition ep_is_from :: "nat \<Rightarrow> epool \<Rightarrow> bool" where
  "ep_is_from cont p = (cont \<in> set (ep_mine p))"

definition ep_create :: "epool \<Rightarrow> nat \<Rightarrow> nat \<times> epool \<times> nat" where
  "ep_create p a =
     (case in_pool p of
        [] \<Rightarrow> (a, p\<lparr>ep_mine := ep_mine p @ [a], out_of_pool := a # out_of_pool p\<rparr>, a + 1)
      | e # es \<Rightarrow> (e, p\<lparr>in_pool := es, out_of_pool := e # out_of_pool p\<rparr>, a))"

definition recycle :: "nat \<Rightarrow> epool \<Rightarrow> epool res" where
  "recycle cont p =
     (case out_of_pool p of
        [] \<Rightarrow> Inl (AssertFail ''out_of_pool'')
      | _ # es \<Rightarrow> Inr (p\<lparr>out_of_pool := es, in_pool := cont # in_pool p\<rparr>))"

section \<open>Types of extensions\<close>

text \<open>The four kinds select the overloads at compile time; data has the dummy guard.\<close>

datatype ext_kind = gs_array_guard_id | gs_data_id | gs_guarded_data_id | gs_real_guard_id

record ext_type =
  T_ID :: nat
  T_kind :: ext_kind
  guard_ID :: nat

definition dummy_guard :: nat where
  "dummy_guard = 0xdeadbeef"

text \<open>The guard that the macros declare together with a guarded extension.\<close>

definition guard_type :: "ext_type \<Rightarrow> ext_type" where
  "guard_type T = \<lparr>T_ID = guard_ID T, T_kind = gs_array_guard_id, guard_ID = dummy_guard\<rparr>"

record 'p tlm_ops =
  get_ext :: "'p \<Rightarrow> nat \<Rightarrow> nat option"
  set_ext :: "nat \<Rightarrow> nat \<Rightarrow> 'p \<Rightarrow> 'p"
  set_auto_ext :: "nat \<Rightarrow> nat \<Rightarrow> 'p \<Rightarrow> 'p"
  clear_ext :: "nat \<Rightarrow> 'p \<Rightarrow> 'p"
  has_mm :: "'p \<Rightarrow> bool"
  txn_reset :: "'p \<Rightarrow> 'p"
  auto_exts :: "'p \<Rightarrow> nat list"
  max_num_extensions :: nat

text \<open>The objects and statics, and the transactions. \<open>ext_casts\<close> has the registered conversion functions.\<close>

record 'p exts =
  p_pool :: "nat \<Rightarrow> epool option"
  singleton :: "nat \<Rightarrow> nat option"
  ext_valid :: "nat \<Rightarrow> bool"
  my_pool :: "nat \<Rightarrow> nat option"
  ext_casts :: "bool list"
  next_addr :: nat
  ext_txns :: "nat \<Rightarrow> 'p"

definition register_cast :: "nat \<Rightarrow> nat \<Rightarrow> 'p exts \<Rightarrow> 'p exts" where
  "register_cast mx i w =
     w\<lparr>ext_casts := (take mx (ext_casts w) @ replicate (mx - length (ext_casts w)) False)[i := True]\<rparr>"

text \<open>The static pool of a type is made by the first call.\<close>

definition ensure_pool :: "'p tlm_ops \<Rightarrow> ext_type \<Rightarrow> 'p exts \<Rightarrow> epool \<times> 'p exts" where
  "ensure_pool M T w =
     (case p_pool w (T_ID T) of
        Some p \<Rightarrow> (p, w)
      | None \<Rightarrow> let (p, a) = extension_pool 10 (next_addr w) in
          (p, register_cast (max_num_extensions M) (T_ID T) (w\<lparr>p_pool := (p_pool w)(T_ID T \<mapsto> p), next_addr := a\<rparr>)))"

definition create_guard :: "'p tlm_ops \<Rightarrow> ext_type \<Rightarrow> 'p exts \<Rightarrow> nat \<times> 'p exts" where
  "create_guard M T w =
     (case singleton w (T_ID T) of
        Some e \<Rightarrow> (e, w)
      | None \<Rightarrow> let w1 = register_cast (max_num_extensions M) (T_ID T) w; e = next_addr w1 in
          (e, w1\<lparr>singleton := (singleton w1)(T_ID T \<mapsto> e), next_addr := e + 1, my_pool := (my_pool w1)(e := None)\<rparr>))"

definition create_extension :: "'p tlm_ops \<Rightarrow> ext_type \<Rightarrow> 'p exts \<Rightarrow> nat \<times> 'p exts" where
  "create_extension M T w =
     (if T_kind T = gs_array_guard_id then create_guard M T w
      else let (p, w1) = ensure_pool M T w; (e, p', a) = ep_create p (next_addr w1) in
           (e, w1\<lparr>p_pool := (p_pool w1)(T_ID T \<mapsto> p'), next_addr := a, my_pool := (my_pool w1)(e \<mapsto> T_ID T)\<rparr>))"

text \<open>\<^verbatim>\<open>free\<close>, which TLM calls on the extensions it removes.\<close>

definition ext_free :: "ext_type \<Rightarrow> nat \<Rightarrow> 'p exts \<Rightarrow> 'p exts res" where
  "ext_free T e w =
     (if T_kind T \<noteq> gs_array_guard_id
      then (case my_pool w e of
              None \<Rightarrow> Inr w
            | Some i \<Rightarrow> (case p_pool w i of
                None \<Rightarrow> Inl (Undefined ''pool'')
              | Some p \<Rightarrow> bindr (recycle e p) (\<lambda>p'. Inr (w\<lparr>p_pool := (p_pool w)(i \<mapsto> p')\<rparr>))))
      else Inr w)"

section \<open>Access through a socket\<close>

definition upd_txn :: "nat \<Rightarrow> ('p \<Rightarrow> 'p) \<Rightarrow> 'p exts \<Rightarrow> 'p exts" where
  "upd_txn k f w = w\<lparr>ext_txns := (ext_txns w)(k := f (ext_txns w k))\<rparr>"

text \<open>The pointer of a transaction, created and added when it is not there.\<close>

definition ext_or_new :: "'p tlm_ops \<Rightarrow> ext_type \<Rightarrow> nat \<Rightarrow> 'p exts \<Rightarrow> nat \<times> bool \<times> 'p exts" where
  "ext_or_new M T k w =
     (case get_ext M (ext_txns w k) (T_ID T) of
        Some e \<Rightarrow> (e, False, w)
      | None \<Rightarrow> let (e, w1) = create_extension M T w in (e, True, upd_txn k (set_ext M (T_ID T) e) w1))"

definition get_guarded_data :: "'p tlm_ops \<Rightarrow> ext_type \<Rightarrow> nat \<Rightarrow> 'p exts \<Rightarrow> bool \<times> nat \<times> 'p exts" where
  "get_guarded_data M T k w =
     (let (e, new, w1) = ext_or_new M T k w in
      if new then (False, e, w1\<lparr>ext_valid := (ext_valid w1)(e := False)\<rparr>)
      else (get_ext M (ext_txns w1 k) (guard_ID T) \<noteq> None \<and> ext_valid w1 e, e, w1))"

definition get_data :: "'p tlm_ops \<Rightarrow> ext_type \<Rightarrow> nat \<Rightarrow> 'p exts \<Rightarrow> bool \<times> nat \<times> 'p exts" where
  "get_data M T k w = (let (e, _, w1) = ext_or_new M T k w in (True, e, w1))"

definition get_guard :: "'p tlm_ops \<Rightarrow> ext_type \<Rightarrow> nat \<Rightarrow> 'p exts \<Rightarrow> nat option" where
  "get_guard M T k w =
     (case get_ext M (ext_txns w k) (T_ID T) of
        None \<Rightarrow> None
      | Some e \<Rightarrow> if get_ext M (ext_txns w k) (guard_ID T) \<noteq> None \<and> ext_valid w e then Some e else None)"

text \<open>Both overloads of \<^verbatim>\<open>validate_extension\<close> have this body, and both of \<^verbatim>\<open>invalidate_extension\<close> the next.\<close>

definition validate_extension :: "'p tlm_ops \<Rightarrow> ext_type \<Rightarrow> nat \<Rightarrow> 'p exts \<Rightarrow> bool \<times> 'p exts" where
  "validate_extension M T k w =
     (let (e, _, w1) = ext_or_new M T k w;
          w2 = w1\<lparr>ext_valid := (ext_valid w1)(e := True)\<rparr>;
          g = get_ext M (ext_txns w2 k) (guard_ID T)
      in if has_mm M (ext_txns w2 k)
         then (True, if g = None
                     then (let (ge, w3) = create_extension M (guard_type T) w2 in upd_txn k (set_auto_ext M (guard_ID T) ge) w3)
                     else w2)
         else (False, let (ge, w3) = create_extension M (guard_type T) w2 in upd_txn k (set_ext M (guard_ID T) ge) w3))"

definition invalidate_extension :: "'p tlm_ops \<Rightarrow> ext_type \<Rightarrow> nat \<Rightarrow> 'p exts \<Rightarrow> 'p exts" where
  "invalidate_extension M T k w =
     (if \<not> has_mm M (ext_txns w k) then upd_txn k (clear_ext M (guard_ID T)) w
      else (case get_ext M (ext_txns w k) (T_ID T) of
              None \<Rightarrow> w
            | Some e \<Rightarrow> w\<lparr>ext_valid := (ext_valid w)(e := False)\<rparr>))"

text \<open>A history; the memory manager resets a transaction when nobody holds it any more.\<close>

datatype ext_op = GetExt ext_type | GetGuard ext_type | GetData ext_type | Validate ext_type | Invalidate ext_type | ResetTxn

definition uses_type :: "ext_op \<Rightarrow> ext_type set" where
  "uses_type x = (case x of GetExt T \<Rightarrow> {T} | GetGuard T \<Rightarrow> {T} | GetData T \<Rightarrow> {T} | Validate T \<Rightarrow> {T} | Invalidate T \<Rightarrow> {T} | ResetTxn \<Rightarrow> {})"

definition ext_step :: "'p tlm_ops \<Rightarrow> nat \<times> ext_op \<Rightarrow> 'p exts \<Rightarrow> 'p exts" where
  "ext_step M x w = (case x of
     (k, GetExt T) \<Rightarrow> snd (snd (get_guarded_data M T k w))
   | (k, GetGuard T) \<Rightarrow> w
   | (k, GetData T) \<Rightarrow> snd (snd (get_data M T k w))
   | (k, Validate T) \<Rightarrow> snd (validate_extension M T k w)
   | (k, Invalidate T) \<Rightarrow> invalidate_extension M T k w
   | (k, ResetTxn) \<Rightarrow> upd_txn k (txn_reset M) w)"

text \<open>The flags of objects that have not been written are arbitrary.\<close>

definition new_exts :: "(nat \<Rightarrow> bool) \<Rightarrow> (nat \<Rightarrow> 'p) \<Rightarrow> 'p exts" where
  "new_exts v0 ps = \<lparr>p_pool = (\<lambda>_. None), singleton = (\<lambda>_. None), ext_valid = v0, my_pool = (\<lambda>_. None), ext_casts = [],
     next_addr = 1, ext_txns = ps\<rparr>"

section \<open>What TLM promises and what is to hold\<close>

definition tlm_laws :: "'p tlm_ops \<Rightarrow> bool" where
  "tlm_laws M \<longleftrightarrow> (\<forall>p i e j.
     get_ext M (set_ext M i e p) j = (if j = i then Some e else get_ext M p j)
     \<and> get_ext M (set_auto_ext M i e p) j = (if j = i then Some e else get_ext M p j)
     \<and> get_ext M (clear_ext M i p) j = (if j = i then None else get_ext M p j)
     \<and> get_ext M (txn_reset M p) j = (if j \<in> set (auto_exts M p) then None else get_ext M p j)
     \<and> auto_exts M (set_ext M i e p) = auto_exts M p \<and> auto_exts M (set_auto_ext M i e p) = i # auto_exts M p
     \<and> auto_exts M (clear_ext M i p) = auto_exts M p \<and> auto_exts M (txn_reset M p) = []
     \<and> has_mm M (set_ext M i e p) = has_mm M p \<and> has_mm M (set_auto_ext M i e p) = has_mm M p
     \<and> has_mm M (clear_ext M i p) = has_mm M p \<and> has_mm M (txn_reset M p) = has_mm M p)"

definition guarded :: "ext_type \<Rightarrow> bool" where
  "guarded T \<longleftrightarrow> T_kind T = gs_guarded_data_id \<or> T_kind T = gs_real_guard_id"

text \<open>Each type has an identifier and a guard of its own.\<close>

definition types_ok :: "ext_type set \<Rightarrow> bool" where
  "types_ok S \<longleftrightarrow> (\<forall>T \<in> S. T_kind T \<noteq> gs_array_guard_id) \<and> inj_on T_ID S \<and> inj_on guard_ID {T \<in> S. guarded T}
     \<and> (\<forall>T \<in> S. \<forall>T' \<in> S. guarded T' \<longrightarrow> T_ID T \<noteq> guard_ID T')"

text \<open>The overloads that exist: a call with a type without one does not compile.\<close>

definition op_ok :: "ext_type set \<Rightarrow> ext_op \<Rightarrow> bool" where
  "op_ok S x \<longleftrightarrow> uses_type x \<subseteq> S \<and> (case x of GetExt T \<Rightarrow> T_kind T = gs_guarded_data_id | GetGuard T \<Rightarrow> T_kind T = gs_real_guard_id
     | GetData T \<Rightarrow> T_kind T = gs_data_id | Validate T \<Rightarrow> guarded T | Invalidate T \<Rightarrow> guarded T | ResetTxn \<Rightarrow> True)"

text \<open>The specification: a set of transactions with the types that are valid in them.\<close>

definition spec_ext_step :: "(nat \<Rightarrow> bool) \<Rightarrow> nat \<times> ext_op \<Rightarrow> (nat \<times> ext_type) set \<Rightarrow> (nat \<times> ext_type) set" where
  "spec_ext_step mm x A = (case x of
     (k, Validate T) \<Rightarrow> insert (k, T) A
   | (k, Invalidate T) \<Rightarrow> A - {(k, T)}
   | (k, ResetTxn) \<Rightarrow> if mm k then {r \<in> A. fst r \<noteq> k} else A
   | _ \<Rightarrow> A)"

section \<open>Objects are not shared\<close>

definition pools_ok :: "'p exts \<Rightarrow> bool" where
  "pools_ok w \<longleftrightarrow> (\<forall>i p. p_pool w i = Some p \<longrightarrow> distinct (in_pool p) \<and> (\<forall>e \<in> set (in_pool p). e < next_addr w))
     \<and> (\<forall>i j p q. p_pool w i = Some p \<longrightarrow> p_pool w j = Some q \<longrightarrow> i \<noteq> j \<longrightarrow> set (in_pool p) \<inter> set (in_pool q) = {})"

definition outside :: "'p exts \<Rightarrow> nat \<Rightarrow> bool" where
  "outside w e \<longleftrightarrow> e < next_addr w \<and> (\<forall>i p. p_pool w i = Some p \<longrightarrow> e \<notin> set (in_pool p))"

text \<open>Only the pools and the next address matter; a new address range is outside of all that is there.\<close>

lemma register_cast_fields [simp]:
  "p_pool (register_cast mx i w) = p_pool w" "next_addr (register_cast mx i w) = next_addr w"
  "ext_txns (register_cast mx i w) = ext_txns w" "ext_valid (register_cast mx i w) = ext_valid w"
  "singleton (register_cast mx i w) = singleton w"
  by (simp_all add: register_cast_def)

lemma pools_okD:
  "pools_ok w \<Longrightarrow> p_pool w i = Some p \<Longrightarrow> distinct (in_pool p)"
  "pools_ok w \<Longrightarrow> p_pool w i = Some p \<Longrightarrow> e \<in> set (in_pool p) \<Longrightarrow> e < next_addr w"
  "pools_ok w \<Longrightarrow> p_pool w i = Some p \<Longrightarrow> p_pool w j = Some q \<Longrightarrow> i \<noteq> j \<Longrightarrow> e \<in> set (in_pool p) \<Longrightarrow> e \<notin> set (in_pool q)"
  unfolding pools_ok_def by blast+

lemma pools_ok_upd:
  assumes "pools_ok w" and "p_pool w' = (p_pool w)(i \<mapsto> p)" and "next_addr w \<le> next_addr w'" and "distinct (in_pool p)"
    and "\<And>e. e \<in> set (in_pool p) \<Longrightarrow> next_addr w \<le> e \<and> e < next_addr w' \<or> (\<exists>q. p_pool w i = Some q \<and> e \<in> set (in_pool q))"
  shows "pools_ok w'"
proof -
  have old: "e < next_addr w" if "p_pool w j = Some q" "e \<in> set (in_pool q)" for j q e
    using pools_okD(2) [OF assms(1)] that by blast
  have new: "e < next_addr w'" if "e \<in> set (in_pool p)" for e
    using assms(5) [OF that] old assms(3) by force
  have dis: "e \<notin> set (in_pool q)" if "e \<in> set (in_pool p)" "p_pool w j = Some q" "j \<noteq> i" for e j q
    using assms(5) [OF that(1)] old [OF that(2)] pools_okD(3) [OF assms(1) _ that(2)] that(3) by (metis not_le)
  have "distinct (in_pool q) \<and> (\<forall>e \<in> set (in_pool q). e < next_addr w')" if "p_pool w' j = Some q" for j q
  proof (cases "j = i")
    case True
    then show ?thesis using that assms(2,4) new by auto
  next
    case False
    then have "p_pool w j = Some q" using that assms(2) by simp
    then show ?thesis using pools_okD(1) [OF assms(1)] old assms(3) by (meson less_le_trans)
  qed
  moreover have "set (in_pool q) \<inter> set (in_pool r) = {}" if "p_pool w' j = Some q" "p_pool w' k = Some r" "j \<noteq> k" for j k q r
  proof -
    consider "j = i" | "k = i" | "j \<noteq> i" "k \<noteq> i" by blast
    then show ?thesis
    proof cases
      case 1
      then have "q = p" "p_pool w k = Some r" using that assms(2) by auto
      then show ?thesis using dis that(3) 1 by auto
    next
      case 2
      then have "r = p" "p_pool w j = Some q" using that assms(2) by auto
      then show ?thesis using dis that(3) 2 by auto
    next
      case 3
      then have "p_pool w j = Some q" "p_pool w k = Some r" using that assms(2) by auto
      from pools_okD(3) [OF assms(1) this that(3)] show ?thesis by auto
    qed
  qed
  ultimately show ?thesis unfolding pools_ok_def by blast
qed

lemma ensure_pool_facts:
  assumes "pools_ok w" and "ensure_pool M T w = (p, w')"
  shows "pools_ok w'" and "p_pool w' (T_ID T) = Some p" and "outside w e \<Longrightarrow> outside w' e"
    and "ext_txns w' = ext_txns w" and "ext_valid w' = ext_valid w"
proof -
  have "pools_ok w' \<and> p_pool w' (T_ID T) = Some p \<and> (outside w e \<longrightarrow> outside w' e) \<and> ext_txns w' = ext_txns w \<and> ext_valid w' = ext_valid w"
  proof (cases "p_pool w (T_ID T)")
    case None
    then have p: "p_pool w' = (p_pool w)(T_ID T \<mapsto> p)" "next_addr w' = next_addr w + 10" "in_pool p = rev [next_addr w..<next_addr w + 10]"
        "ext_txns w' = ext_txns w" "ext_valid w' = ext_valid w"
      using assms(2) by (auto simp: ensure_pool_def extension_pool_def)
    have "pools_ok w'" by (rule pools_ok_upd [OF assms(1) p(1)]) (use p(2,3) in auto)
    then show ?thesis using p by (auto simp: outside_def)
  qed (use assms in \<open>auto simp: ensure_pool_def\<close>)
  then show "pools_ok w'" "p_pool w' (T_ID T) = Some p" "outside w e \<Longrightarrow> outside w' e" "ext_txns w' = ext_txns w" "ext_valid w' = ext_valid w"
    by auto
qed

lemma create_extension_facts:
  assumes "pools_ok w" and "create_extension M T w = (e, w')"
  shows "pools_ok w'" and "outside w u \<Longrightarrow> outside w' u" and "ext_txns w' = ext_txns w" and "ext_valid w' = ext_valid w"
    and "T_kind T \<noteq> gs_array_guard_id \<Longrightarrow> outside w' e" and "T_kind T \<noteq> gs_array_guard_id \<Longrightarrow> outside w u \<Longrightarrow> u \<noteq> e"
proof -
  have all: "pools_ok w' \<and> (outside w u \<longrightarrow> outside w' u) \<and> ext_txns w' = ext_txns w \<and> ext_valid w' = ext_valid w
    \<and> (T_kind T \<noteq> gs_array_guard_id \<longrightarrow> outside w' e \<and> (outside w u \<longrightarrow> u \<noteq> e))"
  proof (cases "T_kind T = gs_array_guard_id")
    case True
    then have "p_pool w' = p_pool w" "next_addr w \<le> next_addr w'" "ext_txns w' = ext_txns w" "ext_valid w' = ext_valid w"
      using assms(2) by (auto simp: create_extension_def create_guard_def Let_def split: option.splits)
    then show ?thesis using True assms(1) unfolding pools_ok_def outside_def by (auto dest: less_le_trans)
  next
    case False
    obtain p w1 where p: "ensure_pool M T w = (p, w1)" by fastforce
    note f = ensure_pool_facts [OF assms(1) p]
    obtain p' a where c: "ep_create p (next_addr w1) = (e, p', a)"
        and w': "w' = w1\<lparr>p_pool := (p_pool w1)(T_ID T \<mapsto> p'), next_addr := a, my_pool := (my_pool w1)(e \<mapsto> T_ID T)\<rparr>"
      using assms(2) False p by (auto simp: create_extension_def Let_def split: prod.splits)
    have cases: "in_pool p = [] \<and> e = next_addr w1 \<and> in_pool p' = [] \<and> a = next_addr w1 + 1
        \<or> in_pool p = e # in_pool p' \<and> a = next_addr w1"
      using c by (auto simp: ep_create_def split: list.splits)
    have ok: "pools_ok w'"
      by (rule pools_ok_upd [OF f(1), of _ "T_ID T" p'])
        (use cases pools_okD(1) [OF f(1) f(2)] f(2) in \<open>auto simp: w'\<close>)
    have "e \<notin> set (in_pool p')" "e < a"
      using cases pools_okD(1,2) [OF f(1) f(2)] by auto
    moreover have "e \<notin> set (in_pool q)" if "p_pool w1 j = Some q" "j \<noteq> T_ID T" for j q
      using cases pools_okD(2) [OF f(1) that(1)] pools_okD(3) [OF f(1) f(2) that(1)] that(2) by force
    ultimately have "outside w' e" unfolding outside_def w' by auto
    moreover have "outside w' u \<and> u \<noteq> e" if "outside w1 u"
    proof -
      have "u \<notin> set (in_pool p)" "u < next_addr w1" using that f(2) unfolding outside_def by blast+
      then have "u \<noteq> e" "u \<notin> set (in_pool p')" "u < a" using cases by auto
      then show ?thesis using that unfolding outside_def w' by auto
    qed
    ultimately show ?thesis using ok f(3-5) by (auto simp: w')
  qed
  then show "pools_ok w'" "outside w u \<Longrightarrow> outside w' u" "ext_txns w' = ext_txns w" "ext_valid w' = ext_valid w"
    "T_kind T \<noteq> gs_array_guard_id \<Longrightarrow> outside w' e" "T_kind T \<noteq> gs_array_guard_id \<Longrightarrow> outside w u \<Longrightarrow> u \<noteq> e"
    by auto
qed

section \<open>Invariant and refinement\<close>

definition objects_ok :: "'p tlm_ops \<Rightarrow> ext_type set \<Rightarrow> 'p exts \<Rightarrow> bool" where
  "objects_ok M S w \<longleftrightarrow> pools_ok w
     \<and> (\<forall>k. \<forall>T \<in> S. \<forall>e. get_ext M (ext_txns w k) (T_ID T) = Some e \<longrightarrow> outside w e)
     \<and> (\<forall>k k'. \<forall>T \<in> S. \<forall>T' \<in> S. \<forall>e. get_ext M (ext_txns w k) (T_ID T) = Some e \<longrightarrow> get_ext M (ext_txns w k') (T_ID T') = Some e
          \<longrightarrow> k = k' \<and> T = T')"

definition valid_in :: "'p tlm_ops \<Rightarrow> 'p exts \<Rightarrow> nat \<Rightarrow> ext_type \<Rightarrow> bool" where
  "valid_in M w k T \<longleftrightarrow> get_ext M (ext_txns w k) (guard_ID T) \<noteq> None
     \<and> (case get_ext M (ext_txns w k) (T_ID T) of None \<Rightarrow> False | Some e \<Rightarrow> ext_valid w e)"

definition autos_ok :: "'p tlm_ops \<Rightarrow> ext_type set \<Rightarrow> 'p \<Rightarrow> bool" where
  "autos_ok M S p \<longleftrightarrow> distinct (auto_exts M p) \<and> set (auto_exts M p) \<subseteq> guard_ID ` {T \<in> S. guarded T}
     \<and> (if has_mm M p then \<forall>T \<in> S. guarded T \<longrightarrow> (get_ext M p (guard_ID T) \<noteq> None \<longleftrightarrow> guard_ID T \<in> set (auto_exts M p))
        else auto_exts M p = [])"

definition exts_ok :: "'p tlm_ops \<Rightarrow> ext_type set \<Rightarrow> (nat \<Rightarrow> bool) \<Rightarrow> 'p exts \<Rightarrow> (nat \<times> ext_type) set \<Rightarrow> bool" where
  "exts_ok M S mm w A \<longleftrightarrow> objects_ok M S w \<and> (\<forall>k. autos_ok M S (ext_txns w k) \<and> has_mm M (ext_txns w k) = mm k)
     \<and> (\<forall>k. \<forall>T \<in> S. guarded T \<longrightarrow> ((k, T) \<in> A \<longleftrightarrow> valid_in M w k T))"

lemma tlm_get:
  assumes "tlm_laws M"
  shows "get_ext M (set_ext M i e p) j = (if j = i then Some e else get_ext M p j)"
    and "get_ext M (set_auto_ext M i e p) j = (if j = i then Some e else get_ext M p j)"
    and "get_ext M (clear_ext M i p) j = (if j = i then None else get_ext M p j)"
    and "get_ext M (txn_reset M p) j = (if j \<in> set (auto_exts M p) then None else get_ext M p j)"
  using assms by (simp_all add: tlm_laws_def)

lemma tlm_rest:
  assumes "tlm_laws M"
  shows "auto_exts M (set_ext M i e p) = auto_exts M p" "auto_exts M (set_auto_ext M i e p) = i # auto_exts M p"
    "auto_exts M (clear_ext M i p) = auto_exts M p" "auto_exts M (txn_reset M p) = []"
    "has_mm M (set_ext M i e p) = has_mm M p" "has_mm M (set_auto_ext M i e p) = has_mm M p"
    "has_mm M (clear_ext M i p) = has_mm M p" "has_mm M (txn_reset M p) = has_mm M p"
  using assms by (simp_all add: tlm_laws_def)

lemma upd_txn_fields [simp]:
  "ext_txns (upd_txn k f w) j = (if j = k then f (ext_txns w k) else ext_txns w j)" "ext_valid (upd_txn k f w) = ext_valid w"
  "p_pool (upd_txn k f w) = p_pool w" "next_addr (upd_txn k f w) = next_addr w"
  by (simp_all add: upd_txn_def)

text \<open>A change of a transaction that adds no pointer keeps the objects.\<close>

lemma objects_ok_weaken:
  assumes "objects_ok M S w" and "pools_ok w'" and "\<And>e. outside w e \<Longrightarrow> outside w' e"
    and "\<And>j T e. T \<in> S \<Longrightarrow> get_ext M (ext_txns w' j) (T_ID T) = Some e \<Longrightarrow> get_ext M (ext_txns w j) (T_ID T) = Some e"
  shows "objects_ok M S w'"
  using assms(1,2,3) assms(4) unfolding objects_ok_def by meson

lemma ext_or_new_facts:
  assumes M: "tlm_laws M" and w: "objects_ok M S w" and T: "T \<in> S" "types_ok S" and r: "ext_or_new M T k w = (e, new, w1)"
  shows "objects_ok M S w1" and "get_ext M (ext_txns w1 k) (T_ID T) = Some e"
    and "\<And>j i. (j, i) \<noteq> (k, T_ID T) \<Longrightarrow> get_ext M (ext_txns w1 j) i = get_ext M (ext_txns w j) i"
    and "ext_valid w1 = ext_valid w" and "\<And>j. auto_exts M (ext_txns w1 j) = auto_exts M (ext_txns w j)"
    and "\<And>j. has_mm M (ext_txns w1 j) = has_mm M (ext_txns w j)"
    and "new = (get_ext M (ext_txns w k) (T_ID T) = None)" and "\<not> new \<Longrightarrow> w1 = w"
proof -
  have "objects_ok M S w1 \<and> get_ext M (ext_txns w1 k) (T_ID T) = Some e
    \<and> (\<forall>j i. (j, i) \<noteq> (k, T_ID T) \<longrightarrow> get_ext M (ext_txns w1 j) i = get_ext M (ext_txns w j) i)
    \<and> ext_valid w1 = ext_valid w \<and> (\<forall>j. auto_exts M (ext_txns w1 j) = auto_exts M (ext_txns w j))
    \<and> (\<forall>j. has_mm M (ext_txns w1 j) = has_mm M (ext_txns w j)) \<and> new = (get_ext M (ext_txns w k) (T_ID T) = None) \<and> (\<not> new \<longrightarrow> w1 = w)"
  proof (cases "get_ext M (ext_txns w k) (T_ID T)")
    case (Some a)
    then show ?thesis using r w by (auto simp: ext_or_new_def)
  next
    case None
    obtain w0 where c: "create_extension M T w = (e, w0)" and w1: "w1 = upd_txn k (set_ext M (T_ID T) e) w0" "new"
      using r None by (auto simp: ext_or_new_def split: prod.splits)
    have "T_kind T \<noteq> gs_array_guard_id" using T by (auto simp: types_ok_def)
    note f = create_extension_facts [OF _ c] create_extension_facts(5,6) [OF _ c this]
    have p: "pools_ok w" using w by (simp add: objects_ok_def)
    have get: "get_ext M (ext_txns w1 j) i = (if (j, i) = (k, T_ID T) then Some e else get_ext M (ext_txns w j) i)" for j i
      using f(3) [OF p] by (auto simp: w1 tlm_get [OF M])
    have id: "T' = T" if "T' \<in> S" "T_ID T' = T_ID T" for T'
      using T that by (auto simp: types_ok_def inj_on_def)
    have out: "outside w1 u = outside w0 u" for u by (simp add: outside_def w1)
    have fresh: "get_ext M (ext_txns w j) (T_ID T') \<noteq> Some e" if "T' \<in> S" for j T'
      using w that f(8) [OF p] unfolding objects_ok_def by blast
    have "objects_ok M S w1"
      unfolding objects_ok_def
    proof (intro conjI allI ballI impI)
      show "pools_ok w1" using f(1) [OF p] by (simp add: pools_ok_def w1)
      show "outside w1 u" if "T' \<in> S" "get_ext M (ext_txns w1 j) (T_ID T') = Some u" for j T' u
        using that w f(2) [OF p] f(7) [OF p] unfolding objects_ok_def get out by (auto split: if_splits)
      show "j = j'" "T1 = T2" if "T1 \<in> S" "T2 \<in> S" "get_ext M (ext_txns w1 j) (T_ID T1) = Some u"
        "get_ext M (ext_txns w1 j') (T_ID T2) = Some u" for j j' T1 T2 u
        using that w fresh id [OF that(1)] id [OF that(2)] unfolding objects_ok_def get by (auto split: if_splits)
    qed
    moreover have "get_ext M (ext_txns w1 k) (T_ID T) = Some e" using get [of k "T_ID T"] by simp
    moreover have "\<forall>j i. (j, i) \<noteq> (k, T_ID T) \<longrightarrow> get_ext M (ext_txns w1 j) i = get_ext M (ext_txns w j) i" using get by simp
    ultimately show ?thesis using w1 None f(3,4) [OF p] by (simp add: tlm_rest [OF M])
  qed
  then show "objects_ok M S w1" "get_ext M (ext_txns w1 k) (T_ID T) = Some e"
    "\<And>j i. (j, i) \<noteq> (k, T_ID T) \<Longrightarrow> get_ext M (ext_txns w1 j) i = get_ext M (ext_txns w j) i"
    "ext_valid w1 = ext_valid w" "\<And>j. auto_exts M (ext_txns w1 j) = auto_exts M (ext_txns w j)"
    "\<And>j. has_mm M (ext_txns w1 j) = has_mm M (ext_txns w j)" "new = (get_ext M (ext_txns w k) (T_ID T) = None)" "\<not> new \<Longrightarrow> w1 = w"
    by auto
qed

text \<open>What a call does to the validity of every type in every transaction.\<close>

lemma valid_in_cong:
  assumes "get_ext M (ext_txns w' j) (guard_ID T) = get_ext M (ext_txns w j) (guard_ID T)"
    and "get_ext M (ext_txns w' j) (T_ID T) = get_ext M (ext_txns w j) (T_ID T)"
    and "\<And>e. get_ext M (ext_txns w j) (T_ID T) = Some e \<Longrightarrow> ext_valid w' e = ext_valid w e"
  shows "valid_in M w' j T = valid_in M w j T"
  using assms by (auto simp: valid_in_def split: option.splits)

lemma ids_differ:
  assumes "types_ok S" and "T \<in> S" and "T' \<in> S"
  shows "T \<noteq> T' \<Longrightarrow> T_ID T \<noteq> T_ID T'" and "guarded T' \<Longrightarrow> T_ID T \<noteq> guard_ID T'"
    and "guarded T \<Longrightarrow> guarded T' \<Longrightarrow> T \<noteq> T' \<Longrightarrow> guard_ID T \<noteq> guard_ID T'"
  using assms by (auto simp: types_ok_def inj_on_def)

lemma ext_or_new_valid:
  assumes "tlm_laws M" and "exts_ok M S mm w A" and "T \<in> S" and "types_ok S" and "ext_or_new M T k w = (e, new, w1)"
    and "T' \<in> S" and "guarded T'" and "(j, T') \<noteq> (k, T)"
  shows "valid_in M w1 j T' = valid_in M w j T'"
proof -
  have w: "objects_ok M S w" using assms(2) by (simp add: exts_ok_def)
  note f = ext_or_new_facts [OF assms(1) w assms(3,4,5)]
  have "(j, guard_ID T') \<noteq> (k, T_ID T)" "(j, T_ID T') \<noteq> (k, T_ID T)"
    using ids_differ [OF assms(4,3,6)] assms(7,8) by auto
  then show ?thesis using f(3,4) by (intro valid_in_cong) auto
qed

lemma autos_ok_cong:
  assumes "autos_ok M S p" and "auto_exts M p' = auto_exts M p" and "has_mm M p' = has_mm M p"
    and "has_mm M p \<Longrightarrow> \<forall>T \<in> S. guarded T \<longrightarrow> get_ext M p' (guard_ID T) = get_ext M p (guard_ID T)"
  shows "autos_ok M S p'"
  using assms by (auto simp: autos_ok_def split: if_splits)

lemma get_step_ok:
  assumes M: "tlm_laws M" and w: "exts_ok M S mm w A" and T: "T \<in> S" "types_ok S"
    and r: "ext_or_new M T k w = (e, new, w1)" and w2: "w2 = (if new \<and> guarded T then w1\<lparr>ext_valid := (ext_valid w1)(e := False)\<rparr> else w1)"
  shows "exts_ok M S mm w2 A"
proof -
  have o: "objects_ok M S w" using w by (simp add: exts_ok_def)
  note f = ext_or_new_facts [OF M o T r]
  have same: "ext_txns w2 = ext_txns w1" "p_pool w2 = p_pool w1" "next_addr w2 = next_addr w1" by (simp_all add: w2)
  have o2: "objects_ok M S w2"
    by (rule objects_ok_weaken [OF f(1)]) (use f(1) same in \<open>auto simp: objects_ok_def pools_ok_def outside_def\<close>)
  have g: "get_ext M (ext_txns w2 j) (guard_ID T') = get_ext M (ext_txns w j) (guard_ID T')" if "T' \<in> S" "guarded T'" for j T'
    using f(3) [of j "guard_ID T'"] ids_differ(2) [OF T(2,1) that] same(1) by auto
  have valid: "valid_in M w2 j T' = valid_in M w j T'" if T': "T' \<in> S" "guarded T'" for j T'
  proof (cases "(j, T') = (k, T)")
    case True
    have "new \<Longrightarrow> \<not> valid_in M w j T'" using True f(7) by (simp add: valid_in_def)
    moreover have "new \<Longrightarrow> \<not> valid_in M w2 j T'" using True f(2) T' same by (simp add: valid_in_def w2)
    moreover have "\<not> new \<Longrightarrow> w2 = w" using f(8) by (simp add: w2)
    ultimately show ?thesis by auto
  next
    case False
    then have "(j, T_ID T') \<noteq> (k, T_ID T)" using ids_differ(1) [OF T(2,1) T'(1)] by auto
    then have get: "get_ext M (ext_txns w1 j) (T_ID T') = get_ext M (ext_txns w j) (T_ID T')" by (rule f(3))
    have "ext_valid w2 u = ext_valid w1 u" if "get_ext M (ext_txns w j) (T_ID T') = Some u" for u
    proof -
      have "u \<noteq> e" using f(1) f(2) that get False T'(1) T(1) unfolding objects_ok_def by metis
      then show ?thesis by (simp add: w2)
    qed
    then have "valid_in M w2 j T' = valid_in M w1 j T'" using get by (intro valid_in_cong) (simp_all add: same)
    then show ?thesis using ext_or_new_valid [OF M w T r T' False] by simp
  qed
  have "autos_ok M S (ext_txns w2 j)" for j
    by (rule autos_ok_cong [of M S "ext_txns w j"]) (use w f(5,6) g same in \<open>auto simp: exts_ok_def\<close>)
  then show ?thesis using w o2 valid f(6) same by (simp add: exts_ok_def)
qed

lemma guard_added:
  assumes M: "tlm_laws M" and w: "objects_ok M S w" and T: "T \<in> S" "types_ok S" "guarded T"
    and c: "create_extension M (guard_type T) w = (ge, w3)"
    and set: "add = set_ext M (guard_ID T) ge \<or> add = set_auto_ext M (guard_ID T) ge"
    and w4_def: "w4 = upd_txn k add w3"
  shows "objects_ok M S w4" and "ext_valid w4 = ext_valid w"
    and "get_ext M (ext_txns w4 j) i = (if (j, i) = (k, guard_ID T) then Some ge else get_ext M (ext_txns w j) i)"
proof -
  have p: "pools_ok w" using w by (simp add: objects_ok_def)
  note f = create_extension_facts [OF p c]
  show get: "get_ext M (ext_txns w4 j) i = (if (j, i) = (k, guard_ID T) then Some ge else get_ext M (ext_txns w j) i)" for j i
    using set f(3) by (auto simp: w4_def tlm_get [OF M])
  show "ext_valid w4 = ext_valid w" using f(4) by (simp add: w4_def)
  show "objects_ok M S w4"
  proof (rule objects_ok_weaken [OF w])
    show "pools_ok w4" using f(1) by (simp add: pools_ok_def w4_def)
    show "outside w4 e" if "outside w e" for e using f(2) [OF that] by (simp add: outside_def w4_def)
    show "get_ext M (ext_txns w j) (T_ID T') = Some e" if "T' \<in> S" "get_ext M (ext_txns w4 j) (T_ID T') = Some e" for j T' e
      using that ids_differ(2) [OF T(2) that(1) T(1,3)] by (auto simp: get split: if_splits)
  qed
qed

lemma flag_set_ok:
  assumes w: "objects_ok M S w" and T: "T \<in> S" and e: "get_ext M (ext_txns w k) (T_ID T) = Some e"
  shows "objects_ok M S (w\<lparr>ext_valid := (ext_valid w)(e := b)\<rparr>)"
    and "T' \<in> S \<Longrightarrow> (j, T') \<noteq> (k, T) \<Longrightarrow> valid_in M (w\<lparr>ext_valid := (ext_valid w)(e := b)\<rparr>) j T' = valid_in M w j T'"
proof -
  show "objects_ok M S (w\<lparr>ext_valid := (ext_valid w)(e := b)\<rparr>)"
    using w by (simp add: objects_ok_def pools_ok_def outside_def)
  show "valid_in M (w\<lparr>ext_valid := (ext_valid w)(e := b)\<rparr>) j T' = valid_in M w j T'" if "T' \<in> S" "(j, T') \<noteq> (k, T)"
  proof (rule valid_in_cong)
    fix u assume "get_ext M (ext_txns w j) (T_ID T') = Some u"
    then have "u \<noteq> e" using w e that T unfolding objects_ok_def by blast
    then show "ext_valid (w\<lparr>ext_valid := (ext_valid w)(e := b)\<rparr>) u = ext_valid w u" by simp
  qed simp_all
qed

lemma validate_step_ok:
  assumes M: "tlm_laws M" and w: "exts_ok M S mm w A" and T: "T \<in> S" "types_ok S" "guarded T"
  shows "exts_ok M S mm (snd (validate_extension M T k w)) (insert (k, T) A)" and "fst (validate_extension M T k w) = mm k"
proof -
  obtain e new w1 where r: "ext_or_new M T k w = (e, new, w1)" by (metis prod_cases3)
  have o: "objects_ok M S w" and mmk: "has_mm M (ext_txns w j) = mm j" for j using w by (simp_all add: exts_ok_def)
  note f = ext_or_new_facts [OF M o T(1,2) r]
  let ?w2 = "w1\<lparr>ext_valid := (ext_valid w1)(e := True)\<rparr>"
  note flag = flag_set_ok [OF f(1) T(1) f(2), where b = True]
  obtain ge w3 where c: "create_extension M (guard_type T) ?w2 = (ge, w3)" by fastforce
  have mm2: "has_mm M (ext_txns ?w2 j) = mm j" for j using f(6) mmk by simp
  define w4 where "w4 = snd (validate_extension M T k w)"
  have w4: "w4 = (if mm k then (if get_ext M (ext_txns ?w2 k) (guard_ID T) = None then upd_txn k (set_auto_ext M (guard_ID T) ge) w3 else ?w2)
      else upd_txn k (set_ext M (guard_ID T) ge) w3)"
    using r c mm2 by (simp add: w4_def validate_extension_def Let_def)
  note g = guard_added [OF M flag(1) T c _ refl]
  have get4: "get_ext M (ext_txns w4 j) i = (if (j, i) = (k, guard_ID T) then Some (case (mm k, get_ext M (ext_txns w1 k) (guard_ID T)) of (True, Some x) \<Rightarrow> x | _ \<Rightarrow> ge)
      else get_ext M (ext_txns w1 j) i)" for j i
    using g(3) by (auto simp: w4 tlm_get [OF M] split: option.splits)
  have o4: "objects_ok M S w4" using g(1) flag(1) by (auto simp: w4)
  have v4: "ext_valid w4 = ext_valid ?w2" using g(2) by (auto simp: w4)
  have old: "get_ext M (ext_txns w1 j) (guard_ID T') = get_ext M (ext_txns w j) (guard_ID T')" if "T' \<in> S" "guarded T'" for j T'
    using f(3) [of j "guard_ID T'"] ids_differ(2) [OF T(2,1) that] by auto
  have valid: "valid_in M w4 j T' = ((j, T') = (k, T) \<or> valid_in M w j T')" if T': "T' \<in> S" "guarded T'" for j T'
  proof (cases "(j, T') = (k, T)")
    case True
    then show ?thesis using f(2) ids_differ(2) [OF T(2,1,1,3)] by (simp add: valid_in_def get4 v4)
  next
    case False
    have "valid_in M w4 j T' = valid_in M ?w2 j T'"
      using ids_differ(2) [OF T(2) T'(1) T(1,3)] ids_differ(3) [OF T(2) T'(1) T(1) T'(2) T(3)] False
      by (intro valid_in_cong) (auto simp: get4 v4)
    then have "valid_in M w4 j T' = valid_in M w j T'"
      using flag(2) [OF T'(1) False] ext_or_new_valid [OF M w T(1,2) r T' False] by simp
    then show ?thesis using False by blast
  qed
  have auto4: "auto_exts M (ext_txns w4 j) = (if j = k \<and> mm k \<and> get_ext M (ext_txns w k) (guard_ID T) = None
      then guard_ID T # auto_exts M (ext_txns w j) else auto_exts M (ext_txns w j))"
    and mm4: "has_mm M (ext_txns w4 j) = mm j" for j
    using create_extension_facts(3) [OF _ c] f(1,5,6) mmk old [OF T(1,3)]
    by (auto simp: w4 tlm_rest [OF M] objects_ok_def pools_ok_def)
  have "autos_ok M S (ext_txns w4 j)" for j
  proof -
    have a: "autos_ok M S (ext_txns w j)" using w by (simp add: exts_ok_def)
    have gi: "guard_ID T' = guard_ID T \<longleftrightarrow> T' = T" if "T' \<in> S" "guarded T'" for T'
      using ids_differ(3) [OF T(2) that(1) T(1) that(2) T(3)] by auto
    show ?thesis
    proof (cases "j = k")
      case False
      then show ?thesis using a auto4 mm4 mmk old by (intro autos_ok_cong [OF a]) (auto simp: get4)
    next
      case True
      then show ?thesis using a T gi old unfolding autos_ok_def auto4 mm4 mmk by (auto simp: get4 split: if_splits)
    qed
  qed
  then show "exts_ok M S mm (snd (validate_extension M T k w)) (insert (k, T) A)"
    using w o4 valid mm4 unfolding w4_def [symmetric] by (auto simp: exts_ok_def)
  show "fst (validate_extension M T k w) = mm k"
    using r mm2 [of k] by (simp add: validate_extension_def Let_def split: prod.splits)
qed

text \<open>Removing extensions from a transaction keeps the objects.\<close>

lemma removed_ok:
  assumes w: "exts_ok M S mm w A"
    and get: "\<And>i. i \<in> R \<Longrightarrow> get_ext M (g (ext_txns w k)) i = None" "\<And>i. i \<notin> R \<Longrightarrow> get_ext M (g (ext_txns w k)) i = get_ext M (ext_txns w k) i"
    and ids: "\<And>T. T \<in> S \<Longrightarrow> T_ID T \<notin> R"
  shows "objects_ok M S (upd_txn k g w)"
    and "T \<in> S \<Longrightarrow> valid_in M (upd_txn k g w) j T = (valid_in M w j T \<and> (j = k \<longrightarrow> guard_ID T \<notin> R))"
proof -
  have same: "get_ext M (ext_txns (upd_txn k g w) j) (T_ID T) = get_ext M (ext_txns w j) (T_ID T)" if "T \<in> S" for j T
    using get(2) ids [OF that] by simp
  show "objects_ok M S (upd_txn k g w)"
    by (rule objects_ok_weaken [of M S w]) (use w same in \<open>auto simp: exts_ok_def objects_ok_def pools_ok_def outside_def\<close>)
  show "valid_in M (upd_txn k g w) j T = (valid_in M w j T \<and> (j = k \<longrightarrow> guard_ID T \<notin> R))" if "T \<in> S"
    using get ids [OF that] by (cases "guard_ID T \<in> R") (auto simp: valid_in_def split: option.splits)
qed

lemma autos_upd:
  "exts_ok M S mm w A \<Longrightarrow> autos_ok M S (g (ext_txns w k)) \<Longrightarrow> autos_ok M S (ext_txns (upd_txn k g w) j)"
  by (simp add: exts_ok_def)

lemma invalidate_step_ok:
  assumes M: "tlm_laws M" and w: "exts_ok M S mm w A" and T: "T \<in> S" "types_ok S" "guarded T"
  shows "exts_ok M S mm (invalidate_extension M T k w) (A - {(k, T)})"
proof (cases "mm k")
  case False
  then have r: "invalidate_extension M T k w = upd_txn k (clear_ext M (guard_ID T)) w"
    using w by (simp add: invalidate_extension_def exts_ok_def)
  note g = removed_ok [OF w, of "{guard_ID T}" "clear_ext M (guard_ID T)" k]
  have o: "objects_ok M S (invalidate_extension M T k w)"
    and v: "T' \<in> S \<Longrightarrow> valid_in M (invalidate_extension M T k w) j T' = (valid_in M w j T' \<and> (j = k \<longrightarrow> guard_ID T' \<noteq> guard_ID T))" for j T'
    using g tlm_get(3) [OF M] ids_differ(2) [OF T(2) _ T(1,3)] unfolding r by auto
  have "(guard_ID T' = guard_ID T) = (T' = T)" if "T' \<in> S" "guarded T'" for T'
    using ids_differ(3) [OF T(2) that(1) T(1) that(2) T(3)] by auto
  moreover have "autos_ok M S (ext_txns (invalidate_extension M T k w) j)" for j
    using w False unfolding r by (intro autos_upd [OF w]) (simp add: exts_ok_def autos_ok_def tlm_rest [OF M])
  ultimately show ?thesis using w o v unfolding r by (auto simp: exts_ok_def tlm_rest [OF M])
next
  case True
  then have mm: "has_mm M (ext_txns w k)" using w by (simp add: exts_ok_def)
  show ?thesis
  proof (cases "get_ext M (ext_txns w k) (T_ID T)")
    case None
    then have "invalidate_extension M T k w = w" "\<not> valid_in M w k T" using mm by (simp_all add: invalidate_extension_def valid_in_def)
    then show ?thesis using w by (auto simp: exts_ok_def)
  next
    case (Some e)
    then have r: "invalidate_extension M T k w = w\<lparr>ext_valid := (ext_valid w)(e := False)\<rparr>" using mm by (simp add: invalidate_extension_def)
    have o: "objects_ok M S w" using w by (simp add: exts_ok_def)
    note f = flag_set_ok [OF o T(1) Some, where b = False]
    have "\<not> valid_in M (invalidate_extension M T k w) k T" using Some by (simp add: r valid_in_def)
    moreover have "valid_in M (invalidate_extension M T k w) j T' = valid_in M w j T'" if "T' \<in> S" "(j, T') \<noteq> (k, T)" for j T'
      unfolding r by (rule f(2) [OF that])
    ultimately have "(j, T') \<in> A - {(k, T)} \<longleftrightarrow> valid_in M (invalidate_extension M T k w) j T'" if "T' \<in> S" "guarded T'" for j T'
      using w that by (cases "(j, T') = (k, T)") (auto simp: exts_ok_def)
    then show ?thesis using w f(1) by (simp add: exts_ok_def r)
  qed
qed

lemma reset_step_ok:
  assumes M: "tlm_laws M" and w: "exts_ok M S mm w A" and S: "types_ok S"
  shows "exts_ok M S mm (upd_txn k (txn_reset M) w) (if mm k then {r \<in> A. fst r \<noteq> k} else A)"
proof -
  let ?R = "set (auto_exts M (ext_txns w k))"
  have a: "autos_ok M S (ext_txns w k)" and mm: "has_mm M (ext_txns w j) = mm j" for j using w by (simp_all add: exts_ok_def)
  have ids: "T_ID T \<notin> ?R" if "T \<in> S" for T
    using a ids_differ(2) [OF S that] unfolding autos_ok_def by fastforce
  note g = removed_ok [OF w, of ?R "txn_reset M" k, OF _ _ ids]
  have o: "objects_ok M S (upd_txn k (txn_reset M) w)"
    and v: "T \<in> S \<Longrightarrow> valid_in M (upd_txn k (txn_reset M) w) j T = (valid_in M w j T \<and> (j = k \<longrightarrow> guard_ID T \<notin> ?R))" for j T
    using g tlm_get(4) [OF M] by auto
  have off: "valid_in M w k T \<Longrightarrow> guard_ID T \<in> ?R" if "T \<in> S" "guarded T" "mm k" for T
    using a that mm by (simp add: autos_ok_def valid_in_def)
  have on: "?R = {}" if "\<not> mm k" using a that mm by (simp add: autos_ok_def)
  have "autos_ok M S (ext_txns (upd_txn k (txn_reset M) w) j)" for j
    by (rule autos_upd [OF w]) (use a in \<open>auto simp: autos_ok_def tlm_rest [OF M] tlm_get [OF M] simp del: not_None_eq split: if_splits\<close>)
  then show ?thesis using w o v off on by (auto simp: exts_ok_def tlm_rest [OF M])
qed

lemma ext_step_ok:
  assumes M: "tlm_laws M" and w: "exts_ok M S mm w A" and S: "types_ok S" and x: "op_ok S x"
  shows "exts_ok M S mm (ext_step M (k, x) w) (spec_ext_step mm (k, x) A)"
proof (cases x)
  case (GetExt T)
  obtain e new w1 where r: "ext_or_new M T k w = (e, new, w1)" by (metis prod_cases3)
  have T: "T \<in> S" "guarded T" using x GetExt by (simp_all add: op_ok_def uses_type_def guarded_def)
  show ?thesis using get_step_ok [OF M w T(1) S r refl] T(2) GetExt r
    by (auto simp: ext_step_def spec_ext_step_def get_guarded_data_def split: if_splits)
next
  case (GetData T)
  obtain e new w1 where r: "ext_or_new M T k w = (e, new, w1)" by (metis prod_cases3)
  have T: "T \<in> S" "\<not> guarded T" using x GetData by (simp_all add: op_ok_def uses_type_def guarded_def)
  show ?thesis using get_step_ok [OF M w T(1) S r refl] T(2) GetData r
    by (simp add: ext_step_def spec_ext_step_def get_data_def)
next
  case (GetGuard T)
  then show ?thesis using w by (simp add: ext_step_def spec_ext_step_def)
next
  case (Validate T)
  then show ?thesis using validate_step_ok(1) [OF M w _ S] x by (simp add: ext_step_def spec_ext_step_def op_ok_def uses_type_def)
next
  case (Invalidate T)
  then show ?thesis using invalidate_step_ok [OF M w _ S] x by (simp add: ext_step_def spec_ext_step_def op_ok_def uses_type_def)
next
  case ResetTxn
  then show ?thesis using reset_step_ok [OF M w S] by (simp add: ext_step_def spec_ext_step_def)
qed

lemma new_exts_ok:
  assumes "\<forall>k i. get_ext M (ps k) i = None" and "\<forall>k. auto_exts M (ps k) = []"
  shows "exts_ok M S (\<lambda>k. has_mm M (ps k)) (new_exts v0 ps) {}"
  using assms by (simp add: exts_ok_def objects_ok_def pools_ok_def autos_ok_def valid_in_def new_exts_def)

lemma ext_run_ok:
  assumes "tlm_laws M" and "types_ok S" and "\<forall>(k, x) \<in> set xs. op_ok S x" and "exts_ok M S mm w A"
  shows "exts_ok M S mm (fold (ext_step M) xs w) (fold (spec_ext_step mm) xs A)"
  using assms(3,4)
proof (induction xs arbitrary: w A)
  case (Cons r xs)
  obtain k x where r: "r = (k, x)" by fastforce
  have "exts_ok M S mm (ext_step M r w) (spec_ext_step mm r A)"
    using ext_step_ok [OF assms(1) Cons.prems(2) assms(2)] Cons.prems(1) r by simp
  then show ?case using Cons by simp
qed simp

section \<open>Properties\<close>

lemma get_guarded_data_valid:
  "fst (get_guarded_data M T k w) = valid_in M w k T"
proof (cases "get_ext M (ext_txns w k) (T_ID T)")
  case None
  then show ?thesis by (simp add: get_guarded_data_def ext_or_new_def valid_in_def split: prod.split)
next
  case (Some e)
  then show ?thesis by (simp add: get_guarded_data_def ext_or_new_def valid_in_def)
qed

lemma get_guard_valid: "get_guard M T k w \<noteq> None \<longleftrightarrow> valid_in M w k T"
  by (simp add: get_guard_def valid_in_def split: option.split)

text \<open>C35. Over any array of extensions with the laws of TLM, for transactions that start without extensions and any history
  of calls through the sockets on any of them: a guarded extension or a guard is seen in a transaction exactly when it has been
  validated there, and since then neither invalidated nor, for a transaction with memory management, reset. Switching a guard
  on and off never puts it twice on the stack of extensions that TLM removes by itself.\<close>

theorem extensions_refine_set:
  assumes "tlm_laws M" and "types_ok S" and "\<forall>(k, x) \<in> set xs. op_ok S x"
    and "\<forall>k i. get_ext M (ps k) i = None" and "\<forall>k. auto_exts M (ps k) = []" and "T \<in> S" and "guarded T"
    and w: "w = fold (ext_step M) xs (new_exts v0 ps)" and A: "A = fold (spec_ext_step (\<lambda>k. has_mm M (ps k))) xs {}"
  shows "(fst (get_guarded_data M T k w) \<longleftrightarrow> (k, T) \<in> A) \<and> (get_guard M T k w \<noteq> None \<longleftrightarrow> (k, T) \<in> A)
    \<and> distinct (auto_exts M (ext_txns w k)) \<and> set (auto_exts M (ext_txns w k)) \<subseteq> guard_ID ` {T \<in> S. guarded T}"
proof -
  have "exts_ok M S (\<lambda>k. has_mm M (ps k)) w A"
    using ext_run_ok [OF assms(1-3) new_exts_ok [OF assms(4,5)]] by (simp add: w A)
  then show ?thesis using assms(6,7) unfolding exts_ok_def autos_ok_def get_guarded_data_valid get_guard_valid by blast
qed

text \<open>A payload: the array as an association list, the stack, and whether it has a memory manager.\<close>

definition sample_ops_tlm :: "((nat \<times> nat) list \<times> nat list \<times> bool) tlm_ops" where
  "sample_ops_tlm = \<lparr>get_ext = (\<lambda>(m, _, _). map_of m), set_ext = (\<lambda>i e (m, r). ((i, e) # m, r)),
     set_auto_ext = (\<lambda>i e (m, a, b). ((i, e) # m, i # a, b)), clear_ext = (\<lambda>i (m, r). (filter (\<lambda>x. fst x \<noteq> i) m, r)),
     has_mm = (\<lambda>(_, _, b). b), txn_reset = (\<lambda>(m, a, b). (filter (\<lambda>x. fst x \<notin> set a) m, [], b)),
     auto_exts = (\<lambda>(_, a, _). a), max_num_extensions = 4\<rparr>"

lemma sample_ops_laws: "tlm_laws sample_ops_tlm"
proof -
  have "map_of (filter (\<lambda>x. fst x \<noteq> i) m) j = (if j \<noteq> i then map_of m j else None)"
    "map_of (filter (\<lambda>x. fst x \<notin> B) m) j = (if j \<notin> B then map_of m j else None)" for m :: "(nat \<times> nat) list" and i j B
    by (induction m) auto
  then show ?thesis by (auto simp: tlm_laws_def sample_ops_tlm_def)
qed

definition sample_guard :: ext_type where
  "sample_guard = \<lparr>T_ID = 0, T_kind = gs_real_guard_id, guard_ID = 1\<rparr>"

lemma sample_types: "types_ok {sample_guard}" "guarded sample_guard"
  by (auto simp: types_ok_def sample_guard_def guarded_def inj_on_def)

lemma extensions_refine_set_witness:
  "get_guard sample_ops_tlm sample_guard 5 (fold (ext_step sample_ops_tlm)
     [(5, Validate sample_guard), (5, Invalidate sample_guard), (5, Validate sample_guard)] (new_exts (\<lambda>_. False) (\<lambda>_. ([], [], True)))) \<noteq> None"
  using extensions_refine_set [OF sample_ops_laws sample_types(1), of "[(5, Validate sample_guard), (5, Invalidate sample_guard),
      (5, Validate sample_guard)]" "\<lambda>_. ([], [], True)" sample_guard, OF _ _ _ _ _ refl refl, of 5 "\<lambda>_. False"]
  by (simp add: op_ok_def uses_type_def sample_types(2) spec_ext_step_def sample_ops_tlm_def)

end
