(* ===== verification/Param_Lifetime.thy ===== *)
theory Param_Lifetime
  imports Config_Plugin Number_Text
begin

text \<open>
  Construction and destruction of parameters: the constructor and \<^verbatim>\<open>destruct_gs_param\<close> of
  \<^verbatim>\<open>gs_param_base.h\<close>, \<^verbatim>\<open>init\<close> and \<^verbatim>\<open>convertStringToValue\<close> of \<^verbatim>\<open>gs_param_t.h\<close>, and the constructors
  of \<^verbatim>\<open>gs_param_class.h\<close> with a name and a value. Objects live in the heap of the
  configuration database; \<^verbatim>\<open>addPar\<close> and \<^verbatim>\<open>removePar\<close> are the database's operations (what the
  plugin does around them is in \<open>Config_Plugin\<close>).
\<close>

section \<open>Construction\<close>

text \<open>
  The hierarchical name: the prefix of the module the object is created in, or the name of the
  parent array, and the given name or the next number of a static counter. (The warning about
  a top-level name for an array member leaves the name as it is.)
\<close>

definition par_name_of :: "string \<Rightarrow> string option \<Rightarrow> bool \<Rightarrow> nat \<Rightarrow> string \<Rightarrow> (string \<times> nat) res" where
  "par_name_of pre parent force cnt n =
     (if isHierarchicalParameterName n \<and> parent \<noteq> None
      then Inl (ScFatal ''Do not use hierarchical parameter names for Extended Parameter Array members!'')
      else
        let (local, cnt') = (if n = [] then (''no_name_'' @ decimal cnt, cnt + 1) else (n, cnt)) in
        Inr ((case parent of
                None \<Rightarrow> (if force then [] else pre)
              | Some arr \<Rightarrow> arr @ [SC_NAME_DELIMITER]) @ local, cnt'))"

text \<open>The fields as the base class's constructor sets them; \<open>raw\<close> is the value before \<^verbatim>\<open>init\<close>.\<close>

definition new_base :: "Param_type \<Rightarrow> string \<Rightarrow> 'v \<Rightarrow> bool \<Rightarrow> string \<Rightarrow> 'v gs_param" where
  "new_base ty tystr raw register_at_db nm =
     \<lparr>m_par_name = nm, p_type = ty, p_type_string = tystr, my_value = raw, my_default_value = raw,
      m_default_value_was_set = False, m_register_at_db = register_at_db, m_locked = False, m_lock_pwd = 0,
      m_making = False, m_delete_enqueued = 0, m_lists = (\<lambda>_. []), m_callers = (\<lambda>_. False),
      m_destruction_flag = False, m_is_initial_value = False, m_setting_initial_value_now = False,
      m_attributes = {}\<rparr>"

definition convertStringToValue :: "'v penv \<Rightarrow> string \<Rightarrow> 'v gs_param \<Rightarrow> 'v gs_param" where
  "convertStringToValue E str p = snd (deserialize E (subst_env E str (m_par_name p)) p)"

definition addPar :: "'v penv \<Rightarrow> nat \<Rightarrow> 'v cnf_state \<Rightarrow> 'v cnf_state res" where
  "addPar E a s =
     bindr (deref a s) (\<lambda>p.
       if m_register_at_db p then bindr (Config_Database.addParam E a s) (\<lambda>(_, s'). Inr s') else Inr s)"

text \<open>\<^verbatim>\<open>init(default_val)\<close> and \<^verbatim>\<open>init()\<close> on the object at an address.\<close>

definition init_value_of_param :: "'v penv \<Rightarrow> 'v \<Rightarrow> nat \<Rightarrow> 'v cnf_state \<Rightarrow> 'v cnf_state res" where
  "init_value_of_param E v a s =
     bindr (deref a s) (\<lambda>p.
       addPar E a (write_param a (p\<lparr>my_value := v, my_default_value := v, m_default_value_was_set := True\<rparr>) s))"

definition init_plain :: "'v penv \<Rightarrow> nat \<Rightarrow> 'v cnf_state \<Rightarrow> 'v cnf_state res" where
  "init_plain E a s =
     bindr (deref a s) (\<lambda>p.
       addPar E a (write_param a (convertStringToValue E [] (p\<lparr>m_default_value_was_set := False\<rparr>)) s))"

text \<open>
  \<^verbatim>\<open>new gs_param<T>(name, string, true)\<close> and \<^verbatim>\<open>new gs_param<T>(name, value, true)\<close> for a non-empty
  top-level name, put at the address \<open>a\<close>.
\<close>

definition new_from_string ::
  "'v penv \<Rightarrow> Param_type \<Rightarrow> string \<Rightarrow> 'v \<Rightarrow> string \<Rightarrow> string \<Rightarrow> nat \<Rightarrow> 'v cnf_state \<Rightarrow> 'v cnf_state res" where
  "new_from_string E ty tystr raw nm str a s =
     (let p = convertStringToValue E str (new_base ty tystr raw True nm)
      in init_value_of_param E (my_value p) a (write_param a p s))"

definition new_from_value ::
  "'v penv \<Rightarrow> Param_type \<Rightarrow> string \<Rightarrow> 'v \<Rightarrow> string \<Rightarrow> 'v \<Rightarrow> nat \<Rightarrow> 'v cnf_state \<Rightarrow> 'v cnf_state res" where
  "new_from_value E ty tystr raw nm v a s =
     init_value_of_param E v a (write_param a (new_base ty tystr raw True nm) s)"

section \<open>Destruction\<close>

text \<open>
  The flag is set before the \<^verbatim>\<open>destroy_param\<close> callbacks are made, then the object leaves the database
  and the heap.
\<close>

definition destruct_gs_param :: "'v penv \<Rightarrow> nat \<Rightarrow> 'v cnf_state \<Rightarrow> 'v cnf_state res" where
  "destruct_gs_param E a s =
     bindr (deref a s) (\<lambda>p.
     bindr (make_destroy_param_callbacks E (p\<lparr>m_destruction_flag := True\<rparr>)) (\<lambda>p1.
       if m_register_at_db p1
       then bindr (removeParam a (write_param a p1 s)) (\<lambda>(_, s'). Inr s')
       else Inr (write_param a p1 s)))"

definition delete_param :: "'v penv \<Rightarrow> nat \<Rightarrow> 'v cnf_state \<Rightarrow> 'v cnf_state res" where
  "delete_param E a s =
     bindr (destruct_gs_param E a s) (\<lambda>s'. Inr (s'\<lparr>heap := (heap s')(a := None)\<rparr>))"

text \<open>The loop over the members of an array.\<close>

fun delete_members :: "'v penv \<Rightarrow> nat list \<Rightarrow> 'v cnf_state \<Rightarrow> 'v cnf_state res" where
  "delete_members E [] s = Inr s"
| "delete_members E (a # as) s = bindr (delete_param E a s) (delete_members E as)"

section \<open>Operations of an object in the heap\<close>

text \<open>An operation of the parameter at an address, its new state written back.\<close>

definition at_param :: "nat \<Rightarrow> ('v gs_param \<Rightarrow> ('r \<times> 'v gs_param) res) \<Rightarrow> 'v cnf_state \<Rightarrow> ('r \<times> 'v cnf_state) res" where
  "at_param a f s = bindr (deref a s) (\<lambda>p. bindr (f p) (\<lambda>(r, p'). Inr (r, write_param a p' s)))"

section \<open>What construction and destruction do\<close>

text \<open>A parameter without callbacks and lock takes any string its conversion accepts.\<close>

definition fresh_param :: "'v gs_param \<Rightarrow> bool" where
  "fresh_param p \<longleftrightarrow> \<not> m_making p \<and> m_delete_enqueued p = 0 \<and> \<not> m_locked p \<and> m_lists p = (\<lambda>_. [])"

lemma fresh_new_base [simp]: "fresh_param (new_base ty tystr raw r nm)"
  by (simp add: fresh_param_def new_base_def)

lemma new_base_fields [simp]:
  "m_par_name (new_base ty tystr raw r nm) = nm" "p_type (new_base ty tystr raw r nm) = ty"
  "my_value (new_base ty tystr raw r nm) = raw" "m_register_at_db (new_base ty tystr raw r nm) = r"
  "m_locked (new_base ty tystr raw r nm) = False"
  by (simp_all add: new_base_def)

lemma fresh_value [simp]:
  "fresh_param (p\<lparr>my_value := v\<rparr>) = fresh_param p"
  "fresh_param (p\<lparr>my_default_value := v\<rparr>) = fresh_param p"
  "fresh_param (p\<lparr>m_default_value_was_set := b\<rparr>) = fresh_param p"
  "fresh_param (p\<lparr>m_setting_initial_value_now := b\<rparr>) = fresh_param p"
  "fresh_param (p\<lparr>m_is_initial_value := b\<rparr>) = fresh_param p"
  by (simp_all add: fresh_param_def)

lemma fresh_helper: "m_lists p r = [] \<Longrightarrow> make_enabled_callbacks_helper E r p = Inr (return_nothing, p)"
  by (simp add: make_enabled_callbacks_helper_def)

lemma fresh_setString:
  assumes "fresh_param p"
  shows "setString E str p
    = (case static_deserialize E (p_type p) (subst_env E str (m_par_name p)) (my_value p) of
         (v, ok) \<Rightarrow> Inr (ok, p\<lparr>my_value := v\<rparr>))"
  using assms
  by (simp add: setString_def make_callbacks_defs fresh_helper fresh_param_def deserialize_def split: prod.splits)

text \<open>The value an object holds once it is in the database: a remembered initial value is converted.\<close>

definition value_in_db :: "'v penv \<Rightarrow> 'v gs_param \<Rightarrow> 'v cnf_state \<Rightarrow> 'v" where
  "value_in_db E p s =
     (case db_find s (m_par_name p) of
        None \<Rightarrow> my_value p
      | Some e \<Rightarrow>
          if had_initial_value e
          then fst (static_deserialize E (p_type p) (subst_env E (init_value e) (m_par_name p)) (my_value p))
          else my_value p)"

lemma value_in_db_cong:
  assumes "m_par_name p = m_par_name q" "p_type p = p_type q" "my_value p = my_value q"
    and "m_parameter_database s = m_parameter_database s'"
  shows "value_in_db E p s = value_in_db E q s'"
  using assms by (simp add: value_in_db_def split: option.split)

text \<open>The state \<open>s'\<close> is \<open>s\<close> with a new registered object at \<open>a\<close>.\<close>

definition created :: "nat \<Rightarrow> string \<Rightarrow> 'v \<Rightarrow> 'v cnf_state \<Rightarrow> 'v cnf_state \<Rightarrow> bool" where
  "created a nm v s s' \<longleftrightarrow>
     (\<exists>p. heap s' = (heap s)(a \<mapsto> p) \<and> fresh_param p \<and> m_par_name p = nm \<and> m_register_at_db p \<and> my_value p = v)
     \<and> (\<exists>e. param e = Some a \<and> (\<forall>m. db_find s' m = (if m = nm then Some e else db_find s m)))"

lemma created_after_write [simp]: "created a nm v (write_param a q s) s' = created a nm v s s'"
  by (simp add: created_def)

lemma addParam_fresh:
  assumes p: "heap s a = Some p" "fresh_param p" "m_register_at_db p" and free: "getParam (m_par_name p) s = None"
  shows "\<exists>s'. Config_Database.addParam E a s = Inr (True, s') \<and> created a (m_par_name p) (value_in_db E p s) s s'"
proof (cases "db_find s (m_par_name p)")
  case None
  let ?s = "s\<lparr>m_parameter_database := fst (map_insert (m_par_name p) (new_explicit a) (m_parameter_database s))\<rparr>"
  have "Config_Database.addParam E a s = Inr (True, ?s)"
    using p(1) None by (simp add: addParam_def deref_def Let_def)
  moreover have "created a (m_par_name p) (value_in_db E p s) s ?s"
    using p None unfolding created_def
    by (intro conjI exI [of _ p] exI [of _ "new_explicit a"])
      (simp_all add: value_in_db_def new_explicit_def map_simps map_upd_triv)
  ultimately show ?thesis by blast
next
  case (Some e)
  then have e: "param e = None" using free by (simp add: getParam_def)
  show ?thesis
  proof (cases "had_initial_value e")
    case False
    let ?s = "update_entry (m_par_name p) (\<lambda>e. e\<lparr>param := Some a, is_used := True\<rparr>) s"
    have "Config_Database.addParam E a s = Inr (True, ?s)"
      using p(1) Some e False by (simp add: addParam_def deref_def Let_def update_entry_twice)
    moreover have "created a (m_par_name p) (value_in_db E p s) s ?s"
      using p Some False unfolding created_def
      by (intro conjI exI [of _ p] exI [of _ "e\<lparr>param := Some a, is_used := True\<rparr>"])
        (simp_all add: value_in_db_def map_upd_triv)
    ultimately show ?thesis by blast
  next
    case True
    obtain v ok where v: "static_deserialize E (p_type p) (subst_env E (init_value e) (m_par_name p)) (my_value p) = (v, ok)"
      by fastforce
    let ?p = "p\<lparr>m_setting_initial_value_now := True\<rparr>"
    have "setString E (init_value e) ?p = Inr (ok, ?p\<lparr>my_value := v\<rparr>)"
      using v p(2) by (simp add: fresh_setString)
    then show ?thesis using p Some e True v
      by (auto simp: addParam_def created_def value_in_db_def set_initial_def deref_def Let_def)
  qed
qed

lemma init_value_created:
  assumes "heap s a = Some p" "fresh_param p" "m_register_at_db p" "getParam (m_par_name p) s = None"
  shows "\<exists>s'. init_value_of_param E v a s = Inr s'
    \<and> created a (m_par_name p) (value_in_db E (p\<lparr>my_value := v\<rparr>) s) s s'"
proof -
  let ?p = "p\<lparr>my_value := v, my_default_value := v, m_default_value_was_set := True\<rparr>"
  let ?s = "write_param a ?p s"
  obtain s' where "Config_Database.addParam E a ?s = Inr (True, s')"
    "created a (m_par_name ?p) (value_in_db E ?p ?s) ?s s'"
    using assms addParam_fresh [of ?s a ?p E] by (auto simp: getParam_def)
  moreover have "value_in_db E ?p ?s = value_in_db E (p\<lparr>my_value := v\<rparr>) s"
    by (intro value_in_db_cong) simp_all
  ultimately show ?thesis using assms(1,3)
    by (auto simp: init_value_of_param_def addPar_def deref_def)
qed

lemma new_from_value_created:
  assumes "getParam nm s = None"
  shows "\<exists>s'. new_from_value E ty tystr raw nm v a s = Inr s'
    \<and> created a nm (value_in_db E (new_base ty tystr v True nm) s) s s'"
proof -
  let ?p = "new_base ty tystr raw True nm"
  have "value_in_db E (?p\<lparr>my_value := v\<rparr>) (write_param a ?p s) = value_in_db E (new_base ty tystr v True nm) s"
    by (intro value_in_db_cong) simp_all
  then show ?thesis using assms init_value_created [of "write_param a ?p s" a ?p E v]
    by (simp add: new_from_value_def getParam_def)
qed

lemma convert_new_base:
  "convertStringToValue E str (new_base ty tystr raw r nm)
     = (new_base ty tystr raw r nm)\<lparr>my_value := fst (static_deserialize E ty (subst_env E str nm) raw)\<rparr>"
  by (simp add: convertStringToValue_def deserialize_def case_prod_unfold)

lemma new_from_string_created:
  assumes "getParam nm s = None"
  shows "\<exists>s'. new_from_string E ty tystr raw nm str a s = Inr s'
    \<and> created a nm (value_in_db E (new_base ty tystr (fst (static_deserialize E ty (subst_env E str nm) raw)) True nm) s) s s'"
proof -
  let ?v = "fst (static_deserialize E ty (subst_env E str nm) raw)"
  let ?p = "(new_base ty tystr raw True nm)\<lparr>my_value := ?v\<rparr>"
  have "value_in_db E (?p\<lparr>my_value := ?v\<rparr>) (write_param a ?p s) = value_in_db E (new_base ty tystr ?v True nm) s"
    by (intro value_in_db_cong) simp_all
  then show ?thesis using assms init_value_created [of "write_param a ?p s" a ?p E ?v]
    by (simp add: new_from_string_def convert_new_base getParam_def Let_def)
qed

text \<open>Deleting a registered object whose callbacks observe leaves its database entry implicit.\<close>

lemma delete_param_removes:
  assumes "observing E" and "heap s a = Some p" and "settled E p" and "m_register_at_db p"
    and "db_find s (m_par_name p) = Some e"
  shows "\<exists>s'. delete_param E a s = Inr s' \<and> heap s' = (heap s)(a := None)
    \<and> (\<forall>m. db_find s' m = (if m = m_par_name p then Some (e\<lparr>param := None\<rparr>) else db_find s m))"
proof -
  let ?p = "p\<lparr>m_destruction_flag := True\<rparr>"
  have "settled E ?p" using assms(3) by (simp add: settled_def)
  then have "make_destroy_param_callbacks E ?p = Inr ?p"
    using helper_settled [OF assms(1)] by (simp add: make_destroy_param_callbacks_def)
  then show ?thesis using assms(2,4,5)
    by (auto simp: delete_param_def destruct_gs_param_def removeParam_def deref_def)
qed

lemma fresh_settled: "fresh_param p \<Longrightarrow> settled E p"
  by (simp add: fresh_param_def settled_def)

text \<open>An observing callback round leaves the state as it is.\<close>

lemma at_param_observing:
  assumes "observing E" and "heap s b = Some p" and "settled E p"
  shows "at_param b (make_enabled_callbacks_helper E r) s
     = Inr (combined E r (p\<lparr>m_making := True\<rparr>) (m_lists p r), s)"
proof -
  have "write_param b p s = s" using assms(2) by (simp add: write_param_def map_upd_triv)
  then show ?thesis using assms helper_settled [OF assms(1,3), of r] by (simp add: at_param_def deref_def)
qed

end
