(* ===== verification/Simple_Array.thy ===== *)
theory Simple_Array
  imports Param_Lifetime
begin

text \<open>
  Simple parameter arrays, the specialisation \<^verbatim>\<open>gs_param<T*>\<close> of \<^verbatim>\<open>gs_param_array.hpp\<close>: a
  parameter object whose members are parameters named \<open>name.0\<close>, \<open>name.1\<close> and so on, each one
  registered in the configuration database.
\<close>

section \<open>State\<close>

text \<open>The address of the array's own parameter object and the pointers to the members.\<close>

record simple_array =
  arr_addr :: nat
  internal_ArrVec :: "nat list"
  m_init_size :: "nat option"

text \<open>
  The environment of the parameters; where \<^verbatim>\<open>new\<close> puts an object; the member type with its type
  string and the value of a member before it is initialised; the values of type \<^verbatim>\<open>unsigned int\<close>;
  and \<^verbatim>\<open>boost::tokenizer<>\<close>, which is not part of the repository.
\<close>

record 'v arr_env =
  penv_of :: "'v penv"
  new_addr :: "'v cnf_state \<Rightarrow> nat"
  elem_type :: Param_type
  elem_type_string :: string
  raw_value :: 'v
  uint_value :: "u32 \<Rightarrow> 'v"
  value_uint :: "'v \<Rightarrow> u32"
  tokens :: "string \<Rightarrow> string list"

definition member_name :: "string \<Rightarrow> nat \<Rightarrow> string" where
  "member_name nm i = nm @ SC_NAME_DELIMITER # decimal i"

definition new_member :: "'v arr_env \<Rightarrow> string \<Rightarrow> nat \<Rightarrow> string \<Rightarrow> 'v cnf_state \<Rightarrow> (nat \<times> 'v cnf_state) res" where
  "new_member A nm i str s =
     bindr (new_from_string (penv_of A) (elem_type A) (elem_type_string A) (raw_value A)
              (member_name nm i) str (new_addr A s) s)
       (\<lambda>s'. Inr (new_addr A s, s'))"

definition new_member_value :: "'v arr_env \<Rightarrow> string \<Rightarrow> nat \<Rightarrow> 'v \<Rightarrow> 'v cnf_state \<Rightarrow> (nat \<times> 'v cnf_state) res" where
  "new_member_value A nm i v s =
     bindr (new_from_value (penv_of A) (elem_type A) (elem_type_string A) (raw_value A)
              (member_name nm i) v (new_addr A s) s)
       (\<lambda>s'. Inr (new_addr A s, s'))"

section \<open>Members\<close>

definition delete_array :: "'v penv \<Rightarrow> simple_array \<Rightarrow> 'v cnf_state \<Rightarrow> (simple_array \<times> 'v cnf_state) res" where
  "delete_array E arr s =
     bindr (delete_members E (internal_ArrVec arr) s) (\<lambda>s'. Inr (arr\<lparr>internal_ArrVec := []\<rparr>, s'))"

text \<open>The loop that creates the members \<open>i\<close> up to \<open>n - 1\<close> with default values.\<close>

fun create_members ::
  "'v arr_env \<Rightarrow> string \<Rightarrow> nat list \<Rightarrow> 'v cnf_state \<Rightarrow> (nat list \<times> 'v cnf_state) res" where
  "create_members A nm [] s = Inr ([], s)"
| "create_members A nm (i # is) s =
     bindr (new_member A nm i [] s) (\<lambda>(a, s1).
     bindr (create_members A nm is s1) (\<lambda>(as, s2). Inr (a # as, s2)))"

definition arr_size :: "simple_array \<Rightarrow> u32" where
  "arr_size arr = of_nat (length (internal_ArrVec arr))"

definition resize :: "'v arr_env \<Rightarrow> u32 \<Rightarrow> simple_array \<Rightarrow> 'v cnf_state \<Rightarrow> (bool \<times> simple_array \<times> 'v cnf_state) res" where
  "resize A sz arr s =
     (let E = penv_of A; b = arr_addr arr; n = unat sz in
      bindr (deref b s) (\<lambda>p.
        if m_locked p then Inr (False, arr, s)
        else bindr (at_param b (make_reject_write_callbacks E) s) (\<lambda>(ret, s1).
          if ret = return_value_change_rejected then Inr (False, arr, s1)
          else bindr (at_param b (make_pre_write_callbacks E) s1) (\<lambda>(_, s2).
            let vec = internal_ArrVec arr in
            bindr (delete_members E (drop n vec) s2) (\<lambda>s3.
            bindr (create_members A (m_par_name p) [length vec..<n] s3) (\<lambda>(as, s4).
            bindr (at_param b (make_post_write_callbacks E) s4) (\<lambda>(_, s5).
              Inr (True, arr\<lparr>internal_ArrVec := take n vec @ as\<rparr>, s5))))))))"

text \<open>\<^verbatim>\<open>at\<close>: \<^verbatim>\<open>pos + 1\<close> is computed in 32 bits; \<^verbatim>\<open>vector::at\<close> throws outside of the vector.\<close>

definition at_member :: "'v arr_env \<Rightarrow> u32 \<Rightarrow> simple_array \<Rightarrow> 'v cnf_state \<Rightarrow> (nat \<times> simple_array \<times> 'v cnf_state) res" where
  "at_member A pos arr s =
     bindr (if length (internal_ArrVec arr) < unat (pos + 1) then resize A (pos + 1) arr s else Inr (True, arr, s))
       (\<lambda>(_, arr', s'). if unat pos < length (internal_ArrVec arr')
                        then Inr (internal_ArrVec arr' ! unat pos, arr', s') else Inl OutOfRange)"

definition index_member :: "u32 \<Rightarrow> simple_array \<Rightarrow> nat res" where
  "index_member pos arr =
     (if unat pos < length (internal_ArrVec arr) then Inr (internal_ArrVec arr ! unat pos)
      else Inl (Undefined ''operator[] outside of the vector''))"

section \<open>Assignment\<close>

text \<open>
  Assigning an array deletes the members and makes new ones with the other array's values. The
  argument is a reference: when it is the same object it has no members any more after they
  have been deleted.
\<close>

fun copy_members ::
  "'v arr_env \<Rightarrow> string \<Rightarrow> nat \<Rightarrow> nat list \<Rightarrow> 'v cnf_state \<Rightarrow> (nat list \<times> 'v cnf_state) res" where
  "copy_members A nm i [] s = Inr ([], s)"
| "copy_members A nm i (q # qs) s =
     bindr (at_param q (getValue (penv_of A)) s) (\<lambda>(v, s1).
     bindr (new_member_value A nm i v s1) (\<lambda>(a, s2).
     bindr (copy_members A nm (Suc i) qs s2) (\<lambda>(as, s3). Inr (a # as, s3))))"

definition assign_array ::
  "'v arr_env \<Rightarrow> simple_array \<Rightarrow> simple_array \<Rightarrow> 'v cnf_state \<Rightarrow> (simple_array \<times> 'v cnf_state) res" where
  "assign_array A v arr s =
     bindr (deref (arr_addr arr) s) (\<lambda>p.
       if m_locked p then Inl (ScError ''parameter is locked!'')
       else bindr (delete_array (penv_of A) arr s) (\<lambda>(arr1, s1).
         let v' = (if arr_addr v = arr_addr arr then arr1 else v) in
         bindr (copy_members A (m_par_name p) 0 (internal_ArrVec v') s1) (\<lambda>(as, s2).
           Inr (arr1\<lparr>internal_ArrVec := as\<rparr>, s2))))"

text \<open>
  Assigning a vector: the result of \<^verbatim>\<open>resize\<close> is not looked at, and the loop runs over the
  members, so a refused resize may index the vector out of range.
\<close>

fun set_members :: "'v penv \<Rightarrow> 'v list \<Rightarrow> nat list \<Rightarrow> 'v cnf_state \<Rightarrow> 'v cnf_state res" where
  "set_members E vs [] s = Inr s"
| "set_members E [] (a # as) s = Inl (Undefined ''operator[] outside of the vector'')"
| "set_members E (v # vs) (a # as) s = bindr (at_param a (setValue E v) s) (\<lambda>(_, s'). set_members E vs as s')"

definition assign_vector ::
  "'v arr_env \<Rightarrow> 'v list \<Rightarrow> simple_array \<Rightarrow> 'v cnf_state \<Rightarrow> (simple_array \<times> 'v cnf_state) res" where
  "assign_vector A v arr s =
     bindr (deref (arr_addr arr) s) (\<lambda>p.
       if m_locked p then Inl (ScError ''parameter is locked!'')
       else bindr (resize A (of_nat (length v)) arr s) (\<lambda>(_, arr1, s1).
         bindr (set_members (penv_of A) v (internal_ArrVec arr1) s1) (\<lambda>s2. Inr (arr1, s2))))"

section \<open>Text\<close>

definition arr_parse :: "'v arr_env \<Rightarrow> string \<Rightarrow> string list" where
  "arr_parse A str = tokens A str"

fun set_member_strings :: "'v penv \<Rightarrow> string list \<Rightarrow> nat list \<Rightarrow> 'v cnf_state \<Rightarrow> 'v cnf_state res" where
  "set_member_strings E [] as s = Inr s"
| "set_member_strings E (t # ts) [] s = Inl (Undefined ''operator[] outside of the vector'')"
| "set_member_strings E (t # ts) (a # as) s =
     bindr (at_param a (setString E t) s) (\<lambda>(_, s'). set_member_strings E ts as s')"

definition arr_setString ::
  "'v arr_env \<Rightarrow> string \<Rightarrow> simple_array \<Rightarrow> 'v cnf_state \<Rightarrow> (bool \<times> simple_array \<times> 'v cnf_state) res" where
  "arr_setString A str arr s =
     bindr (deref (arr_addr arr) s) (\<lambda>p.
       if m_locked p then Inr (False, arr, s)
       else (let vec = arr_parse A str; got_size = of_nat (length vec) :: u32 in
         bindr (if unat got_size \<noteq> length (internal_ArrVec arr) then resize A got_size arr s else Inr (True, arr, s))
           (\<lambda>(_, arr1, s1).
             bindr (set_member_strings (penv_of A) (take (unat got_size) vec) (internal_ArrVec arr1) s1)
               (\<lambda>s2. Inr (True, arr1, s2)))))"

text \<open>A quoted string per member, separated by blanks, in braces.\<close>

fun member_strings :: "'v penv \<Rightarrow> nat list \<Rightarrow> 'v cnf_state \<Rightarrow> (string list \<times> 'v cnf_state) res" where
  "member_strings E [] s = Inr ([], s)"
| "member_strings E (a # as) s =
     bindr (at_param a (getString E) s) (\<lambda>(t, s1).
     bindr (member_strings E as s1) (\<lambda>(ts, s2). Inr (t # ts, s2)))"

fun blank_join :: "string list \<Rightarrow> string" where
  "blank_join [] = []"
| "blank_join [t] = CHR 0x22 # t @ [CHR 0x22]"
| "blank_join (t # u # ts) = CHR 0x22 # t @ CHR 0x22 # CHR '' '' # blank_join (u # ts)"

definition arr_serialize :: "'v penv \<Rightarrow> simple_array \<Rightarrow> 'v cnf_state \<Rightarrow> (string \<times> 'v cnf_state) res" where
  "arr_serialize E arr s =
     bindr (member_strings E (internal_ArrVec arr) s) (\<lambda>(ts, s'). Inr (CHR ''{'' # blank_join ts @ ''}'', s'))"

definition arr_getString :: "'v penv \<Rightarrow> simple_array \<Rightarrow> 'v cnf_state \<Rightarrow> (string \<times> 'v cnf_state) res" where
  "arr_getString E arr s =
     bindr (at_param (arr_addr arr) (make_pre_read_callbacks E) s) (\<lambda>(_, s1).
     bindr (arr_serialize E arr s1) (\<lambda>(str, s2).
     bindr (at_param (arr_addr arr) (make_post_read_callbacks E) s2) (\<lambda>(_, s3). Inr (str, s3))))"

definition arr_deserialize :: "'v arr_env \<Rightarrow> string \<Rightarrow> bool" where
  "arr_deserialize A str = False"

section \<open>The size of a new array\<close>

text \<open>
  The number of the member a database name belongs to: the name after the array's name and one
  more character, up to the next delimiter. Only the length decides whether that character is
  the delimiter. Digits that do not fit 32 bits make the extraction fail.
\<close>

definition member_number :: "string \<Rightarrow> string \<Rightarrow> u32 option" where
  "member_number nm n =
     (if length nm < length n
      then (let no = takeWhile (\<lambda>c. c \<noteq> SC_NAME_DELIMITER) (drop (Suc (length nm)) n) in
            if (\<forall>c \<in> set no. isdigit c) \<and> no \<noteq> [] \<and> digits_value no < 2 ^ 32
            then Some (of_nat (digits_value no)) else None)
      else None)"

definition highest_member :: "string \<Rightarrow> string list \<Rightarrow> u32" where
  "highest_member nm ns =
     foldl (\<lambda>h n. case member_number nm n of
                    Some t \<Rightarrow> if h < t + 1 then t + 1 else h
                  | None \<Rightarrow> h) 0 ns"

text \<open>The assertion on the names the list command returns, for those longer than the array's.\<close>

definition names_belong :: "string \<Rightarrow> string list \<Rightarrow> bool" where
  "names_belong nm ns \<longleftrightarrow> (\<forall>n \<in> set ns. length nm < length n \<longrightarrow> prefix nm n)"

definition choose_size :: "bool \<Rightarrow> bool \<Rightarrow> u32 \<Rightarrow> u32 \<Rightarrow> u32" where
  "choose_size user_chosen_size init_size_set_in_db new_size highest =
     (if highest > 0 \<and> highest \<noteq> new_size
      then if user_chosen_size then new_size
           else if init_size_set_in_db then new_size
           else highest
      else new_size)"

text \<open>The members with the values of the vector as long as there are any.\<close>

fun init_members ::
  "'v arr_env \<Rightarrow> string \<Rightarrow> nat list \<Rightarrow> 'v list \<Rightarrow> 'v cnf_state \<Rightarrow> (nat list \<times> 'v cnf_state) res" where
  "init_members A nm [] vs s = Inr ([], s)"
| "init_members A nm (i # is) vs s =
     bindr (case vs of [] \<Rightarrow> new_member A nm i [] s | v # _ \<Rightarrow> new_member_value A nm i v s) (\<lambda>(a, s1).
     bindr (init_members A nm is (drop 1 vs) s1) (\<lambda>(as, s2). Inr (a # as, s2)))"

definition init_array ::
  "'v arr_env \<Rightarrow> bool \<Rightarrow> u32 \<Rightarrow> 'v list option \<Rightarrow> nat \<Rightarrow> 'v cnf_state \<Rightarrow> (simple_array \<times> 'v cnf_state) res" where
  "init_array A user_chosen_size sz init_vec b s =
     (let E = penv_of A in
      bindr (deref b s) (\<lambda>p.
        let nm = m_par_name p; size_name = nm @ ''.init_size''; in_db = existsParam size_name s in
        bindr (if in_db
               then bindr (new_from_value E PARTYPE_UINT ''unsigned int'' (raw_value A) size_name (uint_value A sz)
                             (new_addr A s) s) (\<lambda>s1.
                    bindr (at_param (new_addr A s) (getValue E) s1) (\<lambda>(v, s2).
                      Inr (value_uint A v, Some (new_addr A s), s2)))
               else Inr (sz, None, s)) (\<lambda>(new_size, isz, s3).
        bindr (list_vec (nm @ ''.*'') s3) (\<lambda>ns.
          if \<not> names_belong nm ns
          then Inl (AssertFail ''found != string::npos && found == 0'')
          else
            let n = unat (choose_size user_chosen_size in_db new_size (highest_member nm ns)) in
            bindr (init_members A nm [0..<n]
                     (case init_vec of None \<Rightarrow> [] | Some v \<Rightarrow> take (unat sz) v) s3) (\<lambda>(as, s4).
              Inr (\<lparr>arr_addr = b, internal_ArrVec = as, m_init_size = isz\<rparr>, s4))))))"

section \<open>The members of an array\<close>

text \<open>
  Member \<open>i\<close> is a live, registered parameter with the member's name, its database entry points
  to it, and no callback round is under way. The members are different objects, none of them the
  array's own.
\<close>

definition member_ok :: "'v penv \<Rightarrow> string \<Rightarrow> nat \<Rightarrow> nat \<Rightarrow> 'v cnf_state \<Rightarrow> bool" where
  "member_ok E nm i a s \<longleftrightarrow>
     (\<exists>q. heap s a = Some q \<and> m_par_name q = member_name nm i \<and> m_register_at_db q \<and> settled E q)
     \<and> getParam (member_name nm i) s = Some a"

definition members_from :: "'v penv \<Rightarrow> string \<Rightarrow> nat \<Rightarrow> nat list \<Rightarrow> 'v cnf_state \<Rightarrow> bool" where
  "members_from E nm i as s \<longleftrightarrow> distinct as \<and> (\<forall>k < length as. member_ok E nm (i + k) (as ! k) s)"

definition arr_ok :: "'v penv \<Rightarrow> simple_array \<Rightarrow> 'v cnf_state \<Rightarrow> bool" where
  "arr_ok E arr s \<longleftrightarrow> finite (dom (heap s)) \<and> arr_addr arr \<notin> set (internal_ArrVec arr)
     \<and> (\<exists>p. heap s (arr_addr arr) = Some p \<and> members_from E (m_par_name p) 0 (internal_ArrVec arr) s)"

definition fresh_addresses :: "'v arr_env \<Rightarrow> bool" where
  "fresh_addresses A \<longleftrightarrow> (\<forall>s. finite (dom (heap s)) \<longrightarrow> heap s (new_addr A s) = None)"

text \<open>The value of a member that is created without one.\<close>

definition default_member :: "'v arr_env \<Rightarrow> string \<Rightarrow> nat \<Rightarrow> 'v cnf_state \<Rightarrow> 'v" where
  "default_member A nm i s =
     (let E = penv_of A; n = member_name nm i in
      value_in_db E (new_base (elem_type A) (elem_type_string A)
        (fst (static_deserialize E (elem_type A) (subst_env E [] n) (raw_value A))) True n) s)"

lemma member_name_inject [simp]: "member_name nm i = member_name nm j \<longleftrightarrow> i = j"
  by (simp add: member_name_def)

lemma members_from_Cons:
  "members_from E nm i (a # as) s
     \<longleftrightarrow> a \<notin> set as \<and> member_ok E nm i a s \<and> members_from E nm (Suc i) as s"
proof -
  have "(\<forall>k < Suc (length as). member_ok E nm (i + k) ((a # as) ! k) s)
      \<longleftrightarrow> member_ok E nm i a s \<and> (\<forall>k < length as. member_ok E nm (Suc i + k) (as ! k) s)"
    using All_less_Suc2 [of "length as" "\<lambda>k. member_ok E nm (i + k) ((a # as) ! k) s"] by simp
  then show ?thesis by (auto simp: members_from_def)
qed

lemma member_ok_frame:
  assumes "member_ok E nm i a s" and "heap s' a = heap s a"
    and "getParam (member_name nm i) s' = getParam (member_name nm i) s"
  shows "member_ok E nm i a s'"
  using assms by (simp add: member_ok_def)

lemma members_from_frame:
  assumes "members_from E nm i as s" and "\<And>a. a \<in> set as \<Longrightarrow> heap s' a = heap s a"
    and "\<And>k. i \<le> k \<Longrightarrow> k < i + length as \<Longrightarrow> getParam (member_name nm k) s' = getParam (member_name nm k) s"
  shows "members_from E nm i as s'"
  unfolding members_from_def
proof (intro conjI allI impI)
  fix k assume k: "k < length as"
  then have "member_ok E nm (i + k) (as ! k) s" using assms(1) by (simp add: members_from_def)
  then show "member_ok E nm (i + k) (as ! k) s'" by (rule member_ok_frame) (use k assms(2,3) in simp_all)
qed (use assms(1) in \<open>simp add: members_from_def\<close>)

definition same_init :: "db_entry option \<Rightarrow> db_entry option \<Rightarrow> bool" where
  "same_init e' e \<longleftrightarrow> map_option (\<lambda>e. (had_initial_value e, init_value e)) e'
     = map_option (\<lambda>e. (had_initial_value e, init_value e)) e"

lemma same_init_refl [simp]: "same_init e e"
  by (simp add: same_init_def)

lemma delete_members_removes:
  assumes "observing E" and "members_from E nm i as s"
  shows "\<exists>s'. delete_members E as s = Inr s'
    \<and> (\<forall>a. heap s' a = (if a \<in> set as then None else heap s a))
    \<and> (\<forall>m. getParam m s' = (if \<exists>k. i \<le> k \<and> k < i + length as \<and> m = member_name nm k then None else getParam m s))
    \<and> (\<forall>m. same_init (db_find s' m) (db_find s m))"
  using assms(2)
proof (induction as arbitrary: i s)
  case (Cons a as)
  then have a: "a \<notin> set as" "member_ok E nm i a s" and as: "members_from E nm (Suc i) as s"
    by (simp_all add: members_from_Cons)
  then obtain q e where q: "heap s a = Some q" "m_par_name q = member_name nm i" "m_register_at_db q" "settled E q"
    and e: "db_find s (member_name nm i) = Some e" "param e = Some a"
    by (auto simp: member_ok_def getParam_def split: option.splits)
  with delete_param_removes [OF assms(1), of s a q e] obtain s1 where s1: "delete_param E a s = Inr s1"
    "heap s1 = (heap s)(a := None)"
    "\<And>m. db_find s1 m = (if m = member_name nm i then Some (e\<lparr>param := None\<rparr>) else db_find s m)" by auto
  have "members_from E nm (Suc i) as s1"
    using as a(1) s1(2,3) by (elim members_from_frame) (auto simp: getParam_def)
  then obtain s2 where "delete_members E as s1 = Inr s2"
    "\<forall>b. heap s2 b = (if b \<in> set as then None else heap s1 b)"
    "\<forall>m. getParam m s2 = (if \<exists>k. Suc i \<le> k \<and> k < Suc i + length as \<and> m = member_name nm k then None else getParam m s1)"
    and keeps: "\<forall>m. same_init (db_find s2 m) (db_find s1 m)"
    using Cons.IH by blast
  moreover have "(\<exists>k. i \<le> k \<and> k < i + length (a # as) \<and> m = member_name nm k)
      \<longleftrightarrow> m = member_name nm i \<or> (\<exists>k. Suc i \<le> k \<and> k < Suc i + length as \<and> m = member_name nm k)" for m
    by (auto simp: Suc_le_eq le_less)
  moreover have "getParam m s1 = (if m = member_name nm i then None else getParam m s)" for m
    using s1(3) by (simp add: getParam_def)
  moreover have "same_init (db_find s2 m) (db_find s m)" for m
    using keeps s1(3) e(1) by (simp add: same_init_def)
  ultimately show ?case using s1(1,2) by (intro exI [of _ s2]) auto
next
  case Nil
  then show ?case by auto
qed

lemma new_member_created:
  assumes "getParam (member_name nm i) s = None"
  shows "\<exists>s'. new_member A nm i [] s = Inr (new_addr A s, s')
    \<and> created (new_addr A s) (member_name nm i) (default_member A nm i s) s s'"
  using new_from_string_created [OF assms, of "penv_of A" "elem_type A" "elem_type_string A" "raw_value A" "[]" "new_addr A s"]
  by (auto simp: new_member_def default_member_def Let_def)

lemma created_member_ok:
  assumes "created a (member_name nm i) v s s'"
  shows "member_ok E nm i a s'" and "map_option my_value (heap s' a) = Some v"
  using assms by (auto simp: created_def member_ok_def getParam_def fresh_settled)

lemma created_frame:
  assumes "created a n v s s'"
  shows "b \<noteq> a \<Longrightarrow> heap s' b = heap s b" and "m \<noteq> n \<Longrightarrow> db_find s' m = db_find s m"
    and "m \<noteq> n \<Longrightarrow> getParam m s' = getParam m s" and "dom (heap s') = insert a (dom (heap s))"
  using assms by (auto simp: created_def getParam_def)

lemma default_member_cong:
  assumes "same_init (db_find s' (member_name nm i)) (db_find s (member_name nm i))"
  shows "default_member A nm i s' = default_member A nm i s"
  using assms
  by (cases "db_find s (member_name nm i)"; cases "db_find s' (member_name nm i)")
    (simp_all add: same_init_def default_member_def value_in_db_def Let_def)

text \<open>The value of a member that is created with a value: a remembered initial value goes first.\<close>

definition given_member :: "'v arr_env \<Rightarrow> string \<Rightarrow> nat \<Rightarrow> 'v \<Rightarrow> 'v cnf_state \<Rightarrow> 'v" where
  "given_member A nm i v s =
     value_in_db (penv_of A) (new_base (elem_type A) (elem_type_string A) v True (member_name nm i)) s"

definition initial_member :: "'v arr_env \<Rightarrow> string \<Rightarrow> nat \<Rightarrow> 'v list \<Rightarrow> 'v cnf_state \<Rightarrow> 'v" where
  "initial_member A nm i vs s = (case vs of [] \<Rightarrow> default_member A nm i s | v # _ \<Rightarrow> given_member A nm i v s)"

lemma initial_member_cong:
  assumes "same_init (db_find s' (member_name nm i)) (db_find s (member_name nm i))"
  shows "initial_member A nm i vs s' = initial_member A nm i vs s"
proof -
  have "given_member A nm i v s' = given_member A nm i v s" for v
    using assms
    by (cases "db_find s (member_name nm i)"; cases "db_find s' (member_name nm i)")
      (simp_all add: same_init_def given_member_def value_in_db_def)
  then show ?thesis using default_member_cong [OF assms] by (simp add: initial_member_def split: list.split)
qed

lemma initial_member_created:
  assumes "getParam (member_name nm i) s = None"
  shows "\<exists>s'. (case vs of [] \<Rightarrow> new_member A nm i [] s | v # _ \<Rightarrow> new_member_value A nm i v s) = Inr (new_addr A s, s')
    \<and> created (new_addr A s) (member_name nm i) (initial_member A nm i vs s) s s'"
proof (cases vs)
  case (Cons v vs')
  then show ?thesis
    using new_from_value_created [OF assms, of "penv_of A" "elem_type A" "elem_type_string A" "raw_value A" v "new_addr A s"]
    by (auto simp: new_member_value_def initial_member_def given_member_def)
qed (use new_member_created [OF assms] in \<open>simp add: initial_member_def\<close>)

lemma init_members_create:
  assumes "fresh_addresses A" and "finite (dom (heap s))"
    and "\<And>k. i \<le> k \<Longrightarrow> k < n \<Longrightarrow> getParam (member_name nm k) s = None"
  shows "\<exists>as s'. init_members A nm [i..<n] vs s = Inr (as, s') \<and> length as = n - i
    \<and> members_from E nm i as s' \<and> finite (dom (heap s'))
    \<and> (\<forall>a \<in> set as. heap s a = None) \<and> (\<forall>a. a \<notin> set as \<longrightarrow> heap s' a = heap s a)
    \<and> (\<forall>m. (\<forall>k. i \<le> k \<and> k < n \<longrightarrow> m \<noteq> member_name nm k) \<longrightarrow> db_find s' m = db_find s m)
    \<and> (\<forall>k < length as. map_option my_value (heap s' (as ! k)) = Some (initial_member A nm (i + k) (drop k vs) s))"
  using assms(2,3)
proof (induction "n - i" arbitrary: i s vs)
  case 0
  then show ?case by (simp add: members_from_def)
next
  case (Suc d)
  then have i: "i < n" by simp
  let ?a = "new_addr A s"
  have a: "heap s ?a = None" using assms(1) Suc.prems(1) by (simp add: fresh_addresses_def)
  obtain s1 where s1: "(case vs of [] \<Rightarrow> new_member A nm i [] s | v # _ \<Rightarrow> new_member_value A nm i v s) = Inr (?a, s1)"
    "created ?a (member_name nm i) (initial_member A nm i vs s) s s1"
    using initial_member_created Suc.prems(2) i by blast
  note frame = created_frame [OF s1(2)]
  have "finite (dom (heap s1))" using Suc.prems(1) frame(4) by simp
  moreover have "getParam (member_name nm k) s1 = None" if "Suc i \<le> k" "k < n" for k
    using that Suc.prems(2) [of k] frame(3) by simp
  ultimately obtain as s2 where s2: "init_members A nm [Suc i..<n] (drop 1 vs) s1 = Inr (as, s2)" "length as = n - Suc i"
    "members_from E nm (Suc i) as s2" "finite (dom (heap s2))"
    and fresh: "\<forall>b \<in> set as. heap s1 b = None" and old: "\<forall>b. b \<notin> set as \<longrightarrow> heap s2 b = heap s1 b"
    and db: "\<forall>m. (\<forall>k. Suc i \<le> k \<and> k < n \<longrightarrow> m \<noteq> member_name nm k) \<longrightarrow> db_find s2 m = db_find s1 m"
    and vals: "\<forall>k < length as. map_option my_value (heap s2 (as ! k))
        = Some (initial_member A nm (Suc i + k) (drop k (drop 1 vs)) s1)"
    using Suc.hyps(1) [of "Suc i" s1 "drop 1 vs"] Suc.hyps(2) by fastforce
  have na: "?a \<notin> set as" using fresh created_member_ok(2) [OF s1(2)] by auto
  have m: "member_ok E nm i ?a s2"
    by (rule member_ok_frame [OF created_member_ok(1) [OF s1(2)]]) (use na old db in \<open>auto simp: getParam_def\<close>)
  have fresh': "\<forall>b \<in> set as. heap s b = None" using fresh frame(1) a by metis
  have old': "heap s2 b = heap s b" if "b \<notin> set (?a # as)" for b using that old frame(1) by simp
  have "map_option my_value (heap s2 ((?a # as) ! k)) = Some (initial_member A nm (i + k) (drop k vs) s)"
    if "k < length (?a # as)" for k
  proof (cases k)
    case 0
    then show ?thesis using created_member_ok(2) [OF s1(2)] old na by simp
  next
    case (Suc j)
    have "initial_member A nm (i + k) (drop k vs) s1 = initial_member A nm (i + k) (drop k vs) s"
      by (rule initial_member_cong) (use Suc frame(2) in simp)
    moreover have "map_option my_value (heap s2 (as ! j)) = Some (initial_member A nm (Suc i + j) (drop k vs) s1)"
      using that vals Suc by (simp del: map_option_eq_Some)
    ultimately show ?thesis using Suc by (simp del: map_option_eq_Some)
  qed
  moreover have "db_find s2 m = db_find s m" if "\<forall>k. i \<le> k \<and> k < n \<longrightarrow> m \<noteq> member_name nm k" for m
    using that db frame(2) i by auto
  moreover have "init_members A nm [i..<n] vs s = Inr (?a # as, s2)"
    using s1(1) s2(1) i by (simp add: upt_conv_Cons)
  ultimately show ?case using s2(2-4) i m na fresh' a old'
    by (intro exI [of _ "?a # as"] exI [of _ s2]) (auto simp: members_from_Cons)
qed

lemma create_members_init: "create_members A nm is s = init_members A nm is [] s"
  by (induction "is" arbitrary: s) simp_all

lemma create_members_creates:
  assumes "fresh_addresses A" and "finite (dom (heap s))"
    and "\<And>k. i \<le> k \<Longrightarrow> k < n \<Longrightarrow> getParam (member_name nm k) s = None"
  shows "\<exists>as s'. create_members A nm [i..<n] s = Inr (as, s') \<and> length as = n - i
    \<and> members_from E nm i as s' \<and> finite (dom (heap s'))
    \<and> (\<forall>a \<in> set as. heap s a = None) \<and> (\<forall>a. a \<notin> set as \<longrightarrow> heap s' a = heap s a)
    \<and> (\<forall>m. (\<forall>k. i \<le> k \<and> k < n \<longrightarrow> m \<noteq> member_name nm k) \<longrightarrow> getParam m s' = getParam m s)
    \<and> (\<forall>k < length as. map_option my_value (heap s' (as ! k)) = Some (default_member A nm (i + k) s))"
proof -
  obtain as s' where "init_members A nm [i..<n] [] s = Inr (as, s')" "length as = n - i"
    "members_from E nm i as s'" "finite (dom (heap s'))"
    "\<forall>a \<in> set as. heap s a = None" "\<forall>a. a \<notin> set as \<longrightarrow> heap s' a = heap s a"
    "\<forall>m. (\<forall>k. i \<le> k \<and> k < n \<longrightarrow> m \<noteq> member_name nm k) \<longrightarrow> db_find s' m = db_find s m"
    "\<forall>k < length as. map_option my_value (heap s' (as ! k)) = Some (initial_member A nm (i + k) (drop k []) s)"
    using init_members_create [OF assms(1,2), of i n nm "[]" E, OF assms(3)] by blast
  then show ?thesis
    by (intro exI [of _ as] exI [of _ s']) (simp add: create_members_init initial_member_def getParam_def del: map_option_eq_Some)
qed

section \<open>Resizing\<close>

text \<open>An array whose own callbacks let a write pass.\<close>

definition writable :: "'v penv \<Rightarrow> 'v gs_param \<Rightarrow> bool" where
  "writable E p \<longleftrightarrow> settled E p \<and> \<not> m_locked p
     \<and> combined E reject_write (p\<lparr>m_making := True\<rparr>) (m_lists p reject_write) \<noteq> return_value_change_rejected
     \<and> combined E pre_write (p\<lparr>m_making := True\<rparr>) (m_lists p pre_write) \<noteq> return_value_change_rejected"

lemma at_param_writable:
  assumes "observing E" and "heap s b = Some p" and "writable E p"
  shows "\<exists>ret. at_param b (make_reject_write_callbacks E) s = Inr (ret, s) \<and> ret \<noteq> return_value_change_rejected"
    and "\<exists>ret. at_param b (make_pre_write_callbacks E) s = Inr (ret, s)"
    and "\<exists>ret. at_param b (make_post_write_callbacks E) s = Inr (ret, s)"
proof -
  have p: "settled E p" using assms(3) by (simp add: writable_def)
  note call = at_param_observing [OF assms(1,2) p]
  show "\<exists>ret. at_param b (make_reject_write_callbacks E) s = Inr (ret, s) \<and> ret \<noteq> return_value_change_rejected"
    "\<exists>ret. at_param b (make_post_write_callbacks E) s = Inr (ret, s)"
    using call assms(3) by (simp_all add: make_reject_write_callbacks_def [abs_def] make_post_write_callbacks_def [abs_def] writable_def)
  have "write_param b p s = s" using assms(2) by (simp add: write_param_def map_upd_triv)
  then show "\<exists>ret. at_param b (make_pre_write_callbacks E) s = Inr (ret, s)"
    using assms helper_settled [OF assms(1) p]
    by (simp add: at_param_def make_pre_write_callbacks_def writable_def deref_def)
qed

lemma members_from_split:
  assumes "members_from E nm 0 as s"
  shows "members_from E nm 0 (take n as) s" and "members_from E nm n (drop n as) s"
  using assms unfolding members_from_def by simp_all

lemma members_from_append:
  assumes "members_from E nm 0 as s" and "members_from E nm (length as) bs s" and "set as \<inter> set bs = {}"
  shows "members_from E nm 0 (as @ bs) s"
  unfolding members_from_def
proof (intro conjI allI impI)
  fix k assume k: "k < length (as @ bs)"
  show "member_ok E nm (0 + k) ((as @ bs) ! k) s"
  proof (cases "k < length as")
    case True
    then show ?thesis using assms(1) by (simp add: members_from_def nth_append)
  next
    case False
    then have "member_ok E nm (length as + (k - length as)) (bs ! (k - length as)) s"
      using assms(2) k unfolding members_from_def
      by (elim conjE allE [of _ "k - length as"]) auto
    then show ?thesis using False by (simp add: nth_append)
  qed
qed (use assms in \<open>simp add: members_from_def\<close>)

lemma members_live:
  assumes "members_from E nm i as s" and "a \<in> set as"
  shows "heap s a \<noteq> None"
proof -
  obtain k where "k < length as" "a = as ! k" using assms(2) by (auto simp: in_set_conv_nth)
  then have "member_ok E nm (i + k) a s" using assms(1) by (simp add: members_from_def)
  then show ?thesis by (auto simp: member_ok_def)
qed

lemma shrink_members:
  assumes "observing E" and "members_from E nm 0 vec s" and "n \<le> length vec"
  shows "\<exists>s'. delete_members E (drop n vec) s = Inr s' \<and> members_from E nm 0 (take n vec) s'
    \<and> (\<forall>a. heap s' a = (if a \<in> set (drop n vec) then None else heap s a))
    \<and> (\<forall>i. n \<le> i \<and> i < length vec \<longrightarrow> heap s' (vec ! i) = None \<and> getParam (member_name nm i) s' = None)"
proof -
  obtain s' where del: "delete_members E (drop n vec) s = Inr s'"
    and h: "\<forall>a. heap s' a = (if a \<in> set (drop n vec) then None else heap s a)"
    and g: "\<forall>m. getParam m s' = (if \<exists>k. n \<le> k \<and> k < n + length (drop n vec) \<and> m = member_name nm k
        then None else getParam m s)"
    using delete_members_removes [OF assms(1) members_from_split(2) [OF assms(2), of n]] by blast
  have "set (take n vec) \<inter> set (drop n vec) = {}"
    using assms(2) by (metis append_take_drop_id distinct_append members_from_def)
  then have "members_from E nm 0 (take n vec) s'"
    by (intro members_from_frame [OF members_from_split(1) [OF assms(2)]]) (use h g in auto)
  moreover have "vec ! i \<in> set (drop n vec)" if "n \<le> i" "i < length vec" for i
  proof -
    have "drop n vec ! (i - n) \<in> set (drop n vec)" by (rule nth_mem) (use that in simp)
    then show ?thesis using that by simp
  qed
  ultimately show ?thesis using del h g by auto
qed

lemma grow_members:
  assumes "fresh_addresses A" and "finite (dom (heap s))" and "members_from (penv_of A) nm 0 vec s"
    and "\<And>i. length vec \<le> i \<Longrightarrow> i < n \<Longrightarrow> getParam (member_name nm i) s = None"
  shows "\<exists>as s'. create_members A nm [length vec..<n] s = Inr (as, s') \<and> length as = n - length vec
    \<and> members_from (penv_of A) nm 0 (vec @ as) s' \<and> finite (dom (heap s'))
    \<and> (\<forall>a \<in> set as. heap s a = None) \<and> (\<forall>a. a \<notin> set as \<longrightarrow> heap s' a = heap s a)
    \<and> (\<forall>i. length vec \<le> i \<and> i < n \<longrightarrow>
         map_option my_value (heap s' ((vec @ as) ! i)) = Some (default_member A nm i s))"
proof -
  obtain as s' where cr: "create_members A nm [length vec..<n] s = Inr (as, s')"
    and len: "length as = n - length vec" and as: "members_from (penv_of A) nm (length vec) as s'"
    and fin: "finite (dom (heap s'))" and new: "\<forall>a \<in> set as. heap s a = None"
    and h: "\<forall>a. a \<notin> set as \<longrightarrow> heap s' a = heap s a"
    and g: "\<forall>m. (\<forall>k. length vec \<le> k \<and> k < n \<longrightarrow> m \<noteq> member_name nm k) \<longrightarrow> getParam m s' = getParam m s"
    and vals: "\<forall>k < length as. map_option my_value (heap s' (as ! k)) = Some (default_member A nm (length vec + k) s)"
    using create_members_creates [OF assms(1,2), of "length vec" n nm, OF assms(4)] by blast
  have "heap s a \<noteq> None" if "a \<in> set vec" for a
    using members_live [OF assms(3) that] by simp
  with new have disj: "set vec \<inter> set as = {}" by blast
  have "members_from (penv_of A) nm 0 vec s'"
    by (rule members_from_frame [OF assms(3)]) (use h g disj in auto)
  then have "members_from (penv_of A) nm 0 (vec @ as) s'" using as disj by (rule members_from_append)
  moreover have "map_option my_value (heap s' ((vec @ as) ! i)) = Some (default_member A nm i s)"
    if "length vec \<le> i" "i < n" for i
    using that len vals [rule_format, of "i - length vec"] by (simp add: nth_append del: map_option_eq_Some)
  ultimately show ?thesis using cr len fin new h by blast
qed

lemma resize_runs:
  assumes "observing (penv_of A)" and "heap s (arr_addr arr) = Some p" and "writable (penv_of A) p"
    and "delete_members (penv_of A) (drop (unat sz) (internal_ArrVec arr)) s = Inr s1"
    and "create_members A (m_par_name p) [length (internal_ArrVec arr)..<unat sz] s1 = Inr (as, s2)"
    and "heap s2 (arr_addr arr) = Some p"
  shows "resize A sz arr s = Inr (True, arr\<lparr>internal_ArrVec := take (unat sz) (internal_ArrVec arr) @ as\<rparr>, s2)"
proof -
  let ?E = "penv_of A" and ?b = "arr_addr arr"
  obtain r where "at_param ?b (make_reject_write_callbacks ?E) s = Inr (r, s)" "r \<noteq> return_value_change_rejected"
    using at_param_writable(1) [OF assms(1-3)] by blast
  moreover obtain r1 where "at_param ?b (make_pre_write_callbacks ?E) s = Inr (r1, s)"
    using at_param_writable(2) [OF assms(1-3)] by blast
  moreover obtain r2 where "at_param ?b (make_post_write_callbacks ?E) s2 = Inr (r2, s2)"
    using at_param_writable(3) [OF assms(1,6,3)] by blast
  ultimately show ?thesis using assms(2-5) by (simp add: resize_def writable_def deref_def)
qed

text \<open>C36. Resizing an array whose callbacks let it pass succeeds and leaves an array of exactly the
  requested number of members, named by their positions and registered. The members that remain
  are the same objects with the same state; new ones hold the initial value remembered in the
  database for their name, converted, or else the type's default; the others are deleted and
  their names become implicit again.\<close>

theorem resize_members:
  assumes "observing (penv_of A)" and "fresh_addresses A" and "arr_ok (penv_of A) arr s"
    and "heap s (arr_addr arr) = Some p" and "writable (penv_of A) p"
    and "\<And>i. length (internal_ArrVec arr) \<le> i \<Longrightarrow> i < unat sz \<Longrightarrow> getParam (member_name (m_par_name p) i) s = None"
  shows "\<exists>arr' s'. resize A sz arr s = Inr (True, arr', s') \<and> arr_ok (penv_of A) arr' s'
    \<and> length (internal_ArrVec arr') = unat sz \<and> heap s' (arr_addr arr') = Some p
    \<and> take (length (internal_ArrVec arr)) (internal_ArrVec arr') = take (unat sz) (internal_ArrVec arr)
    \<and> (\<forall>a \<in> set (take (unat sz) (internal_ArrVec arr)). heap s' a = heap s a)
    \<and> (\<forall>i. length (internal_ArrVec arr) \<le> i \<and> i < unat sz \<longrightarrow>
         map_option my_value (heap s' (internal_ArrVec arr' ! i)) = Some (default_member A (m_par_name p) i s))
    \<and> (\<forall>i. unat sz \<le> i \<and> i < length (internal_ArrVec arr) \<longrightarrow>
         heap s' (internal_ArrVec arr ! i) = None \<and> getParam (member_name (m_par_name p) i) s' = None)"
proof -
  let ?E = "penv_of A" and ?b = "arr_addr arr" and ?vec = "internal_ArrVec arr" and ?n = "unat sz"
  have fin: "finite (dom (heap s))" and nb: "?b \<notin> set ?vec" and vec: "members_from ?E (m_par_name p) 0 ?vec s"
    using assms(3,4) by (auto simp: arr_ok_def)
  show ?thesis
  proof (cases "?n < length ?vec")
    case True
    then obtain s' where s': "delete_members ?E (drop ?n ?vec) s = Inr s'"
      "members_from ?E (m_par_name p) 0 (take ?n ?vec) s'"
      and h: "\<forall>a. heap s' a = (if a \<in> set (drop ?n ?vec) then None else heap s a)"
      and gone: "\<forall>i. ?n \<le> i \<and> i < length ?vec \<longrightarrow> heap s' (?vec ! i) = None
          \<and> getParam (member_name (m_par_name p) i) s' = None"
      using shrink_members [OF assms(1) vec, of ?n] by auto
    have b: "heap s' ?b = Some p" using nb h assms(4) by (auto dest: in_set_dropD)
    have "finite (dom (heap s'))" by (rule finite_subset [OF _ fin]) (auto simp: h split: if_splits)
    moreover have "set (take ?n ?vec) \<inter> set (drop ?n ?vec) = {}"
      using vec by (metis append_take_drop_id distinct_append members_from_def)
    moreover have "resize A sz arr s = Inr (True, arr\<lparr>internal_ArrVec := take ?n ?vec @ []\<rparr>, s')"
      by (rule resize_runs [OF assms(1,4,5) s'(1)]) (use True b in simp_all)
    ultimately show ?thesis using True s'(2) nb b h gone by (auto simp: arr_ok_def dest: in_set_takeD)
  next
    case False
    then obtain as s' where cr: "create_members A (m_par_name p) [length ?vec..<?n] s = Inr (as, s')"
      and len: "length as = ?n - length ?vec" and mem: "members_from ?E (m_par_name p) 0 (?vec @ as) s'"
      and fin': "finite (dom (heap s'))" and new: "\<forall>a \<in> set as. heap s a = None"
      and h: "\<forall>a. a \<notin> set as \<longrightarrow> heap s' a = heap s a"
      and vals: "\<forall>i. length ?vec \<le> i \<and> i < ?n \<longrightarrow> map_option my_value (heap s' ((?vec @ as) ! i))
          = Some (default_member A (m_par_name p) i s)"
      using grow_members [OF assms(2) fin vec assms(6)] by blast
    have "?b \<notin> set as" using new assms(4) by auto
    with h assms(4) have b: "?b \<notin> set as" "heap s' ?b = Some p" by simp_all
    have "resize A sz arr s = Inr (True, arr\<lparr>internal_ArrVec := take ?n ?vec @ as\<rparr>, s')"
      by (rule resize_runs [OF assms(1,4,5) _ cr b(2)]) (use False in simp)
    moreover have "\<forall>a \<in> set ?vec. heap s' a = heap s a"
      using h new members_live [OF vec] by blast
    ultimately show ?thesis using False len mem fin' nb b vals by (auto simp: arr_ok_def)
  qed
qed

definition sample_arrays :: "nat arr_env" where
  "sample_arrays = \<lparr>penv_of = sample_env, new_addr = (\<lambda>s. Suc (Max (insert 0 (dom (heap s))))),
     elem_type = PARTYPE_STRING, elem_type_string = ''string'', raw_value = 0, uint_value = unat,
     value_uint = of_nat, tokens = (\<lambda>_. [])\<rparr>"

definition sample_array_state :: "string \<Rightarrow> (string \<times> string) list \<Rightarrow> nat cnf_state" where
  "sample_array_state nm inits = \<lparr>heap = [1 \<mapsto> new_base PARTYPE_SMPL_ARRAY ''Array'' 0 True nm],
     m_parameter_database = map (\<lambda>(n, v). (n, new_implicit v)) inits\<rparr>"

lemma sample_arrays_fresh: "fresh_addresses sample_arrays"
  unfolding fresh_addresses_def
proof (intro allI impI)
  fix s :: "nat cnf_state" assume fin: "finite (dom (heap s))"
  have "new_addr sample_arrays s \<notin> dom (heap s)"
  proof
    assume "new_addr sample_arrays s \<in> dom (heap s)"
    then have "Suc (Max (insert 0 (dom (heap s)))) \<le> Max (insert 0 (dom (heap s)))"
      using fin by (intro Max_ge) (simp_all add: sample_arrays_def)
    then show False by simp
  qed
  then show "heap s (new_addr sample_arrays s) = None" by auto
qed

lemma resize_members_witness:
  "\<exists>arr' s'. resize sample_arrays 2 \<lparr>arr_addr = 1, internal_ArrVec = [], m_init_size = None\<rparr>
       (sample_array_state ''m.a'' [(''m.a.1'', ''abc'')]) = Inr (True, arr', s')
     \<and> length (internal_ArrVec arr') = 2 \<and> map_option my_value (heap s' (internal_ArrVec arr' ! 1)) = Some 3"
proof -
  let ?s = "sample_array_state ''m.a'' [(''m.a.1'', ''abc'')]"
  let ?arr = "\<lparr>arr_addr = 1, internal_ArrVec = [], m_init_size = None\<rparr>"
  let ?p = "new_base PARTYPE_SMPL_ARRAY ''Array'' 0 True ''m.a'' :: nat gs_param"
  have env: "penv_of sample_arrays = sample_env" by (simp add: sample_arrays_def)
  have fresh: "fresh_param ?p" by simp
  have "writable sample_env ?p"
    using fresh fresh_settled [OF fresh] by (simp add: writable_def fresh_param_def combined_def)
  moreover have "arr_ok sample_env ?arr ?s"
    by (simp add: arr_ok_def sample_array_state_def members_from_def)
  moreover have "getParam m ?s = None" for m
    by (simp add: getParam_def sample_array_state_def new_implicit_def)
  ultimately obtain arr' s' where r: "resize sample_arrays 2 ?arr ?s = Inr (True, arr', s')"
    "length (internal_ArrVec arr') = unat (2 :: u32)"
    "\<forall>i. length (internal_ArrVec ?arr) \<le> i \<and> i < unat (2 :: u32) \<longrightarrow>
         map_option my_value (heap s' (internal_ArrVec arr' ! i)) = Some (default_member sample_arrays (m_par_name ?p) i ?s)"
    using resize_members [of sample_arrays ?arr ?s ?p 2, unfolded env] sample_observing sample_arrays_fresh
    by (auto simp: sample_array_state_def simp del: map_option_eq_Some)
  moreover have "member_name ''m.a'' 1 = ''m.a.1''"
    by code_simp
  then have "default_member sample_arrays ''m.a'' 1 ?s = 3"
    by (simp add: default_member_def value_in_db_def sample_array_state_def new_implicit_def sample_arrays_def sample_env_def)
  ultimately show ?thesis by (intro exI [of _ arr'] exI [of _ s']) (simp del: map_option_eq_Some)
qed

section \<open>The initial size\<close>

lemma highest_member_foldl:
  "foldl (\<lambda>h n. case member_number nm n of Some t \<Rightarrow> if h < t + 1 then t + 1 else h | None \<Rightarrow> h) h ns
     = Max (insert h {t + 1 | t. \<exists>n \<in> set ns. member_number nm n = Some t})"
proof (induction ns arbitrary: h)
  case (Cons n ns)
  let ?S = "{t + 1 | t. \<exists>n \<in> set ns. member_number nm n = Some t} :: u32 set"
  have fin: "finite ?S" by simp
  show ?case
  proof (cases "member_number nm n")
    case None
    then show ?thesis using Cons by simp
  next
    case (Some t)
    then have "{t + 1 | t. \<exists>n \<in> set (n # ns). member_number nm n = Some t} = insert (t + 1) ?S" by auto
    moreover have "Max (insert (if h < t + 1 then t + 1 else h) ?S) = Max (insert h (insert (t + 1) ?S))"
      using fin by (cases "?S = {}") (auto simp: max_def)
    ultimately show ?thesis using Cons Some by simp
  qed
qed simp

definition implicit_size :: "string \<Rightarrow> 'v cnf_state \<Rightarrow> u32" where
  "implicit_size nm s =
     Max (insert 0 {t + 1 | t. \<exists>n. existsParam n s \<and> prefix nm n \<and> member_number nm n = Some t})"

lemma known_names: "n \<in> set (getParametersVector s) \<longleftrightarrow> existsParam n s"
  by (auto simp: getParametersVector_def existsParam_def map_of_eq_None_iff)

lemma highest_member_names:
  "highest_member nm (filter (prefix nm) (getParametersVector s)) = implicit_size nm s"
proof -
  have "{t + 1 | t. \<exists>n \<in> set (filter (prefix nm) (getParametersVector s)). member_number nm n = Some t}
      = {t + 1 | t. \<exists>n. existsParam n s \<and> prefix nm n \<and> member_number nm n = Some t}"
    using known_names [of _ s] by auto
  then show ?thesis by (simp add: highest_member_def highest_member_foldl implicit_size_def)
qed

lemma list_vec_children:
  assumes "length nm < 2 ^ 64 - 4"
  shows "list_vec (nm @ ''.*'') s = Inr (filter (prefix nm) (getParametersVector s))"
  using star_mod_append [OF assms] by (simp add: list_vec_def with_children_def str_find_0)

text \<open>The size remembered in the database under the name \<^verbatim>\<open>init_size\<close>, converted.\<close>

definition remembered_size :: "'v arr_env \<Rightarrow> string \<Rightarrow> u32 \<Rightarrow> 'v cnf_state \<Rightarrow> u32" where
  "remembered_size A nm sz s =
     value_uint A (value_in_db (penv_of A)
       (new_base PARTYPE_UINT ''unsigned int'' (uint_value A sz) True (nm @ ''.init_size'')) s)"

definition initial_size :: "'v arr_env \<Rightarrow> string \<Rightarrow> bool \<Rightarrow> u32 \<Rightarrow> 'v cnf_state \<Rightarrow> u32" where
  "initial_size A nm user_chosen sz s =
     (if existsParam (nm @ ''.init_size'') s then remembered_size A nm sz s
      else if user_chosen then sz
      else if implicit_size nm s > 0 then implicit_size nm s
      else sz)"

lemma fresh_getValue: "fresh_param p \<Longrightarrow> getValue E p = Inr (my_value p, p)"
  by (simp add: getValue_def make_callbacks_defs fresh_helper fresh_param_def)

lemma init_size_created:
  assumes "created a (nm @ ''.init_size'') v s s1" and "existsParam (nm @ ''.init_size'') s"
  shows "at_param a (getValue E) s1 = Inr (v, s1)" and "existsParam n s1 = existsParam n s"
    and "implicit_size nm s1 = implicit_size nm s"
proof -
  from assms(1) obtain p where p: "heap s1 a = Some p" "fresh_param p" "my_value p = v"
    by (auto simp: created_def)
  then show "at_param a (getValue E) s1 = Inr (v, s1)"
    by (simp add: at_param_def fresh_getValue deref_def write_param_def map_upd_triv)
  have ex: "existsParam n s1 = existsParam n s" for n
    using assms by (cases "n = nm @ ''.init_size''") (auto simp: created_def existsParam_def)
  then show "existsParam n s1 = existsParam n s" .
  show "implicit_size nm s1 = implicit_size nm s" by (simp add: implicit_size_def ex)
qed

lemma init_size_not_member [simp]: "nm @ ''.init_size'' \<noteq> member_name nm i"
proof
  assume "nm @ ''.init_size'' = member_name nm i"
  then have "''init_size'' = decimal i" by (simp add: member_name_def)
  then have "CHR ''i'' \<in> set (decimal i)" by (metis list.set_intros(1))
  then obtain d where "d < 10" "CHR ''i'' = digit_char d" using decimal_digits by blast
  then have "isdigit (CHR ''i'')" by (metis digit_char_simps(1))
  then show False by (simp add: isdigit_def)
qed

lemma choose_initial_size:
  "choose_size user (existsParam (nm @ ''.init_size'') s)
     (if existsParam (nm @ ''.init_size'') s then remembered_size A nm sz s else sz) (implicit_size nm s)
   = initial_size A nm user sz s"
  by (simp add: choose_size_def initial_size_def)

lemma names_belong_children: "names_belong nm (filter (prefix nm) ns)"
  by (simp add: names_belong_def)

lemma init_array_runs:
  assumes "heap s b = Some p" and "m_par_name p = nm" and "length nm < 2 ^ 64 - 4"
    and "getParam (nm @ ''.init_size'') s = None"
  shows "\<exists>s1 isz. (\<forall>n. n \<noteq> nm @ ''.init_size'' \<longrightarrow> db_find s1 n = db_find s n)
    \<and> (\<forall>a. a \<noteq> new_addr A s \<longrightarrow> heap s1 a = heap s a) \<and> dom (heap s1) \<subseteq> insert (new_addr A s) (dom (heap s))
    \<and> init_array A user sz vs b s =
        bindr (init_members A nm [0..<unat (initial_size A nm user sz s)]
                 (case vs of None \<Rightarrow> [] | Some v \<Rightarrow> take (unat sz) v) s1) (\<lambda>(as, s2).
          Inr (\<lparr>arr_addr = b, internal_ArrVec = as, m_init_size = isz\<rparr>, s2))"
proof (cases "existsParam (nm @ ''.init_size'') s")
  case False
  then have "init_array A user sz vs b s =
        bindr (init_members A nm [0..<unat (initial_size A nm user sz s)]
                 (case vs of None \<Rightarrow> [] | Some v \<Rightarrow> take (unat sz) v) s) (\<lambda>(as, s2).
          Inr (\<lparr>arr_addr = b, internal_ArrVec = as, m_init_size = None\<rparr>, s2))"
    using assms(1,2) choose_initial_size [of user nm s A sz]
    by (simp add: init_array_def deref_def Let_def list_vec_children [OF assms(3)] names_belong_children
        highest_member_names)
  then show ?thesis by blast
next
  case True
  let ?a = "new_addr A s"
  obtain s1 where s1: "new_from_value (penv_of A) PARTYPE_UINT ''unsigned int'' (raw_value A) (nm @ ''.init_size'')
      (uint_value A sz) ?a s = Inr s1"
    and c: "created ?a (nm @ ''.init_size'') (value_in_db (penv_of A)
        (new_base PARTYPE_UINT ''unsigned int'' (uint_value A sz) True (nm @ ''.init_size'')) s) s s1"
    using new_from_value_created [OF assms(4)] by blast
  note made = init_size_created [OF c True]
  have "init_array A user sz vs b s =
        bindr (init_members A nm [0..<unat (initial_size A nm user sz s)]
                 (case vs of None \<Rightarrow> [] | Some v \<Rightarrow> take (unat sz) v) s1) (\<lambda>(as, s2).
          Inr (\<lparr>arr_addr = b, internal_ArrVec = as, m_init_size = Some ?a\<rparr>, s2))"
    using assms(1,2) choose_initial_size [of user nm s A sz] True s1 made(1)
    by (simp add: init_array_def deref_def Let_def list_vec_children [OF assms(3)] names_belong_children
        highest_member_names made(3) remembered_size_def)
  then show ?thesis using created_frame [OF c] by blast
qed

lemma init_array_creates:
  assumes "fresh_addresses A" and "finite (dom (heap s))" and "heap s b = Some p"
    and "m_par_name p = nm" and "length nm < 2 ^ 64 - 4"
    and "getParam (nm @ ''.init_size'') s = None" and "\<And>i. getParam (member_name nm i) s = None"
  shows "\<exists>arr s'. init_array A user_chosen sz vs b s = Inr (arr, s') \<and> arr_addr arr = b \<and> arr_ok (penv_of A) arr s'
    \<and> heap s' b = Some p \<and> db_find s' nm = db_find s nm
    \<and> length (internal_ArrVec arr) = unat (initial_size A nm user_chosen sz s)
    \<and> (\<forall>i < length (internal_ArrVec arr). map_option my_value (heap s' (internal_ArrVec arr ! i))
         = Some (initial_member A nm i (drop i (case vs of None \<Rightarrow> [] | Some v \<Rightarrow> take (unat sz) v)) s))"
proof -
  let ?n = "unat (initial_size A nm user_chosen sz s)" and ?v = "case vs of None \<Rightarrow> [] | Some v \<Rightarrow> take (unat sz) v"
  obtain s1 isz where db: "\<forall>n. n \<noteq> nm @ ''.init_size'' \<longrightarrow> db_find s1 n = db_find s n"
    and h: "\<forall>a. a \<noteq> new_addr A s \<longrightarrow> heap s1 a = heap s a" and d: "dom (heap s1) \<subseteq> insert (new_addr A s) (dom (heap s))"
    and run: "init_array A user_chosen sz vs b s = bindr (init_members A nm [0..<?n] ?v s1) (\<lambda>(as, s2).
          Inr (\<lparr>arr_addr = b, internal_ArrVec = as, m_init_size = isz\<rparr>, s2))"
    using init_array_runs [OF assms(3-6)] by blast
  have fin: "finite (dom (heap s1))" using finite_subset [OF d] assms(2) by simp
  have "b \<noteq> new_addr A s" using assms(1-3) by (auto simp: fresh_addresses_def)
  with h assms(3) have b: "heap s1 b = Some p" by simp
  have dbm: "db_find s1 (member_name nm i) = db_find s (member_name nm i)" for i
    using db init_size_not_member [of nm i] by metis
  then have free: "getParam (member_name nm i) s1 = None" for i
    using assms(7) [of i] by (simp add: getParam_def)
  obtain as s2 where "init_members A nm [0..<?n] ?v s1 = Inr (as, s2)" "length as = ?n"
    "members_from (penv_of A) nm 0 as s2" "finite (dom (heap s2))"
    and new: "\<forall>a \<in> set as. heap s1 a = None" and old: "\<forall>a. a \<notin> set as \<longrightarrow> heap s2 a = heap s1 a"
    and dbs: "\<forall>m. (\<forall>k. 0 \<le> k \<and> k < ?n \<longrightarrow> m \<noteq> member_name nm k) \<longrightarrow> db_find s2 m = db_find s1 m"
    and vals: "\<forall>k < length as. map_option my_value (heap s2 (as ! k)) = Some (initial_member A nm (0 + k) (drop k ?v) s1)"
    using init_members_create [OF assms(1) fin, of 0 ?n nm ?v "penv_of A", OF free] by auto
  moreover have "db_find s2 nm = db_find s nm"
    using dbs db by (metis member_name_def self_append_conv list.distinct(1))
  moreover have "initial_member A nm k vs' s1 = initial_member A nm k vs' s" for k vs'
    by (rule initial_member_cong) (simp add: dbm)
  moreover have "b \<notin> set as" using new b by auto
  moreover from this have "heap s2 b = Some p" using old b by simp
  ultimately show ?thesis using run assms(4)
    by (intro exI [of _ "\<lparr>arr_addr = b, internal_ArrVec = as, m_init_size = isz\<rparr>"] exI [of _ s2])
      (simp add: arr_ok_def del: map_option_eq_Some)
qed

section \<open>Constructors\<close>

text \<open>
  The constructors by the arguments that decide the size: none, a size given with a
  \<^verbatim>\<open>std::string\<close> name and a pointer or a reference to the parent array, a size given with a
  \<^verbatim>\<open>char*\<close> name and whether it has low priority or with a reference, and a vector of values. The
  constructor with a string, a size and a pointer passes \<^verbatim>\<open>DEFAULT_ARRAY_SIZE\<close>, which is 0, on.
\<close>

datatype 'v array_ctor =
    NoSize
  | StringSizePtr u32
  | StringSizeRef u32
  | CharSizePtr u32 bool
  | CharSizeRef u32
  | InitialVector "'v list"

fun ctor_args :: "'v array_ctor \<Rightarrow> bool \<times> u32 \<times> 'v list option" where
  "ctor_args NoSize = (False, 0, None)"
| "ctor_args (StringSizePtr default_size) = (True, 0, None)"
| "ctor_args (StringSizeRef default_size) = (True, default_size, None)"
| "ctor_args (CharSizePtr default_size low_priority) = (\<not> low_priority, default_size, None)"
| "ctor_args (CharSizeRef default_size) = (True, default_size, None)"
| "ctor_args (InitialVector v) = (True, of_nat (length v), Some v)"

text \<open>
  Adding the array itself to the database: as for any parameter (\<open>addParam\<close>), but the remembered
  initial value is set by the array's own \<^verbatim>\<open>setString\<close>, a virtual function.
\<close>

definition set_array_initial ::
  "'v arr_env \<Rightarrow> string \<Rightarrow> simple_array \<Rightarrow> 'v cnf_state \<Rightarrow> (simple_array \<times> 'v cnf_state) res" where
  "set_array_initial A v arr s =
     bindr (deref (arr_addr arr) s) (\<lambda>p.
     bindr (arr_setString A v arr (write_param (arr_addr arr) (p\<lparr>m_setting_initial_value_now := True\<rparr>) s)) (\<lambda>(_, arr', s1).
     bindr (deref (arr_addr arr) s1) (\<lambda>p'.
       Inr (arr', write_param (arr_addr arr) (p'\<lparr>m_is_initial_value := True\<rparr>) s1))))"

definition addPar_array :: "'v arr_env \<Rightarrow> simple_array \<Rightarrow> 'v cnf_state \<Rightarrow> (simple_array \<times> 'v cnf_state) res" where
  "addPar_array A arr s =
     bindr (deref (arr_addr arr) s) (\<lambda>p.
       let n = m_par_name p in
       case db_find s n of
         Some e \<Rightarrow>
           (case param e of
              Some q \<Rightarrow>
                bindr (deref q s) (\<lambda>old.
                  if p_type old \<noteq> p_type p \<or> p_type_string old \<noteq> p_type_string p
                  then Inl (ScError ''addParam: Existing explicit Parameter is of different type!'')
                  else bindr (if had_initial_value e then set_array_initial A (init_value e) arr s else Inr (arr, s))
                         (\<lambda>(arr', s'). Inr (arr', update_entry n (\<lambda>e. e\<lparr>is_used := True\<rparr>) s')))
            | None \<Rightarrow>
                (let s1 = update_entry n (\<lambda>e. e\<lparr>param := Some (arr_addr arr)\<rparr>) s in
                 bindr (if had_initial_value e then set_array_initial A (init_value e) arr s1 else Inr (arr, s1))
                   (\<lambda>(arr', s2). Inr (arr', update_entry n (\<lambda>e. e\<lparr>is_used := True\<rparr>) s2))))
       | None \<Rightarrow>
           Inr (arr, s\<lparr>m_parameter_database :=
              fst (map_insert n (new_explicit (arr_addr arr)) (m_parameter_database s))\<rparr>))"

text \<open>
  A constructor makes the base object, then the members, then initialises and adds the array. The
  conversion of the empty string, which \<^verbatim>\<open>init\<close> asks for, leaves an array as it is.
\<close>

definition new_array ::
  "'v arr_env \<Rightarrow> 'v array_ctor \<Rightarrow> string \<Rightarrow> nat \<Rightarrow> 'v cnf_state \<Rightarrow> (simple_array \<times> 'v cnf_state) res" where
  "new_array A c nm b s =
     (case ctor_args c of (user_chosen_size, sz, init_vec) \<Rightarrow>
        bindr (init_array A user_chosen_size sz init_vec b
                 (write_param b (new_base PARTYPE_SMPL_ARRAY ''Array'' (raw_value A) True nm) s)) (\<lambda>(arr, s1).
          addPar_array A arr s1))"

definition delete_simple_array :: "'v arr_env \<Rightarrow> simple_array \<Rightarrow> 'v cnf_state \<Rightarrow> 'v cnf_state res" where
  "delete_simple_array A arr s =
     bindr (delete_array (penv_of A) arr s) (\<lambda>(arr', s1).
     bindr (delete_param (penv_of A) (arr_addr arr) s1) (\<lambda>s2.
       case m_init_size arr' of None \<Rightarrow> Inr s2 | Some a \<Rightarrow> delete_param (penv_of A) a s2))"

lemma addPar_array_plain:
  assumes "heap s (arr_addr arr) = Some p"
    and "\<forall>e. db_find s (m_par_name p) = Some e \<longrightarrow> param e = None \<and> \<not> had_initial_value e"
  shows "\<exists>s'. addPar_array A arr s = Inr (arr, s') \<and> heap s' = heap s
    \<and> getParam (m_par_name p) s' = Some (arr_addr arr)
    \<and> (\<forall>n. n \<noteq> m_par_name p \<longrightarrow> getParam n s' = getParam n s)"
proof (cases "db_find s (m_par_name p)")
  case None
  then show ?thesis using assms(1)
    by (simp add: addPar_array_def deref_def Let_def getParam_def map_simps new_explicit_def)
next
  case (Some e)
  then show ?thesis using assms
    by (simp add: addPar_array_def deref_def Let_def getParam_def)
qed

lemma initial_size_write [simp]:
  "initial_size A nm u sz (write_param b p s) = initial_size A nm u sz s"
  "initial_member A nm i vs (write_param b p s) = initial_member A nm i vs s"
  by (simp_all add: initial_size_def remembered_size_def implicit_size_def existsParam_def value_in_db_def
      initial_member_def default_member_def given_member_def Let_def split: list.split)

text \<open>C37. A new array under a name for which no parameter object stands in the database, nor under the names of its
  members and of its init_size, and for which no text of the array itself is remembered (such a text would be set after the
  construction and resize the array), has the size remembered in the database for its init_size parameter; without
  one, the size its constructor passes on; and when that is only a default, the number of the
  highest member for which the database holds a parameter, plus one, if there is any, even if that is smaller. This is what the code
  does; the comment of the class promises something else: there the highest member has the highest
  priority, over init_size and the constructor's size, when it is greater. The array
  and all its members are registered; each member holds the value remembered for its name,
  otherwise the constructor's value for the position, otherwise the type's default. A database
  name counts for a member when it starts with the array's name and, after one more character of
  whatever kind, goes on with digits up to its end or the next delimiter.\<close>

theorem new_array_sized:
  assumes "fresh_addresses A" and "finite (dom (heap s))" and "heap s b = None" and "length nm < 2 ^ 64 - 4"
    and "\<forall>e. db_find s nm = Some e \<longrightarrow> param e = None \<and> \<not> had_initial_value e"
    and "getParam (nm @ ''.init_size'') s = None" and "\<And>i. getParam (member_name nm i) s = None"
    and "ctor_args c = (user_chosen, sz, vs)"
  shows "\<exists>arr s'. new_array A c nm b s = Inr (arr, s') \<and> arr_addr arr = b \<and> arr_ok (penv_of A) arr s'
    \<and> getParam nm s' = Some b
    \<and> length (internal_ArrVec arr) = unat (initial_size A nm user_chosen sz s)
    \<and> (\<forall>i < length (internal_ArrVec arr). map_option my_value (heap s' (internal_ArrVec arr ! i))
         = Some (initial_member A nm i (drop i (case vs of None \<Rightarrow> [] | Some v \<Rightarrow> take (unat sz) v)) s))"
proof -
  let ?p = "new_base PARTYPE_SMPL_ARRAY ''Array'' (raw_value A) True nm"
  let ?s = "write_param b ?p s"
  obtain arr s1 where init: "init_array A user_chosen sz vs b ?s = Inr (arr, s1)" "arr_addr arr = b"
    "arr_ok (penv_of A) arr s1" "length (internal_ArrVec arr) = unat (initial_size A nm user_chosen sz s)"
    and base: "heap s1 b = Some ?p"
    and own: "db_find s1 nm = db_find s nm"
    and vals: "\<forall>i < length (internal_ArrVec arr). map_option my_value (heap s1 (internal_ArrVec arr ! i))
         = Some (initial_member A nm i (drop i (case vs of None \<Rightarrow> [] | Some v \<Rightarrow> take (unat sz) v)) s)"
    using init_array_creates [OF assms(1), of ?s b ?p nm user_chosen sz vs] assms
    by (auto simp: getParam_def)
  obtain s' where add: "addPar_array A arr s1 = Inr (arr, s')" "heap s' = heap s1"
    "getParam nm s' = Some b" "\<forall>n. n \<noteq> nm \<longrightarrow> getParam n s' = getParam n s1"
    using addPar_array_plain [of s1 arr ?p A] init(2) base own assms(5) by auto
  have "arr_ok (penv_of A) arr s'"
    using init(2,3) base add unfolding arr_ok_def by (auto simp: member_name_def intro: members_from_frame)
  then show ?thesis using init add vals assms(8)
    by (auto simp: new_array_def simp del: map_option_eq_Some)
qed

text \<open>The array \<open>m.a\<close> gets three members when the database knows a parameter \<open>m.ax2\<close>.\<close>

lemma new_array_sized_witness:
  "\<exists>arr s'. new_array sample_arrays NoSize ''m.a'' 1
      ((sample_array_state ''m.a'' [(''m.ax2'', ''v'')])\<lparr>heap := Map.empty\<rparr>) = Inr (arr, s')
     \<and> length (internal_ArrVec arr) = 3"
proof -
  let ?s = "(sample_array_state ''m.a'' [(''m.ax2'', ''v'')])\<lparr>heap := Map.empty\<rparr>"
  have free: "getParam m ?s = None" for m
    by (simp add: getParam_def sample_array_state_def new_implicit_def)
  have "{t + 1 | t. \<exists>n. existsParam n ?s \<and> prefix ''m.a'' n \<and> member_number ''m.a'' n = Some t} = {3}"
    by (auto simp: existsParam_def sample_array_state_def member_number_def isdigit_def digits_value_def digit_value_def)
  then have "initial_size sample_arrays ''m.a'' False 0 ?s = 3"
    by (simp add: initial_size_def implicit_size_def) (simp add: existsParam_def sample_array_state_def)
  then show ?thesis
    using new_array_sized [OF sample_arrays_fresh _ _ _ _ free free, of 1 "''m.a''" NoSize False 0 None]
    by (auto simp: sample_array_state_def)
qed

text \<open>A size given with a string name and a pointer is ignored.\<close>

lemma string_size_ignored: "new_array A (StringSizePtr n) nm b s = new_array A (StringSizePtr m) nm b s"
  by (simp add: new_array_def)

end
