(* ===== verification/Array_Text.thy ===== *)
theory Array_Text
  imports Simple_Array
begin

text \<open>
  The text form of simple parameter arrays (\<^verbatim>\<open>setString\<close>, \<^verbatim>\<open>serialize\<close> and \<^verbatim>\<open>parse\<close> of
  \<^verbatim>\<open>gs_param_array.hpp\<close>): what one array writes, another one reads. Also what becomes of an array
  that is assigned to itself, that refuses to be resized, or is accessed at the last position.
\<close>

section \<open>Texts\<close>

text \<open>
  What \<^verbatim>\<open>boost::tokenizer<>\<close> documents for its default separator: blanks and punctuation are
  dropped and separate the tokens.
\<close>

definition ispunct :: "char \<Rightarrow> bool" where
  "ispunct c \<longleftrightarrow> (let n = of_char c :: nat in
     (33 \<le> n \<and> n \<le> 47) \<or> (58 \<le> n \<and> n \<le> 64) \<or> (91 \<le> n \<and> n \<le> 96) \<or> (123 \<le> n \<and> n \<le> 126))"

definition separator :: "char \<Rightarrow> bool" where
  "separator c \<longleftrightarrow> isspace c \<or> ispunct c"

function words :: "string \<Rightarrow> string list" where
  "words s = (let r = dropWhile separator s in
     if r = [] then [] else takeWhile (\<lambda>c. \<not> separator c) r # words (dropWhile (\<lambda>c. \<not> separator c) r))"
  by pat_completeness auto

termination words
proof (relation "measure length", goal_cases)
  case (2 s r)
  then obtain c r' where r: "r = c # r'" using list.exhaust [of r] by metis
  have "\<not> separator (hd r)" unfolding 2(1) by (rule hd_dropWhile) (use 2 in simp)
  then have "\<not> separator c" using r by simp
  moreover have "length (dropWhile (\<lambda>c. \<not> separator c) r') \<le> length r'" by (rule length_dropWhile_le)
  moreover have "length r \<le> length s" using 2(1) length_dropWhile_le [of separator s] by simp
  ultimately show ?case using r by simp
qed simp

declare words.simps [simp del]

lemma words_separator [simp]: "separator c \<Longrightarrow> words (c # s) = words s"
  by (subst (1 2) words.simps) simp

definition plain_text :: "string \<Rightarrow> bool" where
  "plain_text t \<longleftrightarrow> t \<noteq> [] \<and> (\<forall>c \<in> set t. \<not> separator c)"

lemma words_token:
  assumes "plain_text t" and "separator d"
  shows "words (t @ d # s) = t # words s"
proof -
  have "dropWhile separator (t @ d # s) = t @ d # s"
    using assms(1) by (cases t) (auto simp: plain_text_def)
  moreover have "takeWhile (\<lambda>c. \<not> separator c) (t @ d # s) = t" "dropWhile (\<lambda>c. \<not> separator c) (t @ d # s) = d # s"
    using assms by (simp_all add: plain_text_def takeWhile_append dropWhile_append)
  ultimately show ?thesis using assms by (subst words.simps) (simp add: plain_text_def)
qed

lemma separators [simp]:
  "separator (CHR 0x22)" "separator (CHR '' '')" "separator (CHR ''{'')" "separator (CHR ''}'')"
  by (simp_all add: separator_def ispunct_def isspace_def)

lemma words_joined: "\<forall>t \<in> set ts. plain_text t \<Longrightarrow> words (CHR ''{'' # blank_join ts @ ''}'') = ts"
proof -
  have "words (blank_join ts @ ''}'') = ts" if "\<forall>t \<in> set ts. plain_text t"
    using that
  proof (induction ts rule: blank_join.induct)
    case 1
    then show ?case by (simp add: words.simps [of "[]"])
  next
    case (2 t)
    then show ?case using words_token [of t "CHR 0x22" "''}''"] by (simp add: words.simps [of "[]"])
  next
    case (3 t u ts)
    then show ?case using words_token [of t "CHR 0x22"] by simp
  qed
  then show "\<forall>t \<in> set ts. plain_text t \<Longrightarrow> ?thesis" by simp
qed

lemma plain_text_subst [simp]: "plain_text t \<Longrightarrow> subst_env E t n = t"
proof (rule subst_env_plain)
  assume "plain_text t"
  moreover have "separator (CHR ''$'')" by (simp add: separator_def ispunct_def)
  ultimately show "CHR ''$'' \<notin> set t" by (auto simp: plain_text_def)
qed

definition text_of :: "'v penv \<Rightarrow> 'v gs_param \<Rightarrow> string" where
  "text_of E p = static_serialize E (p_type p) (my_value p)"

lemma at_getString:
  assumes "observing E" and "heap s a = Some p" and "settled E p"
  shows "at_param a (getString E) s = Inr (text_of E p, s)"
proof -
  have "write_param a p s = s" using assms(2) by (simp add: write_param_def map_upd_triv)
  then show ?thesis using assms(2) helper_settled [OF assms(1,3)]
    by (simp add: at_param_def getString_def make_callbacks_defs text_of_def deref_def)
qed

lemma member_strings_texts:
  assumes "observing E" and "\<forall>a \<in> set as. \<exists>p. heap s a = Some p \<and> settled E p"
  shows "member_strings E as s = Inr (map (\<lambda>a. text_of E (the (heap s a))) as, s)"
  using assms(2) by (induction as) (auto simp: at_getString [OF assms(1)])

text \<open>Setting the members of an array from as many strings.\<close>

definition takes_text :: "'v penv \<Rightarrow> 'v cnf_state \<Rightarrow> nat \<Rightarrow> string \<Rightarrow> 'v \<Rightarrow> bool" where
  "takes_text E s a t v \<longleftrightarrow> (\<exists>p ok. heap s a = Some p \<and> writable E p
     \<and> static_deserialize E (p_type p) (subst_env E t (m_par_name p)) (my_value p) = (v, ok))"

lemma at_setString:
  assumes "observing E" and "heap s a = Some p" and "writable E p"
    and "static_deserialize E (p_type p) (subst_env E t (m_par_name p)) (my_value p) = (v, ok)"
  shows "at_param a (setString E t) s = Inr (ok, write_param a (p\<lparr>my_value := v\<rparr>) s)"
  using assms setString_observing [OF assms(1), of p t]
  by (simp add: at_param_def writable_def deref_def)

lemma set_member_strings_sets:
  assumes "observing E" and "distinct as" and "length ts = length as" and "length vs = length as"
    and "\<forall>k < length as. takes_text E s (as ! k) (ts ! k) (vs ! k)"
  shows "\<exists>s'. set_member_strings E ts as s = Inr s'
    \<and> map (\<lambda>a. map_option my_value (heap s' a)) as = map Some vs \<and> (\<forall>a. a \<notin> set as \<longrightarrow> heap s' a = heap s a)"
  using assms(2-)
proof (induction "as" arbitrary: ts vs s)
  case (Cons a as)
  then obtain t ts' v vs' where tv: "ts = t # ts'" "vs = v # vs'" by (metis length_Suc_conv)
  have "takes_text E s a t v" using Cons.prems(4) [rule_format, of 0] tv by simp
  then obtain p ok where p: "heap s a = Some p" "writable E p"
    "static_deserialize E (p_type p) (subst_env E t (m_par_name p)) (my_value p) = (v, ok)"
    by (auto simp: takes_text_def)
  let ?s = "write_param a (p\<lparr>my_value := v\<rparr>) s"
  have "takes_text E ?s (as ! k) (ts' ! k) (vs' ! k)" if "k < length as" for k
  proof -
    have "as ! k \<noteq> a" using Cons.prems(1) that by auto
    then show ?thesis using Cons.prems(4) [rule_format, of "Suc k"] that tv by (simp add: takes_text_def)
  qed
  then obtain s' where s': "set_member_strings E ts' as ?s = Inr s'"
    "map (\<lambda>a. map_option my_value (heap s' a)) as = map Some vs'" "\<forall>b. b \<notin> set as \<longrightarrow> heap s' b = heap ?s b"
    using Cons.IH [of ts' vs' ?s] Cons.prems tv by auto
  moreover have "map_option my_value (heap s' a) = Some v" using s'(3) Cons.prems(1) by simp
  ultimately show ?case using at_setString [OF assms(1) p] tv
    by (intro exI [of _ s']) (simp del: map_option_eq_Some)
qed simp

text \<open>C38. The text of an array carries its values: given to another array of the same size whose
  callbacks let writes pass and whose member type reads back what it writes, it is accepted and
  gives every member the value of the member at the same position. This is so for texts of
  members that are not empty and have no blank or punctuation: a sign or a decimal point is lost,
  because the parsing is boost's default tokenizer.\<close>

theorem array_text_transfer:
  assumes "observing (penv_of A)" and "\<And>str. tokens A str = words str"
    and "heap s (arr_addr arr) = Some p" and "settled (penv_of A) p"
    and "heap s (arr_addr arr') = Some p'" and "\<not> m_locked p'"
    and "length (internal_ArrVec arr') = length (internal_ArrVec arr)" and "length (internal_ArrVec arr) < 2 ^ 32"
    and "distinct (internal_ArrVec arr')"
    and "\<forall>a \<in> set (internal_ArrVec arr). \<exists>q. heap s a = Some q \<and> settled (penv_of A) q
      \<and> p_type q = elem_type A \<and> plain_text (text_of (penv_of A) q)"
    and "\<forall>a \<in> set (internal_ArrVec arr'). \<exists>q. heap s a = Some q \<and> writable (penv_of A) q \<and> p_type q = elem_type A"
    and "\<And>v w. static_deserialize (penv_of A) (elem_type A) (static_serialize (penv_of A) (elem_type A) v) w = (v, True)"
  shows "\<exists>str s'. arr_getString (penv_of A) arr s = Inr (str, s) \<and> arr_setString A str arr' s = Inr (True, arr', s')
    \<and> map (\<lambda>a. map_option my_value (heap s' a)) (internal_ArrVec arr')
        = map (\<lambda>a. map_option my_value (heap s a)) (internal_ArrVec arr)"
proof -
  let ?E = "penv_of A" and ?vec = "internal_ArrVec arr" and ?vec' = "internal_ArrVec arr'"
  let ?ts = "map (\<lambda>a. text_of ?E (the (heap s a))) ?vec" and ?vs = "map (\<lambda>a. my_value (the (heap s a))) ?vec"
  let ?str = "CHR ''{'' # blank_join ?ts @ ''}''"
  have plain: "\<forall>t \<in> set ?ts. plain_text t" using assms(10) by fastforce
  then have parse: "arr_parse A ?str = ?ts" using words_joined assms(2) by (simp add: arr_parse_def)
  have "member_strings ?E ?vec s = Inr (?ts, s)" by (rule member_strings_texts [OF assms(1)]) (use assms(10) in blast)
  then have get: "arr_getString ?E arr s = Inr (?str, s)"
    using at_param_observing [OF assms(1,3,4)]
    by (simp add: arr_getString_def arr_serialize_def make_pre_read_callbacks_def [abs_def] make_post_read_callbacks_def [abs_def])
  have "takes_text ?E s (?vec' ! k) (?ts ! k) (?vs ! k)" if k: "k < length ?vec'" for k
  proof -
    obtain q where q: "heap s (?vec' ! k) = Some q" "writable ?E q" "p_type q = elem_type A"
      using assms(11) k nth_mem by blast
    obtain r where r: "heap s (?vec ! k) = Some r" "p_type r = elem_type A"
      using assms(7,10) k nth_mem by metis
    have "plain_text (?ts ! k)" using plain k assms(7) nth_mem [of k ?ts] by simp
    then have "subst_env ?E (?ts ! k) (m_par_name q) = static_serialize ?E (elem_type A) (?vs ! k)"
      using r k assms(7) by (simp add: text_of_def)
    then show ?thesis using q assms(12) by (auto simp: takes_text_def)
  qed
  then obtain s' where "set_member_strings ?E ?ts ?vec' s = Inr s'"
    "map (\<lambda>a. map_option my_value (heap s' a)) ?vec' = map Some ?vs"
    using set_member_strings_sets [OF assms(1,9), of ?ts ?vs s] assms(7) by auto
  moreover have "map Some ?vs = map (\<lambda>a. map_option my_value (heap s a)) ?vec" using assms(10) by auto
  moreover have "unat (of_nat (length ?vec) :: u32) = length ?vec"
    using assms(8) by (simp add: unat_of_nat take_bit_nat_eq_self)
  ultimately have "arr_setString A ?str arr' s = Inr (True, arr', s')"
    "map (\<lambda>a. map_option my_value (heap s' a)) ?vec' = map (\<lambda>a. map_option my_value (heap s a)) ?vec"
    using assms(5,6,7) parse by (simp_all add: arr_setString_def deref_def Let_def)
  then show ?thesis using get by blast
qed

definition digit_env :: "nat penv" where
  "digit_env = sample_env\<lparr>static_deserialize := (\<lambda>t s v. (digits_value s, True)), static_serialize := (\<lambda>t v. decimal v)\<rparr>"

lemma array_text_transfer_witness:
  "\<exists>str s'. arr_setString (sample_arrays\<lparr>penv_of := digit_env, tokens := words\<rparr>) str
        \<lparr>arr_addr = 2, internal_ArrVec = [5, 6], m_init_size = None\<rparr>
        \<lparr>heap = (\<lambda>a. if a \<in> {1, 2} then Some (new_base PARTYPE_SMPL_ARRAY ''Array'' 0 True ''m'')
            else Some (new_base PARTYPE_STRING ''string'' a True ''p'')), m_parameter_database = []\<rparr>
      = Inr (True, \<lparr>arr_addr = 2, internal_ArrVec = [5, 6], m_init_size = None\<rparr>, s')
     \<and> map_option my_value (heap s' 5) = Some 3 \<and> map_option my_value (heap s' 6) = Some 4"
proof -
  let ?A = "sample_arrays\<lparr>penv_of := digit_env, tokens := words\<rparr>"
  let ?s = "\<lparr>heap = (\<lambda>a. if a \<in> {1, 2} then Some (new_base PARTYPE_SMPL_ARRAY ''Array'' 0 True ''m'')
            else Some (new_base PARTYPE_STRING ''string'' a True ''p'')), m_parameter_database = []\<rparr> :: nat cnf_state"
  let ?a = "\<lparr>arr_addr = 1, internal_ArrVec = [3, 4], m_init_size = None\<rparr>"
  let ?b = "\<lparr>arr_addr = 2, internal_ArrVec = [5, 6], m_init_size = None\<rparr>"
  have obs: "observing digit_env" using sample_observing by (simp add: observing_def digit_env_def)
  have w: "settled digit_env (new_base ty tys a True n)" "writable digit_env (new_base ty tys a True n)" for ty tys a n
    using fresh_settled [OF fresh_new_base, of digit_env ty tys a True n]
    by (simp_all add: writable_def combined_def) (simp_all add: new_base_def)
  have plain: "plain_text (decimal 3)" "plain_text (decimal 4)" by code_simp+
  have ser: "static_serialize digit_env t v = decimal v" "static_deserialize digit_env t str v = (digits_value str, True)"
    for t v str by (simp_all add: digit_env_def)
  have ty: "elem_type ?A = PARTYPE_STRING" "penv_of ?A = digit_env" "tokens ?A = words"
    by (simp_all add: sample_arrays_def)
  obtain str s' where "arr_setString ?A str ?b ?s = Inr (True, ?b, s')"
    "map (\<lambda>a. map_option my_value (heap s' a)) [5, 6] = map (\<lambda>a. map_option my_value (heap ?s a)) [3, 4]"
    using array_text_transfer [of ?A ?s ?a "new_base PARTYPE_SMPL_ARRAY ''Array'' 0 True ''m''" ?b
        "new_base PARTYPE_SMPL_ARRAY ''Array'' 0 True ''m''"] obs w plain
    by (auto simp: ty ser text_of_def simp del: map_option_eq_Some)
  then show ?thesis by (intro exI [of _ str] exI [of _ s']) simp
qed

text \<open>
  Assigning an array to itself deletes its members and leaves none. A refused resize is not
  noticed: assigning a shorter vector, or setting a longer text, then indexes out of range.
\<close>

theorem self_assignment_empties:
  assumes "observing (penv_of A)" and "arr_ok (penv_of A) arr s" and "heap s (arr_addr arr) = Some p" and "\<not> m_locked p"
  shows "\<exists>s'. assign_array A arr arr s = Inr (arr\<lparr>internal_ArrVec := []\<rparr>, s')
    \<and> (\<forall>a \<in> set (internal_ArrVec arr). heap s' a = None)"
proof -
  have "members_from (penv_of A) (m_par_name p) 0 (internal_ArrVec arr) s" using assms(2,3) by (auto simp: arr_ok_def)
  from delete_members_removes [OF assms(1) this] obtain s' where
    "delete_members (penv_of A) (internal_ArrVec arr) s = Inr s'"
    "\<forall>a. heap s' a = (if a \<in> set (internal_ArrVec arr) then None else heap s a)" by blast
  then show ?thesis using assms(3,4) by (simp add: assign_array_def delete_array_def deref_def Let_def)
qed

theorem refused_resize_overruns:
  assumes "observing (penv_of A)" and "heap s (arr_addr arr) = Some p" and "settled (penv_of A) p" and "\<not> m_locked p"
    and "combined (penv_of A) reject_write (p\<lparr>m_making := True\<rparr>) (m_lists p reject_write) = return_value_change_rejected"
  shows "resize A sz arr s = Inr (False, arr, s)"
    and "internal_ArrVec arr \<noteq> [] \<Longrightarrow>
      assign_vector A [] arr s = Inl (Undefined ''operator[] outside of the vector'')"
    and "internal_ArrVec arr = [] \<Longrightarrow> tokens A str \<noteq> [] \<Longrightarrow> length (tokens A str) < 2 ^ 32 \<Longrightarrow>
      arr_setString A str arr s = Inl (Undefined ''operator[] outside of the vector'')"
proof -
  have "at_param (arr_addr arr) (make_reject_write_callbacks (penv_of A)) s = Inr (return_value_change_rejected, s)"
    using at_param_observing [OF assms(1-3), of reject_write] assms(5) by (simp add: make_reject_write_callbacks_def [abs_def])
  then have no: "resize A sz arr s = Inr (False, arr, s)" for sz
    using assms(2,4) by (simp add: resize_def deref_def)
  then show "resize A sz arr s = Inr (False, arr, s)" .
  show "assign_vector A [] arr s = Inl (Undefined ''operator[] outside of the vector'')" if "internal_ArrVec arr \<noteq> []"
    using that no assms(2,4) by (cases "internal_ArrVec arr") (simp_all add: assign_vector_def deref_def)
  show "arr_setString A str arr s = Inl (Undefined ''operator[] outside of the vector'')"
    if "internal_ArrVec arr = []" "tokens A str \<noteq> []" "length (tokens A str) < 2 ^ 32"
    using that no assms(2,4) by (cases "tokens A str")
      (simp_all add: arr_setString_def deref_def arr_parse_def Let_def unat_of_nat take_bit_nat_eq_self)
qed

lemma at_last_position_throws:
  "length (internal_ArrVec arr) < 2 ^ 32 \<Longrightarrow> at_member A (-1) arr s = Inl OutOfRange"
proof -
  have "unat (- 1 :: u32) = 4294967295" by (simp add: unsigned_minus_1_eq_mask mask_eq_exp_minus_1)
  then show "length (internal_ArrVec arr) < 2 ^ 32 \<Longrightarrow> ?thesis" by (simp add: at_member_def)
qed

end
