(* ===== verification/Ext_Array.thy ===== *)
theory Ext_Array
  imports Param_Lifetime
begin

text \<open>
  Extended parameter arrays (\<^verbatim>\<open>gs_param_array.h\<close>): a parameter object with named members of any
  type, which it observes to pass their callbacks on to its own observers and to drop members
  that are destroyed.
\<close>

section \<open>State\<close>

datatype CallbackBehavior = CALLBACK_MEMBER_CHANGES | NOT_CALLBACK_MEMBER_CHANGES

text \<open>
  The array's own parameter object (an address), the members by their hierarchical name, and
  the behaviour set for an observer.
\<close>

record ext_array =
  ext_addr :: nat
  m_MemberMap :: "(string, nat) omap"
  m_CallbackBehaviorMap :: "(nat, CallbackBehavior) omap"

section \<open>Members\<close>

abbreviation on_base ::
  "('v gs_param \<Rightarrow> ('r \<times> 'v gs_param) res) \<Rightarrow> ext_array \<Rightarrow> 'v cnf_state \<Rightarrow> ('r \<times> 'v cnf_state) res" where
  "on_base f arr \<equiv> at_param (ext_addr arr) f"

definition base_locked :: "ext_array \<Rightarrow> 'v cnf_state \<Rightarrow> bool res" where
  "base_locked arr s = bindr (deref (ext_addr arr) s) (\<lambda>p. Inr (m_locked p))"

text \<open>What adding, removing and deleting have in common: the callbacks and the lock decide.\<close>

definition guarded_change ::
  "'v penv \<Rightarrow> (ext_array \<Rightarrow> 'v cnf_state \<Rightarrow> (bool \<times> ext_array \<times> 'v cnf_state) res)
     \<Rightarrow> ext_array \<Rightarrow> 'v cnf_state \<Rightarrow> (bool \<times> ext_array \<times> 'v cnf_state) res" where
  "guarded_change E change arr s =
     bindr (on_base (make_reject_write_callbacks E) arr s) (\<lambda>(ret, s1).
       if ret = return_value_change_rejected then Inr (False, arr, s1)
       else bindr (on_base (make_pre_write_callbacks E) arr s1) (\<lambda>(_, s2).
         bindr (base_locked arr s2) (\<lambda>lk.
           if lk then Inr (False, arr, s2)
           else bindr (change arr s2) (\<lambda>(ok, arr', s3).
             bindr (on_base (make_post_write_callbacks E) arr' s3) (\<lambda>(_, s4). Inr (ok, arr', s4))))))"

definition removeMember :: "'v penv \<Rightarrow> string \<Rightarrow> ext_array \<Rightarrow> 'v cnf_state \<Rightarrow> (bool \<times> ext_array \<times> 'v cnf_state) res" where
  "removeMember E nm arr s =
     guarded_change E
       (\<lambda>arr s. Inr (map_find (m_MemberMap arr) nm \<noteq> None, arr\<lparr>m_MemberMap := map_erase nm (m_MemberMap arr)\<rparr>, s))
       arr s"

text \<open>
  The six adapters made by \<^verbatim>\<open>addMember\<close> call the array's \<^verbatim>\<open>array_config_callback\<close>; their identities
  are an argument. The name before the last delimiter has to be the array's.
\<close>

definition observe_member :: "(callback_type \<Rightarrow> nat) \<Rightarrow> nat \<Rightarrow> 'v gs_param \<Rightarrow> 'v gs_param" where
  "observe_member ids obs p =
     fold (\<lambda>t p. (registerParamCallback \<lparr>a_id = ids t, a_observer = obs\<rparr> t p)\<lparr>m_callers := (m_callers p)(ids t := True)\<rparr>)
       [pre_read, post_read, reject_write, pre_write, post_write, destroy_param] p"

definition addMember ::
  "'v penv \<Rightarrow> (callback_type \<Rightarrow> nat) \<Rightarrow> nat \<Rightarrow> ext_array \<Rightarrow> 'v cnf_state \<Rightarrow> (bool \<times> ext_array \<times> 'v cnf_state) res" where
  "addMember E ids member arr s =
     bindr (deref (ext_addr arr) s) (\<lambda>b.
     bindr (deref member s) (\<lambda>p.
     bindr (substr (m_par_name p) 0 (find_last_of SC_NAME_DELIMITER (m_par_name p))) (\<lambda>parent.
       if m_par_name b \<noteq> parent then Inr (False, arr, s)
       else guarded_change E (\<lambda>arr s.
         bindr (deref member s) (\<lambda>p.
           Inr (True, arr\<lparr>m_MemberMap := fst (map_insert (m_par_name p) member (m_MemberMap arr))\<rparr>,
                write_param member (observe_member ids (ext_addr arr) p) s))) arr s)))"

definition ext_delete_array :: "'v penv \<Rightarrow> ext_array \<Rightarrow> 'v cnf_state \<Rightarrow> (bool \<times> ext_array \<times> 'v cnf_state) res" where
  "ext_delete_array E arr s =
     guarded_change E (\<lambda>arr s.
       bindr (delete_members E (map snd (m_MemberMap arr)) s) (\<lambda>s'. Inr (True, arr\<lparr>m_MemberMap := []\<rparr>, s'))) arr s"

section \<open>Access\<close>

definition ext_size :: "ext_array \<Rightarrow> u32" where
  "ext_size arr = of_nat (length (m_MemberMap arr))"

text \<open>Without a member of the name the callbacks after reading are not made.\<close>

definition getMember :: "'v penv \<Rightarrow> string \<Rightarrow> ext_array \<Rightarrow> 'v cnf_state \<Rightarrow> (nat option \<times> 'v cnf_state) res" where
  "getMember E nm arr s =
     bindr (on_base (make_pre_read_callbacks E) arr s) (\<lambda>(_, s1).
     bindr (deref (ext_addr arr) s1) (\<lambda>b.
       case map_find (m_MemberMap arr) (m_par_name b @ SC_NAME_DELIMITER # nm) of
         None \<Rightarrow> Inr (None, s1)
       | Some a \<Rightarrow> bindr (on_base (make_post_read_callbacks E) arr s1) (\<lambda>(_, s2). Inr (Some a, s2))))"

definition index_by_name :: "'v penv \<Rightarrow> string \<Rightarrow> ext_array \<Rightarrow> 'v cnf_state \<Rightarrow> (nat \<times> 'v cnf_state) res" where
  "index_by_name E nm arr s =
     bindr (on_base (make_pre_read_callbacks E) arr s) (\<lambda>(_, s1).
     bindr (on_base (make_post_read_callbacks E) arr s1) (\<lambda>(_, s2).
     bindr (getMember E nm arr s2) (\<lambda>(m, s3).
       case m of None \<Rightarrow> Inl (Undefined ''NULL dereference'') | Some a \<Rightarrow> Inr (a, s3))))"

definition set_callback_behavior ::
  "nat \<Rightarrow> CallbackBehavior \<Rightarrow> ext_array \<Rightarrow> 'v cnf_state \<Rightarrow> ext_array res" where
  "set_callback_behavior observer behav arr s =
     bindr (base_locked arr s) (\<lambda>lk.
       Inr (if lk then arr
            else arr\<lparr>m_CallbackBehaviorMap := map_put observer behav (m_CallbackBehaviorMap arr)\<rparr>))"

text \<open>The text: a line per member, line breaks in a member's text indented. (The position
  after the last delimiter is computed in \<^verbatim>\<open>size_t\<close>.)\<close>

fun indent_lines :: "string \<Rightarrow> string" where
  "indent_lines [] = []"
| "indent_lines (c # s) = (if c = CHR 0x0A then c # ''   '' @ indent_lines s else c # indent_lines s)"

fun member_lines :: "'v penv \<Rightarrow> bool \<Rightarrow> nat list \<Rightarrow> 'v cnf_state \<Rightarrow> (string \<times> 'v cnf_state) res" where
  "member_lines E first [] s = Inr ([], s)"
| "member_lines E first (a # as) s =
     bindr (deref a s) (\<lambda>p.
     bindr (substr (m_par_name p) ((find_last_of SC_NAME_DELIMITER (m_par_name p) + 1) mod 2 ^ 64)
              (length (m_par_name p))) (\<lambda>local.
     bindr (getString E p) (\<lambda>(tmp, p').
     bindr (member_lines E False as (write_param a p' s)) (\<lambda>(rest, s').
       Inr ((if first then [] else '','') @ [CHR 0x0A] @ ''   '' @ local @ '' = '' @ [CHR 0x27] @ indent_lines tmp
              @ [CHR 0x27] @ rest, s')))))"

definition ext_getString :: "'v penv \<Rightarrow> ext_array \<Rightarrow> 'v cnf_state \<Rightarrow> (string \<times> 'v cnf_state) res" where
  "ext_getString E arr s =
     bindr (on_base (make_pre_read_callbacks E) arr s) (\<lambda>(_, s1).
     bindr (member_lines E True (map snd (m_MemberMap arr)) s1) (\<lambda>(body, s2).
     bindr (on_base (make_post_read_callbacks E) arr s2) (\<lambda>(_, s3).
       Inr (''{'' @ body @ [CHR 0x0A] @ ''}'', s3))))"

section \<open>Callbacks of members\<close>

text \<open>
  An observer of the array is called unless its behaviour is set to not being called; whether
  its entry is still enabled is not looked at. A change rejection counts unless an error was
  returned before, an error always.
\<close>

definition passes_to :: "(nat, CallbackBehavior) omap \<Rightarrow> adapter \<Rightarrow> bool" where
  "passes_to behs a \<longleftrightarrow> map_find behs (a_observer a) \<noteq> Some NOT_CALLBACK_MEMBER_CHANGES"

fun pass_callbacks ::
  "'v penv \<Rightarrow> (nat, CallbackBehavior) omap \<Rightarrow> callback_type \<Rightarrow> cb_entry list \<Rightarrow> callback_return_type \<Rightarrow> 'v gs_param
     \<Rightarrow> callback_return_type \<times> 'v gs_param" where
  "pass_callbacks E behs r [] ret p = (ret, p)"
| "pass_callbacks E behs r (e # es) ret p =
     (if passes_to behs (snd e)
      then (case call_fn E (a_id (snd e)) r p of (tmp_ret, p') \<Rightarrow>
              pass_callbacks E behs r es
                (if tmp_ret = return_value_change_rejected \<and> ret = return_nothing then tmp_ret
                 else if tmp_ret = return_other_error then tmp_ret else ret) p')
      else pass_callbacks E behs r es ret p)"

definition array_config_callback ::
  "'v penv \<Rightarrow> nat \<Rightarrow> callback_type \<Rightarrow> ext_array \<Rightarrow> 'v cnf_state
     \<Rightarrow> (callback_return_type \<times> ext_array \<times> 'v cnf_state) res" where
  "array_config_callback E changed r arr s =
     (if r \<notin> set list_types
      then Inl (ScError ''array_config_callback: Cannot handle given callback type reason!'')
      else
        bindr (deref (ext_addr arr) s) (\<lambda>b.
        bindr (deref changed s) (\<lambda>p.
          case pass_callbacks E (m_CallbackBehaviorMap arr) r (m_lists b r) return_nothing p of (ret, p') \<Rightarrow>
          bindr (cleanup_callback_list (b\<lparr>m_making := False\<rparr>)) (\<lambda>b'.
            let s1 = write_param (ext_addr arr) b' (write_param changed p' s) in
            if m_destruction_flag p'
            then bindr (removeMember E (m_par_name p') arr s1) (\<lambda>(_, arr', s2). Inr (ret, arr', s2))
            else Inr (ret, arr, s1)))))"

section \<open>Arrays whose members live\<close>

definition ext_ok :: "ext_array \<Rightarrow> 'v cnf_state \<Rightarrow> bool" where
  "ext_ok arr s \<longleftrightarrow> omap_ok (m_MemberMap arr) \<and> ext_addr arr \<notin> set (map snd (m_MemberMap arr))
     \<and> (\<exists>b. heap s (ext_addr arr) = Some b)
     \<and> (\<forall>n a. map_find (m_MemberMap arr) n = Some a \<longrightarrow> (\<exists>p. heap s a = Some p \<and> m_par_name p = n))"

text \<open>What the array's callbacks and lock say about a change of the array.\<close>

definition change_rejected :: "'v penv \<Rightarrow> 'v gs_param \<Rightarrow> bool" where
  "change_rejected E b \<longleftrightarrow> m_locked b
     \<or> combined E reject_write (b\<lparr>m_making := True\<rparr>) (m_lists b reject_write) = return_value_change_rejected"

definition quiet_base :: "'v penv \<Rightarrow> 'v gs_param \<Rightarrow> bool" where
  "quiet_base E b \<longleftrightarrow> settled E b
     \<and> combined E pre_write (b\<lparr>m_making := True\<rparr>) (m_lists b pre_write) \<noteq> return_value_change_rejected"

lemma on_base_quiet:
  assumes "observing E" and "heap s (ext_addr arr) = Some b" and "quiet_base E b"
  shows "on_base (make_reject_write_callbacks E) arr s
      = Inr (combined E reject_write (b\<lparr>m_making := True\<rparr>) (m_lists b reject_write), s)"
    and "\<exists>r. on_base (make_pre_write_callbacks E) arr s = Inr (r, s)"
    and "\<exists>r. on_base (make_post_write_callbacks E) arr s = Inr (r, s)"
    and "\<exists>r. on_base (make_pre_read_callbacks E) arr s = Inr (r, s)"
    and "\<exists>r. on_base (make_post_read_callbacks E) arr s = Inr (r, s)"
proof -
  have b: "settled E b" using assms(3) by (simp add: quiet_base_def)
  note call = at_param_observing [OF assms(1,2) b]
  show "on_base (make_reject_write_callbacks E) arr s
      = Inr (combined E reject_write (b\<lparr>m_making := True\<rparr>) (m_lists b reject_write), s)"
    "\<exists>r. on_base (make_post_write_callbacks E) arr s = Inr (r, s)"
    "\<exists>r. on_base (make_pre_read_callbacks E) arr s = Inr (r, s)"
    "\<exists>r. on_base (make_post_read_callbacks E) arr s = Inr (r, s)"
    using call by (simp_all add: make_reject_write_callbacks_def [abs_def] make_post_write_callbacks_def [abs_def]
        make_pre_read_callbacks_def [abs_def] make_post_read_callbacks_def [abs_def])
  have "write_param (ext_addr arr) b s = s" using assms(2) by (simp add: write_param_def map_upd_triv)
  then show "\<exists>r. on_base (make_pre_write_callbacks E) arr s = Inr (r, s)"
    using assms helper_settled [OF assms(1) b]
    by (simp add: at_param_def make_pre_write_callbacks_def quiet_base_def deref_def)
qed

lemma guarded_change_quiet:
  assumes "observing E" and "heap s (ext_addr arr) = Some b" and "quiet_base E b"
    and "change arr s = Inr (ok, arr', s')" and "ext_addr arr' = ext_addr arr" and "heap s' (ext_addr arr) = Some b"
  shows "guarded_change E change arr s = Inr (if change_rejected E b then (False, arr, s) else (ok, arr', s'))"
proof -
  obtain r1 where "on_base (make_pre_write_callbacks E) arr s = Inr (r1, s)"
    using on_base_quiet(2) [OF assms(1-3)] by blast
  moreover obtain r2 where "on_base (make_post_write_callbacks E) arr' s' = Inr (r2, s')"
    using on_base_quiet(3) [of E s' arr' b] assms(1,3,5,6) by auto
  ultimately show ?thesis using on_base_quiet(1) [OF assms(1-3)] assms(2,4)
    by (simp add: guarded_change_def change_rejected_def base_locked_def deref_def)
qed

lemma removeMember_quiet:
  assumes "observing E" and "heap s (ext_addr arr) = Some b" and "quiet_base E b"
  shows "removeMember E nm arr s = Inr (if change_rejected E b then (False, arr, s)
     else (map_find (m_MemberMap arr) nm \<noteq> None, arr\<lparr>m_MemberMap := map_erase nm (m_MemberMap arr)\<rparr>, s))"
  unfolding removeMember_def by (rule guarded_change_quiet [OF assms]) (simp_all add: assms(2))

section \<open>What the array's observers are told\<close>

lemma pass_callbacks_observing:
  assumes "observing E"
  shows "pass_callbacks E behs r es ret p
     = (max ret (combined E r p (map (\<lambda>e. (True, snd e)) (filter (\<lambda>e. passes_to behs (snd e)) es))), p)"
proof (induction es arbitrary: ret)
  case Nil
  then show ?case by (simp add: combined_def max_absorb1)
next
  case (Cons e es)
  obtain t where t: "call_fn E (a_id (snd e)) r p = (t, p)"
    using assms by (metis observing_def prod.collapse)
  have "(if t = return_value_change_rejected \<and> ret = return_nothing then t
      else if t = return_other_error then t else ret) = max ret t"
    by (cases t; cases ret) (simp_all add: max_def return_order)
  then show ?case using t Cons by (simp add: combined_Cons max.assoc)
qed

text \<open>What a member's callback returns is what the array's own observers return for the changed
  member, combined by the same precedence as for the array itself; but every observer entry is
  called whose behaviour is not set to ignoring the members, including entries that were
  disabled because their callback was unregistered. Nothing else changes, unless the member is
  being destroyed.\<close>

theorem member_callback_combined:
  assumes "observing E" and "heap s (ext_addr arr) = Some b" and "settled E b"
    and "heap s changed = Some p" and "\<not> m_destruction_flag p" and "r \<in> set list_types"
  shows "array_config_callback E changed r arr s
     = Inr (combined E r p (map (\<lambda>e. (True, snd e)) (filter (\<lambda>e. passes_to (m_CallbackBehaviorMap arr) (snd e)) (m_lists b r))),
            arr, s)"
proof -
  have "b\<lparr>m_making := False\<rparr> = b" "cleanup_callback_list b = Inr b"
    using assms(3) gs_param_making_id [of b] by (simp_all add: settled_def cleanup_callback_list_def)
  moreover have "write_param (ext_addr arr) b (write_param changed p s) = s"
    using assms(2,4) by (simp add: write_param_def map_upd_triv)
  ultimately show ?thesis using assms
    by (simp add: array_config_callback_def deref_def pass_callbacks_observing [OF assms(1)])
qed

section \<open>Members come and go\<close>

lemma map_erase_subset: "set (map_erase k m) \<subseteq> set m"
  by (induction m rule: map_erase.induct) auto

text \<open>
  A member is destroyed: its flag is set, the array is told if it has an enabled entry in the member's list of
  \<open>destroy_param\<close> callbacks, as it has since \<open>addMember\<close>, and the object is removed.
  (\<open>delete_param\<close> makes the \<open>destroy_param\<close> callbacks of the member, of which the array's is the
  one written out here; a second entry of the array would find the member gone.)
\<close>

definition tells :: "'v gs_param \<Rightarrow> ext_array \<Rightarrow> bool" where
  "tells p arr \<longleftrightarrow> list_ex (\<lambda>(enabled, a). enabled \<and> a_observer a = ext_addr arr) (m_lists p destroy_param)"

definition destroy_member ::
  "'v penv \<Rightarrow> nat \<Rightarrow> ext_array \<Rightarrow> 'v cnf_state \<Rightarrow> (ext_array \<times> 'v cnf_state) res" where
  "destroy_member E member arr s =
     bindr (deref member s) (\<lambda>p.
     let s0 = write_param member (p\<lparr>m_destruction_flag := True\<rparr>) s in
     bindr (if tells p arr then array_config_callback E member destroy_param arr s0 else Inr (return_nothing, arr, s0))
       (\<lambda>(_, arr', s1). bindr (delete_param E member s1) (\<lambda>s2. Inr (arr', s2))))"

lemma destroy_callback_quiet:
  assumes "observing E" and "heap s (ext_addr arr) = Some b" and "quiet_base E b"
    and "heap s member = Some p" and "m_destruction_flag p"
  shows "\<exists>ret. array_config_callback E member destroy_param arr s = Inr (ret,
     if change_rejected E b then arr else arr\<lparr>m_MemberMap := map_erase (m_par_name p) (m_MemberMap arr)\<rparr>, s)"
proof -
  have "b\<lparr>m_making := False\<rparr> = b" "cleanup_callback_list b = Inr b"
    using assms(3) gs_param_making_id [of b] by (simp_all add: settled_def quiet_base_def cleanup_callback_list_def)
  moreover have "write_param (ext_addr arr) b (write_param member p s) = s"
    using assms(2,4) by (simp add: write_param_def map_upd_triv)
  ultimately show ?thesis using assms
    by (simp add: array_config_callback_def deref_def pass_callbacks_observing [OF assms(1)] list_types_def
        removeMember_quiet [OF assms(1-3)])
qed

text \<open>C39. When a member of an array that is registered at it is destroyed, the array drops it and its remaining members stay
  live; but when the array is locked, or an observer of the array rejects changes, or the array is not registered at the member any more,
  the array keeps the member's name with a pointer to the destroyed object.\<close>

theorem destroyed_member_dropped:
  assumes "observing E" and "ext_ok arr s" and "heap s (ext_addr arr) = Some b" and "quiet_base E b"
    and "map_find (m_MemberMap arr) (m_par_name p) = Some member" and "heap s member = Some p"
    and "settled E p" and "m_register_at_db p" and "getParam (m_par_name p) s = Some member"
  shows "\<exists>arr' s'. destroy_member E member arr s = Inr (arr', s') \<and> heap s' = (heap s)(member := None)
    \<and> (if change_rejected E b \<or> \<not> tells p arr
       then map_find (m_MemberMap arr') (m_par_name p) = Some member
       else ext_ok arr' s' \<and> map_find (m_MemberMap arr') (m_par_name p) = None
         \<and> (\<forall>n. n \<noteq> m_par_name p \<longrightarrow> map_find (m_MemberMap arr') n = map_find (m_MemberMap arr) n))"
proof -
  let ?p = "p\<lparr>m_destruction_flag := True\<rparr>" and ?nm = "m_par_name p"
  let ?s = "write_param member ?p s"
  have ne: "member \<noteq> ext_addr arr" using assms(2,5) unfolding ext_ok_def by (metis map_of_SomeD image_eqI set_map snd_conv)
  let ?arr = "if change_rejected E b \<or> \<not> tells p arr then arr else arr\<lparr>m_MemberMap := map_erase ?nm (m_MemberMap arr)\<rparr>"
  obtain ret where cb: "(if tells p arr then array_config_callback E member destroy_param arr ?s
      else Inr (return_nothing, arr, ?s)) = Inr (ret, ?arr, ?s)"
    using destroy_callback_quiet [OF assms(1), of ?s arr b member ?p] assms(3,4) ne by (cases "tells p arr") auto
  obtain e where e: "db_find s ?nm = Some e" using assms(9) by (auto simp: getParam_def split: option.splits)
  have "settled E ?p" using assms(7) by (simp add: settled_def)
  then obtain s' where s': "delete_param E member ?s = Inr s'" "heap s' = (heap ?s)(member := None)"
    using delete_param_removes [OF assms(1), of ?s member ?p e] assms(8) e by auto
  have run: "destroy_member E member arr s = Inr (?arr, s')"
    using assms(6) cb s'(1) by (simp add: destroy_member_def deref_def Let_def)
  have heap: "heap s' = (heap s)(member := None)" using s'(2) by (simp add: fun_eq_iff)
  have ok: "omap_ok (m_MemberMap arr)" using assms(2) by (simp add: ext_ok_def)
  have "ext_ok (arr\<lparr>m_MemberMap := map_erase ?nm (m_MemberMap arr)\<rparr>) s'"
  proof -
    have "heap s' a = heap s a" if "map_find (m_MemberMap arr) n = Some a" "n \<noteq> ?nm" for n a
      using that assms(2,6) heap unfolding ext_ok_def by (metis fun_upd_other option.inject)
    moreover have "ext_addr arr \<notin> set (map snd (map_erase ?nm (m_MemberMap arr)))"
      using assms(2) map_erase_subset [of ?nm "m_MemberMap arr"] by (auto simp: ext_ok_def)
    ultimately show ?thesis using assms(2,3) ne heap ok by (auto simp: ext_ok_def map_simps)
  qed
  then show ?thesis using run heap assms(5) ok by (auto simp: map_simps)
qed

lemma map_put_values: "set (map snd (map_put k v m)) \<subseteq> insert v (set (map snd m))"
  by (induction k v m rule: map_put.induct) auto

lemma observe_member_lists:
  "m_lists (observe_member ids obs p) r =
     (if r \<in> set list_types then m_lists p r @ [(True, \<lparr>a_id = ids r, a_observer = obs\<rparr>)] else m_lists p r)"
  "m_par_name (observe_member ids obs p) = m_par_name p"
  by (simp_all add: observe_member_def registerParamCallback_def push_entry_def set_list_def list_types_def)

lemma last_delimiter:
  assumes "SC_NAME_DELIMITER \<notin> set loc"
  shows "find_last_of SC_NAME_DELIMITER (h @ SC_NAME_DELIMITER # loc) = length h"
  using find_last_of_append [OF assms] by (simp add: find_last_of_def str_rfind_def pos_of_def)

lemma map_find_in: "map_find m n = Some a \<Longrightarrow> a \<in> snd ` set m"
  by (metis map_of_SomeD image_eqI snd_conv)

text \<open>Adding a member to an array that accepts changes, under a new name that is the array's name
  and a local one, makes the member accessible by the local name, keeps all other members, and
  leaves the array registered as the last observer of the member for every kind of callback. A
  parameter with another parent name is refused and nothing changes.\<close>

theorem added_member_found:
  assumes "observing E" and "ext_ok arr s" and "heap s (ext_addr arr) = Some b" and "quiet_base E b"
    and "\<not> change_rejected E b" and "heap s member = Some p" and "member \<noteq> ext_addr arr"
    and "map_find (m_MemberMap arr) (m_par_name p) = None"
    and "m_par_name p = hier @ SC_NAME_DELIMITER # loc" and "SC_NAME_DELIMITER \<notin> set loc"
  shows "if hier = m_par_name b
    then \<exists>arr' s'. addMember E ids member arr s = Inr (True, arr', s') \<and> ext_ok arr' s'
      \<and> getMember E loc arr' s' = Inr (Some member, s')
      \<and> (\<forall>n. n \<noteq> m_par_name p \<longrightarrow> map_find (m_MemberMap arr') n = map_find (m_MemberMap arr) n)
      \<and> (\<forall>r \<in> set list_types. \<exists>q. heap s' member = Some q
           \<and> m_lists q r = m_lists p r @ [(True, \<lparr>a_id = ids r, a_observer = ext_addr arr\<rparr>)])
    else addMember E ids member arr s = Inr (False, arr, s)"
proof (cases "hier = m_par_name b")
  case False
  then show ?thesis using assms(3,6,9) last_delimiter [OF assms(10), of hier]
    by (simp add: addMember_def deref_def substr_def)
next
  case True
  let ?p = "observe_member ids (ext_addr arr) p"
  let ?arr = "arr\<lparr>m_MemberMap := fst (map_insert (m_par_name p) member (m_MemberMap arr))\<rparr>"
  let ?s = "write_param member ?p s"
  have sub: "substr (m_par_name p) 0 (find_last_of SC_NAME_DELIMITER (m_par_name p)) = Inr (m_par_name b)"
    using last_delimiter [OF assms(10), of hier] assms(9) True by simp
  have b: "heap ?s (ext_addr ?arr) = Some b" using assms(3,7) by simp
  have add: "addMember E ids member arr s = Inr (True, ?arr, ?s)"
  proof -
    have "guarded_change E (\<lambda>arr s. bindr (deref member s) (\<lambda>p.
         Inr (True, arr\<lparr>m_MemberMap := fst (map_insert (m_par_name p) member (m_MemberMap arr))\<rparr>,
              write_param member (observe_member ids (ext_addr arr) p) s))) arr s
        = Inr (if change_rejected E b then (False, arr, s) else (True, ?arr, ?s))"
      by (rule guarded_change_quiet [OF assms(1,3,4)]) (use assms(3,6,7) in \<open>simp_all add: deref_def\<close>)
    then show ?thesis using assms(3,5,6) by (simp add: addMember_def deref_def sub del: substr_Inr)
  qed
  have "map_insert (m_par_name p) member (m_MemberMap arr) = (map_put (m_par_name p) member (m_MemberMap arr), True)"
    using assms(8) by (simp add: map_insert_def)
  then have vals: "set (map snd (m_MemberMap ?arr)) \<subseteq> insert member (set (map snd (m_MemberMap arr)))"
    using map_put_values [of "m_par_name p" member "m_MemberMap arr"] by simp
  have "map_find (m_MemberMap arr) n \<noteq> Some member" for n
    using assms(2,6,8) unfolding ext_ok_def by (metis option.inject option.distinct(1))
  then have ok: "ext_ok ?arr ?s"
    using assms(2,3,7,8) vals unfolding ext_ok_def
    by (auto simp: map_simps omap_ok_insert observe_member_lists split: if_splits)
  obtain r1 r2 where "on_base (make_pre_read_callbacks E) ?arr ?s = Inr (r1, ?s)"
    "on_base (make_post_read_callbacks E) ?arr ?s = Inr (r2, ?s)"
    using on_base_quiet(4,5) [OF assms(1) b assms(4)] by blast
  then have "getMember E loc ?arr ?s = Inr (Some member, ?s)"
    using b assms(8,9) True by (simp add: getMember_def deref_def map_simps)
  then show ?thesis using add ok True assms(8)
    by (auto simp: map_simps observe_member_lists)
qed

section \<open>A small array\<close>

definition sample_base :: "nat gs_param" where
  "sample_base = new_base PARTYPE_EXT_ARRAY ''ExtendedArray'' 0 True ''m.arr''"

definition sample_member :: "nat gs_param" where
  "sample_member = new_base PARTYPE_UINT ''unsigned int'' 5 True ''m.arr.x''"

definition sample_ext :: ext_array where
  "sample_ext = \<lparr>ext_addr = 1, m_MemberMap = [(''m.arr.x'', 2)], m_CallbackBehaviorMap = [(10, NOT_CALLBACK_MEMBER_CHANGES)]\<rparr>"

definition sample_ext_state :: "nat gs_param \<Rightarrow> nat cnf_state" where
  "sample_ext_state b = \<lparr>heap = [1 \<mapsto> b, 2 \<mapsto> sample_member], m_parameter_database = [(''m.arr.x'', new_explicit 2)]\<rparr>"

lemma fresh_quiet:
  assumes "fresh_param b"
  shows "settled E b" and "quiet_base E b" and "\<not> change_rejected E b"
  using assms by (simp_all add: fresh_param_def settled_def quiet_base_def change_rejected_def combined_def)

lemma sample_ext_facts [simp]:
  "fresh_param sample_base" "fresh_param sample_member" "m_par_name sample_base = ''m.arr''"
  "m_par_name sample_member = ''m.arr.x''" "m_register_at_db sample_member" "\<not> m_destruction_flag sample_member"
  by (simp_all add: sample_base_def sample_member_def new_base_def fresh_param_def)

lemma sample_ext_ok: "ext_ok sample_ext (sample_ext_state b)"
  by (auto simp: ext_ok_def sample_ext_def sample_ext_state_def omap_ok_def split: if_splits)

text \<open>An observer that was unregistered while callbacks were made is told, one that does not want
  member changes is not.\<close>

lemma member_callback_combined_witness:
  "array_config_callback sample_env 2 reject_write sample_ext
     (sample_ext_state (sample_base\<lparr>m_lists := (\<lambda>_. [(True, \<lparr>a_id = 2, a_observer = 10\<rparr>),
        (False, \<lparr>a_id = 1, a_observer = 20\<rparr>)])\<rparr>))
   = Inr (return_value_change_rejected, sample_ext,
       sample_ext_state (sample_base\<lparr>m_lists := (\<lambda>_. [(True, \<lparr>a_id = 2, a_observer = 10\<rparr>),
        (False, \<lparr>a_id = 1, a_observer = 20\<rparr>)])\<rparr>))"
proof -
  let ?b = "sample_base\<lparr>m_lists := (\<lambda>_. [(True, \<lparr>a_id = 2, a_observer = 10\<rparr>), (False, \<lparr>a_id = 1, a_observer = 20\<rparr>)])\<rparr>"
  have "settled sample_env ?b" using sample_ext_facts(1)
    by (simp add: settled_def fresh_param_def) (simp add: sample_env_def)
  from member_callback_combined [OF sample_observing, of "sample_ext_state ?b" sample_ext ?b 2 sample_member reject_write, OF _ this]
  show ?thesis
    by (simp add: sample_ext_def sample_ext_state_def list_types_def passes_to_def combined_def sample_env_def)
qed

lemma destroyed_member_dropped_witness:
  "\<exists>arr' s'. destroy_member sample_env 2 sample_ext (sample_ext_state (sample_base\<lparr>m_locked := True\<rparr>)) = Inr (arr', s')
     \<and> map_find (m_MemberMap arr') ''m.arr.x'' = Some 2 \<and> heap s' 2 = None"
proof -
  let ?b = "sample_base\<lparr>m_locked := True\<rparr>"
  have "quiet_base sample_env ?b"
    using sample_ext_facts(1) by (simp add: quiet_base_def settled_def fresh_param_def combined_def)
  moreover have "change_rejected sample_env ?b" by (simp add: change_rejected_def)
  ultimately show ?thesis
    using destroyed_member_dropped [OF sample_observing sample_ext_ok [of ?b], of ?b sample_member 2]
      fresh_quiet(1) [OF sample_ext_facts(2)]
    by (auto simp: sample_ext_def sample_ext_state_def getParam_def new_explicit_def)
qed

lemma added_member_found_witness:
  "\<exists>arr' s'. addMember sample_env (\<lambda>_. 9) 2 (sample_ext\<lparr>m_MemberMap := []\<rparr>) (sample_ext_state sample_base) = Inr (True, arr', s')
     \<and> getMember sample_env ''x'' arr' s' = Inr (Some 2, s')"
proof -
  have "ext_ok (sample_ext\<lparr>m_MemberMap := []\<rparr>) (sample_ext_state sample_base)"
    by (simp add: ext_ok_def sample_ext_def sample_ext_state_def)
  from added_member_found [OF sample_observing this, of sample_base 2 sample_member "''m.arr''" "''x''" "\<lambda>_. 9"]
  show ?thesis using fresh_quiet [OF sample_ext_facts(1), of sample_env]
    by (auto simp: sample_ext_def sample_ext_state_def)
qed

end
