(* ===== verification/Stat_Trigger.thy ===== *)
theory Stat_Trigger
  imports Gs_Utils
begin

text \<open>
  GreenAV's trigger (\<^verbatim>\<open>gav/plugin/Trigger.h\<close>), which starts the calculation of a statistics
  calculator on events, at intervals and on changes of parameters, and \<^verbatim>\<open>StatCalc.h\<close>, which connects
  a trigger with a calculator. The calculator is what is called: the state counts the calls.
\<close>

section \<open>State\<close>

text \<open>
  The vectors of callback adapters are lists of the parameters' names they are registered at; the
  \<^verbatim>\<open>activated\<close> parameter is its value, None for the pointer that is not set yet. The event of
  the interval is the absolute time at which it is due. \<^verbatim>\<open>m_event_listener\<close> is NULL when there is no
  GreenAV plugin.
\<close>

record trigger =
  m_is_activated :: bool
  deactivated_forewer :: bool
  enabled_on_change_activation :: bool
  enabled_sensitivity_param_change_activation :: bool
  input_parameters :: "string list"
  input_parameter_change_callbAdapts :: "string list"
  input_parameter_destruct_callbAdapts :: "string list"
  sensitivity_parameters :: "string list"
  sensitivity_parameter_change_callbAdapts :: "string list"
  condition :: "nat option"
  has_listener :: bool
  m_events :: "nat list"
  sample_event_id :: int
  sample_event :: "nat option"
  sample_time :: nat
  has_calculator :: bool
  activated :: "bool option"
  calculations :: nat

text \<open>
  What the API and the kernel say: whether a parameter of a name exists (\<^verbatim>\<open>getPar\<close>), the values of
  condition parameters, and the time.
\<close>

record world_view =
  par_exists :: "string \<Rightarrow> bool"
  cond_value :: "nat \<Rightarrow> bool"
  now :: nat

section \<open>Sampling and calculation\<close>

definition calculate :: "world_view \<Rightarrow> trigger \<Rightarrow> trigger res" where
  "calculate w t =
     (if \<not> m_is_activated t then Inr t
      else if (case condition t of None \<Rightarrow> False | Some c \<Rightarrow> \<not> cond_value w c) then Inr t
      else if \<not> has_calculator t then Inl (Undefined ''m_calculator is NULL'')
      else Inr (t\<lparr>calculations := Suc (calculations t)\<rparr>))"

text \<open>\<^verbatim>\<open>sc_event::notify\<close> with a time: an earlier pending notification stays.\<close>

definition notify_sample :: "nat \<Rightarrow> trigger \<Rightarrow> trigger" where
  "notify_sample at t =
     t\<lparr>sample_event := Some (case sample_event t of None \<Rightarrow> at | Some d \<Rightarrow> min d at)\<rparr>"

text \<open>The listener's identifier is the number it gives out next, an argument.\<close>

definition set_sample_interval :: "int \<Rightarrow> world_view \<Rightarrow> nat \<Rightarrow> trigger \<Rightarrow> trigger" where
  "set_sample_interval next_id w sample t =
     (let t1 = t\<lparr>sample_time := sample, sample_event := None\<rparr> in
      if sample = 0 then t1
      else (let t2 = notify_sample (now w + sample) t1 in
            if sample_event_id t2 = -1 \<and> has_listener t2 then t2\<lparr>sample_event_id := next_id\<rparr> else t2))"

definition interval_callback :: "world_view \<Rightarrow> trigger \<Rightarrow> trigger res" where
  "interval_callback w t = bindr (calculate w t) (\<lambda>t'. Inr (notify_sample (now w + sample_time t') t'))"

definition set_event :: "nat \<Rightarrow> trigger \<Rightarrow> trigger" where
  "set_event ev t = (if has_listener t then t\<lparr>m_events := m_events t @ [ev]\<rparr> else t)"

definition event_callback :: "world_view \<Rightarrow> trigger \<Rightarrow> trigger res" where
  "event_callback w t = calculate w t"

definition calculate_now :: "world_view \<Rightarrow> trigger \<Rightarrow> trigger res" where
  "calculate_now w t = calculate w t"

section \<open>Activation\<close>

text \<open>
  Writing the \<^verbatim>\<open>activated\<close> parameter calls \<^verbatim>\<open>activation_param_callback\<close>, which finds the new
  value equal to the status and does nothing.
\<close>

definition sync_activated :: "trigger \<Rightarrow> trigger" where
  "sync_activated t = t\<lparr>activated := Some (m_is_activated t)\<rparr>"

definition deactivate :: "trigger \<Rightarrow> trigger res" where
  "deactivate t =
     (let t1 = (if m_is_activated t
                then t\<lparr>m_is_activated := False, input_parameter_change_callbAdapts := [],
                       input_parameter_destruct_callbAdapts := [],
                       sensitivity_parameter_change_callbAdapts := []\<rparr>
                else t)
      in if activated t1 = None then Inl (Undefined ''activated is not set'') else Inr (sync_activated t1))"

text \<open>
  The three loops that register callbacks differ in their vector. Each stops at the first
  parameter that does not exist: the trigger is deactivated for ever.
\<close>

fun register_loop ::
  "world_view \<Rightarrow> (string \<Rightarrow> trigger \<Rightarrow> trigger) \<Rightarrow> string list \<Rightarrow> trigger \<Rightarrow> (bool \<times> trigger) res" where
  "register_loop w push [] t = Inr (True, t)"
| "register_loop w push (n # ns) t =
     (if \<not> par_exists w n
      then bindr (deactivate t) (\<lambda>t1. Inr (False, t1\<lparr>deactivated_forewer := True\<rparr>))
      else register_loop w push ns (push n t))"

definition push_change :: "string \<Rightarrow> trigger \<Rightarrow> trigger" where
  "push_change n t = t\<lparr>input_parameter_change_callbAdapts := input_parameter_change_callbAdapts t @ [n]\<rparr>"

definition push_destruct :: "string \<Rightarrow> trigger \<Rightarrow> trigger" where
  "push_destruct n t = t\<lparr>input_parameter_destruct_callbAdapts := input_parameter_destruct_callbAdapts t @ [n]\<rparr>"

definition push_sensitivity :: "string \<Rightarrow> trigger \<Rightarrow> trigger" where
  "push_sensitivity n t =
     t\<lparr>sensitivity_parameter_change_callbAdapts := sensitivity_parameter_change_callbAdapts t @ [n]\<rparr>"

definition register_change_callbacks :: "world_view \<Rightarrow> trigger \<Rightarrow> (bool \<times> trigger) res" where
  "register_change_callbacks w t =
     (if input_parameter_change_callbAdapts t \<noteq> [] then Inr (False, t)
      else register_loop w push_change (input_parameters t) t)"

definition register_destruct_callbacks :: "world_view \<Rightarrow> trigger \<Rightarrow> (bool \<times> trigger) res" where
  "register_destruct_callbacks w t =
     (if input_parameter_destruct_callbAdapts t \<noteq> [] then Inr (False, t)
      else register_loop w push_destruct (input_parameters t) t)"

definition register_sensitivity_change_callbacks :: "world_view \<Rightarrow> trigger \<Rightarrow> (bool \<times> trigger) res" where
  "register_sensitivity_change_callbacks w t =
     (if sensitivity_parameter_change_callbAdapts t \<noteq> [] then Inr (False, t)
      else register_loop w push_sensitivity (sensitivity_parameters t) t)"

definition activate :: "world_view \<Rightarrow> trigger \<Rightarrow> trigger res" where
  "activate w t =
     (if m_is_activated t
      then (if activated t = None then Inl (AssertFail ''activated != NULL'') else Inr (sync_activated t))
      else if deactivated_forewer t then Inr t
      else
        bindr (if enabled_on_change_activation t then register_change_callbacks w t
               else register_destruct_callbacks w t) (\<lambda>(ok, t1).
        let t2 = (if ok then t1\<lparr>m_is_activated := True\<rparr> else t1) in
        bindr (if enabled_sensitivity_param_change_activation t2
               then bindr (register_sensitivity_change_callbacks w t2) (\<lambda>(ok, t3).
                      Inr (if ok then t3\<lparr>m_is_activated := True\<rparr> else t3))
               else Inr t2) (\<lambda>t4.
          if activated t4 = None then Inl (AssertFail ''activated != NULL'') else Inr (sync_activated t4))))"

definition set_activation_status :: "world_view \<Rightarrow> bool \<Rightarrow> trigger \<Rightarrow> trigger res" where
  "set_activation_status w act t =
     (if m_is_activated t \<and> \<not> act then deactivate t
      else if \<not> m_is_activated t \<and> act then activate w t
      else Inr t)"

text \<open>The user writes the \<^verbatim>\<open>activated\<close> parameter.\<close>

definition activation_param_callback :: "world_view \<Rightarrow> trigger \<Rightarrow> trigger res" where
  "activation_param_callback w t =
     (case activated t of
        None \<Rightarrow> Inl (Undefined ''activated is not set'')
      | Some a \<Rightarrow>
          if a \<and> \<not> m_is_activated t then activate w t
          else if \<not> a \<and> m_is_activated t then deactivate t
          else Inr t)"

section \<open>Setting up\<close>

definition enable_on_change_activation :: "world_view \<Rightarrow> trigger \<Rightarrow> (bool \<times> trigger) res" where
  "enable_on_change_activation w t =
     bindr (register_change_callbacks w (t\<lparr>input_parameter_destruct_callbAdapts := []\<rparr>)) (\<lambda>(ok, t1).
       if ok then Inr (True, t1\<lparr>enabled_on_change_activation := True\<rparr>)
       else Inl (ScError ''enable_on_change_activation(): Registering change callbacks failed!''))"

definition disable_on_change_activation :: "world_view \<Rightarrow> trigger \<Rightarrow> trigger res" where
  "disable_on_change_activation w t =
     bindr (register_destruct_callbacks w (t\<lparr>input_parameter_change_callbAdapts := []\<rparr>)) (\<lambda>(_, t1).
       Inr (t1\<lparr>enabled_on_change_activation := False\<rparr>))"

definition set_condition :: "nat option \<Rightarrow> trigger \<Rightarrow> trigger" where
  "set_condition cond t = t\<lparr>condition := cond\<rparr>"

text \<open>The condition parameter calls back, here for its destruction.\<close>

definition condition_callback :: "bool \<Rightarrow> trigger \<Rightarrow> trigger res" where
  "condition_callback destructing t = (if destructing then deactivate (t\<lparr>condition := None\<rparr>) else Inr t)"

definition param_change_callback :: "bool \<Rightarrow> world_view \<Rightarrow> trigger \<Rightarrow> trigger res" where
  "param_change_callback destructing w t =
     (if \<not> destructing
      then (if enabled_on_change_activation t \<or> enabled_sensitivity_param_change_activation t then calculate w t
            else Inr t)
      else bindr (deactivate t) (\<lambda>t1. Inr (t1\<lparr>deactivated_forewer := True\<rparr>)))"

definition param_destruct_watch_callback :: "bool \<Rightarrow> trigger \<Rightarrow> trigger res" where
  "param_destruct_watch_callback destructing t =
     (if destructing then bindr (deactivate t) (\<lambda>t1. Inr (t1\<lparr>deactivated_forewer := True\<rparr>)) else Inr t)"

text \<open>
  The constructors call \<open>init\<close> with an event, an interval, the flag for changes and a condition;
  the constructor with a vector of parameters adds their names.
\<close>

definition init_trigger :: "bool \<Rightarrow> int \<Rightarrow> world_view \<Rightarrow> nat option \<Rightarrow> nat option \<Rightarrow> bool \<Rightarrow> nat option \<Rightarrow> trigger" where
  "init_trigger listener next_id w ev ti oc co =
     (let t = \<lparr>m_is_activated = False, deactivated_forewer = False, enabled_on_change_activation = False,
            enabled_sensitivity_param_change_activation = False, input_parameters = [],
            input_parameter_change_callbAdapts = [], input_parameter_destruct_callbAdapts = [],
            sensitivity_parameters = [], sensitivity_parameter_change_callbAdapts = [], condition = None,
            has_listener = listener, m_events = [], sample_event_id = -1, sample_event = None, sample_time = 0,
            has_calculator = False, activated = None, calculations = 0\<rparr>;
          t1 = (case ev of None \<Rightarrow> t | Some e \<Rightarrow> set_event e t);
          t2 = (case ti of None \<Rightarrow> t1 | Some s \<Rightarrow> set_sample_interval next_id w s t1);
          t3 = (if oc then t2\<lparr>enabled_on_change_activation := True\<rparr> else t2)
      in case co of None \<Rightarrow> t3 | Some c \<Rightarrow> set_condition (Some c) t3)"

definition sensitive_trigger :: "bool \<Rightarrow> int \<Rightarrow> world_view \<Rightarrow> string list \<Rightarrow> trigger" where
  "sensitive_trigger listener next_id w ns =
     (init_trigger listener next_id w None None False None)
       \<lparr>sensitivity_parameters := sorted_list_of_set (set ns), enabled_sensitivity_param_change_activation := True\<rparr>"

definition set_calc_object :: "trigger \<Rightarrow> trigger" where
  "set_calc_object t = t\<lparr>has_calculator := True\<rparr>"

definition set_activated_param :: "bool \<Rightarrow> trigger \<Rightarrow> trigger" where
  "set_activated_param v t = t\<lparr>activated := Some v\<rparr>"

definition set_used_params :: "world_view \<Rightarrow> string list \<Rightarrow> trigger \<Rightarrow> trigger res" where
  "set_used_params w used t =
     (if \<not> has_calculator t
      then Inl (ScError ''You must set set_calc_object(...) before calling set_used_params(...)!'')
      else activate w (t\<lparr>input_parameters := sorted_list_of_set (set (input_parameters t) \<union> set used)\<rparr>))"

text \<open>A \<^verbatim>\<open>StatCalc\<close> connects the trigger with its parameter and the calculator.\<close>

definition stat_calc :: "world_view \<Rightarrow> string list \<Rightarrow> trigger \<Rightarrow> trigger res" where
  "stat_calc w used t = set_used_params w used (set_calc_object (set_activated_param False t))"

definition get_activated_param_name :: "string \<Rightarrow> string \<Rightarrow> string \<Rightarrow> string res" where
  "get_activated_param_name mod_name this_name stcalc_name =
     (if str_find mod_name this_name \<noteq> 0 then Inr (stcalc_name @ ''.activated'')
      else bindr (substr this_name (length mod_name) npos) (\<lambda>subs.
           bindr (if str_find [SC_NAME_DELIMITER] subs = 0 then substr subs 1 npos else Inr subs) (\<lambda>subs'.
             Inr (if subs' \<noteq> [] then subs' @ ''.activated'' else stcalc_name @ ''.activated''))))"

section \<open>What happens to a trigger\<close>

text \<open>
  A parameter that changes or is destroyed calls every adapter that is registered at it: those of
  the three vectors.
\<close>

definition call_adapters :: "(trigger \<Rightarrow> trigger res) \<Rightarrow> string \<Rightarrow> string list \<Rightarrow> trigger \<Rightarrow> trigger res" where
  "call_adapters f n ns t = fold (\<lambda>_ r. bindr r f) (filter (\<lambda>m. m = n) ns) (Inr t)"

definition param_changed :: "world_view \<Rightarrow> string \<Rightarrow> trigger \<Rightarrow> trigger res" where
  "param_changed w n t =
     bindr (call_adapters (param_change_callback False w) n
              (input_parameter_change_callbAdapts t @ sensitivity_parameter_change_callbAdapts t) t)
       (call_adapters (param_destruct_watch_callback False) n (input_parameter_destruct_callbAdapts t))"

definition param_destroyed :: "world_view \<Rightarrow> string \<Rightarrow> trigger \<Rightarrow> trigger res" where
  "param_destroyed w n t =
     bindr (call_adapters (param_change_callback True w) n
              (input_parameter_change_callbAdapts t @ sensitivity_parameter_change_callbAdapts t) t)
       (call_adapters (param_destruct_watch_callback True) n (input_parameter_destruct_callbAdapts t))"

datatype trig_op =
    Activate
  | Deactivate
  | SetStatus bool
  | WriteActivated bool
  | EnableOnChange
  | DisableOnChange
  | SetCondition "nat option"
  | ConditionDestroyed
  | ParamChanged string
  | ParamDestroyed string
  | EventNotified
  | IntervalElapsed
  | CalculateNow

fun trig_step :: "world_view \<Rightarrow> trig_op \<Rightarrow> trigger \<Rightarrow> trigger res" where
  "trig_step w Activate t = activate w t"
| "trig_step w Deactivate t = deactivate t"
| "trig_step w (SetStatus b) t = set_activation_status w b t"
| "trig_step w (WriteActivated b) t = activation_param_callback w (t\<lparr>activated := Some b\<rparr>)"
| "trig_step w EnableOnChange t = bindr (enable_on_change_activation w t) (\<lambda>(_, t'). Inr t')"
| "trig_step w DisableOnChange t = disable_on_change_activation w t"
| "trig_step w (SetCondition c) t = Inr (set_condition c t)"
| "trig_step w ConditionDestroyed t = condition_callback (condition t \<noteq> None) t"
| "trig_step w (ParamChanged n) t = param_changed w n t"
| "trig_step w (ParamDestroyed n) t = param_destroyed w n t"
| "trig_step w EventNotified t = event_callback w t"
| "trig_step w IntervalElapsed t = interval_callback w t"
| "trig_step w CalculateNow t = calculate_now w t"

fun trig_run :: "(world_view \<times> trig_op) list \<Rightarrow> trigger \<Rightarrow> trigger res" where
  "trig_run [] t = Inr t"
| "trig_run ((w, op) # ops) t = bindr (trig_step w op t) (trig_run ops)"

section \<open>The machine a trigger is meant to be\<close>

text \<open>
  A trigger is off, on, or dead since one of its parameters has gone. It counts a calculation for
  every trigger that reaches it while it is on and its condition holds.
\<close>

datatype trig_mode = Off | On | Dead

record trig_view =
  mode :: trig_mode
  on_change :: bool
  guard :: "nat option"
  calcs :: nat

definition view :: "trigger \<Rightarrow> trig_view" where
  "view t = \<lparr>mode = (if m_is_activated t then On else if deactivated_forewer t then Dead else Off),
     on_change = enabled_on_change_activation t, guard = condition t, calcs = calculations t\<rparr>"

definition all_exist :: "world_view \<Rightarrow> string list \<Rightarrow> bool" where
  "all_exist w ns \<longleftrightarrow> (\<forall>n \<in> set ns. par_exists w n)"

definition fires :: "world_view \<Rightarrow> nat \<Rightarrow> trig_view \<Rightarrow> trig_view" where
  "fires w k a = (if mode a = On \<and> (case guard a of None \<Rightarrow> True | Some c \<Rightarrow> cond_value w c)
     then a\<lparr>calcs := calcs a + k\<rparr> else a)"

definition turn_on :: "world_view \<Rightarrow> string list \<Rightarrow> string list \<Rightarrow> trig_view \<Rightarrow> trig_view" where
  "turn_on w ins sens a =
     (if mode a = Off then a\<lparr>mode := (if all_exist w ins \<and> all_exist w sens then On else Dead)\<rparr> else a)"

definition turn_off :: "trig_view \<Rightarrow> trig_view" where
  "turn_off a = (if mode a = On then a\<lparr>mode := Off\<rparr> else a)"

fun view_step :: "world_view \<Rightarrow> string list \<Rightarrow> string list \<Rightarrow> trig_op \<Rightarrow> trig_view \<Rightarrow> trig_view" where
  "view_step w ins sens Activate a = turn_on w ins sens a"
| "view_step w ins sens Deactivate a = turn_off a"
| "view_step w ins sens (SetStatus b) a = (if b then turn_on w ins sens a else turn_off a)"
| "view_step w ins sens (WriteActivated b) a = (if b then turn_on w ins sens a else turn_off a)"
| "view_step w ins sens EnableOnChange a = a\<lparr>on_change := True\<rparr>"
| "view_step w ins sens DisableOnChange a =
     (if on_change a \<and> \<not> all_exist w ins then a\<lparr>mode := Dead, on_change := False\<rparr> else a\<lparr>on_change := False\<rparr>)"
| "view_step w ins sens (SetCondition c) a = a\<lparr>guard := c\<rparr>"
| "view_step w ins sens ConditionDestroyed a = (if guard a = None then a else turn_off (a\<lparr>guard := None\<rparr>))"
| "view_step w ins sens (ParamChanged n) a =
     fires w ((if on_change a \<and> n \<in> set ins then 1 else 0) + (if n \<in> set sens then 1 else 0)) a"
| "view_step w ins sens (ParamDestroyed n) a =
     (if mode a = On \<and> n \<in> set ins \<union> set sens then a\<lparr>mode := Dead\<rparr> else a)"
| "view_step w ins sens EventNotified a = fires w 1 a"
| "view_step w ins sens IntervalElapsed a = fires w 1 a"
| "view_step w ins sens CalculateNow a = fires w 1 a"

text \<open>
  The use that is safe: reactions to changes are switched only while the trigger is on, and on only
  while they are off and the inputs exist; a trigger is not activated when it lost an input but
  has all its sensitivity parameters.
\<close>

fun safe_use :: "world_view \<Rightarrow> string list \<Rightarrow> string list \<Rightarrow> trig_op \<Rightarrow> trig_view \<Rightarrow> bool" where
  "safe_use w ins sens EnableOnChange a \<longleftrightarrow> mode a = On \<and> \<not> on_change a \<and> all_exist w ins"
| "safe_use w ins sens DisableOnChange a \<longleftrightarrow> mode a = On"
| "safe_use w ins sens op a \<longleftrightarrow>
     (op \<in> {Activate, SetStatus True, WriteActivated True} \<and> mode a = Off \<and> sens \<noteq> [] \<and> \<not> all_exist w ins
        \<longrightarrow> \<not> all_exist w sens)"

fun view_run :: "string list \<Rightarrow> string list \<Rightarrow> (world_view \<times> trig_op) list \<Rightarrow> trig_view \<Rightarrow> trig_view" where
  "view_run ins sens [] a = a"
| "view_run ins sens ((w, op) # ops) a = view_run ins sens ops (view_step w ins sens op a)"

fun safe_run :: "string list \<Rightarrow> string list \<Rightarrow> (world_view \<times> trig_op) list \<Rightarrow> trig_view \<Rightarrow> bool" where
  "safe_run ins sens [] a = True"
| "safe_run ins sens ((w, op) # ops) a \<longleftrightarrow>
     safe_use w ins sens op a \<and> safe_run ins sens ops (view_step w ins sens op a)"

section \<open>The registered callbacks\<close>

text \<open>
  While a trigger is on, exactly the callbacks of its configuration are registered; while it is
  off, none is. A trigger that dies while it registers them keeps those it had registered before the
  missing parameter. It knows its calculator and its \<^verbatim>\<open>activated\<close> parameter.
\<close>

definition callbacks_are :: "string list \<Rightarrow> string list \<Rightarrow> string list \<Rightarrow> trigger \<Rightarrow> bool" where
  "callbacks_are cs ds ss t \<longleftrightarrow> input_parameter_change_callbAdapts t = cs
     \<and> input_parameter_destruct_callbAdapts t = ds \<and> sensitivity_parameter_change_callbAdapts t = ss"

definition starts :: "string list \<Rightarrow> string list \<Rightarrow> bool" where
  "starts ms ns \<longleftrightarrow> ms = take (length ms) ns"

definition trig_ok :: "trigger \<Rightarrow> bool" where
  "trig_ok t \<longleftrightarrow> distinct (input_parameters t) \<and> distinct (sensitivity_parameters t)
     \<and> enabled_sensitivity_param_change_activation t = (sensitivity_parameters t \<noteq> [])
     \<and> activated t \<noteq> None \<and> has_calculator t
     \<and> (m_is_activated t \<longrightarrow> \<not> deactivated_forewer t
          \<and> callbacks_are (if enabled_on_change_activation t then input_parameters t else [])
              (if enabled_on_change_activation t then [] else input_parameters t) (sensitivity_parameters t) t)
     \<and> (\<not> m_is_activated t \<and> \<not> deactivated_forewer t \<longrightarrow> callbacks_are [] [] [] t)
     \<and> (\<not> m_is_activated t \<and> deactivated_forewer t \<longrightarrow>
          starts (input_parameter_change_callbAdapts t) (input_parameters t)
          \<and> starts (input_parameter_destruct_callbAdapts t) (input_parameters t)
          \<and> starts (sensitivity_parameter_change_callbAdapts t) (sensitivity_parameters t))"

lemma starts_simps [simp]: "starts [] ns" "starts (takeWhile P ns) ns"
  by (simp_all add: starts_def takeWhile_eq_take [symmetric])

lemma deactivate_set:
  "activated t \<noteq> None \<Longrightarrow> deactivate t = Inr (sync_activated (if m_is_activated t
     then t\<lparr>m_is_activated := False, input_parameter_change_callbAdapts := [],
            input_parameter_destruct_callbAdapts := [], sensitivity_parameter_change_callbAdapts := []\<rparr> else t))"
  by (simp add: deactivate_def Let_def)

lemma register_loop_runs:
  "register_loop w push ns t =
     (if all_exist w ns then Inr (True, fold push ns t)
      else bindr (deactivate (fold push (takeWhile (par_exists w) ns) t)) (\<lambda>t1. Inr (False, t1\<lparr>deactivated_forewer := True\<rparr>)))"
  by (induction ns arbitrary: t) (auto simp: all_exist_def)

lemma fold_push:
  "fold push_change ns t = t\<lparr>input_parameter_change_callbAdapts := input_parameter_change_callbAdapts t @ ns\<rparr>"
  "fold push_destruct ns t = t\<lparr>input_parameter_destruct_callbAdapts := input_parameter_destruct_callbAdapts t @ ns\<rparr>"
  "fold push_sensitivity ns t =
     t\<lparr>sensitivity_parameter_change_callbAdapts := sensitivity_parameter_change_callbAdapts t @ ns\<rparr>"
  by (induction ns arbitrary: t) (simp_all add: push_change_def push_destruct_def push_sensitivity_def)

lemmas register_defs = register_change_callbacks_def register_destruct_callbacks_def
  register_sensitivity_change_callbacks_def register_loop_runs fold_push

text \<open>A step keeps the sets of parameters and does what the machine says.\<close>

definition step_ok :: "trigger \<Rightarrow> trig_view \<Rightarrow> trigger \<Rightarrow> bool" where
  "step_ok t a t' \<longleftrightarrow> trig_ok t' \<and> view t' = a
     \<and> input_parameters t' = input_parameters t \<and> sensitivity_parameters t' = sensitivity_parameters t"

lemma deactivate_step:
  assumes "trig_ok t"
  shows "\<exists>t'. deactivate t = Inr t' \<and> step_ok t (turn_off (view t)) t'"
proof -
  have "activated t \<noteq> None" using assms by (simp add: trig_ok_def)
  then show ?thesis using assms
    by (cases "m_is_activated t")
      (auto simp: deactivate_set sync_activated_def step_ok_def trig_ok_def view_def turn_off_def callbacks_are_def)
qed

lemma die_step:
  assumes "trig_ok t" and "m_is_activated t"
  shows "\<exists>t1. deactivate t = Inr t1 \<and> step_ok t ((view t)\<lparr>mode := Dead\<rparr>) (t1\<lparr>deactivated_forewer := True\<rparr>)"
proof -
  have "activated t \<noteq> None" using assms by (simp add: trig_ok_def)
  then show ?thesis using assms
    by (auto simp: deactivate_set sync_activated_def step_ok_def trig_ok_def view_def callbacks_are_def)
qed

lemma activate_step:
  assumes "trig_ok t"
    and "mode (view t) = Off \<and> sensitivity_parameters t \<noteq> [] \<and> \<not> all_exist w (input_parameters t)
      \<longrightarrow> \<not> all_exist w (sensitivity_parameters t)"
  shows "\<exists>t'. activate w t = Inr t' \<and> step_ok t (turn_on w (input_parameters t) (sensitivity_parameters t) (view t)) t'"
proof (cases "m_is_activated t \<or> deactivated_forewer t")
  case True
  then show ?thesis using assms(1)
    by (auto simp: activate_def step_ok_def trig_ok_def view_def turn_on_def sync_activated_def callbacks_are_def)
next
  case False
  then have off: "mode (view t) = Off" by (simp add: view_def)
  obtain v where act: "activated t = Some v" using assms(1) by (auto simp: trig_ok_def)
  have cb: "callbacks_are [] [] [] t" and sens: "enabled_sensitivity_param_change_activation t = (sensitivity_parameters t \<noteq> [])"
    using assms(1) False by (simp_all add: trig_ok_def)
  have none: "all_exist w []" by (simp add: all_exist_def)
  show ?thesis
    using False assms act cb sens off none
    by (cases "all_exist w (input_parameters t)"; cases "enabled_on_change_activation t"; cases "sensitivity_parameters t = []";
        cases "all_exist w (sensitivity_parameters t)")
      (auto simp: activate_def register_defs deactivate_set sync_activated_def callbacks_are_def
        step_ok_def trig_ok_def view_def turn_on_def)
qed

lemma calculate_step:
  assumes "trig_ok t"
  shows "\<exists>t'. calculate w t = Inr t' \<and> step_ok t (fires w 1 (view t)) t'"
proof (cases "m_is_activated t \<and> (case condition t of None \<Rightarrow> True | Some c \<Rightarrow> cond_value w c)")
  case True
  then have "calculate w t = Inr (t\<lparr>calculations := Suc (calculations t)\<rparr>)"
    using assms by (cases "condition t") (simp_all add: calculate_def trig_ok_def)
  moreover have "fires w 1 (view t) = view (t\<lparr>calculations := Suc (calculations t)\<rparr>)"
    using True by (simp add: view_def fires_def)
  moreover have "trig_ok (t\<lparr>calculations := Suc (calculations t)\<rparr>)"
    using assms by (simp add: trig_ok_def callbacks_are_def)
  ultimately show ?thesis by (simp add: step_ok_def)
next
  case False
  then have "calculate w t = Inr t" by (cases "condition t") (auto simp: calculate_def)
  moreover have "fires w 1 (view t) = view t" using False by (simp add: fires_def view_def)
  ultimately show ?thesis using assms by (simp add: step_ok_def)
qed

lemma step_ok_trans: "step_ok t a t' \<Longrightarrow> step_ok t' b t'' \<Longrightarrow> step_ok t b t''"
  by (simp add: step_ok_def)

lemma filter_same: "distinct ns \<Longrightarrow> filter (\<lambda>m. m = n) ns = (if n \<in> set ns then [n] else [])"
  by (induction ns) auto

lemma fires_0 [simp]: "fires w 0 a = a"
  by (simp add: fires_def)

lemma fires_add: "fires w j (fires w k a) = fires w (k + j) a"
  by (simp add: fires_def split: option.splits)

lemma change_callbacks_count:
  assumes "trig_ok t" and "enabled_on_change_activation t \<or> enabled_sensitivity_param_change_activation t"
  shows "\<exists>t'. fold (\<lambda>_ r. bindr r (param_change_callback False w)) ns (Inr t) = Inr t' \<and> step_ok t (fires w (length ns) (view t)) t'"
  using assms
proof (induction ns arbitrary: t)
  case Nil
  then show ?case by (simp add: step_ok_def)
next
  case (Cons n ns)
  obtain t1 where t1: "calculate w t = Inr t1" "step_ok t (fires w 1 (view t)) t1"
    using calculate_step [OF Cons.prems(1)] by blast
  have "enabled_on_change_activation t1 = enabled_on_change_activation t"
    "enabled_sensitivity_param_change_activation t1 = enabled_sensitivity_param_change_activation t"
    using t1(1) by (auto simp: calculate_def split: if_splits)
  then obtain t2 where t2: "fold (\<lambda>_ r. bindr r (param_change_callback False w)) ns (Inr t1) = Inr t2"
    "step_ok t1 (fires w (length ns) (view t1)) t2"
    using Cons.IH [of t1] Cons.prems(2) t1(2) by (auto simp: step_ok_def)
  have "param_change_callback False w t = Inr t1"
    using Cons.prems(2) t1(1) by (simp add: param_change_callback_def)
  moreover have "step_ok t (fires w (length (n # ns)) (view t)) t2"
    using step_ok_trans [OF t1(2) t2(2)] t1(2) by (simp add: step_ok_def fires_add)
  ultimately show ?case using t2(1) by simp
qed

lemma quiet_watch: "fold (\<lambda>_ r. bindr r (param_destruct_watch_callback False)) ns (Inr t) = Inr t"
  by (induction ns) (simp_all add: param_destruct_watch_callback_def)

lemma call_nothing [simp]: "call_adapters f n [] t = Inr t"
  by (simp add: call_adapters_def)

lemma changed_step:
  assumes "trig_ok t"
  shows "\<exists>t'. param_changed w n t = Inr t'
    \<and> step_ok t (view_step w (input_parameters t) (sensitivity_parameters t) (ParamChanged n) (view t)) t'"
proof -
  obtain ns where ns: "ns = filter (\<lambda>m. m = n) (input_parameter_change_callbAdapts t @ sensitivity_parameter_change_callbAdapts t)"
    by simp
  have watch: "param_changed w n t = fold (\<lambda>_ r. bindr r (param_change_callback False w)) ns (Inr t)"
    by (cases "fold (\<lambda>_ r. bindr r (param_change_callback False w)) ns (Inr t)")
      (simp_all add: param_changed_def call_adapters_def quiet_watch ns del: filter_append)
  show ?thesis
  proof (cases "m_is_activated t")
    case True
    then have cb: "ns = (if enabled_on_change_activation t \<and> n \<in> set (input_parameters t) then [n] else [])
        @ (if n \<in> set (sensitivity_parameters t) then [n] else [])"
      using assms by (simp add: trig_ok_def callbacks_are_def filter_same ns)
    then have count: "view_step w (input_parameters t) (sensitivity_parameters t) (ParamChanged n) (view t)
        = fires w (length ns) (view t)"
      by (simp add: view_def)
    show ?thesis
    proof (cases "ns = []")
      case True
      then show ?thesis using watch assms count by (simp add: step_ok_def)
    next
      case False
      then have "enabled_on_change_activation t \<or> enabled_sensitivity_param_change_activation t"
        using cb assms by (auto simp: trig_ok_def split: if_splits)
      from change_callbacks_count [OF assms this, of w ns] show ?thesis unfolding watch count .
    qed
  next
    case False
    have step: "view_step w (input_parameters t) (sensitivity_parameters t) (ParamChanged n) (view t) = view t"
      using False by (simp add: fires_def view_def)
    have "fold (\<lambda>_ r. bindr r (param_change_callback False w)) ns (Inr t) = Inr t"
      using False by (induction ns) (simp_all add: param_change_callback_def calculate_def)
    then show ?thesis using watch step assms by (simp add: step_ok_def)
  qed
qed

definition kill :: "trigger \<Rightarrow> trigger res" where
  "kill t = bindr (deactivate t) (\<lambda>t1. Inr (t1\<lparr>deactivated_forewer := True\<rparr>))"

lemma destroying_callbacks:
  "param_change_callback True w = kill" "param_destruct_watch_callback True = kill"
  by (simp_all add: fun_eq_iff param_change_callback_def param_destruct_watch_callback_def kill_def)

lemma kill_step:
  assumes "trig_ok t" and "mode (view t) \<noteq> Off"
  shows "\<exists>t'. kill t = Inr t' \<and> step_ok t ((view t)\<lparr>mode := Dead\<rparr>) t'"
proof (cases "m_is_activated t")
  case True
  then show ?thesis using die_step [OF assms(1)] by (auto simp: kill_def)
next
  case False
  then have dead: "deactivated_forewer t" using assms(2) by (simp add: view_def split: if_splits)
  have "activated t \<noteq> None" using assms(1) by (simp add: trig_ok_def)
  then have "kill t = Inr ((sync_activated t)\<lparr>deactivated_forewer := True\<rparr>)"
    using False by (simp add: kill_def deactivate_set)
  moreover have "step_ok t ((view t)\<lparr>mode := Dead\<rparr>) ((sync_activated t)\<lparr>deactivated_forewer := True\<rparr>)"
    using False dead assms(1) by (simp add: step_ok_def trig_ok_def sync_activated_def view_def)
  ultimately show ?thesis by blast
qed

lemma kills_step:
  assumes "trig_ok t" and "mode (view t) \<noteq> Off"
  shows "\<exists>t'. fold (\<lambda>_ r. bindr r kill) ns (Inr t) = Inr t'
    \<and> step_ok t (if ns = [] then view t else (view t)\<lparr>mode := Dead\<rparr>) t'"
  using assms
proof (induction ns arbitrary: t)
  case (Cons n ns)
  obtain t1 where t1: "kill t = Inr t1" "step_ok t ((view t)\<lparr>mode := Dead\<rparr>) t1" using kill_step [OF Cons.prems] by blast
  then obtain t2 where "fold (\<lambda>_ r. bindr r kill) ns (Inr t1) = Inr t2"
    "step_ok t1 (if ns = [] then view t1 else (view t1)\<lparr>mode := Dead\<rparr>) t2"
    using Cons.IH [of t1] by (auto simp: step_ok_def)
  then show ?case using t1 by (auto simp: step_ok_def)
qed (simp add: step_ok_def)

lemma destroyed_step:
  assumes "trig_ok t"
  shows "\<exists>t'. param_destroyed w n t = Inr t'
    \<and> step_ok t (view_step w (input_parameters t) (sensitivity_parameters t) (ParamDestroyed n) (view t)) t'"
proof -
  obtain ns ds where ns: "ns = filter (\<lambda>m. m = n) (input_parameter_change_callbAdapts t @ sensitivity_parameter_change_callbAdapts t)"
    and ds: "ds = filter (\<lambda>m. m = n) (input_parameter_destruct_callbAdapts t)" by simp
  have all: "param_destroyed w n t = fold (\<lambda>_ r. bindr r kill) (ns @ ds) (Inr t)"
  proof -
    have "bindr r (\<lambda>t. fold (\<lambda>_ r. bindr r kill) ds (Inr t)) = fold (\<lambda>_ r. bindr r kill) ds r" for r
    proof (cases r)
      case (Inl e)
      have "fold (\<lambda>_ r. bindr r kill) ds (Inl e) = Inl e" by (induction ds) simp_all
      then show ?thesis using Inl by simp
    qed simp
    then show ?thesis
      unfolding param_destroyed_def call_adapters_def destroying_callbacks ns [symmetric] ds [symmetric]
      by (simp add: fold_append)
  qed
  show ?thesis
  proof (cases "mode (view t) = Off")
    case True
    then have "ns @ ds = []" using assms by (auto simp: ns ds trig_ok_def view_def callbacks_are_def split: if_splits)
    then show ?thesis using True assms all by (simp add: step_ok_def)
  next
    case False
    have "(if ns @ ds = [] then view t else (view t)\<lparr>mode := Dead\<rparr>)
        = view_step w (input_parameters t) (sensitivity_parameters t) (ParamDestroyed n) (view t)"
    proof (cases "m_is_activated t")
      case True
      then have "(ns @ ds = []) \<longleftrightarrow> n \<notin> set (input_parameters t) \<union> set (sensitivity_parameters t)"
        using assms by (auto simp: ns ds trig_ok_def callbacks_are_def filter_empty_conv)
      then show ?thesis using True by (simp add: view_def)
    next
      case inactive: False
      then show ?thesis using False by (auto simp: view_def)
    qed
    then show ?thesis using kills_step [OF assms False, of "ns @ ds"] all by metis
  qed
qed

lemma switch_steps:
  assumes "trig_ok t" and "m_is_activated t"
  shows "\<not> enabled_on_change_activation t \<Longrightarrow> all_exist w (input_parameters t) \<Longrightarrow>
      \<exists>t'. trig_step w EnableOnChange t = Inr t' \<and> step_ok t ((view t)\<lparr>on_change := True\<rparr>) t'"
    and "\<exists>t'. trig_step w DisableOnChange t = Inr t'
      \<and> step_ok t (view_step w (input_parameters t) (sensitivity_parameters t) DisableOnChange (view t)) t'"
proof -
  show "\<exists>t'. trig_step w EnableOnChange t = Inr t' \<and> step_ok t ((view t)\<lparr>on_change := True\<rparr>) t'"
    if "\<not> enabled_on_change_activation t" "all_exist w (input_parameters t)"
    using that assms
    by (simp add: enable_on_change_activation_def register_defs step_ok_def trig_ok_def view_def callbacks_are_def)
  have act: "activated t \<noteq> None" using assms(1) by (simp add: trig_ok_def)
  have none: "input_parameters t = [] \<Longrightarrow> all_exist w (input_parameters t)" by (simp add: all_exist_def)
  show "\<exists>t'. trig_step w DisableOnChange t = Inr t'
      \<and> step_ok t (view_step w (input_parameters t) (sensitivity_parameters t) DisableOnChange (view t)) t'"
    using assms act none
    by (cases "enabled_on_change_activation t"; cases "all_exist w (input_parameters t)"; cases "input_parameters t = []")
      (auto simp: disable_on_change_activation_def register_defs deactivate_set sync_activated_def
        step_ok_def trig_ok_def view_def callbacks_are_def)
qed

lemma set_fields_ok [simp]:
  "trig_ok (t\<lparr>condition := c\<rparr>) = trig_ok t"
  "trig_ok (t\<lparr>sample_event := e\<rparr>) = trig_ok t"
  "view (t\<lparr>activated := v\<rparr>) = view t" "view (t\<lparr>sample_event := e\<rparr>) = view t"
  "view (t\<lparr>condition := c\<rparr>) = (view t)\<lparr>guard := c\<rparr>"
  by (simp_all add: trig_ok_def view_def callbacks_are_def)

lemma trig_ok_activated: "trig_ok t \<Longrightarrow> trig_ok (t\<lparr>activated := Some b\<rparr>)"
  by (simp add: trig_ok_def callbacks_are_def)

lemma trig_step_ok:
  assumes "trig_ok t" and "safe_use w (input_parameters t) (sensitivity_parameters t) op (view t)"
  shows "\<exists>t'. trig_step w op t = Inr t'
    \<and> step_ok t (view_step w (input_parameters t) (sensitivity_parameters t) op (view t)) t'"
proof (cases op)
  case Activate
  then show ?thesis using activate_step [OF assms(1), of w] assms(2) by auto
next
  case Deactivate
  then show ?thesis using deactivate_step [OF assms(1)] by simp
next
  case (SetStatus b)
  have "(m_is_activated t \<longleftrightarrow> mode (view t) = On)" by (simp add: view_def)
  then show ?thesis using SetStatus activate_step [OF assms(1), of w] deactivate_step [OF assms(1)] assms
    by (cases b) (auto simp: set_activation_status_def step_ok_def turn_on_def turn_off_def)
next
  case (WriteActivated b)
  let ?t = "t\<lparr>activated := Some b\<rparr>"
  have ok: "trig_ok ?t" using assms(1) by (rule trig_ok_activated)
  have "(m_is_activated t \<longleftrightarrow> mode (view t) = On)" by (simp add: view_def)
  then show ?thesis using WriteActivated activate_step [OF ok, of w] deactivate_step [OF ok] assms ok
    by (cases b) (auto simp: activation_param_callback_def step_ok_def turn_on_def turn_off_def)
next
  case EnableOnChange
  then show ?thesis using switch_steps(1) [OF assms(1)] assms(2) by (auto simp: view_def split: if_splits)
next
  case DisableOnChange
  then have "m_is_activated t" using assms(2) by (auto simp: view_def split: if_splits)
  then show ?thesis using DisableOnChange switch_steps(2) [OF assms(1)] by simp
next
  case (SetCondition c)
  then show ?thesis using assms(1) by (simp add: set_condition_def step_ok_def)
next
  case ConditionDestroyed
  have "trig_ok (t\<lparr>condition := None\<rparr>)" using assms(1) by simp
  from deactivate_step [OF this] show ?thesis using ConditionDestroyed assms(1)
    by (auto simp: condition_callback_def step_ok_def) (simp_all add: view_def)
next
  case (ParamChanged n)
  then show ?thesis using changed_step [OF assms(1)] by simp
next
  case (ParamDestroyed n)
  then show ?thesis using destroyed_step [OF assms(1)] by simp
next
  case EventNotified
  then show ?thesis using calculate_step [OF assms(1)] by (simp add: event_callback_def)
next
  case IntervalElapsed
  obtain t' where "calculate w t = Inr t'" "step_ok t (fires w 1 (view t)) t'" using calculate_step [OF assms(1)] by blast
  then show ?thesis using IntervalElapsed by (simp add: interval_callback_def notify_sample_def step_ok_def)
next
  case CalculateNow
  then show ?thesis using calculate_step [OF assms(1)] by (simp add: calculate_now_def)
qed

text \<open>C40. Used safely, a trigger is the three-state machine above: after any sequence of activations, changes,
  destructions, events and elapsed intervals no step fails and the trigger is off, on or dead as the machine says. While it is on and its
  condition holds, it has called the calculator once for every event, elapsed interval and manual request, and for every change of a
  parameter once for each set the parameter is in, the inputs (if changes of them are enabled) and the sensitivity parameters, so
  twice for a parameter of both; in every other state it has called nothing. While it is on, exactly the callbacks of its configuration
  are registered, while it is off none, and when it is dead some first ones of its inputs and sensitivity parameters may still be.\<close>

theorem trigger_refines_machine:
  assumes "trig_ok t" and "safe_run (input_parameters t) (sensitivity_parameters t) ops (view t)"
  shows "\<exists>t'. trig_run ops t = Inr t' \<and> trig_ok t'
    \<and> view t' = view_run (input_parameters t) (sensitivity_parameters t) ops (view t)"
  using assms
proof (induction ops arbitrary: t)
  case (Cons e ops)
  obtain w op where e: "e = (w, op)" by (cases e)
  then obtain t1 where "trig_step w op t = Inr t1"
    "step_ok t (view_step w (input_parameters t) (sensitivity_parameters t) op (view t)) t1"
    using trig_step_ok [OF Cons.prems(1)] Cons.prems(2) by auto
  then show ?case using Cons.IH [of t1] Cons.prems(2) e by (simp add: step_ok_def)
qed simp

definition sample_view :: world_view where
  "sample_view = \<lparr>par_exists = (\<lambda>_. True), cond_value = (\<lambda>c. c = 1), now = 0\<rparr>"

definition sample_trigger :: trigger where
  "sample_trigger = (set_calc_object (set_activated_param False (init_trigger True 0 sample_view None None True None)))
     \<lparr>input_parameters := [''m.a'', ''m.b'']\<rparr>"

lemma sample_trigger_ok: "trig_ok sample_trigger"
  by (simp add: trig_ok_def sample_trigger_def init_trigger_def set_calc_object_def set_activated_param_def
      callbacks_are_def Let_def)

lemma trigger_refines_machine_witness:
  "\<exists>t'. trig_run (map (Pair sample_view) [Activate, ParamChanged ''m.a'', SetCondition (Some 2), ParamChanged ''m.b'',
      SetCondition (Some 1), DisableOnChange, ParamChanged ''m.a'', EventNotified, ParamDestroyed ''m.b'', CalculateNow])
      sample_trigger = Inr t'
    \<and> view t' = \<lparr>mode = Dead, on_change = False, guard = Some 1, calcs = 2\<rparr>"
proof -
  have v: "view sample_trigger = \<lparr>mode = Off, on_change = True, guard = None, calcs = 0\<rparr>"
    "input_parameters sample_trigger = [''m.a'', ''m.b'']" "sensitivity_parameters sample_trigger = []"
    by (simp_all add: view_def sample_trigger_def init_trigger_def set_calc_object_def set_activated_param_def Let_def)
  let ?ops = "map (Pair sample_view) [Activate, ParamChanged ''m.a'', SetCondition (Some 2), ParamChanged ''m.b'',
      SetCondition (Some 1), DisableOnChange, ParamChanged ''m.a'', EventNotified, ParamDestroyed ''m.b'', CalculateNow]"
  have "safe_run [''m.a'', ''m.b''] [] ?ops \<lparr>mode = Off, on_change = True, guard = None, calcs = 0\<rparr>"
    by (simp add: turn_on_def all_exist_def sample_view_def fires_def)
  moreover have "view_run [''m.a'', ''m.b''] [] ?ops \<lparr>mode = Off, on_change = True, guard = None, calcs = 0\<rparr>
      = \<lparr>mode = Dead, on_change = False, guard = Some 1, calcs = 2\<rparr>"
    by (simp add: turn_on_def all_exist_def sample_view_def fires_def)
  ultimately show ?thesis using trigger_refines_machine [OF sample_trigger_ok, of ?ops, unfolded v] by metis
qed

section \<open>Unsafe use\<close>

text \<open>A sensitivity parameter may be an input as well: one change of it then calculates twice.\<close>

lemma change_in_both_sets_calculates_twice:
  assumes "trig_ok t" and "mode (view t) = On" and "guard (view t) = None" and "on_change (view t)"
    and "n \<in> set (input_parameters t) \<inter> set (sensitivity_parameters t)"
  shows "\<exists>t'. param_changed w n t = Inr t' \<and> calculations t' = calculations t + 2"
proof -
  obtain t' where t': "param_changed w n t = Inr t'"
      "view t' = view_step w (input_parameters t) (sensitivity_parameters t) (ParamChanged n) (view t)"
    using changed_step [OF assms(1)] by (auto simp: step_ok_def)
  then have "calcs (view t') = calcs (view t) + 2" using assms(2-5) by (simp add: fires_def)
  then show ?thesis using t'(1) by (simp add: view_def)
qed

text \<open>
  A trigger that meets a missing input while it registers its callbacks dies and keeps those that it has registered: the call
  of \<open>deactivate\<close> finds it off and unregisters nothing.
\<close>

lemma dying_keeps_callbacks:
  assumes "trig_ok t" and "mode (view t) = Off" and "on_change (view t)" and "sensitivity_parameters t = []"
    and "\<not> all_exist w (input_parameters t)"
  shows "\<exists>t'. activate w t = Inr t' \<and> mode (view t') = Dead
    \<and> input_parameter_change_callbAdapts t' = takeWhile (par_exists w) (input_parameters t)"
proof -
  have off: "\<not> m_is_activated t" "\<not> deactivated_forewer t" using assms(2) by (auto simp: view_def split: if_splits)
  then have "callbacks_are [] [] [] t" "activated t \<noteq> None" "\<not> enabled_sensitivity_param_change_activation t"
    using assms(1,4) by (simp_all add: trig_ok_def)
  then show ?thesis using off assms(3,5)
    by (auto simp: activate_def register_defs deactivate_set sync_activated_def callbacks_are_def view_def)
qed

text \<open>
  Enabling the reaction to changes of a trigger that is off registers callbacks that no
  deactivation removes: it cannot be activated any more.
\<close>

theorem enabled_while_off_never_activates:
  assumes "trig_ok t" and "view t = a" and "mode a = Off" and "input_parameters t \<noteq> []" and "all_exist w (input_parameters t)"
    and "sensitivity_parameters t = []"
  shows "\<exists>t'. enable_on_change_activation w t = Inr (True, t')
    \<and> (\<forall>w'. \<exists>t''. activate w' t' = Inr t'' \<and> \<not> m_is_activated t''
         \<and> input_parameter_change_callbAdapts t'' = input_parameter_change_callbAdapts t')"
proof -
  have off: "\<not> m_is_activated t" "\<not> deactivated_forewer t" using assms(2,3) by (auto simp: view_def split: if_splits)
  then have "callbacks_are [] [] [] t" "activated t \<noteq> None" "\<not> enabled_sensitivity_param_change_activation t"
    using assms(1,6) by (simp_all add: trig_ok_def)
  then show ?thesis using off assms(4,5)
    by (simp add: enable_on_change_activation_def activate_def register_change_callbacks_def register_loop_runs fold_push
        callbacks_are_def sync_activated_def)
qed

text \<open>
  A trigger that lost an input but has all its sensitivity parameters is marked as dead and
  activated at once.
\<close>

theorem dead_but_activated:
  assumes "trig_ok t" and "mode (view t) = Off" and "sensitivity_parameters t \<noteq> []"
    and "\<not> all_exist w (input_parameters t)" and "all_exist w (sensitivity_parameters t)"
  shows "\<exists>t'. activate w t = Inr t' \<and> deactivated_forewer t' \<and> m_is_activated t'"
proof -
  have off: "\<not> m_is_activated t" "\<not> deactivated_forewer t" using assms(2) by (auto simp: view_def split: if_splits)
  then have "callbacks_are [] [] [] t" "activated t \<noteq> None" "enabled_sensitivity_param_change_activation t"
    using assms(1,3) by (simp_all add: trig_ok_def)
  then show ?thesis using off assms(4,5)
    by (cases "enabled_on_change_activation t")
      (auto simp: activate_def register_defs deactivate_set sync_activated_def callbacks_are_def)
qed

text \<open>A dead trigger leaves the value true in the \<^verbatim>\<open>activated\<close> parameter when it is written.\<close>

lemma dead_keeps_activated_parameter:
  "mode (view t) = Dead \<Longrightarrow>
     \<exists>t'. trig_step w (WriteActivated True) t = Inr t' \<and> activated t' = Some True \<and> \<not> m_is_activated t'"
  by (auto simp: activation_param_callback_def activate_def view_def split: if_splits)

section \<open>Intervals\<close>

text \<open>The callbacks of an interval at the times they are due.\<close>

fun elapse :: "world_view \<Rightarrow> nat \<Rightarrow> trigger \<Rightarrow> (nat list \<times> trigger) res" where
  "elapse w 0 t = Inr ([], t)"
| "elapse w (Suc k) t =
     (case sample_event t of
        None \<Rightarrow> Inr ([], t)
      | Some at \<Rightarrow>
          bindr (interval_callback (w\<lparr>now := at\<rparr>) (t\<lparr>sample_event := None\<rparr>)) (\<lambda>t1.
          bindr (elapse w k t1) (\<lambda>(ats, t2). Inr (at # ats, t2))))"

lemma calculate_fields:
  assumes "calculate w t = Inr t'"
  shows "sample_event t' = sample_event t" and "sample_time t' = sample_time t" and "has_calculator t' = has_calculator t"
  using assms by (auto simp: calculate_def split: if_splits)

lemma calculate_total: "has_calculator t \<Longrightarrow> \<exists>t'. calculate w t = Inr t'"
  by (simp add: calculate_def)

lemma elapse_times:
  assumes "sample_event t = Some at" and "has_calculator t"
  shows "\<exists>t'. elapse w k t = Inr (map (\<lambda>i. at + i * sample_time t) [0..<k], t')"
  using assms
proof (induction k arbitrary: t at)
  case (Suc k)
  let ?w = "w\<lparr>now := at\<rparr>" and ?t = "t\<lparr>sample_event := None\<rparr>"
  obtain t1 where t1: "calculate ?w ?t = Inr t1" using calculate_total [of ?t ?w] Suc.prems(2) by auto
  note f = calculate_fields [OF t1]
  let ?t2 = "notify_sample (at + sample_time t1) t1"
  have s: "sample_event ?t2 = Some (at + sample_time t)" "has_calculator ?t2" "sample_time ?t2 = sample_time t"
    using f Suc.prems(2) by (simp_all add: notify_sample_def)
  then obtain t' where t': "elapse w k ?t2 = Inr (map (\<lambda>i. at + sample_time t + i * sample_time t) [0..<k], t')"
    using Suc.IH [of ?t2 "at + sample_time t"] by auto
  have "map (\<lambda>i. at + i * sample_time t) [0..<Suc k] = at # map (\<lambda>i. at + sample_time t + i * sample_time t) [0..<k]"
    by (simp add: upt_conv_Cons map_Suc_upt [symmetric] o_def add.assoc del: upt_Suc)
  then show ?case using Suc.prems(1) t1 t' by (simp add: interval_callback_def)
qed simp

text \<open>
  With a sample interval the callbacks come at its multiples, counted from the time it was set. An
  interval of zero removes the sampling, but not when its callback is already running in the same
  evaluation phase: then the event is notified without delay for ever.
\<close>

lemma samples_at_multiples:
  assumes "has_calculator t" and "0 < sample"
  shows "\<exists>t'. elapse w k (set_sample_interval i v sample t) = Inr (map (\<lambda>j. now v + Suc j * sample) [0..<k], t')"
proof -
  let ?t = "set_sample_interval i v sample t"
  have "sample_event ?t = Some (now v + sample)" "has_calculator ?t" "sample_time ?t = sample"
    using assms by (simp_all add: set_sample_interval_def notify_sample_def Let_def)
  from elapse_times [OF this(1,2), of w k] show ?thesis using \<open>sample_time ?t = sample\<close> by (simp add: add.assoc)
qed

lemma zero_interval_repeats:
  assumes "has_calculator t"
  shows "\<exists>t1. interval_callback v (set_sample_interval i v 0 t) = Inr t1
    \<and> (\<exists>t'. elapse w k t1 = Inr (replicate k (now v), t'))"
proof -
  let ?t = "set_sample_interval i v 0 t"
  have t: "has_calculator ?t" "sample_event ?t = None" "sample_time ?t = 0"
    using assms by (simp_all add: set_sample_interval_def Let_def)
  obtain t0 where t0: "calculate v ?t = Inr t0" using calculate_total [OF t(1)] by blast
  note f = calculate_fields [OF t0]
  let ?t1 = "notify_sample (now v + sample_time t0) t0"
  have s: "sample_event ?t1 = Some (now v)" "has_calculator ?t1" "sample_time ?t1 = 0"
    using f t by (simp_all add: notify_sample_def)
  from elapse_times [OF s(1,2), of w k] s(3)
  have "\<exists>t'. elapse w k ?t1 = Inr (replicate k (now v), t')" by (simp add: map_replicate_const)
  then show ?thesis using t0 by (simp add: interval_callback_def)
qed

section \<open>The name of the activated parameter\<close>

text \<open>It is the name of the object within its module.\<close>

lemma activated_param_name:
  assumes "n \<noteq> []" and "length n < 2 ^ 64 - 2"
  shows "get_activated_param_name md (md @ SC_NAME_DELIMITER # n) local = Inr (n @ ''.activated'')"
    and "get_activated_param_name [] n local
      = Inr ((if hd n = SC_NAME_DELIMITER \<and> tl n = [] then local else if hd n = SC_NAME_DELIMITER then tl n else n) @ ''.activated'')"
  using assms by (cases n; simp add: get_activated_param_name_def str_find_0 substr_def npos_def)+

end
