(* ===== verification/Spec2Isabelle.thy ===== *)
theory Spec2Isabelle
  imports Config_Files Param_Text Object_Pool Address_Map Sparse_Mem Simple_Bus Bind_Checker Generic_Router Mac_Map Rmw_Adapter
    Quantum_Keeper Green_Message Async_Event Sync_Window Calculator Payload_Queue Timing_Support Socket_Extensions
    Array_Text Ext_Array Stat_Trigger
begin

text \<open>
  GreenLib is a C++ productivity library for SystemC models. This development models the logic that its
  parts add to SystemC and TLM and states what makes them correct, or where they are not. The code is
  translated function by function; the names of the sources are kept where HOL allows it. Everything that the library
  calls and does not contain (the SystemC kernel, TLM sockets, the bodies of callbacks, the modules of the user) is
  an argument of the definitions that use it: a function on the state, a list of what was called, or an environment
  that acts while a process waits.

  \<^bold>\<open>Common ground.\<close> \<open>GL_Prelude\<close> has the outcomes of a C++ call (\<open>res\<close>: an error of the
  type \<open>cpp_error\<close> or a value; \<open>bindr\<close> sequences two calls), the searches of \<^verbatim>\<open>std::string\<close>,
  \<^verbatim>\<open>std::map\<close> as a sorted association list with the interface \<open>ordered_map\<close>, and words.
  Unsigned 32 and 64 bit integers are words; sizes and positions are natural numbers where the code cannot wrap around.

  \<^bold>\<open>GreenControl and GreenConfig\<close> (\<^verbatim>\<open>src/greencontrol/include/greencontrol\<close>).
  \<^item> \<open>Gs_Utils\<close>: names of hierarchical parameters, substitution of environment variables
    (\<^verbatim>\<open>gcnf/plugin/utils.h\<close>, \<^verbatim>\<open>gcnf/apis/utils/envvar_subst.h\<close>).
  \<^item> \<open>Gs_Param\<close>: a parameter with its callbacks, locks and attributes (\<^verbatim>\<open>gcnf/apis/gs_param\<close>).
  \<^item> \<open>Config_Database\<close>: the database of implicit and explicit parameters
    (\<^verbatim>\<open>gcnf/plugin/configdatabase.h\<close>) with its invariant over all histories.
  \<^item> \<open>Param_Lifetime\<close>: construction and destruction of parameters in the database. \<open>Simple_Array\<close>, \<open>Array_Text\<close> and
    \<open>Ext_Array\<close>: parameter arrays by position, with sizes and texts, and by name, with the callbacks of
    their members (\<^verbatim>\<open>gs_param_array.hpp\<close>, \<^verbatim>\<open>gs_param_array.h\<close>).
  \<^item> \<open>Control_Core\<close>: service identifiers, ports, the address map and the routing of transactions
    (\<^verbatim>\<open>core\<close>); the routing refines the bindings made so far.
  \<^item> \<open>Object_Pool\<close>: the pool of transactions (\<^verbatim>\<open>core/transport/gc_memoryutils.h\<close>).
  \<^item> \<open>Config_Plugin\<close>: the commands of the configuration plugin and its observers
    (\<^verbatim>\<open>gcnf/plugin/configplugin_t.h\<close>).
  \<^item> \<open>Config_Api\<close>: the API that turns calls into transactions (\<^verbatim>\<open>gcnf/apis/GCnf_Api\<close>); it
    uses the plugin through the locale \<open>config_service\<close>, which is interpreted on core and plugin together.
  \<^item> \<open>Number_Text\<close> and \<open>Param_Text\<close>: the text of integers, and the conversions of the native types (integers, bool,
    characters, strings) of \<^verbatim>\<open>gs_param_native.hpp\<close> with their wrap-around.
  \<^item> \<open>Config_Lines\<close> and \<open>Config_Files\<close>: the line parser, the macros and the reader of configuration files with its buffer of
    1024 characters, and the options of the command line (\<^verbatim>\<open>gcnf/apis/configFileApi\<close>, \<^verbatim>\<open>gcnf/apis/commandLineConfigParserApi\<close>). The set-up of a
    parameter goes through the locale of the plugin.
  \<^item> \<open>Calculator\<close>: functions, formulas and the sliding window of \<^verbatim>\<open>gav/plugin/Calculator.h\<close> and its base, for integers.
    \<open>Stat_Trigger\<close>: what starts a calculation (\<^verbatim>\<open>gav/plugin/Trigger.h\<close>, \<^verbatim>\<open>StatCalc.h\<close>), a machine with the states
    off, on and dead.

  \<^bold>\<open>GreenMessage and GreenThreads\<close> (\<^verbatim>\<open>src/greenmessage\<close>, \<^verbatim>\<open>src/greenthreads\<close>).
  \<^item> \<open>Message_Tree\<close>: a message as a tree of values; it refines a map from paths to texts. \<open>Green_Message\<close>: the registry
    of channels and groups, broadcast, and the commands of the interface.
  \<^item> \<open>Async_Event\<close>: the threads that notify and the two callbacks of the kernel, as interleaved statements of a step
    relation with the mutex and the semaphore in the state. \<open>Sync_Window\<close>: the windows of time of the sources.

  \<^bold>\<open>GreenRouter\<close> (\<^verbatim>\<open>src/greenrouter/include/greenrouter\<close>).
  \<^item> \<open>Address_Map\<close>: the simple address map, its insertion, merging, removal and lookup.
  \<^item> \<open>Router_Scheduler\<close>: the pending requests of a router, the fixed and the dynamic priority scheduler,
    as implementations of one interface.
  \<^item> \<open>Simple_Bus\<close>: the bus protocol over any scheduler: requests, grants, phases, completion.
  \<^item> \<open>Generic_Router\<close>: transports, direct memory regions, moved devices, merged socket configurations, and the
    fallback protocol.
  \<^item> \<open>Mac_Map\<close>: the address map that learns from the frames it routes.

  \<^bold>\<open>GreenSocket\<close> (\<^verbatim>\<open>src/greensocket/include/greensocket\<close>).
  \<^item> \<open>Socket_Config\<close>: configurations of sockets, their comparison and merge.
  \<^item> \<open>Bind_Checker\<close>: the check that the sockets at the ends of all chains of bindings agree.
  \<^item> \<open>Timing_Support\<close>: the timing that connected sockets tell each other, with the modules that answer and the limit
    of their nesting. \<open>Socket_Extensions\<close>: extensions with guards, their pools, and the set of valid ones they refine.
  \<^item> \<open>Quantum_Keeper\<close>: the local time of an initiator and the offset it shares with its observers.

  \<^bold>\<open>GSGP\<close> (\<^verbatim>\<open>src/gsgpsocket\<close>): \<open>Payload_Queue\<close>, the event queue with payloads, with a target that calls it
  back, under the steps of SystemC's kernel.

  \<^bold>\<open>GreenReg\<close> (\<^verbatim>\<open>src/greenreg\<close>).
  \<^item> \<open>Reg_Notify\<close>: events, notification rules and the container that processes them.
  \<^item> \<open>Registers\<close>: store, buffers, bits, bit ranges, accesses by user and bus, creation; \<open>Register_Facts\<close> keeps
    banks well formed, \<open>Register_Access\<close> says what accesses do; \<open>Rmw_Adapter\<close> merges bytes into words over any bus
    that satisfies the locale \<open>word_bus\<close>, of which a register bank is an interpretation.

  \<^bold>\<open>GreenMemory\<close> (\<^verbatim>\<open>src/greenmemory\<close>): \<open>Sparse_Mem\<close>, the pages of a sparse memory and the joining of
  adjacent pages.
  \<^bold>\<open>How the theories are built.\<close> Each theory has the state of its component as a record, one definition per
  operation, the invariant that all operations keep, and the properties. Histories are lists of operations or
  inductive step relations with invariants by induction. Where a component is used through an interface,
  that is a locale, interpreted on the definitions of the component that provides it. Each property of the
  development is the theorem after a numbered text; the theorem with the suffix \<open>_witness\<close> applies it to a
  concrete case. Some theorems state what the code does against its intent; the findings list them.

  \<^bold>\<open>Bounds and fuel.\<close> Loops that end by structure are structural or have a measure. Loops that a callback or a
  wrap-around can prolong take fuel: the cleanup and callback loops of parameters, the substitution of environment
  variables, the processing of rules (one more than the number of rules is enough, \<open>active_rules_in_order\<close>), the
  invalidation of direct memory (two visits per region, \<open>inv_dmi_cuts_range\<close>), the creation of register blocks
  ($2^{32} + 1$, \<open>create_block_terminates\<close>), the binding check (two for linked sockets whose callbacks are passive; others can keep it
  busy for ever). The theorem named shows that the fuel suffices, or that
  no fuel does. The readers of lines, tokens and quoted strings and the reader of a file need no fuel: each step takes a
  character or a line. Positions and indices of messages are below $2^{31}$ where a theorem says so.

  \<^bold>\<open>Parameters.\<close> What the sources use and do not contain is an argument: the trimming of Boost and its option parser, the
  FIFO of SystemC with the laws named in \<open>Green_Message\<close>, simulation time and the quantum of TLM, the parser of the
  command line. The theorems that need laws of them list the laws as hypotheses, and their witnesses use a concrete instance.

  \<^bold>\<open>Not modelled.\<close> Pure input and output (dumps, log and trace files, VCD and CSV writers), code that only forwards to the
  SystemC kernel or to TLM (sockets, ports, their callback binders), the Python and Lua bindings, operator overloads of parameters, examples and
  tests, and code excluded from the build. The manifest lists every part with the reason.
\<close>

section \<open>Properties of the whole configuration service\<close>

text \<open>C1. From the API through the core and the plugin to the database and back: an initial value set
  for a name that is neither locked nor has a parameter object is confirmed, is what the API
  reads afterwards, makes the name exist, and changes no other name; whatever the recycled
  transactions hold and whatever the observers of new parameters answer.\<close>

theorem api_set_then_get:
  assumes "service_ok P c" and "\<not> init_locked c n" and "\<not> has_object c n"
  shows "\<exists>c1 c2. api_setInitValue (config_api P f a stale) n v md c = Inr (True, c1)
    \<and> api_getValue (config_api P f a stale) n md q c1 = Inr (v, c2)
    \<and> api_existsParam (config_api P f a stale) n md c2 = Inr (True, c2)
    \<and> (\<forall>m. m \<noteq> n \<longrightarrow> init_of c2 m = init_of c m \<and> known_param c2 m = known_param c m)"
  using cfg.set_then_get [OF assms, of f a stale v md q] by (simp only: config_api_cfg)

lemma sample_service:
  "service_ok sample_plug sample_core" "\<not> init_locked sample_core ''m.p''" "\<not> has_object sample_core ''m.p''"
  using sample_plugin_ok(1,3)
  by (simp_all add: service_ok_def service_view_defs db_view_defs sample_core_def sample_cnf_def
      sample_plug_def decode_def getAddrFromService_def mm_equal_range_def)

lemma api_set_then_get_witness:
  "\<exists>c1 c2. api_setInitValue (config_api sample_plug (\<lambda>_ t. t) 3 (\<lambda>_. new_transaction 0 0)) ''m.p'' ''5'' [] sample_core
      = Inr (True, c1)
    \<and> api_getValue (config_api sample_plug (\<lambda>_ t. t) 3 (\<lambda>_. new_transaction 0 0)) ''m.p'' [] False c1 = Inr (''5'', c2)"
  using api_set_then_get [OF sample_service] by blast

text \<open>C21. When the API has set an initial value for a name that is neither locked nor has a
  parameter object, and has locked it, then at any time later, whatever transactions the service has
  handled since (of any command, for this name or others) and whatever the owners of parameter
  objects did to these: the API reports every attempt to set or to lock the initial value as failed, the attempt to set
  it changes nothing, and as long as no parameter object stands under the name the API reads the locked
  value. (With an object, the API reads what the object holds.)\<close>

theorem api_locked_value_is_final:
  assumes "service_ok P c" and "\<not> init_locked c n" and "\<not> has_object c n"
  shows "\<exists>c1 c2. api_setInitValue (config_api P f a stale) n v md c = Inr (True, c1)
    \<and> api_lockInitValue (config_api P f a stale) n md c1 = Inr (True, c2)
    \<and> (\<forall>c3. later (with_observers P f) c2 c3 \<longrightarrow>
         api_setInitValue (config_api P f a stale) n w md c3 = Inr (False, c3)
         \<and> (\<exists>c4. api_lockInitValue (config_api P f a stale) n md c3 = Inr (False, c4))
         \<and> (\<not> has_object c3 n \<longrightarrow> (\<exists>c4. api_getValue (config_api P f a stale) n md q c3 = Inr (v, c4))))"
proof -
  from cfg.set_then_lock [OF assms, of f a stale v md] obtain c1 c2 where
    r: "api_setInitValue (config_api P f a stale) n v md c = Inr (True, c1)"
      "api_lockInitValue (config_api P f a stale) n md c1 = Inr (True, c2)"
    and c2: "service_ok P c2" "init_locked c2 n" "init_of c2 n = v"
    by (auto simp: config_api_cfg)
  have "api_setInitValue (config_api P f a stale) n w md c3 = Inr (False, c3)
      \<and> (\<exists>c4. api_lockInitValue (config_api P f a stale) n md c3 = Inr (False, c4))
      \<and> (\<not> has_object c3 n \<longrightarrow> (\<exists>c4. api_getValue (config_api P f a stale) n md q c3 = Inr (v, c4)))"
    if "later (with_observers P f) c2 c3" for c3
  proof -
    have "service_ok P c3" "init_locked c3 n" "known_param c3 n" "init_of c3 n = v"
      using later_keeps [OF that c2(1)] plugin_le_locked [OF _ c2(2)] c2(3) by auto
    then show ?thesis using cfg.locked_answers [of P c3 n f a stale w md q] by (simp add: config_api_cfg)
  qed
  then show ?thesis using r by blast
qed

text \<open>
  After the lock, a transaction adds a parameter object under another name; the locked value is still read.
\<close>

lemma api_locked_value_is_final_witness:
  "\<exists>c2 c3 t t'. config_send (with_observers sample_plug (\<lambda>_ t. t)) t c2 = Inr (t', c3) \<and> mCmd t = CMD_ADD_PARAM
     \<and> api_setInitValue (config_api sample_plug (\<lambda>_ t. t) 3 (\<lambda>_. new_transaction 0 0)) ''m.p'' ''6'' [] c3 = Inr (False, c3)
     \<and> (\<exists>c4. api_getValue (config_api sample_plug (\<lambda>_ t. t) 3 (\<lambda>_. new_transaction 0 0)) ''m.p'' [] False c3 = Inr (''5'', c4))"
proof -
  let ?A = "config_api sample_plug (\<lambda>_ t. t) 3 (\<lambda>_. new_transaction 0 0)" and ?Q = "with_observers sample_plug (\<lambda>_ t. t)"
  let ?t = "(new_transaction 0 0)\<lparr>mService := CONFIG_SERVICE, mCmd := CMD_ADD_PARAM, mSpecifier := ''m.q'', mValue := ''1''\<rparr>"
  obtain c1 c2 where r: "api_setInitValue ?A ''m.p'' ''5'' [] sample_core = Inr (True, c1)"
      "api_lockInitValue ?A ''m.p'' [] c1 = Inr (True, c2)"
    and later: "\<And>c3. later ?Q c2 c3 \<Longrightarrow> api_setInitValue ?A ''m.p'' ''6'' [] c3 = Inr (False, c3)
      \<and> (\<not> has_object c3 ''m.p'' \<longrightarrow> (\<exists>c4. api_getValue ?A ''m.p'' [] False c3 = Inr (''5'', c4)))"
    using api_locked_value_is_final [OF sample_service, of "\<lambda>_ t. t" 3 "\<lambda>_. new_transaction 0 0" "''5''" "[]" "''6''" False] by blast
  have "case api_setInitValue ?A ''m.p'' ''5'' [] sample_core of Inl _ \<Rightarrow> False | Inr (_, c1) \<Rightarrow>
      (case api_lockInitValue ?A ''m.p'' [] c1 of Inl _ \<Rightarrow> False | Inr (_, c2) \<Rightarrow>
         heap (cnf_of c2) (new_param_addr ?Q (cnf_of c2)) = None \<and>
         (case config_send ?Q ?t c2 of Inl _ \<Rightarrow> False | Inr (_, c3) \<Rightarrow> \<not> has_object c3 ''m.p''))"
    by code_simp
  then obtain t' c3 where s: "config_send ?Q ?t c2 = Inr (t', c3)" "\<not> has_object c3 ''m.p''"
      "heap (cnf_of c2) (new_param_addr ?Q (cnf_of c2)) = None"
    using r by (auto split: sum.splits)
  have "later ?Q c2 c3"
    by (rule later.served [OF later.now _ _ s(3,1)]) (simp_all add: new_transaction_def)
  from later [OF this] s show ?thesis by (intro exI [of _ c2] exI [of _ c3] exI [of _ ?t] exI [of _ t']) simp
qed

end
